(* ===== verification/RQ_Prelude.thy ===== *)
theory RQ_Prelude
  imports Complex_Main "HOL-Library.Multiset"
begin

text \<open>
  Shared vocabulary of the development: Python errors as values, the result type of fallible code
  with its sequencing operator, tensors with a device and a dtype tag, the tensor operations along
  the sequence axis that several components use (slices, running sums, scatter), what is relied on
  of the sorting primitives of the tensor library, and generic lemmas on lists.

  Floating-point arithmetic is idealised to exact real arithmetic. Where the program converts a
  tensor to another dtype, the rounding is a parameter (\<open>cast\<close>) of the model.
\<close>

named_theorems result_simps \<open>sequencing of fallible operations\<close>
named_theorems list_ops \<open>lengths and elements of the list operations along one tensor axis\<close>

section \<open>Errors and results\<close>

datatype py_error =
    KeyError | IndexError | TypeError | ValueError | AssertionError | RuntimeError
  | AttributeError | NameError | UnboundLocalError | NotImplementedError | ZeroDivisionError | OverflowError

type_synonym 'a result = "py_error + 'a"

fun bindE :: "'a result \<Rightarrow> ('a \<Rightarrow> 'b result) \<Rightarrow> 'b result" where
  "bindE (Inl e) f = Inl e"
| "bindE (Inr x) f = f x"

lemma bindE_eq_Inr [result_simps]:
  "bindE r f = Inr y \<longleftrightarrow> (\<exists>x. r = Inr x \<and> f x = Inr y)"
  by (cases r) auto

lemma bindE_eq_Inl [result_simps]:
  "bindE r f = Inl e \<longleftrightarrow> r = Inl e \<or> (\<exists>x. r = Inr x \<and> f x = Inl e)"
  by (cases r) auto

text \<open>Elimination rules, one per number of components of the intermediate result.\<close>

lemma bindE_InrE:
  assumes "bindE r f = Inr y"
  obtains x where "r = Inr x" "f x = Inr y"
  using assms by (cases r) simp_all

lemma bindE_InrE2:
  assumes "bindE r (\<lambda>(a, b). f a b) = Inr y"
  obtains a b where "r = Inr (a, b)" "f a b = Inr y"
  using assms by (cases r) auto

lemma bindE_InrE3:
  assumes "bindE r (\<lambda>(a, b, c). f a b c) = Inr y"
  obtains a b c where "r = Inr (a, b, c)" "f a b c = Inr y"
  using assms by (cases r) auto

lemma bindE_InrE4:
  assumes "bindE r (\<lambda>(a, b, c, d). f a b c d) = Inr y"
  obtains a b c d where "r = Inr (a, b, c, d)" "f a b c d = Inr y"
  using assms by (cases r) auto

lemma bindE_InrE5:
  assumes "bindE r (\<lambda>(a, b, c, d, e). f a b c d e) = Inr y"
  obtains a b c d e where "r = Inr (a, b, c, d, e)" "f a b c d e = Inr y"
  using assms by (cases r) auto

lemma bindE_assoc: "bindE (bindE r f) g = bindE r (\<lambda>x. bindE (f x) g)"
  by (cases r) auto

lemma bindE_cong: "r = r' \<Longrightarrow> (\<And>x. r' = Inr x \<Longrightarrow> f x = g x) \<Longrightarrow> bindE r f = bindE r' g"
  by (cases r') auto

text \<open>\<open>d[k]\<close> on a dictionary raises on a missing key.\<close>

definition dict_get :: "('k \<rightharpoonup> 'v) \<Rightarrow> 'k \<Rightarrow> 'v result" where
  "dict_get m k = (case m k of None \<Rightarrow> Inl KeyError | Some v \<Rightarrow> Inr v)"

lemma dict_get_Inr [result_simps]: "dict_get m k = Inr v \<longleftrightarrow> m k = Some v"
  by (simp add: dict_get_def split: option.split)

lemma dict_get_Inl [result_simps]: "dict_get m k = Inl e \<longleftrightarrow> m k = None \<and> e = KeyError"
  by (auto simp: dict_get_def split: option.split)

lemma dict_get_Some [simp]: "m k = Some v \<Longrightarrow> dict_get m k = Inr v"
  by (simp add: result_simps)

lemma dict_get_None [simp]: "m k = None \<Longrightarrow> dict_get m k = Inl KeyError"
  by (simp add: result_simps)

section \<open>Tensors\<close>

type_synonym device = nat

datatype dtype = Float32 | Float16 | BFloat16

text \<open>A tensor whose contents are a value of type \<open>'a\<close>, with its shape and the device and dtype it lives in.\<close>

record 'a ten =
  ten_dev :: device
  ten_dtype :: dtype
  ten_shape :: "nat list"
  ten_val :: 'a

text \<open>A tensor of shape \<open>[bs, num_heads, len, head_dim]\<close>.\<close>

record tensor4 =
  t_bs :: nat
  t_heads :: nat
  t_len :: nat
  t_dim :: nat
  t_dev :: device
  t_dtype :: dtype
  t_at :: "nat \<Rightarrow> nat \<Rightarrow> nat \<Rightarrow> nat \<Rightarrow> real"

type_synonym mat = "nat \<Rightarrow> nat \<Rightarrow> real"
type_synonym cast = "dtype \<Rightarrow> real \<Rightarrow> real"

definition same_shape :: "tensor4 \<Rightarrow> tensor4 \<Rightarrow> bool" where
  "same_shape x y \<longleftrightarrow> t_bs x = t_bs y \<and> t_heads x = t_heads y \<and> t_len x = t_len y \<and> t_dim x = t_dim y"

definition dot :: "nat \<Rightarrow> (nat \<Rightarrow> real) \<Rightarrow> (nat \<Rightarrow> real) \<Rightarrow> real" where
  "dot D x y = (\<Sum>d<D. x d * y d)"

text \<open>
  \<open>c.view(1, heads, 1, dim)\<close> of a matrix and \<open>c.view(1, heads, 1, 1)\<close> of a vector: the number of entries has to agree, and a
  matrix of another shape with as many entries is read row by row.
\<close>

definition view_heads :: "nat \<Rightarrow> nat \<Rightarrow> mat ten \<Rightarrow> mat result" where
  "view_heads heads D c =
     (case ten_shape c of
        [h, d] \<Rightarrow> if h = heads \<and> d = D then Inr (ten_val c)
                   else if h * d = heads * D then Inr (\<lambda>i j. ten_val c ((i * D + j) div d) ((i * D + j) mod d))
                   else Inl RuntimeError
      | _ \<Rightarrow> Inl RuntimeError)"

definition view_vec :: "nat \<Rightarrow> (nat \<Rightarrow> real) ten \<Rightarrow> (nat \<Rightarrow> real) result" where
  "view_vec heads c = (if ten_shape c = [heads] then Inr (ten_val c) else Inl RuntimeError)"

lemma view_heads_same [simp]: "ten_shape c = [heads, D] \<Longrightarrow> view_heads heads D c = Inr (ten_val c)"
  by (simp add: view_heads_def)

lemma view_vec_same [simp]: "ten_shape c = [heads] \<Longrightarrow> view_vec heads c = Inr (ten_val c)"
  by (simp add: view_vec_def)

text \<open>Broadcasting of two axes: equal, or one of them of size 1, which is then read at 0 for every index.\<close>

definition bcast :: "nat \<Rightarrow> nat \<Rightarrow> nat result" where
  "bcast m n = (if m = n \<or> n = 1 then Inr m else if m = 1 then Inr n else Inl RuntimeError)"

definition bidx :: "nat \<Rightarrow> nat \<Rightarrow> nat \<Rightarrow> nat" where
  "bidx n m i = (if n = m then i else 0)"

lemma bcast_same [simp]: "bcast n n = Inr n"
  by (simp add: bcast_def)

lemma bidx_same [simp]: "bidx n n i = i"
  by (simp add: bidx_def)

text \<open>\<open>x @ P\<close> and \<open>x @ P.T\<close> on the last axis.\<close>

definition vec_mat :: "nat \<Rightarrow> (nat \<Rightarrow> real) \<Rightarrow> mat \<Rightarrow> nat \<Rightarrow> real" where
  "vec_mat D x P = (\<lambda>j. \<Sum>i<D. x i * P i j)"

definition vec_mat_T :: "nat \<Rightarrow> (nat \<Rightarrow> real) \<Rightarrow> mat \<Rightarrow> nat \<Rightarrow> real" where
  "vec_mat_T D x P = (\<lambda>j. \<Sum>i<D. x i * P j i)"

lemma dot_commute: "dot D x y = dot D y x"
  by (simp add: dot_def mult.commute)

lemma dot_nonneg_self: "0 \<le> dot D x x"
  by (simp add: dot_def sum_nonneg)

lemma dot_diff_left: "dot D (\<lambda>d. x d - y d) z = dot D x z - dot D y z"
  by (simp add: dot_def left_diff_distrib sum_subtractf)

lemma dot_diff_right: "dot D z (\<lambda>d. x d - y d) = dot D z x - dot D z y"
  by (simp add: dot_def right_diff_distrib sum_subtractf)

lemma dot_scale_left: "dot D (\<lambda>d. x d / c) z = dot D x z / c"
  by (simp add: dot_def sum_divide_distrib)

lemma dot_scale_right: "dot D z (\<lambda>d. x d / c) = dot D z x / c"
  by (simp add: dot_def sum_divide_distrib)

text \<open>Moving a matrix across a dot product: \<open>\<langle>x, u P\<rangle> = \<langle>x P\<^sup>T, u\<rangle>\<close>.\<close>

lemma dot_vec_mat: "dot D x (vec_mat D u P) = dot D (vec_mat_T D x P) u"
proof -
  have "dot D x (vec_mat D u P) = (\<Sum>d<D. \<Sum>i<D. x d * (u i * P i d))"
    by (simp add: dot_def vec_mat_def sum_distrib_left)
  also have "\<dots> = (\<Sum>i<D. \<Sum>d<D. x d * (u i * P i d))"
    by (rule sum.swap)
  also have "\<dots> = dot D (vec_mat_T D x P) u"
    by (simp add: dot_def vec_mat_T_def sum_distrib_right sum_distrib_left mult_ac)
  finally show ?thesis .
qed

section \<open>Operations along the sequence axis\<close>

text \<open>\<open>torch.cumsum\<close>: running sums.\<close>

fun cumsum_from :: "real \<Rightarrow> real list \<Rightarrow> real list" where
  "cumsum_from a [] = []"
| "cumsum_from a (x # xs) = (a + x) # cumsum_from (a + x) xs"

definition cumsum :: "real list \<Rightarrow> real list" where
  "cumsum xs = cumsum_from 0 xs"

lemma length_cumsum_from [simp, list_ops]: "length (cumsum_from a xs) = length xs"
  by (induction xs arbitrary: a) auto

lemma nth_cumsum_from:
  "i < length xs \<Longrightarrow> cumsum_from a xs ! i = a + sum_list (take (Suc i) xs)"
proof (induction xs arbitrary: a i)
  case (Cons x xs)
  then show ?case by (cases i) auto
qed simp

lemma length_cumsum [simp, list_ops]: "length (cumsum xs) = length xs"
  by (simp add: cumsum_def)

lemma nth_cumsum [list_ops]: "i < length xs \<Longrightarrow> cumsum xs ! i = sum_list (take (Suc i) xs)"
  by (simp add: cumsum_def nth_cumsum_from)

text \<open>
  \<open>dst.scatter_(dim=-1, index=idx, src=src)\<close> on pairs of \<open>idx\<close> and \<open>src\<close>: position
  \<open>idx[i]\<close> receives \<open>src[i]\<close>, in order.
\<close>

fun scatter_loop :: "'a list \<Rightarrow> (nat \<times> 'a) list \<Rightarrow> 'a list" where
  "scatter_loop dst [] = dst"
| "scatter_loop dst ((i, v) # ivs) = scatter_loop (dst[i := v]) ivs"

text \<open>\<open>dst[a:a+len(src)] = src\<close>, for a source that fits.\<close>

definition set_slice :: "'a list \<Rightarrow> nat \<Rightarrow> 'a list \<Rightarrow> 'a list" where
  "set_slice dst a src = take a dst @ src @ drop (a + length src) dst"

lemma length_set_slice [list_ops]:
  "a + length src \<le> length dst \<Longrightarrow> length (set_slice dst a src) = length dst"
  by (simp add: set_slice_def)

lemma nth_set_slice [list_ops]:
  "a + length src \<le> length dst \<Longrightarrow> j < length dst \<Longrightarrow>
   set_slice dst a src ! j = (if a \<le> j \<and> j < a + length src then src ! (j - a) else dst ! j)"
  by (auto simp: set_slice_def nth_append)

lemma length_scatter_loop [simp, list_ops]: "length (scatter_loop dst ivs) = length dst"
  by (induction dst ivs rule: scatter_loop.induct) auto

lemma scatter_loop_notin:
  "j \<notin> fst ` set ivs \<Longrightarrow> scatter_loop dst ivs ! j = dst ! j"
  by (induction dst ivs rule: scatter_loop.induct) auto

lemma scatter_loop_in:
  "distinct (map fst ivs) \<Longrightarrow> (j, v) \<in> set ivs \<Longrightarrow> j < length dst \<Longrightarrow> scatter_loop dst ivs ! j = v"
proof (induction dst ivs rule: scatter_loop.induct)
  case (2 dst i w ivs)
  show ?case
  proof (cases "(j, v) = (i, w)")
    case True
    with 2 show ?thesis by (simp add: scatter_loop_notin)
  next
    case False
    with 2 show ?thesis by auto
  qed
qed simp

section \<open>Softmax\<close>

definition softmax :: "real list \<Rightarrow> real list" where
  "softmax xs = map (\<lambda>x. exp x / (\<Sum>y\<leftarrow>xs. exp y)) xs"

lemma length_softmax [simp, list_ops]: "length (softmax xs) = length xs"
  by (simp add: softmax_def)

lemma sum_list_exp_pos: "xs \<noteq> [] \<Longrightarrow> 0 < (\<Sum>y\<leftarrow>xs. exp (y::real))"
proof (induction xs)
  case (Cons a xs)
  have "0 \<le> (\<Sum>y\<leftarrow>xs. exp y)" by (rule sum_list_nonneg) auto
  then show ?case by (simp add: add_pos_nonneg)
qed simp

lemma softmax_pos: "p \<in> set (softmax xs) \<Longrightarrow> 0 < p"
  by (auto simp: softmax_def intro!: divide_pos_pos sum_list_exp_pos)

lemma sum_list_divide: "sum_list (map (\<lambda>x. f x / c) xs) = sum_list (map f xs) / (c::real)"
  by (induction xs) (auto simp: add_divide_distrib)

lemma softmax_sum: "xs \<noteq> [] \<Longrightarrow> sum_list (softmax xs) = 1"
  using sum_list_exp_pos [of xs] by (simp add: softmax_def sum_list_divide)

section \<open>What is relied on of the sorting primitives\<close>

text \<open>
  \<open>torch.sort(descending=True)\<close> and \<open>torch.topk\<close> are library code: the model takes them as
  parameters. The documentation promises the sorted values together with the indices they came
  from, and nothing about the order of equal elements.
\<close>

type_synonym sorter = "real list \<Rightarrow> real list \<times> nat list"
type_synonym topk_op = "nat \<Rightarrow> real list \<Rightarrow> nat list"

definition sort_desc_spec :: "sorter \<Rightarrow> bool" where
  "sort_desc_spec srt \<longleftrightarrow> (\<forall>xs. let (vs, idx) = srt xs in
      distinct idx \<and> set idx = {..<length xs} \<and> vs = map ((!) xs) idx \<and> sorted_wrt (\<ge>) vs)"

lemma sort_desc_specD:
  assumes "sort_desc_spec srt" "srt xs = (vs, idx)"
  shows "distinct idx" "set idx = {..<length xs}" "vs = map ((!) xs) idx" "sorted_wrt (\<ge>) vs"
  using assms(1) unfolding sort_desc_spec_def by (drule_tac x = xs in spec, simp add: assms(2))+

definition topk_spec :: "topk_op \<Rightarrow> bool" where
  "topk_spec tk \<longleftrightarrow> (\<forall>k xs. k \<le> length xs \<longrightarrow>
      distinct (tk k xs) \<and> length (tk k xs) = k \<and> set (tk k xs) \<subseteq> {..<length xs} \<and>
      (\<forall>i \<in> set (tk k xs). \<forall>j < length xs. j \<notin> set (tk k xs) \<longrightarrow> xs ! j \<le> xs ! i))"

text \<open>An executable instance of both, stable on ties.\<close>

definition argsort_desc :: "real list \<Rightarrow> nat list" where
  "argsort_desc xs = sort_key (\<lambda>i. - xs ! i) [0..<length xs]"

definition sort_desc_ref :: sorter where
  "sort_desc_ref xs = (map ((!) xs) (argsort_desc xs), argsort_desc xs)"

definition topk_ref :: topk_op where
  "topk_ref k xs = take k (argsort_desc xs)"

lemma argsort_desc_perm: "distinct (argsort_desc xs)" "set (argsort_desc xs) = {..<length xs}"
  by (auto simp: argsort_desc_def)

lemma argsort_desc_sorted: "sorted_wrt (\<ge>) (map ((!) xs) (argsort_desc xs))"
proof -
  have "sorted (map (\<lambda>i. - xs ! i) (argsort_desc xs))"
    by (simp add: argsort_desc_def)
  then show ?thesis
    by (simp add: sorted_wrt_map)
qed

lemma sort_desc_ref_spec: "sort_desc_spec sort_desc_ref"
  by (simp add: sort_desc_spec_def sort_desc_ref_def argsort_desc_perm argsort_desc_sorted)

lemma topk_ref_spec: "topk_spec topk_ref"
proof -
  have "xs ! j \<le> xs ! i"
    if "k \<le> length xs" "i \<in> set (take k (argsort_desc xs))" "j < length xs"
      "j \<notin> set (take k (argsort_desc xs))" for k xs i j
  proof -
    let ?a = "argsort_desc xs"
    have "j \<in> set (drop k ?a)"
      using that argsort_desc_perm(2) [of xs]
      by (metis Un_iff append_take_drop_id lessThan_iff set_append)
    moreover have "sorted_wrt (\<ge>) (map ((!) xs) (take k ?a) @ map ((!) xs) (drop k ?a))"
      using argsort_desc_sorted [of xs] by (simp flip: map_append)
    ultimately show ?thesis
      using that(2) by (fastforce simp: sorted_wrt_append)
  qed
  moreover have "length (argsort_desc xs) = length xs" for xs
    by (simp add: argsort_desc_def)
  ultimately show ?thesis
    using argsort_desc_perm set_take_subset
    by (fastforce simp: topk_spec_def topk_ref_def)
qed

end
