(* ===== verification/RabitQ_State.thy ===== *)
theory RabitQ_State
  imports RQ_Prelude
begin

text \<open>
  \<open>rabitqcache/pyimpl/rabitq.py\<close>: the class \<open>RabitQState\<close>. Its dictionaries keyed by layer are
  maps; a tensor \<open>[num_heads, head_dim]\<close> is a matrix with a device and a dtype; the four parallel
  Python lists of \<open>quantized_data\<close> hold segments (length along the token axis, contents).
  Methods that mutate \<open>self\<close> return the new state; a raised exception is \<open>Inl\<close>; the two
  \<open>while\<close> loops are partial functions whose value \<open>None\<close> is "does not return".
\<close>

section \<open>State\<close>

text \<open>
  The tensors appended together have the same batch, heads and head dimension: \<open>seg_shapes\<close> records them for each position of the
  four lists.
\<close>

record qdata =
  codes :: "(nat \<times> (nat \<Rightarrow> nat \<Rightarrow> nat \<Rightarrow> nat \<Rightarrow> int)) list"
  norms :: "(nat \<times> (nat \<Rightarrow> nat \<Rightarrow> nat \<Rightarrow> real)) list"
  o_Obar :: "(nat \<times> (nat \<Rightarrow> nat \<Rightarrow> nat \<Rightarrow> real)) list"
  cq_dot_kr :: "(nat \<times> (nat \<Rightarrow> nat \<Rightarrow> nat \<Rightarrow> real)) list"
  seg_shapes :: "(nat \<times> nat \<times> nat) list"

definition empty_qdata :: qdata where
  "empty_qdata = \<lparr>codes = [], norms = [], o_Obar = [], cq_dot_kr = [], seg_shapes = []\<rparr>"

record rq_state =
  quantize_interval :: nat
  q_centroids :: "nat \<rightharpoonup> mat ten"
  k_centroids :: "nat \<rightharpoonup> mat ten"
  cq_dot_ck :: "nat \<rightharpoonup> (nat \<Rightarrow> real) ten"
  rotation_matrices :: "nat \<rightharpoonup> mat ten"
  quantized_data :: "nat \<rightharpoonup> qdata"
  num_quantized_tokens :: "nat \<rightharpoonup> nat"
  is_trained :: "nat \<rightharpoonup> bool"

definition init_state :: "nat \<Rightarrow> rq_state" where
  "init_state interval =
     \<lparr>quantize_interval = interval, q_centroids = Map.empty, k_centroids = Map.empty,
      cq_dot_ck = Map.empty, rotation_matrices = Map.empty, quantized_data = Map.empty,
      num_quantized_tokens = Map.empty, is_trained = Map.empty\<rparr>"

definition eps8 :: real where
  "eps8 = 1 / 10 ^ 8"

section \<open>Devices and rotation\<close>

definition ensure_device :: "(nat \<rightharpoonup> 'a ten) \<Rightarrow> nat \<Rightarrow> device \<Rightarrow> ('a ten \<times> (nat \<rightharpoonup> 'a ten)) result" where
  "ensure_device tensor_dict layer_id dev =
     bindE (dict_get tensor_dict layer_id) (\<lambda>t.
       if ten_dev t \<noteq> dev
       then let t' = t\<lparr>ten_dev := dev\<rparr> in Inr (t', tensor_dict(layer_id \<mapsto> t'))
       else Inr (t, tensor_dict))"

text \<open>\<open>P.to(device, dtype)\<close>: the entries are rounded when the dtype changes.\<close>

definition to_dtype :: "cast \<Rightarrow> dtype \<Rightarrow> mat ten \<Rightarrow> mat ten" where
  "to_dtype cast dt P =
     (if ten_dtype P = dt then P
      else P\<lparr>ten_dtype := dt, ten_val := \<lambda>i j. cast dt (ten_val P i j)\<rparr>)"

lemma ten_shape_to_dtype [simp]: "ten_shape (to_dtype cast dt P) = ten_shape P"
  by (simp add: to_dtype_def)

definition get_rotation ::
  "cast \<Rightarrow> rq_state \<Rightarrow> nat \<Rightarrow> device \<Rightarrow> dtype \<Rightarrow> (mat ten \<times> rq_state) result" where
  "get_rotation cast s layer_id dev dt =
     bindE (dict_get (rotation_matrices s) layer_id) (\<lambda>P.
       if ten_dev P \<noteq> dev \<or> ten_dtype P \<noteq> dt
       then let P' = (to_dtype cast dt P)\<lparr>ten_dev := dev\<rparr>
            in Inr (P', s\<lparr>rotation_matrices := (rotation_matrices s)(layer_id \<mapsto> P')\<rparr>)
       else Inr (P, s))"

text \<open>The matrix is square; a product with a tensor of another last axis raises.\<close>

definition rotation :: "cast \<Rightarrow> rq_state \<Rightarrow> tensor4 \<Rightarrow> nat \<Rightarrow> (tensor4 \<times> rq_state) result" where
  "rotation cast s x layer_id =
     bindE (get_rotation cast s layer_id (t_dev x) (t_dtype x)) (\<lambda>(P, s').
       if ten_shape P \<noteq> [t_dim x, t_dim x] then Inl RuntimeError
       else Inr (x\<lparr>t_at := \<lambda>b h t. vec_mat (t_dim x) (t_at x b h t) (ten_val P)\<rparr>, s'))"

definition inv_rotation :: "cast \<Rightarrow> rq_state \<Rightarrow> tensor4 \<Rightarrow> nat \<Rightarrow> (tensor4 \<times> rq_state) result" where
  "inv_rotation cast s x layer_id =
     bindE (get_rotation cast s layer_id (t_dev x) (t_dtype x)) (\<lambda>(P, s').
       if ten_shape P \<noteq> [t_dim x, t_dim x] then Inl RuntimeError
       else Inr (x\<lparr>t_at := \<lambda>b h t. vec_mat_T (t_dim x) (t_at x b h t) (ten_val P)\<rparr>, s'))"

section \<open>Training\<close>

text \<open>
  \<open>x.transpose(1, 2).reshape(bs * len, heads, dim).mean(dim=0)\<close>: the mean over batch and token,
  per head and channel.
\<close>

definition centroid :: "tensor4 \<Rightarrow> mat" where
  "centroid x = (\<lambda>h d. (\<Sum>b<t_bs x. \<Sum>t<t_len x. t_at x b h t d) / real (t_bs x * t_len x))"

text \<open>
  \<open>qr layer dim\<close> stands for the factor \<open>Q\<close> of \<open>torch.linalg.qr\<close> on the random
  \<open>dim \<times> dim\<close> matrix drawn for that layer. Keys with another number of entries than the queries cannot be
  reshaped; neither are keys of another shape in this model (the prefill hook repeats the key heads, so that the shapes are equal).
\<close>

definition train ::
  "(nat \<Rightarrow> nat \<Rightarrow> mat) \<Rightarrow> rq_state \<Rightarrow> tensor4 \<Rightarrow> tensor4 \<Rightarrow> nat \<Rightarrow> rq_state result" where
  "train qr s query_states key_states layer_id =
     (if is_trained s layer_id = None \<or> is_trained s layer_id = Some False then
        (let s1 = (if rotation_matrices s layer_id = None
                   then s\<lparr>rotation_matrices := (rotation_matrices s)(layer_id \<mapsto>
                            \<lparr>ten_dev = t_dev query_states, ten_dtype = Float32,
                             ten_shape = [t_dim query_states, t_dim query_states],
                             ten_val = qr layer_id (t_dim query_states)\<rparr>)\<rparr>
                   else s)
         in if \<not> same_shape query_states key_states then Inl RuntimeError
            else (let qc = centroid query_states; kc = centroid key_states;
                      tag = (\<lambda>x v. \<lparr>ten_dev = t_dev x, ten_dtype = t_dtype x,
                                     ten_shape = [t_heads query_states, t_dim query_states], ten_val = v\<rparr>)
                  in Inr (s1\<lparr>q_centroids := (q_centroids s1)(layer_id \<mapsto> tag query_states qc),
                             k_centroids := (k_centroids s1)(layer_id \<mapsto> tag key_states kc),
                             cq_dot_ck := (cq_dot_ck s1)(layer_id \<mapsto>
                                \<lparr>ten_dev = t_dev query_states, ten_dtype = t_dtype query_states, ten_shape = [t_heads query_states],
                                 ten_val = (\<lambda>h. dot (t_dim query_states) (qc h) (kc h))\<rparr>),
                             is_trained := (is_trained s1)(layer_id \<mapsto> True)\<rparr>)))
      else Inr s)"

section \<open>Quantization\<close>

text \<open>\<open>key_states[:, :, start:end, :]\<close>.\<close>

definition slice_tokens :: "tensor4 \<Rightarrow> nat \<Rightarrow> nat \<Rightarrow> tensor4" where
  "slice_tokens x st en =
     x\<lparr>t_len := min en (t_len x) - min st (t_len x), t_at := \<lambda>b h t. t_at x b h (st + t)\<rparr>"

definition center :: "tensor4 \<Rightarrow> mat \<Rightarrow> tensor4" where
  "center x c = x\<lparr>t_at := \<lambda>b h t d. t_at x b h t d - c h d\<rparr>"

text \<open>\<open>(2 * code - 1) / sqrt(head_dim)\<close>.\<close>

definition code_vec :: "nat \<Rightarrow> (nat \<Rightarrow> int) \<Rightarrow> nat \<Rightarrow> real" where
  "code_vec D c = (\<lambda>d. (2 * real_of_int (c d) - 1) / sqrt (real D))"

text \<open>The entry of a layer is created before its first batch.\<close>

definition init_quantized_data :: "rq_state \<Rightarrow> nat \<Rightarrow> rq_state" where
  "init_quantized_data s layer_id =
     (if quantized_data s layer_id = None
      then s\<lparr>quantized_data := (quantized_data s)(layer_id \<mapsto> empty_qdata),
             num_quantized_tokens := (num_quantized_tokens s)(layer_id \<mapsto> 0)\<rparr>
      else s)"

definition quantize_keys_batch ::
  "cast \<Rightarrow> rq_state \<Rightarrow> tensor4 \<Rightarrow> nat \<Rightarrow> nat \<Rightarrow> nat \<Rightarrow> rq_state result" where
  "quantize_keys_batch cast s key_states layer_id start_idx end_idx =
     (let s0 = init_quantized_data s layer_id;
          keys_to_quantize = slice_tokens key_states start_idx end_idx;
          n = t_len keys_to_quantize; H = t_heads keys_to_quantize; D = t_dim keys_to_quantize;
          dev = t_dev keys_to_quantize
      in bindE (ensure_device (k_centroids s0) layer_id dev) (\<lambda>(kc, kcs).
         bindE (ensure_device (q_centroids s0) layer_id dev) (\<lambda>(qc, qcs).
         bindE (view_heads H D kc) (\<lambda>k_centroid.
         let s1 = s0\<lparr>k_centroids := kcs, q_centroids := qcs\<rparr>;
             Krc = center keys_to_quantize k_centroid;
             K_norms = (\<lambda>b h t. sqrt (\<Sum>d<D. (t_at Krc b h t d)\<^sup>2));
             K = (\<lambda>b h t d. t_at Krc b h t d / (K_norms b h t + eps8))
         in bindE (inv_rotation cast s1 Krc layer_id) (\<lambda>(Krc_rotated, s2).
         let Xbarb = (\<lambda>b h t d. if t_at Krc_rotated b h t d > 0 then 1 else 0);
             Kbar_unrotated = Krc\<lparr>t_dtype := Float32, t_at := \<lambda>b h t. code_vec D (Xbarb b h t)\<rparr>
         in bindE (rotation cast s2 Kbar_unrotated layer_id) (\<lambda>(Kbar, s3).
         bindE (view_heads H D qc) (\<lambda>q_centroid.
         let o_Kbar = (\<lambda>b h t. dot D (K b h t) (t_at Kbar b h t));
             cqkr = (\<lambda>b h t. dot D (t_at keys_to_quantize b h t) (q_centroid h))
         in bindE (dict_get (quantized_data s3) layer_id) (\<lambda>qd.
         Inr (s3\<lparr>quantized_data := (quantized_data s3)(layer_id \<mapsto>
                    qd\<lparr>codes := codes qd @ [(n, Xbarb)], norms := norms qd @ [(n, K_norms)],
                       o_Obar := o_Obar qd @ [(n, o_Kbar)],
                       cq_dot_kr := cq_dot_kr qd @ [(n, cqkr)],
                       seg_shapes := seg_shapes qd @ [(t_bs keys_to_quantize, H, D)]\<rparr>),
                 num_quantized_tokens := (num_quantized_tokens s3)(layer_id \<mapsto> end_idx)\<rparr>)))))))))"

partial_function (option) initial_loop ::
  "cast \<Rightarrow> rq_state \<Rightarrow> tensor4 \<Rightarrow> nat \<Rightarrow> nat \<Rightarrow> rq_state result option" where
  "initial_loop cast s key_states layer_id start =
     (if start < t_len key_states
      then (let en = min (start + quantize_interval s) (t_len key_states)
            in case quantize_keys_batch cast s key_states layer_id start en of
                 Inl e \<Rightarrow> Some (Inl e)
               | Inr s' \<Rightarrow> initial_loop cast s' key_states layer_id en)
      else Some (Inr s))"

definition quantize_initial_keys ::
  "cast \<Rightarrow> rq_state \<Rightarrow> tensor4 \<Rightarrow> nat \<Rightarrow> rq_state result option" where
  "quantize_initial_keys cast s key_states layer_id =
     initial_loop cast s key_states layer_id (quantize_interval s)"

partial_function (option) decode_loop ::
  "cast \<Rightarrow> rq_state \<Rightarrow> tensor4 \<Rightarrow> nat \<Rightarrow> nat \<Rightarrow> rq_state result option" where
  "decode_loop cast s key_states layer_id start =
     (if start + quantize_interval s \<le> t_len key_states
      then (let en = start + quantize_interval s
            in case quantize_keys_batch cast s key_states layer_id start en of
                 Inl e \<Rightarrow> Some (Inl e)
               | Inr s' \<Rightarrow> decode_loop cast s' key_states layer_id en)
      else Some (Inr s))"

definition quantize_new_decode_tokens ::
  "cast \<Rightarrow> rq_state \<Rightarrow> tensor4 \<Rightarrow> nat \<Rightarrow> rq_state result option" where
  "quantize_new_decode_tokens cast s key_states layer_id =
     (case num_quantized_tokens s layer_id of
        None \<Rightarrow> Some (Inr s)
      | Some num_already_quantized \<Rightarrow>
          (if t_len key_states \<ge> num_already_quantized + quantize_interval s
           then decode_loop cast s key_states layer_id num_already_quantized
           else Some (Inr s)))"

section \<open>Estimated inner products\<close>

text \<open>\<open>torch.cat(segments, dim=2)\<close>, the row of one batch entry and head.\<close>

definition cat_row :: "(nat \<times> (nat \<Rightarrow> nat \<Rightarrow> nat \<Rightarrow> 'a)) list \<Rightarrow> nat \<Rightarrow> nat \<Rightarrow> 'a list" where
  "cat_row segs b h = concat (map (\<lambda>(n, f). map (f b h) [0..<n]) segs)"

definition cat_len :: "(nat \<times> 'a) list \<Rightarrow> nat" where
  "cat_len segs = sum_list (map fst segs)"

text \<open>\<open>torch.cat\<close> needs the same sizes on the other axes.\<close>

definition cat_shape :: "(nat \<times> nat \<times> nat) list \<Rightarrow> (nat \<times> nat \<times> nat) result" where
  "cat_shape shs =
     (case shs of
        [] \<Rightarrow> Inl RuntimeError
      | sh # rest \<Rightarrow> if \<forall>sh' \<in> set rest. sh' = sh then Inr sh else Inl RuntimeError)"

lemma cat_shape_same: "shs \<noteq> [] \<Longrightarrow> \<forall>sh' \<in> set shs. sh' = sh \<Longrightarrow> cat_shape shs = Inr sh"
  by (cases shs) (auto simp: cat_shape_def)

text \<open>
  The result of \<open>distances\<close>, or no result: its batch and heads, the length of its last axis and its rows. The product of the query with the
  codes broadcasts the axes on which they differ.
\<close>

type_synonym score_rows = "nat \<times> (nat \<Rightarrow> nat \<Rightarrow> nat \<Rightarrow> real list)"

definition distances ::
  "cast \<Rightarrow> rq_state \<Rightarrow> tensor4 \<Rightarrow> nat \<Rightarrow> nat \<Rightarrow> ((nat \<times> nat \<times> score_rows) option \<times> rq_state) result" where
  "distances cast s query_states layer_id quantized_seq_len =
     (case quantized_data s layer_id of
        None \<Rightarrow> Inr (None, s)
      | Some qd \<Rightarrow>
          if codes qd = [] then Inr (None, s)
          else (let bs = t_bs query_states; H = t_heads query_states; D = t_dim query_states; dev = t_dev query_states in
            bindE (ensure_device (q_centroids s) layer_id dev) (\<lambda>(qc, qcs).
            bindE (ensure_device (k_centroids s) layer_id dev) (\<lambda>(kc, kcs).
            bindE (ensure_device (cq_dot_ck s) layer_id dev) (\<lambda>(cc, ccs).
            let s1 = s\<lparr>q_centroids := qcs, k_centroids := kcs, cq_dot_ck := ccs\<rparr> in
            bindE (cat_shape (seg_shapes qd)) (\<lambda>(bs', H', D').
            let cds = (\<lambda>b h. take quantized_seq_len (cat_row (codes qd) b h));
                nrm = (\<lambda>b h. take quantized_seq_len (cat_row (norms qd) b h));
                okb = (\<lambda>b h. take quantized_seq_len (cat_row (o_Obar qd) b h));
                cqk = (\<lambda>b h. take quantized_seq_len (cat_row (cq_dot_kr qd) b h));
                m = min quantized_seq_len (cat_len (codes qd))
            in bindE (view_heads H D qc) (\<lambda>q_centroid.
            bindE (inv_rotation cast s1 (center query_states q_centroid) layer_id) (\<lambda>(qbar, s2).
            bindE (bcast bs bs') (\<lambda>B. bindE (bcast H H') (\<lambda>HH. bindE (bcast D D') (\<lambda>DD.
            bindE (view_heads H D kc) (\<lambda>k_centroid.
            bindE (view_vec H cc) (\<lambda>cqck.
            let xbar_qbar = (\<lambda>b h i t. dot DD (\<lambda>d. t_at qbar (bidx bs B b) (bidx H HH h) i (bidx D DD d))
                                  (\<lambda>d. code_vec D (cds (bidx bs' B b) (bidx H' HH h) ! t) (bidx D' DD d)));
                q_dot_k_unit = (\<lambda>b h i t. xbar_qbar b h i t / (okb (bidx bs' B b) (bidx H' HH h) ! t + eps8));
                qr_dot_ck = (\<lambda>b h i. dot D (t_at query_states b h i) (k_centroid h));
                inner_product = (\<lambda>b h i t. nrm (bidx bs' B b) (bidx H' HH h) ! t * q_dot_k_unit b h i t
                                   + qr_dot_ck (bidx bs B b) (bidx H HH h) i
                                   + cqk (bidx bs' B b) (bidx H' HH h) ! t - cqck (bidx H HH h))
            in Inr (Some (B, HH, m, \<lambda>b h i. map (inner_product b h i) [0..<m]), s2))))))))))))))"

definition reset_layer :: "rq_state \<Rightarrow> nat \<Rightarrow> rq_state" where
  "reset_layer s layer_id =
     (if quantized_data s layer_id \<noteq> None
      then s\<lparr>quantized_data := (quantized_data s)(layer_id \<mapsto> empty_qdata),
             num_quantized_tokens := (num_quantized_tokens s)(layer_id \<mapsto> 0)\<rparr>
      else s)"

section \<open>The process-wide state and the selector\<close>

text \<open>The module variable \<open>_rabitq_state\<close>.\<close>

definition get_rabitq_state :: "nat \<Rightarrow> rq_state option \<Rightarrow> rq_state" where
  "get_rabitq_state interval g = (case g of None \<Rightarrow> init_state interval | Some s \<Rightarrow> s)"

definition reset_rabitq_state :: "rq_state option \<Rightarrow> rq_state option" where
  "reset_rabitq_state g = None"

text \<open>Top-p selection of one row of probabilities, placed back at the original positions.\<close>

definition top_p_row :: "sorter \<Rightarrow> real \<Rightarrow> nat \<Rightarrow> real list \<Rightarrow> bool list" where
  "top_p_row srt top_p quantized_length probs =
     (let (sorted_probs, sorted_indices) = srt probs;
          cumsum_probs = cumsum sorted_probs;
          top_p_mask = (map (\<lambda>c. c \<le> top_p) cumsum_probs)[0 := True]
      in scatter_loop (replicate quantized_length False) (zip sorted_indices top_p_mask))"

type_synonym mask_rows = "nat \<Rightarrow> nat \<Rightarrow> nat \<Rightarrow> bool list"

text \<open>
  The mask of each (batch entry, head, query); the model state is handed back because the
  selector quantizes pending tokens on the way.
\<close>

definition rabitq_selector ::
  "cast \<Rightarrow> sorter \<Rightarrow> rq_state option \<Rightarrow> nat \<Rightarrow> tensor4 \<Rightarrow> tensor4 \<Rightarrow> nat \<Rightarrow> real
   \<Rightarrow> (mask_rows \<times> rq_state) result option" where
  "rabitq_selector cast srt g layer_id query_states key_states quantize_interval' top_p =
     (let head_dim = t_dim query_states; seq_length = t_len key_states;
          rabitq_state = get_rabitq_state quantize_interval' g
      in if is_trained rabitq_state layer_id = None \<or> is_trained rabitq_state layer_id = Some False
         then Some (Inr (\<lambda>b h i. replicate seq_length True, rabitq_state))
         else (let mask = replicate (min quantize_interval' seq_length) True
                          @ replicate (seq_length - quantize_interval') False
               in if seq_length \<le> quantize_interval' then Some (Inr (\<lambda>b h i. mask, rabitq_state))
         else (case quantize_new_decode_tokens cast rabitq_state key_states layer_id of
                 None \<Rightarrow> None
               | Some (Inl e) \<Rightarrow> Some (Inl e)
               | Some (Inr s1) \<Rightarrow>
           (let last_quantized_idx = (case num_quantized_tokens s1 layer_id of
                                        None \<Rightarrow> quantize_interval' | Some n \<Rightarrow> n);
                mask1 = (if last_quantized_idx < seq_length
                         then take last_quantized_idx mask
                              @ replicate (seq_length - last_quantized_idx) True
                         else mask);
                quantized_length = last_quantized_idx - quantize_interval'
            in if last_quantized_idx > quantize_interval'
               then (case distances cast s1 query_states layer_id quantized_length of
                       Inl e \<Rightarrow> Some (Inl e)
                     | Inr (None, s2) \<Rightarrow> Some (Inl TypeError)
                     | Inr (Some (B, HH, m, rows), s2) \<Rightarrow>
                        (if m = 0 then Some (Inl IndexError)
                         else if t_bs query_states < B \<or> t_heads query_states < HH then Some (Inl RuntimeError)
                         else if last_quantized_idx > seq_length then Some (Inl RuntimeError)
                         else Some (Inr (\<lambda>b h i.
                           set_slice mask1 quantize_interval'
                             (if B < t_bs query_states \<or> HH < t_heads query_states then replicate quantized_length False
                              else top_p_row srt top_p quantized_length
                                     (softmax (map (\<lambda>x. x / sqrt (real head_dim)) (rows b h i)))), s2))))
               else Some (Inr (\<lambda>b h i. mask1, s1))))))"

end
