(* ===== verification/RabitQ_Quant.thy ===== *)
theory RabitQ_Quant
  imports RabitQ_State
begin

text \<open>
  What the batched, incremental quantization of \<open>RabitQState\<close> amounts to: one reference function
  per stored quantity of a token, and the invariant that the concatenated segments of a layer are
  the reference values of a contiguous range of tokens, however the range was cut into batches.
\<close>

section \<open>Reference values of one token\<close>

definition token_code :: "nat \<Rightarrow> mat \<Rightarrow> (nat \<Rightarrow> real) \<Rightarrow> (nat \<Rightarrow> real) \<Rightarrow> nat \<Rightarrow> int" where
  "token_code D R c k = (\<lambda>d. if vec_mat_T D (\<lambda>j. k j - c j) R d > 0 then 1 else 0)"

definition token_norm :: "nat \<Rightarrow> (nat \<Rightarrow> real) \<Rightarrow> (nat \<Rightarrow> real) \<Rightarrow> real" where
  "token_norm D c k = sqrt (\<Sum>d<D. (k d - c d)\<^sup>2)"

definition token_o :: "nat \<Rightarrow> mat \<Rightarrow> (nat \<Rightarrow> real) \<Rightarrow> (nat \<Rightarrow> real) \<Rightarrow> real" where
  "token_o D R c k =
     dot D (\<lambda>d. (k d - c d) / (token_norm D c k + eps8)) (vec_mat D (code_vec D (token_code D R c k)) R)"

text \<open>A conversion to a dtype rounds to a representable value, and widening to float32 is exact.\<close>

definition cast_spec :: "cast \<Rightarrow> bool" where
  "cast_spec cast \<longleftrightarrow> (\<forall>dt x. cast dt (cast dt x) = cast dt x) \<and> (\<forall>dt x. cast Float32 (cast dt x) = cast dt x)"

definition representable :: "cast \<Rightarrow> mat ten \<Rightarrow> bool" where
  "representable cast P \<longleftrightarrow> (\<forall>i j. cast (ten_dtype P) (ten_val P i j) = ten_val P i j)"

text \<open>
  A trained layer: its centroids and their product, and the rotation \<open>R\<close> that a tensor of dtype
  \<open>dt\<close> meets, for \<open>snd bh\<close> heads of \<open>D\<close> channels.
\<close>

definition layer_has ::
  "cast \<Rightarrow> dtype \<Rightarrow> nat \<times> nat \<Rightarrow> nat \<Rightarrow> mat \<Rightarrow> mat \<Rightarrow> mat \<Rightarrow> (nat \<Rightarrow> real) \<Rightarrow> rq_state \<Rightarrow> nat \<Rightarrow> bool" where
  "layer_has cast dt bh D R kc qc cc s l \<longleftrightarrow>
     (\<exists>K Q C P. ten_shape K = [snd bh, D] \<and> ten_shape Q = [snd bh, D] \<and> ten_shape C = [snd bh] \<and> ten_shape P = [D, D] \<and>
        k_centroids s l = Some K \<and> ten_val K = kc \<and> q_centroids s l = Some Q \<and> ten_val Q = qc \<and>
        cq_dot_ck s l = Some C \<and> ten_val C = cc \<and> rotation_matrices s l = Some P \<and>
        representable cast P \<and> ten_val (to_dtype cast dt P) = R)"

type_synonym token_src = "nat \<Rightarrow> nat \<Rightarrow> nat \<Rightarrow> nat \<Rightarrow> real"

definition holds_tokens ::
  "nat \<Rightarrow> mat \<Rightarrow> mat \<Rightarrow> mat \<Rightarrow> token_src \<Rightarrow> nat \<Rightarrow> nat \<Rightarrow> qdata \<Rightarrow> bool" where
  "holds_tokens D R kc qc src lo hi qd \<longleftrightarrow> (\<forall>b h.
     cat_row (codes qd) b h = map (\<lambda>t. token_code D R (kc h) (src b h t)) [lo..<hi] \<and>
     cat_row (norms qd) b h = map (\<lambda>t. token_norm D (kc h) (src b h t)) [lo..<hi] \<and>
     cat_row (o_Obar qd) b h = map (\<lambda>t. token_o D R (kc h) (src b h t)) [lo..<hi] \<and>
     cat_row (cq_dot_kr qd) b h = map (\<lambda>t. dot D (src b h t) (qc h)) [lo..<hi])"

text \<open>
  The invariant: nothing was quantized yet, or the stored data are those of the tokens
  \<open>lo\<close> to \<open>hi\<close> and \<open>hi\<close> is the recorded number of quantized tokens; all of them have the batch and heads \<open>bh\<close>.
\<close>

definition quant_inv ::
  "cast \<Rightarrow> dtype \<Rightarrow> nat \<times> nat \<Rightarrow> nat \<Rightarrow> mat \<Rightarrow> mat \<Rightarrow> mat \<Rightarrow> (nat \<Rightarrow> real) \<Rightarrow> token_src \<Rightarrow> nat \<Rightarrow> nat
   \<Rightarrow> rq_state \<Rightarrow> nat \<Rightarrow> bool" where
  "quant_inv cast dt bh D R kc qc cc src lo hi s l \<longleftrightarrow>
     layer_has cast dt bh D R kc qc cc s l \<and>
     (quantized_data s l = None \<and> num_quantized_tokens s l = None \<and> lo = hi \<or>
      (\<exists>qd. quantized_data s l = Some qd \<and> codes qd \<noteq> [] \<and> num_quantized_tokens s l = Some hi \<and>
            seg_shapes qd \<noteq> [] \<and> (\<forall>sh \<in> set (seg_shapes qd). sh = (fst bh, snd bh, D)) \<and> holds_tokens D R kc qc src lo hi qd))"

section \<open>Segments\<close>

lemma cat_row_Nil [simp]: "cat_row [] b h = []"
  by (simp add: cat_row_def)

lemma cat_row_snoc [simp]: "cat_row (segs @ [(n, f)]) b h = cat_row segs b h @ map (f b h) [0..<n]"
  by (simp add: cat_row_def)

lemma length_cat_row [list_ops]: "length (cat_row segs b h) = cat_len segs"
  by (induction segs) (auto simp: cat_row_def cat_len_def)

lemma map_upt_shift: "map (\<lambda>t. f (a + t)) [0..<n] = map f [a..<a + n]"
  by (rule nth_equalityI) auto

lemma upt_split: "lo \<le> st \<Longrightarrow> st \<le> en \<Longrightarrow> [lo..<en] = [lo..<st] @ [st..<en]"
  by (metis le_add_diff_inverse upt_add_eq_append)

lemma cat_row_snoc_src:
  assumes "st \<le> en" and "\<And>t. st \<le> t \<Longrightarrow> t < en \<Longrightarrow> g b h t = src b h t"
  shows "cat_row (segs @ [(en - st, \<lambda>b h t. f h (g b h (st + t)))]) b h =
         cat_row segs b h @ map (\<lambda>t. f h (src b h t)) [st..<en]"
  using assms by (simp add: map_upt_shift [of "\<lambda>t. f h (g b h t)" st "en - st"])

section \<open>One batch\<close>

lemma ensure_device_Some:
  "dct l = Some t \<Longrightarrow>
   ensure_device dct l dev = Inr (t\<lparr>ten_dev := dev\<rparr>, dct(l \<mapsto> t\<lparr>ten_dev := dev\<rparr>))"
  by (cases "ten_dev t = dev") (auto simp: ensure_device_def Let_def map_upd_triv)

lemma get_rotation_Some:
  assumes "rotation_matrices s l = Some P"
  shows "get_rotation cast s l dev dt =
     (let P' = (to_dtype cast dt P)\<lparr>ten_dev := dev\<rparr>
      in Inr (P', s\<lparr>rotation_matrices := (rotation_matrices s)(l \<mapsto> P')\<rparr>))"
proof (cases "ten_dev P \<noteq> dev \<or> ten_dtype P \<noteq> dt")
  case True
  with assms show ?thesis by (auto simp: get_rotation_def)
next
  case False
  then have "(to_dtype cast dt P)\<lparr>ten_dev := dev\<rparr> = P"
    by (auto simp: to_dtype_def)
  moreover have "s\<lparr>rotation_matrices := (rotation_matrices s)(l \<mapsto> P)\<rparr> = s"
    using assms by (simp add: map_upd_triv)
  ultimately show ?thesis
    using False assms by (auto simp: get_rotation_def Let_def)
qed

lemma to_dtype_facts:
  assumes "cast_spec cast" "representable cast P"
  shows "representable cast (to_dtype cast dt P)"
    and "ten_val (to_dtype cast Float32 (to_dtype cast dt P)) = ten_val (to_dtype cast dt P)"
    and "ten_dtype (to_dtype cast dt P) = dt"
proof -
  have id: "cast dt' (cast dt' x) = cast dt' x" "cast Float32 (cast dt' x) = cast dt' x" for dt' x
    using assms(1) by (auto simp: cast_spec_def)
  have r: "cast (ten_dtype P) (ten_val P i j) = ten_val P i j" for i j
    using assms(2) by (auto simp: representable_def)
  show "representable cast (to_dtype cast dt P)"
    using r id by (auto simp: representable_def to_dtype_def)
  have "cast Float32 (ten_val P i j) = ten_val P i j" for i j
    using id(2) [of "ten_dtype P" "ten_val P i j"] r [of i j] by simp
  then show "ten_val (to_dtype cast Float32 (to_dtype cast dt P)) = ten_val (to_dtype cast dt P)"
    using id by (auto simp: to_dtype_def fun_eq_iff)
  show "ten_dtype (to_dtype cast dt P) = dt"
    by (simp add: to_dtype_def)
qed

text \<open>The same rotation is met again after the detour through float32.\<close>

lemma to_dtype_again:
  assumes "cast_spec cast" "representable cast P"
  shows "ten_val (to_dtype cast dt ((to_dtype cast Float32 ((to_dtype cast dt P)\<lparr>ten_dev := v\<rparr>))\<lparr>ten_dev := w\<rparr>))
         = ten_val (to_dtype cast dt P)" (is "?again = _")
    and "representable cast ((to_dtype cast Float32 ((to_dtype cast dt P)\<lparr>ten_dev := v\<rparr>))\<lparr>ten_dev := w\<rparr>)"
proof -
  have dev: "ten_val (to_dtype cast e (A\<lparr>ten_dev := u\<rparr>)) = ten_val (to_dtype cast e A)"
    "representable cast (A\<lparr>ten_dev := u\<rparr>) = representable cast A"
    "to_dtype cast e (A\<lparr>ten_dev := u\<rparr>) = (to_dtype cast e A)\<lparr>ten_dev := u\<rparr>" for e A u
    by (simp_all add: to_dtype_def representable_def)
  let ?A = "to_dtype cast dt P" and ?B = "to_dtype cast Float32 (to_dtype cast dt P)"
  have A: "ten_val ?B = ten_val ?A" "representable cast ?A" "representable cast ?B"
    using to_dtype_facts [OF assms, of dt] to_dtype_facts(1) [OF assms(1), of ?A Float32] by auto
  have "ten_val (to_dtype cast dt ?B) = ten_val ?A"
  proof (cases "dt = Float32")
    case True
    then show ?thesis using A(1) by (simp add: to_dtype_def split: if_splits)
  next
    case False
    have "cast dt (ten_val ?A i j) = ten_val ?A i j" for i j
      using A(2) to_dtype_facts(3) [OF assms, of dt] by (auto simp: representable_def)
    moreover have "ten_dtype ?B = Float32" by (simp add: to_dtype_def)
    ultimately show ?thesis
      using False A(1) by (auto simp: to_dtype_def [of cast dt ?B] fun_eq_iff)
  qed
  then show "?again = ten_val ?A" and
    "representable cast ((to_dtype cast Float32 ((to_dtype cast dt P)\<lparr>ten_dev := v\<rparr>))\<lparr>ten_dev := w\<rparr>)"
    using A(3) by (simp_all add: dev)
qed


lemma quantize_keys_batch_inv:
  assumes cast: "cast_spec cast" and inv: "quant_inv cast dt bh D R kc qc cc src lo st s l"
    and k: "(t_bs k, t_heads k) = bh" "t_dim k = D" "t_dtype k = dt" and ord: "lo \<le> st" "st \<le> en" "en \<le> t_len k"
    and src: "\<And>b h t. st \<le> t \<Longrightarrow> t < en \<Longrightarrow> t_at k b h t = src b h t"
  shows "\<exists>s'. quantize_keys_batch cast s k l st en = Inr s' \<and>
           quant_inv cast dt bh D R kc qc cc src lo en s' l \<and> num_quantized_tokens s' l = Some en \<and>
           quantize_interval s' = quantize_interval s \<and> is_trained s' = is_trained s"
proof -
  obtain K Q C P where has: "k_centroids s l = Some K" "ten_val K = kc" "q_centroids s l = Some Q"
      "ten_val Q = qc" "cq_dot_ck s l = Some C" "ten_val C = cc" "rotation_matrices s l = Some P"
      "representable cast P" "ten_val (to_dtype cast dt P) = R"
    and sh: "ten_shape K = [snd bh, D]" "ten_shape Q = [snd bh, D]" "ten_shape C = [snd bh]" "ten_shape P = [D, D]"
    using inv by (auto simp: quant_inv_def layer_has_def)
  have kh: "t_heads k = snd bh" "t_bs k = fst bh" using k(1) by auto
  define qd0 where "qd0 = (case quantized_data s l of None \<Rightarrow> empty_qdata | Some qd \<Rightarrow> qd)"
  have qd0: "holds_tokens D R kc qc src lo st qd0"
    "\<forall>sh \<in> set (seg_shapes qd0). sh = (fst bh, snd bh, D)"
    using inv by (auto simp: quant_inv_def qd0_def holds_tokens_def empty_qdata_def)
  define P1 where "P1 = (to_dtype cast dt P)\<lparr>ten_dev := t_dev k\<rparr>"
  define P2 where "P2 = (to_dtype cast Float32 P1)\<lparr>ten_dev := t_dev k\<rparr>"
  have P: "ten_val P1 = R" "ten_val P2 = R" "representable cast P2" "ten_val (to_dtype cast dt P2) = R"
  proof -
    show "ten_val P1 = R" using has by (simp add: P1_def)
    have "ten_val (to_dtype cast Float32 P1) = ten_val (to_dtype cast Float32 (to_dtype cast dt P))"
      by (simp add: P1_def to_dtype_def)
    then show "ten_val P2 = R"
      using to_dtype_facts(2) [OF cast has(8), of dt] has by (simp add: P2_def)
    show "representable cast P2" "ten_val (to_dtype cast dt P2) = R"
      using to_dtype_again [OF cast has(8), where dt = dt and v = "t_dev k" and w = "t_dev k"] has
      by (simp_all add: P1_def P2_def)
  qed
  have n: "t_len (slice_tokens k st en) = en - st"
    using ord by (simp add: slice_tokens_def)
  let ?seg = "\<lambda>f. (en - st, \<lambda>b h t. f h (t_at k b h (st + t)))"
  define qd1 where "qd1 = \<lparr>codes = codes qd0 @ [?seg (\<lambda>h. token_code D R (kc h))],
      norms = norms qd0 @ [?seg (\<lambda>h. token_norm D (kc h))],
      o_Obar = o_Obar qd0 @ [?seg (\<lambda>h. token_o D R (kc h))],
      cq_dot_kr = cq_dot_kr qd0 @ [?seg (\<lambda>h x. dot D x (qc h))], seg_shapes = seg_shapes qd0 @ [(fst bh, snd bh, D)]\<rparr>"
  define s' where "s' = s\<lparr>k_centroids := (k_centroids s)(l \<mapsto> K\<lparr>ten_dev := t_dev k\<rparr>),
      q_centroids := (q_centroids s)(l \<mapsto> Q\<lparr>ten_dev := t_dev k\<rparr>),
      rotation_matrices := (rotation_matrices s)(l \<mapsto> P2),
      quantized_data := (quantized_data s)(l \<mapsto> qd1),
      num_quantized_tokens := (num_quantized_tokens s)(l \<mapsto> en)\<rparr>"
  have run: "quantize_keys_batch cast s k l st en = Inr s'"
    using has sh kh k(2,3) P n
    by (cases "quantized_data s l")
       (auto intro!: rq_state.equality qdata.equality simp: quantize_keys_batch_def init_quantized_data_def ensure_device_Some inv_rotation_def rotation_def
          get_rotation_Some Let_def s'_def qd1_def qd0_def P1_def P2_def center_def slice_tokens_def
          token_code_def token_norm_def token_o_def)
  note snoc = cat_row_snoc_src [OF ord(2), where g = "t_at k" and src = src, OF src]
  have "holds_tokens D R kc qc src lo en qd1"
    using qd0(1) upt_split [OF ord(1,2)]
    by (simp add: holds_tokens_def qd1_def snoc [where f = "\<lambda>h. token_code D R (kc h)"]
         snoc [where f = "\<lambda>h. token_norm D (kc h)"] snoc [where f = "\<lambda>h. token_o D R (kc h)"]
         snoc [where f = "\<lambda>h x. dot D x (qc h)"] del: cat_row_snoc)
  moreover have "layer_has cast dt bh D R kc qc cc s' l"
    using has sh P by (auto simp: layer_has_def s'_def P1_def P2_def to_dtype_def)
  ultimately have "quant_inv cast dt bh D R kc qc cc src lo en s' l"
    using qd0(2) by (auto simp: quant_inv_def s'_def qd1_def)
  with run show ?thesis by (auto simp: s'_def)
qed

section \<open>The loops\<close>

text \<open>Prefill: the loop returns, and everything from \<open>start\<close> on is quantized.\<close>

lemma initial_loop_inv:
  assumes cast: "cast_spec cast" and k: "(t_bs k, t_heads k) = bh" "t_dim k = D" "t_dtype k = dt"
    and src: "\<And>b h t. t < t_len k \<Longrightarrow> t_at k b h t = src b h t"
  shows "quant_inv cast dt bh D R kc qc cc src lo start s l \<Longrightarrow> 0 < quantize_interval s \<Longrightarrow>
         lo \<le> start \<Longrightarrow> start \<le> t_len k \<Longrightarrow>
         \<exists>s'. initial_loop cast s k l start = Some (Inr s') \<and>
           quant_inv cast dt bh D R kc qc cc src lo (t_len k) s' l \<and>
           (start < t_len k \<longrightarrow> num_quantized_tokens s' l = Some (t_len k)) \<and>
           quantize_interval s' = quantize_interval s \<and> is_trained s' = is_trained s"
proof (induction "t_len k - start" arbitrary: start s rule: less_induct)
  case less
  show ?case
  proof (cases "start < t_len k")
    case False
    with less.prems show ?thesis by (subst initial_loop.simps) auto
  next
    case True
    let ?en = "min (start + quantize_interval s) (t_len k)"
    have "start < ?en" "?en \<le> t_len k" using True less.prems by auto
    obtain s1 where s1: "quantize_keys_batch cast s k l start ?en = Inr s1"
      "quant_inv cast dt bh D R kc qc cc src lo ?en s1 l" "num_quantized_tokens s1 l = Some ?en"
      "quantize_interval s1 = quantize_interval s" "is_trained s1 = is_trained s"
    proof (rule exE [OF quantize_keys_batch_inv [OF cast less.prems(1) k less.prems(3)]])
      show "start \<le> ?en" "?en \<le> t_len k" using \<open>start < ?en\<close> by auto
      show "t_at k b h t = src b h t" if "t < ?en" for b h t using src that by simp
    qed blast
    obtain s' where s': "initial_loop cast s1 k l ?en = Some (Inr s')"
      "quant_inv cast dt bh D R kc qc cc src lo (t_len k) s' l"
      "?en < t_len k \<longrightarrow> num_quantized_tokens s' l = Some (t_len k)"
      "quantize_interval s' = quantize_interval s" "is_trained s' = is_trained s"
    proof (rule exE [OF less.hyps [of ?en s1]])
      show "t_len k - ?en < t_len k - start" using \<open>start < ?en\<close> True by simp
      show "quant_inv cast dt bh D R kc qc cc src lo ?en s1 l" by (rule s1(2))
      show "0 < quantize_interval s1" "lo \<le> ?en" "?en \<le> t_len k"
        using s1(4) less.prems \<open>start < ?en\<close> by simp_all
    qed (use s1(4,5) in auto)
    have "num_quantized_tokens s' l = Some (t_len k)"
    proof (cases "?en < t_len k")
      case False
      then have "s' = s1" using s'(1) by (subst (asm) initial_loop.simps) auto
      with False s1(3) show ?thesis by simp
    qed (use s' in simp)
    with s' s1(1) True show ?thesis
      by (subst initial_loop.simps) (simp add: Let_def)
  qed
qed

text \<open>Decode: whole batches only; fewer than an interval of tokens stay behind.\<close>

lemma decode_loop_inv:
  assumes cast: "cast_spec cast" and k: "(t_bs k, t_heads k) = bh" "t_dim k = D" "t_dtype k = dt"
    and src: "\<And>b h t. t < t_len k \<Longrightarrow> t_at k b h t = src b h t"
  shows "quant_inv cast dt bh D R kc qc cc src lo start s l \<Longrightarrow> quantize_interval s = i \<Longrightarrow> 0 < i \<Longrightarrow>
         lo \<le> start \<Longrightarrow> num_quantized_tokens s l = Some start \<Longrightarrow>
         \<exists>s'. decode_loop cast s k l start = Some (Inr s') \<and>
           quant_inv cast dt bh D R kc qc cc src lo (start + i * ((t_len k - start) div i)) s' l \<and>
           num_quantized_tokens s' l = Some (start + i * ((t_len k - start) div i)) \<and>
           quantize_interval s' = i \<and> is_trained s' = is_trained s"
proof (induction "t_len k - start" arbitrary: start s rule: less_induct)
  case less
  show ?case
  proof (cases "start + i \<le> t_len k")
    case False
    with less.prems have "(t_len k - start) div i = 0" by simp
    with False less.prems show ?thesis by (subst decode_loop.simps) auto
  next
    case True
    let ?en = "start + i"
    obtain s1 where s1: "quantize_keys_batch cast s k l start ?en = Inr s1"
      "quant_inv cast dt bh D R kc qc cc src lo ?en s1 l" "num_quantized_tokens s1 l = Some ?en"
      "quantize_interval s1 = quantize_interval s" "is_trained s1 = is_trained s"
    proof (rule exE [OF quantize_keys_batch_inv [OF cast less.prems(1) k less.prems(4)]])
      show "start \<le> ?en" "?en \<le> t_len k" using True by auto
      show "t_at k b h t = src b h t" if "t < ?en" for b h t using src that True by simp
    qed blast
    have div: "(t_len k - start) div i = Suc ((t_len k - ?en) div i)"
    proof -
      have eq: "t_len k - start = i + (t_len k - ?en)" using True by linarith
      have "(i + (t_len k - ?en)) div i = Suc ((t_len k - ?en) div i)"
        using less.prems(3) div_add_self1 [of i "t_len k - ?en"] by (simp del: diff_diff_left)
      then show ?thesis by (simp only: eq)
    qed
    obtain s' where "decode_loop cast s1 k l ?en = Some (Inr s')"
      "quant_inv cast dt bh D R kc qc cc src lo (?en + i * ((t_len k - ?en) div i)) s' l"
      "num_quantized_tokens s' l = Some (?en + i * ((t_len k - ?en) div i))"
      "quantize_interval s' = i" "is_trained s' = is_trained s"
    proof (rule exE [OF less.hyps [of ?en s1]])
      show "t_len k - ?en < t_len k - start" using True less.prems(3) by simp
      show "quant_inv cast dt bh D R kc qc cc src lo ?en s1 l" by (rule s1(2))
      show "quantize_interval s1 = i" "0 < i" "lo \<le> ?en" "num_quantized_tokens s1 l = Some ?en"
        using s1(3,4) less.prems by simp_all
    qed (use s1(5) in auto)
    moreover have "decode_loop cast s k l start = decode_loop cast s1 k l ?en"
      using s1(1) True less.prems(2) by (subst decode_loop.simps) (simp add: Let_def)
    moreover have "start + i * ((t_len k - start) div i) = ?en + i * ((t_len k - ?en) div i)"
      by (simp only: div mult_Suc_right add.assoc)
    ultimately show ?thesis by metis
  qed
qed

end
