(* ===== verification/TopP.thy ===== *)
theory TopP
  imports RabitQ_State
begin

text \<open>
  The top-p rule of the selector (\<open>rabitq.py\<close>, step 3): sort the probabilities in descending
  order, keep the positions whose running sum is at most \<open>top_p\<close> and always the first one, and
  scatter the decision back. The lemmas say which set of tokens that is.
\<close>

definition selected :: "bool list \<Rightarrow> nat set" where
  "selected row = {j. j < length row \<and> row ! j}"

definition mass :: "real list \<Rightarrow> nat set \<Rightarrow> real" where
  "mass probs S = (\<Sum>j\<in>S. probs ! j)"

text \<open>The number of sorted positions that are kept.\<close>

definition keep_count :: "real \<Rightarrow> real list \<Rightarrow> nat" where
  "keep_count top_p vs = max 1 (length (takeWhile (\<lambda>c. c \<le> top_p) (cumsum vs)))"

lemma sorted_takeWhile_le:
  assumes "sorted (cs :: real list)" "j < length cs"
  shows "cs ! j \<le> p \<longleftrightarrow> j < length (takeWhile (\<lambda>c. c \<le> p) cs)"
proof
  assume "j < length (takeWhile (\<lambda>c. c \<le> p) cs)"
  then show "cs ! j \<le> p"
    by (metis (mono_tags, lifting) nth_mem set_takeWhileD takeWhile_nth)
next
  assume le: "cs ! j \<le> p"
  show "j < length (takeWhile (\<lambda>c. c \<le> p) cs)"
  proof (rule ccontr)
    assume "\<not> ?thesis"
    then have le_j: "length (takeWhile (\<lambda>c. c \<le> p) cs) \<le> j" by simp
    then have lt: "length (takeWhile (\<lambda>c. c \<le> p) cs) < length cs" using assms(2) by simp
    then have "p < cs ! length (takeWhile (\<lambda>c. c \<le> p) cs)"
      using nth_length_takeWhile [OF lt] by simp
    also have "\<dots> \<le> cs ! j" using sorted_nth_mono [OF assms(1) le_j assms(2)] .
    finally show False using le by simp
  qed
qed

lemma cumsum_mono:
  assumes "\<And>v. v \<in> set vs \<Longrightarrow> 0 \<le> v"
  shows "sorted (cumsum vs)"
proof (unfold sorted_iff_nth_mono_less, intro allI impI)
  fix i j assume "i < j" "j < length (cumsum vs)"
  then have ij: "i < j" "j < length vs" by auto
  then have eq: "take (Suc j) vs = take (Suc i) vs @ drop (Suc i) (take (Suc j) vs)"
    by (metis Suc_mono append_take_drop_id less_or_eq_imp_le min.absorb1 take_take)
  have "0 \<le> sum_list (drop (Suc i) (take (Suc j) vs))"
    using assms by (auto intro!: sum_list_nonneg dest!: in_set_dropD in_set_takeD)
  then show "cumsum vs ! i \<le> cumsum vs ! j"
    using ij eq by (metis add_increasing2 dual_order.refl less_trans nth_cumsum sum_list_append)
qed

lemma keep_count_le: "vs \<noteq> [] \<Longrightarrow> keep_count p vs \<le> length vs"
  using length_takeWhile_le [of "\<lambda>c. c \<le> p" "cumsum vs"]
  by (auto simp: keep_count_def max_def Suc_le_eq)

text \<open>The decision of the rule, position by position of the sorted order.\<close>

lemma keep_mask:
  assumes "\<And>v. v \<in> set vs \<Longrightarrow> 0 \<le> v" "j < length vs"
  shows "((map (\<lambda>c. c \<le> p) (cumsum vs))[0 := True]) ! j \<longleftrightarrow> j < keep_count p vs"
proof (cases "j = 0")
  case True
  with assms(2) show ?thesis by (simp add: keep_count_def)
next
  case False
  with assms show ?thesis
    using sorted_takeWhile_le [OF cumsum_mono, of vs j p] by (auto simp: keep_count_def)
qed

lemma selected_top_p_row:
  assumes spec: "sort_desc_spec srt" and srt: "srt probs = (vs, idx)"
    and pos: "\<And>v. v \<in> set probs \<Longrightarrow> 0 \<le> v" and len: "length probs \<le> n"
  shows "selected (top_p_row srt p n probs) = set (take (keep_count p vs) idx)"
proof -
  have idx: "distinct idx" "set idx = {..<length probs}" "vs = map ((!) probs) idx"
    using sort_desc_specD [OF spec srt] by simp_all
  have "length idx = length probs"
    using distinct_card [OF idx(1)] idx(2) by simp
  then have lens: "length vs = length probs" "length idx = length probs"
    using idx(3) by simp_all
  have vpos: "0 \<le> v" if "v \<in> set vs" for v
    using that pos idx(2,3) by auto
  define keep where "keep = (map (\<lambda>c. c \<le> p) (cumsum vs))[0 := True]"
  have klen: "length keep = length idx" using lens by (simp add: keep_def)
  have row: "top_p_row srt p n probs = scatter_loop (replicate n False) (zip idx keep)"
    by (simp add: top_p_row_def srt keep_def)
  have dist: "distinct (map fst (zip idx keep))" using idx(1) klen by simp
  have "j \<in> selected (top_p_row srt p n probs) \<longleftrightarrow> j \<in> set (take (keep_count p vs) idx)" for j
  proof (cases "j \<in> set idx")
    case True
    then obtain a where a: "a < length idx" "idx ! a = j" by (auto simp: in_set_conv_nth)
    then have "(j, keep ! a) \<in> set (zip idx keep)"
      using klen by (auto simp: in_set_conv_nth intro!: exI [of _ a])
    moreover have "j < n" using True idx(2) len by auto
    ultimately have "scatter_loop (replicate n False) (zip idx keep) ! j = keep ! a"
      using scatter_loop_in [OF dist] by simp
    moreover have "keep ! a \<longleftrightarrow> a < keep_count p vs"
      using keep_mask [OF vpos] a lens by (simp add: keep_def)
    moreover have "a < keep_count p vs \<longleftrightarrow> j \<in> set (take (keep_count p vs) idx)"
      using a idx(1) by (auto simp: in_set_conv_nth nth_eq_iff_index_eq)
    ultimately show ?thesis using \<open>j < n\<close> by (simp add: selected_def row)
  next
    case False
    then have "j \<notin> fst ` set (zip idx keep)" by (auto dest: set_zip_leftD)
    with False show ?thesis
      by (auto simp: selected_def row scatter_loop_notin dest: in_set_takeD)
  qed
  then show ?thesis by blast
qed

lemma length_top_p_row [list_ops]: "length (top_p_row srt p n probs) = n"
  by (simp add: top_p_row_def split: prod.split)

lemma mass_take:
  assumes "distinct idx" "vs = map ((!) probs) idx" "0 < c" "c \<le> length idx"
  shows "mass probs (set (take c idx)) = cumsum vs ! (c - 1)"
proof -
  have "mass probs (set (take c idx)) = sum_list (map ((!) probs) (take c idx))"
    using assms(1) by (simp add: mass_def sum_list_distinct_conv_sum_set)
  also have "\<dots> = cumsum vs ! (c - 1)"
    using assms by (simp add: nth_cumsum take_map)
  finally show ?thesis .
qed

text \<open>C9. The set the top-p rule selects. For every sorting routine that meets its documentation, the
  chosen tokens are never empty, none of them has a smaller probability than a token left out, their
  mass is at most \<open>top_p\<close> unless a single token is chosen, and the best token left out would
  take the mass above \<open>top_p\<close>.\<close>

theorem top_p_row_selects:
  fixes p :: real and n :: nat
  assumes "sort_desc_spec srt" and pos: "\<And>v. v \<in> set probs \<Longrightarrow> 0 \<le> v"
    and len: "0 < length probs" "length probs \<le> n"
  defines "S \<equiv> selected (top_p_row srt p n probs)"
  shows "S \<noteq> {} \<and> S \<subseteq> {..<length probs} \<and>
    (\<forall>a \<in> S. \<forall>b < length probs. b \<notin> S \<longrightarrow> probs ! b \<le> probs ! a) \<and>
    (mass probs S \<le> p \<or> card S = 1) \<and>
    (\<forall>b < length probs. b \<notin> S \<longrightarrow> (\<forall>c < length probs. c \<notin> S \<longrightarrow> probs ! c \<le> probs ! b) \<longrightarrow>
        p < mass probs S + probs ! b)"
proof -
  obtain vs idx where srt: "srt probs = (vs, idx)" by fastforce
  have idx: "distinct idx" "set idx = {..<length probs}" "vs = map ((!) probs) idx" "sorted_wrt (\<ge>) vs"
    using sort_desc_specD [OF assms(1) srt] by simp_all
  have lens: "length idx = length probs" "length vs = length probs"
    using distinct_card [OF idx(1)] idx(2,3) by simp_all
  define c where "c = keep_count p vs"
  have "vs \<noteq> []" using lens len by auto
  then have c: "0 < c" "c \<le> length idx"
    using keep_count_le [of vs p] lens by (simp_all add: c_def keep_count_def)
  have S: "S = set (take c idx)"
    unfolding S_def c_def by (rule selected_top_p_row [OF assms(1) srt pos len(2)])
  have out: "b \<in> set (drop c idx)" if "b < length probs" "b \<notin> S" for b
    using that idx(2) S by (metis Un_iff append_take_drop_id lessThan_iff set_append)
  have vpos: "0 \<le> v" if "v \<in> set vs" for v using that pos idx(2,3) by auto
  have best: "probs ! b \<le> probs ! a" if "a \<in> S" "b < length probs" "b \<notin> S" for a b
  proof -
    have "sorted_wrt (\<ge>) (map ((!) probs) (take c idx) @ map ((!) probs) (drop c idx))"
      using idx(3,4) by (simp flip: map_append)
    then show ?thesis
      using that(1) out [OF that(2,3)] S by (fastforce simp: sorted_wrt_append)
  qed
  have m: "mass probs S = cumsum vs ! (c - 1)"
    unfolding S using mass_take [OF idx(1,3) c] .
  have kept: "cumsum vs ! j \<le> p \<longleftrightarrow> j < length (takeWhile (\<lambda>x. x \<le> p) (cumsum vs))" if "j < length vs" for j
    using sorted_takeWhile_le [OF cumsum_mono, of vs j p] vpos that by simp
  have le: "mass probs S \<le> p \<or> card S = 1"
  proof (cases "c = 1")
    case True
    then show ?thesis using S idx(1) c by (simp add: distinct_card)
  next
    case False
    then have "c - 1 < length (takeWhile (\<lambda>x. x \<le> p) (cumsum vs))"
      using c by (auto simp: c_def keep_count_def max_def split: if_splits)
    then have "mass probs S \<le> p" using kept [of "c - 1"] m c lens by simp
    then show ?thesis ..
  qed
  have more: "p < mass probs S + probs ! b"
    if b: "b < length probs" "b \<notin> S" "\<And>c. c < length probs \<Longrightarrow> c \<notin> S \<Longrightarrow> probs ! c \<le> probs ! b" for b
  proof -
    have "c < length idx" using out [OF b(1,2)] by (metis drop_all empty_iff list.set(1) not_less)
    then have "idx ! c < length probs" "idx ! c \<notin> S"
      using idx(1,2) S nth_mem by (force, auto simp: in_set_conv_nth nth_eq_iff_index_eq)
    then have "vs ! c \<le> probs ! b" using b(3) idx(3) \<open>c < length idx\<close> by simp
    moreover have "\<not> c < length (takeWhile (\<lambda>x. x \<le> p) (cumsum vs))"
      by (auto simp: c_def keep_count_def)
    then have "p < cumsum vs ! c" using kept [of c] \<open>c < length idx\<close> lens by auto
    moreover have "cumsum vs ! c = cumsum vs ! (c - 1) + vs ! c"
      using c \<open>c < length idx\<close> lens by (simp add: nth_cumsum take_Suc_conv_app_nth)
    ultimately show ?thesis using m by simp
  qed
  have "S \<noteq> {}" "S \<subseteq> {..<length probs}"
    using S c idx(2) set_take_subset [of c idx] by auto
  then show ?thesis using best le more by blast
qed

text \<open>Five tokens with the masses 0.1, 0.5, 0.05, 0.3 and 0.05 and \<open>top_p\<close> 0.85: the tokens 1 and 3
  are kept, with mass 0.8.\<close>

theorem top_p_row_selects_witness:
  "sort_desc_spec sort_desc_ref \<and>
   selected (top_p_row sort_desc_ref (17/20) 5 [1/10, 1/2, 1/20, 3/10, 1/20]) = {1, 3} \<and>
   17/20 < mass [1/10, 1/2, 1/20, 3/10, 1/20] {1, 3} + 1/10"
proof -
  let ?ps = "[1/10, 1/2, 1/20, 3/10, 1/20] :: real list"
  let ?row = "top_p_row sort_desc_ref (17/20) 5 ?ps"
  have "?row = [False, True, False, True, False]" by code_simp
  then have "j \<in> selected ?row \<longleftrightarrow> j \<in> {1, 3}" for j
    by (auto simp: selected_def less_Suc_eq numeral_eq_Suc)
  then have S: "selected ?row = {1, 3}" by blast
  have max: "?ps ! c \<le> ?ps ! 0" if "c < length ?ps" "c \<notin> {1, 3}" for c
    using that by (auto simp: less_Suc_eq numeral_eq_Suc)
  have pos: "0 \<le> v" if "v \<in> set ?ps" for v using that by auto
  have "17/20 < mass ?ps (selected ?row) + ?ps ! 0"
  proof (rule top_p_row_selects [OF sort_desc_ref_spec pos, of ?ps 5 "17/20",
           THEN conjunct2, THEN conjunct2, THEN conjunct2, THEN conjunct2, rule_format])
    show "?ps ! c \<le> ?ps ! 0" if "c < length ?ps" "c \<notin> selected ?row" for c
      using max that unfolding S by blast
  qed (simp_all add: S)
  then show ?thesis using S sort_desc_ref_spec by simp
qed

end
