(* ===== verification/RabitQ_Select.thy ===== *)
theory RabitQ_Select
  imports RabitQ_Quant TopP
begin

text \<open>
  The decode step: the scores \<open>distances\<close> returns for the quantized tokens, and the mask
  \<open>rabitq_selector\<close> builds from them.
\<close>

section \<open>The score of one token\<close>

definition est_score ::
  "nat \<Rightarrow> mat \<Rightarrow> (nat \<Rightarrow> real) \<Rightarrow> (nat \<Rightarrow> real) \<Rightarrow> real \<Rightarrow> (nat \<Rightarrow> real) \<Rightarrow> (nat \<Rightarrow> real) \<Rightarrow> real" where
  "est_score D R kc qc cc q k =
     token_norm D kc k *
       (dot D (vec_mat_T D (\<lambda>d. q d - qc d) R) (code_vec D (token_code D R kc k)) / (token_o D R kc k + eps8))
     + dot D q kc + dot D k qc - cc"

text \<open>The sign code points into the same half space as the centred key, so the divisor is positive.\<close>

lemma dot_sign_code: "0 \<le> dot D (vec_mat_T D (\<lambda>d. k d - c d) R) (code_vec D (token_code D R c k))"
  unfolding dot_def code_vec_def token_code_def
  by (rule sum_nonneg) (auto simp: mult_nonneg_nonneg mult_nonpos_nonpos divide_nonpos_nonneg)

lemma token_norm_nonneg: "0 \<le> token_norm D c k"
  by (simp add: token_norm_def sum_nonneg)

lemma eps8_pos: "0 < eps8"
  by (simp add: eps8_def)

lemma token_o_eq:
  "token_o D R c k =
     dot D (vec_mat_T D (\<lambda>d. k d - c d) R) (code_vec D (token_code D R c k)) / (token_norm D c k + eps8)"
  by (simp add: token_o_def dot_scale_left dot_vec_mat)

lemma token_o_nonneg: "0 \<le> token_o D R c k"
  using dot_sign_code [of D k c R] token_norm_nonneg [of D c k] eps8_pos by (simp add: token_o_eq)

lemma score_divisor_pos: "0 < token_o D R c k + eps8"
  using token_o_nonneg [of D R c k] eps8_pos by simp

section \<open>The rows of distances\<close>

lemma distances_rows:
  assumes cast: "cast_spec cast" and inv: "quant_inv cast dt bh D R kc qc cc src lo hi s l"
    and qd: "quantized_data s l = Some qd" and q: "(t_bs q, t_heads q) = bh" "t_dim q = D" "t_dtype q = dt" and n: "n \<le> hi - lo"
  shows "\<exists>s'. distances cast s q l n =
           Inr (Some (t_bs q, t_heads q, n, \<lambda>b h i. map (\<lambda>t. est_score D R (kc h) (qc h) (cc h) (t_at q b h i) (src b h t)) [lo..<lo + n]), s') \<and>
         quant_inv cast dt bh D R kc qc cc src lo hi s' l \<and>
         num_quantized_tokens s' = num_quantized_tokens s \<and> quantized_data s' = quantized_data s \<and>
         quantize_interval s' = quantize_interval s \<and> is_trained s' = is_trained s"
proof -
  obtain K Q C P where has: "k_centroids s l = Some K" "ten_val K = kc" "q_centroids s l = Some Q"
      "ten_val Q = qc" "cq_dot_ck s l = Some C" "ten_val C = cc" "rotation_matrices s l = Some P"
      "representable cast P" "ten_val (to_dtype cast dt P) = R"
    and sh: "ten_shape K = [snd bh, D]" "ten_shape Q = [snd bh, D]" "ten_shape C = [snd bh]" "ten_shape P = [D, D]"
    using inv by (auto simp: quant_inv_def layer_has_def)
  have qh: "t_heads q = snd bh" "t_bs q = fst bh" using q(1) by auto
  have codes: "codes qd \<noteq> []" and tok: "holds_tokens D R kc qc src lo hi qd" and "num_quantized_tokens s l = Some hi"
    and seg: "cat_shape (seg_shapes qd) = Inr (fst bh, snd bh, D)"
    using inv qd by (auto simp: quant_inv_def intro: cat_shape_same)
  have m: "min n (cat_len (codes qd)) = n"
  proof -
    have "cat_len (codes qd) = hi - lo"
      using tok length_cat_row [of "codes qd"] by (metis holds_tokens_def length_map length_upt)
    with n show ?thesis by simp
  qed
  define P1 where "P1 = (to_dtype cast dt P)\<lparr>ten_dev := t_dev q\<rparr>"
  define s' where "s' = s\<lparr>q_centroids := (q_centroids s)(l \<mapsto> Q\<lparr>ten_dev := t_dev q\<rparr>),
      k_centroids := (k_centroids s)(l \<mapsto> K\<lparr>ten_dev := t_dev q\<rparr>),
      cq_dot_ck := (cq_dot_ck s)(l \<mapsto> C\<lparr>ten_dev := t_dev q\<rparr>),
      rotation_matrices := (rotation_matrices s)(l \<mapsto> P1)\<rparr>"
  have rep: "representable cast P1" "ten_val (to_dtype cast dt P1) = R"
    using to_dtype_facts [OF cast has(8), of dt] has(9)
    by (simp_all add: P1_def representable_def to_dtype_def split: if_splits)
  have nth: "take n (cat_row (codes qd) b h) ! t = token_code D R (kc h) (src b h (lo + t))"
    "take n (cat_row (norms qd) b h) ! t = token_norm D (kc h) (src b h (lo + t))"
    "take n (cat_row (o_Obar qd) b h) ! t = token_o D R (kc h) (src b h (lo + t))"
    "take n (cat_row (cq_dot_kr qd) b h) ! t = dot D (src b h (lo + t)) (qc h)" if "t < n" for t b h
    using tok n that by (simp_all add: holds_tokens_def)
  have "distances cast s q l n = Inr (Some (t_bs q, t_heads q, n, \<lambda>b h i. map (\<lambda>t. est_score D R (kc h) (qc h) (cc h)
      (t_at q b h i) (src b h (lo + t))) [0..<n]), s')"
    using has sh qh seg qd codes q(2,3) m nth
    by (simp add: distances_def ensure_device_Some inv_rotation_def get_rotation_Some Let_def
          center_def est_score_def s'_def P1_def)
       (intro ext map_cong refl, simp)
  moreover have "quant_inv cast dt bh D R kc qc cc src lo hi s' l"
    using inv has sh rep by (auto simp: quant_inv_def layer_has_def s'_def P1_def to_dtype_def)
  ultimately show ?thesis
    by (auto simp: s'_def map_upt_shift [symmetric])
qed

section \<open>The mask of one decode step\<close>

text \<open>The tokens below \<open>hi + i * ((len - hi) div i)\<close> are quantized once the step is done.\<close>

definition quantized_upto :: "nat \<Rightarrow> nat \<Rightarrow> nat \<Rightarrow> nat" where
  "quantized_upto i hi len = hi + i * ((len - hi) div i)"

lemma quantized_upto_bounds:
  assumes "0 < i" "hi \<le> len"
  shows "hi \<le> quantized_upto i hi len" "quantized_upto i hi len \<le> len" "len < quantized_upto i hi len + i"
proof -
  have "i * ((len - hi) div i) + (len - hi) mod i = len - hi" by (rule mult_div_mod_eq)
  moreover have "(len - hi) mod i < i" using assms(1) by simp
  ultimately show "hi \<le> quantized_upto i hi len" "quantized_upto i hi len \<le> len" "len < quantized_upto i hi len + i"
    using assms(2) unfolding quantized_upto_def by linarith+
qed

definition expected_row ::
  "sorter \<Rightarrow> real \<Rightarrow> nat \<Rightarrow> nat \<Rightarrow> nat \<Rightarrow> nat \<Rightarrow> (nat \<Rightarrow> real) \<Rightarrow> bool list" where
  "expected_row srt p D i hi len score =
     replicate i True
     @ top_p_row srt p (hi - i) (softmax (map (\<lambda>t. score t / sqrt (real D)) [i..<hi]))
     @ replicate (len - hi) True"

lemma selector_step:
  assumes cast: "cast_spec cast" and inv: "quant_inv cast dt bh D R kc qc cc src i hi s l"
    and st: "is_trained s l = Some True" "quantize_interval s = i" "0 < i"
      "num_quantized_tokens s l = Some hi" "i < hi" "hi \<le> t_len k"
    and k: "(t_bs k, t_heads k) = bh" "t_dim k = D" "t_dtype k = dt" and q: "(t_bs q, t_heads q) = bh" "t_dim q = D" "t_dtype q = dt"
    and src: "\<And>b h t. t < t_len k \<Longrightarrow> t_at k b h t = src b h t"
  shows "\<exists>s'. rabitq_selector cast srt (Some s) l q k i p =
      Some (Inr (\<lambda>b h r. expected_row srt p D i (quantized_upto i hi (t_len k)) (t_len k)
         (\<lambda>t. est_score D R (kc h) (qc h) (cc h) (t_at q b h r) (src b h t)), s')) \<and>
      quant_inv cast dt bh D R kc qc cc src i (quantized_upto i hi (t_len k)) s' l \<and>
      num_quantized_tokens s' l = Some (quantized_upto i hi (t_len k)) \<and>
      quantize_interval s' = i \<and> is_trained s' = is_trained s"
proof -
  let ?L = "t_len k" and ?h = "quantized_upto i hi (t_len k)"
  note b = quantized_upto_bounds [OF st(3,6)]
  obtain s1 where s1: "quantize_new_decode_tokens cast s k l = Some (Inr s1)"
    "quant_inv cast dt bh D R kc qc cc src i ?h s1 l" "num_quantized_tokens s1 l = Some ?h"
    "quantize_interval s1 = i" "is_trained s1 = is_trained s"
  proof (cases "hi + i \<le> ?L")
    case True
    show thesis
      using decode_loop_inv [OF cast k src inv st(2,3) _ st(4)] st True that
      by (auto simp: quantize_new_decode_tokens_def quantized_upto_def)
  next
    case False
    with st(3) have "?h = hi" by (simp add: quantized_upto_def)
    with False st inv show thesis by (intro that) (auto simp: quantize_new_decode_tokens_def)
  qed
  obtain qd where qd: "quantized_data s1 l = Some qd"
    using s1(2,3) by (auto simp: quant_inv_def)
  obtain s2 where s2: "distances cast s1 q l (?h - i) = Inr (Some (t_bs q, t_heads q, ?h - i, \<lambda>b h r. map (\<lambda>t.
      est_score D R (kc h) (qc h) (cc h) (t_at q b h r) (src b h t)) [i..<i + (?h - i)]), s2)"
    "quant_inv cast dt bh D R kc qc cc src i ?h s2 l" "num_quantized_tokens s2 = num_quantized_tokens s1"
    "quantize_interval s2 = quantize_interval s1" "is_trained s2 = is_trained s1"
    using distances_rows [OF cast s1(2) qd q order.refl] by blast
  have ih: "i < ?h" "i < ?L" "?h \<le> ?L" using b st by auto
  let ?mask = "if ?h < ?L then take ?h (replicate (min i ?L) True @ replicate (?L - i) False)
       @ replicate (?L - ?h) True else replicate (min i ?L) True @ replicate (?L - i) False"
  have mask: "?mask = replicate i True @ replicate (?h - i) False @ replicate (?L - ?h) True"
  proof (cases "?h < ?L")
    case True
    have "take (?h - i) (replicate (?L - i) False) = replicate (?h - i) False"
      using ih by (simp add: take_replicate min_def)
    with True ih show ?thesis by (simp add: min_def)
  next
    case False
    with ih show ?thesis by (simp add: min_def)
  qed
  have set: "set_slice ?mask i (top_p_row srt p (?h - i) x) =
      replicate i True @ top_p_row srt p (?h - i) x @ replicate (?L - ?h) True" for x
    unfolding mask using ih by (simp add: set_slice_def length_top_p_row)
  have "rabitq_selector cast srt (Some s) l q k i p = Some (Inr (\<lambda>b h r. expected_row srt p D i ?h ?L
         (\<lambda>t. est_score D R (kc h) (qc h) (cc h) (t_at q b h r) (src b h t)), s2))"
    using st ih s1(1,3) s2(1) q(2,3)
    by (simp add: rabitq_selector_def get_rabitq_state_def Let_def expected_row_def set comp_def)
  with s1 s2 show ?thesis by auto
qed

section \<open>How far the score is from the inner product\<close>

lemma dot_scaled_diff:
  "dot D (\<lambda>d. c * u d - x d) (\<lambda>d. c * u d - x d) = c\<^sup>2 * dot D u u - 2 * c * dot D x u + dot D x x"
proof -
  have "dot D (\<lambda>d. c * u d - x d) (\<lambda>d. c * u d - x d) =
        (\<Sum>d<D. c\<^sup>2 * (u d * u d) - 2 * c * (x d * u d) + x d * x d)"
    unfolding dot_def by (rule sum.cong) (auto simp: algebra_simps power2_eq_square)
  then show ?thesis
    by (simp add: dot_def sum.distrib sum_subtractf sum_distrib_left)
qed

lemma dot_scale_diff_right: "dot D y (\<lambda>d. c * u d - x d) = c * dot D y u - dot D y x"
  by (simp add: dot_def algebra_simps sum_subtractf sum_distrib_left)

lemma dot_Cauchy_Schwarz: "(dot D x y)\<^sup>2 \<le> dot D x x * dot D y y"
proof (cases "dot D x x = 0")
  case True
  then have "\<forall>d \<in> {..<D}. x d * x d = 0"
    unfolding dot_def by (subst (asm) sum_nonneg_eq_0_iff) auto
  then have "dot D x y = 0" by (simp add: dot_def)
  with True show ?thesis by simp
next
  case False
  let ?a = "dot D x x" and ?b = "dot D x y"
  have "0 < ?a" using False dot_nonneg_self [of D x] by simp
  have "0 \<le> dot D (\<lambda>d. (?b / ?a) * x d - y d) (\<lambda>d. (?b / ?a) * x d - y d)"
    by (rule dot_nonneg_self)
  also have "\<dots> = (?b / ?a)\<^sup>2 * ?a - 2 * (?b / ?a) * ?b + dot D y y"
    by (simp only: dot_scaled_diff dot_commute [of D y x])
  also have "\<dots> = dot D y y - ?b\<^sup>2 / ?a"
    using \<open>0 < ?a\<close> by (simp add: field_simps power2_eq_square)
  finally show ?thesis
    using \<open>0 < ?a\<close> by (simp add: field_simps)
qed

lemma dot_bound: "\<bar>dot D x y\<bar> \<le> sqrt (dot D x x) * sqrt (dot D y y)"
proof -
  have "\<bar>dot D x y\<bar> = sqrt ((dot D x y)\<^sup>2)" by simp
  also have "\<dots> \<le> sqrt (dot D x x * dot D y y)" by (rule real_sqrt_le_mono [OF dot_Cauchy_Schwarz])
  finally show ?thesis by (simp add: real_sqrt_mult)
qed

text \<open>The rows of \<open>R\<close> are orthonormal, which the QR factor guarantees, so rotating keeps inner products.\<close>

definition orthogonal :: "nat \<Rightarrow> mat \<Rightarrow> bool" where
  "orthogonal D R \<longleftrightarrow> (\<forall>i<D. \<forall>j<D. (\<Sum>d<D. R d i * R d j) = (if i = j then 1 else 0))"

lemma dot_vec_mat_T:
  assumes "orthogonal D R"
  shows "dot D (vec_mat_T D x R) (vec_mat_T D y R) = dot D x y"
proof -
  have "dot D (vec_mat_T D x R) (vec_mat_T D y R) = (\<Sum>d<D. \<Sum>i<D. \<Sum>j<D. x i * y j * (R d i * R d j))"
    by (simp add: dot_def vec_mat_T_def sum_product mult_ac)
  also have "\<dots> = (\<Sum>i<D. \<Sum>d<D. \<Sum>j<D. x i * y j * (R d i * R d j))" by (rule sum.swap)
  also have "\<dots> = (\<Sum>i<D. \<Sum>j<D. \<Sum>d<D. x i * y j * (R d i * R d j))"
    by (rule sum.cong [OF refl]) (rule sum.swap)
  also have "\<dots> = (\<Sum>i<D. \<Sum>j<D. x i * y j * (if i = j then 1 else 0))"
    using assms by (simp add: orthogonal_def sum_distrib_left [symmetric])
  also have "\<dots> = dot D x y" by (simp add: dot_def if_distrib cong: if_cong)
  finally show ?thesis .
qed

lemma code_vec_unit:
  assumes "0 < D" and "\<And>d. c d = 0 \<or> c d = 1"
  shows "dot D (code_vec D c) (code_vec D c) = 1"
proof -
  have "code_vec D c d * code_vec D c d = 1 / real D" for d
    using assms(2) [of d] by (auto simp: code_vec_def real_sqrt_mult_self)
  then show ?thesis using assms(1) by (simp add: dot_def)
qed

lemma token_norm_sq: "dot D (\<lambda>d. k d - c d) (\<lambda>d. k d - c d) = (token_norm D c k)\<^sup>2"
  by (simp add: dot_def token_norm_def sum_nonneg power2_eq_square)

text \<open>The centroid terms cancel exactly: what is left is the error of the quantized residual.\<close>

lemma est_score_residual:
  assumes "cc = dot D qc kc"
  shows "est_score D R kc qc cc q k - dot D q k =
    token_norm D kc k *
      (dot D (vec_mat_T D (\<lambda>d. q d - qc d) R) (code_vec D (token_code D R kc k)) / (token_o D R kc k + eps8))
    - dot D (\<lambda>d. q d - qc d) (\<lambda>d. k d - kc d)"
  using assms
  by (simp add: est_score_def dot_diff_left dot_diff_right dot_commute [of D k qc])

text \<open>With an orthogonal rotation, the estimated score differs from the
  exact inner product of query and key by at most the norm of the centred query times the distance between
  the centred key and its rescaled sign code; the latter is determined by the two numbers stored per
  token, the norm and the product with the code.\<close>

lemma est_score_error_bound:
  assumes "0 < D" "orthogonal D R" "cc = dot D qc kc"
  shows "\<bar>est_score D R kc qc cc q k - dot D q k\<bar> \<le>
    (let n = token_norm D kc k; ob = token_o D R kc k; c = n / (ob + eps8)
     in sqrt (dot D (\<lambda>d. q d - qc d) (\<lambda>d. q d - qc d)) * sqrt (c\<^sup>2 - 2 * c * (ob * (n + eps8)) + n\<^sup>2))"
proof -
  let ?n = "token_norm D kc k" and ?o = "token_o D R kc k" and ?u = "code_vec D (token_code D R kc k)"
  let ?y = "vec_mat_T D (\<lambda>d. q d - qc d) R" and ?x = "vec_mat_T D (\<lambda>d. k d - kc d) R"
  let ?c = "?n / (?o + eps8)"
  have "est_score D R kc qc cc q k - dot D q k = dot D ?y (\<lambda>d. ?c * ?u d - ?x d)"
    unfolding dot_scale_diff_right est_score_residual [OF assms(3)] dot_vec_mat_T [OF assms(2)] by simp
  moreover have "dot D (\<lambda>d. ?c * ?u d - ?x d) (\<lambda>d. ?c * ?u d - ?x d) = ?c\<^sup>2 - 2 * ?c * (?o * (?n + eps8)) + ?n\<^sup>2"
  proof -
    have "?n + eps8 \<noteq> 0" using token_norm_nonneg [of D kc k] eps8_pos by simp
    then have "dot D ?x ?u = ?o * (?n + eps8)" by (simp add: token_o_eq)
    moreover have "dot D ?u ?u = 1"
      by (rule code_vec_unit [OF assms(1)]) (auto simp: token_code_def)
    moreover have "dot D ?x ?x = ?n\<^sup>2"
      using dot_vec_mat_T [OF assms(2)] by (simp add: token_norm_sq)
    ultimately show ?thesis by (simp only: dot_scaled_diff mult_1_right)
  qed
  ultimately show ?thesis
    using dot_bound [of D ?y "\<lambda>d. ?c * ?u d - ?x d"] dot_vec_mat_T [OF assms(2)] by (simp add: Let_def)
qed

end
