(* ===== verification/RabitQ_Run.thy ===== *)
theory RabitQ_Run
  imports RabitQ_Select
begin

text \<open>
  One sequence from prefill to decode, on one layer. The prefill hook of \<open>attention_forward\<close> trains
  the layer and quantizes the prompt; every decode step calls the selector with the grown key cache.
  The theorems say what the layer's state is after any number of decode steps and what mask each
  step yields, and that no step fails.
\<close>

section \<open>Prefill hook and run of a sequence\<close>

definition rabitq_prefill ::
  "cast \<Rightarrow> (nat \<Rightarrow> nat \<Rightarrow> mat) \<Rightarrow> rq_state option \<Rightarrow> nat \<Rightarrow> tensor4 \<Rightarrow> tensor4 \<Rightarrow> nat
   \<Rightarrow> rq_state result option" where
  "rabitq_prefill cast qr g layer_id query_states key_states_expanded quantize_interval' =
     (let rabitq_state = get_rabitq_state quantize_interval' g;
          trained = (if is_trained rabitq_state layer_id = None \<or> is_trained rabitq_state layer_id = Some False
                     then train qr rabitq_state query_states key_states_expanded layer_id
                     else Inr rabitq_state)
      in case trained of Inl e \<Rightarrow> Some (Inl e)
         | Inr s \<Rightarrow> quantize_initial_keys cast s key_states_expanded layer_id)"

text \<open>
  A sequence: the layer, the interval, the stream of its keys (batch entry, head, token, channel),
  the prompt length and the prompt's queries.
\<close>

record sequence =
  sq_interval :: nat
  sq_layer :: nat
  sq_bs :: nat
  sq_heads :: nat
  sq_dim :: nat
  sq_dtype :: dtype
  sq_keys :: token_src
  sq_prompt :: nat
  sq_queries :: tensor4

text \<open>The key cache when it holds \<open>n\<close> tokens.\<close>

definition key_cache :: "sequence \<Rightarrow> device \<Rightarrow> nat \<Rightarrow> tensor4" where
  "key_cache sq dev n = \<lparr>t_bs = sq_bs sq, t_heads = sq_heads sq, t_len = n, t_dim = sq_dim sq,
     t_dev = dev, t_dtype = sq_dtype sq, t_at = sq_keys sq\<rparr>"

definition sq_kc :: "sequence \<Rightarrow> mat" where
  "sq_kc sq = centroid (key_cache sq 0 (sq_prompt sq))"

definition sq_qc :: "sequence \<Rightarrow> mat" where
  "sq_qc sq = centroid (sq_queries sq)"

definition sq_cc :: "sequence \<Rightarrow> nat \<Rightarrow> real" where
  "sq_cc sq = (\<lambda>h. dot (sq_dim sq) (sq_qc sq h) (sq_kc sq h))"

definition sq_rot :: "cast \<Rightarrow> (nat \<Rightarrow> nat \<Rightarrow> mat) \<Rightarrow> sequence \<Rightarrow> mat" where
  "sq_rot cast qr sq =
     (if sq_dtype sq = Float32 then qr (sq_layer sq) (sq_dim sq)
      else (\<lambda>i j. cast (sq_dtype sq) (qr (sq_layer sq) (sq_dim sq) i j)))"

text \<open>The score the selector estimates for token \<open>t\<close> and the query vector \<open>q\<close> of head \<open>h\<close>.\<close>

definition sq_score ::
  "cast \<Rightarrow> (nat \<Rightarrow> nat \<Rightarrow> mat) \<Rightarrow> sequence \<Rightarrow> nat \<Rightarrow> nat \<Rightarrow> (nat \<Rightarrow> real) \<Rightarrow> nat \<Rightarrow> real" where
  "sq_score cast qr sq b h q t =
     est_score (sq_dim sq) (sq_rot cast qr sq) (sq_kc sq h) (sq_qc sq h) (sq_cc sq h) q (sq_keys sq b h t)"

definition sequence_ok :: "cast \<Rightarrow> (nat \<Rightarrow> nat \<Rightarrow> mat) \<Rightarrow> sequence \<Rightarrow> bool" where
  "sequence_ok cast qr sq \<longleftrightarrow>
     cast_spec cast \<and> 0 < sq_interval sq \<and> same_shape (sq_queries sq) (key_cache sq 0 (sq_prompt sq)) \<and>
     (\<forall>i j. cast Float32 (qr (sq_layer sq) (sq_dim sq) i j) = qr (sq_layer sq) (sq_dim sq) i j)"

definition query_ok :: "sequence \<Rightarrow> tensor4 \<Rightarrow> bool" where
  "query_ok sq q \<longleftrightarrow> t_bs q = sq_bs sq \<and> t_heads q = sq_heads sq \<and> t_dim q = sq_dim sq \<and> t_dtype q = sq_dtype sq"

inductive run :: "cast \<Rightarrow> sorter \<Rightarrow> (nat \<Rightarrow> nat \<Rightarrow> mat) \<Rightarrow> sequence \<Rightarrow> nat \<Rightarrow> rq_state \<Rightarrow> bool"
  for cast srt qr sq where
  prefill: "rabitq_prefill cast qr None (sq_layer sq) (sq_queries sq) (key_cache sq dev (sq_prompt sq))
              (sq_interval sq) = Some (Inr s) \<Longrightarrow> run cast srt qr sq (sq_prompt sq) s"
| decode: "run cast srt qr sq n s \<Longrightarrow> n \<le> n' \<Longrightarrow> query_ok sq q \<Longrightarrow>
             rabitq_selector cast srt (Some s) (sq_layer sq) q (key_cache sq dev n') (sq_interval sq) p
               = Some (Inr (msk, s')) \<Longrightarrow> run cast srt qr sq n' s'"

text \<open>What holds of the layer when the cache has \<open>n\<close> tokens.\<close>

definition run_inv :: "cast \<Rightarrow> (nat \<Rightarrow> nat \<Rightarrow> mat) \<Rightarrow> sequence \<Rightarrow> nat \<Rightarrow> rq_state \<Rightarrow> bool" where
  "run_inv cast qr sq n s \<longleftrightarrow>
     sq_prompt sq \<le> n \<and> is_trained s (sq_layer sq) = Some True \<and> quantize_interval s = sq_interval sq \<and>
     (if sq_prompt sq \<le> sq_interval sq
      then quantized_data s (sq_layer sq) = None \<and> num_quantized_tokens s (sq_layer sq) = None
      else (\<exists>hi. num_quantized_tokens s (sq_layer sq) = Some hi \<and> sq_interval sq < hi \<and> hi \<le> n \<and>
              n < hi + sq_interval sq \<and>
              quant_inv cast (sq_dtype sq) (sq_bs sq, sq_heads sq) (sq_dim sq) (sq_rot cast qr sq) (sq_kc sq) (sq_qc sq)
                (sq_cc sq) (sq_keys sq) (sq_interval sq) hi s (sq_layer sq)))"

text \<open>A concrete sequence: one head of one channel, interval 1, a prompt of \<open>n\<close> tokens with the keys
  0, 1, 2, and so on; the rotation is the identity and conversions are exact.\<close>

definition demo_seq :: "nat \<Rightarrow> sequence" where
  "demo_seq n = \<lparr>sq_interval = 1, sq_layer = 0, sq_bs = 1, sq_heads = 1, sq_dim = 1, sq_dtype = Float32,
     sq_keys = (\<lambda>b h t d. real t), sq_prompt = n,
     sq_queries = \<lparr>t_bs = 1, t_heads = 1, t_len = n, t_dim = 1, t_dev = 0, t_dtype = Float32,
       t_at = (\<lambda>b h t d. 1)\<rparr>\<rparr>"

definition id_cast :: cast where
  "id_cast dt x = x"

definition id_rot :: "nat \<Rightarrow> nat \<Rightarrow> mat" where
  "id_rot l D = (\<lambda>i j. if i = j then 1 else 0)"

section \<open>Lemmas\<close>

lemma demo_seq_ok: "sequence_ok id_cast id_rot (demo_seq n)"
  by (simp add: sequence_ok_def demo_seq_def cast_spec_def id_cast_def same_shape_def key_cache_def)

lemma demo_query_ok: "query_ok (demo_seq n) (sq_queries (demo_seq m))"
  by (simp add: query_ok_def demo_seq_def)

lemma key_cache_fields [simp]:
  "t_len (key_cache sq dev n) = n" "t_dim (key_cache sq dev n) = sq_dim sq"
  "t_dtype (key_cache sq dev n) = sq_dtype sq" "t_at (key_cache sq dev n) = sq_keys sq"
  "t_dev (key_cache sq dev n) = dev" "t_bs (key_cache sq dev n) = sq_bs sq" "t_heads (key_cache sq dev n) = sq_heads sq"
  by (simp_all add: key_cache_def)

lemma centroid_key_cache [simp]: "centroid (key_cache sq dev (sq_prompt sq)) = sq_kc sq"
  by (simp add: sq_kc_def centroid_def key_cache_def)

lemma same_shape_key_cache:
  "sequence_ok cast qr sq \<Longrightarrow> same_shape (sq_queries sq) (key_cache sq dev (sq_prompt sq)) \<and> t_dim (sq_queries sq) = sq_dim sq \<and> t_heads (sq_queries sq) = sq_heads sq"
  by (auto simp: sequence_ok_def same_shape_def key_cache_def)

text \<open>Training a fresh state.\<close>

lemma train_fresh:
  assumes ok: "sequence_ok cast qr sq"
  shows "\<exists>s. train qr (init_state (sq_interval sq)) (sq_queries sq) (key_cache sq dev (sq_prompt sq)) (sq_layer sq) = Inr s \<and>
     is_trained s (sq_layer sq) = Some True \<and> quantize_interval s = sq_interval sq \<and>
     quantized_data s = Map.empty \<and> num_quantized_tokens s = Map.empty \<and>
     layer_has cast (sq_dtype sq) (sq_bs sq, sq_heads sq) (sq_dim sq) (sq_rot cast qr sq) (sq_kc sq) (sq_qc sq) (sq_cc sq) s (sq_layer sq)"
proof -
  note sh = same_shape_key_cache [OF ok, of dev]
  have "\<And>i j. cast Float32 (qr (sq_layer sq) (sq_dim sq) i j) = qr (sq_layer sq) (sq_dim sq) i j"
    using ok by (simp add: sequence_ok_def)
  then show ?thesis
    using sh by (simp add: train_def init_state_def Let_def layer_has_def sq_cc_def sq_qc_def
        representable_def to_dtype_def sq_rot_def)
qed

lemma rabitq_prefill_returns:
  assumes ok: "sequence_ok cast qr sq"
  shows "\<exists>s. rabitq_prefill cast qr None (sq_layer sq) (sq_queries sq) (key_cache sq dev (sq_prompt sq))
               (sq_interval sq) = Some (Inr s) \<and> run_inv cast qr sq (sq_prompt sq) s"
proof -
  let ?l = "sq_layer sq" and ?i = "sq_interval sq" and ?k = "key_cache sq dev (sq_prompt sq)"
  let ?inv = "quant_inv cast (sq_dtype sq) (sq_bs sq, sq_heads sq) (sq_dim sq) (sq_rot cast qr sq) (sq_kc sq) (sq_qc sq)
                (sq_cc sq) (sq_keys sq) ?i"
  obtain s0 where s0: "train qr (init_state ?i) (sq_queries sq) ?k ?l = Inr s0"
    "is_trained s0 ?l = Some True" "quantize_interval s0 = ?i" "quantized_data s0 = Map.empty"
    "num_quantized_tokens s0 = Map.empty"
    "layer_has cast (sq_dtype sq) (sq_bs sq, sq_heads sq) (sq_dim sq) (sq_rot cast qr sq) (sq_kc sq) (sq_qc sq) (sq_cc sq) s0 ?l"
    using train_fresh [OF ok] by blast
  have pre: "rabitq_prefill cast qr None ?l (sq_queries sq) ?k ?i = initial_loop cast s0 ?k ?l ?i"
    using s0 by (simp add: rabitq_prefill_def get_rabitq_state_def init_state_def quantize_initial_keys_def Let_def)
  have i: "0 < ?i" "cast_spec cast" using ok by (auto simp: sequence_ok_def)
  show ?thesis
  proof (cases "sq_prompt sq \<le> ?i")
    case True
    then have "initial_loop cast s0 ?k ?l ?i = Some (Inr s0)"
      by (subst initial_loop.simps) simp
    with True s0 pre show ?thesis by (auto simp: run_inv_def)
  next
    case False
    have "?inv ?i s0 ?l" using s0 by (simp add: quant_inv_def)
    then obtain s where "initial_loop cast s0 ?k ?l ?i = Some (Inr s)" "?inv (sq_prompt sq) s ?l"
      "num_quantized_tokens s ?l = Some (sq_prompt sq)" "quantize_interval s = ?i" "is_trained s = is_trained s0"
      using initial_loop_inv [OF i(2), of ?k "(sq_bs sq, sq_heads sq)" "sq_dim sq" "sq_dtype sq" "sq_keys sq" "sq_rot cast qr sq"
          "sq_kc sq" "sq_qc sq" "sq_cc sq" ?i ?i s0 ?l] False s0(3) i by auto
    with False pre s0 i show ?thesis by (auto simp: run_inv_def)
  qed
qed

text \<open>One decode step from a state that satisfies the invariant.\<close>

definition step_row ::
  "cast \<Rightarrow> sorter \<Rightarrow> (nat \<Rightarrow> nat \<Rightarrow> mat) \<Rightarrow> sequence \<Rightarrow> real \<Rightarrow> nat \<Rightarrow> nat \<Rightarrow> nat \<Rightarrow> nat \<Rightarrow> (nat \<Rightarrow> real) \<Rightarrow> bool list" where
  "step_row cast srt qr sq p hi n b h q =
     expected_row srt p (sq_dim sq) (sq_interval sq) hi n (sq_score cast qr sq b h q)"

lemma sq_score_fun:
  "sq_score cast qr sq b h q = (\<lambda>t. est_score (sq_dim sq) (sq_rot cast qr sq) (sq_kc sq h) (sq_qc sq h)
     (sq_cc sq h) q (sq_keys sq b h t))"
  by (rule ext) (simp add: sq_score_def)

lemma selector_unquantized:
  assumes "is_trained s l = Some True" "num_quantized_tokens s l = None"
  shows "rabitq_selector cast srt (Some s) l q k i p = Some (Inr (\<lambda>b h r. replicate (t_len k) True, s))"
  using assms
  by (auto simp: rabitq_selector_def get_rabitq_state_def Let_def quantize_new_decode_tokens_def
      replicate_add [symmetric] min_def)

lemma selector_run_step:
  assumes ok: "sequence_ok cast qr sq" and inv: "run_inv cast qr sq n s" and n: "n \<le> n'"
    and q: "query_ok sq q"
  shows "\<exists>mask s'. rabitq_selector cast srt (Some s) (sq_layer sq) q (key_cache sq dev n') (sq_interval sq) p
           = Some (Inr (mask, s')) \<and> run_inv cast qr sq n' s' \<and>
         (if sq_prompt sq \<le> sq_interval sq then mask = (\<lambda>b h r. replicate n' True)
          else (\<exists>hi. num_quantized_tokens s' (sq_layer sq) = Some hi \<and>
                 mask = (\<lambda>b h r. step_row cast srt qr sq p hi n' b h (t_at q b h r))))"
proof (cases "sq_prompt sq \<le> sq_interval sq")
  case True
  with inv n show ?thesis
    using selector_unquantized [of s "sq_layer sq" cast srt q "key_cache sq dev n'" "sq_interval sq" p]
    by (auto simp: run_inv_def)
next
  case False
  let ?i = "sq_interval sq" and ?l = "sq_layer sq"
  have i: "0 < ?i" and cast: "cast_spec cast" using ok by (auto simp: sequence_ok_def)
  obtain hi where hi: "num_quantized_tokens s ?l = Some hi" "?i < hi" "hi \<le> n"
      "quant_inv cast (sq_dtype sq) (sq_bs sq, sq_heads sq) (sq_dim sq) (sq_rot cast qr sq) (sq_kc sq) (sq_qc sq)
                (sq_cc sq) (sq_keys sq) ?i hi s ?l"
      "is_trained s ?l = Some True" "quantize_interval s = ?i" "sq_prompt sq \<le> n"
    using inv False by (auto simp: run_inv_def)
  note b = quantized_upto_bounds [OF i order.trans [OF hi(3) n]]
  show ?thesis
    using selector_step [OF cast hi(4,5,6) i hi(1,2), of "key_cache sq dev n'" q srt p] hi n q b False
    by (auto simp: run_inv_def query_ok_def step_row_def sq_score_fun)
qed

lemma run_invariant: "run cast srt qr sq n s \<Longrightarrow> sequence_ok cast qr sq \<Longrightarrow> run_inv cast qr sq n s"
proof (induction rule: run.induct)
  case (prefill dev s)
  then show ?case using rabitq_prefill_returns [of cast qr sq dev] by auto
next
  case (decode n s n' q dev p msk s')
  then show ?case
    using selector_run_step [of cast qr sq n s n' q srt dev p] by auto
qed


section \<open>Properties\<close>



text \<open>C1. Refinement of the incremental quantization. At every moment of a sequence whose prompt is longer
  than the interval, the concatenated segments of the layer are exactly the reference quantization of
  the tokens from the interval up to the recorded count, whatever batches they were quantized in, and
  fewer than an interval of tokens is not quantized yet.\<close>

theorem run_quantized_tokens:
  assumes "run cast srt qr sq n s" "sequence_ok cast qr sq" "sq_interval sq < sq_prompt sq"
  shows "\<exists>hi qd. num_quantized_tokens s (sq_layer sq) = Some hi \<and> quantized_data s (sq_layer sq) = Some qd \<and>
     sq_prompt sq \<le> n \<and> sq_interval sq < hi \<and> hi \<le> n \<and> n < hi + sq_interval sq \<and>
     holds_tokens (sq_dim sq) (sq_rot cast qr sq) (sq_kc sq) (sq_qc sq) (sq_keys sq) (sq_interval sq) hi qd"
  using run_invariant [OF assms(1,2)] assms(3) by (auto simp: run_inv_def quant_inv_def)

theorem run_quantized_tokens_witness:
  "\<exists>s hi qd. run id_cast sort_desc_ref id_rot (demo_seq 3) 3 s \<and> num_quantized_tokens s 0 = Some hi \<and>
     quantized_data s 0 = Some qd \<and> hi = 3"
proof -
  obtain s where s: "run id_cast sort_desc_ref id_rot (demo_seq 3) 3 s"
    using rabitq_prefill_returns [OF demo_seq_ok, of 3 0] run.prefill [of id_cast id_rot "demo_seq 3" 0]
    by (auto simp: demo_seq_def)
  from run_quantized_tokens [OF s demo_seq_ok] s show ?thesis
    by (fastforce simp: demo_seq_def)
qed



text \<open>C10. Error bound of the estimator. In every state of a sequence whose prompt is longer than the interval, \<open>distances\<close> returns a score for each
  quantized token, and with an orthogonal rotation every score differs from the exact inner product of query and key by at most the norm of the centred query
  times the distance between the centred key and its rescaled sign code, which the two numbers stored for the token, its norm and its product
  with the code, determine.\<close>

theorem run_score_error_bound:
  assumes "run cast srt qr sq n s" "sequence_ok cast qr sq" "sq_interval sq < sq_prompt sq"
    and "query_ok sq q" "0 < sq_dim sq" "orthogonal (sq_dim sq) (sq_rot cast qr sq)"
  shows "\<exists>hi qd rows s'. num_quantized_tokens s (sq_layer sq) = Some hi \<and> quantized_data s (sq_layer sq) = Some qd \<and> sq_interval sq < hi \<and>
    distances cast s q (sq_layer sq) (hi - sq_interval sq) = Inr (Some (sq_bs sq, sq_heads sq, hi - sq_interval sq, rows), s') \<and>
    (\<forall>b h r. length (rows b h r) = hi - sq_interval sq \<and> (\<forall>t < hi - sq_interval sq.
       \<bar>rows b h r ! t - dot (sq_dim sq) (t_at q b h r) (sq_keys sq b h (sq_interval sq + t))\<bar> \<le>
       (let n = cat_row (norms qd) b h ! t; ob = cat_row (o_Obar qd) b h ! t; c = n / (ob + eps8)
        in sqrt (dot (sq_dim sq) (\<lambda>d. t_at q b h r d - sq_qc sq h d) (\<lambda>d. t_at q b h r d - sq_qc sq h d))
           * sqrt (c\<^sup>2 - 2 * c * (ob * (n + eps8)) + n\<^sup>2))))"
proof -
  let ?i = "sq_interval sq" and ?l = "sq_layer sq" and ?D = "sq_dim sq" and ?R = "sq_rot cast qr sq" and ?kc = "sq_kc sq"
  have cast: "cast_spec cast" using assms(2) by (simp add: sequence_ok_def)
  obtain hi where hi: "num_quantized_tokens s ?l = Some hi" "?i < hi"
    and inv: "quant_inv cast (sq_dtype sq) (sq_bs sq, sq_heads sq) ?D ?R ?kc (sq_qc sq) (sq_cc sq) (sq_keys sq) ?i hi s ?l"
    using run_invariant [OF assms(1,2)] assms(3) by (auto simp: run_inv_def)
  obtain qd where qd: "quantized_data s ?l = Some qd" "holds_tokens ?D ?R ?kc (sq_qc sq) (sq_keys sq) ?i hi qd"
    using inv hi(1) by (auto simp: quant_inv_def)
  have q: "(t_bs q, t_heads q) = (sq_bs sq, sq_heads sq)" "t_dim q = ?D" "t_dtype q = sq_dtype sq" using assms(4) by (simp_all add: query_ok_def)
  obtain s' where s': "distances cast s q ?l (hi - ?i) = Inr (Some (t_bs q, t_heads q, hi - ?i, \<lambda>b h r. map (\<lambda>t.
      est_score ?D ?R (?kc h) (sq_qc sq h) (sq_cc sq h) (t_at q b h r) (sq_keys sq b h t)) [?i..<?i + (hi - ?i)]), s')"
    using distances_rows [OF cast inv qd(1) q order.refl] by blast
  have stored: "cat_row (norms qd) b h ! t = token_norm ?D (?kc h) (sq_keys sq b h (?i + t))"
    "cat_row (o_Obar qd) b h ! t = token_o ?D ?R (?kc h) (sq_keys sq b h (?i + t))" if "t < hi - ?i" for b h t
    using qd(2) that by (simp_all add: holds_tokens_def)
  have "\<bar>est_score ?D ?R (?kc h) (sq_qc sq h) (sq_cc sq h) (t_at q b h r) k - dot ?D (t_at q b h r) k\<bar> \<le>
       (let n = token_norm ?D (?kc h) k; ob = token_o ?D ?R (?kc h) k; c = n / (ob + eps8)
        in sqrt (dot ?D (\<lambda>d. t_at q b h r d - sq_qc sq h d) (\<lambda>d. t_at q b h r d - sq_qc sq h d)) * sqrt (c\<^sup>2 - 2 * c * (ob * (n + eps8)) + n\<^sup>2))" for b h r k
    by (rule est_score_error_bound [OF assms(5,6)]) (simp add: sq_cc_def)
  then show ?thesis using hi qd(1) s' q(1) stored by (intro exI [of _ hi] exI [of _ qd] exI conjI) auto
qed

theorem run_score_error_bound_witness:
  "\<exists>s rows s'. run id_cast sort_desc_ref id_rot (demo_seq 3) 3 s \<and>
     distances id_cast s (sq_queries (demo_seq 1)) 0 2 = Inr (Some (1, 1, 2, rows), s') \<and> length (rows 0 0 0) = 2"
proof -
  obtain s where s: "run id_cast sort_desc_ref id_rot (demo_seq 3) 3 s" "num_quantized_tokens s 0 = Some 3"
    using rabitq_prefill_returns [OF demo_seq_ok, of 3 0] run.prefill [of id_cast id_rot "demo_seq 3" 0]
    by (fastforce simp: demo_seq_def run_inv_def)
  have "sq_interval (demo_seq 3) < sq_prompt (demo_seq 3)" "0 < sq_dim (demo_seq 3)"
    "orthogonal (sq_dim (demo_seq 3)) (sq_rot id_cast id_rot (demo_seq 3))"
    by (simp_all add: demo_seq_def orthogonal_def sq_rot_def id_rot_def)
  from run_score_error_bound [OF s(1) demo_seq_ok this(1) demo_query_ok [of 3 1] this(2,3)]
  obtain rows s' where "distances id_cast s (sq_queries (demo_seq 1)) 0 2 = Inr (Some (1, 1, 2, rows), s')" "length (rows 0 0 0) = 2"
    using s(2) by (auto simp: demo_seq_def numeral_eq_Suc)
  then show ?thesis using s(1) by blast
qed

text \<open>C12. A prompt no longer than the interval switches the sparse selection off for the whole sequence:
  nothing is ever quantized, and every decode step selects every token, however long the cache grows.\<close>

theorem run_short_prompt_dense:
  assumes "run cast srt qr sq n s" "sequence_ok cast qr sq" "sq_prompt sq \<le> sq_interval sq"
    and "n \<le> n'" "query_ok sq q"
  shows "rabitq_selector cast srt (Some s) (sq_layer sq) q (key_cache sq dev n') (sq_interval sq) p
           = Some (Inr (\<lambda>b h r. replicate n' True, s)) \<and> quantized_data s (sq_layer sq) = None"
  using run_invariant [OF assms(1,2)] assms(3) selector_unquantized
  by (auto simp: run_inv_def)

theorem run_short_prompt_dense_witness:
  "\<exists>s. run id_cast sort_desc_ref id_rot (demo_seq 1) 1 s \<and>
     rabitq_selector id_cast sort_desc_ref (Some s) 0 (sq_queries (demo_seq 1)) (key_cache (demo_seq 1) 0 100) 1 (1/2)
       = Some (Inr (\<lambda>b h r. replicate 100 True, s))"
proof -
  obtain s where s: "run id_cast sort_desc_ref id_rot (demo_seq 1) 1 s"
    using rabitq_prefill_returns [OF demo_seq_ok, of 1 0] run.prefill [of id_cast id_rot "demo_seq 1" 0]
    by (auto simp: demo_seq_def)
  have sq: "sq_interval (demo_seq 1) = 1" "sq_layer (demo_seq 1) = 0" "sq_prompt (demo_seq 1) = 1"
    by (simp_all add: demo_seq_def)
  have "sq_prompt (demo_seq 1) \<le> sq_interval (demo_seq 1)" "(1::nat) \<le> 100" by (simp_all only: sq)
  from run_short_prompt_dense [OF s demo_seq_ok this demo_query_ok [of 1 1], of 0 "1/2"] s
  show ?thesis unfolding sq by blast
qed

end
