(* ===== verification/RabitQ_Old.thy ===== *)
theory RabitQ_Old
  imports RabitQ_State
begin

text \<open>
  \<open>rabitqcache/pyimpl/rabitq_old.py\<close>: the single-GPU implementation. It never moves a tensor, so an
  operation on tensors of two devices raises, and it converts the rotation matrix to the operand's
  dtype on every use without storing the converted matrix. The loops and the selector have the code of
  \<open>rabitq.py\<close>. The theorems relate the two implementations.
\<close>

section \<open>Operations\<close>

definition old_matrix :: "cast \<Rightarrow> rq_state \<Rightarrow> tensor4 \<Rightarrow> nat \<Rightarrow> mat result" where
  "old_matrix cast s x layer_id =
     bindE (dict_get (rotation_matrices s) layer_id) (\<lambda>P.
       let P' = (if ten_dtype P \<noteq> t_dtype x then to_dtype cast (t_dtype x) P else P)
       in if ten_dev P' \<noteq> t_dev x \<or> ten_shape P' \<noteq> [t_dim x, t_dim x] then Inl RuntimeError else Inr (ten_val P'))"

definition old_rotation :: "cast \<Rightarrow> rq_state \<Rightarrow> tensor4 \<Rightarrow> nat \<Rightarrow> tensor4 result" where
  "old_rotation cast s x layer_id =
     bindE (old_matrix cast s x layer_id) (\<lambda>P.
       Inr (x\<lparr>t_at := \<lambda>b h t. vec_mat (t_dim x) (t_at x b h t) P\<rparr>))"

definition old_inv_rotation :: "cast \<Rightarrow> rq_state \<Rightarrow> tensor4 \<Rightarrow> nat \<Rightarrow> tensor4 result" where
  "old_inv_rotation cast s x layer_id =
     bindE (old_matrix cast s x layer_id) (\<lambda>P.
       Inr (x\<lparr>t_at := \<lambda>b h t. vec_mat_T (t_dim x) (t_at x b h t) P\<rparr>))"

text \<open>An elementwise operation of a tensor with a stored one needs them on one device.\<close>

definition same_dev :: "'a ten \<Rightarrow> device \<Rightarrow> 'a ten result" where
  "same_dev t dev = (if ten_dev t \<noteq> dev then Inl RuntimeError else Inr t)"

definition old_quantize_keys_batch ::
  "cast \<Rightarrow> rq_state \<Rightarrow> tensor4 \<Rightarrow> nat \<Rightarrow> nat \<Rightarrow> nat \<Rightarrow> rq_state result" where
  "old_quantize_keys_batch cast s key_states layer_id start_idx end_idx =
     (let s0 = init_quantized_data s layer_id;
          keys_to_quantize = slice_tokens key_states start_idx end_idx;
          n = t_len keys_to_quantize; H = t_heads keys_to_quantize; D = t_dim keys_to_quantize;
          dev = t_dev keys_to_quantize
      in bindE (dict_get (k_centroids s0) layer_id) (\<lambda>kc.
         bindE (dict_get (q_centroids s0) layer_id) (\<lambda>qc.
         bindE (same_dev kc dev) (\<lambda>kc'. bindE (view_heads H D kc') (\<lambda>k_centroid.
         let Krc = center keys_to_quantize k_centroid;
             K_norms = (\<lambda>b h t. sqrt (\<Sum>d<D. (t_at Krc b h t d)\<^sup>2));
             K = (\<lambda>b h t d. t_at Krc b h t d / (K_norms b h t + eps8))
         in bindE (old_inv_rotation cast s0 Krc layer_id) (\<lambda>Krc_rotated.
         let Xbarb = (\<lambda>b h t d. if t_at Krc_rotated b h t d > 0 then 1 else 0);
             Kbar_unrotated = Krc\<lparr>t_dtype := Float32, t_at := \<lambda>b h t. code_vec D (Xbarb b h t)\<rparr>
         in bindE (old_rotation cast s0 Kbar_unrotated layer_id) (\<lambda>Kbar.
         bindE (same_dev qc dev) (\<lambda>qc'. bindE (view_heads H D qc') (\<lambda>q_centroid.
         let o_Kbar = (\<lambda>b h t. dot D (K b h t) (t_at Kbar b h t));
             cqkr = (\<lambda>b h t. dot D (t_at keys_to_quantize b h t) (q_centroid h))
         in bindE (dict_get (quantized_data s0) layer_id) (\<lambda>qd.
         Inr (s0\<lparr>quantized_data := (quantized_data s0)(layer_id \<mapsto>
                    qd\<lparr>codes := codes qd @ [(n, Xbarb)], norms := norms qd @ [(n, K_norms)],
                       o_Obar := o_Obar qd @ [(n, o_Kbar)],
                       cq_dot_kr := cq_dot_kr qd @ [(n, cqkr)],
                       seg_shapes := seg_shapes qd @ [(t_bs keys_to_quantize, H, D)]\<rparr>),
                 num_quantized_tokens := (num_quantized_tokens s0)(layer_id \<mapsto> end_idx)\<rparr>)))))))))))"

partial_function (option) old_initial_loop ::
  "cast \<Rightarrow> rq_state \<Rightarrow> tensor4 \<Rightarrow> nat \<Rightarrow> nat \<Rightarrow> rq_state result option" where
  "old_initial_loop cast s key_states layer_id start =
     (if start < t_len key_states
      then (let en = min (start + quantize_interval s) (t_len key_states)
            in case old_quantize_keys_batch cast s key_states layer_id start en of
                 Inl e \<Rightarrow> Some (Inl e)
               | Inr s' \<Rightarrow> old_initial_loop cast s' key_states layer_id en)
      else Some (Inr s))"

definition old_quantize_initial_keys ::
  "cast \<Rightarrow> rq_state \<Rightarrow> tensor4 \<Rightarrow> nat \<Rightarrow> rq_state result option" where
  "old_quantize_initial_keys cast s key_states layer_id =
     old_initial_loop cast s key_states layer_id (quantize_interval s)"

partial_function (option) old_decode_loop ::
  "cast \<Rightarrow> rq_state \<Rightarrow> tensor4 \<Rightarrow> nat \<Rightarrow> nat \<Rightarrow> rq_state result option" where
  "old_decode_loop cast s key_states layer_id start =
     (if start + quantize_interval s \<le> t_len key_states
      then (let en = start + quantize_interval s
            in case old_quantize_keys_batch cast s key_states layer_id start en of
                 Inl e \<Rightarrow> Some (Inl e)
               | Inr s' \<Rightarrow> old_decode_loop cast s' key_states layer_id en)
      else Some (Inr s))"

definition old_quantize_new_decode_tokens ::
  "cast \<Rightarrow> rq_state \<Rightarrow> tensor4 \<Rightarrow> nat \<Rightarrow> rq_state result option" where
  "old_quantize_new_decode_tokens cast s key_states layer_id =
     (case num_quantized_tokens s layer_id of
        None \<Rightarrow> Some (Inr s)
      | Some num_already_quantized \<Rightarrow>
          (if t_len key_states \<ge> num_already_quantized + quantize_interval s
           then old_decode_loop cast s key_states layer_id num_already_quantized
           else Some (Inr s)))"

definition old_distances ::
  "cast \<Rightarrow> rq_state \<Rightarrow> tensor4 \<Rightarrow> nat \<Rightarrow> nat \<Rightarrow> (nat \<times> nat \<times> score_rows) option result" where
  "old_distances cast s query_states layer_id quantized_seq_len =
     (case quantized_data s layer_id of
        None \<Rightarrow> Inr None
      | Some qd \<Rightarrow>
          if codes qd = [] then Inr None
          else (let bs = t_bs query_states; H = t_heads query_states; D = t_dim query_states; dev = t_dev query_states in
            bindE (dict_get (q_centroids s) layer_id) (\<lambda>qc.
            bindE (dict_get (k_centroids s) layer_id) (\<lambda>kc.
            bindE (dict_get (cq_dot_ck s) layer_id) (\<lambda>cc.
            bindE (cat_shape (seg_shapes qd)) (\<lambda>(bs', H', D').
            let cds = (\<lambda>b h. take quantized_seq_len (cat_row (codes qd) b h));
                nrm = (\<lambda>b h. take quantized_seq_len (cat_row (norms qd) b h));
                okb = (\<lambda>b h. take quantized_seq_len (cat_row (o_Obar qd) b h));
                cqk = (\<lambda>b h. take quantized_seq_len (cat_row (cq_dot_kr qd) b h));
                m = min quantized_seq_len (cat_len (codes qd))
            in bindE (same_dev qc dev) (\<lambda>qc'. bindE (view_heads H D qc') (\<lambda>q_centroid.
            bindE (old_inv_rotation cast s (center query_states q_centroid) layer_id) (\<lambda>qbar.
            bindE (bcast bs bs') (\<lambda>B. bindE (bcast H H') (\<lambda>HH. bindE (bcast D D') (\<lambda>DD.
            bindE (same_dev kc dev) (\<lambda>kc'. bindE (view_heads H D kc') (\<lambda>k_centroid.
            bindE (same_dev cc dev) (\<lambda>cc'. bindE (view_vec H cc') (\<lambda>cqck.
            let xbar_qbar = (\<lambda>b h i t. dot DD (\<lambda>d. t_at qbar (bidx bs B b) (bidx H HH h) i (bidx D DD d))
                                  (\<lambda>d. code_vec D (cds (bidx bs' B b) (bidx H' HH h) ! t) (bidx D' DD d)));
                q_dot_k_unit = (\<lambda>b h i t. xbar_qbar b h i t / (okb (bidx bs' B b) (bidx H' HH h) ! t + eps8));
                qr_dot_ck = (\<lambda>b h i. dot D (t_at query_states b h i) (k_centroid h));
                inner_product = (\<lambda>b h i t. nrm (bidx bs' B b) (bidx H' HH h) ! t * q_dot_k_unit b h i t
                                   + qr_dot_ck (bidx bs B b) (bidx H HH h) i
                                   + cqk (bidx bs' B b) (bidx H' HH h) ! t - cqck (bidx H HH h))
            in Inr (Some (B, HH, m, \<lambda>b h i. map (inner_product b h i) [0..<m]))))))))))))))))))"

definition old_rabitq_selector ::
  "cast \<Rightarrow> sorter \<Rightarrow> rq_state option \<Rightarrow> nat \<Rightarrow> tensor4 \<Rightarrow> tensor4 \<Rightarrow> nat \<Rightarrow> real
   \<Rightarrow> (mask_rows \<times> rq_state) result option" where
  "old_rabitq_selector cast srt g layer_id query_states key_states quantize_interval' top_p =
     (let head_dim = t_dim query_states; seq_length = t_len key_states;
          rabitq_state = get_rabitq_state quantize_interval' g
      in if is_trained rabitq_state layer_id = None \<or> is_trained rabitq_state layer_id = Some False
         then Some (Inr (\<lambda>b h i. replicate seq_length True, rabitq_state))
         else (let msk = replicate (min quantize_interval' seq_length) True
                         @ replicate (seq_length - quantize_interval') False
               in if seq_length \<le> quantize_interval' then Some (Inr (\<lambda>b h i. msk, rabitq_state))
         else (case old_quantize_new_decode_tokens cast rabitq_state key_states layer_id of
                 None \<Rightarrow> None
               | Some (Inl e) \<Rightarrow> Some (Inl e)
               | Some (Inr s1) \<Rightarrow>
           (let last_quantized_idx = (case num_quantized_tokens s1 layer_id of
                                        None \<Rightarrow> quantize_interval' | Some n \<Rightarrow> n);
                msk1 = (if last_quantized_idx < seq_length
                        then take last_quantized_idx msk
                             @ replicate (seq_length - last_quantized_idx) True
                        else msk);
                quantized_length = last_quantized_idx - quantize_interval'
            in if last_quantized_idx > quantize_interval'
               then (case old_distances cast s1 query_states layer_id quantized_length of
                       Inl e \<Rightarrow> Some (Inl e)
                     | Inr None \<Rightarrow> Some (Inl TypeError)
                     | Inr (Some (B, HH, m, rows)) \<Rightarrow>
                        (if m = 0 then Some (Inl IndexError)
                         else if t_bs query_states < B \<or> t_heads query_states < HH then Some (Inl RuntimeError)
                         else if last_quantized_idx > seq_length then Some (Inl RuntimeError)
                         else Some (Inr (\<lambda>b h i.
                           set_slice msk1 quantize_interval'
                             (if B < t_bs query_states \<or> HH < t_heads query_states then replicate quantized_length False
                              else top_p_row srt top_p quantized_length
                                     (softmax (map (\<lambda>x. x / sqrt (real head_dim)) (rows b h i)))), s1))))
               else Some (Inr (\<lambda>b h i. msk1, s1))))))"

section \<open>On one device and in single precision the implementations agree\<close>

definition single_device :: "device \<Rightarrow> rq_state \<Rightarrow> bool" where
  "single_device dev s \<longleftrightarrow>
     (\<forall>l t. q_centroids s l = Some t \<longrightarrow> ten_dev t = dev) \<and>
     (\<forall>l t. k_centroids s l = Some t \<longrightarrow> ten_dev t = dev) \<and>
     (\<forall>l t. cq_dot_ck s l = Some t \<longrightarrow> ten_dev t = dev) \<and>
     (\<forall>l P. rotation_matrices s l = Some P \<longrightarrow> ten_dev P = dev \<and> ten_dtype P = Float32)"

lemma ensure_device_same:
  "(\<And>t. dct l = Some t \<Longrightarrow> ten_dev t = dev) \<Longrightarrow>
   ensure_device dct l dev = bindE (dict_get dct l) (\<lambda>t. Inr (t, dct))"
  by (cases "dct l") (auto simp: ensure_device_def)

lemma get_rotation_same:
  "single_device dev s \<Longrightarrow>
   get_rotation cast s l dev Float32 = bindE (dict_get (rotation_matrices s) l) (\<lambda>P. Inr (P, s))"
  by (cases "rotation_matrices s l") (auto simp: get_rotation_def single_device_def)

lemma old_matrix_same:
  "single_device dev s \<Longrightarrow> t_dev x = dev \<Longrightarrow> t_dtype x = Float32 \<Longrightarrow>
   old_matrix cast s x l = bindE (dict_get (rotation_matrices s) l)
     (\<lambda>P. if ten_shape P \<noteq> [t_dim x, t_dim x] then Inl RuntimeError else Inr (ten_val P))"
  by (cases "rotation_matrices s l") (auto simp: old_matrix_def single_device_def)

lemma inv_rotation_same:
  "single_device dev s \<Longrightarrow> t_dev x = dev \<Longrightarrow> t_dtype x = Float32 \<Longrightarrow>
   inv_rotation cast s x l = bindE (old_inv_rotation cast s x l) (\<lambda>y. Inr (y, s))"
  by (simp add: inv_rotation_def old_inv_rotation_def get_rotation_same old_matrix_same bindE_assoc)
     (intro bindE_cong refl, simp)

lemma rotation_same:
  "single_device dev s \<Longrightarrow> t_dev x = dev \<Longrightarrow> t_dtype x = Float32 \<Longrightarrow>
   rotation cast s x l = bindE (old_rotation cast s x l) (\<lambda>y. Inr (y, s))"
  by (simp add: rotation_def old_rotation_def get_rotation_same old_matrix_same bindE_assoc)
     (intro bindE_cong refl, simp)

lemma same_dev_ok: "ten_dev t = dev \<Longrightarrow> same_dev t dev = Inr t"
  by (simp add: same_dev_def)

text \<open>When the lookups of a batch succeed, it is a change of the quantized data only.\<close>

lemma slice_tokens_fields [simp]:
  "t_dev (slice_tokens k st en) = t_dev k" "t_dtype (slice_tokens k st en) = t_dtype k"
  "t_dim (slice_tokens k st en) = t_dim k" "t_bs (slice_tokens k st en) = t_bs k" "t_heads (slice_tokens k st en) = t_heads k"
  by (simp_all add: slice_tokens_def)

lemma center_fields [simp]:
  "t_dev (center x c) = t_dev x" "t_dtype (center x c) = t_dtype x" "t_dim (center x c) = t_dim x" "t_bs (center x c) = t_bs x"
  "t_heads (center x c) = t_heads x"
  by (simp_all add: center_def)

lemma quantize_keys_batch_same:
  assumes s: "single_device dev s" and k: "t_dev k = dev" "t_dtype k = Float32"
  shows "quantize_keys_batch cast s k l st en = old_quantize_keys_batch cast s k l st en"
proof -
  let ?s0 = "init_quantized_data s l"
  have s0: "single_device dev ?s0" using s by (simp add: init_quantized_data_def single_device_def)
  have maps: "?s0\<lparr>k_centroids := k_centroids ?s0, q_centroids := q_centroids ?s0\<rparr> = ?s0" by simp
  have dev: "k_centroids ?s0 l = Some t \<Longrightarrow> ten_dev t = dev" "q_centroids ?s0 l = Some t \<Longrightarrow> ten_dev t = dev" for t
    using s0 by (auto simp: single_device_def)
  have ens: "ensure_device (k_centroids ?s0) l dev = bindE (dict_get (k_centroids ?s0) l) (\<lambda>t. Inr (t, k_centroids ?s0))"
    "ensure_device (q_centroids ?s0) l dev = bindE (dict_get (q_centroids ?s0) l) (\<lambda>t. Inr (t, q_centroids ?s0))"
    by (rule ensure_device_same, erule dev)+
  show ?thesis
    unfolding quantize_keys_batch_def old_quantize_keys_batch_def Let_def
    unfolding slice_tokens_fields k ens bindE_assoc bindE.simps case_prod_conv
    by (intro bindE_cong refl)
       (simp add: k result_simps dev same_dev_ok inv_rotation_same [OF s0] rotation_same [OF s0] bindE_assoc maps)
qed

lemma old_batch_keeps:
  assumes "old_quantize_keys_batch cast s k l st en = Inr s'"
  shows "quantize_interval s' = quantize_interval s" "single_device dev s \<Longrightarrow> single_device dev s'"
  using assms
  by (auto simp: old_quantize_keys_batch_def init_quantized_data_def Let_def result_simps single_device_def split: if_splits)

lemma initial_loop_same:
  assumes k: "t_dev k = dev" "t_dtype k = Float32"
  shows "single_device dev s \<Longrightarrow> 0 < quantize_interval s \<Longrightarrow>
    initial_loop cast s k l start = old_initial_loop cast s k l start"
proof (induction "t_len k - start" arbitrary: s start rule: less_induct)
  case less
  note batch = quantize_keys_batch_same [OF less.prems(1) k]
  show ?case
  proof (cases "start < t_len k")
    case True
    let ?en = "min (start + quantize_interval s) (t_len k)"
    have "initial_loop cast s' k l ?en = old_initial_loop cast s' k l ?en"
      if "old_quantize_keys_batch cast s k l start ?en = Inr s'" for s'
      using less.hyps [of ?en s'] old_batch_keeps [OF that] less.prems True by auto
    then show ?thesis
      unfolding initial_loop.simps [of cast s k l start] old_initial_loop.simps [of cast s k l start]
      by (simp add: True Let_def batch split: sum.split)
  next
    case False
    then show ?thesis unfolding initial_loop.simps [of cast s k l start] old_initial_loop.simps [of cast s k l start] by simp
  qed
qed

lemma decode_loop_same:
  assumes k: "t_dev k = dev" "t_dtype k = Float32"
  shows "single_device dev s \<Longrightarrow> 0 < quantize_interval s \<Longrightarrow>
    decode_loop cast s k l start = old_decode_loop cast s k l start \<and>
    (\<forall>s'. old_decode_loop cast s k l start = Some (Inr s') \<longrightarrow> single_device dev s')"
proof (induction "t_len k - start" arbitrary: s start rule: less_induct)
  case less
  note batch = quantize_keys_batch_same [OF less.prems(1) k]
  show ?case
  proof (cases "start + quantize_interval s \<le> t_len k")
    case True
    let ?en = "start + quantize_interval s"
    have "decode_loop cast s' k l ?en = old_decode_loop cast s' k l ?en \<and>
        (\<forall>s''. old_decode_loop cast s' k l ?en = Some (Inr s'') \<longrightarrow> single_device dev s'')"
      if "old_quantize_keys_batch cast s k l start ?en = Inr s'" for s'
      using less.hyps [of ?en s'] old_batch_keeps [OF that] less.prems True by auto
    then show ?thesis
      unfolding decode_loop.simps [of cast s k l start] old_decode_loop.simps [of cast s k l start]
      by (simp add: True Let_def batch split: sum.split)
  next
    case False
    with less.prems show ?thesis unfolding decode_loop.simps [of cast s k l start] old_decode_loop.simps [of cast s k l start] by simp
  qed
qed

lemma new_decode_tokens_same:
  assumes "single_device dev s" "0 < quantize_interval s" "t_dev k = dev" "t_dtype k = Float32"
  shows "quantize_new_decode_tokens cast s k l = old_quantize_new_decode_tokens cast s k l"
    and "old_quantize_new_decode_tokens cast s k l = Some (Inr s') \<Longrightarrow> single_device dev s'"
  using decode_loop_same [OF assms(3,4,1,2)] assms(1)
  by (auto simp: quantize_new_decode_tokens_def old_quantize_new_decode_tokens_def split: option.splits if_splits)

lemma distances_same:
  assumes s: "single_device dev s" and q: "t_dev q = dev" "t_dtype q = Float32"
  shows "distances cast s q l n = bindE (old_distances cast s q l n) (\<lambda>r. Inr (r, s))"
proof (cases "quantized_data s l")
  case None
  then show ?thesis by (simp add: distances_def old_distances_def)
next
  case (Some qd)
  have maps: "s\<lparr>q_centroids := q_centroids s, k_centroids := k_centroids s, cq_dot_ck := cq_dot_ck s\<rparr> = s" by simp
  have dev: "q_centroids s l = Some t \<Longrightarrow> ten_dev t = dev" "k_centroids s l = Some t \<Longrightarrow> ten_dev t = dev"
    "cq_dot_ck s l = Some u \<Longrightarrow> ten_dev u = dev" for t u
    using s by (auto simp: single_device_def)
  have ens: "ensure_device (q_centroids s) l dev = bindE (dict_get (q_centroids s) l) (\<lambda>t. Inr (t, q_centroids s))"
    "ensure_device (k_centroids s) l dev = bindE (dict_get (k_centroids s) l) (\<lambda>t. Inr (t, k_centroids s))"
    "ensure_device (cq_dot_ck s) l dev = bindE (dict_get (cq_dot_ck s) l) (\<lambda>t. Inr (t, cq_dot_ck s))"
    by (rule ensure_device_same, erule dev)+
  show ?thesis
    unfolding distances_def old_distances_def Let_def
    unfolding Some option.case q ens bindE_assoc bindE.simps case_prod_conv
    by (simp add: bindE_assoc cong: if_cong, intro impI bindE_cong refl)
       (simp add: q result_simps dev same_dev_ok inv_rotation_same [OF s] bindE_assoc maps split_beta)
qed

text \<open>C11. The two implementations agree. On one device and with single-precision tensors, the multi-GPU
  \<open>rabitq.py\<close> and the single-GPU \<open>rabitq_old.py\<close> return the same mask, the same state and the
  same exceptions, for the quantization of a prompt as for a decode step.\<close>

theorem old_implementation_agrees:
  assumes s: "single_device dev s" "0 < quantize_interval s"
    and q: "t_dev q = dev" "t_dtype q = Float32" and k: "t_dev k = dev" "t_dtype k = Float32"
  shows "quantize_initial_keys cast s k l = old_quantize_initial_keys cast s k l \<and>
    rabitq_selector cast srt (Some s) l q k i p = old_rabitq_selector cast srt (Some s) l q k i p"
proof
  show "quantize_initial_keys cast s k l = old_quantize_initial_keys cast s k l"
    by (simp add: quantize_initial_keys_def old_quantize_initial_keys_def initial_loop_same [OF k s])
next
  note tokens = new_decode_tokens_same [OF s k]
  have dist: "distances cast s' q l n = bindE (old_distances cast s' q l n) (\<lambda>r. Inr (r, s'))"
    if "old_quantize_new_decode_tokens cast s k l = Some (Inr s')" for s' n
    using distances_same [OF tokens(2) [OF that] q] .
  show "rabitq_selector cast srt (Some s) l q k i p = old_rabitq_selector cast srt (Some s) l q k i p"
    unfolding rabitq_selector_def old_rabitq_selector_def Let_def get_rabitq_state_def option.case tokens(1)
    by (intro if_cong refl) (auto split: option.split sum.split if_split simp: dist result_simps)
qed

definition demo_state :: rq_state where
  "demo_state = (init_state 1)\<lparr>
     q_centroids := [0 \<mapsto> \<lparr>ten_dev = 0, ten_dtype = Float32, ten_shape = [1, 1], ten_val = (\<lambda>i j. 0)\<rparr>],
     k_centroids := [0 \<mapsto> \<lparr>ten_dev = 0, ten_dtype = Float32, ten_shape = [1, 1], ten_val = (\<lambda>i j. 0)\<rparr>],
     cq_dot_ck := [0 \<mapsto> \<lparr>ten_dev = 0, ten_dtype = Float32, ten_shape = [1], ten_val = (\<lambda>i. 0)\<rparr>],
     rotation_matrices := [0 \<mapsto> \<lparr>ten_dev = 0, ten_dtype = Float32, ten_shape = [1, 1], ten_val = (\<lambda>i j. 1)\<rparr>],
     is_trained := [0 \<mapsto> True]\<rparr>"

definition demo_tensor :: "nat \<Rightarrow> tensor4" where
  "demo_tensor n = \<lparr>t_bs = 1, t_heads = 1, t_len = n, t_dim = 1, t_dev = 0, t_dtype = Float32,
     t_at = (\<lambda>b h t d. real t)\<rparr>"

theorem old_implementation_agrees_witness:
  "single_device 0 demo_state \<and>
   quantize_initial_keys (\<lambda>dt x. x) demo_state (demo_tensor 4) 0 =
     old_quantize_initial_keys (\<lambda>dt x. x) demo_state (demo_tensor 4) 0"
proof -
  have s: "single_device 0 demo_state" "0 < quantize_interval demo_state"
    by (simp_all add: single_device_def demo_state_def init_state_def)
  have t: "t_dev (demo_tensor n) = 0" "t_dtype (demo_tensor n) = Float32" for n
    by (simp_all add: demo_tensor_def)
  show ?thesis
    using s(1) old_implementation_agrees [OF s t [of 1] t [of 4]] by blast
qed

text \<open>In half precision they do not. The multi-GPU version stores the matrix it rounded to the dtype of
  the keys and later uses it in place of the single-precision one, while the single-GPU version rounds a
  copy: for some rounding the stored product with the code differs.\<close>

theorem half_precision_implementations_differ:
  "\<exists>cast s k s1 s2 q1 q2. single_device 0 s \<and> t_dev k = 0 \<and> t_dtype k = Float16 \<and>
     quantize_keys_batch cast s k 0 0 1 = Inr s1 \<and> old_quantize_keys_batch cast s k 0 0 1 = Inr s2 \<and>
     quantized_data s1 0 = Some q1 \<and> quantized_data s2 0 = Some q2 \<and>
     (\<forall>dt x. cast dt (cast dt x) = cast dt x \<and> cast Float32 (cast dt x) = cast dt x) \<and>
     cat_row (codes q1) 0 0 = cat_row (codes q2) 0 0 \<and> cat_row (o_Obar q1) 0 0 \<noteq> cat_row (o_Obar q2) 0 0"
proof -
  define cast :: cast where "cast = (\<lambda>dt x. if dt = Float32 then x else of_int \<lfloor>x\<rfloor>)"
  define tag :: "real \<Rightarrow> mat ten" where "tag = (\<lambda>x. \<lparr>ten_dev = 0, ten_dtype = Float32, ten_shape = [1, 1], ten_val = (\<lambda>i j. x)\<rparr>)"
  define s where "s = (init_state 1)\<lparr>q_centroids := [0 \<mapsto> tag 0], k_centroids := [0 \<mapsto> tag 0],
     rotation_matrices := [0 \<mapsto> tag (3/2)]\<rparr>"
  define k where "k = \<lparr>t_bs = 1, t_heads = 1, t_len = 1, t_dim = 1, t_dev = 0, t_dtype = Float16,
     t_at = (\<lambda>b h t d. 1)\<rparr>"
  note defs = s_def k_def tag_def cast_def init_state_def
  have "single_device 0 s" by (simp add: single_device_def defs)
  moreover have "\<forall>dt x. cast dt (cast dt x) = cast dt x \<and> cast Float32 (cast dt x) = cast dt x"
    by (simp add: cast_def)
  moreover obtain s1 q1 where "quantize_keys_batch cast s k 0 0 1 = Inr s1" "quantized_data s1 0 = Some q1"
      "cat_row (codes q1) 0 0 = [\<lambda>d. 1]" "cat_row (o_Obar q1) 0 0 = [1 / (1 + eps8)]"
    by (simp add: quantize_keys_batch_def init_quantized_data_def ensure_device_def inv_rotation_def
        rotation_def get_rotation_def to_dtype_def slice_tokens_def center_def empty_qdata_def Let_def
        cat_row_def vec_mat_def vec_mat_T_def code_vec_def dot_def defs)
  moreover obtain s2 q2 where "old_quantize_keys_batch cast s k 0 0 1 = Inr s2" "quantized_data s2 0 = Some q2"
      "cat_row (codes q2) 0 0 = [\<lambda>d. 1]" "cat_row (o_Obar q2) 0 0 = [3 / (2 * (1 + eps8))]"
    by (simp add: old_quantize_keys_batch_def init_quantized_data_def old_inv_rotation_def old_rotation_def
        old_matrix_def same_dev_def to_dtype_def slice_tokens_def center_def empty_qdata_def Let_def
        cat_row_def vec_mat_def vec_mat_T_def code_vec_def dot_def defs)
  moreover have "1 / (1 + eps8) \<noteq> 3 / (2 * (1 + eps8))"
    by (simp add: eps8_def)
  moreover have "t_dev k = 0" "t_dtype k = Float16" by (simp_all add: k_def)
  ultimately show ?thesis
    by (intro exI [of _ cast] exI [of _ s] exI [of _ k] exI [of _ s1] exI [of _ s2] exI [of _ q1] exI [of _ q2]) simp
qed

end
