(* ===== verification/Block_Queue.thy ===== *)
theory Block_Queue
  imports RQ_Prelude
begin

text \<open>
  \<open>vllm/v1/core/kv_cache_utils.py\<close>: \<open>FreeKVCacheBlockQueue\<close>, the doubly linked list of free KV-cache
  blocks threaded through the attributes \<open>prev_free_block\<close> and \<open>next_free_block\<close> of the block
  objects. Objects are references; the two attributes are maps from references (\<open>None\<close> is Python's
  \<open>None\<close>). The operations refine those of a plain list of block numbers.
\<close>

section \<open>References and the queue\<close>

datatype bref = Fake_head | Fake_tail | Blk nat

record free_queue =
  next_free_block :: "bref \<rightharpoonup> bref"
  prev_free_block :: "bref \<rightharpoonup> bref"
  num_free_blocks :: int

text \<open>The constructor on blocks numbered 0 to \<open>n - 1\<close>: the loop over the blocks, then the fake ends.\<close>

fun init_links :: "nat \<Rightarrow> nat list \<Rightarrow> (bref \<rightharpoonup> bref) \<times> (bref \<rightharpoonup> bref) \<Rightarrow> (bref \<rightharpoonup> bref) \<times> (bref \<rightharpoonup> bref)" where
  "init_links n [] (nx, pv) = (nx, pv)"
| "init_links n (i # is) (nx, pv) =
     init_links n is
       (if i + 1 < n then nx(Blk i \<mapsto> Blk (i + 1)) else nx,
        if i > 0 then pv(Blk i \<mapsto> Blk (i - 1)) else pv)"

definition init_queue :: "nat \<Rightarrow> free_queue" where
  "init_queue n =
     (let (nx, pv) = init_links n [0..<n] (Map.empty, Map.empty)
      in if n > 0
         then \<lparr>next_free_block = nx(Fake_head \<mapsto> Blk 0, Blk (n - 1) \<mapsto> Fake_tail),
               prev_free_block = pv(Blk 0 \<mapsto> Fake_head, Fake_tail \<mapsto> Blk (n - 1)),
               num_free_blocks = int n\<rparr>
         else \<lparr>next_free_block = nx(Fake_head \<mapsto> Fake_tail),
               prev_free_block = pv(Fake_tail \<mapsto> Fake_head), num_free_blocks = int n\<rparr>)"

definition popleft :: "free_queue \<Rightarrow> (bref \<times> free_queue) result" where
  "popleft q =
     (case next_free_block q Fake_head of
        None \<Rightarrow> if num_free_blocks q = 0 then Inl ValueError else Inl AssertionError
      | Some first_block \<Rightarrow>
          if first_block = Fake_tail
          then (if num_free_blocks q = 0 then Inl ValueError else Inl AssertionError)
          else (case next_free_block q first_block of
                  None \<Rightarrow> Inl RuntimeError
                | Some second \<Rightarrow>
                    Inr (first_block,
                      q\<lparr>next_free_block := (next_free_block q)(Fake_head \<mapsto> second, first_block := None),
                        prev_free_block := (prev_free_block q)(second \<mapsto> Fake_head, first_block := None),
                        num_free_blocks := num_free_blocks q - 1\<rparr>)))"

fun popleft_loop ::
  "nat \<Rightarrow> bref option \<Rightarrow> (bref \<rightharpoonup> bref) \<Rightarrow> (bref \<rightharpoonup> bref) \<Rightarrow> bref list
   \<Rightarrow> (bref option \<times> (bref \<rightharpoonup> bref) \<times> (bref \<rightharpoonup> bref) \<times> bref list) result" where
  "popleft_loop 0 cur nx pv ret = Inr (cur, nx, pv, ret)"
| "popleft_loop (Suc n) None nx pv ret = Inl AssertionError"
| "popleft_loop (Suc n) (Some c) nx pv ret =
     popleft_loop n (nx c) (nx(c := None)) (pv(c := None)) (ret @ [c])"

definition popleft_n :: "free_queue \<Rightarrow> nat \<Rightarrow> (bref list \<times> free_queue) result" where
  "popleft_n q n =
     (if n = 0 then Inr ([], q)
      else if num_free_blocks q < int n then Inl AssertionError
      else bindE (popleft_loop n (next_free_block q Fake_head) (next_free_block q) (prev_free_block q) [])
             (\<lambda>(cur, nx, pv, ret).
                Inr (ret, q\<lparr>num_free_blocks := num_free_blocks q - int n,
                  next_free_block := (case cur of None \<Rightarrow> nx | Some c \<Rightarrow> nx(Fake_head \<mapsto> c)),
                  prev_free_block := (case cur of None \<Rightarrow> pv | Some c \<Rightarrow> pv(c \<mapsto> Fake_head))\<rparr>)))"

definition remove_block :: "free_queue \<Rightarrow> bref \<Rightarrow> free_queue result" where
  "remove_block q blk =
     (case (prev_free_block q blk, next_free_block q blk) of
        (Some p, Some n) \<Rightarrow>
          Inr (q\<lparr>next_free_block := (next_free_block q)(p \<mapsto> n, blk := None),
                 prev_free_block := (prev_free_block q)(n \<mapsto> p, blk := None),
                 num_free_blocks := num_free_blocks q - 1\<rparr>)
      | _ \<Rightarrow> Inl RuntimeError)"

definition append_block :: "free_queue \<Rightarrow> bref \<Rightarrow> free_queue result" where
  "append_block q blk =
     (case prev_free_block q Fake_tail of
        None \<Rightarrow> Inl RuntimeError
      | Some last_block \<Rightarrow>
          Inr (q\<lparr>next_free_block := (next_free_block q)(last_block \<mapsto> blk, blk \<mapsto> Fake_tail),
                 prev_free_block := (prev_free_block q)(blk \<mapsto> last_block, Fake_tail \<mapsto> blk),
                 num_free_blocks := num_free_blocks q + 1\<rparr>))"

fun append_loop :: "bref list \<Rightarrow> bref \<Rightarrow> (bref \<rightharpoonup> bref) \<Rightarrow> (bref \<rightharpoonup> bref) \<Rightarrow> bref \<times> (bref \<rightharpoonup> bref) \<times> (bref \<rightharpoonup> bref)" where
  "append_loop [] last_block nx pv = (last_block, nx, pv)"
| "append_loop (b # bs) last_block nx pv = append_loop bs b (nx(last_block \<mapsto> b)) (pv(b \<mapsto> last_block))"

definition append_n :: "free_queue \<Rightarrow> bref list \<Rightarrow> free_queue result" where
  "append_n q blks =
     (if blks = [] then Inr q
      else (case prev_free_block q Fake_tail of
              None \<Rightarrow> Inl AssertionError
            | Some last_block \<Rightarrow>
                (let (lst, nx, pv) = append_loop blks last_block (next_free_block q) (prev_free_block q)
                 in Inr (q\<lparr>num_free_blocks := num_free_blocks q + int (length blks),
                           next_free_block := nx(lst \<mapsto> Fake_tail),
                           prev_free_block := pv(Fake_tail \<mapsto> lst)\<rparr>))))"

text \<open>The walk along \<open>next_free_block\<close>, which stops at the one reference without a successor.\<close>

partial_function (option) walk :: "(bref \<rightharpoonup> bref) \<Rightarrow> bref \<Rightarrow> bref list \<Rightarrow> bref list option" where
  "walk nx cur ret =
     (case nx cur of None \<Rightarrow> Some ret | Some n \<Rightarrow> walk nx n (ret @ [cur]))"

definition get_all_free_blocks :: "free_queue \<Rightarrow> bref list result option" where
  "get_all_free_blocks q =
     (case next_free_block q Fake_head of
        None \<Rightarrow> Some (Inl RuntimeError)
      | Some c \<Rightarrow> map_option Inr (walk (next_free_block q) c []))"

section \<open>Links of a list\<close>

text \<open>The successor map of a list of references.\<close>

fun links :: "bref list \<Rightarrow> (bref \<rightharpoonup> bref)" where
  "links [] = Map.empty"
| "links [a] = Map.empty"
| "links (a # b # r) = (links (b # r))(a \<mapsto> b)"

lemma links_notin: "r \<notin> set ps \<Longrightarrow> links ps r = None"
  by (induction ps rule: links.induct) auto

lemma links_Cons: "ps \<noteq> [] \<Longrightarrow> links (a # ps) = (links ps)(a \<mapsto> hd ps)"
  by (cases ps) auto

lemma links_last: "distinct ps \<Longrightarrow> ps \<noteq> [] \<Longrightarrow> links ps (last ps) = None"
  by (induction ps rule: links.induct) (auto split: if_splits)

lemma links_at: "distinct (xs @ a # b # ys) \<Longrightarrow> links (xs @ a # b # ys) a = Some b"
  by (induction xs) (auto simp: links_Cons)

text \<open>Unlinking and linking one reference.\<close>

lemma links_remove:
  "distinct (xs @ a # x # b # ys) \<Longrightarrow>
   (links (xs @ a # x # b # ys))(a \<mapsto> b, x := None) = links (xs @ a # b # ys)"
proof (induction xs)
  case Nil
  then have "links (b # ys) x = None" "a \<noteq> x" by (auto intro: links_notin)
  then show ?case by (auto simp: fun_eq_iff)
next
  case (Cons c xs)
  have "hd (xs @ a # x # b # ys) = hd (xs @ a # b # ys)" by (cases xs) auto
  then show ?case using Cons by (simp add: links_Cons fun_eq_iff) metis
qed

lemma links_insert:
  "distinct (xs @ a # x # b # ys) \<Longrightarrow>
   (links (xs @ a # b # ys))(a \<mapsto> x, x \<mapsto> b) = links (xs @ a # x # b # ys)"
proof (induction xs)
  case Nil
  then show ?case by (auto simp: fun_eq_iff)
next
  case (Cons c xs)
  have "hd (xs @ a # x # b # ys) = hd (xs @ a # b # ys)" by (cases xs) auto
  then show ?case using Cons by (simp add: links_Cons fun_eq_iff) metis
qed

section \<open>The queue represents a list\<close>

definition ring :: "nat list \<Rightarrow> bref list" where
  "ring xs = Fake_head # map Blk xs @ [Fake_tail]"

definition dll :: "free_queue \<Rightarrow> nat list \<Rightarrow> bool" where
  "dll q xs \<longleftrightarrow> distinct xs \<and> next_free_block q = links (ring xs)
     \<and> prev_free_block q = links (rev (ring xs)) \<and> num_free_blocks q = int (length xs)"

lemma distinct_ring [simp]: "distinct (ring xs) \<longleftrightarrow> distinct xs"
  by (auto simp: ring_def distinct_map inj_on_def)

lemma distinct_rev_ring: "distinct xs \<Longrightarrow> distinct (rev (ring xs))"
  by simp

lemma ring_split:
  assumes "x \<in> set xs"
  obtains us a b vs ys zs where "ring xs = us @ a # Blk x # b # vs" and "xs = ys @ x # zs"
    and "us @ a # b # vs = ring (ys @ zs)"
proof -
  from assms obtain ys zs where xs: "xs = ys @ x # zs" by (auto simp: in_set_conv_decomp)
  obtain us a where ua: "Fake_head # map Blk ys = us @ [a]" by (metis rev_exhaust list.distinct(1))
  obtain b vs where bv: "map Blk zs @ [Fake_tail] = b # vs" by (cases zs) auto
  have "ring xs = (Fake_head # map Blk ys) @ Blk x # (map Blk zs @ [Fake_tail])"
    by (simp add: ring_def xs)
  then have 1: "ring xs = us @ a # Blk x # b # vs" by (simp add: ua bv)
  have "ring (ys @ zs) = (Fake_head # map Blk ys) @ (map Blk zs @ [Fake_tail])"
    by (simp add: ring_def)
  then have "us @ a # b # vs = ring (ys @ zs)" by (simp add: ua bv)
  with 1 xs show ?thesis by (rule that)
qed

lemma dll_remove:
  assumes q: "dll q xs" and x: "x \<in> set xs"
  shows "\<exists>q'. remove_block q (Blk x) = Inr q' \<and> dll q' (remove1 x xs)"
proof -
  from x obtain us a b vs ys zs where r: "ring xs = us @ a # Blk x # b # vs"
    and xs: "xs = ys @ x # zs" and r': "us @ a # b # vs = ring (ys @ zs)" by (rule ring_split)
  have d: "distinct xs" using q by (simp add: dll_def)
  then have dr: "distinct (us @ a # Blk x # b # vs)" using distinct_ring r by metis
  then have drr: "distinct (rev vs @ b # Blk x # a # rev us)" by auto
  have nx: "links (us @ a # Blk x # b # vs) (Blk x) = Some b"
    using links_at[of "us @ [a]" "Blk x" b vs] dr by simp
  have pv: "links (rev vs @ b # Blk x # a # rev us) (Blk x) = Some a"
    using links_at[of "rev vs @ [b]" "Blk x" a "rev us"] drr by simp
  have rm: "remove1 x xs = ys @ zs" using d xs by (simp add: remove1_append)
  show ?thesis
    using q links_remove[OF dr] links_remove[OF drr] nx pv d
    by (simp add: remove_block_def dll_def r rm flip: r') (simp add: xs)
qed

lemma dll_remove_absent:
  assumes "dll q xs" "x \<notin> set xs"
  shows "remove_block q (Blk x) = Inl RuntimeError"
proof -
  have "Blk x \<notin> set (ring xs)" using assms(2) by (auto simp: ring_def)
  then have "links (rev (ring xs)) (Blk x) = None" by (intro links_notin) simp
  then show ?thesis using assms(1) by (simp add: remove_block_def dll_def)
qed

text \<open>Popping from the front. While the loop runs, the list still to be walked is linked up to the fake
  head except for the two links to its first reference, which are only repaired at the end.\<close>

definition pending :: "(bref \<rightharpoonup> bref) \<Rightarrow> (bref \<rightharpoonup> bref) \<Rightarrow> bref list \<Rightarrow> bool" where
  "pending nx pv ps \<longleftrightarrow> ps \<noteq> [] \<and> distinct (Fake_head # ps) \<and> nx(Fake_head \<mapsto> hd ps) = links (Fake_head # ps)
     \<and> pv(hd ps \<mapsto> Fake_head) = links (rev (Fake_head # ps))"

lemma pending_step:
  assumes "pending nx pv (c # b # r)"
  shows "nx c = Some b" and "pending (nx(c := None)) (pv(c := None)) (b # r)"
proof -
  have d: "distinct ([] @ Fake_head # c # b # r)" and d': "distinct (rev r @ b # c # Fake_head # [])"
    and n: "nx(Fake_head \<mapsto> c) = links (Fake_head # c # b # r)"
    and p: "pv(c \<mapsto> Fake_head) = links (rev r @ b # c # Fake_head # [])"
    using assms by (auto simp: pending_def)
  have "c \<noteq> Fake_head" using d by auto
  then have "nx c = links (Fake_head # c # b # r) c" using n by (metis fun_upd_other)
  then show "nx c = Some b" using links_at[of "[Fake_head]" c b r] d by simp
  have "(nx(c := None))(Fake_head \<mapsto> b) = (nx(Fake_head \<mapsto> c))(Fake_head \<mapsto> b, c := None)"
    using d by (auto simp: fun_eq_iff)
  also have "\<dots> = links (Fake_head # b # r)" using links_remove[OF d] n by simp
  finally have 1: "(nx(c := None))(Fake_head \<mapsto> b) = links (Fake_head # b # r)" .
  have "(pv(c := None))(b \<mapsto> Fake_head) = (pv(c \<mapsto> Fake_head))(b \<mapsto> Fake_head, c := None)"
    using d by (auto simp: fun_eq_iff)
  also have "\<dots> = links (rev r @ b # Fake_head # [])" using links_remove[OF d'] p by simp
  finally show "pending (nx(c := None)) (pv(c := None)) (b # r)"
    using 1 d by (simp add: pending_def)
qed

lemma popleft_loop_pending:
  "pending nx pv (map Blk ys @ qs) \<Longrightarrow> qs \<noteq> [] \<Longrightarrow>
   \<exists>nx' pv'. popleft_loop (length ys) (Some (hd (map Blk ys @ qs))) nx pv ret
       = Inr (Some (hd qs), nx', pv', ret @ map Blk ys) \<and> pending nx' pv' qs"
proof (induction ys arbitrary: nx pv ret)
  case (Cons y ys)
  obtain b r where br: "map Blk ys @ qs = b # r" using Cons.prems(2) by (cases "map Blk ys @ qs") auto
  have p: "pending nx pv (Blk y # b # r)" using Cons.prems(1) br by simp
  then have "pending (nx(Blk y := None)) (pv(Blk y := None)) (map Blk ys @ qs)"
    unfolding br by (rule pending_step)
  from Cons.IH[OF this Cons.prems(2), of "ret @ [Blk y]"] obtain nx' pv' where
    "popleft_loop (length ys) (Some b) (nx(Blk y := None)) (pv(Blk y := None)) (ret @ [Blk y])
      = Inr (Some (hd qs), nx', pv', ret @ Blk y # map Blk ys)" "pending nx' pv' qs"
    unfolding br by (auto simp: fun_upd_def)
  then show ?case using pending_step(1)[OF p] by simp
qed simp

lemma dll_pending: "dll q xs \<Longrightarrow> pending (next_free_block q) (prev_free_block q) (map Blk xs @ [Fake_tail])"
proof -
  assume "dll q xs"
  then have d: "distinct (ring xs)" and n: "next_free_block q = links (ring xs)"
    and p: "prev_free_block q = links (rev (ring xs))" by (auto simp: dll_def)
  obtain b r where br: "map Blk xs @ [Fake_tail] = b # r" by (cases xs) auto
  then have r: "ring xs = Fake_head # b # r" by (simp add: ring_def)
  have "links (rev (ring xs)) b = Some Fake_head"
    using links_at[of "rev r" b Fake_head "[]"] d by (auto simp: r)
  then show ?thesis using d n p unfolding pending_def br by (auto simp: r fun_eq_iff)
qed

lemma dll_popleft_n:
  assumes q: "dll q xs" and n: "n \<le> length xs"
  shows "\<exists>q'. popleft_n q n = Inr (map Blk (take n xs), q') \<and> dll q' (drop n xs)"
proof (cases "n = 0")
  case True
  then show ?thesis using q by (simp add: popleft_n_def)
next
  case False
  have td: "map Blk (take n xs) @ map Blk (drop n xs) @ [Fake_tail] = map Blk xs @ [Fake_tail]"
    by (simp flip: map_append append_assoc)
  then have "pending (next_free_block q) (prev_free_block q) (map Blk (take n xs) @ map Blk (drop n xs) @ [Fake_tail])"
    using dll_pending[OF q] by (simp only: td)
  from popleft_loop_pending[OF this, of "[]"] obtain nx' pv' where
    l: "popleft_loop n (Some (hd (map Blk xs @ [Fake_tail]))) (next_free_block q) (prev_free_block q) []
       = Inr (Some (hd (map Blk (drop n xs) @ [Fake_tail])), nx', pv', map Blk (take n xs))"
    and p: "pending nx' pv' (map Blk (drop n xs) @ [Fake_tail])"
    unfolding td using n by auto
  have h: "next_free_block q Fake_head = Some (hd (map Blk xs @ [Fake_tail]))"
    using q by (cases xs) (auto simp: dll_def ring_def)
  have "int (length (drop n xs)) = num_free_blocks q - int n" "\<not> num_free_blocks q < int n" "distinct (drop n xs)"
    using q n by (auto simp: dll_def)
  then show ?thesis using False h l p
    by (simp add: popleft_n_def dll_def pending_def ring_def)
qed

lemma popleft_n_short: "dll q xs \<Longrightarrow> length xs < n \<Longrightarrow> popleft_n q n = Inl AssertionError"
  by (auto simp: popleft_n_def dll_def)

lemma dll_popleft:
  assumes q: "dll q (x # xs)"
  shows "\<exists>q'. popleft q = Inr (Blk x, q') \<and> dll q' xs"
proof -
  obtain b r where br: "map Blk xs @ [Fake_tail] = b # r" by (cases xs) auto
  then have r: "ring (x # xs) = [] @ Fake_head # Blk x # b # r" and r': "ring xs = Fake_head # b # r"
    by (simp_all add: ring_def)
  have "distinct (ring (x # xs))" using q by (simp add: dll_def)
  then have d: "distinct ([] @ Fake_head # Blk x # b # r)" and d': "distinct (rev r @ b # Blk x # Fake_head # [])"
    by (auto simp: r)
  show ?thesis
    using q links_remove[OF d] links_remove[OF d'] d
    by (auto simp: popleft_def dll_def r r')
qed

lemma popleft_empty: "dll q [] \<Longrightarrow> popleft q = Inl ValueError"
  by (simp add: popleft_def dll_def ring_def)

text \<open>Appending at the back: the mirror image, with the links between the last reference and the fake tail
  open while the loop runs.\<close>

definition open_end :: "(bref \<rightharpoonup> bref) \<Rightarrow> (bref \<rightharpoonup> bref) \<Rightarrow> bref list \<Rightarrow> bool" where
  "open_end nx pv ps \<longleftrightarrow> ps \<noteq> [] \<and> distinct (ps @ [Fake_tail]) \<and> nx(last ps \<mapsto> Fake_tail) = links (ps @ [Fake_tail])
     \<and> pv(Fake_tail \<mapsto> last ps) = links (Fake_tail # rev ps)"

lemma open_end_step:
  assumes "open_end nx pv ps" "x \<notin> set (ps @ [Fake_tail])"
  shows "open_end (nx(last ps \<mapsto> x)) (pv(x \<mapsto> last ps)) (ps @ [x])"
proof -
  obtain us a where ps: "ps = us @ [a]" using assms(1) by (metis open_end_def rev_exhaust)
  have d: "distinct (us @ a # x # Fake_tail # [])" and d': "distinct ([] @ Fake_tail # x # a # rev us)"
    using assms by (auto simp: ps open_end_def)
  have "(nx(a \<mapsto> x))(x \<mapsto> Fake_tail) = (nx(a \<mapsto> Fake_tail))(a \<mapsto> x, x \<mapsto> Fake_tail)" by simp
  also have "\<dots> = links (us @ a # x # Fake_tail # [])"
    using links_insert[OF d] assms(1) by (simp add: open_end_def ps)
  finally have 1: "(nx(a \<mapsto> x))(x \<mapsto> Fake_tail) = links (us @ a # x # Fake_tail # [])" .
  have "(pv(x \<mapsto> a))(Fake_tail \<mapsto> x) = (pv(Fake_tail \<mapsto> a))(Fake_tail \<mapsto> x, x \<mapsto> a)"
    using d by (auto simp: fun_eq_iff)
  also have "\<dots> = links (Fake_tail # x # a # rev us)"
    using links_insert[OF d'] assms(1) by (simp add: open_end_def ps)
  finally show ?thesis using 1 d by (simp add: open_end_def ps)
qed

lemma append_loop_open_end:
  "open_end nx pv ps \<Longrightarrow> distinct (ps @ bs @ [Fake_tail]) \<Longrightarrow>
   \<exists>nx' pv'. append_loop bs (last ps) nx pv = (last (ps @ bs), nx', pv') \<and> open_end nx' pv' (ps @ bs)"
proof (induction bs arbitrary: nx pv ps)
  case (Cons b bs)
  have "b \<notin> set (ps @ [Fake_tail])" using Cons.prems(2) by auto
  from Cons.IH[OF open_end_step[OF Cons.prems(1) this]] Cons.prems(2)
  show ?case by (auto simp: fun_upd_def split: if_splits)
qed simp

lemma dll_open_end: "dll q xs \<Longrightarrow> open_end (next_free_block q) (prev_free_block q) (Fake_head # map Blk xs)"
proof -
  assume "dll q xs"
  then have d: "distinct (ring xs)" and n: "next_free_block q = links (ring xs)"
    and p: "prev_free_block q = links (rev (ring xs))" by (auto simp: dll_def)
  obtain us a where ua: "Fake_head # map Blk xs = us @ [a]" by (metis rev_exhaust list.distinct(1))
  then have r: "ring xs = us @ a # [Fake_tail]" by (simp add: ring_def)
  have "links (us @ a # [Fake_tail]) a = Some Fake_tail" using links_at[of us a Fake_tail "[]"] d by (auto simp: r)
  then show ?thesis using d n p unfolding open_end_def ua by (auto simp: r fun_eq_iff)
qed

lemma dll_append_n:
  assumes q: "dll q xs" and d: "distinct (xs @ ys)"
  shows "\<exists>q'. append_n q (map Blk ys) = Inr q' \<and> dll q' (xs @ ys)"
proof (cases "ys = []")
  case True
  then show ?thesis using q by (simp add: append_n_def)
next
  case False
  have "distinct ((Fake_head # map Blk xs) @ map Blk ys @ [Fake_tail])"
    using d by (auto simp: distinct_map inj_on_def)
  from append_loop_open_end[OF dll_open_end[OF q] this] obtain nx' pv' where
    l: "append_loop (map Blk ys) (last (Fake_head # map Blk xs)) (next_free_block q) (prev_free_block q)
      = (last (Fake_head # map Blk (xs @ ys)), nx', pv')"
    and o: "open_end nx' pv' (Fake_head # map Blk (xs @ ys))" by auto
  have "prev_free_block q Fake_tail = Some (last (Fake_head # map Blk xs))"
    using q by (cases xs rule: rev_cases) (auto simp: dll_def ring_def)
  then show ?thesis using False l o q d
    by (auto simp: append_n_def dll_def open_end_def ring_def)
qed

lemma append_block_n: "prev_free_block q Fake_tail \<noteq> None \<Longrightarrow> blk \<noteq> Fake_tail \<Longrightarrow> append_block q blk = append_n q [blk]"
  by (auto simp: append_block_def append_n_def fun_upd_twist)

lemma dll_append:
  assumes q: "dll q xs" and x: "x \<notin> set xs"
  shows "\<exists>q'. append_block q (Blk x) = Inr q' \<and> dll q' (xs @ [x])"
proof -
  have "prev_free_block q Fake_tail \<noteq> None"
    using q by (cases xs rule: rev_cases) (auto simp: dll_def ring_def)
  then show ?thesis using append_block_n[of q "Blk x"] dll_append_n[OF q, of "[x]"] x q
    by (simp add: dll_def)
qed

text \<open>The walk visits exactly the represented list and returns.\<close>

lemma walk_links:
  "distinct (us @ ps) \<Longrightarrow> ps \<noteq> [] \<Longrightarrow> walk (links (us @ ps)) (hd ps) ret = Some (ret @ butlast ps)"
proof (induction ps arbitrary: us ret)
  case (Cons a ps)
  show ?case
  proof (cases ps)
    case Nil
    have "links (us @ [a]) a = None" using links_last[of "us @ [a]"] Cons.prems by simp
    then show ?thesis using Nil by (simp add: walk.simps)
  next
    case (Cons b r)
    have "links (us @ a # b # r) a = Some b" using links_at[of us a b r] Cons.prems Cons by simp
    then show ?thesis using Cons.IH[of "us @ [a]" "ret @ [a]"] Cons.prems Cons
      by (simp add: walk.simps[of _ a])
  qed
qed simp

lemma dll_get_all: "dll q xs \<Longrightarrow> get_all_free_blocks q = Some (Inr (map Blk xs))"
proof -
  assume q: "dll q xs"
  then have d: "distinct ([Fake_head] @ map Blk xs @ [Fake_tail])" and n: "next_free_block q = links (ring xs)"
    using distinct_ring[of xs] by (auto simp: dll_def ring_def)
  have "next_free_block q Fake_head = Some (hd (map Blk xs @ [Fake_tail]))"
    unfolding n by (cases xs) (auto simp: ring_def)
  then show ?thesis using walk_links[OF d] n by (simp add: get_all_free_blocks_def ring_def)
qed

section \<open>The constructor\<close>

lemma links_snoc: "distinct ps \<Longrightarrow> ps \<noteq> [] \<Longrightarrow> links (ps @ [t]) = (links ps)(last ps \<mapsto> t)"
proof (induction ps rule: links.induct)
  case (3 a b r)
  then have "links ((b # r) @ [t]) = (links (b # r))(last (b # r) \<mapsto> t)" "a \<noteq> last (b # r)" by auto
  then show ?case by (auto simp: fun_eq_iff)
qed auto

lemma init_links_append: "init_links n (is @ js) p = init_links n js (init_links n is p)"
  by (induction n "is" p rule: init_links.induct) auto

lemma init_links_eq:
  "m \<le> n \<Longrightarrow> init_links n [0..<m] (Map.empty, Map.empty)
    = (links (map Blk [0..<min (Suc m) n]), links (rev (map Blk [0..<m])))"
proof (induction m)
  case 0
  then show ?case by (cases n) (auto simp: min_def)
next
  case (Suc m)
  have d: "distinct (map Blk [0..<Suc m])" by (simp add: distinct_map inj_on_def del: upt_Suc)
  have nx: "links (map Blk [0..<min (Suc (Suc m)) n])
      = (if m + 1 < n then (links (map Blk [0..<min (Suc m) n]))(Blk m \<mapsto> Blk (m + 1)) else links (map Blk [0..<min (Suc m) n]))"
    using links_snoc[OF d, of "Blk (Suc m)"] Suc.prems by (auto simp: min_def)
  have pv: "links (rev (map Blk [0..<Suc m]))
      = (if m > 0 then (links (rev (map Blk [0..<m])))(Blk m \<mapsto> Blk (m - 1)) else links (rev (map Blk [0..<m])))"
    using links_Cons[of "rev (map Blk [0..<m])" "Blk m"] by (cases m) auto
  show ?case using Suc nx pv by (cases "Suc m = n") (auto simp: init_links_append)
qed

lemma dll_init_queue: "dll (init_queue n) [0..<n]"
proof (cases n)
  case 0
  then show ?thesis by (simp add: init_queue_def dll_def ring_def)
next
  case (Suc m)
  let ?ps = "map Blk [0..<n]"
  have ne: "?ps \<noteq> []" and d: "distinct ?ps" and l: "last ?ps = Blk (n - 1)" and h: "hd ?ps = Blk 0"
    using Suc by (auto simp: distinct_map inj_on_def last_map hd_map simp del: upt_Suc)
  have "links (Fake_head # ?ps @ [Fake_tail]) = (links ?ps)(Fake_head \<mapsto> Blk 0, Blk (n - 1) \<mapsto> Fake_tail)"
    using links_Cons[of "?ps @ [Fake_tail]" Fake_head] links_snoc[OF d ne, of Fake_tail] ne h l
    by (simp add: fun_upd_twist)
  moreover have "links (rev (Fake_head # ?ps @ [Fake_tail])) = (links (rev ?ps))(Blk 0 \<mapsto> Fake_head, Fake_tail \<mapsto> Blk (n - 1))"
    using links_Cons[of "rev ?ps @ [Fake_head]" Fake_tail] links_snoc[of "rev ?ps" Fake_head] d ne h l
    by (simp add: hd_rev last_rev)
  ultimately show ?thesis using init_links_eq[of n n] Suc
    by (simp add: init_queue_def dll_def ring_def del: upt_Suc)
qed

section \<open>The interface of the queue\<close>

text \<open>What the block pool relies on: the queue represents a list of block numbers, from which it pops at the
  front, removes in the middle and to which it appends at the back. The lemmas relate the list to a table of
  reference counts.\<close>

locale free_list =
  fixes repr :: "'q \<Rightarrow> nat list \<Rightarrow> bool"
    and count :: "'q \<Rightarrow> int"
    and take_n :: "'q \<Rightarrow> nat \<Rightarrow> (bref list \<times> 'q) result"
    and take_out :: "'q \<Rightarrow> bref \<Rightarrow> 'q result"
    and give_back :: "'q \<Rightarrow> bref list \<Rightarrow> 'q result"
  assumes repr_distinct: "repr q xs \<Longrightarrow> distinct xs"
    and repr_count: "repr q xs \<Longrightarrow> count q = int (length xs)"
    and repr_take: "repr q xs \<Longrightarrow> n \<le> length xs \<Longrightarrow>
      \<exists>q'. take_n q n = Inr (map Blk (take n xs), q') \<and> repr q' (drop n xs)"
    and repr_out: "repr q xs \<Longrightarrow> x \<in> set xs \<Longrightarrow> \<exists>q'. take_out q (Blk x) = Inr q' \<and> repr q' (remove1 x xs)"
    and repr_back: "repr q xs \<Longrightarrow> distinct (xs @ ys) \<Longrightarrow>
      \<exists>q'. give_back q (map Blk ys) = Inr q' \<and> repr q' (xs @ ys)"
begin

text \<open>The free blocks are those of the universe \<open>B\<close> with reference count 0.\<close>

definition accounts :: "'q \<Rightarrow> nat set \<Rightarrow> (nat \<Rightarrow> int) \<Rightarrow> bool" where
  "accounts q B rc \<longleftrightarrow> (\<exists>xs. repr q xs \<and> set xs = {b \<in> B. rc b = 0})"

lemma accountsI: "repr q xs \<Longrightarrow> set xs = {b \<in> B. rc b = 0} \<Longrightarrow> accounts q B rc"
  by (auto simp: accounts_def)

lemma accounts_count: "accounts q B rc \<Longrightarrow> count q = int (card {b \<in> B. rc b = 0})"
  using repr_distinct repr_count by (force simp: accounts_def distinct_card[symmetric])

lemma accounts_cong: "accounts q B rc \<Longrightarrow> (\<And>b. b \<in> B \<Longrightarrow> rc b = 0 \<longleftrightarrow> rc' b = 0) \<Longrightarrow> accounts q B rc'"
  by (force simp: accounts_def)

lemma accounts_take:
  assumes "accounts q B rc" "int n \<le> count q"
  shows "\<exists>bs q'. take_n q n = Inr (map Blk bs, q') \<and> length bs = n \<and> distinct bs
    \<and> set bs \<subseteq> {b \<in> B. rc b = 0} \<and> accounts q' B (\<lambda>b. if b \<in> set bs then 1 else rc b)"
proof -
  from assms(1) obtain xs where r: "repr q xs" and s: "set xs = {b \<in> B. rc b = 0}" by (auto simp: accounts_def)
  have n: "n \<le> length xs" using repr_count[OF r] assms(2) by simp
  from repr_take[OF r n] obtain q' where t: "take_n q n = Inr (map Blk (take n xs), q')" and r': "repr q' (drop n xs)"
    by auto
  have d: "distinct (take n xs)" and dj: "set (take n xs) \<inter> set (drop n xs) = {}"
    using repr_distinct[OF r] by (auto simp: set_take_disj_set_drop_if_distinct)
  have u: "set (take n xs) \<union> set (drop n xs) = set xs" by (metis append_take_drop_id set_append)
  then have "set (drop n xs) = {b \<in> B. (if b \<in> set (take n xs) then 1 else rc b) = 0}"
    using dj s by auto
  then have "accounts q' B (\<lambda>b. if b \<in> set (take n xs) then 1 else rc b)" by (rule accountsI[OF r'])
  then show ?thesis using t n d u s by (intro exI[of _ "take n xs"] exI[of _ q']) auto
qed

lemma accounts_out:
  assumes "accounts q B rc" "b \<in> B" "rc b = 0"
  shows "\<exists>q'. take_out q (Blk b) = Inr q' \<and> accounts q' B (rc(b := 1))"
proof -
  from assms(1) obtain xs where r: "repr q xs" and s: "set xs = {b \<in> B. rc b = 0}" by (auto simp: accounts_def)
  with assms(2,3) repr_out[OF r, of b] obtain q' where
    "take_out q (Blk b) = Inr q'" "repr q' (remove1 b xs)" by auto
  moreover have "set (remove1 b xs) = {c \<in> B. (rc(b := 1)) c = 0}"
    using repr_distinct[OF r] s by (auto simp: set_remove1_eq)
  ultimately show ?thesis using accountsI[of q' "remove1 b xs" B "rc(b := 1)"] by simp
qed

lemma accounts_back:
  assumes a: "accounts q B rc" and bs: "distinct bs" "set bs \<subseteq> {b \<in> B. rc b \<noteq> 0}"
  shows "\<exists>q'. give_back q (map Blk bs) = Inr q' \<and> accounts q' B (\<lambda>b. if b \<in> set bs then 0 else rc b)"
proof -
  from a obtain xs where r: "repr q xs" and s: "set xs = {b \<in> B. rc b = 0}" by (auto simp: accounts_def)
  have "distinct (xs @ bs)" using repr_distinct[OF r] s bs by auto
  from repr_back[OF r this] obtain q' where "give_back q (map Blk bs) = Inr q'" "repr q' (xs @ bs)" by auto
  moreover have "set (xs @ bs) = {b \<in> B. (if b \<in> set bs then 0 else rc b) = 0}" using s bs by auto
  ultimately show ?thesis using accountsI[of q' "xs @ bs" B "\<lambda>b. if b \<in> set bs then 0 else rc b"] by simp
qed

end

interpretation fq: free_list dll num_free_blocks popleft_n remove_block append_n
  by unfold_locales (simp_all add: dll_popleft_n dll_remove dll_append_n, simp_all add: dll_def)

text \<open>C15. The doubly linked free list refines a plain list of block numbers. The constructor represents the
  blocks in order; on a queue that represents \<open>xs\<close>, \<open>popleft\<close> takes the first block, \<open>popleft_n\<close> the first
  \<open>n\<close> blocks in order, \<open>remove\<close> deletes one block from the middle, \<open>append\<close> and \<open>append_n\<close> put blocks at the
  back, and \<open>get_all_free_blocks\<close> returns (its loop ends) exactly \<open>xs\<close>; every result represents the resulting
  list again, so no link is left dangling and the counter stays the length.\<close>

theorem free_queue_refines_list:
  assumes "dll q xs"
  shows "dll (init_queue k) [0..<k]
    \<and> get_all_free_blocks q = Some (Inr (map Blk xs))
    \<and> (case xs of [] \<Rightarrow> popleft q = Inl ValueError | x # r \<Rightarrow> \<exists>q'. popleft q = Inr (Blk x, q') \<and> dll q' r)
    \<and> (if n \<le> length xs then \<exists>q'. popleft_n q n = Inr (map Blk (take n xs), q') \<and> dll q' (drop n xs)
       else popleft_n q n = Inl AssertionError)
    \<and> (if x \<in> set xs then \<exists>q'. remove_block q (Blk x) = Inr q' \<and> dll q' (remove1 x xs)
       else remove_block q (Blk x) = Inl RuntimeError \<and> (\<exists>q'. append_block q (Blk x) = Inr q' \<and> dll q' (xs @ [x])))
    \<and> (distinct (xs @ ys) \<longrightarrow> (\<exists>q'. append_n q (map Blk ys) = Inr q' \<and> dll q' (xs @ ys)))"
proof (intro conjI)
  show "case xs of [] \<Rightarrow> popleft q = Inl ValueError | x # r \<Rightarrow> \<exists>q'. popleft q = Inr (Blk x, q') \<and> dll q' r"
    using assms by (cases xs) (auto simp: popleft_empty dll_popleft)
qed (use assms in \<open>auto simp: dll_init_queue dll_get_all dll_popleft_n popleft_n_short dll_remove
      dll_remove_absent dll_append dll_append_n\<close>)

theorem free_queue_refines_list_witness:
  "dll (init_queue 4) [0, 1, 2, 3]
    \<and> (\<exists>q'. popleft_n (init_queue 4) 2 = Inr ([Blk 0, Blk 1], q') \<and> dll q' [2, 3])
    \<and> (\<exists>q'. remove_block (init_queue 4) (Blk 2) = Inr q' \<and> dll q' [0, 1, 3])
    \<and> (\<exists>q'. append_n (init_queue 4) [Blk 9, Blk 7] = Inr q' \<and> dll q' [0, 1, 2, 3, 9, 7])"
proof -
  have u: "[0..<4] = [0, 1, 2, 3::nat]" by (simp add: upt_rec)
  have q: "dll (init_queue 4) [0, 1, 2, 3]" using dll_init_queue[of 4] by (simp add: u)
  show ?thesis using free_queue_refines_list[OF q, of 4 2 2 "[9, 7]"] q by simp
qed

end
