(* ===== verification/Block_Hash.thy ===== *)
theory Block_Hash
  imports RQ_Prelude "HOL-Library.Word"
begin

text \<open>
  \<open>vllm/v1/core/kv_cache_utils.py\<close>: keys of the prefix cache. Packing of a block hash with a group id,
  the extra keys of multi-modal, LoRA and salted requests, and the chained hashing of the full blocks of
  a request, done when the request is created and again whenever output tokens are appended
  (\<open>vllm/v1/request.py\<close>). The hash function comes from outside and is a parameter \<open>hash_fn\<close>, as is the
  random seed \<open>none_hash\<close>.
\<close>

type_synonym byte_list = "8 word list"

section \<open>Hash and group id in one key\<close>

text \<open>\<open>int.to_bytes(4, "big")\<close> and \<open>int.from_bytes(_, "big")\<close>.\<close>

definition to_bytes4 :: "int \<Rightarrow> byte_list result" where
  "to_bytes4 g =
     (if 0 \<le> g \<and> g < 2 ^ 32
      then Inr [word_of_int (g div 2 ^ 24), word_of_int (g div 2 ^ 16), word_of_int (g div 2 ^ 8), word_of_int g]
      else Inl OverflowError)"

definition from_bytes :: "byte_list \<Rightarrow> int" where
  "from_bytes bs = foldl (\<lambda>acc b. acc * 256 + uint b) 0 bs"

definition make_block_hash_with_group_id :: "byte_list \<Rightarrow> int \<Rightarrow> byte_list result" where
  "make_block_hash_with_group_id h g = bindE (to_bytes4 g) (\<lambda>b. Inr (h @ b))"

text \<open>\<open>key[:-4]\<close> and \<open>key[-4:]\<close>.\<close>

definition get_block_hash :: "byte_list \<Rightarrow> byte_list" where
  "get_block_hash key = take (length key - 4) key"

definition get_group_id :: "byte_list \<Rightarrow> int" where
  "get_group_id key = from_bytes (drop (length key - 4) key)"

datatype external_hash = Ext_bytes byte_list | Ext_int int

definition maybe_convert_block_hash :: "bool \<Rightarrow> byte_list \<Rightarrow> external_hash" where
  "maybe_convert_block_hash use_int h =
     (if \<not> use_int then Ext_bytes h else Ext_int (and (from_bytes h) (2 ^ 64 - 1)))"

section \<open>Requests\<close>

datatype pyval = PInt int | PStr string

record mm_position =
  offset :: int
  mm_length :: int

record request =
  request_id :: string
  all_token_ids :: "int list"
  block_hashes :: "byte_list list"
  mm_positions :: "mm_position list"
  mm_hashes :: "string option list"
  lora_request :: "int option"
  cache_salt :: "string option"
  num_computed_tokens :: int
  prompt_logprobs :: bool

definition num_tokens :: "request \<Rightarrow> nat" where
  "num_tokens r = length (all_token_ids r)"

definition need_extra_keys :: "request \<Rightarrow> bool" where
  "need_extra_keys r \<longleftrightarrow> mm_hashes r \<noteq> [] \<or> lora_request r \<noteq> None \<or> cache_salt r \<noteq> None"

section \<open>Extra keys of a block\<close>

function mm_loop :: "mm_position list \<Rightarrow> string option list \<Rightarrow> int \<Rightarrow> int \<Rightarrow> nat \<Rightarrow> pyval list \<Rightarrow> (pyval list \<times> nat) result" where
  "mm_loop ps hs s e i keys =
     (if i < length ps
      then (case hs ! i of
              None \<Rightarrow> Inl AssertionError
            | Some h \<Rightarrow>
                (let off = offset (ps ! i); len = mm_length (ps ! i)
                 in if e > off
                    then (if s > off + len then mm_loop ps hs s e (i + 1) keys
                          else if e \<ge> off + len then mm_loop ps hs s e (i + 1) (keys @ [PStr h])
                          else Inr (keys @ [PStr h], i))
                    else Inr (keys, i)))
      else Inr (keys, i))"
  by pat_completeness auto
termination by (relation "measure (\<lambda>(ps, hs, s, e, i, keys). length ps - i)") auto

declare mm_loop.simps [simp del]

definition gen_mm_extra_hash_keys :: "request \<Rightarrow> nat \<Rightarrow> nat \<Rightarrow> int \<Rightarrow> (pyval list \<times> int) result" where
  "gen_mm_extra_hash_keys r start_token_idx end_token_idx start_mm_idx =
     (let ps = mm_positions r; hs = mm_hashes r
      in if ps = [] then Inr ([], start_mm_idx)
         else if length ps \<noteq> length hs then Inl ValueError
         else if offset (last ps) + mm_length (last ps) < int start_token_idx then Inr ([], start_mm_idx)
         else if start_mm_idx < 0 \<and> \<not> - start_mm_idx \<le> int (length ps) then Inl AssertionError
         else (let i = (if start_mm_idx < 0 then int (length ps) + start_mm_idx else start_mm_idx)
               in bindE (mm_loop ps hs (int start_token_idx) (int end_token_idx) (nat i) [])
                    (\<lambda>(keys, j). Inr (keys, int j))))"

definition gen_lora_extra_hash_keys :: "request \<Rightarrow> pyval list" where
  "gen_lora_extra_hash_keys r = (case lora_request r of None \<Rightarrow> [] | Some i \<Rightarrow> [PInt i])"

definition cache_salt_keys :: "request \<Rightarrow> nat \<Rightarrow> pyval list" where
  "cache_salt_keys r start_token_idx =
     (case cache_salt r of
        None \<Rightarrow> []
      | Some salt \<Rightarrow> if start_token_idx = 0 \<and> salt \<noteq> [] then [PStr salt] else [])"

definition generate_block_hash_extra_keys :: "request \<Rightarrow> nat \<Rightarrow> nat \<Rightarrow> int \<Rightarrow> (pyval list option \<times> int) result" where
  "generate_block_hash_extra_keys r start_token_idx end_token_idx start_mm_idx =
     bindE (gen_mm_extra_hash_keys r start_token_idx end_token_idx start_mm_idx)
       (\<lambda>(mm_extra_keys, new_start_mm_idx).
          let extra_keys = gen_lora_extra_hash_keys r @ mm_extra_keys @ cache_salt_keys r start_token_idx
          in Inr (if extra_keys = [] then None else Some extra_keys, new_start_mm_idx))"

section \<open>Hashing the blocks of a request\<close>

type_synonym hash_function = "byte_list \<times> int list \<times> pyval list option \<Rightarrow> byte_list"

definition hash_block_tokens ::
  "hash_function \<Rightarrow> byte_list \<Rightarrow> byte_list option \<Rightarrow> int list \<Rightarrow> pyval list option \<Rightarrow> byte_list" where
  "hash_block_tokens hash_fn none_hash parent toks extra_keys =
     (let parent_block_hash = (case parent of None \<Rightarrow> none_hash | Some h \<Rightarrow> if h = [] then none_hash else h)
      in hash_fn (parent_block_hash, toks, extra_keys))"

text \<open>The \<open>while True\<close> loop of \<open>request_block_hasher\<close>; it does not end for block size 0.\<close>

partial_function (option) hasher_loop ::
  "hash_function \<Rightarrow> byte_list \<Rightarrow> nat \<Rightarrow> request \<Rightarrow> nat \<Rightarrow> int \<Rightarrow> byte_list option \<Rightarrow> byte_list list \<Rightarrow> byte_list list result option" where
  "hasher_loop hash_fn none_hash block_size r start_token_idx mm_idx prev new_block_hashes =
     (let end_token_idx = start_token_idx + block_size
      in if end_token_idx > num_tokens r then Some (Inr new_block_hashes)
         else (case generate_block_hash_extra_keys r start_token_idx end_token_idx mm_idx of
                 Inl e \<Rightarrow> Some (Inl e)
               | Inr (extra_keys, mm_idx') \<Rightarrow>
                   (let block_tokens = take block_size (drop start_token_idx (all_token_ids r));
                        block_hash = hash_block_tokens hash_fn none_hash prev block_tokens extra_keys
                    in hasher_loop hash_fn none_hash block_size r end_token_idx mm_idx' (Some block_hash)
                         (new_block_hashes @ [block_hash]))))"

definition request_block_hasher ::
  "hash_function \<Rightarrow> byte_list \<Rightarrow> nat \<Rightarrow> request \<Rightarrow> byte_list list result option" where
  "request_block_hasher hash_fn none_hash block_size r =
     (let start_token_idx = length (block_hashes r) * block_size;
          mm_idx = (if start_token_idx > 0 then - 1 else 0);
          prev = (if block_hashes r \<noteq> [] then Some (last (block_hashes r)) else None)
      in hasher_loop hash_fn none_hash block_size r start_token_idx mm_idx prev [])"

text \<open>\<open>Request.__init__\<close> and \<open>Request.append_output_token_ids\<close> with a block hasher.\<close>

definition init_request :: "hash_function \<Rightarrow> byte_list \<Rightarrow> nat \<Rightarrow> request \<Rightarrow> request result option" where
  "init_request hash_fn none_hash block_size r =
     map_option (\<lambda>res. bindE res (\<lambda>hs. Inr (r\<lparr>block_hashes := hs\<rparr>)))
       (request_block_hasher hash_fn none_hash block_size (r\<lparr>block_hashes := []\<rparr>))"

definition append_output_token_ids ::
  "hash_function \<Rightarrow> byte_list \<Rightarrow> nat \<Rightarrow> request \<Rightarrow> int list \<Rightarrow> request result option" where
  "append_output_token_ids hash_fn none_hash block_size r token_ids =
     (let r' = r\<lparr>all_token_ids := all_token_ids r @ token_ids\<rparr>
      in map_option (\<lambda>res. bindE res (\<lambda>hs. Inr (r'\<lparr>block_hashes := block_hashes r' @ hs\<rparr>)))
           (request_block_hasher hash_fn none_hash block_size r'))"

section \<open>Keys and groups\<close>

lemma uint_byte: "uint (word_of_int x :: 8 word) = x mod 256"
  by (simp add: uint_word_of_int)

lemma from_to_bytes4:
  assumes "to_bytes4 g = Inr b"
  shows "from_bytes b = g" and "length b = 4"
proof -
  have g: "0 \<le> g" "g < 4294967296" and b: "b = [word_of_int (g div 16777216), word_of_int (g div 65536), word_of_int (g div 256), word_of_int g]"
    using assms by (auto simp: to_bytes4_def split: if_splits)
  show "length b = 4" using b by simp
  have d: "g div 65536 = g div 256 div 256" "g div 16777216 = g div 256 div 256 div 256"
    by (simp_all add: zdiv_zmult2_eq[symmetric])
  have "g div 16777216 mod 256 = g div 16777216" using g by (intro mod_pos_pos_trivial) auto
  then show "from_bytes b = g"
    using div_mult_mod_eq[of g 256] div_mult_mod_eq[of "g div 256" 256] div_mult_mod_eq[of "g div 256 div 256" 256]
    by (simp add: b from_bytes_def uint_byte d)
qed

text \<open>Packing a block hash with a group id and unpacking the key gives both back, for every group id that
  fits four bytes (any other raises); so keys of different groups or hashes never collide.\<close>

theorem group_key_roundtrip:
  shows "(case make_block_hash_with_group_id h g of
            Inr key \<Rightarrow> 0 \<le> g \<and> g < 2 ^ 32 \<and> get_block_hash key = h \<and> get_group_id key = g
          | Inl e \<Rightarrow> e = OverflowError \<and> \<not> (0 \<le> g \<and> g < 2 ^ 32))"
proof (cases "0 \<le> g \<and> g < 2 ^ 32")
  case True
  then obtain b where b: "to_bytes4 g = Inr b" by (simp add: to_bytes4_def)
  then show ?thesis using True from_to_bytes4[OF b]
    by (simp add: make_block_hash_with_group_id_def get_block_hash_def get_group_id_def)
next
  case False
  then show ?thesis by (auto simp: make_block_hash_with_group_id_def to_bytes4_def)
qed

lemma group_key_inject:
  assumes "make_block_hash_with_group_id h g = Inr key" "make_block_hash_with_group_id h' g' = Inr key"
  shows "h = h' \<and> g = g'"
proof -
  from assms obtain b b' where b: "to_bytes4 g = Inr b" "key = h @ b" and b': "to_bytes4 g' = Inr b'" "key = h' @ b'"
    by (auto simp: make_block_hash_with_group_id_def result_simps)
  have "h @ b = h' @ b'" "length b = length b'"
    using b b' from_to_bytes4(2) by metis+
  then have "h = h'" "b = b'" by auto
  then show ?thesis using from_to_bytes4(1)[OF b(1)] from_to_bytes4(1)[OF b'(1)] by simp
qed

section \<open>Incremental and one-shot hashing\<close>

definition plain_keys :: "request \<Rightarrow> nat \<Rightarrow> pyval list option" where
  "plain_keys r k =
     (let ks = gen_lora_extra_hash_keys r @ cache_salt_keys r k in if ks = [] then None else Some ks)"

text \<open>The reference: the hash of block \<open>k\<close> from the hash of the block before it.\<close>

fun spec_hash :: "hash_function \<Rightarrow> byte_list \<Rightarrow> nat \<Rightarrow> request \<Rightarrow> nat \<Rightarrow> byte_list" where
  "spec_hash hash_fn none_hash bs r 0 =
     hash_block_tokens hash_fn none_hash None (take bs (all_token_ids r)) (plain_keys r 0)"
| "spec_hash hash_fn none_hash bs r (Suc k) =
     hash_block_tokens hash_fn none_hash (Some (spec_hash hash_fn none_hash bs r k))
       (take bs (drop (Suc k * bs) (all_token_ids r))) (plain_keys r (Suc k))"

definition prev_hash :: "hash_function \<Rightarrow> byte_list \<Rightarrow> nat \<Rightarrow> request \<Rightarrow> nat \<Rightarrow> byte_list option" where
  "prev_hash hash_fn none_hash bs r k =
     (case k of 0 \<Rightarrow> None | Suc j \<Rightarrow> Some (spec_hash hash_fn none_hash bs r j))"

lemma spec_hash_prev:
  "spec_hash hash_fn none_hash bs r k =
     hash_block_tokens hash_fn none_hash (prev_hash hash_fn none_hash bs r k)
       (take bs (drop (k * bs) (all_token_ids r))) (plain_keys r k)"
  by (cases k) (auto simp: prev_hash_def)

lemma text_only_keys:
  assumes "mm_positions r = []" "bs > 0"
  shows "generate_block_hash_extra_keys r (k * bs) e i = Inr (plain_keys r k, i)"
  using assms by (cases k)
    (auto simp: generate_block_hash_extra_keys_def gen_mm_extra_hash_keys_def plain_keys_def cache_salt_keys_def
      Let_def split: option.splits)

lemma hasher_loop_spec:
  assumes mm: "mm_positions r = []" and bs: "bs > 0"
  shows "k \<le> num_tokens r div bs \<Longrightarrow>
    hasher_loop hash_fn none_hash bs r (k * bs) i (prev_hash hash_fn none_hash bs r k) acc
      = Some (Inr (acc @ map (spec_hash hash_fn none_hash bs r) [k..<num_tokens r div bs]))"
proof (induction "num_tokens r div bs - k" arbitrary: k acc)
  case 0
  then have "num_tokens r < k * bs + bs"
    using bs by (metis add.commute diff_is_0_eq div_less_iff_less_mult le_eq_less_or_eq lessI mult_Suc nat_neq_iff not_less)
  then show ?case using 0 by (simp add: hasher_loop.simps)
next
  case (Suc d)
  then have lt: "k < num_tokens r div bs" by simp
  then have "Suc k \<le> num_tokens r div bs" by simp
  then have le: "k * bs + bs \<le> num_tokens r" using bs by (simp add: less_eq_div_iff_mult_less_eq)
  have "hasher_loop hash_fn none_hash bs r (Suc k * bs) i (prev_hash hash_fn none_hash bs r (Suc k))
      (acc @ [spec_hash hash_fn none_hash bs r k])
    = Some (Inr ((acc @ [spec_hash hash_fn none_hash bs r k]) @ map (spec_hash hash_fn none_hash bs r) [Suc k..<num_tokens r div bs]))"
    by (rule Suc.hyps(1)) (use Suc.hyps(2) lt in auto)
  moreover have "prev_hash hash_fn none_hash bs r (Suc k) = Some (spec_hash hash_fn none_hash bs r k)"
    by (simp add: prev_hash_def)
  ultimately show ?case using le lt
    by (subst hasher_loop.simps)
      (simp add: text_only_keys[OF mm bs] spec_hash_prev[symmetric] upt_conv_Cons add.commute Let_def)
qed

text \<open>The hash of a block depends on the tokens up to its end only.\<close>

lemma spec_hash_append:
  "Suc k * bs \<le> length (all_token_ids r) \<Longrightarrow>
   spec_hash hash_fn none_hash bs (r\<lparr>all_token_ids := all_token_ids r @ toks, block_hashes := hs\<rparr>) k
     = spec_hash hash_fn none_hash bs r k"
  by (induction k)
    (auto simp: plain_keys_def gen_lora_extra_hash_keys_def cache_salt_keys_def)

definition hashed :: "hash_function \<Rightarrow> byte_list \<Rightarrow> nat \<Rightarrow> request \<Rightarrow> bool" where
  "hashed hash_fn none_hash bs r \<longleftrightarrow>
     block_hashes r = map (spec_hash hash_fn none_hash bs r) [0..<num_tokens r div bs]"

lemma spec_hash_cong:
  assumes "all_token_ids r = all_token_ids r'" "lora_request r = lora_request r'" "cache_salt r = cache_salt r'"
  shows "spec_hash hash_fn none_hash bs r k = spec_hash hash_fn none_hash bs r' k"
  by (induction k) (simp_all add: assms plain_keys_def gen_lora_extra_hash_keys_def cache_salt_keys_def)

lemma spec_hash_block_hashes [simp]:
  "spec_hash hash_fn none_hash bs (r\<lparr>block_hashes := hs\<rparr>) k = spec_hash hash_fn none_hash bs r k"
  by (rule spec_hash_cong) auto

lemma init_request_hashed:
  assumes "mm_positions r = []" "bs > 0"
  shows "\<exists>r'. init_request hash_fn none_hash bs r = Some (Inr r') \<and> hashed hash_fn none_hash bs r'
    \<and> r' = r\<lparr>block_hashes := block_hashes r'\<rparr>"
  using hasher_loop_spec[of "r\<lparr>block_hashes := []\<rparr>" bs 0 hash_fn none_hash 0 "[]"] assms
  by (auto simp: init_request_def request_block_hasher_def hashed_def prev_hash_def num_tokens_def)

lemma append_output_hashed:
  assumes mm: "mm_positions r = []" and bs: "bs > 0" and h: "hashed hash_fn none_hash bs r"
  shows "\<exists>r'. append_output_token_ids hash_fn none_hash bs r toks = Some (Inr r') \<and> hashed hash_fn none_hash bs r'
    \<and> r' = r\<lparr>all_token_ids := all_token_ids r @ toks, block_hashes := block_hashes r'\<rparr>"
proof -
  let ?r = "r\<lparr>all_token_ids := all_token_ids r @ toks\<rparr>" and ?n = "num_tokens r div bs"
  let ?H = "spec_hash hash_fn none_hash bs"
  have len: "length (block_hashes r) = ?n" using h by (simp add: hashed_def)
  have n: "?n \<le> num_tokens ?r div bs" by (simp add: num_tokens_def div_le_mono)
  have eq: "?H ?r k = ?H r k" if "k < ?n" for k
  proof -
    have "Suc k * bs \<le> length (all_token_ids r)"
      using that bs by (metis Suc_leI less_eq_div_iff_mult_less_eq num_tokens_def)
    from spec_hash_append[OF this, where hs = "block_hashes r"] show ?thesis by simp
  qed
  then have old: "block_hashes r = map (?H ?r) [0..<?n]" using h by (simp add: hashed_def)
  have prev: "(if block_hashes r \<noteq> [] then Some (last (block_hashes r)) else None) = prev_hash hash_fn none_hash bs ?r ?n"
    using old by (cases ?n) (auto simp: prev_hash_def)
  have bh: "block_hashes ?r = block_hashes r" by simp
  have "request_block_hasher hash_fn none_hash bs ?r = Some (Inr (map (?H ?r) [?n..<num_tokens ?r div bs]))"
    using hasher_loop_spec[of ?r bs ?n hash_fn none_hash _ "[]"] mm bs n
    unfolding request_block_hasher_def Let_def bh len prev by simp
  moreover have "map (?H ?r) [0..<?n] @ map (?H ?r) [?n..<num_tokens ?r div bs] = map (?H ?r) [0..<num_tokens ?r div bs]"
    using n upt_add_eq_append[of 0 ?n "num_tokens ?r div bs - ?n"] by (simp flip: map_append)
  ultimately show ?thesis using old
    by (auto simp: append_output_token_ids_def hashed_def num_tokens_def Let_def)
qed


fun append_outputs :: "hash_function \<Rightarrow> byte_list \<Rightarrow> nat \<Rightarrow> request \<Rightarrow> int list list \<Rightarrow> request result option" where
  "append_outputs hash_fn none_hash bs r [] = Some (Inr r)"
| "append_outputs hash_fn none_hash bs r (toks # rest) =
     (case append_output_token_ids hash_fn none_hash bs r toks of
        Some (Inr r') \<Rightarrow> append_outputs hash_fn none_hash bs r' rest
      | other \<Rightarrow> other)"

lemma append_outputs_hashed:
  "mm_positions r = [] \<Longrightarrow> bs > 0 \<Longrightarrow> hashed hash_fn none_hash bs r \<Longrightarrow>
   \<exists>r'. append_outputs hash_fn none_hash bs r chunks = Some (Inr r') \<and> hashed hash_fn none_hash bs r'
     \<and> r' = r\<lparr>all_token_ids := all_token_ids r @ concat chunks, block_hashes := block_hashes r'\<rparr>"
proof (induction chunks arbitrary: r)
  case (Cons toks rest)
  from append_output_hashed[OF Cons.prems, of toks] obtain r1 where
    1: "append_output_token_ids hash_fn none_hash bs r toks = Some (Inr r1)" "hashed hash_fn none_hash bs r1"
    and r1: "r1 = r\<lparr>all_token_ids := all_token_ids r @ toks, block_hashes := block_hashes r1\<rparr>" by auto
  have "mm_positions r1 = []" by (subst r1) (simp add: Cons.prems)
  from Cons.IH[OF this Cons.prems(2) 1(2)] obtain r2 where
    2: "append_outputs hash_fn none_hash bs r1 rest = Some (Inr r2)" "hashed hash_fn none_hash bs r2"
    and r2: "r2 = r1\<lparr>all_token_ids := all_token_ids r1 @ concat rest, block_hashes := block_hashes r2\<rparr>" by auto
  have "r2 = r\<lparr>all_token_ids := all_token_ids r @ concat (toks # rest), block_hashes := block_hashes r2\<rparr>"
    by (subst r2, subst (1 2) r1) simp
  then show ?case using 1(1) 2 by auto
qed simp

text \<open>C16. The block hashes of a request without multi-modal inputs do not depend on when its tokens arrived:
  after the request is created from a prompt and any sequence of output tokens is appended, chunk by chunk,
  the hasher has returned each time and the list holds exactly one chained hash per full block of the whole
  token sequence, the same as hashing all tokens at once.\<close>

theorem incremental_hashing_is_one_shot:
  assumes "mm_positions r = []" "bs > 0"
  shows "\<exists>r0 r1 r2. init_request hash_fn none_hash bs r = Some (Inr r0)
    \<and> append_outputs hash_fn none_hash bs r0 chunks = Some (Inr r1)
    \<and> init_request hash_fn none_hash bs (r\<lparr>all_token_ids := all_token_ids r @ concat chunks\<rparr>) = Some (Inr r2)
    \<and> r1 = r2 \<and> block_hashes r1 = map (spec_hash hash_fn none_hash bs r1) [0..<num_tokens r1 div bs]"
proof -
  let ?R = "r\<lparr>all_token_ids := all_token_ids r @ concat chunks\<rparr>"
  from init_request_hashed[OF assms] obtain r0 where
    0: "init_request hash_fn none_hash bs r = Some (Inr r0)" "hashed hash_fn none_hash bs r0"
    and r0: "r0 = r\<lparr>block_hashes := block_hashes r0\<rparr>" by blast
  have "mm_positions r0 = []" by (subst r0) (simp add: assms)
  from append_outputs_hashed[OF this assms(2) 0(2)] obtain r1 where
    1: "append_outputs hash_fn none_hash bs r0 chunks = Some (Inr r1)" "hashed hash_fn none_hash bs r1"
    and r1: "r1 = r0\<lparr>all_token_ids := all_token_ids r0 @ concat chunks, block_hashes := block_hashes r1\<rparr>" by blast
  have "mm_positions ?R = []" using assms by simp
  from init_request_hashed[OF this assms(2)] obtain r2 where
    2: "init_request hash_fn none_hash bs ?R = Some (Inr r2)" "hashed hash_fn none_hash bs r2"
    and r2: "r2 = ?R\<lparr>block_hashes := block_hashes r2\<rparr>" by blast
  have R1: "r1 = ?R\<lparr>block_hashes := block_hashes r1\<rparr>" by (subst r1, subst (1 2) r0) simp
  have same: "block_hashes q = map (spec_hash hash_fn none_hash bs ?R) [0..<num_tokens ?R div bs]"
    if h: "hashed hash_fn none_hash bs q" and q: "q = ?R\<lparr>block_hashes := block_hashes q\<rparr>" for q
  proof -
    have "all_token_ids q = all_token_ids ?R" "lora_request q = lora_request ?R" "cache_salt q = cache_salt ?R"
      by (subst q; simp)+
    then show ?thesis using h spec_hash_cong[of q ?R] by (simp add: hashed_def num_tokens_def)
  qed
  have "r1 = r2" using same[OF 1(2) R1] same[OF 2(2) r2] R1 r2 by metis
  then show ?thesis using 0 1 2 by (auto simp: hashed_def)
qed


text \<open>A concrete hash function, which writes its argument out with an injective code.\<close>

definition prefix_code :: "('a \<Rightarrow> byte_list) \<Rightarrow> bool" where
  "prefix_code c \<longleftrightarrow> (\<forall>a b x y. c a @ x = c b @ y \<longrightarrow> a = b \<and> x = y)"

lemma prefix_codeD: "prefix_code c \<Longrightarrow> c a @ x = c b @ y \<Longrightarrow> a = b \<and> x = y"
  by (simp add: prefix_code_def)

fun code_nat :: "nat \<Rightarrow> byte_list" where
  "code_nat 0 = [0]"
| "code_nat (Suc n) = 1 # code_nat n"

fun code_list :: "('a \<Rightarrow> byte_list) \<Rightarrow> 'a list \<Rightarrow> byte_list" where
  "code_list c [] = [0]"
| "code_list c (x # xs) = 1 # c x @ code_list c xs"

definition code_int :: "int \<Rightarrow> byte_list" where
  "code_int i = (if i \<ge> 0 then 0 # code_nat (nat i) else 1 # code_nat (nat (- i)))"

definition code_pyval :: "pyval \<Rightarrow> byte_list" where
  "code_pyval v = (case v of PInt i \<Rightarrow> 0 # code_int i | PStr s \<Rightarrow> 1 # code_list (\<lambda>c. code_nat (of_char c)) s)"

definition code_keys :: "pyval list option \<Rightarrow> byte_list" where
  "code_keys k = (case k of None \<Rightarrow> [0] | Some ks \<Rightarrow> 1 # code_list code_pyval ks)"

lemma prefix_code_nat: "prefix_code code_nat"
  unfolding prefix_code_def
proof (intro allI impI)
  show "code_nat a @ x = code_nat b @ y \<Longrightarrow> a = b \<and> x = y" for a b x y
    by (induction a arbitrary: b; case_tac b) auto
qed

lemma prefix_code_list:
  assumes "prefix_code c"
  shows "prefix_code (code_list c)"
  unfolding prefix_code_def
proof (intro allI impI)
  show "code_list c a @ x = code_list c b @ y \<Longrightarrow> a = b \<and> x = y" for a b x y
  proof (induction a arbitrary: b)
    case Nil
    then show ?case by (cases b) auto
  next
    case (Cons u us)
    then obtain v vs where b: "b = v # vs" by (cases b) auto
    with Cons.prems have "c u @ (code_list c us @ x) = c v @ (code_list c vs @ y)" by simp
    with prefix_codeD[OF assms this] Cons.IH[of vs] show ?case by (auto simp: b)
  qed
qed

lemma prefix_code_iff: "prefix_code c \<Longrightarrow> c a @ x = c b @ y \<longleftrightarrow> a = b \<and> x = y"
  using prefix_codeD by metis

lemmas code_nat_iff [simp] = prefix_code_iff[OF prefix_code_nat]

lemma prefix_code_char: "prefix_code (\<lambda>c. code_nat (of_char c))"
  by (simp add: prefix_code_def)

lemmas code_string_iff [simp] = prefix_code_iff[OF prefix_code_list[OF prefix_code_char]]

lemma prefix_code_int: "prefix_code code_int"
  by (auto simp: prefix_code_def code_int_def split: if_splits)

lemmas code_int_iff [simp] = prefix_code_iff[OF prefix_code_int]
lemmas code_ints_iff [simp] = prefix_code_iff[OF prefix_code_list[OF prefix_code_int]]

lemma prefix_code_pyval: "prefix_code code_pyval"
  by (auto simp: prefix_code_def code_pyval_def split: pyval.splits)

lemmas code_pyvals_iff [simp] = prefix_code_iff[OF prefix_code_list[OF prefix_code_pyval]]

lemma prefix_code_keys: "prefix_code code_keys"
  by (auto simp: prefix_code_def code_keys_def split: option.splits)

lemmas code_keys_iff [simp] = prefix_code_iff[OF prefix_code_keys]

definition demo_hash :: hash_function where
  "demo_hash = (\<lambda>(p, toks, keys). 7 # code_list code_int toks @ code_keys keys @ p)"

lemma demo_hash_inj: "inj demo_hash"
  by (auto simp: inj_def demo_hash_def)

definition demo_request :: request where
  "demo_request = \<lparr>request_id = ''r'', all_token_ids = [1, 2, 3], block_hashes = [], mm_positions = [], mm_hashes = [],
     lora_request = None, cache_salt = None, num_computed_tokens = 0, prompt_logprobs = False\<rparr>"

theorem incremental_hashing_is_one_shot_witness:
  "\<exists>r0 r1 r2. init_request demo_hash [9] 2 demo_request = Some (Inr r0)
    \<and> append_outputs demo_hash [9] 2 r0 [[4], [5, 6]] = Some (Inr r1)
    \<and> init_request demo_hash [9] 2 (demo_request\<lparr>all_token_ids := [1, 2, 3, 4, 5, 6]\<rparr>) = Some (Inr r2)
    \<and> r1 = r2"
proof -
  have "mm_positions demo_request = []" "(2::nat) > 0" by (simp_all add: demo_request_def)
  from incremental_hashing_is_one_shot[OF this, of demo_hash "[9]" "[[4], [5, 6]]"]
  show ?thesis by (auto simp: demo_request_def)
qed


section \<open>Equal hashes mean equal prefixes\<close>

lemma hash_block_tokens_inj:
  assumes "inj hash_fn" "hash_block_tokens hash_fn none_hash p t k = hash_block_tokens hash_fn none_hash p' t' k'"
  shows "t = t'" and "k = k'"
    and "(case p of None \<Rightarrow> none_hash | Some h \<Rightarrow> if h = [] then none_hash else h)
       = (case p' of None \<Rightarrow> none_hash | Some h \<Rightarrow> if h = [] then none_hash else h)"
  using assms by (auto simp: hash_block_tokens_def Let_def dest: injD)

lemma take_drop_block: "take (a * n) xs = take (a * n) ys \<Longrightarrow> take n (drop (a * n) xs) = take n (drop (a * n) ys)
   \<Longrightarrow> take (Suc a * n) xs = take (Suc a * n) ys"
  by (simp only: mult_Suc add.commute[of n] take_add)

lemma spec_hash_sound:
  assumes inj: "inj hash_fn" and fresh: "\<And>x. hash_fn x \<noteq> [] \<and> hash_fn x \<noteq> none_hash"
  shows "spec_hash hash_fn none_hash bs r i = spec_hash hash_fn none_hash bs r' j \<Longrightarrow>
     i = j \<and> take (Suc i * bs) (all_token_ids r) = take (Suc i * bs) (all_token_ids r') \<and> plain_keys r 0 = plain_keys r' 0"
proof (induction i arbitrary: j)
  have out: "spec_hash hash_fn none_hash bs q k \<noteq> [] \<and> spec_hash hash_fn none_hash bs q k \<noteq> none_hash" for q k
    using fresh by (cases k) (auto simp: hash_block_tokens_def Let_def)
  {
    case 0
    show ?case
    proof (cases j)
      case j: 0
      from hash_block_tokens_inj[OF inj "0"[unfolded j spec_hash.simps]] show ?thesis by (simp add: j)
    next
      case (Suc k)
      from hash_block_tokens_inj(3)[OF inj "0"[unfolded Suc spec_hash.simps]] out[of r' k] show ?thesis by simp
    qed
  next
    case (Suc i)
    show ?case
    proof (cases j)
      case 0
      from hash_block_tokens_inj(3)[OF inj Suc.prems[unfolded 0 spec_hash.simps]] out[of r i] show ?thesis by simp
    next
      case (Suc k)
      note e = Suc.prems[unfolded Suc spec_hash.simps]
      have h: "spec_hash hash_fn none_hash bs r i = spec_hash hash_fn none_hash bs r' k"
        using hash_block_tokens_inj(3)[OF inj e] out[of r i] out[of r' k] by simp
      have ik: "i = k" and t: "take (Suc i * bs) (all_token_ids r) = take (Suc i * bs) (all_token_ids r')"
        and k0: "plain_keys r 0 = plain_keys r' 0" using Suc.IH[OF h] by auto
      have "take bs (drop (Suc i * bs) (all_token_ids r)) = take bs (drop (Suc i * bs) (all_token_ids r'))"
        using hash_block_tokens_inj(1)[OF inj e] ik by simp
      from take_drop_block[OF t this] show ?thesis using Suc ik k0 by simp
    qed
  }
qed

text \<open>An empty salt counts as none.\<close>

definition salt_of :: "request \<Rightarrow> string" where
  "salt_of r = (case cache_salt r of None \<Rightarrow> [] | Some salt \<Rightarrow> salt)"

lemma plain_keys_iff: "plain_keys r 0 = plain_keys r' 0 \<longleftrightarrow> lora_request r = lora_request r' \<and> salt_of r = salt_of r'"
  by (auto simp: plain_keys_def gen_lora_extra_hash_keys_def cache_salt_keys_def salt_of_def Let_def split: option.splits if_splits)

lemma plain_keys_later: "plain_keys r (Suc k) = (case lora_request r of None \<Rightarrow> None | Some i \<Rightarrow> Some [PInt i])"
  by (auto simp: plain_keys_def gen_lora_extra_hash_keys_def cache_salt_keys_def Let_def split: option.splits)

lemma take_block: "take (Suc k * n) xs = take (Suc k * n) ys \<Longrightarrow> take (k * n) xs = take (k * n) ys \<and> take n (drop (k * n) xs) = take n (drop (k * n) ys)"
proof -
  assume a: "take (Suc k * n) xs = take (Suc k * n) ys"
  have "take (k * n) (take (Suc k * n) zs) = take (k * n) zs" for zs :: "'a list" by (simp add: min_def)
  from this[of xs] this[of ys] have "take (k * n) xs = take (k * n) ys" by (simp only: a)
  moreover have "take n (drop (k * n) zs) = drop (k * n) (take (Suc k * n) zs)" for zs :: "'a list" by (simp add: take_drop)
  ultimately show ?thesis using a by metis
qed

lemma spec_hash_complete:
  assumes "plain_keys r 0 = plain_keys r' 0"
  shows "take (Suc i * bs) (all_token_ids r) = take (Suc i * bs) (all_token_ids r') \<Longrightarrow> spec_hash hash_fn none_hash bs r i = spec_hash hash_fn none_hash bs r' i"
proof (induction i)
  case (Suc i)
  note t = take_block[OF Suc.prems]
  have "plain_keys r (Suc i) = plain_keys r' (Suc i)" using assms unfolding plain_keys_iff plain_keys_later by simp
  then show ?case unfolding spec_hash.simps using Suc.IH[OF conjunct1[OF t]] t by simp
qed (use assms in simp)

lemma created_hashed:
  assumes "mm_positions r = []" "bs > 0" "init_request hash_fn none_hash bs r = Some (Inr r0)" "append_outputs hash_fn none_hash bs r0 chunks = Some (Inr r1)"
  shows "hashed hash_fn none_hash bs r1" "all_token_ids r1 = all_token_ids r @ concat chunks" "lora_request r1 = lora_request r" "cache_salt r1 = cache_salt r"
proof -
  have r0: "hashed hash_fn none_hash bs r0" "r0 = r\<lparr>block_hashes := block_hashes r0\<rparr>" using init_request_hashed[OF assms(1,2), of hash_fn none_hash] assms(3) by auto
  have "mm_positions r0 = []" by (subst r0(2)) (simp add: assms(1))
  then have r1: "hashed hash_fn none_hash bs r1" "r1 = r0\<lparr>all_token_ids := all_token_ids r0 @ concat chunks, block_hashes := block_hashes r1\<rparr>"
    using append_outputs_hashed[OF _ assms(2) r0(1), of chunks] assms(4) by auto
  show "hashed hash_fn none_hash bs r1" by (rule r1(1))
  show "all_token_ids r1 = all_token_ids r @ concat chunks" "lora_request r1 = lora_request r" "cache_salt r1 = cache_salt r"
    by (subst r1(2), subst r0(2), simp)+
qed

text \<open>C17. Prefix hits are sound and complete, for requests without multi-modal inputs. Take a collision-free hash function whose values are not empty and differ from
  the seed, and two requests without multi-modal inputs, each created from its prompt and extended by any sequence of output tokens, so that their hashes are what
  \<open>request_block_hasher\<close> returned. The hashes at positions \<open>i\<close> and \<open>j\<close> are equal if and only if the cached keys and values of the two blocks are the same:
  it is the same position, all tokens up to the end of the block are equal, and so are the LoRA adapter and the cache salt (an empty salt is no salt).\<close>

theorem equal_hash_equal_prefix:
  assumes "inj hash_fn" and "\<And>x. hash_fn x \<noteq> [] \<and> hash_fn x \<noteq> none_hash" and "bs > 0" "mm_positions r = []" "mm_positions r' = []"
    and r: "init_request hash_fn none_hash bs r = Some (Inr r0)" "append_outputs hash_fn none_hash bs r0 chunks = Some (Inr r1)"
    and r': "init_request hash_fn none_hash bs r' = Some (Inr r0')" "append_outputs hash_fn none_hash bs r0' chunks' = Some (Inr r1')"
    and "i < length (block_hashes r1)" "j < length (block_hashes r1')"
  shows "block_hashes r1 ! i = block_hashes r1' ! j \<longleftrightarrow>
    i = j \<and> take (Suc i * bs) (all_token_ids r @ concat chunks) = take (Suc i * bs) (all_token_ids r' @ concat chunks')
    \<and> lora_request r = lora_request r' \<and> salt_of r = salt_of r'"
proof -
  note c = created_hashed[OF assms(4,3) r] and c' = created_hashed[OF assms(5,3) r']
  have h: "block_hashes r1 ! i = spec_hash hash_fn none_hash bs r1 i" "block_hashes r1' ! j = spec_hash hash_fn none_hash bs r1' j"
    using c(1) c'(1) assms(10,11) by (simp_all add: hashed_def)
  have k: "plain_keys r1 0 = plain_keys r1' 0 \<longleftrightarrow> lora_request r = lora_request r' \<and> salt_of r = salt_of r'" using c(3,4) c'(3,4) by (simp add: plain_keys_iff salt_of_def)
  show ?thesis unfolding h k[symmetric] c(2)[symmetric] c'(2)[symmetric]
    using spec_hash_sound[OF assms(1,2), of bs r1 i r1' j] spec_hash_complete[of r1 r1' i bs hash_fn none_hash] by blast
qed

theorem equal_hash_equal_prefix_witness:
  "\<exists>r1 r1'. append_outputs demo_hash [9] 2 (demo_request\<lparr>block_hashes := [demo_hash ([9], [1, 2], None)]\<rparr>) [[4]] = Some (Inr r1)
    \<and> init_request demo_hash [9] 2 (demo_request\<lparr>cache_salt := Some ''s'', all_token_ids := [1, 2, 3, 4]\<rparr>) = Some (Inr r1')
    \<and> block_hashes r1 ! 0 \<noteq> block_hashes r1' ! 0 \<and> block_hashes r1 ! 1 \<noteq> block_hashes r1' ! 1"
proof -
  let ?r = "demo_request" and ?r' = "demo_request\<lparr>cache_salt := Some ''s'', all_token_ids := [1, 2, 3, 4]\<rparr>"
  let ?r0 = "demo_request\<lparr>block_hashes := [demo_hash ([9], [1, 2], None)]\<rparr>"
  have f: "demo_hash x \<noteq> [] \<and> demo_hash x \<noteq> [9]" for x by (cases x) (auto simp: demo_hash_def)
  have m: "(2::nat) > 0" "mm_positions ?r = []" "mm_positions ?r' = []" by (simp_all add: demo_request_def)
  have i: "init_request demo_hash [9] 2 ?r = Some (Inr ?r0)"
    by (simp add: init_request_def request_block_hasher_def demo_request_def hasher_loop.simps num_tokens_def
        generate_block_hash_extra_keys_def gen_mm_extra_hash_keys_def gen_lora_extra_hash_keys_def cache_salt_keys_def hash_block_tokens_def Let_def)
  have h0: "hashed demo_hash [9] 2 ?r0" using init_request_hashed[OF m(2,1), of demo_hash "[9]"] i by auto
  obtain r1 where a: "append_outputs demo_hash [9] 2 ?r0 [[4]] = Some (Inr r1)" "hashed demo_hash [9] 2 r1" "all_token_ids r1 = [1, 2, 3, 4]"
    using append_outputs_hashed[OF _ m(1) h0, of "[[4]]"] created_hashed(2)[OF m(2,1) i, of "[[4]]"] m(2) by (auto simp: demo_request_def)
  obtain r1' where a': "init_request demo_hash [9] 2 ?r' = Some (Inr r1')" using init_request_hashed[OF m(3,1)] by blast
  have l': "hashed demo_hash [9] 2 r1'" "all_token_ids r1' = [1, 2, 3, 4]" using created_hashed(1,2)[OF m(3,1) a', of "[]"] by simp_all
  have len: "length (block_hashes r1) = 2" "length (block_hashes r1') = 2" using a(2,3) l' by (simp_all add: hashed_def num_tokens_def)
  have "block_hashes r1 ! k \<noteq> block_hashes r1' ! k" if "k < 2" for k
    using equal_hash_equal_prefix[OF demo_hash_inj f m i a(1) a', of "[]" r1' k k] len that by (simp add: salt_of_def demo_request_def)
  from this[of 0] this[of 1] show ?thesis using a(1) a' by auto
qed

section \<open>Multi-modal inputs in a block completed by generated tokens\<close>

definition two_image_request :: "string \<Rightarrow> string \<Rightarrow> request" where
  "two_image_request img1 img2 = demo_request\<lparr>all_token_ids := [1, 2, 3, 4, 9, 9],
     mm_positions := [\<lparr>offset = 4, mm_length = 1\<rparr>, \<lparr>offset = 5, mm_length = 1\<rparr>], mm_hashes := [Some img1, Some img2]\<rparr>"

text \<open>A partly filled last block that holds two multi-modal inputs is hashed with the second one only when
  generated tokens fill it up, because the hasher resumes at the last input: whatever the hash function, the
  block hashes do not depend on the first input (hashing the same eight tokens at once includes both), so a
  request with another first image gets the same key.\<close>

theorem generated_block_forgets_image:
  "\<exists>r0 r1 r2. init_request hash_fn none_hash 4 (two_image_request img1 img2) = Some (Inr r0)
    \<and> append_output_token_ids hash_fn none_hash 4 r0 [7, 8] = Some (Inr r1)
    \<and> init_request hash_fn none_hash 4 ((two_image_request img1 img2)\<lparr>all_token_ids := [1, 2, 3, 4, 9, 9, 7, 8]\<rparr>) = Some (Inr r2)
    \<and> (let h = hash_block_tokens hash_fn none_hash None [1, 2, 3, 4] None
       in block_hashes r1 = [h, hash_block_tokens hash_fn none_hash (Some h) [9, 9, 7, 8] (Some [PStr img2])]
        \<and> block_hashes r2 = [h, hash_block_tokens hash_fn none_hash (Some h) [9, 9, 7, 8] (Some [PStr img1, PStr img2])])"
  by (simp add: init_request_def append_output_token_ids_def request_block_hasher_def two_image_request_def
      demo_request_def hasher_loop.simps num_tokens_def generate_block_hash_extra_keys_def gen_mm_extra_hash_keys_def
      mm_loop.simps gen_lora_extra_hash_keys_def cache_salt_keys_def Let_def)

end
