(* ===== verification/Block_Pool.thy ===== *)
theory Block_Pool
  imports Block_Queue Block_Hash "HOL-Library.AList"
begin

text \<open>
  \<open>vllm/v1/core/block_pool.py\<close>: the pool of KV-cache blocks with reference counts, the prefix cache from
  block hashes to blocks, and the queue of free blocks in eviction order. Attributes of the block objects
  are functions of the reference; the inner dictionaries of the prefix cache are association lists in
  insertion order. Two invariants are kept: the free queue holds exactly the blocks with reference count 0,
  and the prefix cache holds exactly the blocks that carry a hash, under that hash.
\<close>

section \<open>The pool\<close>

datatype kv_event =
    Block_stored "external_hash list" "external_hash option" "int list" nat "int option" string
  | Block_removed "external_hash list" string
  | All_blocks_cleared

record block_pool =
  num_gpu_blocks :: int
  enable_caching :: bool
  ref_cnt :: "bref \<Rightarrow> int"
  block_hash :: "bref \<Rightarrow> byte_list option"
  is_null :: "bref \<Rightarrow> bool"
  free_block_queue :: free_queue
  cached_block_hash_to_block :: "byte_list \<rightharpoonup> (int \<times> bref) list"
  null_block :: bref
  enable_kv_cache_events :: bool
  kv_event_queue :: "kv_event list"
  use_int_hashes :: bool

fun block_id :: "bref \<Rightarrow> int" where
  "block_id (Blk i) = int i"
| "block_id _ = - 1"

definition init_pool :: "int \<Rightarrow> bool \<Rightarrow> bool \<Rightarrow> bool \<Rightarrow> block_pool result" where
  "init_pool n caching events use_int =
     (if \<not> n > 0 then Inl AssertionError
      else bindE (popleft (init_queue (nat n)))
        (\<lambda>(nb, q). Inr \<lparr>num_gpu_blocks = n, enable_caching = caching, ref_cnt = (\<lambda>_. 0), block_hash = (\<lambda>_. None),
           is_null = (\<lambda>_. False)(nb := True), free_block_queue = q, cached_block_hash_to_block = Map.empty,
           null_block = nb, enable_kv_cache_events = events, kv_event_queue = [], use_int_hashes = use_int\<rparr>))"

definition get_num_free_blocks :: "block_pool \<Rightarrow> int" where
  "get_num_free_blocks p = num_free_blocks (free_block_queue p)"

section \<open>Lookup and caching\<close>

fun get_cached_block :: "block_pool \<Rightarrow> byte_list \<Rightarrow> int list \<Rightarrow> bref list option result" where
  "get_cached_block p h [] = Inr (Some [])"
| "get_cached_block p h (g # gs) =
     bindE (make_block_hash_with_group_id h g)
       (\<lambda>key. case cached_block_hash_to_block p key of
          None \<Rightarrow> Inr None
        | Some [] \<Rightarrow> Inr None
        | Some (b # _) \<Rightarrow>
            bindE (get_cached_block p h gs) (\<lambda>rest. Inr (map_option (\<lambda>bs. snd b # bs) rest)))"

text \<open>The loop of \<open>cache_full_blocks\<close> over the new full blocks; \<open>hs\<close> are the remaining new hashes. The list
  \<open>new_hashes\<close> of the source is only used for events.\<close>

fun cache_loop :: "block_pool \<Rightarrow> int \<Rightarrow> bref list \<Rightarrow> byte_list list \<Rightarrow> block_pool result" where
  "cache_loop p g [] hs = Inr p"
| "cache_loop p g (blk # blks) hs =
     (if block_hash p blk \<noteq> None then Inl AssertionError
      else case hs of
        [] \<Rightarrow> Inl IndexError
      | h # hs' \<Rightarrow>
          bindE (make_block_hash_with_group_id h g)
            (\<lambda>key. cache_loop
               (p\<lparr>block_hash := (block_hash p)(blk \<mapsto> key),
                  cached_block_hash_to_block := (cached_block_hash_to_block p)
                    (key \<mapsto> AList.update (block_id blk) blk
                       (case cached_block_hash_to_block p key of None \<Rightarrow> [] | Some d \<Rightarrow> d))\<rparr>) g blks hs'))"

text \<open>The attribute \<open>request.lora_request.id\<close> that the event reads does not exist on \<open>LoRARequest\<close>.\<close>

definition stored_event :: "block_pool \<Rightarrow> request \<Rightarrow> bref list \<Rightarrow> nat \<Rightarrow> nat \<Rightarrow> nat \<Rightarrow> kv_event result" where
  "stored_event p r blocks num_cached_blocks num_full_blocks block_size =
     bindE (if num_cached_blocks = 0 then Inr None
            else if num_cached_blocks - 1 < length blocks
            then (case block_hash p (blocks ! (num_cached_blocks - 1)) of
                    None \<Rightarrow> Inl AssertionError
                  | Some key \<Rightarrow> Inr (Some (maybe_convert_block_hash (use_int_hashes p) (get_block_hash key))))
            else Inl IndexError)
       (\<lambda>parent_block_hash.
          case lora_request r of
            Some _ \<Rightarrow> Inl AttributeError
          | None \<Rightarrow> Inr (Block_stored
              (map (maybe_convert_block_hash (use_int_hashes p))
                 (take (length (drop num_cached_blocks (take num_full_blocks blocks))) (drop num_cached_blocks (block_hashes r))))
              parent_block_hash
              (drop (num_cached_blocks * block_size) (take (num_full_blocks * block_size) (all_token_ids r)))
              block_size None ''GPU''))"

definition cache_full_blocks :: "block_pool \<Rightarrow> request \<Rightarrow> bref list \<Rightarrow> nat \<Rightarrow> nat \<Rightarrow> nat \<Rightarrow> int \<Rightarrow> block_pool result" where
  "cache_full_blocks p r blocks num_cached_blocks num_full_blocks block_size g =
     (if num_cached_blocks = num_full_blocks then Inr p
      else if \<not> length (block_hashes r) \<ge> num_full_blocks then Inl AssertionError
      else bindE (cache_loop p g (drop num_cached_blocks (take num_full_blocks blocks)) (drop num_cached_blocks (block_hashes r)))
        (\<lambda>p'. if enable_kv_cache_events p'
              then bindE (stored_event p' r blocks num_cached_blocks num_full_blocks block_size)
                     (\<lambda>ev. Inr (p'\<lparr>kv_event_queue := kv_event_queue p' @ [ev]\<rparr>))
              else Inr p'))"

section \<open>Allocation and release\<close>

definition maybe_evict_cached_block :: "block_pool \<Rightarrow> bref \<Rightarrow> bool \<times> block_pool" where
  "maybe_evict_cached_block p blk =
     (case block_hash p blk of
        None \<Rightarrow> (False, p)
      | Some key \<Rightarrow>
          (case cached_block_hash_to_block p key of
             None \<Rightarrow> (False, p)
           | Some blocks_by_id \<Rightarrow>
               (let d = AList.delete (block_id blk) blocks_by_id;
                    p' = p\<lparr>block_hash := (block_hash p)(blk := None),
                           cached_block_hash_to_block := (cached_block_hash_to_block p)(key := if d = [] then None else Some d)\<rparr>
                in (True,
                    if enable_kv_cache_events p
                    then p'\<lparr>kv_event_queue := kv_event_queue p' @
                           [Block_removed [maybe_convert_block_hash (use_int_hashes p) (get_block_hash key)] ''GPU'']\<rparr>
                    else p'))))"

fun take_loop :: "block_pool \<Rightarrow> bref list \<Rightarrow> block_pool result" where
  "take_loop p [] = Inr p"
| "take_loop p (blk # blks) =
     (let p' = (if enable_caching p then snd (maybe_evict_cached_block p blk) else p)
      in if ref_cnt p' blk \<noteq> 0 then Inl AssertionError
         else take_loop (p'\<lparr>ref_cnt := (ref_cnt p')(blk := ref_cnt p' blk + 1)\<rparr>) blks)"

definition get_new_blocks :: "block_pool \<Rightarrow> nat \<Rightarrow> (bref list \<times> block_pool) result" where
  "get_new_blocks p num_blocks =
     (if int num_blocks > get_num_free_blocks p then Inl ValueError
      else bindE (popleft_n (free_block_queue p) num_blocks)
        (\<lambda>(ret, q). bindE (take_loop (p\<lparr>free_block_queue := q\<rparr>) ret) (\<lambda>p'. Inr (ret, p'))))"

fun touch_group :: "block_pool \<Rightarrow> bref list \<Rightarrow> block_pool result" where
  "touch_group p [] = Inr p"
| "touch_group p (blk # blks) =
     bindE (if ref_cnt p blk = 0 \<and> \<not> is_null p blk
            then bindE (remove_block (free_block_queue p) blk) (\<lambda>q. Inr (p\<lparr>free_block_queue := q\<rparr>))
            else Inr p)
       (\<lambda>p'. touch_group (p'\<lparr>ref_cnt := (ref_cnt p')(blk := ref_cnt p' blk + 1)\<rparr>) blks)"

fun touch :: "block_pool \<Rightarrow> bref list list \<Rightarrow> block_pool result" where
  "touch p [] = Inr p"
| "touch p (blocks_per_group # rest) = bindE (touch_group p blocks_per_group) (\<lambda>p'. touch p' rest)"

definition free_blocks :: "block_pool \<Rightarrow> bref list \<Rightarrow> block_pool result" where
  "free_blocks p ordered_blocks =
     (let rc = fold (\<lambda>blk rc. rc(blk := rc blk - 1)) ordered_blocks (ref_cnt p);
          p' = p\<lparr>ref_cnt := rc\<rparr>
      in bindE (append_n (free_block_queue p') (filter (\<lambda>blk. rc blk = 0 \<and> \<not> is_null p' blk) ordered_blocks))
           (\<lambda>q. Inr (p'\<lparr>free_block_queue := q\<rparr>)))"

section \<open>Reset, usage, events\<close>

definition reset_prefix_cache :: "block_pool \<Rightarrow> bool \<times> block_pool" where
  "reset_prefix_cache p =
     (if num_gpu_blocks p - get_num_free_blocks p \<noteq> 1 then (False, p)
      else (let p' = p\<lparr>cached_block_hash_to_block := Map.empty,
                       block_hash := (\<lambda>r. case r of Blk i \<Rightarrow> if int i < num_gpu_blocks p then None else block_hash p r
                                                  | _ \<Rightarrow> block_hash p r)\<rparr>
            in (True, if enable_kv_cache_events p
                      then p'\<lparr>kv_event_queue := kv_event_queue p' @ [All_blocks_cleared]\<rparr> else p')))"

definition get_usage :: "block_pool \<Rightarrow> real" where
  "get_usage p =
     (let total_gpu_blocks = num_gpu_blocks p - 1
      in if total_gpu_blocks = 0 then 0
         else 1 - real_of_int (get_num_free_blocks p) / real_of_int total_gpu_blocks)"

definition take_events :: "block_pool \<Rightarrow> kv_event list \<times> block_pool" where
  "take_events p =
     (if \<not> enable_kv_cache_events p then ([], p) else (kv_event_queue p, p\<lparr>kv_event_queue := []\<rparr>))"

section \<open>Invariant\<close>

named_theorems pool_simps \<open>fields of the pool\<close>

definition usable :: "block_pool \<Rightarrow> nat set" where
  "usable p = {1..<nat (num_gpu_blocks p)}"

definition pool_frame :: "block_pool \<Rightarrow> int \<times> bool \<times> (bref \<Rightarrow> bool) \<times> bref \<times> bool \<times> bool" where
  "pool_frame p = (num_gpu_blocks p, enable_caching p, is_null p, null_block p, enable_kv_cache_events p, use_int_hashes p)"

definition pool_wf :: "block_pool \<Rightarrow> bool" where
  "pool_wf p \<longleftrightarrow> num_gpu_blocks p > 0 \<and> null_block p = Blk 0 \<and> is_null p = (\<lambda>_. False)(Blk 0 := True)"

definition refs_inv :: "block_pool \<Rightarrow> bool" where
  "refs_inv p \<longleftrightarrow> fq.accounts (free_block_queue p) (usable p) (\<lambda>b. ref_cnt p (Blk b))
     \<and> (\<forall>b\<in>usable p. ref_cnt p (Blk b) \<ge> 0)"

definition cache_inv :: "block_pool \<Rightarrow> bool" where
  "cache_inv p \<longleftrightarrow>
     (\<forall>key d. cached_block_hash_to_block p key = Some d \<longrightarrow> d \<noteq> [] \<and> distinct (map fst d)
        \<and> (\<forall>x\<in>set d. \<exists>b\<in>usable p. x = (int b, Blk b) \<and> block_hash p (Blk b) = Some key))
   \<and> (\<forall>r key. block_hash p r = Some key \<longrightarrow>
        (\<exists>b\<in>usable p. r = Blk b \<and> (\<exists>d. cached_block_hash_to_block p key = Some d \<and> (int b, Blk b) \<in> set d)))
   \<and> (\<not> enable_caching p \<longrightarrow> cached_block_hash_to_block p = Map.empty)"

definition pool_inv :: "block_pool \<Rightarrow> bool" where
  "pool_inv p \<longleftrightarrow> pool_wf p \<and> refs_inv p \<and> cache_inv p"

lemma pool_frame_wf: "pool_frame p' = pool_frame p \<Longrightarrow> pool_wf p \<Longrightarrow> pool_wf p'"
  by (simp add: pool_frame_def pool_wf_def)

lemma pool_frame_usable: "pool_frame p' = pool_frame p \<Longrightarrow> usable p' = usable p"
  by (simp add: pool_frame_def usable_def)

lemma cache_invD1:
  "cache_inv p \<Longrightarrow> cached_block_hash_to_block p key = Some d \<Longrightarrow> d \<noteq> [] \<and> distinct (map fst d)"
  "cache_inv p \<Longrightarrow> cached_block_hash_to_block p key = Some d \<Longrightarrow> x \<in> set d \<Longrightarrow>
     \<exists>b\<in>usable p. x = (int b, Blk b) \<and> block_hash p (Blk b) = Some key"
  by (simp_all add: cache_inv_def)

lemma cache_invD2:
  "cache_inv p \<Longrightarrow> block_hash p r = Some key \<Longrightarrow>
     \<exists>b\<in>usable p. r = Blk b \<and> (\<exists>d. cached_block_hash_to_block p key = Some d \<and> (int b, Blk b) \<in> set d)"
  by (simp add: cache_inv_def)

lemma cache_inv_cong:
  assumes "cache_inv p" "pool_frame p' = pool_frame p" "block_hash p' = block_hash p"
    "cached_block_hash_to_block p' = cached_block_hash_to_block p"
  shows "cache_inv p'"
  using assms pool_frame_usable[OF assms(2)] by (simp add: cache_inv_def pool_frame_def)

lemma cache_inv_uncached: "cache_inv p \<Longrightarrow> \<not> enable_caching p \<Longrightarrow> block_hash p r = None"
  using cache_invD2[of p r] by (cases "block_hash p r") (auto simp: cache_inv_def)

section \<open>Eviction\<close>

lemma evict_fields [simp]:
  "ref_cnt (snd (maybe_evict_cached_block p x)) = ref_cnt p"
  "free_block_queue (snd (maybe_evict_cached_block p x)) = free_block_queue p"
  "pool_frame (snd (maybe_evict_cached_block p x)) = pool_frame p"
  by (auto simp: maybe_evict_cached_block_def pool_frame_def Let_def split: option.splits)

lemma evict_cached:
  assumes inv: "cache_inv p"
  shows "block_hash (snd (maybe_evict_cached_block p x)) = (block_hash p)(x := None)"
    and "fst (maybe_evict_cached_block p x) \<longleftrightarrow> block_hash p x \<noteq> None"
proof -
  have *: "block_hash (snd (maybe_evict_cached_block p x)) = (block_hash p)(x := None)
    \<and> (fst (maybe_evict_cached_block p x) \<longleftrightarrow> block_hash p x \<noteq> None)"
  proof (cases "block_hash p x")
    case None
    then show ?thesis by (auto simp: maybe_evict_cached_block_def)
  next
    case (Some key)
    then obtain d where "cached_block_hash_to_block p key = Some d" using cache_invD2[OF inv] by blast
    then show ?thesis using Some by (simp add: maybe_evict_cached_block_def Let_def)
  qed
  then show "block_hash (snd (maybe_evict_cached_block p x)) = (block_hash p)(x := None)"
    "fst (maybe_evict_cached_block p x) \<longleftrightarrow> block_hash p x \<noteq> None" by blast+
qed

lemma evict_cache_inv:
  assumes inv: "cache_inv p"
  shows "cache_inv (snd (maybe_evict_cached_block p x))"
proof (cases "block_hash p x")
  case None
  then show ?thesis using inv by (simp add: maybe_evict_cached_block_def)
next
  case (Some key)
  let ?p = "snd (maybe_evict_cached_block p x)"
  from cache_invD2[OF inv Some] obtain b d where b: "b \<in> usable p" "x = Blk b"
    and d: "cached_block_hash_to_block p key = Some d" "(int b, Blk b) \<in> set d" by blast
  have dist: "distinct (map fst d)" using cache_invD1(1)[OF inv d(1)] by simp
  let ?d = "AList.delete (int b) d"
  have set_d: "set ?d = {y \<in> set d. fst y \<noteq> int b}" by (auto simp: AList.delete_eq)
  have c: "cached_block_hash_to_block ?p = (cached_block_hash_to_block p)(key := if ?d = [] then None else Some ?d)"
    using Some d b by (simp add: maybe_evict_cached_block_def Let_def)
  have h: "block_hash ?p = (block_hash p)(x := None)" by (rule evict_cached(1)[OF inv])
  have u: "usable ?p = usable p" and ec: "enable_caching ?p = enable_caching p"
    using evict_fields(3)[of p x] by (rule pool_frame_usable) (use evict_fields(3)[of p x] in \<open>simp add: pool_frame_def\<close>)
  have 1: "e \<noteq> [] \<and> distinct (map fst e) \<and> (\<forall>y\<in>set e. \<exists>b'\<in>usable p. y = (int b', Blk b') \<and> block_hash ?p (Blk b') = Some k)"
    if e: "cached_block_hash_to_block ?p k = Some e" for k e
  proof (cases "k = key")
    case True
    then have "e = ?d" "?d \<noteq> []" using e by (auto simp: c split: if_splits)
    moreover have "distinct (map fst ?d)" using dist by (simp add: distinct_delete)
    moreover have "\<exists>b'\<in>usable p. y = (int b', Blk b') \<and> block_hash ?p (Blk b') = Some key" if "y \<in> set ?d" for y
    proof -
      from that have y: "y \<in> set d" "fst y \<noteq> int b" by (auto simp: set_d)
      from cache_invD1(2)[OF inv d(1) y(1)] obtain b' where "b' \<in> usable p" "y = (int b', Blk b')"
        "block_hash p (Blk b') = Some key" by auto
      then show ?thesis using y(2) b unfolding h by auto
    qed
    ultimately show ?thesis using True by simp
  next
    case False
    then have ek: "cached_block_hash_to_block p k = Some e" using e by (simp add: c)
    have "\<exists>b'\<in>usable p. y = (int b', Blk b') \<and> block_hash ?p (Blk b') = Some k" if y: "y \<in> set e" for y
    proof -
      from cache_invD1(2)[OF inv ek y] obtain b' where "b' \<in> usable p" "y = (int b', Blk b')"
        "block_hash p (Blk b') = Some k" by auto
      then show ?thesis using False Some b unfolding h by auto
    qed
    then show ?thesis using cache_invD1(1)[OF inv ek] by simp
  qed
  have 2: "\<exists>b'\<in>usable p. r = Blk b' \<and> (\<exists>e. cached_block_hash_to_block ?p k = Some e \<and> (int b', Blk b') \<in> set e)"
    if r: "block_hash ?p r = Some k" for r k
  proof -
    have "r \<noteq> x" "block_hash p r = Some k" using r by (auto simp: h split: if_splits)
    with cache_invD2[OF inv, of r k] obtain b' e where "b' \<in> usable p" "r = Blk b'"
      "cached_block_hash_to_block p k = Some e" "(int b', Blk b') \<in> set e" by blast
    moreover from this \<open>r \<noteq> x\<close> b d have "k = key \<Longrightarrow> (int b', Blk b') \<in> set ?d" by (auto simp: AList.delete_eq)
    ultimately show ?thesis using d by (cases "k = key") (auto simp: c)
  qed
  have "\<not> enable_caching p \<Longrightarrow> False" using inv d by (simp add: cache_inv_def)
  then show ?thesis using 1 2 unfolding cache_inv_def u ec by blast
qed

section \<open>Allocation\<close>

lemma take_loop_ok:
  "distinct rs \<Longrightarrow> \<forall>r\<in>set rs. ref_cnt p r = 0 \<Longrightarrow> cache_inv p \<Longrightarrow>
   \<exists>p'. take_loop p rs = Inr p' \<and> pool_frame p' = pool_frame p \<and> free_block_queue p' = free_block_queue p
     \<and> cache_inv p' \<and> ref_cnt p' = (\<lambda>r. if r \<in> set rs then 1 else ref_cnt p r)
     \<and> block_hash p' = (\<lambda>r. if r \<in> set rs then None else block_hash p r)"
proof (induction rs arbitrary: p)
  case (Cons r rs)
  define e where "e = (if enable_caching p then snd (maybe_evict_cached_block p r) else p)"
  define p1 where "p1 = e\<lparr>ref_cnt := (ref_cnt e)(r := ref_cnt e r + 1)\<rparr>"
  have e: "pool_frame e = pool_frame p" "free_block_queue e = free_block_queue p" "ref_cnt e = ref_cnt p"
    "cache_inv e" "block_hash e = (block_hash p)(r := None)"
    using Cons.prems(3) by (auto simp: e_def evict_cache_inv evict_cached cache_inv_uncached fun_eq_iff)
  have p1: "pool_frame p1 = pool_frame p" "free_block_queue p1 = free_block_queue p"
    "ref_cnt p1 = (ref_cnt p)(r := 1)" "block_hash p1 = (block_hash p)(r := None)"
    using e Cons.prems(2) by (simp_all add: p1_def pool_frame_def)
  have "cache_inv p1" by (rule cache_inv_cong[OF e(4)]) (simp_all add: p1_def pool_frame_def)
  moreover have "\<forall>r'\<in>set rs. ref_cnt p1 r' = 0" using Cons.prems(1,2) by (auto simp: p1)
  ultimately obtain p' where p': "take_loop p1 rs = Inr p'" "pool_frame p' = pool_frame p1"
    "free_block_queue p' = free_block_queue p1" "cache_inv p'"
    "ref_cnt p' = (\<lambda>r. if r \<in> set rs then 1 else ref_cnt p1 r)"
    "block_hash p' = (\<lambda>r. if r \<in> set rs then None else block_hash p1 r)"
    using Cons.IH[of p1] Cons.prems(1) by auto
  have "take_loop p (r # rs) = take_loop p1 rs"
    using Cons.prems(2) e(3) by (simp add: p1_def e_def[symmetric] Let_def)
  then show ?case using p' p1 by (intro exI[of _ p']) (simp add: fun_eq_iff)
qed simp

lemma take_loop_queue: "take_loop p rs = Inr p' \<Longrightarrow> free_block_queue p' = free_block_queue p"
  by (induction p rs rule: take_loop.induct) (auto simp: Let_def split: if_splits)

lemma get_new_blocks_queue:
  "get_new_blocks p k = Inr (rs, p') \<Longrightarrow> popleft_n (free_block_queue p) k = Inr (rs', q) \<Longrightarrow> rs = rs' \<and> free_block_queue p' = q"
  using take_loop_queue by (fastforce simp: get_new_blocks_def result_simps split: if_splits)

lemma refs_invI:
  assumes "fq.accounts (free_block_queue p) (usable p) rc" "\<And>b. b \<in> usable p \<Longrightarrow> rc b = ref_cnt p (Blk b)"
    "\<And>b. b \<in> usable p \<Longrightarrow> ref_cnt p (Blk b) \<ge> 0"
  shows "refs_inv p"
  using fq.accounts_cong[OF assms(1), of "\<lambda>b. ref_cnt p (Blk b)"] assms(2,3) by (simp add: refs_inv_def)

lemma get_new_blocks_ok:
  assumes inv: "pool_inv p" and n: "int n \<le> get_num_free_blocks p"
  shows "\<exists>bs p'. get_new_blocks p n = Inr (map Blk bs, p') \<and> length bs = n \<and> distinct bs \<and> set bs \<subseteq> usable p
    \<and> (\<forall>b\<in>set bs. ref_cnt p (Blk b) = 0) \<and> pool_inv p' \<and> pool_frame p' = pool_frame p
    \<and> ref_cnt p' = (\<lambda>r. if r \<in> Blk ` set bs then 1 else ref_cnt p r)
    \<and> block_hash p' = (\<lambda>r. if r \<in> Blk ` set bs then None else block_hash p r)"
proof -
  have acc: "fq.accounts (free_block_queue p) (usable p) (\<lambda>b. ref_cnt p (Blk b))" and pos: "\<forall>b\<in>usable p. ref_cnt p (Blk b) \<ge> 0"
    and ci: "cache_inv p" using inv by (auto simp: pool_inv_def refs_inv_def)
  from fq.accounts_take[OF acc, of n] n obtain bs q where
    t: "popleft_n (free_block_queue p) n = Inr (map Blk bs, q)" "length bs = n" "distinct bs"
    and sub: "set bs \<subseteq> {b \<in> usable p. ref_cnt p (Blk b) = 0}"
    and acc': "fq.accounts q (usable p) (\<lambda>b. if b \<in> set bs then 1 else ref_cnt p (Blk b))"
    by (auto simp: get_num_free_blocks_def)
  let ?p = "p\<lparr>free_block_queue := q\<rparr>"
  have "cache_inv ?p" by (rule cache_inv_cong[OF ci]) (simp_all add: pool_frame_def)
  moreover have "distinct (map Blk bs)" using t(3) by (simp add: distinct_map inj_on_def)
  moreover have "\<forall>r\<in>set (map Blk bs). ref_cnt ?p r = 0" using sub by auto
  ultimately obtain p' where l: "take_loop ?p (map Blk bs) = Inr p'" "pool_frame p' = pool_frame ?p"
    "free_block_queue p' = free_block_queue ?p" "cache_inv p'"
    "ref_cnt p' = (\<lambda>r. if r \<in> set (map Blk bs) then 1 else ref_cnt ?p r)"
    "block_hash p' = (\<lambda>r. if r \<in> set (map Blk bs) then None else block_hash ?p r)"
    using take_loop_ok[of "map Blk bs" ?p] by blast
  have p': "take_loop ?p (map Blk bs) = Inr p'" "pool_frame p' = pool_frame p"
    "free_block_queue p' = q" "cache_inv p'"
    "ref_cnt p' = (\<lambda>r. if r \<in> Blk ` set bs then 1 else ref_cnt p r)"
    "block_hash p' = (\<lambda>r. if r \<in> Blk ` set bs then None else block_hash p r)"
    using l by (simp_all add: fun_eq_iff pool_frame_def)
  have "refs_inv p'"
    by (rule refs_invI[of _ "\<lambda>b. if b \<in> set bs then 1 else ref_cnt p (Blk b)"])
      (use acc' pos in \<open>auto simp: p'(3,5) pool_frame_usable[OF p'(2)] image_iff\<close>)
  then have "pool_inv p'" using p'(2,4) inv pool_frame_wf by (auto simp: pool_inv_def)
  then show ?thesis using t p' sub n by (intro exI[of _ bs] exI[of _ p']) (auto simp: get_new_blocks_def)
qed

lemma num_free_blocks_card:
  assumes "pool_inv p"
  shows "get_num_free_blocks p = int (card {b \<in> usable p. ref_cnt p (Blk b) = 0})"
  using assms fq.accounts_count by (simp add: pool_inv_def refs_inv_def get_num_free_blocks_def)

section \<open>Touch and free\<close>

text \<open>Blocks a caller may hand to the pool: the null block and the usable blocks.\<close>

definition pool_blocks :: "block_pool \<Rightarrow> bref set" where
  "pool_blocks p = insert (Blk 0) (Blk ` usable p)"

lemma touch_group_ok:
  "pool_inv p \<Longrightarrow> set rs \<subseteq> pool_blocks p \<Longrightarrow>
   \<exists>p'. touch_group p rs = Inr p' \<and> pool_inv p' \<and> pool_frame p' = pool_frame p \<and> block_hash p' = block_hash p
     \<and> cached_block_hash_to_block p' = cached_block_hash_to_block p
     \<and> ref_cnt p' = (\<lambda>r. ref_cnt p r + int (count_list rs r))"
proof (induction rs arbitrary: p)
  case (Cons r rs)
  note inv = Cons.prems(1)
  have acc: "fq.accounts (free_block_queue p) (usable p) (\<lambda>b. ref_cnt p (Blk b))" and pos: "\<forall>b\<in>usable p. ref_cnt p (Blk b) \<ge> 0"
    and wf: "pool_wf p" and ci: "cache_inv p" using inv by (auto simp: pool_inv_def refs_inv_def)
  have null: "is_null p r \<longleftrightarrow> r = Blk 0" using wf by (simp add: pool_wf_def)
  have "\<exists>q. (if ref_cnt p r = 0 \<and> \<not> is_null p r
      then bindE (remove_block (free_block_queue p) r) (\<lambda>q. Inr (p\<lparr>free_block_queue := q\<rparr>)) else Inr p)
        = Inr (p\<lparr>free_block_queue := q\<rparr>)
     \<and> fq.accounts q (usable p) (\<lambda>b. ((ref_cnt p)(r := ref_cnt p r + 1)) (Blk b))"
  proof (cases "ref_cnt p r = 0 \<and> \<not> is_null p r")
    case True
    then obtain b where b: "r = Blk b" "b \<in> usable p" using Cons.prems(2) null by (auto simp: pool_blocks_def)
    with fq.accounts_out[OF acc b(2)] True obtain q where q: "remove_block (free_block_queue p) r = Inr q"
      "fq.accounts q (usable p) ((\<lambda>b. ref_cnt p (Blk b))(b := 1))" by auto
    have "(\<lambda>b. ref_cnt p (Blk b))(b := 1) = (\<lambda>b. ((ref_cnt p)(r := ref_cnt p r + 1)) (Blk b))"
      using True b by (auto simp: fun_eq_iff)
    then show ?thesis using q True by auto
  next
    case False
    have "fq.accounts (free_block_queue p) (usable p) (\<lambda>b. ((ref_cnt p)(r := ref_cnt p r + 1)) (Blk b))"
    proof (rule fq.accounts_cong[OF acc])
      fix b assume b: "b \<in> usable p"
      have "ref_cnt p (Blk b) \<ge> 0" "b \<noteq> 0" using pos b by (auto simp: usable_def)
      then show "ref_cnt p (Blk b) = 0 \<longleftrightarrow> ((ref_cnt p)(r := ref_cnt p r + 1)) (Blk b) = 0"
        using False null by auto
    qed
    then show ?thesis using False by (intro exI[of _ "free_block_queue p"]) auto
  qed
  then obtain q where q: "(if ref_cnt p r = 0 \<and> \<not> is_null p r
      then bindE (remove_block (free_block_queue p) r) (\<lambda>q. Inr (p\<lparr>free_block_queue := q\<rparr>)) else Inr p)
        = Inr (p\<lparr>free_block_queue := q\<rparr>)"
    and acc': "fq.accounts q (usable p) (\<lambda>b. ((ref_cnt p)(r := ref_cnt p r + 1)) (Blk b))" by blast
  define p1 where "p1 = p\<lparr>free_block_queue := q, ref_cnt := (ref_cnt p)(r := ref_cnt p r + 1)\<rparr>"
  have fr: "pool_frame p1 = pool_frame p" by (simp add: p1_def pool_frame_def)
  have "refs_inv p1" by (rule refs_invI) (use acc' pos in \<open>auto simp: p1_def pool_frame_usable[OF fr[unfolded p1_def]] add_increasing\<close>)
  moreover have "cache_inv p1" by (rule cache_inv_cong[OF ci fr]) (simp_all add: p1_def)
  ultimately have inv1: "pool_inv p1" using pool_frame_wf[OF fr wf] by (simp add: pool_inv_def)
  have "set rs \<subseteq> pool_blocks p1" using Cons.prems(2) pool_frame_usable[OF fr] by (simp add: pool_blocks_def)
  from Cons.IH[OF inv1 this] obtain p' where p': "touch_group p1 rs = Inr p'" "pool_inv p'" "pool_frame p' = pool_frame p1"
    "block_hash p' = block_hash p1" "cached_block_hash_to_block p' = cached_block_hash_to_block p1"
    "ref_cnt p' = (\<lambda>s. ref_cnt p1 s + int (count_list rs s))" by blast
  have "touch_group p (r # rs) = touch_group p1 rs" unfolding touch_group.simps q by (simp add: p1_def)
  then show ?case using p' fr by (intro exI[of _ p']) (auto simp: p1_def fun_eq_iff)
qed simp

lemma fold_decrement:
  "fold (\<lambda>blk rc. rc(blk := rc blk - 1)) rs rc = (\<lambda>r. rc r - int (count_list rs r))" for rc :: "bref \<Rightarrow> int"
  by (induction rs arbitrary: rc) (auto simp: fun_eq_iff)

text \<open>A list a caller may free: apart from the null block, distinct usable blocks in use.\<close>

definition freeable :: "block_pool \<Rightarrow> bref list \<Rightarrow> bool" where
  "freeable p rs \<longleftrightarrow> set rs \<subseteq> pool_blocks p \<and> distinct (filter (\<lambda>r. r \<noteq> Blk 0) rs)
     \<and> (\<forall>r\<in>set rs. r \<noteq> Blk 0 \<longrightarrow> ref_cnt p r > 0)"

lemma count_list_distinct_filter:
  "distinct (filter P xs) \<Longrightarrow> P x \<Longrightarrow> count_list xs x = (if x \<in> set xs then 1 else 0)"
  by (induction xs) (auto split: if_splits)

lemma touch_ok:
  "pool_inv p \<Longrightarrow> \<forall>rs\<in>set gs. set rs \<subseteq> pool_blocks p \<Longrightarrow>
   \<exists>p'. touch p gs = Inr p' \<and> pool_inv p' \<and> pool_frame p' = pool_frame p \<and> block_hash p' = block_hash p
     \<and> cached_block_hash_to_block p' = cached_block_hash_to_block p
     \<and> ref_cnt p' = (\<lambda>r. ref_cnt p r + int (count_list (concat gs) r))"
proof (induction gs arbitrary: p)
  case (Cons rs gs)
  have "set rs \<subseteq> pool_blocks p" using Cons.prems(2) by simp
  from touch_group_ok[OF Cons.prems(1) this] obtain p1 where 1: "touch_group p rs = Inr p1" "pool_inv p1"
    "pool_frame p1 = pool_frame p" "block_hash p1 = block_hash p"
    "cached_block_hash_to_block p1 = cached_block_hash_to_block p"
    "ref_cnt p1 = (\<lambda>r. ref_cnt p r + int (count_list rs r))" by blast
  have "\<forall>rs\<in>set gs. set rs \<subseteq> pool_blocks p1"
    using Cons.prems(2) pool_frame_usable[OF 1(3)] by (simp add: pool_blocks_def)
  from Cons.IH[OF 1(2) this] 1 show ?case by (fastforce simp: fun_eq_iff)
qed simp

text \<open>The blocks that a call to \<open>free_blocks\<close> returns to the queue, in order.\<close>

definition released :: "block_pool \<Rightarrow> bref list \<Rightarrow> nat list" where
  "released p rs = map (\<lambda>r. case r of Blk b \<Rightarrow> b | _ \<Rightarrow> 0) (filter (\<lambda>r. r \<noteq> Blk 0 \<and> ref_cnt p r = 1) rs)"

lemma free_blocks_ok:
  assumes inv: "pool_inv p" and fr: "freeable p rs"
  shows "\<exists>p'. free_blocks p rs = Inr p' \<and> pool_inv p' \<and> pool_frame p' = pool_frame p \<and> block_hash p' = block_hash p
     \<and> cached_block_hash_to_block p' = cached_block_hash_to_block p
     \<and> ref_cnt p' = (\<lambda>r. ref_cnt p r - int (count_list rs r))
     \<and> (\<forall>xs. dll (free_block_queue p) xs \<longrightarrow> dll (free_block_queue p') (xs @ released p rs))"
proof -
  have acc: "fq.accounts (free_block_queue p) (usable p) (\<lambda>b. ref_cnt p (Blk b))" and pos: "\<forall>b\<in>usable p. ref_cnt p (Blk b) \<ge> 0"
    and wf: "pool_wf p" and ci: "cache_inv p" using inv by (auto simp: pool_inv_def refs_inv_def)
  let ?bs = "released p rs" and ?rc = "\<lambda>r. ref_cnt p r - int (count_list rs r)"
  have null: "is_null p r \<longleftrightarrow> r = Blk 0" for r using wf by (simp add: pool_wf_def)
  have cnt: "count_list rs r = (if r \<in> set rs then 1 else 0)" if "r \<noteq> Blk 0" for r
    using count_list_distinct_filter[of "\<lambda>r. r \<noteq> Blk 0" rs r] fr that by (simp add: freeable_def)
  have blk: "\<exists>b\<in>usable p. r = Blk b" if "r \<in> set rs" "r \<noteq> Blk 0" for r
    using fr that by (auto simp: freeable_def pool_blocks_def)
  have eqf: "filter (\<lambda>r. ?rc r = 0 \<and> \<not> is_null p r) rs = filter (\<lambda>r. r \<noteq> Blk 0 \<and> ref_cnt p r = 1) rs"
    by (rule filter_cong) (auto simp: null cnt)
  have "map Blk ?bs = map id (filter (\<lambda>r. r \<noteq> Blk 0 \<and> ref_cnt p r = 1) rs)"
    unfolding released_def map_map
    by (rule map_cong) (auto dest!: blk)
  then have mb: "map Blk ?bs = filter (\<lambda>r. ?rc r = 0 \<and> \<not> is_null p r) rs" using eqf by simp
  have "distinct (filter (\<lambda>r. ref_cnt p r = 1) (filter (\<lambda>r. r \<noteq> Blk 0) rs))"
    by (rule distinct_filter) (use fr in \<open>simp only: freeable_def\<close>)
  then have "distinct (map Blk ?bs)" unfolding mb eqf filter_filter by (simp add: conj_commute)
  then have dbs: "distinct ?bs" by (simp add: distinct_map)
  have sb: "Blk b \<in> set rs \<and> b \<in> usable p \<and> ref_cnt p (Blk b) = 1" if "b \<in> set ?bs" for b
  proof -
    have "Blk b \<in> set (map Blk ?bs)" using that by simp
    then have "Blk b \<in> set rs" "Blk b \<noteq> Blk 0" "ref_cnt p (Blk b) = 1" unfolding mb eqf by auto
    with blk[of "Blk b"] show ?thesis by auto
  qed
  have bs_iff: "b \<in> set ?bs \<longleftrightarrow> Blk b \<in> set rs \<and> ref_cnt p (Blk b) = 1" if "b \<in> usable p" for b
  proof -
    have "b \<noteq> 0" using that by (simp add: usable_def)
    have "b \<in> set ?bs \<longleftrightarrow> Blk b \<in> set (map Blk ?bs)" by auto
    then show ?thesis using \<open>b \<noteq> 0\<close> unfolding mb eqf by auto
  qed
  obtain q where q: "append_n (free_block_queue p) (map Blk ?bs) = Inr q"
    and acc': "fq.accounts q (usable p) (\<lambda>b. if b \<in> set ?bs then 0 else ref_cnt p (Blk b))"
    using fq.accounts_back[OF acc dbs] sb by fastforce
  define p' where "p' = p\<lparr>ref_cnt := ?rc, free_block_queue := q\<rparr>"
  have f: "free_blocks p rs = Inr p'"
    using q by (simp add: free_blocks_def Let_def fold_decrement mb p'_def)
  have pf: "pool_frame p' = pool_frame p" by (simp add: p'_def pool_frame_def)
  have pos': "0 \<le> ?rc (Blk b)" and rc0: "(if b \<in> set ?bs then 0 else ref_cnt p (Blk b)) = 0 \<longleftrightarrow> ?rc (Blk b) = 0"
    if b: "b \<in> usable p" for b
    using bs_iff[OF b] cnt[of "Blk b"] fr b pos by (auto simp: freeable_def usable_def)
  have "fq.accounts q (usable p) (\<lambda>b. ?rc (Blk b))" by (rule fq.accounts_cong[OF acc']) (rule rc0)
  then have "refs_inv p'"
    by (intro refs_invI[where rc = "\<lambda>b. ?rc (Blk b)"]) (use pos' in \<open>auto simp: pool_frame_usable[OF pf], auto simp: p'_def\<close>)
  moreover have "cache_inv p'" by (rule cache_inv_cong[OF ci pf]) (simp_all add: p'_def)
  ultimately have inv': "pool_inv p'" using pool_frame_wf[OF pf wf] by (simp add: pool_inv_def)
  have "dll q (xs @ ?bs)" if xs: "dll (free_block_queue p) xs" for xs
  proof -
    from acc obtain ys where ys: "dll (free_block_queue p) ys" "set ys = {b \<in> usable p. ref_cnt p (Blk b) = 0}"
      by (auto simp: fq.accounts_def)
    have "map Blk xs = map Blk ys" using dll_get_all[OF xs] dll_get_all[OF ys(1)] by simp
    then have "xs = ys" by (simp add: inj_map_eq_map inj_def)
    then have "distinct (xs @ ?bs)" using xs ys dbs sb by (auto simp: dll_def)
    from dll_append_n[OF xs this] show ?thesis using q by auto
  qed
  then show ?thesis using f inv' pf by (intro exI[of _ p']) (auto simp: p'_def)
qed

section \<open>Prefix cache\<close>

lemma update_fresh: "k \<notin> fst ` set al \<Longrightarrow> AList.update k v al = al @ [(k, v)]"
  by (induction al) auto

lemma cache_insert:
  assumes inv: "cache_inv p" and en: "enable_caching p" and b: "b \<in> usable p" "block_hash p (Blk b) = None"
  shows "cache_inv (p\<lparr>block_hash := (block_hash p)(Blk b \<mapsto> key),
     cached_block_hash_to_block := (cached_block_hash_to_block p)(key \<mapsto> AList.update (int b) (Blk b)
       (case cached_block_hash_to_block p key of None \<Rightarrow> [] | Some d \<Rightarrow> d))\<rparr>)" (is "cache_inv ?p")
proof -
  let ?d = "case cached_block_hash_to_block p key of None \<Rightarrow> [] | Some d \<Rightarrow> d"
  have d: "distinct (map fst ?d)" "\<And>x. x \<in> set ?d \<Longrightarrow> \<exists>b\<in>usable p. x = (int b, Blk b) \<and> block_hash p (Blk b) = Some key"
    using cache_invD1[OF inv, of key] by (cases "cached_block_hash_to_block p key"; simp)+
  have nb: "int b \<notin> fst ` set ?d" using d(2) b(2) by fastforce
  then have u: "AList.update (int b) (Blk b) ?d = ?d @ [(int b, Blk b)]" by (rule update_fresh)
  have 1: "e \<noteq> [] \<and> distinct (map fst e) \<and> (\<forall>y\<in>set e. \<exists>b'\<in>usable p. y = (int b', Blk b') \<and> block_hash ?p (Blk b') = Some k)"
    if e: "cached_block_hash_to_block ?p k = Some e" for k e
  proof (cases "k = key")
    case True
    then have ed: "e = ?d @ [(int b, Blk b)]" using e u by simp
    have "\<exists>b'\<in>usable p. y = (int b', Blk b') \<and> block_hash ?p (Blk b') = Some k" if "y \<in> set e" for y
      using that b d(2)[of y] unfolding ed by (cases "y \<in> set ?d") (auto simp: True)
    then show ?thesis using nb d(1) by (simp add: ed)
  next
    case False
    then have "cached_block_hash_to_block p k = Some e" using e by simp
    then show ?thesis using cache_invD1[OF inv] b by (auto, metis option.distinct(1))
  qed
  have 2: "\<exists>b'\<in>usable p. r = Blk b' \<and> (\<exists>e. cached_block_hash_to_block ?p k = Some e \<and> (int b', Blk b') \<in> set e)"
    if r: "block_hash ?p r = Some k" for r k
  proof (cases "r = Blk b")
    case True
    then show ?thesis using r b u by auto
  next
    case False
    then have "block_hash p r = Some k" using r by simp
    from cache_invD2[OF inv this] show ?thesis using u by (cases "k = key") auto
  qed
  have "usable ?p = usable p" "enable_caching ?p" using en by (simp_all add: usable_def)
  then show ?thesis using 1 2 unfolding cache_inv_def by simp
qed

definition group_key :: "byte_list \<Rightarrow> int \<Rightarrow> byte_list" where
  "group_key h g = (case make_block_hash_with_group_id h g of Inr key \<Rightarrow> key | Inl _ \<Rightarrow> [])"

lemma make_group_key: "0 \<le> g \<Longrightarrow> g < 2 ^ 32 \<Longrightarrow> make_block_hash_with_group_id h g = Inr (group_key h g)"
  by (simp add: group_key_def make_block_hash_with_group_id_def to_bytes4_def)

lemma group_key_eq_iff:
  "0 \<le> g \<Longrightarrow> g < 2 ^ 32 \<Longrightarrow> 0 \<le> g' \<Longrightarrow> g' < 2 ^ 32 \<Longrightarrow> group_key h g = group_key h' g' \<longleftrightarrow> h = h' \<and> g = g'"
  using group_key_inject[of h g "group_key h g" h' g'] make_group_key by metis

lemma cache_loop_ok:
  "cache_inv p \<Longrightarrow> enable_caching p \<Longrightarrow> 0 \<le> g \<Longrightarrow> g < 2 ^ 32 \<Longrightarrow> distinct rs \<Longrightarrow> set rs \<subseteq> Blk ` usable p \<Longrightarrow>
   \<forall>r\<in>set rs. block_hash p r = None \<Longrightarrow> length rs \<le> length hs \<Longrightarrow>
   \<exists>p'. cache_loop p g rs hs = Inr p' \<and> cache_inv p' \<and> pool_frame p' = pool_frame p
     \<and> free_block_queue p' = free_block_queue p \<and> ref_cnt p' = ref_cnt p \<and> kv_event_queue p' = kv_event_queue p
     \<and> (\<forall>i<length rs. block_hash p' (rs ! i) = Some (group_key (hs ! i) g))
     \<and> (\<forall>r. r \<notin> set rs \<longrightarrow> block_hash p' r = block_hash p r)"
proof (induction rs arbitrary: p hs)
  case (Cons r rs)
  obtain h hs' where hs: "hs = h # hs'" using Cons.prems(8) by (cases hs) auto
  obtain b where b: "r = Blk b" "b \<in> usable p" "block_hash p (Blk b) = None" using Cons.prems(6,7) by auto
  define p1 where "p1 = p\<lparr>block_hash := (block_hash p)(Blk b \<mapsto> group_key h g),
     cached_block_hash_to_block := (cached_block_hash_to_block p)(group_key h g \<mapsto> AList.update (int b) (Blk b)
       (case cached_block_hash_to_block p (group_key h g) of None \<Rightarrow> [] | Some d \<Rightarrow> d))\<rparr>"
  have f: "pool_frame p1 = pool_frame p" by (simp add: p1_def pool_frame_def)
  have ci: "cache_inv p1" unfolding p1_def by (rule cache_insert[OF Cons.prems(1,2) b(2,3)])
  have "\<exists>p'. cache_loop p1 g rs hs' = Inr p' \<and> cache_inv p' \<and> pool_frame p' = pool_frame p1
     \<and> free_block_queue p' = free_block_queue p1 \<and> ref_cnt p' = ref_cnt p1 \<and> kv_event_queue p' = kv_event_queue p1
     \<and> (\<forall>i<length rs. block_hash p' (rs ! i) = Some (group_key (hs' ! i) g))
     \<and> (\<forall>r. r \<notin> set rs \<longrightarrow> block_hash p' r = block_hash p1 r)"
    by (rule Cons.IH[OF ci]) (use Cons.prems hs b in \<open>auto simp: p1_def usable_def\<close>)
  then obtain p' where p': "cache_loop p1 g rs hs' = Inr p'" "cache_inv p'" "pool_frame p' = pool_frame p1"
    "free_block_queue p' = free_block_queue p1" "ref_cnt p' = ref_cnt p1" "kv_event_queue p' = kv_event_queue p1"
    "\<forall>i<length rs. block_hash p' (rs ! i) = Some (group_key (hs' ! i) g)"
    "\<forall>r. r \<notin> set rs \<longrightarrow> block_hash p' r = block_hash p1 r" by blast
  have "cache_loop p g (r # rs) hs = Inr p'"
    using p'(1) b make_group_key[OF Cons.prems(3,4), of h] by (simp add: hs p1_def)
  moreover have "block_hash p' ((r # rs) ! i) = Some (group_key (hs ! i) g)" if "i < length (r # rs)" for i
    using that p'(7,8) Cons.prems(5) by (cases i) (auto simp: hs b p1_def)
  moreover have "block_hash p' r' = block_hash p r'" if "r' \<notin> set (r # rs)" for r'
    using that p'(8) by (auto simp: p1_def b)
  ultimately show ?case using p'(2-6) f by (intro exI[of _ p']) (simp add: p1_def)
qed simp

lemma get_cached_block_ok:
  assumes inv: "cache_inv p"
  shows "\<forall>g\<in>set gs. 0 \<le> g \<and> g < 2 ^ 32 \<Longrightarrow>
    (case get_cached_block p h gs of
       Inr (Some rs) \<Rightarrow> list_all2 (\<lambda>r g. r \<in> Blk ` usable p \<and> block_hash p r = Some (group_key h g)) rs gs
     | Inr None \<Rightarrow> \<exists>g\<in>set gs. \<forall>r. block_hash p r \<noteq> Some (group_key h g)
     | Inl _ \<Rightarrow> False)"
proof (induction gs)
  case (Cons g gs)
  have mk: "make_block_hash_with_group_id h g = Inr (group_key h g)" using Cons.prems by (intro make_group_key) auto
  show ?case
  proof (cases "cached_block_hash_to_block p (group_key h g)")
    case None
    then have "block_hash p r \<noteq> Some (group_key h g)" for r using cache_invD2[OF inv] by fastforce
    then show ?thesis using None mk by simp
  next
    case (Some d)
    then obtain x d' where d: "d = x # d'" using cache_invD1(1)[OF inv Some] by (cases d) auto
    from cache_invD1(2)[OF inv Some, of x] have x: "snd x \<in> Blk ` usable p \<and> block_hash p (snd x) = Some (group_key h g)"
      by (auto simp: d)
    have IH: "case get_cached_block p h gs of
       Inr (Some rs) \<Rightarrow> list_all2 (\<lambda>r g. r \<in> Blk ` usable p \<and> block_hash p r = Some (group_key h g)) rs gs
     | Inr None \<Rightarrow> \<exists>g\<in>set gs. \<forall>r. block_hash p r \<noteq> Some (group_key h g)
     | Inl _ \<Rightarrow> False" using Cons.IH Cons.prems by simp
    show ?thesis
    proof (cases "get_cached_block p h gs")
      case (Inl e)
      then show ?thesis using IH by simp
    next
      case (Inr res)
      then show ?thesis using IH Some mk x by (cases res) (auto simp: d)
    qed
  qed
qed simp

text \<open>What a caller of \<open>cache_full_blocks\<close> guarantees: the new full blocks are distinct usable blocks without
  a hash, and there is a hash for each.\<close>

definition cacheable :: "block_pool \<Rightarrow> request \<Rightarrow> bref list \<Rightarrow> nat \<Rightarrow> nat \<Rightarrow> int \<Rightarrow> bool" where
  "cacheable p r blocks nc nf g \<longleftrightarrow> enable_caching p \<and> 0 \<le> g \<and> g < 2 ^ 32 \<and> nf \<le> length (block_hashes r)
     \<and> nf \<le> length blocks \<and> nc \<le> nf
     \<and> distinct (drop nc (take nf blocks)) \<and> set (drop nc (take nf blocks)) \<subseteq> Blk ` usable p
     \<and> (\<forall>b\<in>set (drop nc (take nf blocks)). block_hash p b = None)"

lemma cache_full_blocks_loop:
  assumes inv: "pool_inv p" and c: "cacheable p r blocks nc nf g"
  obtains p' where "cache_loop p g (drop nc (take nf blocks)) (drop nc (block_hashes r)) = Inr p'" "pool_inv p'"
    "pool_frame p' = pool_frame p" "free_block_queue p' = free_block_queue p" "ref_cnt p' = ref_cnt p"
    "kv_event_queue p' = kv_event_queue p"
    "\<And>i. nc \<le> i \<Longrightarrow> i < nf \<Longrightarrow> block_hash p' (blocks ! i) = Some (group_key (block_hashes r ! i) g)"
    "\<And>b. b \<notin> set (drop nc (take nf blocks)) \<Longrightarrow> block_hash p' b = block_hash p b"
proof -
  let ?new = "drop nc (take nf blocks)"
  have ci: "cache_inv p" and wf: "pool_wf p" and ri: "refs_inv p" using inv by (auto simp: pool_inv_def)
  have "length ?new \<le> length (drop nc (block_hashes r))" using c by (auto simp: cacheable_def)
  with cache_loop_ok[OF ci, of g ?new "drop nc (block_hashes r)"] c obtain p' where
    l: "cache_loop p g ?new (drop nc (block_hashes r)) = Inr p'" "cache_inv p'" "pool_frame p' = pool_frame p"
    "free_block_queue p' = free_block_queue p" "ref_cnt p' = ref_cnt p" "kv_event_queue p' = kv_event_queue p"
    and h: "\<forall>i<length ?new. block_hash p' (?new ! i) = Some (group_key (drop nc (block_hashes r) ! i) g)"
    and o: "\<forall>b. b \<notin> set ?new \<longrightarrow> block_hash p' b = block_hash p b"
    unfolding cacheable_def by blast
  have "refs_inv p'" using ri l pool_frame_usable[OF l(3)] by (simp add: refs_inv_def)
  then have "pool_inv p'" using l pool_frame_wf[OF l(3) wf] by (simp add: pool_inv_def)
  moreover have "block_hash p' (blocks ! i) = Some (group_key (block_hashes r ! i) g)" if "nc \<le> i" "i < nf" for i
    using h[rule_format, of "i - nc"] c that by (auto simp: cacheable_def)
  ultimately show ?thesis using l o that by blast
qed

lemma pool_inv_events: "pool_inv (p\<lparr>kv_event_queue := es\<rparr>) = pool_inv p"
proof -
  have "usable (p\<lparr>kv_event_queue := es\<rparr>) = usable p" by (simp add: usable_def)
  then show ?thesis by (simp add: pool_inv_def pool_wf_def refs_inv_def cache_inv_def)
qed

lemma cache_full_blocks_inv:
  assumes "pool_inv p" "cacheable p r blocks nc nf g" "cache_full_blocks p r blocks nc nf bs g = Inr p'"
  shows "pool_inv p' \<and> pool_frame p' = pool_frame p \<and> ref_cnt p' = ref_cnt p \<and> free_block_queue p' = free_block_queue p
    \<and> (\<forall>i. nc \<le> i \<longrightarrow> i < nf \<longrightarrow> block_hash p' (blocks ! i) = Some (group_key (block_hashes r ! i) g))
    \<and> (\<forall>b. b \<notin> set (drop nc (take nf blocks)) \<longrightarrow> block_hash p' b = block_hash p b)"
proof (cases "nc = nf")
  case True
  then show ?thesis using assms by (simp add: cache_full_blocks_def)
next
  case False
  from cache_full_blocks_loop[OF assms(1,2)] obtain p1 where
    l: "cache_loop p g (drop nc (take nf blocks)) (drop nc (block_hashes r)) = Inr p1" "pool_inv p1"
    "pool_frame p1 = pool_frame p" "free_block_queue p1 = free_block_queue p" "ref_cnt p1 = ref_cnt p"
    "kv_event_queue p1 = kv_event_queue p"
    "\<And>i. nc \<le> i \<Longrightarrow> i < nf \<Longrightarrow> block_hash p1 (blocks ! i) = Some (group_key (block_hashes r ! i) g)"
    "\<And>b. b \<notin> set (drop nc (take nf blocks)) \<Longrightarrow> block_hash p1 b = block_hash p b" by blast
  have "\<exists>es. p' = p1\<lparr>kv_event_queue := es\<rparr>"
  proof (cases "enable_kv_cache_events p1")
    case True
    then show ?thesis using assms(3) l(1) False by (auto simp: cache_full_blocks_def result_simps split: if_splits)
  next
    case off: False
    then have "p' = p1\<lparr>kv_event_queue := kv_event_queue p1\<rparr>"
      using assms(3) l(1) False by (auto simp: cache_full_blocks_def split: if_splits)
    then show ?thesis by blast
  qed
  then obtain es where p': "p' = p1\<lparr>kv_event_queue := es\<rparr>" by blast
  show ?thesis using l by (auto simp: p' pool_inv_events pool_frame_def)
qed

section \<open>Construction and reset\<close>

lemma init_pool_inv:
  assumes "init_pool n c e u = Inr p"
  shows "pool_inv p \<and> num_gpu_blocks p = n \<and> n > 0"
proof -
  have n: "n > 0" using assms by (auto simp: init_pool_def split: if_splits)
  then have "[0..<nat n] = 0 # [1..<nat n]" by (simp add: upt_rec)
  then have "dll (init_queue (nat n)) (0 # [1..<nat n])" using dll_init_queue[of "nat n"] by simp
  from dll_popleft[OF this] obtain q where q: "popleft (init_queue (nat n)) = Inr (Blk 0, q)" "dll q [1..<nat n]" by blast
  have p: "p = \<lparr>num_gpu_blocks = n, enable_caching = c, ref_cnt = (\<lambda>_. 0), block_hash = (\<lambda>_. None),
     is_null = (\<lambda>_. False)(Blk 0 := True), free_block_queue = q, cached_block_hash_to_block = Map.empty,
     null_block = Blk 0, enable_kv_cache_events = e, kv_event_queue = [], use_int_hashes = u\<rparr>"
    using assms n q(1) by (simp add: init_pool_def)
  have "fq.accounts q {1..<nat n} (\<lambda>b. 0)" by (rule fq.accountsI[OF q(2)]) auto
  then show ?thesis using n by (auto simp: p pool_inv_def pool_wf_def refs_inv_def cache_inv_def usable_def)
qed

lemma all_free_iff:
  assumes inv: "pool_inv p"
  shows "num_gpu_blocks p - get_num_free_blocks p = 1 \<longleftrightarrow> (\<forall>b\<in>usable p. ref_cnt p (Blk b) = 0)"
proof -
  have n: "num_gpu_blocks p > 0" using inv by (simp add: pool_inv_def pool_wf_def)
  have c: "card (usable p) = nat (num_gpu_blocks p) - 1" and fin: "finite (usable p)" by (simp_all add: usable_def)
  have "num_gpu_blocks p - get_num_free_blocks p = 1 \<longleftrightarrow> card {b \<in> usable p. ref_cnt p (Blk b) = 0} = card (usable p)"
    using n c num_free_blocks_card[OF inv] by linarith
  also have "\<dots> \<longleftrightarrow> {b \<in> usable p. ref_cnt p (Blk b) = 0} = usable p"
    using fin card_subset_eq[of "usable p" "{b \<in> usable p. ref_cnt p (Blk b) = 0}"] by auto
  finally show ?thesis by auto
qed

lemma reset_prefix_cache_ok:
  assumes inv: "pool_inv p"
  shows "fst (reset_prefix_cache p) \<longleftrightarrow> (\<forall>b\<in>usable p. ref_cnt p (Blk b) = 0)"
    and "pool_inv (snd (reset_prefix_cache p))"
    and "fst (reset_prefix_cache p) \<Longrightarrow> block_hash (snd (reset_prefix_cache p)) = (\<lambda>_. None)"
    and "ref_cnt (snd (reset_prefix_cache p)) = ref_cnt p"
proof -
  let ?h = "\<lambda>r. case r of Blk i \<Rightarrow> if int i < num_gpu_blocks p then None else block_hash p r | _ \<Rightarrow> block_hash p r"
  have h: "?h = (\<lambda>_. None)"
  proof
    fix r show "?h r = None"
      using cache_invD2[of p r] inv by (cases "block_hash p r") (auto simp: pool_inv_def usable_def split: bref.split)
  qed
  show "fst (reset_prefix_cache p) \<longleftrightarrow> (\<forall>b\<in>usable p. ref_cnt p (Blk b) = 0)"
    using all_free_iff[OF inv] by (simp add: reset_prefix_cache_def Let_def)
  have u: "usable (p\<lparr>cached_block_hash_to_block := Map.empty, block_hash := \<lambda>_. None\<rparr>) = usable p" by (simp add: usable_def)
  have "pool_inv (p\<lparr>cached_block_hash_to_block := Map.empty, block_hash := \<lambda>_. None\<rparr>)"
    using inv by (simp add: pool_inv_def pool_wf_def refs_inv_def cache_inv_def u)
  then show "pool_inv (snd (reset_prefix_cache p))"
    using inv unfolding reset_prefix_cache_def h Let_def by (simp add: pool_inv_events)
  show "fst (reset_prefix_cache p) \<Longrightarrow> block_hash (snd (reset_prefix_cache p)) = (\<lambda>_. None)"
    unfolding reset_prefix_cache_def h Let_def by (auto split: if_splits)
  show "ref_cnt (snd (reset_prefix_cache p)) = ref_cnt p" by (simp add: reset_prefix_cache_def Let_def)
qed

lemma reset_num_gpu_blocks [simp]: "num_gpu_blocks (snd (reset_prefix_cache p)) = num_gpu_blocks p"
  by (simp add: reset_prefix_cache_def Let_def)

lemma init_pool_total:
  assumes n: "n > 0"
  shows "\<exists>p. init_pool n c e u = Inr p \<and> dll (free_block_queue p) [1..<nat n] \<and> enable_caching p = c
    \<and> enable_kv_cache_events p = e \<and> ref_cnt p = (\<lambda>_. 0) \<and> block_hash p = (\<lambda>_. None)"
proof -
  have "[0..<nat n] = 0 # [1..<nat n]" using n by (simp add: upt_rec)
  then have "dll (init_queue (nat n)) (0 # [1..<nat n])" using dll_init_queue[of "nat n"] by simp
  from dll_popleft[OF this] obtain q where "popleft (init_queue (nat n)) = Inr (Blk 0, q)" "dll q [1..<nat n]" by blast
  then show ?thesis using n by (simp add: init_pool_def)
qed

end
