(* ===== verification/Pool_Run.thy ===== *)
theory Pool_Run
  imports Block_Pool
begin

text \<open>
  Life of a block pool: every sequence of allocations, prefix hits, releases, cachings, resets and event
  polls, in any order, as an inductive relation; the accounting and the prefix cache stay correct in every
  reachable state.
\<close>

inductive pool_run :: "int \<Rightarrow> bool \<Rightarrow> bool \<Rightarrow> bool \<Rightarrow> block_pool \<Rightarrow> bool"
  for n :: int and caching events use_int :: bool where
  start: "init_pool n caching events use_int = Inr p \<Longrightarrow> pool_run n caching events use_int p"
| alloc: "pool_run n caching events use_int p \<Longrightarrow> get_new_blocks p k = Inr (bs, p') \<Longrightarrow> pool_run n caching events use_int p'"
| hit: "pool_run n caching events use_int p \<Longrightarrow> \<forall>rs\<in>set gs. set rs \<subseteq> pool_blocks p \<Longrightarrow> touch p gs = Inr p'
    \<Longrightarrow> pool_run n caching events use_int p'"
| release: "pool_run n caching events use_int p \<Longrightarrow> freeable p rs \<Longrightarrow> free_blocks p rs = Inr p'
    \<Longrightarrow> pool_run n caching events use_int p'"
| cache: "pool_run n caching events use_int p \<Longrightarrow> cacheable p r blocks nc nf g
    \<Longrightarrow> cache_full_blocks p r blocks nc nf bs g = Inr p' \<Longrightarrow> pool_run n caching events use_int p'"
| reset: "pool_run n caching events use_int p \<Longrightarrow> reset_prefix_cache p = (ok, p') \<Longrightarrow> pool_run n caching events use_int p'"
| poll: "pool_run n caching events use_int p \<Longrightarrow> take_events p = (es, p') \<Longrightarrow> pool_run n caching events use_int p'"

lemma get_new_blocks_short: "int k > get_num_free_blocks p \<Longrightarrow> get_new_blocks p k = Inl ValueError"
  by (simp add: get_new_blocks_def)

lemma pool_run_inv: "pool_run n caching events use_int p \<Longrightarrow> pool_inv p \<and> num_gpu_blocks p = n"
proof (induction rule: pool_run.induct)
  case (start p)
  then show ?case using init_pool_inv by blast
next
  case (alloc p k bs p')
  then have "int k \<le> get_num_free_blocks p" using get_new_blocks_short[of p k] by (cases "int k \<le> get_num_free_blocks p") auto
  with get_new_blocks_ok[of p k] alloc show ?case by (auto simp: pool_frame_def)
next
  case (hit p gs p')
  with touch_ok[of p gs] show ?case by (auto simp: pool_frame_def)
next
  case (release p rs p')
  with free_blocks_ok[of p rs] show ?case by (auto simp: pool_frame_def)
next
  case (cache p r blocks nc nf g bs p')
  have "pool_inv p" using cache.IH by simp
  note c = cache_full_blocks_inv[OF this cache.hyps(2,3)]
  have "pool_inv p'" "pool_frame p' = pool_frame p" using c by simp_all
  then show ?case using cache.IH by (simp add: pool_frame_def)
next
  case (reset p ok p')
  then have p': "p' = snd (reset_prefix_cache p)" by simp
  have "pool_inv p" "num_gpu_blocks p = n" using reset.IH by simp_all
  then show ?case using reset_prefix_cache_ok(2)[of p] by (simp add: p')
next
  case (poll p es p')
  then show ?case by (auto simp: take_events_def pool_inv_events split: if_splits)
qed

lemma pool_run_events:
  "pool_run n caching events use_int p \<Longrightarrow> enable_kv_cache_events p = events"
proof (induction rule: pool_run.induct)
  case (start p)
  then show ?case by (auto simp: init_pool_def result_simps split: if_splits)
next
  case (alloc p k bs p')
  then have inv: "pool_inv p" using pool_run_inv by blast
  have "int k \<le> get_num_free_blocks p" using alloc get_new_blocks_short[of p k] by (cases "int k \<le> get_num_free_blocks p") auto
  with get_new_blocks_ok[OF inv, of k] alloc show ?case by (auto simp: pool_frame_def)
next
  case (hit p gs p')
  then have "pool_inv p" using pool_run_inv by blast
  from touch_ok[OF this hit.hyps(2)] hit show ?case by (auto simp: pool_frame_def)
next
  case (release p rs p')
  then have "pool_inv p" using pool_run_inv by blast
  from free_blocks_ok[OF this release.hyps(2)] release show ?case by (auto simp: pool_frame_def)
next
  case (cache p r blocks nc nf g bs p')
  then have "pool_inv p" using pool_run_inv by blast
  note c = cache_full_blocks_inv[OF this cache.hyps(2,3)]
  have "pool_frame p' = pool_frame p" using c by simp
  then show ?case using cache.IH by (simp add: pool_frame_def)
next
  case (reset p ok p')
  then show ?case by (auto simp: reset_prefix_cache_def Let_def split: if_splits)
next
  case (poll p es p')
  then show ?case by (auto simp: take_events_def split: if_splits)
qed

lemma accounts_queue:
  assumes "fq.accounts q B rc"
  shows "\<exists>xs. get_all_free_blocks q = Some (Inr (map Blk xs)) \<and> distinct xs \<and> set xs = {b \<in> B. rc b = 0}
    \<and> num_free_blocks q = int (length xs)"
  using assms dll_get_all by (auto simp: fq.accounts_def dll_def)

text \<open>C13. In every reachable state of a pool of \<open>n\<close> blocks the free queue walks (and the walk ends) through
  exactly the blocks 1 to \<open>n - 1\<close> whose reference count is 0, each once; counts are never negative; the number
  of free blocks plus the number of blocks in use is \<open>n - 1\<close>; the null block is in neither the queue nor the
  prefix cache; and a block is found in the prefix cache under a key if and only if it carries that key.\<close>

theorem pool_accounting:
  assumes "pool_run n caching events use_int p"
  shows "(\<exists>xs. get_all_free_blocks (free_block_queue p) = Some (Inr (map Blk xs)) \<and> distinct xs
        \<and> set xs = {b. 1 \<le> b \<and> int b < n \<and> ref_cnt p (Blk b) = 0})
    \<and> (\<forall>b. 1 \<le> b \<longrightarrow> int b < n \<longrightarrow> 0 \<le> ref_cnt p (Blk b))
    \<and> get_num_free_blocks p + int (card {b. 1 \<le> b \<and> int b < n \<and> 0 < ref_cnt p (Blk b)}) = n - 1
    \<and> block_hash p (null_block p) = None
    \<and> (\<forall>r key. block_hash p r = Some key \<longleftrightarrow>
         (\<exists>d. cached_block_hash_to_block p key = Some d \<and> (block_id r, r) \<in> set d))"
proof (intro conjI)
  have inv: "pool_inv p" and n: "num_gpu_blocks p = n" using pool_run_inv[OF assms] by auto
  then have acc: "fq.accounts (free_block_queue p) (usable p) (\<lambda>b. ref_cnt p (Blk b))"
    and pos: "\<forall>b\<in>usable p. ref_cnt p (Blk b) \<ge> 0" and wf: "pool_wf p" and ci: "cache_inv p"
    by (auto simp: pool_inv_def refs_inv_def)
  have u: "b \<in> usable p \<longleftrightarrow> 1 \<le> b \<and> int b < n" for b using n by (auto simp: usable_def)
  have uset: "usable p = {b. 1 \<le> b \<and> int b < n}" using u by blast
  show "\<exists>xs. get_all_free_blocks (free_block_queue p) = Some (Inr (map Blk xs)) \<and> distinct xs
        \<and> set xs = {b. 1 \<le> b \<and> int b < n \<and> ref_cnt p (Blk b) = 0}"
    using accounts_queue[OF acc] by (auto simp: u)
  show "\<forall>b. 1 \<le> b \<longrightarrow> int b < n \<longrightarrow> 0 \<le> ref_cnt p (Blk b)" using pos u by blast
  have "usable p = {b \<in> usable p. ref_cnt p (Blk b) = 0} \<union> {b \<in> usable p. 0 < ref_cnt p (Blk b)}" using pos by force
  then have "card (usable p) = card {b \<in> usable p. ref_cnt p (Blk b) = 0} + card {b \<in> usable p. 0 < ref_cnt p (Blk b)}"
    by (metis (mono_tags, lifting) Collect_disj_eq card_Un_disjoint disjoint_iff finite_Un mem_Collect_eq order_less_irrefl
        finite_atLeastLessThan usable_def)
  moreover have "card (usable p) = nat n - 1" "n > 0" using n wf by (simp_all add: usable_def pool_wf_def)
  moreover have "{b \<in> usable p. 0 < ref_cnt p (Blk b)} = {b. 1 \<le> b \<and> int b < n \<and> 0 < ref_cnt p (Blk b)}" using u by auto
  ultimately show "get_num_free_blocks p + int (card {b. 1 \<le> b \<and> int b < n \<and> 0 < ref_cnt p (Blk b)}) = n - 1"
    using num_free_blocks_card[OF inv] by (simp only:)
  have "null_block p = Blk 0" using wf by (simp add: pool_wf_def)
  then show "block_hash p (null_block p) = None"
    using cache_invD2[OF ci, of "Blk 0"] u by (cases "block_hash p (Blk 0)") auto
  show "\<forall>r key. block_hash p r = Some key \<longleftrightarrow>
      (\<exists>d. cached_block_hash_to_block p key = Some d \<and> (block_id r, r) \<in> set d)"
    using cache_invD2[OF ci] cache_invD1(2)[OF ci] by fastforce
qed

theorem pool_accounting_witness:
  "\<exists>p. init_pool 4 True False False = Inr p
    \<and> get_num_free_blocks p + int (card {b. 1 \<le> b \<and> int b < 4 \<and> 0 < ref_cnt p (Blk b)}) = 3
    \<and> block_hash p (null_block p) = None"
proof -
  obtain p where p: "init_pool 4 True False False = Inr p" using init_pool_total[of 4 True False False] by auto
  from pool_accounting[OF pool_run.start[OF p]] p show ?thesis by (intro exI[of _ p]) simp
qed

text \<open>C14. Allocation. As long as enough blocks are free, \<open>get_new_blocks\<close> returns that many distinct
  non-null blocks that nobody used, the first ones in eviction order, now with reference count 1 and without a
  hash; counts and hashes of all other blocks (in particular of every block in use) are untouched. If too few
  are free it raises and nothing changes.\<close>

theorem allocation_takes_unused_blocks:
  assumes "pool_run n caching events use_int p" and "dll (free_block_queue p) xs"
  shows "if k \<le> length xs
    then \<exists>p'. get_new_blocks p k = Inr (map Blk (take k xs), p') \<and> pool_run n caching events use_int p'
      \<and> get_num_free_blocks p' = get_num_free_blocks p - int k
      \<and> (\<forall>b\<in>set (take k xs). 1 \<le> b \<and> int b < n \<and> ref_cnt p (Blk b) = 0 \<and> ref_cnt p' (Blk b) = 1 \<and> block_hash p' (Blk b) = None)
      \<and> (\<forall>r. r \<notin> Blk ` set (take k xs) \<longrightarrow> ref_cnt p' r = ref_cnt p r \<and> block_hash p' r = block_hash p r)
    else get_new_blocks p k = Inl ValueError"
proof -
  have inv: "pool_inv p" and n: "num_gpu_blocks p = n" using pool_run_inv[OF assms(1)] by auto
  have nf: "get_num_free_blocks p = int (length xs)" using assms(2) by (simp add: dll_def get_num_free_blocks_def)
  show ?thesis
  proof (cases "k \<le> length xs")
    case True
    with get_new_blocks_ok[OF inv, of k] nf obtain bs p' where
      g: "get_new_blocks p k = Inr (map Blk bs, p')" "set bs \<subseteq> usable p" "\<forall>b\<in>set bs. ref_cnt p (Blk b) = 0" "pool_inv p'"
      "ref_cnt p' = (\<lambda>r. if r \<in> Blk ` set bs then 1 else ref_cnt p r)"
      "block_hash p' = (\<lambda>r. if r \<in> Blk ` set bs then None else block_hash p r)" by auto
    from dll_popleft_n[OF assms(2) True] obtain q where q: "popleft_n (free_block_queue p) k = Inr (map Blk (take k xs), q)"
      "dll q (drop k xs)" by blast
    have "map Blk bs = map Blk (take k xs)" and fq: "free_block_queue p' = q"
      using get_new_blocks_queue[OF g(1) q(1)] by simp_all
    then have bs: "bs = take k xs" by (simp add: inj_map_eq_map inj_def)
    have "get_num_free_blocks p' = get_num_free_blocks p - int k"
      using q(2) nf True by (simp add: get_num_free_blocks_def fq dll_def)
    moreover have "pool_run n caching events use_int p'" using pool_run.alloc[OF assms(1) g(1)] .
    ultimately show ?thesis using True g n unfolding bs by (fastforce simp: usable_def)
  next
    case False
    then show ?thesis using get_new_blocks_short nf by simp
  qed
qed


theorem allocation_takes_unused_blocks_witness:
  "\<exists>p p'. init_pool 4 True False False = Inr p \<and> get_new_blocks p 2 = Inr ([Blk 1, Blk 2], p')
    \<and> ref_cnt p' (Blk 1) = 1 \<and> ref_cnt p' (Blk 3) = ref_cnt p (Blk 3)
    \<and> get_new_blocks p 7 = Inl ValueError"
proof -
  have u: "[1..<nat 4] = [1, 2, 3]" by (simp add: upt_rec)
  obtain p where p: "init_pool 4 True False False = Inr p" "dll (free_block_queue p) [1, 2, 3]"
    using init_pool_total[of 4 True False False] unfolding u by auto
  note t = allocation_takes_unused_blocks[OF pool_run.start[OF p(1)] p(2)]
  from t[of 2] t[of 7] p show ?thesis by (auto simp: image_iff)
qed

text \<open>Releasing and sharing. Touching blocks on a prefix hit and freeing them again are exact inverses on
  the reference counts, no block loses its hash, and a block goes back to the queue exactly when its last
  reference is dropped: to the back, in the order of the list given (the caller's eviction priority), while
  every block still referenced stays out of the queue.\<close>

theorem release_returns_last_references:
  assumes run: "pool_run n caching events use_int p" and fr: "freeable p rs" and xs: "dll (free_block_queue p) xs"
  shows "\<exists>p'. free_blocks p rs = Inr p' \<and> pool_run n caching events use_int p' \<and> block_hash p' = block_hash p
    \<and> ref_cnt p' = (\<lambda>r. ref_cnt p r - int (count_list rs r))
    \<and> dll (free_block_queue p') (xs @ released p rs)
    \<and> (\<exists>p''. touch p' [rs] = Inr p'' \<and> pool_run n caching events use_int p'' \<and> ref_cnt p'' = ref_cnt p
         \<and> block_hash p'' = block_hash p)"
proof -
  have inv: "pool_inv p" using pool_run_inv[OF run] by simp
  from free_blocks_ok[OF inv fr] xs obtain p' where
    f: "free_blocks p rs = Inr p'" "pool_inv p'" "pool_frame p' = pool_frame p" "block_hash p' = block_hash p"
    "ref_cnt p' = (\<lambda>r. ref_cnt p r - int (count_list rs r))" "dll (free_block_queue p') (xs @ released p rs)" by blast
  have run': "pool_run n caching events use_int p'" using pool_run.release[OF run fr f(1)] .
  have sub: "\<forall>qs\<in>set [rs]. set qs \<subseteq> pool_blocks p'"
    using fr pool_frame_usable[OF f(3)] by (simp add: freeable_def pool_blocks_def)
  from touch_ok[OF f(2) sub] obtain p'' where t: "touch p' [rs] = Inr p''" "block_hash p'' = block_hash p'"
    "ref_cnt p'' = (\<lambda>r. ref_cnt p' r + int (count_list (concat [rs]) r))" by blast
  have "ref_cnt p'' = ref_cnt p" by (simp add: t(3) f(5))
  moreover have "pool_run n caching events use_int p''" using pool_run.hit[OF run' sub t(1)] .
  ultimately show ?thesis using f run' t by (intro exI[of _ p']) auto
qed

theorem release_returns_last_references_witness:
  "\<exists>p p1 p2. init_pool 4 True False False = Inr p \<and> get_new_blocks p 2 = Inr ([Blk 1, Blk 2], p1)
    \<and> free_blocks p1 [Blk 2, Blk 1] = Inr p2 \<and> dll (free_block_queue p2) [3, 2, 1]"
proof -
  have u: "[1..<nat 4] = [1, 2, 3]" by (simp add: upt_rec)
  obtain p where p: "init_pool 4 True False False = Inr p" "dll (free_block_queue p) [1, 2, 3]" "ref_cnt p = (\<lambda>_. 0)"
    using init_pool_total[of 4 True False False] unfolding u by auto
  have inv: "pool_inv p" "num_gpu_blocks p = 4" using init_pool_inv[OF p(1)] by auto
  have "int 2 \<le> get_num_free_blocks p" using p(2) by (simp add: get_num_free_blocks_def dll_def)
  from get_new_blocks_ok[OF inv(1) this] obtain bs p1 where
    g: "get_new_blocks p 2 = Inr (map Blk bs, p1)" "ref_cnt p1 = (\<lambda>r. if r \<in> Blk ` set bs then 1 else ref_cnt p r)"
    "pool_frame p1 = pool_frame p" by blast
  from dll_popleft_n[OF p(2), of 2] obtain q where q: "popleft_n (free_block_queue p) 2 = Inr ([Blk 1, Blk 2], q)" "dll q [3]"
    by auto
  have bs: "bs = [1, 2]" and fq: "free_block_queue p1 = q"
    using get_new_blocks_queue[OF g(1) q(1)] by (auto simp: map_eq_Cons_conv)
  have run: "pool_run 4 True False False p1" using pool_run.alloc[OF pool_run.start[OF p(1)] g(1)] .
  have "usable p1 = {1..<4}" using inv(2) unfolding pool_frame_usable[OF g(3)] by (simp add: usable_def)
  then have fr: "freeable p1 [Blk 2, Blk 1]" by (auto simp: freeable_def pool_blocks_def g(2) bs p(3))
  have "released p1 [Blk 2, Blk 1] = [2, 1]" by (simp add: released_def g(2) bs p(3))
  then show ?thesis using release_returns_last_references[OF run fr, of "[3]"] p(1) g(1) q(2) by (auto simp: bs fq)
qed

text \<open>Prefix lookups. In every reachable state \<open>get_cached_block\<close> returns one block per group, each usable
  and cached under exactly the given hash and that group, or reports a miss because for some group no block
  carries the hash; it never raises for group ids of four bytes.\<close>

theorem cached_block_lookup:
  assumes "pool_run n caching events use_int p" and "\<forall>g\<in>set gs. 0 \<le> g \<and> g < 2 ^ 32"
  shows "case get_cached_block p h gs of
       Inr (Some rs) \<Rightarrow> list_all2 (\<lambda>r g. r \<in> Blk ` usable p \<and> block_hash p r = Some (group_key h g)) rs gs
     | Inr None \<Rightarrow> \<exists>g\<in>set gs. \<forall>r. block_hash p r \<noteq> Some (group_key h g)
     | Inl _ \<Rightarrow> False"
  using get_cached_block_ok[OF _ assms(2)] pool_run_inv[OF assms(1)] by (simp add: pool_inv_def)

theorem cached_block_lookup_witness:
  "\<exists>p. init_pool 4 True False False = Inr p \<and> (\<forall>x. get_cached_block p [7] [0, 1] \<noteq> Inl x)"
proof -
  obtain p where p: "init_pool 4 True False False = Inr p" using init_pool_total[of 4 True False False] by auto
  have "\<forall>g\<in>set [0, 1::int]. 0 \<le> g \<and> g < 2 ^ 32" by simp
  from cached_block_lookup[OF pool_run.start[OF p] this, of "[7]"] p show ?thesis
    by (intro exI[of _ p]) (cases "get_cached_block p [7] [0, 1]"; simp)
qed

lemma usage_bounds:
  assumes inv: "pool_inv p"
  shows "0 \<le> get_usage p \<and> get_usage p \<le> 1" and "get_usage p = 0 \<longleftrightarrow> (\<forall>b\<in>usable p. ref_cnt p (Blk b) = 0)"
proof -
  have pos: "num_gpu_blocks p > 0" using inv by (simp add: pool_inv_def pool_wf_def)
  have "card {b \<in> usable p. ref_cnt p (Blk b) = 0} \<le> card (usable p)" by (intro card_mono) (auto simp: usable_def)
  then have b: "0 \<le> get_num_free_blocks p" "get_num_free_blocks p \<le> num_gpu_blocks p - 1"
    using num_free_blocks_card[OF inv] pos by (auto simp: usable_def)
  have "get_usage p = 0 \<longleftrightarrow> num_gpu_blocks p - get_num_free_blocks p = 1"
  proof (cases "num_gpu_blocks p = 1")
    case True
    then show ?thesis using b by (simp add: get_usage_def)
  next
    case False
    then show ?thesis by (auto simp: get_usage_def Let_def divide_eq_1_iff of_int_eq_iff)
  qed
  then show "get_usage p = 0 \<longleftrightarrow> (\<forall>b\<in>usable p. ref_cnt p (Blk b) = 0)" using all_free_iff[OF inv] by simp
  show "0 \<le> get_usage p \<and> get_usage p \<le> 1" using b pos by (auto simp: get_usage_def Let_def divide_le_eq_1)
qed

text \<open>Usage and reset. The reported usage lies between 0 and 1 and is 0 exactly when no block is in use
  (a pool of the null block alone reports 0); the prefix cache is reset exactly in that situation, after which no
  block carries a hash and every lookup in a non-empty list of groups misses.\<close>

theorem usage_and_reset:
  assumes run: "pool_run n caching events use_int p"
  shows "0 \<le> get_usage p \<and> get_usage p \<le> 1
    \<and> (get_usage p = 0 \<longleftrightarrow> fst (reset_prefix_cache p))
    \<and> (fst (reset_prefix_cache p) \<longleftrightarrow> (\<forall>b\<in>usable p. ref_cnt p (Blk b) = 0))
    \<and> (fst (reset_prefix_cache p) \<longrightarrow> block_hash (snd (reset_prefix_cache p)) = (\<lambda>_. None)
        \<and> (\<forall>h g gs. 0 \<le> g \<longrightarrow> g < 2 ^ 32 \<longrightarrow> get_cached_block (snd (reset_prefix_cache p)) h (g # gs) = Inr None))"
proof -
  have inv: "pool_inv p" using pool_run_inv[OF run] by auto
  have "get_cached_block (snd (reset_prefix_cache p)) h (g # gs) = Inr None"
    if "fst (reset_prefix_cache p)" "0 \<le> g" "g < 2 ^ 32" for h g gs
    using that make_group_key[of g h] by (auto simp: reset_prefix_cache_def Let_def split: if_splits)
  then show ?thesis using usage_bounds[OF inv] reset_prefix_cache_ok[OF inv] by simp
qed

theorem usage_and_reset_witness:
  "\<exists>p. init_pool 4 True False False = Inr p \<and> get_usage p = 0 \<and> fst (reset_prefix_cache p)"
proof -
  obtain p where p: "init_pool 4 True False False = Inr p" "ref_cnt p = (\<lambda>_. 0)" using init_pool_total[of 4 True False False] by auto
  from usage_and_reset[OF pool_run.start[OF p(1)]] p show ?thesis by (intro exI[of _ p]) simp
qed

text \<open>With cache events enabled, caching a full block of a LoRA request always raises: the event reads an
  attribute \<open>id\<close> that \<open>LoRARequest\<close> does not have. The blocks are registered in the cache before that.\<close>

theorem lora_events_raise:
  assumes "pool_run n True True use_int p" and "cacheable p r blocks 0 nf g" and "nf > 0" and "lora_request r = Some l"
  shows "cache_full_blocks p r blocks 0 nf bs g = Inl AttributeError"
proof -
  have inv: "pool_inv p" using pool_run_inv[OF assms(1)] by simp
  have ev: "enable_kv_cache_events p" using pool_run_events[OF assms(1)] by simp
  show ?thesis
  proof (rule cache_full_blocks_loop[OF inv assms(2)])
    fix p'
    assume l: "cache_loop p g (drop 0 (take nf blocks)) (drop 0 (block_hashes r)) = Inr p'" and f: "pool_frame p' = pool_frame p"
    have "enable_kv_cache_events p'" using f ev by (simp add: pool_frame_def)
    moreover have "nf \<le> length (block_hashes r)" using assms(2) by (simp add: cacheable_def)
    ultimately show ?thesis using l assms(3,4) by (simp add: cache_full_blocks_def stored_event_def)
  qed
qed

theorem lora_events_raise_witness:
  "\<exists>p. init_pool 4 True True False = Inr p
    \<and> cache_full_blocks p (demo_request\<lparr>block_hashes := [[7]], lora_request := Some 3\<rparr>) [Blk 1] 0 1 4 0 = Inl AttributeError"
proof -
  obtain p where p: "init_pool 4 True True False = Inr p" "enable_caching p" "block_hash p = (\<lambda>_. None)"
    using init_pool_total[of 4 True True False] by auto
  have "num_gpu_blocks p = 4" using init_pool_inv[OF p(1)] by simp
  then have "cacheable p (demo_request\<lparr>block_hashes := [[7]], lora_request := Some 3\<rparr>) [Blk 1] 0 1 0"
    using p by (simp add: cacheable_def usable_def)
  from lora_events_raise[OF pool_run.start[OF p(1)] this, of 3 4] p(1) show ?thesis by (intro exI[of _ p]) simp
qed

end
