(* ===== verification/KV_Spec.thy ===== *)
theory KV_Spec
  imports RQ_Prelude
begin

text \<open>
  \<open>vllm/v1/kv_cache_interface.py\<close>: the kinds of KV cache a layer can have (\<open>RabitQAttentionSpec\<close> among
  them), their page sizes and memory bounds, and the merging of the specs of several layers into the spec
  of a group. Classes are constructors; \<open>isinstance\<close> tests follow the class hierarchy of the source, in
  which \<open>RabitQAttentionSpec\<close> is a \<open>FullAttentionSpec\<close>.
\<close>

section \<open>Integer division\<close>

definition ceil_div :: "int \<Rightarrow> int \<Rightarrow> int" where
  "ceil_div a b = - (a div - b)"

definition cdiv :: "int \<Rightarrow> int \<Rightarrow> int result" where
  "cdiv a b = (if b = 0 then Inl ZeroDivisionError else Inr (ceil_div a b))"

definition floordiv :: "int \<Rightarrow> int \<Rightarrow> int result" where
  "floordiv a b = (if b = 0 then Inl ZeroDivisionError else Inr (a div b))"

lemma cdiv_pos [simp]: "b > 0 \<Longrightarrow> cdiv a b = Inr (ceil_div a b)"
  by (simp add: cdiv_def)

lemma floordiv_pos [simp]: "b > 0 \<Longrightarrow> floordiv a b = Inr (a div b)"
  by (simp add: floordiv_def)

lemma ceil_div_bounds:
  assumes "b > 0"
  shows "a \<le> ceil_div a b * b" and "ceil_div a b * b < a + b"
proof -
  have e: "ceil_div a b * b = - (- a div b * b)" by (simp add: ceil_div_def div_minus_right)
  have "- a div b * b + - a mod b = - a" by (rule div_mult_mod_eq)
  then show "a \<le> ceil_div a b * b" "ceil_div a b * b < a + b"
    using e pos_mod_bound[OF assms, of "- a"] pos_mod_sign[OF assms, of "- a"] by linarith+
qed

lemma ceil_div_least: "b > 0 \<Longrightarrow> ceil_div a b \<le> k \<longleftrightarrow> a \<le> k * b"
proof
  assume b: "b > 0"
  show "ceil_div a b \<le> k \<Longrightarrow> a \<le> k * b"
    using ceil_div_bounds(1)[OF b, of a] mult_right_mono[of "ceil_div a b" k b] b by linarith
  show "ceil_div a b \<le> k" if "a \<le> k * b"
  proof (rule ccontr)
    assume "\<not> ceil_div a b \<le> k"
    then have "(k + 1) * b \<le> ceil_div a b * b" using b by (intro mult_right_mono) auto
    then show False using ceil_div_bounds(2)[OF b, of a] that by (simp add: distrib_right)
  qed
qed

lemma ceil_div_mono: "b > 0 \<Longrightarrow> a \<le> a' \<Longrightarrow> ceil_div a b \<le> ceil_div a' b"
  using ceil_div_least[of b a "ceil_div a' b"] ceil_div_bounds(1)[of b a'] by linarith

lemma ceil_div_nonneg: "b > 0 \<Longrightarrow> 0 \<le> a \<Longrightarrow> 0 \<le> ceil_div a b"
  using ceil_div_mono[of b 0 a] by (simp add: ceil_div_def)

section \<open>Specs\<close>

definition get_dtype_size :: "dtype \<Rightarrow> int" where
  "get_dtype_size d = (case d of Float32 \<Rightarrow> 4 | Float16 \<Rightarrow> 2 | BFloat16 \<Rightarrow> 2)"

record attention_spec =
  sp_block_size :: int
  num_kv_heads :: int
  head_size :: int
  sp_dtype :: dtype
  use_mla :: bool

datatype kv_cache_spec =
    FullAttentionSpec attention_spec "int option" "int option"
  | RabitQAttentionSpec attention_spec "int option" "int option" "int option" "int option" "real option"
  | ChunkedLocalAttentionSpec attention_spec int
  | SlidingWindowSpec attention_spec int
  | MambaSpec int "(int list \<times> dtype) list" "int option" string int
  | EncoderOnlyAttentionSpec attention_spec
  | CrossAttentionSpec attention_spec

fun spec_block_size :: "kv_cache_spec \<Rightarrow> int" where
  "spec_block_size (FullAttentionSpec a _ _) = sp_block_size a"
| "spec_block_size (RabitQAttentionSpec a _ _ _ _ _) = sp_block_size a"
| "spec_block_size (ChunkedLocalAttentionSpec a _) = sp_block_size a"
| "spec_block_size (SlidingWindowSpec a _) = sp_block_size a"
| "spec_block_size (MambaSpec b _ _ _ _) = b"
| "spec_block_size (EncoderOnlyAttentionSpec a) = sp_block_size a"
| "spec_block_size (CrossAttentionSpec a) = sp_block_size a"

fun is_full_attention :: "kv_cache_spec \<Rightarrow> bool" where
  "is_full_attention (FullAttentionSpec _ _ _) = True"
| "is_full_attention (RabitQAttentionSpec _ _ _ _ _ _) = True"
| "is_full_attention _ = False"

fun is_rabitq :: "kv_cache_spec \<Rightarrow> bool" where
  "is_rabitq (RabitQAttentionSpec _ _ _ _ _ _) = True"
| "is_rabitq _ = False"

fun is_sliding_window :: "kv_cache_spec \<Rightarrow> bool" where
  "is_sliding_window (SlidingWindowSpec _ _) = True"
| "is_sliding_window _ = False"

fun is_chunked_local :: "kv_cache_spec \<Rightarrow> bool" where
  "is_chunked_local (ChunkedLocalAttentionSpec _ _) = True"
| "is_chunked_local _ = False"

text \<open>\<open>SlidingWindowSpec.__post_init__\<close>.\<close>

definition make_sliding_window_spec :: "attention_spec \<Rightarrow> int \<Rightarrow> kv_cache_spec result" where
  "make_sliding_window_spec a w = (if use_mla a then Inl AssertionError else Inr (SlidingWindowSpec a w))"

section \<open>Page sizes and memory bounds\<close>

definition attention_page_size :: "attention_spec \<Rightarrow> int" where
  "attention_page_size a =
     (let coef = (if use_mla a then 1 else 2)
      in coef * sp_block_size a * num_kv_heads a * head_size a * get_dtype_size (sp_dtype a))"

fun page_size_bytes :: "kv_cache_spec \<Rightarrow> int result" where
  "page_size_bytes (FullAttentionSpec a _ _) = Inr (attention_page_size a)"
| "page_size_bytes (RabitQAttentionSpec a _ _ _ _ _) = Inr (attention_page_size a)"
| "page_size_bytes (ChunkedLocalAttentionSpec a _) = Inr (attention_page_size a)"
| "page_size_bytes (SlidingWindowSpec a _) = Inr (attention_page_size a)"
| "page_size_bytes (MambaSpec _ shapes padded _ _) =
     (let page_size = (\<Sum>(shape, dtype) \<leftarrow> shapes. prod_list shape * get_dtype_size dtype)
      in case padded of
           None \<Rightarrow> Inr page_size
         | Some p \<Rightarrow> if p \<ge> page_size then Inr p else Inl AssertionError)"
| "page_size_bytes (EncoderOnlyAttentionSpec a) = Inr (attention_page_size a)"
| "page_size_bytes (CrossAttentionSpec a) = Inr (attention_page_size a)"

text \<open>The parts of \<open>VllmConfig\<close> that are read; the encoder length comes from the model registry.\<close>

record vllm_config =
  max_model_len :: int
  decode_context_parallel_size :: int
  max_num_batched_tokens :: int
  max_encoder_len :: int
  num_gpu_blocks_override :: "int option"
  disable_hybrid_kv_cache_manager :: bool
  cache_block_size :: int

fun spec_max_memory_usage_bytes :: "vllm_config \<Rightarrow> kv_cache_spec \<Rightarrow> int result" where
  "spec_max_memory_usage_bytes cfg (FullAttentionSpec a _ _) =
     (let len = max_model_len cfg; dcp = decode_context_parallel_size cfg
      in bindE (if dcp > 1 then cdiv len dcp else Inr len)
           (\<lambda>len. bindE (cdiv len (sp_block_size a)) (\<lambda>n. Inr (n * attention_page_size a))))"
| "spec_max_memory_usage_bytes cfg (RabitQAttentionSpec a _ _ _ _ _) =
     (let len = max_model_len cfg; dcp = decode_context_parallel_size cfg
      in bindE (if dcp > 1 then cdiv len dcp else Inr len)
           (\<lambda>len. bindE (cdiv len (sp_block_size a)) (\<lambda>n. Inr (n * attention_page_size a))))"
| "spec_max_memory_usage_bytes cfg (ChunkedLocalAttentionSpec a chunk) =
     (let num_tokens = min (chunk + max_num_batched_tokens cfg) (max_model_len cfg)
      in bindE (cdiv num_tokens (sp_block_size a)) (\<lambda>n. Inr (n * attention_page_size a)))"
| "spec_max_memory_usage_bytes cfg (SlidingWindowSpec a w) =
     (if decode_context_parallel_size cfg \<noteq> 1 then Inl AssertionError
      else (let num_tokens = min (w - 1 + max_num_batched_tokens cfg) (max_model_len cfg)
            in bindE (cdiv num_tokens (sp_block_size a)) (\<lambda>n. Inr ((n + 1) * attention_page_size a))))"
| "spec_max_memory_usage_bytes cfg (MambaSpec b shapes padded ty spec) = page_size_bytes (MambaSpec b shapes padded ty spec)"
| "spec_max_memory_usage_bytes cfg (EncoderOnlyAttentionSpec a) = Inr 0"
| "spec_max_memory_usage_bytes cfg (CrossAttentionSpec a) =
     bindE (cdiv (max_encoder_len cfg) (sp_block_size a)) (\<lambda>n. Inr (n * attention_page_size a))"

section \<open>Merging\<close>

text \<open>\<open>merge_window_sizes\<close> on the set of sizes that are not \<open>None\<close>; sets are lists without repetition.\<close>

definition merge_window_sizes :: "int list \<Rightarrow> int option result" where
  "merge_window_sizes sizes =
     (case remdups sizes of [] \<Rightarrow> Inr None | [w] \<Rightarrow> Inr (Some w) | _ \<Rightarrow> Inl ValueError)"

fun attention_part :: "kv_cache_spec \<Rightarrow> attention_spec option" where
  "attention_part (FullAttentionSpec a _ _) = Some a"
| "attention_part (RabitQAttentionSpec a _ _ _ _ _) = Some a"
| "attention_part _ = None"

fun full_windows :: "kv_cache_spec \<Rightarrow> int option \<times> int option" where
  "full_windows (FullAttentionSpec _ w c) = (w, c)"
| "full_windows (RabitQAttentionSpec _ w c _ _ _) = (w, c)"
| "full_windows _ = (None, None)"

text \<open>\<open>FullAttentionSpec.merge\<close>: the merged attention fields and window sizes, of which the class the method
  was called on makes an object.\<close>

definition merge_full :: "kv_cache_spec list \<Rightarrow> (attention_spec \<times> int option \<times> int option) result" where
  "merge_full specs =
     (if \<not> (\<forall>s\<in>set specs. is_full_attention s) then Inl AssertionError
      else case specs of
        [] \<Rightarrow> Inl IndexError
      | s0 # _ \<Rightarrow>
          bindE (merge_window_sizes (List.map_filter (fst \<circ> full_windows) specs)) (\<lambda>w.
          bindE (merge_window_sizes (List.map_filter (snd \<circ> full_windows) specs)) (\<lambda>c.
            if \<exists>s\<in>set specs. attention_part s \<noteq> attention_part s0 then Inl AssertionError
            else if w \<noteq> None \<and> c \<noteq> None then Inl AssertionError
            else case attention_part s0 of None \<Rightarrow> Inl AssertionError | Some a \<Rightarrow> Inr (a, w, c))))"

text \<open>The attributes \<open>rabitq_b_q\<close>, \<open>rabitq_topk\<close>, \<open>rabitq_topp\<close>, which only RaBitQ specs have.\<close>

fun rabitq_fields :: "kv_cache_spec \<Rightarrow> (int option \<times> int option \<times> real option) result" where
  "rabitq_fields (RabitQAttentionSpec _ _ _ b k t) = Inr (b, k, t)"
| "rabitq_fields _ = Inl AttributeError"

fun mapM :: "('a \<Rightarrow> 'b result) \<Rightarrow> 'a list \<Rightarrow> 'b list result" where
  "mapM f [] = Inr []"
| "mapM f (x # xs) = bindE (f x) (\<lambda>y. bindE (mapM f xs) (\<lambda>ys. Inr (y # ys)))"

definition merge_value :: "'a option list \<Rightarrow> 'a option result" where
  "merge_value vs = (case remdups vs of [] \<Rightarrow> Inr None | [v] \<Rightarrow> Inr v | _ \<Rightarrow> Inl ValueError)"

text \<open>\<open>spec.merge(specs)\<close>, dispatched on the class of the receiver, which is the first spec of the list.\<close>

fun merge_on :: "kv_cache_spec \<Rightarrow> kv_cache_spec list \<Rightarrow> kv_cache_spec result" where
  "merge_on (FullAttentionSpec _ _ _) specs = bindE (merge_full specs) (\<lambda>(a, w, c). Inr (FullAttentionSpec a w c))"
| "merge_on (RabitQAttentionSpec _ _ _ _ _ _) specs =
     bindE (merge_full specs) (\<lambda>(a, w, c).
     bindE (mapM rabitq_fields specs) (\<lambda>fs.
     bindE (merge_value (map fst fs)) (\<lambda>b.
     bindE (merge_value (map (fst \<circ> snd) fs)) (\<lambda>k.
     bindE (merge_value (map (snd \<circ> snd) fs)) (\<lambda>t.
       Inr (RabitQAttentionSpec a w c b k t))))))"
| "merge_on s0 specs = (if \<forall>s\<in>set (tl specs). s = hd specs then Inr (hd specs) else Inl AssertionError)"

definition merge :: "kv_cache_spec list \<Rightarrow> kv_cache_spec result" where
  "merge specs = (case specs of [] \<Rightarrow> Inl IndexError | s # _ \<Rightarrow> merge_on s specs)"

text \<open>A typical spec, for examples.\<close>

definition demo_attention :: attention_spec where
  "demo_attention = \<lparr>sp_block_size = 16, num_kv_heads = 8, head_size = 128, sp_dtype = BFloat16, use_mla = False\<rparr>"

end
