(* ===== verification/KV_Manager.thy ===== *)
theory KV_Manager
  imports Pool_Run KV_Spec
begin

text \<open>
  \<open>vllm/v1/core/single_type_kv_cache_manager.py\<close>: the managers that keep the block table of every request
  for one kind of attention. The class of a manager is the one \<open>spec_manager_map\<close> gives to its spec;
  methods that subclasses override dispatch on the spec. The pool is shared by all managers and passed
  along.
\<close>

section \<open>State\<close>

record manager =
  m_spec :: kv_cache_spec
  m_block_size :: int
  req_to_blocks :: "string \<rightharpoonup> bref list"
  num_cached_block :: "string \<rightharpoonup> nat"
  kv_cache_group_id :: int

text \<open>\<open>__init__\<close>, through \<open>get_manager_for_kv_cache_spec\<close>: a spec without an entry in the map raises.\<close>

fun has_manager :: "kv_cache_spec \<Rightarrow> bool" where
  "has_manager (EncoderOnlyAttentionSpec _) = False"
| "has_manager _ = True"

definition get_manager_for_kv_cache_spec :: "kv_cache_spec \<Rightarrow> int \<Rightarrow> int \<Rightarrow> manager result" where
  "get_manager_for_kv_cache_spec spec group_id dcp_world_size =
     (if \<not> has_manager spec then Inl KeyError
      else Inr \<lparr>m_spec = spec,
                m_block_size = (if dcp_world_size > 1 then spec_block_size spec * dcp_world_size else spec_block_size spec),
                req_to_blocks = Map.empty, num_cached_block = Map.empty, kv_cache_group_id = group_id\<rparr>)"

text \<open>Reading a missing key of the \<open>defaultdict\<close> creates an empty block table.\<close>

definition blocks_of :: "manager \<Rightarrow> string \<Rightarrow> bref list" where
  "blocks_of m rid = (case req_to_blocks m rid of None \<Rightarrow> [] | Some bs \<Rightarrow> bs)"

definition with_entry :: "manager \<Rightarrow> string \<Rightarrow> manager" where
  "with_entry m rid = m\<lparr>req_to_blocks := (req_to_blocks m)(rid \<mapsto> blocks_of m rid)\<rparr>"

fun is_mamba :: "kv_cache_spec \<Rightarrow> bool" where
  "is_mamba (MambaSpec _ _ _ _ _) = True"
| "is_mamba _ = False"

fun is_cross :: "kv_cache_spec \<Rightarrow> bool" where
  "is_cross (CrossAttentionSpec _) = True"
| "is_cross _ = False"

fun speculative_tokens :: "kv_cache_spec \<Rightarrow> int" where
  "speculative_tokens (MambaSpec b _ _ _ n) = (if n > 0 then b * n else 0)"
| "speculative_tokens _ = 0"

section \<open>Block tables\<close>

definition get_num_blocks_to_allocate ::
  "block_pool \<Rightarrow> manager \<Rightarrow> string \<Rightarrow> int \<Rightarrow> bref list \<Rightarrow> (int \<times> manager) result" where
  "get_num_blocks_to_allocate p m rid n_tokens new_computed_blocks =
     bindE (cdiv (n_tokens + speculative_tokens (m_spec m)) (m_block_size m)) (\<lambda>num_required_blocks.
       let num_new_blocks = num_required_blocks - int (length new_computed_blocks) - int (length (blocks_of m rid));
           num_evictable_computed_blocks = int (length (filter (\<lambda>blk. ref_cnt p blk = 0 \<and> \<not> is_null p blk) new_computed_blocks))
       in Inr (num_new_blocks + num_evictable_computed_blocks, with_entry m rid))"

definition save_new_computed_blocks :: "manager \<Rightarrow> string \<Rightarrow> bref list \<Rightarrow> manager result" where
  "save_new_computed_blocks m rid new_computed_blocks =
     (if is_cross (m_spec m) then (if new_computed_blocks = [] then Inr m else Inl AssertionError)
      else case num_cached_block m rid of
        None \<Rightarrow>
          if blocks_of m rid \<noteq> [] then Inl AssertionError
          else Inr (m\<lparr>req_to_blocks := (req_to_blocks m)(rid \<mapsto> new_computed_blocks),
                      num_cached_block := (num_cached_block m)(rid \<mapsto> length new_computed_blocks)\<rparr>)
      | Some _ \<Rightarrow> if new_computed_blocks = [] then Inr m else Inl AssertionError)"

definition allocate_new_blocks ::
  "block_pool \<Rightarrow> manager \<Rightarrow> string \<Rightarrow> int \<Rightarrow> (bref list \<times> block_pool \<times> manager) result" where
  "allocate_new_blocks p m rid n_tokens =
     bindE (cdiv (n_tokens + speculative_tokens (m_spec m)) (m_block_size m)) (\<lambda>num_required_blocks.
       let num_new_blocks = num_required_blocks - int (length (blocks_of m rid))
       in if num_new_blocks \<le> 0 then Inr ([], p, with_entry m rid)
          else bindE (get_new_blocks p (nat num_new_blocks)) (\<lambda>(new_blocks, p').
                 Inr (new_blocks, p', m\<lparr>req_to_blocks := (req_to_blocks m)(rid \<mapsto> blocks_of m rid @ new_blocks)\<rparr>)))"

definition cache_blocks :: "block_pool \<Rightarrow> manager \<Rightarrow> request \<Rightarrow> nat \<Rightarrow> (block_pool \<times> manager) result" where
  "cache_blocks p m r n_tokens =
     (if is_cross (m_spec m) then Inl ValueError
      else case num_cached_block m (request_id r) of
        None \<Rightarrow> Inl KeyError
      | Some num_cached_blocks \<Rightarrow>
          bindE (floordiv (int n_tokens) (m_block_size m)) (\<lambda>num_full_blocks.
          bindE (cache_full_blocks p r (blocks_of m (request_id r)) num_cached_blocks (nat num_full_blocks)
                   (nat (m_block_size m)) (kv_cache_group_id m))
            (\<lambda>p'. Inr (p', (with_entry m (request_id r))\<lparr>num_cached_block := (num_cached_block m)(request_id r \<mapsto> nat num_full_blocks)\<rparr>))))"

definition free_request :: "block_pool \<Rightarrow> manager \<Rightarrow> string \<Rightarrow> (block_pool \<times> manager) result" where
  "free_request p m rid =
     bindE (free_blocks p (rev (blocks_of m rid)))
       (\<lambda>p'. Inr (p', m\<lparr>req_to_blocks := (req_to_blocks m)(rid := None), num_cached_block := (num_cached_block m)(rid := None)\<rparr>))"

definition get_num_common_prefix_blocks :: "block_pool \<Rightarrow> manager \<Rightarrow> string \<Rightarrow> int \<Rightarrow> nat" where
  "get_num_common_prefix_blocks p m rid num_running_requests =
     (if is_full_attention (m_spec m)
      then length (takeWhile (\<lambda>blk. ref_cnt p blk = num_running_requests) (blocks_of m rid)) else 0)"

section \<open>Blocks outside the window\<close>

text \<open>The loop from index \<open>i - 1\<close> down, which stops at the first null block; it returns the removed blocks.\<close>

fun remove_loop :: "bref \<Rightarrow> nat \<Rightarrow> bref list \<Rightarrow> bref list \<Rightarrow> (bref list \<times> bref list) result" where
  "remove_loop nb 0 blocks removed = Inr (blocks, removed)"
| "remove_loop nb (Suc i) blocks removed =
     (if \<not> i < length blocks then Inl IndexError
      else if blocks ! i = nb then Inr (blocks, removed)
      else remove_loop nb i (blocks[i := nb]) (removed @ [blocks ! i]))"

definition remove_before :: "block_pool \<Rightarrow> manager \<Rightarrow> string \<Rightarrow> int \<Rightarrow> (block_pool \<times> manager) result" where
  "remove_before p m rid first_useful =
     bindE (remove_loop (null_block p) (nat first_useful) (blocks_of m rid) []) (\<lambda>(blocks, removed).
     bindE (free_blocks p removed)
       (\<lambda>p'. Inr (p', m\<lparr>req_to_blocks := (req_to_blocks m)(rid \<mapsto> blocks)\<rparr>)))"

definition remove_skipped_blocks :: "block_pool \<Rightarrow> manager \<Rightarrow> string \<Rightarrow> int \<Rightarrow> (block_pool \<times> manager) result" where
  "remove_skipped_blocks p m rid num_computed_tokens' =
     (case m_spec m of
        SlidingWindowSpec _ sliding_window \<Rightarrow>
          bindE (floordiv (num_computed_tokens' - sliding_window + 1) (m_block_size m)) (remove_before p m rid)
      | ChunkedLocalAttentionSpec _ chunk \<Rightarrow>
          bindE (floordiv num_computed_tokens' chunk) (\<lambda>q.
          bindE (floordiv (q * chunk) (m_block_size m)) (\<lambda>first.
            let cached = (case num_cached_block m rid of None \<Rightarrow> 0 | Some c \<Rightarrow> int c)
            in remove_before p m rid (if cached > 0 then min first (cached - 1) else first)))
      | _ \<Rightarrow> Inr (p, m))"

section \<open>Prefix hits\<close>

definition append_each :: "bref list list \<Rightarrow> bref list \<Rightarrow> bref list list" where
  "append_each computed cached = map (\<lambda>(c, b). c @ [b]) (zip computed cached)"

fun hit_loop :: "block_pool \<Rightarrow> int list \<Rightarrow> byte_list list \<Rightarrow> bref list list \<Rightarrow> bref list list result" where
  "hit_loop p gs [] computed = Inr computed"
| "hit_loop p gs (h # hs) computed =
     bindE (get_cached_block p h gs) (\<lambda>cached.
       case cached of
         Some (b # bs) \<Rightarrow> hit_loop p gs hs (append_each computed (b # bs))
       | _ \<Rightarrow> Inr computed)"

text \<open>\<open>if use_eagle and computed_blocks[0]: computed.pop()\<close> for each group.\<close>

definition eagle_pop :: "bool \<Rightarrow> bref list list \<Rightarrow> bref list list result" where
  "eagle_pop use_eagle computed =
     (if \<not> use_eagle then Inr computed
      else case computed of
        [] \<Rightarrow> Inl IndexError
      | c # _ \<Rightarrow> if c = [] then Inr computed else if [] \<in> set computed then Inl IndexError else Inr (map butlast computed))"

definition full_find_longest_cache_hit ::
  "byte_list list \<Rightarrow> int \<Rightarrow> int list \<Rightarrow> block_pool \<Rightarrow> kv_cache_spec \<Rightarrow> bool \<Rightarrow> int \<Rightarrow> bref list list result" where
  "full_find_longest_cache_hit hashes max_length gs p spec use_eagle dcp_world_size =
     (if \<not> (is_full_attention spec \<or> is_chunked_local spec) then Inl AssertionError
      else (let bs = (if dcp_world_size > 1 then spec_block_size spec * dcp_world_size else spec_block_size spec)
            in bindE (floordiv max_length bs) (\<lambda>max_num_blocks.
                 if max_num_blocks < 0 then Inl ValueError
                 else bindE (hit_loop p gs (take (nat max_num_blocks) hashes) (replicate (length gs) []))
                        (eagle_pop use_eagle))))"

text \<open>The search from right to left of the sliding-window manager.\<close>

definition set_each :: "bref list list \<Rightarrow> nat \<Rightarrow> bref list \<Rightarrow> bref list list" where
  "set_each computed i cached = map (\<lambda>(c, b). c[i := b]) (zip computed cached)"

fun window_loop :: "block_pool \<Rightarrow> byte_list list \<Rightarrow> int list \<Rightarrow> int \<Rightarrow> nat \<Rightarrow> bref list list \<Rightarrow> nat \<Rightarrow> bref list list result" where
  "window_loop p hashes gs need 0 computed contiguous = Inr (map (take contiguous) computed)"
| "window_loop p hashes gs need (Suc i) computed contiguous =
     (if \<not> i < length hashes then Inl IndexError
      else bindE (get_cached_block p (hashes ! i) gs) (\<lambda>cached.
        case cached of
          Some (b # bs) \<Rightarrow>
            (let computed' = set_each computed i (b # bs)
             in if int (contiguous + 1) \<ge> need then Inr (map (take (i + (contiguous + 1))) computed')
                else window_loop p hashes gs need i computed' (contiguous + 1))
        | _ \<Rightarrow> window_loop p hashes gs need i computed 0))"

definition window_find_longest_cache_hit ::
  "byte_list list \<Rightarrow> int \<Rightarrow> int list \<Rightarrow> block_pool \<Rightarrow> kv_cache_spec \<Rightarrow> bool \<Rightarrow> int \<Rightarrow> bref list list result" where
  "window_find_longest_cache_hit hashes max_length gs p spec use_eagle dcp_world_size =
     (case spec of
        SlidingWindowSpec a sliding_window \<Rightarrow>
          if dcp_world_size \<noteq> 1 then Inl AssertionError
          else bindE (cdiv (sliding_window - 1) (sp_block_size a)) (\<lambda>need.
               bindE (floordiv max_length (sp_block_size a)) (\<lambda>max_num_blocks.
               bindE (window_loop p hashes gs (if use_eagle then need + 1 else need) (nat max_num_blocks)
                        (replicate (length gs) (replicate (nat max_num_blocks) (null_block p))) 0)
                 (eagle_pop use_eagle)))
      | _ \<Rightarrow> Inl AssertionError)"

fun chunk_loop :: "block_pool \<Rightarrow> byte_list list \<Rightarrow> int list \<Rightarrow> nat list \<Rightarrow> bref list list \<Rightarrow> bref list list result" where
  "chunk_loop p hashes gs [] computed = Inr computed"
| "chunk_loop p hashes gs (i # is) computed =
     (if \<not> i < length hashes then Inl IndexError
      else bindE (get_cached_block p (hashes ! i) gs) (\<lambda>cached.
        case cached of
          Some (b # bs) \<Rightarrow> chunk_loop p hashes gs is (append_each computed (b # bs))
        | _ \<Rightarrow> Inr computed))"

definition chunked_find_longest_cache_hit ::
  "byte_list list \<Rightarrow> int \<Rightarrow> int list \<Rightarrow> block_pool \<Rightarrow> kv_cache_spec \<Rightarrow> bool \<Rightarrow> int \<Rightarrow> bref list list result" where
  "chunked_find_longest_cache_hit hashes max_length gs p spec use_eagle dcp_world_size =
     (case spec of
        ChunkedLocalAttentionSpec a chunk \<Rightarrow>
          if use_eagle then Inl AssertionError
          else if dcp_world_size \<noteq> 1 then Inl AssertionError
          else bindE (floordiv max_length (sp_block_size a)) (\<lambda>max_num_blocks.
               bindE (if max_length > 0 then bindE (floordiv max_length chunk) (\<lambda>q. Inr (q * chunk)) else Inr 0) (\<lambda>start_idx.
               bindE (floordiv start_idx (sp_block_size a)) (\<lambda>start_block.
                 chunk_loop p hashes gs [nat start_block..<nat max_num_blocks]
                   (replicate (length gs) (replicate (nat start_block) (null_block p))))))
      | _ \<Rightarrow> Inl AssertionError)"

definition mamba_find_longest_cache_hit :: "int list \<Rightarrow> kv_cache_spec \<Rightarrow> int \<Rightarrow> bref list list result" where
  "mamba_find_longest_cache_hit gs spec dcp_world_size =
     (if \<not> is_mamba spec then Inl AssertionError
      else if dcp_world_size \<noteq> 1 then Inl AssertionError
      else Inr (replicate (length gs) []))"

definition cross_find_longest_cache_hit :: "kv_cache_spec \<Rightarrow> bref list list result" where
  "cross_find_longest_cache_hit spec = (if \<not> is_cross spec then Inl AssertionError else Inl NotImplementedError)"

text \<open>The method of the class that the spec selects.\<close>

definition find_longest_cache_hit ::
  "byte_list list \<Rightarrow> int \<Rightarrow> int list \<Rightarrow> block_pool \<Rightarrow> kv_cache_spec \<Rightarrow> bool \<Rightarrow> int \<Rightarrow> bref list list result" where
  "find_longest_cache_hit hashes max_length gs p spec use_eagle dcp_world_size =
     (case spec of
        SlidingWindowSpec _ _ \<Rightarrow> window_find_longest_cache_hit hashes max_length gs p spec use_eagle dcp_world_size
      | ChunkedLocalAttentionSpec _ _ \<Rightarrow> chunked_find_longest_cache_hit hashes max_length gs p spec use_eagle dcp_world_size
      | MambaSpec _ _ _ _ _ \<Rightarrow> mamba_find_longest_cache_hit gs spec dcp_world_size
      | CrossAttentionSpec _ \<Rightarrow> cross_find_longest_cache_hit spec
      | EncoderOnlyAttentionSpec _ \<Rightarrow> Inl KeyError
      | _ \<Rightarrow> full_find_longest_cache_hit hashes max_length gs p spec use_eagle dcp_world_size)"

end
