(* ===== verification/KV_Hits.thy ===== *)
theory KV_Hits
  imports KV_Manager
begin

text \<open>
  Prefix hits: which blocks \<open>find_longest_cache_hit\<close> returns for full attention (RaBitQ included) and for
  sliding windows.
\<close>

section \<open>One lookup\<close>

text \<open>A hash is hit when every group has a block cached under it; a row of blocks, one per group, serves it.\<close>

definition hash_hit :: "block_pool \<Rightarrow> int list \<Rightarrow> byte_list \<Rightarrow> bool" where
  "hash_hit p gs h \<longleftrightarrow> (\<forall>g\<in>set gs. \<exists>r. block_hash p r = Some (group_key h g))"

definition serves :: "block_pool \<Rightarrow> byte_list \<Rightarrow> int \<Rightarrow> bref \<Rightarrow> bool" where
  "serves p h g r \<longleftrightarrow> r \<in> Blk ` usable p \<and> block_hash p r = Some (group_key h g)"

lemma lookup_hit:
  assumes inv: "cache_inv p" and gs: "\<forall>g\<in>set gs. 0 \<le> g \<and> g < 2 ^ 32" "gs \<noteq> []"
  shows "hash_hit p gs h \<Longrightarrow> \<exists>b bs. get_cached_block p h gs = Inr (Some (b # bs)) \<and> list_all2 (\<lambda>r g. serves p h g r) (b # bs) gs"
    and "\<not> hash_hit p gs h \<Longrightarrow> get_cached_block p h gs = Inr None"
proof -
  note ok = get_cached_block_ok[OF inv gs(1), of h]
  show "\<exists>b bs. get_cached_block p h gs = Inr (Some (b # bs)) \<and> list_all2 (\<lambda>r g. serves p h g r) (b # bs) gs" if hit: "hash_hit p gs h"
  proof (cases "get_cached_block p h gs")
    case (Inl e)
    then show ?thesis using ok by simp
  next
    case (Inr res)
    then obtain rs where rs: "res = Some rs" using ok hit by (cases res) (auto simp: hash_hit_def)
    then have "list_all2 (\<lambda>r g. serves p h g r) rs gs" using ok Inr by (simp add: serves_def)
    moreover from this gs(2) obtain b bs where "rs = b # bs" by (cases rs) auto
    ultimately show ?thesis using Inr rs by blast
  qed
  show "get_cached_block p h gs = Inr None" if no: "\<not> hash_hit p gs h"
  proof (cases "get_cached_block p h gs")
    case (Inl e)
    then show ?thesis using ok by simp
  next
    case (Inr res)
    have "res = None"
    proof (rule ccontr)
      assume "res \<noteq> None"
      then obtain rs where "list_all2 (\<lambda>r g. serves p h g r) rs gs" using ok Inr by (auto simp: serves_def)
      then have "hash_hit p gs h" unfolding hash_hit_def by (metis list_all2_conv_all_nth in_set_conv_nth serves_def)
      with no show False ..
    qed
    then show ?thesis using Inr by simp
  qed
qed

section \<open>Full attention\<close>

lemma append_each_nth:
  "length computed = length row \<Longrightarrow> i < length row \<Longrightarrow> append_each computed row ! i = computed ! i @ [row ! i]"
  by (simp add: append_each_def)

lemma length_append_each [simp]: "length computed = length row \<Longrightarrow> length (append_each computed row) = length row"
  by (simp add: append_each_def)

definition hit_count :: "block_pool \<Rightarrow> int list \<Rightarrow> byte_list list \<Rightarrow> nat" where
  "hit_count p gs hs = length (takeWhile (hash_hit p gs) hs)"

lemma hit_loop_ok:
  assumes inv: "cache_inv p" and gs: "\<forall>g\<in>set gs. 0 \<le> g \<and> g < 2 ^ 32" "gs \<noteq> []"
  shows "length computed = length gs \<Longrightarrow>
    \<exists>res. hit_loop p gs hs computed = Inr res \<and> length res = length gs
      \<and> (\<forall>i<length gs. \<exists>ext. res ! i = computed ! i @ ext \<and> length ext = hit_count p gs hs
           \<and> (\<forall>j<length ext. serves p (hs ! j) (gs ! i) (ext ! j)))"
proof (induction hs arbitrary: computed)
  case Nil
  then show ?case by (simp add: hit_count_def)
next
  case (Cons h hs)
  show ?case
  proof (cases "hash_hit p gs h")
    case False
    then show ?thesis using lookup_hit(2)[OF inv gs False] Cons.prems by (simp add: hit_count_def)
  next
    case True
    from lookup_hit(1)[OF inv gs True] obtain b bs where l: "get_cached_block p h gs = Inr (Some (b # bs))"
      and row: "list_all2 (\<lambda>r g. serves p h g r) (b # bs) gs" by blast
    have len: "length (b # bs) = length gs" using list_all2_lengthD[OF row] .
    from Cons.IH[of "append_each computed (b # bs)"] Cons.prems len obtain res where
      r: "hit_loop p gs hs (append_each computed (b # bs)) = Inr res" "length res = length gs"
      "\<forall>i<length gs. \<exists>ext. res ! i = append_each computed (b # bs) ! i @ ext \<and> length ext = hit_count p gs hs
         \<and> (\<forall>j<length ext. serves p (hs ! j) (gs ! i) (ext ! j))" by auto
    have "\<exists>ext. res ! i = computed ! i @ ext \<and> length ext = hit_count p gs (h # hs)
        \<and> (\<forall>j<length ext. serves p ((h # hs) ! j) (gs ! i) (ext ! j))" if i: "i < length gs" for i
    proof -
      from r(3) i obtain ext where e: "res ! i = append_each computed (b # bs) ! i @ ext" "length ext = hit_count p gs hs"
        "\<forall>j<length ext. serves p (hs ! j) (gs ! i) (ext ! j)" by blast
      have "serves p h (gs ! i) ((b # bs) ! i)" using row i len by (simp only: list_all2_conv_all_nth)
      then have "\<forall>j<length ((b # bs) ! i # ext). serves p ((h # hs) ! j) (gs ! i) (((b # bs) ! i # ext) ! j)"
        using e(3) by (simp add: nth_Cons split: nat.splits)
      moreover have "append_each computed (b # bs) ! i = computed ! i @ [(b # bs) ! i]"
        using Cons.prems len i by (intro append_each_nth) auto
      ultimately show ?thesis using e True
        by (intro exI[of _ "(b # bs) ! i # ext"]) (simp add: hit_count_def)
    qed
    then show ?thesis using l r(1,2) by auto
  qed
qed

lemma eagle_pop_ok:
  assumes "res \<noteq> []" "\<forall>c\<in>set res. length c = n"
  shows "eagle_pop e res = Inr (if e then map butlast res else res)"
proof (cases "n = 0")
  case True
  then have "map butlast res = map id res" using assms(2) by (intro map_cong) auto
  then show ?thesis using assms True by (cases res) (auto simp: eagle_pop_def)
next
  case False
  then have "[] \<notin> set res" using assms(2) by fastforce
  then show ?thesis using assms by (cases res) (auto simp: eagle_pop_def)
qed

lemma full_hit_ok:
  assumes pinv: "pool_inv p" and spec: "is_full_attention spec"
    and bs: "spec_block_size spec > 0" "max_length \<ge> 0" and gs: "\<forall>g\<in>set gs. 0 \<le> g \<and> g < 2 ^ 32" "gs \<noteq> []"
  shows "\<exists>res. full_find_longest_cache_hit hashes max_length gs p spec eagle 1 = Inr res \<and> length res = length gs
    \<and> (let m = take (nat (max_length div spec_block_size spec)) hashes; k = hit_count p gs m
       in (\<forall>j<k. hash_hit p gs (m ! j)) \<and> (k < length m \<longrightarrow> \<not> hash_hit p gs (m ! k))
        \<and> (\<forall>i<length gs. length (res ! i) = (if eagle then k - 1 else k)
             \<and> (\<forall>j<length (res ! i). serves p (hashes ! j) (gs ! i) (res ! i ! j))))"
proof -
  let ?m = "take (nat (max_length div spec_block_size spec)) hashes"
  have inv: "cache_inv p" using pinv by (simp add: pool_inv_def)
  from hit_loop_ok[OF inv gs, of "replicate (length gs) []" ?m] obtain res where
    r: "hit_loop p gs ?m (replicate (length gs) []) = Inr res" "length res = length gs"
    and x: "\<forall>i<length gs. \<exists>ext. res ! i = replicate (length gs) [] ! i @ ext \<and> length ext = hit_count p gs ?m
         \<and> (\<forall>j<length ext. serves p (?m ! j) (gs ! i) (ext ! j))"
    by auto
  have c: "\<forall>i<length gs. length (res ! i) = hit_count p gs ?m \<and> (\<forall>j<length (res ! i). serves p (?m ! j) (gs ! i) (res ! i ! j))"
  proof (intro allI impI)
    fix i assume i: "i < length gs"
    with x obtain ext where e: "res ! i = replicate (length gs) [] ! i @ ext" "length ext = hit_count p gs ?m"
      "\<forall>j<length ext. serves p (?m ! j) (gs ! i) (ext ! j)" by blast
    have "res ! i = ext" using e(1) i by simp
    then show "length (res ! i) = hit_count p gs ?m \<and> (\<forall>j<length (res ! i). serves p (?m ! j) (gs ! i) (res ! i ! j))"
      using e(2,3) by (simp only:)
  qed
  have len: "\<forall>c\<in>set res. length c = hit_count p gs ?m" using c r(2) by (metis in_set_conv_nth)
  have ne: "res \<noteq> []" using gs(2) r(2) by auto
  have f: "full_find_longest_cache_hit hashes max_length gs p spec eagle 1 = Inr (if eagle then map butlast res else res)"
  proof -
    have "\<not> max_length div spec_block_size spec < 0" using bs by (simp add: pos_imp_zdiv_nonneg_iff not_less)
    then show ?thesis using bs(1) spec r(1) eagle_pop_ok[OF ne len, of eagle]
      by (simp add: full_find_longest_cache_hit_def Let_def)
  qed
  have "hit_count p gs ?m \<le> length ?m" unfolding hit_count_def by (rule length_takeWhile_le)
  then have "serves p (hashes ! j) (gs ! i) (res ! i ! j)" if "i < length gs" "j < length (res ! i)" for i j
    using c that by auto
  moreover have "hash_hit p gs (?m ! j)" if "j < hit_count p gs ?m" for j
    using that by (metis hit_count_def nth_mem set_takeWhileD takeWhile_nth)
  moreover have "\<not> hash_hit p gs (?m ! hit_count p gs ?m)" if "hit_count p gs ?m < length ?m"
    using that unfolding hit_count_def by (rule nth_length_takeWhile)
  ultimately show ?thesis using f r(2) c by (intro exI[of _ "if eagle then map butlast res else res"])
      (auto simp: Let_def nth_butlast)
qed

text \<open>C26. Prefix hit of full attention, RaBitQ layers included. For every reachable pool the lookup returns, for
  every group, the blocks of the longest prefix of at most \<open>max_length\<close> tokens whose blocks are cached for all
  groups (one block less with eagle): block \<open>j\<close> of group \<open>g\<close> carries hash \<open>j\<close> of the request and the id of
  group \<open>g\<close>, and the next hash, if any, is not cached for all groups.\<close>

theorem full_hit_is_longest_cached_prefix:
  assumes run: "pool_run n caching events use_int p" and spec: "is_full_attention spec"
    and bs: "spec_block_size spec > 0" "max_length \<ge> 0" and gs: "\<forall>g\<in>set gs. 0 \<le> g \<and> g < 2 ^ 32" "gs \<noteq> []"
  shows "\<exists>res. full_find_longest_cache_hit hashes max_length gs p spec eagle 1 = Inr res \<and> length res = length gs
    \<and> (let m = take (nat (max_length div spec_block_size spec)) hashes; k = hit_count p gs m
       in (\<forall>j<k. hash_hit p gs (m ! j)) \<and> (k < length m \<longrightarrow> \<not> hash_hit p gs (m ! k))
        \<and> (\<forall>i<length gs. length (res ! i) = (if eagle then k - 1 else k)
             \<and> (\<forall>j<length (res ! i). serves p (hashes ! j) (gs ! i) (res ! i ! j))))"
  using pool_run_inv[OF run] by (intro full_hit_ok[OF _ spec bs gs]) simp

theorem full_hit_is_longest_cached_prefix_witness:
  "\<exists>p res. init_pool 4 True False False = Inr p
    \<and> full_find_longest_cache_hit [[7], [8]] 40 [0] p (RabitQAttentionSpec demo_attention None None (Some 4) None None) False 1 = Inr res
    \<and> length res = 1 \<and> (\<forall>i<1. \<forall>j<length (res ! i). serves p ([[7], [8]] ! j) ([0] ! i) (res ! i ! j))"
proof -
  obtain p where p: "init_pool 4 True False False = Inr p" using init_pool_total[of 4 True False False] by auto
  have "is_full_attention (RabitQAttentionSpec demo_attention None None (Some 4) None None)"
    "spec_block_size (RabitQAttentionSpec demo_attention None None (Some 4) None None) > 0" "(40::int) \<ge> 0"
    "\<forall>g\<in>set [0::int]. 0 \<le> g \<and> g < 2 ^ 32" "[0::int] \<noteq> []" by (simp_all add: demo_attention_def)
  from full_hit_is_longest_cached_prefix[OF pool_run.start[OF p] this, of "[[7], [8]]" False] p
  show ?thesis by (auto simp: Let_def)
qed

section \<open>Sliding windows\<close>

lemma set_each_nth: "length computed = length row \<Longrightarrow> k < length row \<Longrightarrow> set_each computed i row ! k = (computed ! k)[i := row ! k]"
  by (simp add: set_each_def)

lemma length_set_each [simp]: "length computed = length row \<Longrightarrow> length (set_each computed i row) = length row"
  by (simp add: set_each_def)

text \<open>What the search returns: \<open>L\<close> blocks per group, of which the last \<open>w\<close> serve their hashes and the ones
  before are null blocks; no longer prefix up to \<open>N\<close> blocks ends in \<open>w\<close> cached blocks.\<close>

definition window_result :: "block_pool \<Rightarrow> byte_list list \<Rightarrow> int list \<Rightarrow> nat \<Rightarrow> nat \<Rightarrow> nat \<Rightarrow> bref list list \<Rightarrow> bool" where
  "window_result p hashes gs w N L res \<longleftrightarrow> length res = length gs \<and> L \<le> N
     \<and> (\<forall>k<length gs. length (res ! k) = L
          \<and> (\<forall>j<L. if L \<le> j + w then serves p (hashes ! j) (gs ! k) (res ! k ! j) else res ! k ! j = null_block p))
     \<and> (\<forall>L'. L < L' \<longrightarrow> L' \<le> N \<longrightarrow> (\<exists>j<L'. L' \<le> j + w \<and> \<not> hash_hit p gs (hashes ! j)))"

text \<open>The state of the search at index \<open>i\<close> with \<open>c\<close> contiguous hits to its right.\<close>

definition window_state :: "block_pool \<Rightarrow> byte_list list \<Rightarrow> int list \<Rightarrow> nat \<Rightarrow> nat \<Rightarrow> nat \<Rightarrow> bref list list \<Rightarrow> nat \<Rightarrow> bool" where
  "window_state p hashes gs w N i computed c \<longleftrightarrow> length computed = length gs \<and> i + c \<le> N \<and> c < w
     \<and> (\<forall>k<length gs. length (computed ! k) = N \<and> (\<forall>j<i. computed ! k ! j = null_block p)
          \<and> (\<forall>j. i \<le> j \<longrightarrow> j < i + c \<longrightarrow> serves p (hashes ! j) (gs ! k) (computed ! k ! j)))
     \<and> (\<forall>L'. i + c < L' \<longrightarrow> L' \<le> N \<longrightarrow> (\<exists>j<L'. L' \<le> j + w \<and> \<not> hash_hit p gs (hashes ! j)))"

lemma window_state_miss:
  assumes "window_state p hashes gs w N (Suc i) computed c" "\<not> hash_hit p gs (hashes ! i)"
  shows "window_state p hashes gs w N i computed 0"
proof -
  have "\<exists>j<L'. L' \<le> j + w \<and> \<not> hash_hit p gs (hashes ! j)" if "i < L'" "L' \<le> N" for L'
  proof (cases "Suc i + c < L'")
    case True
    then show ?thesis using assms(1) that(2) by (simp add: window_state_def)
  next
    case False
    then have "L' \<le> i + w" using assms(1) by (simp add: window_state_def)
    then show ?thesis using assms(2) that(1) by blast
  qed
  then show ?thesis using assms(1) by (auto simp: window_state_def)
qed

lemma window_state_hit:
  assumes st: "window_state p hashes gs w N (Suc i) computed c"
    and row: "list_all2 (\<lambda>r g. serves p (hashes ! i) g r) row gs"
  defines "computed' \<equiv> set_each computed i row"
  shows "length computed' = length gs"
    and "k < length gs \<Longrightarrow> length (computed' ! k) = N \<and> (\<forall>j<i. computed' ! k ! j = null_block p)
          \<and> (\<forall>j. i \<le> j \<longrightarrow> j < i + (c + 1) \<longrightarrow> serves p (hashes ! j) (gs ! k) (computed' ! k ! j))"
proof -
  have len: "length row = length gs" "length computed = length gs"
    using list_all2_lengthD[OF row] st by (simp_all add: window_state_def)
  then show "length computed' = length gs" by (simp add: computed'_def)
  assume k: "k < length gs"
  have ck: "length (computed ! k) = N" "\<forall>j<Suc i. computed ! k ! j = null_block p"
    "\<forall>j. Suc i \<le> j \<longrightarrow> j < Suc i + c \<longrightarrow> serves p (hashes ! j) (gs ! k) (computed ! k ! j)" "Suc i + c \<le> N"
    using st k by (auto simp: window_state_def)
  have e: "computed' ! k = (computed ! k)[i := row ! k]"
    unfolding computed'_def using len k by (intro set_each_nth) auto
  have "serves p (hashes ! i) (gs ! k) (row ! k)" using row k len by (simp add: list_all2_conv_all_nth)
  then show "length (computed' ! k) = N \<and> (\<forall>j<i. computed' ! k ! j = null_block p)
      \<and> (\<forall>j. i \<le> j \<longrightarrow> j < i + (c + 1) \<longrightarrow> serves p (hashes ! j) (gs ! k) (computed' ! k ! j))"
    unfolding e using ck by (auto simp: nth_list_update)
qed

lemma window_loop_ok:
  assumes inv: "cache_inv p" and gs: "\<forall>g\<in>set gs. 0 \<le> g \<and> g < 2 ^ 32" "gs \<noteq> []" and N: "N \<le> length hashes"
    and w: "w = nat (max 1 need)"
  shows "window_state p hashes gs w N i computed c \<Longrightarrow>
    \<exists>res L. window_loop p hashes gs need i computed c = Inr res \<and> window_result p hashes gs w N L res"
proof (induction i arbitrary: computed c)
  case 0
  then have "window_result p hashes gs w N c (map (take c) computed)"
    by (auto simp: window_result_def window_state_def)
  then show ?case by auto
next
  case (Suc i)
  have i: "i < length hashes" using Suc.prems N by (simp add: window_state_def)
  show ?case
  proof (cases "hash_hit p gs (hashes ! i)")
    case False
    with Suc.IH[OF window_state_miss[OF Suc.prems False]] lookup_hit(2)[OF inv gs False] i show ?thesis by simp
  next
    case True
    from lookup_hit(1)[OF inv gs True] obtain b bs where l: "get_cached_block p (hashes ! i) gs = Inr (Some (b # bs))"
      and row: "list_all2 (\<lambda>r g. serves p (hashes ! i) g r) (b # bs) gs" by blast
    note h = window_state_hit[OF Suc.prems row]
    have max: "\<forall>L'. Suc i + c < L' \<longrightarrow> L' \<le> N \<longrightarrow> (\<exists>j<L'. L' \<le> j + w \<and> \<not> hash_hit p gs (hashes ! j))"
      and cw: "c < w" "Suc i + c \<le> N" using Suc.prems by (simp_all add: window_state_def)
    show ?thesis
    proof (cases "int (c + 1) \<ge> need")
      case True
      then have c1: "c + 1 = w" using cw(1) w by linarith
      have "window_result p hashes gs w N (i + w) (map (take (i + (c + 1))) (set_each computed i (b # bs)))"
        using h max cw unfolding c1[symmetric] by (auto simp: window_result_def)
      then show ?thesis using l i True by (auto simp: Let_def)
    next
      case False
      then have "window_state p hashes gs w N i (set_each computed i (b # bs)) (c + 1)"
        using h max cw w by (auto simp: window_state_def)
      from Suc.IH[OF this] show ?thesis using l i False by (simp add: Let_def)
    qed
  qed
qed

text \<open>C27. Prefix hit of a sliding-window group (without eagle). The search returns, for every group, the longest
  prefix of at most \<open>max_length\<close> tokens such that all blocks the window reaches back to are cached for all
  groups; these blocks are returned and everything before them is filled up with null blocks, and it never runs
  out of the hash list.\<close>

theorem window_hit_is_longest_covered_prefix:
  assumes run: "pool_run n caching events use_int p" and bs: "sp_block_size a > 0" "max_length \<ge> 0"
    and gs: "\<forall>g\<in>set gs. 0 \<le> g \<and> g < 2 ^ 32" "gs \<noteq> []" and N: "nat (max_length div sp_block_size a) \<le> length hashes"
  shows "\<exists>res L. window_find_longest_cache_hit hashes max_length gs p (SlidingWindowSpec a window) False 1 = Inr res
    \<and> window_result p hashes gs (nat (max 1 (ceil_div (window - 1) (sp_block_size a)))) (nat (max_length div sp_block_size a)) L res"
proof -
  let ?N = "nat (max_length div sp_block_size a)" and ?need = "ceil_div (window - 1) (sp_block_size a)"
  have inv: "cache_inv p" using pool_run_inv[OF run] by (simp add: pool_inv_def)
  have "window_state p hashes gs (nat (max 1 ?need)) ?N ?N (replicate (length gs) (replicate ?N (null_block p))) 0"
    by (auto simp: window_state_def)
  from window_loop_ok[OF inv gs N refl this] obtain res L where
    r: "window_loop p hashes gs ?need ?N (replicate (length gs) (replicate ?N (null_block p))) 0 = Inr res"
    "window_result p hashes gs (nat (max 1 ?need)) ?N L res" by blast
  have "window_find_longest_cache_hit hashes max_length gs p (SlidingWindowSpec a window) False 1 = Inr res"
    using bs(1) r(1) by (simp add: window_find_longest_cache_hit_def eagle_pop_def)
  then show ?thesis using r(2) by blast
qed

theorem window_hit_is_longest_covered_prefix_witness:
  "\<exists>p res L. init_pool 4 True False False = Inr p
    \<and> window_find_longest_cache_hit [[7], [8], [9]] 40 [0] p (SlidingWindowSpec demo_attention 20) False 1 = Inr res
    \<and> window_result p [[7], [8], [9]] [0] 2 2 L res"
proof -
  obtain p where p: "init_pool 4 True False False = Inr p" using init_pool_total[of 4 True False False] by auto
  have "nat (40 div sp_block_size demo_attention) = 2" "nat (max 1 (ceil_div (20 - 1) (sp_block_size demo_attention))) = 2"
    by (simp_all add: demo_attention_def ceil_div_def)
  with window_hit_is_longest_covered_prefix[OF pool_run.start[OF p], of demo_attention 40 "[0]" "[[7], [8], [9]]" 20] p
  show ?thesis by (simp add: demo_attention_def ceil_div_def)
qed

end
