(* ===== verification/KV_Owner.thy ===== *)
theory KV_Owner
  imports KV_Hits
begin

text \<open>
  Ownership of blocks in a full-attention group (RaBitQ layers use this manager): the reference count of a
  block is the number of requests whose block table contains it. Each operation of the manager keeps this,
  and blocks that are not cached yet belong to one request only.
\<close>

section \<open>Invariant\<close>

definition owners :: "manager \<Rightarrow> bref \<Rightarrow> string set" where
  "owners m r = {rid. r \<in> set (blocks_of m rid)}"

definition tail_ok :: "block_pool \<Rightarrow> manager \<Rightarrow> string \<Rightarrow> bool" where
  "tail_ok p m rid \<longleftrightarrow> (case num_cached_block m rid of
     None \<Rightarrow> blocks_of m rid = []
   | Some nc \<Rightarrow> nc \<le> length (blocks_of m rid)
       \<and> (\<forall>r\<in>set (drop nc (blocks_of m rid)). block_hash p r = None \<and> owners m r = {rid}))"

definition owned :: "block_pool \<Rightarrow> manager \<Rightarrow> bool" where
  "owned p m \<longleftrightarrow> pool_inv p \<and> is_full_attention (m_spec m) \<and> m_block_size m > 0
     \<and> (\<forall>rid. distinct (blocks_of m rid) \<and> set (blocks_of m rid) \<subseteq> Blk ` usable p)
     \<and> (\<forall>b\<in>usable p. finite (owners m (Blk b)) \<and> ref_cnt p (Blk b) = int (card (owners m (Blk b))))
     \<and> (\<forall>rid. tail_ok p m rid)"

lemma ownedD:
  assumes "owned p m"
  shows "pool_inv p" "distinct (blocks_of m rid)" "set (blocks_of m rid) \<subseteq> Blk ` usable p"
    "b \<in> usable p \<Longrightarrow> finite (owners m (Blk b))" "b \<in> usable p \<Longrightarrow> ref_cnt p (Blk b) = int (card (owners m (Blk b)))"
    "tail_ok p m rid" "is_full_attention (m_spec m)" "m_block_size m > 0"
  using assms by (auto simp: owned_def)

lemma not_cross: "is_full_attention s \<Longrightarrow> \<not> is_cross s \<and> speculative_tokens s = 0"
  by (cases s) auto

lemma usable_not_null: "Blk 0 \<notin> Blk ` usable p"
  by (auto simp: usable_def)

lemma table_ref_pos:
  assumes "owned p m" "r \<in> set (blocks_of m rid)"
  shows "ref_cnt p r > 0"
proof -
  obtain b where b: "r = Blk b" "b \<in> usable p" using ownedD(3)[OF assms(1)] assms(2) by blast
  have "rid \<in> owners m r" using assms(2) by (simp add: owners_def)
  then have "card (owners m r) > 0" using ownedD(4)[OF assms(1) b(2)] b(1) by (auto simp: card_gt_0_iff)
  then show ?thesis using ownedD(5)[OF assms(1) b(2)] b(1) by simp
qed

lemma unowned_iff:
  assumes "owned p m" "b \<in> usable p"
  shows "ref_cnt p (Blk b) = 0 \<longleftrightarrow> (\<forall>rid. Blk b \<notin> set (blocks_of m rid))"
  using ownedD(4,5)[OF assms] by (auto simp: owners_def card_eq_0_iff)

lemma blocks_of_upd [simp]:
  "blocks_of (m\<lparr>req_to_blocks := (req_to_blocks m)(rid := t)\<rparr>) rid' = (if rid' = rid then (case t of None \<Rightarrow> [] | Some bs \<Rightarrow> bs) else blocks_of m rid')"
  "blocks_of (m\<lparr>num_cached_block := c\<rparr>) rid' = blocks_of m rid'"
  by (auto simp: blocks_of_def)

lemma with_entry_same [simp]:
  "blocks_of (with_entry m rid) = blocks_of m" "num_cached_block (with_entry m rid) = num_cached_block m"
  "m_spec (with_entry m rid) = m_spec m" "m_block_size (with_entry m rid) = m_block_size m"
  "kv_cache_group_id (with_entry m rid) = kv_cache_group_id m"
  by (auto simp: with_entry_def fun_eq_iff blocks_of_def)

lemma owned_cong:
  assumes "owned p m" "blocks_of m' = blocks_of m" "num_cached_block m' = num_cached_block m" "m_spec m' = m_spec m"
    "m_block_size m' = m_block_size m"
  shows "owned p m'"
proof -
  have ow: "owners m' = owners m" by (simp add: fun_eq_iff owners_def assms(2))
  show ?thesis using assms(1) unfolding owned_def tail_ok_def assms(2-5) ow .
qed

section \<open>Freeing a request\<close>

lemma count_list_distinct: "distinct xs \<Longrightarrow> count_list xs x = (if x \<in> set xs then 1 else 0)"
  by (induction xs) auto

lemma free_request_ok:
  assumes own: "owned p m"
  shows "\<exists>p' m'. free_request p m rid = Inr (p', m') \<and> owned p' m' \<and> pool_frame p' = pool_frame p \<and> block_hash p' = block_hash p
    \<and> blocks_of m' = (blocks_of m)(rid := []) \<and> num_cached_block m' = (num_cached_block m)(rid := None)
    \<and> m_spec m' = m_spec m \<and> m_block_size m' = m_block_size m \<and> kv_cache_group_id m' = kv_cache_group_id m"
proof -
  let ?t = "blocks_of m rid"
  define m' where "m' = m\<lparr>req_to_blocks := (req_to_blocks m)(rid := None), num_cached_block := (num_cached_block m)(rid := None)\<rparr>"
  note D = ownedD[OF own]
  have "freeable p (rev ?t)"
    using D(3)[of rid] D(2)[of rid] table_ref_pos[OF own] by (auto simp: freeable_def pool_blocks_def)
  from free_blocks_ok[OF D(1) this] obtain p' where
    f: "free_blocks p (rev ?t) = Inr p'" "pool_inv p'" "pool_frame p' = pool_frame p" "block_hash p' = block_hash p"
    "ref_cnt p' = (\<lambda>r. ref_cnt p r - int (count_list (rev ?t) r))" by blast
  have ref: "ref_cnt p' r = ref_cnt p r - (if r \<in> set ?t then 1 else 0)" for r
    using f(5) count_list_distinct[of "rev ?t" r] D(2)[of rid] by simp
  have bl: "blocks_of m' = (blocks_of m)(rid := [])" by (auto simp: m'_def fun_eq_iff blocks_of_def)
  have ow: "owners m' r = owners m r - {rid}" for r by (auto simp: owners_def bl)
  have u: "usable p' = usable p" by (rule pool_frame_usable[OF f(3)])
  have "finite (owners m' (Blk b)) \<and> ref_cnt p' (Blk b) = int (card (owners m' (Blk b)))" if b: "b \<in> usable p" for b
  proof (cases "rid \<in> owners m (Blk b)")
    case True
    then have "Blk b \<in> set ?t" by (simp add: owners_def)
    moreover have "card (owners m (Blk b)) > 0" using True D(4)[OF b] by (auto simp: card_gt_0_iff)
    ultimately show ?thesis using D(4,5)[OF b] True by (simp add: ref ow card_Diff_singleton of_nat_diff)
  next
    case False
    then have "Blk b \<notin> set ?t" by (simp add: owners_def)
    then show ?thesis using D(4,5)[OF b] False by (simp add: ref ow)
  qed
  moreover have "tail_ok p' m' rid'" for rid'
  proof (cases "rid' = rid")
    case True
    then show ?thesis by (simp add: tail_ok_def bl m'_def)
  next
    case False
    then have "num_cached_block m' rid' = num_cached_block m rid'" by (simp add: m'_def)
    then show ?thesis using D(6)[of rid'] False by (auto simp: tail_ok_def bl ow f(4) split: option.splits)
  qed
  ultimately have "owned p' m'" using D(2,3,7,8) f(2) u by (auto simp: owned_def bl m'_def)
  then show ?thesis using f bl by (auto simp: free_request_def m'_def)
qed

section \<open>Admitting a request with its prefix hit\<close>

definition evictable :: "block_pool \<Rightarrow> bref list \<Rightarrow> bref list" where
  "evictable p c = filter (\<lambda>blk. ref_cnt p blk = 0 \<and> \<not> is_null p blk) c"

lemma touch_free_count:
  assumes inv: "pool_inv p" and c: "distinct c" "set c \<subseteq> Blk ` usable p"
  shows "\<exists>p'. touch p [c] = Inr p' \<and> pool_inv p' \<and> pool_frame p' = pool_frame p \<and> block_hash p' = block_hash p
    \<and> ref_cnt p' = (\<lambda>r. ref_cnt p r + (if r \<in> set c then 1 else 0))
    \<and> get_num_free_blocks p' = get_num_free_blocks p - int (length (evictable p c))"
proof -
  have "\<forall>rs\<in>set [c]. set rs \<subseteq> pool_blocks p" using c by (auto simp: pool_blocks_def)
  from touch_ok[OF inv this] obtain p' where t: "touch p [c] = Inr p'" "pool_inv p'" "pool_frame p' = pool_frame p"
    "block_hash p' = block_hash p" "ref_cnt p' = (\<lambda>r. ref_cnt p r + int (count_list (concat [c]) r))" by blast
  have ref: "ref_cnt p' = (\<lambda>r. ref_cnt p r + (if r \<in> set c then 1 else 0))"
    using t(5) count_list_distinct[OF c(1)] by (auto simp: fun_eq_iff)
  have pos: "\<forall>b\<in>usable p. ref_cnt p (Blk b) \<ge> 0" and wf: "pool_wf p" using inv by (auto simp: pool_inv_def refs_inv_def)
  let ?Z = "{b \<in> usable p. ref_cnt p (Blk b) = 0}" and ?E = "{b \<in> usable p. ref_cnt p (Blk b) = 0 \<and> Blk b \<in> set c}"
  have z: "{b \<in> usable p. ref_cnt p' (Blk b) = 0} = ?Z - ?E" using pos by (force simp: ref)
  have fin: "finite (usable p)" by (simp add: usable_def)
  have null: "\<not> is_null p r" if "r \<in> set c" for r
    using that c(2) usable_not_null[of p] wf by (auto simp: pool_wf_def)
  have "set (evictable p c) = Blk ` ?E" using null c(2) by (auto simp: evictable_def)
  moreover have "distinct (evictable p c)" using c(1) by (simp add: evictable_def)
  ultimately have "length (evictable p c) = card ?E"
    by (metis (no_types, lifting) bref.inject card_image distinct_card inj_onI)
  moreover have "card (?Z - ?E) = card ?Z - card ?E" "card ?E \<le> card ?Z"
    using fin by (auto intro!: card_Diff_subset card_mono)
  ultimately have "get_num_free_blocks p' = get_num_free_blocks p - int (length (evictable p c))"
    using num_free_blocks_card[OF inv] num_free_blocks_card[OF t(2)] z pool_frame_usable[OF t(3)] by simp
  then show ?thesis using t ref by blast
qed

lemma admit_ok:
  assumes own: "owned p m" and new: "num_cached_block m rid = None"
    and c: "distinct c" "set c \<subseteq> Blk ` usable p" "\<forall>r\<in>set c. block_hash p r \<noteq> None"
    and t: "pool_inv p'" "pool_frame p' = pool_frame p" "block_hash p' = block_hash p"
      "ref_cnt p' = (\<lambda>r. ref_cnt p r + (if r \<in> set c then 1 else 0))"
  shows "\<exists>m'. save_new_computed_blocks m rid c = Inr m' \<and> owned p' m' \<and> blocks_of m' = (blocks_of m)(rid := c)
    \<and> num_cached_block m' = (num_cached_block m)(rid \<mapsto> length c) \<and> m_spec m' = m_spec m \<and> m_block_size m' = m_block_size m
    \<and> kv_cache_group_id m' = kv_cache_group_id m"
proof -
  note D = ownedD[OF own]
  have empty: "blocks_of m rid = []" using D(6)[of rid] new by (simp add: tail_ok_def)
  define m' where "m' = m\<lparr>req_to_blocks := (req_to_blocks m)(rid \<mapsto> c), num_cached_block := (num_cached_block m)(rid \<mapsto> length c)\<rparr>"
  have bl: "blocks_of m' = (blocks_of m)(rid := c)" by (auto simp: m'_def fun_eq_iff blocks_of_def)
  have ow: "owners m' r = (if r \<in> set c then insert rid (owners m r) else owners m r)" for r
    using empty by (auto simp: owners_def bl)
  have nin: "rid \<notin> owners m r" for r using empty by (simp add: owners_def)
  have "tail_ok p' m' rid'" for rid'
  proof (cases "rid' = rid")
    case True
    then show ?thesis by (simp add: tail_ok_def bl) (simp add: m'_def)
  next
    case False
    have "r \<notin> set c" if "block_hash p r = None" for r using c(3) that by auto
    moreover have "num_cached_block m' rid' = num_cached_block m rid'" using False by (simp add: m'_def)
    ultimately show ?thesis using D(6)[of rid'] False by (auto simp: tail_ok_def bl ow t(3) split: option.splits)
  qed
  moreover have "finite (owners m' (Blk b)) \<and> ref_cnt p' (Blk b) = int (card (owners m' (Blk b)))" if b: "b \<in> usable p" for b
    using D(4,5)[OF b] nin by (simp add: ow t(4))
  ultimately have "owned p' m'"
    using D(2,3,7,8) t(1) c(1,2) pool_frame_usable[OF t(2)] by (auto simp: owned_def bl m'_def)
  moreover have "save_new_computed_blocks m rid c = Inr m'"
    using not_cross[OF D(7)] new empty by (simp add: save_new_computed_blocks_def m'_def)
  ultimately show ?thesis using bl by (auto simp: m'_def)
qed

section \<open>Allocation\<close>

lemma allocate_new_blocks_ok:
  assumes own: "owned p m" and running: "num_cached_block m rid = Some nc"
    and enough: "ceil_div n (m_block_size m) - int (length (blocks_of m rid)) \<le> get_num_free_blocks p"
  shows "\<exists>bs p' m'. allocate_new_blocks p m rid n = Inr (bs, p', m') \<and> owned p' m' \<and> pool_frame p' = pool_frame p
    \<and> blocks_of m' = (blocks_of m)(rid := blocks_of m rid @ bs) \<and> num_cached_block m' = num_cached_block m
    \<and> m_spec m' = m_spec m \<and> m_block_size m' = m_block_size m \<and> kv_cache_group_id m' = kv_cache_group_id m
    \<and> int (length (blocks_of m rid @ bs)) = max (int (length (blocks_of m rid))) (ceil_div n (m_block_size m))"
proof -
  note D = ownedD[OF own]
  let ?k = "ceil_div n (m_block_size m) - int (length (blocks_of m rid))"
  have cd: "cdiv (n + speculative_tokens (m_spec m)) (m_block_size m) = Inr (ceil_div n (m_block_size m))"
    using not_cross[OF D(7)] D(8) by simp
  show ?thesis
  proof (cases "?k \<le> 0")
    case True
    have "owned p (with_entry m rid)" by (rule owned_cong[OF own]) simp_all
    moreover have "allocate_new_blocks p m rid n = Inr ([], p, with_entry m rid)"
      using True by (simp add: allocate_new_blocks_def cd)
    ultimately show ?thesis using True by (intro exI[of _ "[]"] exI[of _ p] exI[of _ "with_entry m rid"]) auto
  next
    case False
    then have "int (nat ?k) \<le> get_num_free_blocks p" using enough by simp
    from get_new_blocks_ok[OF D(1) this] obtain bs p' where
      g: "get_new_blocks p (nat ?k) = Inr (map Blk bs, p')" "length bs = nat ?k" "distinct bs" "set bs \<subseteq> usable p"
      "\<forall>b\<in>set bs. ref_cnt p (Blk b) = 0" "pool_inv p'" "pool_frame p' = pool_frame p"
      "ref_cnt p' = (\<lambda>r. if r \<in> Blk ` set bs then 1 else ref_cnt p r)"
      "block_hash p' = (\<lambda>r. if r \<in> Blk ` set bs then None else block_hash p r)" by blast
    define m' where "m' = m\<lparr>req_to_blocks := (req_to_blocks m)(rid \<mapsto> blocks_of m rid @ map Blk bs)\<rparr>"
    have bl: "blocks_of m' = (blocks_of m)(rid := blocks_of m rid @ map Blk bs)"
      by (auto simp: m'_def fun_eq_iff blocks_of_def)
    have fresh: "owners m (Blk b) = {}" if "b \<in> set bs" for b
      using unowned_iff[OF own, of b] g(4,5) that by (auto simp: owners_def)
    have ow: "owners m' r = (if r \<in> Blk ` set bs then {rid} else owners m r)" for r
      using fresh by (auto simp: owners_def bl)
    have "finite (owners m' (Blk b)) \<and> ref_cnt p' (Blk b) = int (card (owners m' (Blk b)))" if b: "b \<in> usable p" for b
      using D(4,5)[OF b] by (simp add: ow g(8))
    moreover have "tail_ok p' m' rid'" for rid'
    proof (cases "rid' = rid")
      case True
      have "nc \<le> length (blocks_of m rid)" "\<forall>r\<in>set (drop nc (blocks_of m rid)). block_hash p r = None \<and> owners m r = {rid}"
        using D(6)[of rid] running by (simp_all add: tail_ok_def)
      moreover have "num_cached_block m' rid = Some nc" using running by (simp add: m'_def)
      ultimately show ?thesis using True by (auto simp: tail_ok_def bl ow g(9))
    next
      case False
      have "r \<notin> Blk ` set bs" if "owners m r = {rid'}" for r using fresh that by auto
      moreover have "num_cached_block m' = num_cached_block m" by (simp add: m'_def)
      ultimately show ?thesis using D(6)[of rid'] False by (auto simp: tail_ok_def bl ow g(9) split: option.splits)
    qed
    moreover have "distinct (blocks_of m rid @ map Blk bs)"
      using D(2)[of rid] g(3) fresh by (auto simp: distinct_map inj_on_def owners_def)
    ultimately have "owned p' m'"
      using D(2,3,7,8) g(4,6) pool_frame_usable[OF g(7)] by (auto simp: owned_def bl m'_def)
    moreover have "allocate_new_blocks p m rid n = Inr (map Blk bs, p', m')"
      using False g(1) by (simp add: allocate_new_blocks_def cd m'_def)
    ultimately show ?thesis using bl g(2,7) False
      by (intro exI[of _ "map Blk bs"] exI[of _ p'] exI[of _ m']) (auto simp: m'_def)
  qed
qed

section \<open>Caching full blocks\<close>

lemma cache_blocks_ok:
  assumes own: "owned p m" and running: "num_cached_block m (request_id r) = Some nc"
    and en: "enable_caching p" "\<not> enable_kv_cache_events p" and g: "0 \<le> kv_cache_group_id m" "kv_cache_group_id m < 2 ^ 32"
    and nf: "nc \<le> nf" "nf \<le> length (blocks_of m (request_id r))" "nf \<le> length (block_hashes r)" "int nf = int n div m_block_size m"
  shows "\<exists>p' m'. cache_blocks p m r n = Inr (p', m') \<and> owned p' m' \<and> pool_frame p' = pool_frame p \<and> ref_cnt p' = ref_cnt p
    \<and> blocks_of m' = blocks_of m \<and> num_cached_block m' = (num_cached_block m)(request_id r \<mapsto> nf)
    \<and> m_spec m' = m_spec m \<and> m_block_size m' = m_block_size m \<and> kv_cache_group_id m' = kv_cache_group_id m
    \<and> (\<forall>i. nc \<le> i \<longrightarrow> i < nf \<longrightarrow> block_hash p' (blocks_of m (request_id r) ! i) = Some (group_key (block_hashes r ! i) (kv_cache_group_id m)))"
proof -
  note D = ownedD[OF own]
  let ?rid = "request_id r" and ?new = "drop nc (take nf (blocks_of m (request_id r)))"
  have sub: "set ?new \<subseteq> set (drop nc (blocks_of m ?rid))" by (metis drop_take set_take_subset)
  have tail: "\<forall>b\<in>set ?new. block_hash p b = None \<and> owners m b = {?rid}"
    using D(6)[of ?rid] running sub by (auto simp: tail_ok_def)
  have "set ?new \<subseteq> set (blocks_of m ?rid)" by (meson order_trans set_drop_subset set_take_subset)
  then have "cacheable p r (blocks_of m ?rid) nc nf (kv_cache_group_id m)"
    using en g nf D(2,3)[of ?rid] tail by (auto simp: cacheable_def)
  note c = this
  have "\<exists>p'. cache_full_blocks p r (blocks_of m ?rid) nc nf (nat (m_block_size m)) (kv_cache_group_id m) = Inr p'"
  proof (cases "nc = nf")
    case False
    show ?thesis
    proof (rule cache_full_blocks_loop[OF D(1) c])
      fix p'
      assume "cache_loop p (kv_cache_group_id m) ?new (drop nc (block_hashes r)) = Inr p'" "pool_frame p' = pool_frame p"
      then show ?thesis using False nf en by (simp add: cache_full_blocks_def pool_frame_def)
    qed
  qed (simp add: cache_full_blocks_def)
  then obtain p' where p': "cache_full_blocks p r (blocks_of m ?rid) nc nf (nat (m_block_size m)) (kv_cache_group_id m) = Inr p'" ..
  note i = cache_full_blocks_inv[OF D(1) c p']
  have inv: "pool_inv p'" and fr: "pool_frame p' = pool_frame p" and rf: "ref_cnt p' = ref_cnt p"
    and hs: "\<And>j. nc \<le> j \<Longrightarrow> j < nf \<Longrightarrow> block_hash p' (blocks_of m ?rid ! j) = Some (group_key (block_hashes r ! j) (kv_cache_group_id m))"
    and ot: "\<And>b. b \<notin> set ?new \<Longrightarrow> block_hash p' b = block_hash p b" using i by simp_all
  define m' where "m' = (with_entry m ?rid)\<lparr>num_cached_block := (num_cached_block m)(?rid \<mapsto> nf)\<rparr>"
  have bl: "blocks_of m' = blocks_of m" by (simp add: m'_def fun_eq_iff)
  have ow: "owners m' = owners m" by (simp add: owners_def bl fun_eq_iff)
  have cnt: "num_cached_block m' ?rid = Some nf" by (simp add: m'_def)
  have "tail_ok p' m' rid'" for rid'
  proof (cases "rid' = ?rid")
    case True
    have "set (take nf (blocks_of m ?rid)) \<inter> set (drop nf (blocks_of m ?rid)) = {}"
      using D(2) by (intro set_take_disj_set_drop_if_distinct) auto
    then have "b \<notin> set ?new" if "b \<in> set (drop nf (blocks_of m ?rid))" for b
      using that set_drop_subset[of nc "take nf (blocks_of m ?rid)"] by blast
    moreover have "set (drop nf (blocks_of m ?rid)) \<subseteq> set (drop nc (blocks_of m ?rid))" using nf(1) by (rule set_drop_subset_set_drop)
    ultimately show ?thesis using D(6)[of ?rid] running nf(2) True ot by (auto simp: tail_ok_def bl ow cnt)
  next
    case False
    then have "num_cached_block m' rid' = num_cached_block m rid'" by (simp add: m'_def)
    moreover have "b \<notin> set ?new" if "owners m b = {rid'}" for b using tail that False by auto
    ultimately show ?thesis using D(6)[of rid'] ot by (auto simp: tail_ok_def bl ow split: option.splits)
  qed
  then have "owned p' m'" using own inv rf pool_frame_usable[OF fr] by (simp add: owned_def bl ow) (simp add: m'_def)
  moreover have "cache_blocks p m r n = Inr (p', m')"
    using not_cross[OF D(7)] running D(8) p' nf(4) by (simp add: cache_blocks_def m'_def flip: nf(4))
  ultimately show ?thesis using fr rf hs bl by (intro exI[of _ p'] exI[of _ m']) (auto simp: m'_def)
qed

end
