(* ===== verification/KV_Config.thy ===== *)
theory KV_Config
  imports KV_Spec "HOL-Library.Multiset"
begin

text \<open>
  \<open>vllm/v1/core/kv_cache_utils.py\<close>, second half: how many blocks fit into the memory, the longest model
  length that fits, and the grouping of layers into KV-cache groups and memory pools. Dictionaries from
  layer names to specs are association lists in insertion order.
\<close>

type_synonym spec_dict = "(string \<times> kv_cache_spec) list"

record kv_cache_tensor =
  size_bytes :: int
  shared_by :: "string list"

record kv_cache_group =
  layer_names :: "string list"
  group_spec :: kv_cache_spec

record kv_cache_config =
  num_blocks :: int
  kv_cache_tensors :: "kv_cache_tensor list"
  kv_cache_groups :: "kv_cache_group list"

section \<open>Memory needed\<close>

definition max_memory_usage_bytes :: "vllm_config \<Rightarrow> kv_cache_spec list \<Rightarrow> int result" where
  "max_memory_usage_bytes cfg specs = bindE (mapM (spec_max_memory_usage_bytes cfg) specs) (\<lambda>l. Inr (sum_list l))"

definition fits_in_memory :: "vllm_config \<Rightarrow> kv_cache_spec list \<Rightarrow> int \<Rightarrow> int \<Rightarrow> bool result" where
  "fits_in_memory cfg specs available_memory model_len =
     bindE (max_memory_usage_bytes (cfg\<lparr>max_model_len := model_len\<rparr>) specs) (\<lambda>m. Inr (m \<le> available_memory))"

text \<open>The binary search; every probe overwrites \<open>max_model_len\<close> of the configuration.\<close>

function length_search ::
  "kv_cache_spec list \<Rightarrow> int \<Rightarrow> int \<Rightarrow> int \<Rightarrow> int \<Rightarrow> vllm_config \<Rightarrow> (int \<times> vllm_config) result" where
  "length_search specs mem left right res cfg =
     (if left \<le> right
      then (let mid = (left + right) div 2; cfg' = cfg\<lparr>max_model_len := mid\<rparr>
            in case fits_in_memory cfg specs mem mid of
                 Inl e \<Rightarrow> Inl e
               | Inr True \<Rightarrow> length_search specs mem (mid + 1) right mid cfg'
               | Inr False \<Rightarrow> length_search specs mem left (mid - 1) res cfg')
      else Inr (res, cfg))"
  by pat_completeness auto
termination by (relation "measure (\<lambda>(specs, mem, left, right, res, cfg). nat (right - left + 1))") auto

declare length_search.simps [simp del]

definition estimate_max_model_len :: "vllm_config \<Rightarrow> spec_dict \<Rightarrow> int \<Rightarrow> (int \<times> vllm_config) result" where
  "estimate_max_model_len cfg kv_cache_spec available_memory =
     (let specs = map snd kv_cache_spec; current_max = max_model_len cfg
      in bindE (fits_in_memory cfg specs available_memory 1)
           (\<lambda>ok. if \<not> ok then Inr (0, cfg\<lparr>max_model_len := 1\<rparr>)
                 else length_search specs available_memory 1 current_max 1 (cfg\<lparr>max_model_len := 1\<rparr>)))"

text \<open>The text of the error message, which reports the estimate, is left out; an exception inside the
  estimate escapes.\<close>

definition check_enough_kv_cache_memory :: "vllm_config \<Rightarrow> spec_dict \<Rightarrow> int \<Rightarrow> unit result" where
  "check_enough_kv_cache_memory cfg kv_cache_spec available_memory =
     (if kv_cache_spec = [] then Inr ()
      else if available_memory \<le> 0 then Inl ValueError
      else bindE (max_memory_usage_bytes cfg (map snd kv_cache_spec))
        (\<lambda>needed_memory.
           if needed_memory > available_memory
           then bindE (estimate_max_model_len cfg kv_cache_spec available_memory) (\<lambda>_. Inl ValueError)
           else Inr ()))"

section \<open>Groups\<close>

definition create_kv_cache_group_specs :: "spec_dict \<Rightarrow> string list list \<Rightarrow> kv_cache_group list result" where
  "create_kv_cache_group_specs kv_cache_spec grouped_layer_names =
     mapM (\<lambda>names.
       bindE (mapM (\<lambda>name. case map_of kv_cache_spec name of None \<Rightarrow> Inl KeyError | Some s \<Rightarrow> Inr s) names)
         (\<lambda>layer_specs. bindE (merge layer_specs) (\<lambda>s. Inr \<lparr>layer_names = names, group_spec = s\<rparr>)))
       grouped_layer_names"

text \<open>Only \<open>AssertionError\<close> is caught.\<close>

definition is_kv_cache_type_uniform :: "spec_dict \<Rightarrow> bool result" where
  "is_kv_cache_type_uniform kv_cache_spec =
     (case merge (map snd kv_cache_spec) of
        Inr _ \<Rightarrow> Inr True
      | Inl AssertionError \<Rightarrow> Inr False
      | Inl e \<Rightarrow> Inl e)"

definition get_max_concurrency_for_kv_cache_config :: "vllm_config \<Rightarrow> kv_cache_config \<Rightarrow> real result" where
  "get_max_concurrency_for_kv_cache_config cfg c =
     (case kv_cache_groups c of
        [] \<Rightarrow> Inl ValueError
      | g0 # _ \<Rightarrow>
          (let num_layer_per_group = int (Max (set (map (length \<circ> layer_names) (kv_cache_groups c))))
           in bindE (max_memory_usage_bytes cfg (map group_spec (kv_cache_groups c))) (\<lambda>m.
              bindE (page_size_bytes (group_spec g0)) (\<lambda>page.
              bindE (cdiv (num_layer_per_group * m) (page * num_layer_per_group)) (\<lambda>num_block_per_request.
                if num_block_per_request = 0 then Inl ZeroDivisionError
                else Inr (real_of_int (num_blocks c) / real_of_int num_block_per_request))))))"

definition get_num_blocks :: "vllm_config \<Rightarrow> int \<Rightarrow> int \<Rightarrow> int \<Rightarrow> int result" where
  "get_num_blocks cfg num_layers available_memory page_size =
     bindE (floordiv available_memory page_size) (\<lambda>n1.
     bindE (floordiv n1 num_layers) (\<lambda>n2.
       Inr (case num_gpu_blocks_override cfg of None \<Rightarrow> max n2 0 | Some n \<Rightarrow> n)))"

definition get_uniform_page_size :: "spec_dict \<Rightarrow> int result" where
  "get_uniform_page_size kv_cache_spec =
     bindE (mapM (page_size_bytes \<circ> snd) kv_cache_spec)
       (\<lambda>sizes. case remdups sizes of [s] \<Rightarrow> Inr s | _ \<Rightarrow> Inl AssertionError)"

definition is_kv_cache_page_size_uniform :: "spec_dict \<Rightarrow> bool result" where
  "is_kv_cache_page_size_uniform kv_cache_spec =
     bindE (mapM (page_size_bytes \<circ> snd) kv_cache_spec) (\<lambda>sizes. Inr (length (remdups sizes) = 1))"

definition get_kv_cache_config_uniform_type :: "vllm_config \<Rightarrow> spec_dict \<Rightarrow> int \<Rightarrow> kv_cache_config result" where
  "get_kv_cache_config_uniform_type cfg kv_cache_spec available_memory =
     bindE (get_uniform_page_size kv_cache_spec) (\<lambda>page_size.
     bindE (get_num_blocks cfg (int (length kv_cache_spec)) available_memory page_size) (\<lambda>n.
     bindE (create_kv_cache_group_specs kv_cache_spec [map fst kv_cache_spec]) (\<lambda>groups.
       let c = \<lparr>num_blocks = n,
                kv_cache_tensors = map (\<lambda>name. \<lparr>size_bytes = page_size * n, shared_by = [name]\<rparr>) (map fst kv_cache_spec),
                kv_cache_groups = groups\<rparr>
       in bindE (get_max_concurrency_for_kv_cache_config cfg c) (\<lambda>_. Inr c))))"

section \<open>Hybrid models\<close>

text \<open>\<open>same_type_layers[layer_spec].append(layer_name)\<close> on a dictionary keyed by spec.\<close>

fun add_layer :: "kv_cache_spec \<Rightarrow> string \<Rightarrow> (kv_cache_spec \<times> string list) list \<Rightarrow> (kv_cache_spec \<times> string list) list" where
  "add_layer s name [] = [(s, [name])]"
| "add_layer s name ((s', names) # rest) =
     (if s' = s then (s', names @ [name]) # rest else (s', names) # add_layer s name rest)"

definition same_type_layers :: "spec_dict \<Rightarrow> (kv_cache_spec \<times> string list) list" where
  "same_type_layers kv_cache_spec = fold (\<lambda>(name, s) d. add_layer s name d) kv_cache_spec []"

text \<open>\<open>layers[i:i + group_size] for i in range(0, len(layers), group_size)\<close>; the group size is positive.\<close>

function chunks :: "nat \<Rightarrow> 'a list \<Rightarrow> 'a list list" where
  "chunks n xs = (if xs = [] \<or> n = 0 then [] else take n xs # chunks n (drop n xs))"
  by pat_completeness auto
termination by (relation "measure (length \<circ> snd)") auto

declare chunks.simps [simp del]

definition grouped_layers :: "spec_dict \<Rightarrow> nat \<Rightarrow> string list list" where
  "grouped_layers kv_cache_spec group_size = concat (map (chunks group_size \<circ> snd) (same_type_layers kv_cache_spec))"

definition group_size_of :: "spec_dict \<Rightarrow> nat" where
  "group_size_of kv_cache_spec = Min (set (map (length \<circ> snd) (same_type_layers kv_cache_spec)))"

definition pool_tensors :: "string list list \<Rightarrow> nat \<Rightarrow> int \<Rightarrow> kv_cache_tensor list" where
  "pool_tensors groups group_size pool_bytes =
     map (\<lambda>i. \<lparr>size_bytes = pool_bytes, shared_by = map (\<lambda>g. g ! i) (filter (\<lambda>g. i < length g) groups)\<rparr>) [0..<group_size]"

definition get_kv_cache_config_uniform_page_size :: "vllm_config \<Rightarrow> spec_dict \<Rightarrow> int \<Rightarrow> kv_cache_config result" where
  "get_kv_cache_config_uniform_page_size cfg kv_cache_spec available_memory =
     (if same_type_layers kv_cache_spec = [] then Inl ValueError
      else (let group_size = group_size_of kv_cache_spec; gl = grouped_layers kv_cache_spec group_size
       in bindE (create_kv_cache_group_specs kv_cache_spec gl) (\<lambda>groups.
          bindE (get_uniform_page_size kv_cache_spec) (\<lambda>page_size.
          bindE (get_num_blocks cfg (int group_size) available_memory page_size) (\<lambda>n.
            let c = \<lparr>num_blocks = n, kv_cache_tensors = pool_tensors gl group_size (page_size * n), kv_cache_groups = groups\<rparr>
            in bindE (get_max_concurrency_for_kv_cache_config cfg c) (\<lambda>_. Inr c))))))"

definition get_kv_cache_config_attention_free :: kv_cache_config where
  "get_kv_cache_config_attention_free = \<lparr>num_blocks = 1, kv_cache_tensors = [], kv_cache_groups = []\<rparr>"

fun to_full_attention :: "kv_cache_spec \<Rightarrow> kv_cache_spec" where
  "to_full_attention (SlidingWindowSpec a w) = FullAttentionSpec a (Some w) None"
| "to_full_attention (ChunkedLocalAttentionSpec a c) = FullAttentionSpec a None (Some c)"
| "to_full_attention s = s"

definition unify_hybrid_kv_cache_specs :: "spec_dict \<Rightarrow> spec_dict result" where
  "unify_hybrid_kv_cache_specs kv_cache_spec =
     bindE (is_kv_cache_type_uniform kv_cache_spec) (\<lambda>uniform.
       if uniform then Inr kv_cache_spec
       else (let specs = map snd kv_cache_spec;
                 d = (if list_ex is_full_attention specs \<and> (list_ex is_sliding_window specs \<or> list_ex is_chunked_local specs)
                      then map (\<lambda>(name, s). (name, to_full_attention s)) kv_cache_spec else kv_cache_spec)
             in bindE (is_kv_cache_type_uniform d) (\<lambda>uniform. if uniform then Inr d else Inl ValueError)))"

definition get_kv_cache_config :: "vllm_config \<Rightarrow> spec_dict \<Rightarrow> int \<Rightarrow> kv_cache_config result" where
  "get_kv_cache_config cfg kv_cache_spec available_memory =
     bindE (check_enough_kv_cache_memory cfg kv_cache_spec available_memory) (\<lambda>_.
     bindE (if disable_hybrid_kv_cache_manager cfg then unify_hybrid_kv_cache_specs kv_cache_spec else Inr kv_cache_spec) (\<lambda>d.
       if d = [] then Inr get_kv_cache_config_attention_free
       else bindE (is_kv_cache_type_uniform d) (\<lambda>uniform.
         if uniform then get_kv_cache_config_uniform_type cfg d available_memory
         else bindE (is_kv_cache_page_size_uniform d) (\<lambda>same_page.
           if same_page then get_kv_cache_config_uniform_page_size cfg d available_memory
           else Inl NotImplementedError))))"

section \<open>The longest length that fits\<close>

fun spec_ok :: "vllm_config \<Rightarrow> kv_cache_spec \<Rightarrow> bool" where
  "spec_ok cfg (FullAttentionSpec a _ _) \<longleftrightarrow> sp_block_size a > 0 \<and> attention_page_size a \<ge> 0"
| "spec_ok cfg (RabitQAttentionSpec a _ _ _ _ _) \<longleftrightarrow> sp_block_size a > 0 \<and> attention_page_size a \<ge> 0"
| "spec_ok cfg (ChunkedLocalAttentionSpec a _) \<longleftrightarrow> sp_block_size a > 0 \<and> attention_page_size a \<ge> 0"
| "spec_ok cfg (SlidingWindowSpec a _) \<longleftrightarrow>
     sp_block_size a > 0 \<and> attention_page_size a \<ge> 0 \<and> decode_context_parallel_size cfg = 1"
| "spec_ok cfg (MambaSpec b sh p ty n) \<longleftrightarrow> (\<exists>m. page_size_bytes (MambaSpec b sh p ty n) = Inr m)"
| "spec_ok cfg (EncoderOnlyAttentionSpec a) \<longleftrightarrow> True"
| "spec_ok cfg (CrossAttentionSpec a) \<longleftrightarrow> sp_block_size a > 0"

lemma spec_memory_mono:
  assumes "spec_ok cfg s"
  shows "\<exists>f. mono f \<and> (\<forall>len. spec_max_memory_usage_bytes (cfg\<lparr>max_model_len := len\<rparr>) s = Inr (f len))"
proof -
  have full: "\<exists>f. mono f \<and> (\<forall>len. spec_max_memory_usage_bytes (cfg\<lparr>max_model_len := len\<rparr>) (FullAttentionSpec a w c) = Inr (f len))"
    if a: "sp_block_size a > 0" "attention_page_size a \<ge> 0" for a w c
  proof (cases "decode_context_parallel_size cfg > 1")
    case True
    then show ?thesis using a
      by (intro exI[of _ "\<lambda>len. ceil_div (ceil_div len (decode_context_parallel_size cfg)) (sp_block_size a) * attention_page_size a"])
        (auto simp: Let_def intro!: monoI mult_right_mono ceil_div_mono)
  next
    case False
    then show ?thesis using a
      by (intro exI[of _ "\<lambda>len. ceil_div len (sp_block_size a) * attention_page_size a"])
        (auto simp: Let_def intro!: monoI mult_right_mono ceil_div_mono)
  qed
  show ?thesis
  proof (cases s)
    case (FullAttentionSpec a w c)
    then show ?thesis using assms full by simp
  next
    case (RabitQAttentionSpec a w c b k t)
    then show ?thesis using assms full[of a] by simp
  next
    case (ChunkedLocalAttentionSpec a c)
    then show ?thesis using assms
      by (intro exI[of _ "\<lambda>len. ceil_div (min (c + max_num_batched_tokens cfg) len) (sp_block_size a) * attention_page_size a"])
        (auto simp: Let_def intro!: monoI mult_right_mono ceil_div_mono)
  next
    case (SlidingWindowSpec a w)
    then show ?thesis using assms
      by (intro exI[of _ "\<lambda>len. (ceil_div (min (w - 1 + max_num_batched_tokens cfg) len) (sp_block_size a) + 1) * attention_page_size a"])
        (auto simp: Let_def intro!: monoI mult_right_mono ceil_div_mono)
  next
    case (MambaSpec b sh p ty n)
    then show ?thesis using assms by (auto simp: mono_def)
  next
    case (EncoderOnlyAttentionSpec a)
    then show ?thesis by (intro exI[of _ "\<lambda>len. 0"]) (auto simp: mono_def)
  next
    case (CrossAttentionSpec a)
    then show ?thesis using assms
      by (intro exI[of _ "\<lambda>len. ceil_div (max_encoder_len cfg) (sp_block_size a) * attention_page_size a"]) (auto simp: mono_def)
  qed
qed

lemma memory_mono:
  "\<forall>s\<in>set specs. spec_ok cfg s \<Longrightarrow>
   \<exists>F. mono F \<and> (\<forall>len. max_memory_usage_bytes (cfg\<lparr>max_model_len := len\<rparr>) specs = Inr (F len))"
proof (induction specs)
  case Nil
  then show ?case by (intro exI[of _ "\<lambda>_. 0"]) (auto simp: max_memory_usage_bytes_def mono_def)
next
  case (Cons s specs)
  from Cons obtain F where F: "mono F" "\<And>len. max_memory_usage_bytes (cfg\<lparr>max_model_len := len\<rparr>) specs = Inr (F len)" by auto
  from spec_memory_mono Cons.prems obtain f where
    f: "mono f" "\<And>len. spec_max_memory_usage_bytes (cfg\<lparr>max_model_len := len\<rparr>) s = Inr (f len)" by (meson list.set_intros(1))
  have "max_memory_usage_bytes (cfg\<lparr>max_model_len := len\<rparr>) (s # specs) = Inr (f len + F len)" for len
    using F(2)[of len] f(2)[of len]
    by (cases "mapM (spec_max_memory_usage_bytes (cfg\<lparr>max_model_len := len\<rparr>)) specs") (auto simp: max_memory_usage_bytes_def)
  moreover have "mono (\<lambda>len. f len + F len)" using f(1) F(1) by (auto simp: mono_def add_mono)
  ultimately show ?case by blast
qed

lemma length_search_max:
  assumes F: "mono F"
  shows "(\<And>len. max_memory_usage_bytes (base\<lparr>max_model_len := len\<rparr>) specs = Inr (F len)) \<Longrightarrow> cfg = base\<lparr>max_model_len := x\<rparr> \<Longrightarrow>
    \<exists>r y. length_search specs mem left right res cfg = Inr (r, base\<lparr>max_model_len := y\<rparr>)
      \<and> (r = res \<or> left \<le> r \<and> r \<le> right \<and> F r \<le> mem)
      \<and> (\<forall>len. left \<le> len \<longrightarrow> len \<le> right \<longrightarrow> F len \<le> mem \<longrightarrow> left \<le> r \<and> len \<le> r)"
proof (induction specs mem left right res cfg arbitrary: x rule: length_search.induct)
  case (1 specs mem left right res cfg)
  show ?case
  proof (cases "left \<le> right")
    case False
    then show ?thesis using "1.prems"(2) by (subst length_search.simps) auto
  next
    case True
    define mid where "mid = (left + right) div 2"
    have mid: "left \<le> mid" "mid \<le> right" using True by (auto simp: mid_def)
    let ?cfg = "cfg\<lparr>max_model_len := mid\<rparr>"
    have cfg: "?cfg = base\<lparr>max_model_len := mid\<rparr>" using "1.prems"(2) by simp
    show ?thesis
    proof (cases "F mid \<le> mem")
      case fits: True
      then have f: "fits_in_memory cfg specs mem mid = Inr True"
        using "1.prems"(1)[of mid] "1.prems"(2) by (simp add: fits_in_memory_def)
      from "1.IH"(1)[OF True mid_def refl f _ "1.prems"(1) cfg] obtain r y where
        IH: "length_search specs mem (mid + 1) right mid ?cfg = Inr (r, base\<lparr>max_model_len := y\<rparr>)"
        "r = mid \<or> mid + 1 \<le> r \<and> r \<le> right \<and> F r \<le> mem"
        "\<forall>len. mid + 1 \<le> len \<longrightarrow> len \<le> right \<longrightarrow> F len \<le> mem \<longrightarrow> mid + 1 \<le> r \<and> len \<le> r" by auto
      have "length_search specs mem left right res cfg = length_search specs mem (mid + 1) right mid ?cfg"
        by (subst length_search.simps) (use True f in \<open>simp add: Let_def mid_def\<close>)
      moreover have "mid \<le> r" using IH(2) by auto
      moreover have "left \<le> r \<and> len \<le> r" if "left \<le> len" "len \<le> right" "F len \<le> mem" for len
        using IH(3)[rule_format, of len] that mid \<open>mid \<le> r\<close> by (cases "len \<le> mid") auto
      ultimately show ?thesis using IH(1,2) mid fits by auto
    next
      case no: False
      then have f: "fits_in_memory cfg specs mem mid = Inr False"
        using "1.prems"(1)[of mid] "1.prems"(2) by (simp add: fits_in_memory_def)
      from "1.IH"(2)[OF True mid_def refl f _ "1.prems"(1) cfg] obtain r y where
        IH: "length_search specs mem left (mid - 1) res ?cfg = Inr (r, base\<lparr>max_model_len := y\<rparr>)"
        "r = res \<or> left \<le> r \<and> r \<le> mid - 1 \<and> F r \<le> mem"
        "\<forall>len. left \<le> len \<longrightarrow> len \<le> mid - 1 \<longrightarrow> F len \<le> mem \<longrightarrow> left \<le> r \<and> len \<le> r" by auto
      have big: "len \<le> mid - 1" if "F len \<le> mem" for len
        using that no monoD[OF F, of mid len] by linarith
      have "length_search specs mem left right res cfg = length_search specs mem left (mid - 1) res ?cfg"
        by (subst length_search.simps) (use True f in \<open>simp add: Let_def mid_def\<close>)
      moreover have "r = res \<or> left \<le> r \<and> r \<le> right \<and> F r \<le> mem" using IH(2) mid by auto
      moreover have "left \<le> r \<and> len \<le> r" if "left \<le> len" "F len \<le> mem" for len
        using IH(3) that big by blast
      ultimately show ?thesis using IH(1) by auto
    qed
  qed
qed

text \<open>C29. The estimate reported when the memory is too small is exact: for layers with sensible specs the binary
  search ends without an exception and returns the longest model length, up to the configured one, whose KV
  cache fits into the available memory, or 0 if not even length 1 fits. It leaves the configuration with the
  last probed length instead of the configured one.\<close>

theorem estimate_is_longest_fitting_length:
  assumes ok: "\<forall>s\<in>set (map snd kv_cache_spec). spec_ok cfg s" and len: "max_model_len cfg \<ge> 1"
  shows "\<exists>r cfg'. estimate_max_model_len cfg kv_cache_spec mem = Inr (r, cfg')
    \<and> 0 \<le> r \<and> r \<le> max_model_len cfg
    \<and> (r > 0 \<longrightarrow> fits_in_memory cfg (map snd kv_cache_spec) mem r = Inr True)
    \<and> (\<forall>l. max r 0 < l \<longrightarrow> l \<le> max_model_len cfg \<longrightarrow> fits_in_memory cfg (map snd kv_cache_spec) mem l = Inr False)
    \<and> cfg' = cfg\<lparr>max_model_len := max_model_len cfg'\<rparr>"
proof -
  let ?specs = "map snd kv_cache_spec"
  obtain F where F: "mono F" "\<And>len. max_memory_usage_bytes (cfg\<lparr>max_model_len := len\<rparr>) ?specs = Inr (F len)"
    using memory_mono[OF ok] by blast
  have fits: "fits_in_memory cfg ?specs mem l = Inr (F l \<le> mem)" for l
    by (simp add: fits_in_memory_def F(2))
  show ?thesis
  proof (cases "F 1 \<le> mem")
    case False
    then have "\<not> F l \<le> mem" if "1 \<le> l" for l using monoD[OF F(1) that] by linarith
    then show ?thesis using False len
      by (intro exI[of _ 0] exI[of _ "cfg\<lparr>max_model_len := 1\<rparr>"]) (auto simp: estimate_max_model_len_def fits Let_def)
  next
    case True
    from length_search_max[OF F(1) F(2), of "cfg\<lparr>max_model_len := 1\<rparr>" 1 mem 1 "max_model_len cfg" 1] obtain r y where
      s: "length_search ?specs mem 1 (max_model_len cfg) 1 (cfg\<lparr>max_model_len := 1\<rparr>) = Inr (r, cfg\<lparr>max_model_len := y\<rparr>)"
      and r: "r = 1 \<or> 1 \<le> r \<and> r \<le> max_model_len cfg \<and> F r \<le> mem"
      and m: "\<forall>l. 1 \<le> l \<longrightarrow> l \<le> max_model_len cfg \<longrightarrow> F l \<le> mem \<longrightarrow> 1 \<le> r \<and> l \<le> r" by auto
    have "\<not> F l \<le> mem" if "max r 0 < l" "l \<le> max_model_len cfg" for l using m[rule_format, of l] that r by auto
    then show ?thesis using True len s r
      by (intro exI[of _ r] exI[of _ "cfg\<lparr>max_model_len := y\<rparr>"]) (auto simp: estimate_max_model_len_def fits Let_def)
  qed
qed

definition demo_config :: vllm_config where
  "demo_config = \<lparr>max_model_len = 100, decode_context_parallel_size = 1, max_num_batched_tokens = 64, max_encoder_len = 0,
     num_gpu_blocks_override = None, disable_hybrid_kv_cache_manager = True, cache_block_size = 16\<rparr>"

theorem estimate_is_longest_fitting_length_witness:
  "\<exists>r cfg'. estimate_max_model_len demo_config [(''l0'', FullAttentionSpec demo_attention None None)] (3 * 65536) = Inr (r, cfg')
    \<and> fits_in_memory demo_config [FullAttentionSpec demo_attention None None] (3 * 65536) 48 = Inr True \<and> 48 \<le> r \<and> r < 49"
proof -
  let ?d = "[(''l0'', FullAttentionSpec demo_attention None None)]"
  have "\<forall>s\<in>set (map snd ?d). spec_ok demo_config s" "max_model_len demo_config \<ge> 1"
    by (simp_all add: demo_attention_def demo_config_def attention_page_size_def get_dtype_size_def)
  from estimate_is_longest_fitting_length[OF this, of "3 * 65536"] obtain r cfg' where
    e: "estimate_max_model_len demo_config ?d (3 * 65536) = Inr (r, cfg')"
    and r: "0 \<le> r" "r > 0 \<longrightarrow> fits_in_memory demo_config (map snd ?d) (3 * 65536) r = Inr True"
    "\<forall>l. max r 0 < l \<longrightarrow> l \<le> max_model_len demo_config \<longrightarrow> fits_in_memory demo_config (map snd ?d) (3 * 65536) l = Inr False"
    by auto
  have f: "fits_in_memory demo_config (map snd ?d) (3 * 65536) l = Inr (ceil_div l 16 \<le> 3)" for l
    by (simp add: fits_in_memory_def max_memory_usage_bytes_def demo_config_def demo_attention_def attention_page_size_def get_dtype_size_def Let_def)
  have c: "ceil_div l 16 \<le> 3 \<longleftrightarrow> l \<le> 48" for l using ceil_div_least[of 16 l 3] by simp
  have "max_model_len demo_config = 100" by (simp add: demo_config_def)
  then have "48 \<le> r" using r(3)[rule_format, of 48] c[of 48] unfolding f by (cases "48 \<le> r") auto
  moreover have "r < 49" using r(2) c[of r] unfolding f by auto
  ultimately show ?thesis using e f[of 48] c[of 48] by simp
qed

section \<open>Grouping of layers\<close>

lemma chunks_concat: "n > 0 \<Longrightarrow> concat (chunks n xs) = xs"
  by (induction n xs rule: chunks.induct) (subst chunks.simps, auto)

lemma chunks_length: "c \<in> set (chunks n xs) \<Longrightarrow> c \<noteq> [] \<and> length c \<le> n \<and> set c \<subseteq> set xs"
proof (induction n xs rule: chunks.induct)
  case (1 n xs)
  show ?case
  proof (cases "xs = [] \<or> n = 0")
    case True
    then show ?thesis using "1.prems" by (subst (asm) chunks.simps) auto
  next
    case False
    then have "c = take n xs \<or> c \<in> set (chunks n (drop n xs))" using "1.prems" by (subst (asm) chunks.simps) auto
    then show ?thesis using "1.IH" False set_take_subset[of n xs] set_drop_subset[of n xs] by auto
  qed
qed

text \<open>Layers in the dictionary of specs: each under its own spec, none lost, no empty entry.\<close>

definition layers_ok :: "(kv_cache_spec \<times> string list) list \<Rightarrow> spec_dict \<Rightarrow> bool" where
  "layers_ok d ls \<longleftrightarrow> mset (concat (map snd d)) = mset (map fst ls)
     \<and> (\<forall>(s, names)\<in>set d. names \<noteq> [] \<and> (\<forall>name\<in>set names. (name, s) \<in> set ls))"

lemma add_layer_mset: "mset (concat (map snd (add_layer s name d))) = add_mset name (mset (concat (map snd d)))"
  by (induction s name d rule: add_layer.induct) auto

lemma add_layer_entry: "(s', names) \<in> set (add_layer s name d) \<Longrightarrow>
    (s', names) \<in> set d \<or> s' = s \<and> (names = [name] \<or> (\<exists>ns. (s, ns) \<in> set d \<and> names = ns @ [name]))"
  by (induction s name d rule: add_layer.induct) (auto split: if_splits)

lemma layers_ok_add: "layers_ok d ls \<Longrightarrow> layers_ok (add_layer s name d) (ls @ [(name, s)])"
  unfolding layers_ok_def add_layer_mset by (fastforce dest: add_layer_entry)

lemma layers_ok_fold: "layers_ok d ls \<Longrightarrow> layers_ok (fold (\<lambda>(name, s) d. add_layer s name d) rs d) (ls @ rs)"
proof (induction rs arbitrary: d ls)
  case (Cons r rs)
  from Cons.IH[OF layers_ok_add[OF Cons.prems, of "snd r" "fst r"]] show ?case by (simp add: case_prod_beta)
qed simp

lemma same_type_layers_ok: "layers_ok (same_type_layers d) d"
  using layers_ok_fold[of "[]" "[]" d] by (simp add: same_type_layers_def layers_ok_def)

lemma group_size_pos:
  assumes "same_type_layers d \<noteq> []"
  shows "group_size_of d > 0"
proof -
  have "Min (set (map (length \<circ> snd) (same_type_layers d))) \<in> set (map (length \<circ> snd) (same_type_layers d))"
    by (intro Min_in) (use assms in auto)
  then show ?thesis using same_type_layers_ok[of d] by (fastforce simp: group_size_of_def layers_ok_def)
qed

lemma concat_grouped_layers:
  assumes "group_size > 0"
  shows "concat (grouped_layers d group_size) = concat (map snd (same_type_layers d))"
proof -
  have "concat (concat (map (chunks group_size \<circ> snd) l)) = concat (map snd l)" for l :: "(kv_cache_spec \<times> string list) list"
    by (induction l) (auto simp: chunks_concat[OF assms])
  then show ?thesis by (simp add: grouped_layers_def)
qed

lemma mset_columns:
  assumes "\<forall>g\<in>set gs. length g \<le> k"
  shows "mset (concat (map (\<lambda>i. map (\<lambda>g. g ! i) (filter (\<lambda>g. i < length g) gs)) [0..<k])) = mset (concat gs)"
  using assms
proof (induction gs)
  case Nil
  show ?case by (induction k) auto
next
  case (Cons g gs)
  have row: "mset (concat (map (\<lambda>i. if i < length g then [g ! i] else []) [0..<k])) = mset g"
  proof -
    have "[0..<k] = [0..<length g] @ [length g..<k]" using Cons.prems upt_add_eq_append[of 0 "length g" "k - length g"] by simp
    moreover have "concat (map (\<lambda>i. if i < length g then [g ! i] else []) [0..<length g]) = map ((!) g) [0..<length g]"
    proof -
      have "map (\<lambda>i. if i < length g then [g ! i] else []) [0..<length g] = map (\<lambda>i. [g ! i]) [0..<length g]" by simp
      then show ?thesis by (simp only: concat_map_singleton)
    qed
    moreover have "concat (map (\<lambda>i. if i < length g then [g ! i] else []) [length g..<k]) = []" by auto
    ultimately show ?thesis by (simp add: map_nth)
  qed
  have "mset (concat (map (\<lambda>i. map (\<lambda>g. g ! i) (filter (\<lambda>g. i < length g) (g # gs))) xs))
      = mset (concat (map (\<lambda>i. if i < length g then [g ! i] else []) xs))
        + mset (concat (map (\<lambda>i. map (\<lambda>g. g ! i) (filter (\<lambda>g. i < length g) gs)) xs))" for xs
    by (induction xs) auto
  then show ?case using Cons row by simp
qed

lemma mapM_length: "mapM f xs = Inr ys \<Longrightarrow> length ys = length xs"
  by (induction xs arbitrary: ys) (auto simp: result_simps)

lemma mapM_nth: "mapM f xs = Inr ys \<Longrightarrow> i < length xs \<Longrightarrow> f (xs ! i) = Inr (ys ! i)"
  by (induction xs arbitrary: ys i) (auto simp: result_simps nth_Cons split: nat.splits)

lemma group_specs_names: "create_kv_cache_group_specs d gl = Inr groups \<Longrightarrow> map layer_names groups = gl"
proof (rule nth_equalityI)
  assume c: "create_kv_cache_group_specs d gl = Inr groups"
  show len: "length (map layer_names groups) = length gl"
    using mapM_length[OF c[unfolded create_kv_cache_group_specs_def]] by simp
  fix i assume "i < length (map layer_names groups)"
  then show "map layer_names groups ! i = gl ! i"
    using mapM_nth[OF c[unfolded create_kv_cache_group_specs_def], of i] len
    by (auto simp: result_simps dest!: arg_cong[where f = layer_names])
qed

lemma case_singleton: "(case l of [] \<Rightarrow> Inl e | [s] \<Rightarrow> Inr s | _ \<Rightarrow> Inl e) = Inr x \<longleftrightarrow> l = [x]"
  by (cases l; cases "tl l") auto

lemma num_blocks_memory:
  assumes "get_num_blocks cfg k mem page = Inr n" "num_gpu_blocks_override cfg = None" "page > 0" "k > 0" "mem \<ge> 0"
  shows "n \<ge> 0 \<and> k * (page * n) \<le> mem"
proof -
  have "mem div page div k \<ge> 0" using assms by (simp add: pos_imp_zdiv_nonneg_iff)
  then have n: "n = mem div page div k" using assms by (auto simp: get_num_blocks_def max_def)
  have "k * (mem div page div k) \<le> mem div page"
    using mult_div_mod_eq[of k "mem div page"] pos_mod_sign[OF assms(4), of "mem div page"] by linarith
  then have "page * (k * n) \<le> page * (mem div page)" using assms(3) n by (intro mult_left_mono) auto
  also have "\<dots> \<le> mem" using mult_div_mod_eq[of page mem] pos_mod_sign[OF assms(3), of mem] by linarith
  finally show ?thesis using n assms by (simp add: mult.left_commute pos_imp_zdiv_nonneg_iff)
qed

text \<open>C28. Memory layout of hybrid models. Whenever a configuration is produced for layers with equal page sizes,
  every layer is in exactly one group and in exactly one memory pool, groups are not empty and hold at most as
  many layers as there are pools, the layers of a group have one and the same spec, no pool is shared by two
  layers of one group, and (without an override of the block number) the pools together fit into the available
  memory.\<close>

theorem hybrid_layout:
  assumes c: "get_kv_cache_config_uniform_page_size cfg d mem = Inr c"
  shows "mset (concat (map layer_names (kv_cache_groups c))) = mset (map fst d)
    \<and> mset (concat (map shared_by (kv_cache_tensors c))) = mset (map fst d)
    \<and> (\<forall>g\<in>set (kv_cache_groups c). layer_names g \<noteq> [] \<and> length (layer_names g) \<le> length (kv_cache_tensors c)
         \<and> (\<exists>s. \<forall>name\<in>set (layer_names g). (name, s) \<in> set d))
    \<and> (\<forall>t\<in>set (kv_cache_tensors c). \<exists>i. shared_by t = map (\<lambda>g. layer_names g ! i) (filter (\<lambda>g. i < length (layer_names g)) (kv_cache_groups c)))
    \<and> (num_gpu_blocks_override cfg = None \<and> mem \<ge> 0 \<and> (\<forall>(name, s)\<in>set d. \<exists>b>0. page_size_bytes s = Inr b) \<longrightarrow>
         (\<Sum>t\<leftarrow>kv_cache_tensors c. size_bytes t) \<le> mem)"
proof -
  let ?k = "group_size_of d" and ?gl = "grouped_layers d (group_size_of d)"
  have ne: "same_type_layers d \<noteq> []" using c by (auto simp: get_kv_cache_config_uniform_page_size_def)
  then obtain groups page n where g: "create_kv_cache_group_specs d ?gl = Inr groups" "get_uniform_page_size d = Inr page"
    "get_num_blocks cfg (int ?k) mem page = Inr n"
    and C: "c = \<lparr>num_blocks = n, kv_cache_tensors = pool_tensors ?gl ?k (page * n), kv_cache_groups = groups\<rparr>"
    using c by (auto simp: get_kv_cache_config_uniform_page_size_def result_simps Let_def)
  have k: "?k > 0" by (rule group_size_pos[OF ne])
  have names: "map layer_names groups = ?gl" by (rule group_specs_names[OF g(1)])
  have m: "mset (concat ?gl) = mset (map fst d)"
    using same_type_layers_ok[of d] by (simp only: concat_grouped_layers[OF k] layers_ok_def)
  have chunk: "gr \<noteq> [] \<and> length gr \<le> ?k \<and> (\<exists>s. \<forall>name\<in>set gr. (name, s) \<in> set d)" if gr: "gr \<in> set ?gl" for gr
  proof -
    from gr obtain s ns where e: "(s, ns) \<in> set (same_type_layers d)" "gr \<in> set (chunks ?k ns)" by (auto simp: grouped_layers_def)
    have "\<forall>name\<in>set ns. (name, s) \<in> set d" using same_type_layers_ok[of d] e(1) by (auto simp: layers_ok_def)
    then show ?thesis using chunks_length[OF e(2)] by blast
  qed
  have 1: "mset (concat (map layer_names (kv_cache_groups c))) = mset (map fst d)" using m by (simp add: C names)
  have 2: "mset (concat (map shared_by (kv_cache_tensors c))) = mset (map fst d)"
    using mset_columns[of ?gl ?k] chunk m by (simp add: C pool_tensors_def comp_def)
  have 3: "layer_names gr \<noteq> [] \<and> length (layer_names gr) \<le> length (kv_cache_tensors c)
      \<and> (\<exists>s. \<forall>name\<in>set (layer_names gr). (name, s) \<in> set d)" if "gr \<in> set (kv_cache_groups c)" for gr
  proof -
    have "layer_names gr \<in> set ?gl" using that names by (metis C imageI kv_cache_config.select_convs(3) list.set_map)
    then show ?thesis using chunk by (simp add: C pool_tensors_def)
  qed
  have 4: "\<exists>i. shared_by t = map (\<lambda>g. layer_names g ! i) (filter (\<lambda>g. i < length (layer_names g)) (kv_cache_groups c))"
    if "t \<in> set (kv_cache_tensors c)" for t
    using that by (auto simp: C pool_tensors_def names[symmetric] filter_map comp_def)
  have 5: "(\<Sum>t\<leftarrow>kv_cache_tensors c. size_bytes t) \<le> mem"
    if a: "num_gpu_blocks_override cfg = None" "mem \<ge> 0" "\<forall>(name, s)\<in>set d. \<exists>b>0. page_size_bytes s = Inr b"
  proof -
    from g(2) obtain sizes where sz: "mapM (page_size_bytes \<circ> snd) d = Inr sizes" "remdups sizes = [page]"
      by (auto simp: get_uniform_page_size_def result_simps case_singleton)
    then have "page \<in> set sizes" by (metis list.set_intros(1) set_remdups)
    then obtain i where i: "i < length d" "sizes ! i = page" using mapM_length[OF sz(1)] by (metis in_set_conv_nth)
    then have "page_size_bytes (snd (d ! i)) = Inr page" using mapM_nth[OF sz(1), of i] by simp
    then have "page > 0" using a(3) i(1) nth_mem[of i d] by fastforce
    then have "int ?k * (page * n) \<le> mem" using num_blocks_memory[OF g(3)] a k by simp
    moreover have "(\<Sum>t\<leftarrow>kv_cache_tensors c. size_bytes t) = int ?k * (page * n)"
      by (simp add: C pool_tensors_def comp_def sum_list_triv)
    ultimately show ?thesis by simp
  qed
  show ?thesis using 1 2 3 4 5 by blast
qed

definition demo_hybrid :: spec_dict where
  "demo_hybrid = [(''full.0'', RabitQAttentionSpec demo_attention None None (Some 4) None None),
     (''sw.0'', SlidingWindowSpec demo_attention 32), (''sw.1'', SlidingWindowSpec demo_attention 32)]"

theorem hybrid_layout_witness:
  "\<exists>c. get_kv_cache_config_uniform_page_size demo_config demo_hybrid 1000000 = Inr c
    \<and> mset (concat (map shared_by (kv_cache_tensors c))) = {#''full.0'', ''sw.0'', ''sw.1''#}"
proof -
  have st: "same_type_layers demo_hybrid = [(RabitQAttentionSpec demo_attention None None (Some 4) None None, [''full.0'']),
      (SlidingWindowSpec demo_attention 32, [''sw.0'', ''sw.1''])]"
    by (simp add: same_type_layers_def demo_hybrid_def)
  have gs: "group_size_of demo_hybrid = 1" by (simp add: group_size_of_def st)
  have gl: "grouped_layers demo_hybrid (group_size_of demo_hybrid) = [[''full.0''], [''sw.0''], [''sw.1'']]"
    unfolding gs by (simp add: grouped_layers_def st chunks.simps)
  have grp: "create_kv_cache_group_specs demo_hybrid [[''full.0''], [''sw.0''], [''sw.1'']]
    = Inr [\<lparr>layer_names = [''full.0''], group_spec = RabitQAttentionSpec demo_attention None None (Some 4) None None\<rparr>,
      \<lparr>layer_names = [''sw.0''], group_spec = SlidingWindowSpec demo_attention 32\<rparr>,
      \<lparr>layer_names = [''sw.1''], group_spec = SlidingWindowSpec demo_attention 32\<rparr>]"
    by (simp add: demo_hybrid_def create_kv_cache_group_specs_def merge_def merge_full_def merge_window_sizes_def
        merge_value_def List.map_filter_def)
  have page: "get_uniform_page_size demo_hybrid = Inr 65536"
    by (simp add: demo_hybrid_def get_uniform_page_size_def demo_attention_def attention_page_size_def get_dtype_size_def)
  have n: "get_num_blocks demo_config (int (group_size_of demo_hybrid)) 1000000 65536 = Inr 15"
    unfolding gs by (simp add: get_num_blocks_def demo_config_def)
  have "\<exists>c. get_kv_cache_config_uniform_page_size demo_config demo_hybrid 1000000 = Inr c"
    unfolding get_kv_cache_config_uniform_page_size_def Let_def gl grp page n bindE.simps
    by (simp add: st get_max_concurrency_for_kv_cache_config_def max_memory_usage_bytes_def ceil_div_def demo_config_def
        demo_attention_def attention_page_size_def get_dtype_size_def Let_def)
  then obtain c where c: "get_kv_cache_config_uniform_page_size demo_config demo_hybrid 1000000 = Inr c" by blast
  from hybrid_layout[OF c] c show ?thesis by (intro exI[of _ c]) (simp add: demo_hybrid_def)
qed

section \<open>Hybrid models with RaBitQ layers\<close>

lemma merge_full_mixed:
  assumes "\<forall>s\<in>set specs. s = RabitQAttentionSpec a None None b k t \<or> s = FullAttentionSpec a (Some w) None"
    and "FullAttentionSpec a (Some w) None \<in> set specs"
  shows "merge_full specs = Inr (a, Some w, None)"
proof -
  have "set (List.map_filter (fst \<circ> full_windows) specs) = {w}"
    using assms by (force simp: List.map_filter_def)
  then have "remdups (List.map_filter (fst \<circ> full_windows) specs) = [w]"
    by (metis distinct_remdups distinct_card card.empty card.insert finite.emptyI empty_iff length_0_conv length_Suc_conv
        list.set_intros(1) set_remdups singletonD One_nat_def)
  moreover have "List.map_filter (snd \<circ> full_windows) specs = []"
    using assms(1) by (auto simp: List.map_filter_def filter_empty_conv)
  moreover obtain s0 rest where specs: "specs = s0 # rest" using assms(2) by (cases specs) auto
  moreover have "\<forall>s\<in>set specs. attention_part s = Some a \<and> is_full_attention s" using assms(1) by auto
  ultimately show ?thesis by (simp add: merge_full_def merge_window_sizes_def)
qed

text \<open>Disabling the hybrid KV-cache manager on a model that mixes RaBitQ layers with sliding-window layers
  does not work as meant, and how it fails depends on the order of the layers. If the first layer is a RaBitQ
  layer, the conversion raises \<open>AttributeError\<close> (the converted layers have no RaBitQ attributes, and only
  \<open>AssertionError\<close> is caught). If the first layer is a sliding-window layer, it succeeds and the layers are merged
  into a plain full-attention spec, in which RaBitQ is silently lost.\<close>

theorem hybrid_rabitq_not_unified:
  assumes layers: "\<forall>(name, s)\<in>set d. s = RabitQAttentionSpec a None None b k t \<or> s = SlidingWindowSpec a w"
    and both: "RabitQAttentionSpec a None None b k t \<in> set (map snd d)" "SlidingWindowSpec a w \<in> set (map snd d)"
  shows "if is_rabitq (snd (hd d)) then unify_hybrid_kv_cache_specs d = Inl AttributeError
    else \<exists>d'. unify_hybrid_kv_cache_specs d = Inr d' \<and> map fst d' = map fst d
           \<and> merge (map snd d') = Inr (FullAttentionSpec a (Some w) None)"
proof -
  let ?R = "RabitQAttentionSpec a None None b k t" and ?F = "FullAttentionSpec a (Some w) None"
  let ?d = "map (\<lambda>(name, s). (name, to_full_attention s)) d"
  have in_d: "\<forall>s\<in>set (map snd d). s = ?R \<or> s = SlidingWindowSpec a w" using layers by auto
  obtain n0 s0 rest where d: "d = (n0, s0) # rest" using both(1) by (cases d) auto
  have "merge (map snd d) = Inl AssertionError"
  proof (cases "is_rabitq s0")
    case True
    then have "s0 = ?R" using in_d d by auto
    moreover have "\<not> (\<forall>s\<in>set (map snd d). is_full_attention s)"
      using both(2) by (metis is_full_attention.simps(4))
    then have "merge_full (map snd d) = Inl AssertionError" unfolding merge_full_def by (rule if_P)
    ultimately show ?thesis using d by (simp add: merge_def)
  next
    case False
    then have "s0 = SlidingWindowSpec a w" using in_d d by auto
    then show ?thesis using both(1) d by (force simp: merge_def)
  qed
  then have u0: "is_kv_cache_type_uniform d = Inr False" by (simp add: is_kv_cache_type_uniform_def)
  have conv: "map snd ?d = map to_full_attention (map snd d)" by (simp add: case_prod_beta comp_def)
  have mixed: "\<forall>s\<in>set (map snd ?d). s = ?R \<or> s = ?F" "?F \<in> set (map snd ?d)"
    unfolding conv using in_d both(2) by force+
  note mf = merge_full_mixed[OF mixed]
  have ex: "list_ex is_full_attention (map snd d)" "list_ex is_sliding_window (map snd d)"
    unfolding list_ex_iff using both by (metis is_full_attention.simps(2), metis is_sliding_window.simps(1))
  have un: "unify_hybrid_kv_cache_specs d = bindE (is_kv_cache_type_uniform ?d) (\<lambda>uniform. if uniform then Inr ?d else Inl ValueError)"
    using u0 ex by (simp add: unify_hybrid_kv_cache_specs_def Let_def)
  show ?thesis
  proof (cases "is_rabitq s0")
    case True
    then have s0: "s0 = ?R" using in_d d by auto
    have "mapM rabitq_fields (map snd ?d) = Inl AttributeError"
    proof -
      have "mapM rabitq_fields ss = Inl AttributeError" if "\<forall>s\<in>set ss. s = ?R \<or> s = ?F" "?F \<in> set ss" for ss
        using that by (induction ss) auto
      then show ?thesis using mixed by blast
    qed
    then have "merge (map snd ?d) = Inl AttributeError" using mf d s0 by (simp add: merge_def)
    then show ?thesis using un d True by (simp add: is_kv_cache_type_uniform_def)
  next
    case False
    then have s0: "s0 = SlidingWindowSpec a w" using in_d d by auto
    have m: "merge (map snd ?d) = Inr ?F" using mf d s0 by (simp add: merge_def)
    then have "is_kv_cache_type_uniform ?d = Inr True" by (simp only: is_kv_cache_type_uniform_def sum.case)
    then have "unify_hybrid_kv_cache_specs d = Inr ?d" using un by simp
    moreover have "map fst ?d = map fst d" by (simp add: case_prod_beta comp_def)
    ultimately show ?thesis using m d False by auto
  qed
qed

theorem hybrid_rabitq_not_unified_witness:
  "unify_hybrid_kv_cache_specs demo_hybrid = Inl AttributeError"
proof -
  have "\<forall>(name, s)\<in>set demo_hybrid. s = RabitQAttentionSpec demo_attention None None (Some 4) None None \<or> s = SlidingWindowSpec demo_attention 32"
    "RabitQAttentionSpec demo_attention None None (Some 4) None None \<in> set (map snd demo_hybrid)"
    "SlidingWindowSpec demo_attention 32 \<in> set (map snd demo_hybrid)" by (simp_all add: demo_hybrid_def)
  from hybrid_rabitq_not_unified[OF this] show ?thesis by (simp add: demo_hybrid_def)
qed

text \<open>A model without attention layers gets the one-block configuration made for it, unless the hybrid manager
  is disabled: then the check whether the (empty) list of specs is uniform raises \<open>IndexError\<close> first.\<close>

theorem attention_free_config:
  "get_kv_cache_config cfg [] mem =
     (if disable_hybrid_kv_cache_manager cfg then Inl IndexError else Inr get_kv_cache_config_attention_free)"
  by (simp add: get_kv_cache_config_def check_enough_kv_cache_memory_def unify_hybrid_kv_cache_specs_def
      is_kv_cache_type_uniform_def merge_def)

end
