(* ===== verification/KV_Coordinator.thy ===== *)
theory KV_Coordinator
  imports KV_Manager KV_Config
begin

text \<open>
  \<open>vllm/v1/core/kv_cache_coordinator.py\<close> and \<open>kv_cache_manager.py\<close>: the coordinator runs the managers of
  all KV-cache groups on the shared pool; the \<open>KVCacheManager\<close> is what the scheduler calls.
\<close>

section \<open>Coordinators\<close>

record hybrid_split =
  full_attention_group_ids :: "nat list"
  other_group_ids :: "nat list"
  full_attention_spec :: kv_cache_spec
  other_spec :: kv_cache_spec
  full_attn_first :: bool

datatype coordinator_kind = No_prefix_cache | Unitary | Hybrid hybrid_split

record coordinator =
  co_kind :: coordinator_kind
  co_pool :: block_pool
  managers :: "manager list"
  co_use_eagle :: bool
  co_enable_caching :: bool
  co_dcp_world_size :: int

definition init_coordinator ::
  "coordinator_kind \<Rightarrow> kv_cache_config \<Rightarrow> bool \<Rightarrow> bool \<Rightarrow> bool \<Rightarrow> bool \<Rightarrow> int \<Rightarrow> coordinator result" where
  "init_coordinator kind c use_eagle caching enable_events use_int dcp_world_size =
     bindE (init_pool (num_blocks c) caching enable_events use_int) (\<lambda>p.
     bindE (mapM (\<lambda>(i, g). get_manager_for_kv_cache_spec (group_spec g) (int i) dcp_world_size)
              (enumerate 0 (kv_cache_groups c))) (\<lambda>ms.
       Inr \<lparr>co_kind = kind, co_pool = p, managers = ms, co_use_eagle = use_eagle, co_enable_caching = caching,
            co_dcp_world_size = dcp_world_size\<rparr>))"

text \<open>\<open>verify_and_split_kv_cache_groups\<close>: the loop over the groups with the spec of each class seen first.\<close>

fun split_loop ::
  "(nat \<times> kv_cache_group) list \<Rightarrow> kv_cache_spec option \<Rightarrow> kv_cache_spec option \<Rightarrow> nat list \<Rightarrow> nat list
   \<Rightarrow> (kv_cache_spec option \<times> kv_cache_spec option \<times> nat list \<times> nat list) result" where
  "split_loop [] fs os fids oids = Inr (fs, os, fids, oids)"
| "split_loop ((i, g) # rest) fs os fids oids =
     (let s = group_spec g
      in if is_full_attention s
         then (case fs of
                 None \<Rightarrow> split_loop rest (Some s) os (fids @ [i]) oids
               | Some f \<Rightarrow> if f = s then split_loop rest fs os (fids @ [i]) oids else Inl AssertionError)
         else (case os of
                 None \<Rightarrow> split_loop rest fs (Some s) fids (oids @ [i])
               | Some f \<Rightarrow> if f = s then split_loop rest fs os fids (oids @ [i]) else Inl AssertionError))"

definition verify_and_split_kv_cache_groups :: "kv_cache_config \<Rightarrow> bool \<Rightarrow> hybrid_split result" where
  "verify_and_split_kv_cache_groups c caching =
     bindE (split_loop (enumerate 0 (kv_cache_groups c)) None None [] []) (\<lambda>(fs, os, fids, oids).
       case (fs, os) of
         (Some f, Some s) \<Rightarrow>
           if caching \<and> spec_block_size f = 0 then Inl ZeroDivisionError
           else if caching \<and> spec_block_size s mod spec_block_size f \<noteq> 0 then Inl AssertionError
           else (let split = (\<lambda>first. \<lparr>full_attention_group_ids = fids, other_group_ids = oids,
                               full_attention_spec = f, other_spec = s, full_attn_first = first\<rparr>)
                 in if Max (set fids) < Min (set oids) then Inr (split True)
                    else if Max (set oids) < Min (set fids) then Inr (split False)
                    else Inl ValueError)
       | _ \<Rightarrow> Inl AssertionError)"

definition get_kv_cache_coordinator ::
  "kv_cache_config \<Rightarrow> bool \<Rightarrow> bool \<Rightarrow> bool \<Rightarrow> bool \<Rightarrow> int \<Rightarrow> coordinator result" where
  "get_kv_cache_coordinator c use_eagle caching enable_events use_int dcp_world_size =
     (if \<not> caching then init_coordinator No_prefix_cache c use_eagle False enable_events use_int dcp_world_size
      else if length (kv_cache_groups c) = 1
      then init_coordinator Unitary c use_eagle caching enable_events use_int dcp_world_size
      else bindE (init_coordinator No_prefix_cache c use_eagle caching enable_events use_int dcp_world_size) (\<lambda>co.
           if dcp_world_size \<noteq> 1 then Inl AssertionError
           else bindE (verify_and_split_kv_cache_groups c caching) (\<lambda>split. Inr (co\<lparr>co_kind := Hybrid split\<rparr>))))"

text \<open>The methods that loop over the managers; new computed blocks are indexed by group.\<close>

fun num_blocks_loop :: "block_pool \<Rightarrow> manager list \<Rightarrow> string \<Rightarrow> int \<Rightarrow> bref list list \<Rightarrow> int \<Rightarrow> (int \<times> manager list) result" where
  "num_blocks_loop p [] rid n_tokens computed n_encoder = Inr (0, [])"
| "num_blocks_loop p (m # ms) rid n_tokens computed n_encoder =
     bindE (if is_cross (m_spec m) then get_num_blocks_to_allocate p m rid n_encoder []
            else case computed of
              [] \<Rightarrow> Inl IndexError
            | c # _ \<Rightarrow> get_num_blocks_to_allocate p m rid n_tokens c) (\<lambda>(n, m').
     bindE (num_blocks_loop p ms rid n_tokens (tl computed) n_encoder) (\<lambda>(k, ms'). Inr (n + k, m' # ms')))"

fun save_loop :: "manager list \<Rightarrow> string \<Rightarrow> bref list list \<Rightarrow> manager list result" where
  "save_loop [] rid computed = Inr []"
| "save_loop (m # ms) rid computed =
     (case computed of
        [] \<Rightarrow> Inl IndexError
      | c # cs \<Rightarrow> bindE (save_new_computed_blocks m rid c) (\<lambda>m'. bindE (save_loop ms rid cs) (\<lambda>ms'. Inr (m' # ms'))))"

fun allocate_loop :: "block_pool \<Rightarrow> manager list \<Rightarrow> string \<Rightarrow> int \<Rightarrow> int \<Rightarrow> (bref list list \<times> block_pool \<times> manager list) result" where
  "allocate_loop p [] rid n_tokens n_encoder = Inr ([], p, [])"
| "allocate_loop p (m # ms) rid n_tokens n_encoder =
     bindE (allocate_new_blocks p m rid (if is_cross (m_spec m) then n_encoder else n_tokens)) (\<lambda>(bs, p', m').
     bindE (allocate_loop p' ms rid n_tokens n_encoder) (\<lambda>(bss, p'', ms'). Inr (bs # bss, p'', m' # ms')))"

fun each_manager :: "(block_pool \<Rightarrow> manager \<Rightarrow> (block_pool \<times> manager) result) \<Rightarrow> block_pool \<Rightarrow> manager list \<Rightarrow> (block_pool \<times> manager list) result" where
  "each_manager f p [] = Inr (p, [])"
| "each_manager f p (m # ms) =
     bindE (f p m) (\<lambda>(p', m'). bindE (each_manager f p' ms) (\<lambda>(p'', ms'). Inr (p'', m' # ms')))"

definition co_get_num_blocks_to_allocate :: "coordinator \<Rightarrow> string \<Rightarrow> int \<Rightarrow> bref list list \<Rightarrow> int \<Rightarrow> (int \<times> coordinator) result" where
  "co_get_num_blocks_to_allocate co rid n_tokens computed n_encoder =
     bindE (num_blocks_loop (co_pool co) (managers co) rid n_tokens computed n_encoder)
       (\<lambda>(n, ms). Inr (n, co\<lparr>managers := ms\<rparr>))"

definition co_save_new_computed_blocks :: "coordinator \<Rightarrow> string \<Rightarrow> bref list list \<Rightarrow> coordinator result" where
  "co_save_new_computed_blocks co rid computed =
     bindE (save_loop (managers co) rid computed) (\<lambda>ms. Inr (co\<lparr>managers := ms\<rparr>))"

definition co_allocate_new_blocks :: "coordinator \<Rightarrow> string \<Rightarrow> int \<Rightarrow> int \<Rightarrow> (bref list list \<times> coordinator) result" where
  "co_allocate_new_blocks co rid n_tokens n_encoder =
     bindE (allocate_loop (co_pool co) (managers co) rid n_tokens n_encoder)
       (\<lambda>(bss, p, ms). Inr (bss, co\<lparr>co_pool := p, managers := ms\<rparr>))"

definition co_each :: "(block_pool \<Rightarrow> manager \<Rightarrow> (block_pool \<times> manager) result) \<Rightarrow> coordinator \<Rightarrow> coordinator result" where
  "co_each f co = bindE (each_manager f (co_pool co) (managers co)) (\<lambda>(p, ms). Inr (co\<lparr>co_pool := p, managers := ms\<rparr>))"

definition co_cache_blocks :: "coordinator \<Rightarrow> request \<Rightarrow> nat \<Rightarrow> coordinator result" where
  "co_cache_blocks co r n_tokens = co_each (\<lambda>p m. cache_blocks p m r n_tokens) co"

definition co_free :: "coordinator \<Rightarrow> string \<Rightarrow> coordinator result" where
  "co_free co rid = co_each (\<lambda>p m. free_request p m rid) co"

definition co_remove_skipped_blocks :: "coordinator \<Rightarrow> string \<Rightarrow> int \<Rightarrow> coordinator result" where
  "co_remove_skipped_blocks co rid n = co_each (\<lambda>p m. remove_skipped_blocks p m rid n) co"

definition co_get_num_common_prefix_blocks :: "coordinator \<Rightarrow> string \<Rightarrow> int \<Rightarrow> nat list" where
  "co_get_num_common_prefix_blocks co rid num_running_requests =
     (case co_kind co of
        No_prefix_cache \<Rightarrow> replicate (length (managers co)) 0
      | _ \<Rightarrow> map (\<lambda>m. get_num_common_prefix_blocks (co_pool co) m rid num_running_requests) (managers co))"

definition co_get_blocks :: "coordinator \<Rightarrow> string \<Rightarrow> bref list list" where
  "co_get_blocks co rid = map (\<lambda>m. blocks_of m rid) (managers co)"

definition hybrid_find_longest_cache_hit :: "coordinator \<Rightarrow> hybrid_split \<Rightarrow> byte_list list \<Rightarrow> int \<Rightarrow> (bref list list \<times> int) result" where
  "hybrid_find_longest_cache_hit co sp hashes max_length =
     bindE (full_find_longest_cache_hit hashes max_length (map int (full_attention_group_ids sp)) (co_pool co)
              (full_attention_spec sp) (co_use_eagle co) 1) (\<lambda>hit_full.
       case hit_full of
         [] \<Rightarrow> Inl IndexError
       | f0 # _ \<Rightarrow>
         bindE (find_longest_cache_hit hashes (int (length f0) * spec_block_size (full_attention_spec sp))
                  (map int (other_group_ids sp)) (co_pool co) (other_spec sp) (co_use_eagle co) 1) (\<lambda>hit_other.
           case hit_other of
             [] \<Rightarrow> Inl IndexError
           | o0 # _ \<Rightarrow>
             (let hit_length = int (length o0) * spec_block_size (other_spec sp);
                  fb = spec_block_size (full_attention_spec sp)
              in if fb = 0 then Inl ZeroDivisionError
                 else if hit_length mod fb \<noteq> 0 then Inl AssertionError
                 else (let hit_full' = map (take (nat (hit_length div fb))) hit_full
                       in Inr (if full_attn_first sp then hit_full' @ hit_other else hit_other @ hit_full', hit_length)))))"

definition co_find_longest_cache_hit :: "coordinator \<Rightarrow> byte_list list \<Rightarrow> int \<Rightarrow> (bref list list \<times> int) result" where
  "co_find_longest_cache_hit co hashes max_length =
     (case co_kind co of
        No_prefix_cache \<Rightarrow> Inr (replicate (length (managers co)) [], 0)
      | Unitary \<Rightarrow>
          (case managers co of
             [] \<Rightarrow> Inl IndexError
           | m # _ \<Rightarrow>
               bindE (find_longest_cache_hit hashes max_length [0] (co_pool co) (m_spec m) (co_use_eagle co) (co_dcp_world_size co))
                 (\<lambda>hit. case hit of [] \<Rightarrow> Inl IndexError | h # _ \<Rightarrow> Inr (hit, int (length h) * m_block_size m)))
      | Hybrid sp \<Rightarrow> hybrid_find_longest_cache_hit co sp hashes max_length)"

section \<open>The manager the scheduler calls\<close>

record prefix_cache_stats =
  stat_reset :: bool
  stat_requests :: nat
  stat_queries :: nat
  stat_hits :: int

definition empty_stats :: prefix_cache_stats where
  "empty_stats = \<lparr>stat_reset = False, stat_requests = 0, stat_queries = 0, stat_hits = 0\<rparr>"

record kv_manager =
  km_max_model_len :: int
  km_enable_caching :: bool
  log_stats :: bool
  prefix_cache_stats :: "prefix_cache_stats option"
  coord :: coordinator
  num_kv_cache_groups :: nat

definition init_kv_manager ::
  "kv_cache_config \<Rightarrow> int \<Rightarrow> bool \<Rightarrow> bool \<Rightarrow> bool \<Rightarrow> bool \<Rightarrow> bool \<Rightarrow> int \<Rightarrow> kv_manager result" where
  "init_kv_manager c max_len caching use_eagle logging events use_int dcp_world_size =
     (if caching \<and> length (remdups (map (spec_block_size \<circ> group_spec) (kv_cache_groups c))) \<noteq> 1 then Inl AssertionError
      else if caching \<and> dcp_world_size > 1 \<and> length (kv_cache_groups c) \<noteq> 1 then Inl AssertionError
      else bindE (get_kv_cache_coordinator c use_eagle caching events use_int dcp_world_size) (\<lambda>co.
        Inr \<lparr>km_max_model_len = max_len, km_enable_caching = caching, log_stats = logging,
             prefix_cache_stats = (if logging then Some empty_stats else None), coord = co,
             num_kv_cache_groups = length (kv_cache_groups c)\<rparr>))"

definition make_prefix_cache_stats :: "kv_manager \<Rightarrow> prefix_cache_stats option \<times> kv_manager" where
  "make_prefix_cache_stats k =
     (if \<not> log_stats k then (None, k) else (prefix_cache_stats k, k\<lparr>prefix_cache_stats := Some empty_stats\<rparr>))"

definition create_empty_block_list :: "kv_manager \<Rightarrow> bref list list" where
  "create_empty_block_list k = replicate (num_kv_cache_groups k) []"

definition get_computed_blocks :: "kv_manager \<Rightarrow> request \<Rightarrow> (bref list list \<times> int \<times> kv_manager) result" where
  "get_computed_blocks k r =
     (if \<not> km_enable_caching k \<or> prompt_logprobs r then Inr (create_empty_block_list k, 0, k)
      else bindE (co_find_longest_cache_hit (coord k) (block_hashes r) (int (num_tokens r) - 1)) (\<lambda>(blocks, n).
        if log_stats k
        then (case prefix_cache_stats k of
                None \<Rightarrow> Inl AssertionError
              | Some st \<Rightarrow> Inr (blocks, n, k\<lparr>prefix_cache_stats := Some (st\<lparr>stat_requests := stat_requests st + 1,
                    stat_queries := stat_queries st + num_tokens r, stat_hits := stat_hits st + n\<rparr>)\<rparr>))
        else Inr (blocks, n, k)))"

text \<open>\<open>allocate_slots\<close>; the result \<open>None\<close> says that the request cannot be scheduled.\<close>

definition allocate_slots ::
  "kv_manager \<Rightarrow> request \<Rightarrow> int \<Rightarrow> int \<Rightarrow> bref list list option \<Rightarrow> nat \<Rightarrow> bool \<Rightarrow> nat \<Rightarrow> (bref list list option \<times> kv_manager) result" where
  "allocate_slots k r num_new_tokens num_new_computed_tokens new_computed_blocks num_lookahead_tokens delay_cache_blocks num_encoder_tokens =
     (if num_new_tokens = 0 then Inl ValueError
      else (let computed = (case new_computed_blocks of None \<Rightarrow> replicate (num_kv_cache_groups k) [] | Some bs \<Rightarrow> bs);
                rid = request_id r
       in bindE (co_remove_skipped_blocks (coord k) rid (num_computed_tokens r)) (\<lambda>co.
          let n_computed = num_computed_tokens r + num_new_computed_tokens;
              n_slot = min (n_computed + num_new_tokens + int num_lookahead_tokens) (km_max_model_len k)
          in bindE (co_get_num_blocks_to_allocate co rid n_slot computed (int num_encoder_tokens)) (\<lambda>(n_alloc, co1).
             if n_alloc > get_num_free_blocks (co_pool co1) then Inr (None, k\<lparr>coord := co1\<rparr>)
             else bindE (if km_enable_caching k
                         then bindE (touch (co_pool co1) computed) (\<lambda>p. Inr (co1\<lparr>co_pool := p\<rparr>))
                         else if \<exists>c\<in>set computed. c \<noteq> [] then Inl AssertionError else Inr co1) (\<lambda>co2.
                  bindE (co_save_new_computed_blocks co2 rid computed) (\<lambda>co3.
                  bindE (co_allocate_new_blocks co3 rid n_slot (int num_encoder_tokens)) (\<lambda>(new_blocks, co4).
                    if \<not> km_enable_caching k \<or> delay_cache_blocks then Inr (Some new_blocks, k\<lparr>coord := co4\<rparr>)
                    else bindE (co_cache_blocks co4 r (nat (min (n_computed + num_new_tokens) (int (num_tokens r))))) (\<lambda>co5.
                           Inr (Some new_blocks, k\<lparr>coord := co5\<rparr>)))))))))"

definition km_free :: "kv_manager \<Rightarrow> request \<Rightarrow> kv_manager result" where
  "km_free k r = bindE (co_free (coord k) (request_id r)) (\<lambda>co. Inr (k\<lparr>coord := co\<rparr>))"

definition km_reset_prefix_cache :: "kv_manager \<Rightarrow> (bool \<times> kv_manager) result" where
  "km_reset_prefix_cache k =
     (let (ok, p) = reset_prefix_cache (co_pool (coord k)); k' = k\<lparr>coord := (coord k)\<lparr>co_pool := p\<rparr>\<rparr>
      in if \<not> ok then Inr (False, k')
         else if log_stats k'
         then (case prefix_cache_stats k' of
                 None \<Rightarrow> Inl AssertionError
               | Some st \<Rightarrow> Inr (True, k'\<lparr>prefix_cache_stats := Some (st\<lparr>stat_reset := True\<rparr>)\<rparr>))
         else Inr (True, k'))"

definition km_cache_blocks :: "kv_manager \<Rightarrow> request \<Rightarrow> nat \<Rightarrow> kv_manager result" where
  "km_cache_blocks k r n =
     (if km_enable_caching k then bindE (co_cache_blocks (coord k) r n) (\<lambda>co. Inr (k\<lparr>coord := co\<rparr>)) else Inr k)"

text \<open>\<open>KVCacheBlocks\<close>.\<close>

definition kv_blocks_add :: "bref list list \<Rightarrow> bref list list \<Rightarrow> bref list list" where
  "kv_blocks_add xs ys = map (\<lambda>(a, b). a @ b) (zip xs ys)"

definition get_block_ids :: "bref list list \<Rightarrow> bool \<Rightarrow> int list list option" where
  "get_block_ids blocks allow_none =
     (if allow_none \<and> (\<forall>g\<in>set blocks. g = []) then None else Some (map (map block_id) blocks))"

definition get_unhashed_block_ids :: "block_pool \<Rightarrow> bref list list \<Rightarrow> int list result" where
  "get_unhashed_block_ids p blocks =
     (case blocks of
        [g] \<Rightarrow> Inr (map block_id (filter (\<lambda>b. block_hash p b = None) g))
      | _ \<Rightarrow> Inl AssertionError)"

definition new_empty :: "bref list list \<Rightarrow> bref list list" where
  "new_empty blocks = replicate (length blocks) []"

text \<open>The remaining methods of the manager delegate.\<close>

definition km_usage :: "kv_manager \<Rightarrow> real" where
  "km_usage k = get_usage (co_pool (coord k))"

definition km_get_num_common_prefix_blocks :: "kv_manager \<Rightarrow> request \<Rightarrow> bool \<Rightarrow> int \<Rightarrow> nat list result" where
  "km_get_num_common_prefix_blocks k r is_running num_running_requests =
     (if \<not> is_running then Inl AssertionError
      else Inr (co_get_num_common_prefix_blocks (coord k) (request_id r) num_running_requests))"

definition km_take_events :: "kv_manager \<Rightarrow> kv_event list \<times> kv_manager" where
  "km_take_events k = (let (es, p) = take_events (co_pool (coord k)) in (es, k\<lparr>coord := (coord k)\<lparr>co_pool := p\<rparr>\<rparr>))"

definition km_get_blocks :: "kv_manager \<Rightarrow> string \<Rightarrow> bref list list" where
  "km_get_blocks k rid = co_get_blocks (coord k) rid"

definition km_get_block_ids :: "kv_manager \<Rightarrow> string \<Rightarrow> int list list option" where
  "km_get_block_ids k rid = get_block_ids (km_get_blocks k rid) False"

end
