(* ===== verification/KV_Life.thy ===== *)
theory KV_Life
  imports KV_Owner KV_Coordinator
begin

text \<open>
  The KV-cache manager of a model with one full-attention group (all RaBitQ models without sliding windows)
  over its whole life: requests arrive with a prefix hit, grow, and finish, in any order.
\<close>

section \<open>Invariant of the manager\<close>

definition km_ok :: "kv_manager \<Rightarrow> bool" where
  "km_ok k \<longleftrightarrow> (\<exists>m. managers (coord k) = [m] \<and> owned (co_pool (coord k)) m \<and> kv_cache_group_id m = 0
     \<and> m_block_size m = spec_block_size (m_spec m) \<and> co_dcp_world_size (coord k) = 1
     \<and> enable_caching (co_pool (coord k)) = km_enable_caching k
     \<and> co_kind (coord k) = (if km_enable_caching k then Unitary else No_prefix_cache)
     \<and> \<not> enable_kv_cache_events (co_pool (coord k)) \<and> num_kv_cache_groups k = 1
     \<and> (log_stats k \<longrightarrow> prefix_cache_stats k \<noteq> None))"

definition the_manager :: "kv_manager \<Rightarrow> manager" where
  "the_manager k = hd (managers (coord k))"

definition the_pool :: "kv_manager \<Rightarrow> block_pool" where
  "the_pool k = co_pool (coord k)"

definition table :: "kv_manager \<Rightarrow> string \<Rightarrow> bref list" where
  "table k rid = blocks_of (the_manager k) rid"

definition block_size_of :: "kv_manager \<Rightarrow> int" where
  "block_size_of k = m_block_size (the_manager k)"

lemma km_okD:
  assumes "km_ok k"
  shows "managers (coord k) = [the_manager k]" "owned (the_pool k) (the_manager k)" "kv_cache_group_id (the_manager k) = 0"
    "spec_block_size (m_spec (the_manager k)) = block_size_of k" "block_size_of k > 0" "co_dcp_world_size (coord k) = 1"
    "enable_caching (the_pool k) = km_enable_caching k"
    "co_kind (coord k) = (if km_enable_caching k then Unitary else No_prefix_cache)"
    "\<not> enable_kv_cache_events (the_pool k)" "num_kv_cache_groups k = 1" "log_stats k \<longrightarrow> prefix_cache_stats k \<noteq> None"
    "is_full_attention (m_spec (the_manager k))" "pool_inv (the_pool k)"
proof -
  obtain m where m: "managers (coord k) = [m]" "owned (co_pool (coord k)) m" "kv_cache_group_id m = 0"
    "m_block_size m = spec_block_size (m_spec m)" "co_dcp_world_size (coord k) = 1"
    "enable_caching (co_pool (coord k)) = km_enable_caching k"
    "co_kind (coord k) = (if km_enable_caching k then Unitary else No_prefix_cache)"
    "\<not> enable_kv_cache_events (co_pool (coord k))" "num_kv_cache_groups k = 1" "log_stats k \<longrightarrow> prefix_cache_stats k \<noteq> None"
    using assms unfolding km_ok_def by blast
  show "managers (coord k) = [the_manager k]" "owned (the_pool k) (the_manager k)" "kv_cache_group_id (the_manager k) = 0"
    "spec_block_size (m_spec (the_manager k)) = block_size_of k" "block_size_of k > 0" "co_dcp_world_size (coord k) = 1"
    "enable_caching (the_pool k) = km_enable_caching k"
    "co_kind (coord k) = (if km_enable_caching k then Unitary else No_prefix_cache)"
    "\<not> enable_kv_cache_events (the_pool k)" "num_kv_cache_groups k = 1" "log_stats k \<longrightarrow> prefix_cache_stats k \<noteq> None"
    "is_full_attention (m_spec (the_manager k))" "pool_inv (the_pool k)"
    using m ownedD[OF m(2)] by (simp_all add: the_manager_def the_pool_def block_size_of_def)
qed

text \<open>Replacing pool and table of a manager by others that are owned and agree on the fixed fields.\<close>

lemma km_ok_update:
  assumes ok: "km_ok k" and own: "owned p m" and fr: "pool_frame p = pool_frame (the_pool k)"
    and m: "m_spec m = m_spec (the_manager k)" "m_block_size m = block_size_of k" "kv_cache_group_id m = 0"
  shows "km_ok (k\<lparr>coord := (coord k)\<lparr>co_pool := p, managers := [m]\<rparr>\<rparr>)"
  using km_okD[OF ok] own fr m by (auto simp: km_ok_def pool_frame_def)

lemma km_ok_stats: "km_ok k \<Longrightarrow> km_ok (k\<lparr>prefix_cache_stats := Some st\<rparr>)"
  unfolding km_ok_def by (cases "km_enable_caching k") auto

lemma the_update [simp]:
  "the_manager (k\<lparr>coord := (coord k)\<lparr>co_pool := p, managers := [m]\<rparr>\<rparr>) = m"
  "the_pool (k\<lparr>coord := (coord k)\<lparr>co_pool := p, managers := [m]\<rparr>\<rparr>) = p"
  by (simp_all add: the_manager_def the_pool_def)

section \<open>Prefix lookup\<close>

lemma serves_inj:
  assumes "serves p h g r" "serves p h' g r" "0 \<le> g" "g < 2 ^ 32"
  shows "h = h'"
  using assms group_key_eq_iff[of g g h h'] by (simp add: serves_def)

text \<open>Blocks a request may be admitted with.\<close>

definition hit_blocks :: "block_pool \<Rightarrow> bref list \<Rightarrow> bool" where
  "hit_blocks p c \<longleftrightarrow> distinct c \<and> set c \<subseteq> Blk ` usable p \<and> (\<forall>r\<in>set c. block_hash p r \<noteq> None)"

lemma serves_hit_blocks:
  assumes "\<forall>j<length c. serves p (hs ! j) g (c ! j)" "distinct hs" "length c \<le> length hs" "0 \<le> g" "g < 2 ^ 32"
  shows "hit_blocks p c"
proof -
  have "distinct c"
  proof (rule distinct_conv_nth[THEN iffD2], intro allI impI)
    fix i j assume "i < length c" "j < length c" "i \<noteq> j"
    then show "c ! i \<noteq> c ! j"
      using assms serves_inj[of p "hs ! i" g "c ! i" "hs ! j"] nth_eq_iff_index_eq[OF assms(2), of i j] by auto
  qed
  then show ?thesis using assms(1) by (auto simp: hit_blocks_def serves_def in_set_conv_nth)
qed

lemma get_computed_blocks_ok:
  assumes ok: "km_ok k" and r: "num_tokens r \<ge> 1" "distinct (block_hashes r)"
  shows "\<exists>c k'. get_computed_blocks k r = Inr ([c], int (length c) * block_size_of k, k') \<and> coord k' = coord k \<and> km_ok k'
    \<and> hit_blocks (the_pool k) c \<and> (\<not> km_enable_caching k \<longrightarrow> c = [])
    \<and> int (length c) * block_size_of k \<le> int (num_tokens r) - 1 \<and> km_max_model_len k' = km_max_model_len k
    \<and> km_enable_caching k' = km_enable_caching k \<and> log_stats k' = log_stats k
    \<and> (\<forall>j<length c. serves (the_pool k) (block_hashes r ! j) 0 (c ! j))"
proof (cases "\<not> km_enable_caching k \<or> prompt_logprobs r")
  case True
  then show ?thesis using km_okD(10)[OF ok] ok r
    by (intro exI[of _ "[]"] exI[of _ k]) (auto simp: get_computed_blocks_def create_empty_block_list_def hit_blocks_def)
next
  case False
  note D = km_okD[OF ok]
  let ?spec = "m_spec (the_manager k)" and ?len = "int (num_tokens r) - 1" and ?bs = "block_size_of k"
  have "spec_block_size ?spec > 0" "?len \<ge> 0" "\<forall>g\<in>set [0::int]. 0 \<le> g \<and> g < 2 ^ 32" "[0::int] \<noteq> []" using D r by auto
  note hit = full_hit_ok[OF D(13,12) this, of "block_hashes r" "co_use_eagle (coord k)"]
  obtain res where
    res: "full_find_longest_cache_hit (block_hashes r) ?len [0] (the_pool k) ?spec (co_use_eagle (coord k)) 1 = Inr res" "length res = length [0::int]"
    and n: "let m = take (nat (?len div spec_block_size ?spec)) (block_hashes r); h = hit_count (the_pool k) [0] m
       in (\<forall>j<h. hash_hit (the_pool k) [0] (m ! j)) \<and> (h < length m \<longrightarrow> \<not> hash_hit (the_pool k) [0] (m ! h))
        \<and> (\<forall>i<length [0::int]. length (res ! i) = (if co_use_eagle (coord k) then h - 1 else h)
             \<and> (\<forall>j<length (res ! i). serves (the_pool k) (block_hashes r ! j) ([0] ! i) (res ! i ! j)))"
    using hit by (elim exE conjE) (rule that)
  define h where "h = hit_count (the_pool k) [0] (take (nat (?len div ?bs)) (block_hashes r))"
  have "\<forall>i<length [0::int]. length (res ! i) = (if co_use_eagle (coord k) then h - 1 else h)
             \<and> (\<forall>j<length (res ! i). serves (the_pool k) (block_hashes r ! j) ([0] ! i) (res ! i ! j))"
    using n unfolding Let_def D(4) h_def by (elim conjE)
  then have z: "length (res ! 0) = (if co_use_eagle (coord k) then h - 1 else h)"
    and c2: "\<forall>j<length (res ! 0). serves (the_pool k) (block_hashes r ! j) 0 (res ! 0 ! j)" by simp_all
  have "length (res ! 0) \<le> h" unfolding z by simp
  note c = this[unfolded h_def] c2
  obtain c0 where c0: "res = [c0]" using res(2) by (cases res) auto
  have "hit_count (the_pool k) [0] xs \<le> length xs" for xs unfolding hit_count_def by (rule length_takeWhile_le)
  from le_trans[OF c(1) this] have len: "length c0 \<le> length (take (nat (?len div ?bs)) (block_hashes r))" unfolding c0 nth_Cons_0 .
  then have "int (length c0) \<le> ?len div ?bs" using D(5) r(1) by (simp add: pos_imp_zdiv_nonneg_iff nat_le_iff le_nat_iff)
  then have "int (length c0) * ?bs \<le> ?len div ?bs * ?bs" using D(5) by (intro mult_right_mono) auto
  also have "\<dots> \<le> ?len" using div_mult_mod_eq[of ?len ?bs] pos_mod_sign[OF D(5), of ?len] by linarith
  finally have bound: "int (length c0) * ?bs \<le> ?len" .
  have hb: "hit_blocks (the_pool k) c0" using c(2) len r(2) by (intro serves_hit_blocks[where hs = "block_hashes r" and g = 0]) (auto simp: c0)
  have find: "find_longest_cache_hit (block_hashes r) ?len [0] (the_pool k) ?spec (co_use_eagle (coord k)) 1 = Inr [c0]"
    using res(1) c0 D(12) by (cases ?spec) (auto simp: find_longest_cache_hit_def)
  have "co_find_longest_cache_hit (coord k) (block_hashes r) ?len = Inr ([c0], int (length c0) * ?bs)"
    using find D(1,6,8) False by (simp add: co_find_longest_cache_hit_def the_pool_def block_size_of_def)
  moreover have "\<exists>k'. (if log_stats k
      then (case prefix_cache_stats k of
              None \<Rightarrow> Inl AssertionError
            | Some st \<Rightarrow> Inr ([c0], int (length c0) * ?bs, k\<lparr>prefix_cache_stats := Some (st\<lparr>stat_requests := stat_requests st + 1,
                  stat_queries := stat_queries st + num_tokens r, stat_hits := stat_hits st + int (length c0) * ?bs\<rparr>)\<rparr>))
      else Inr ([c0], int (length c0) * ?bs, k)) = Inr ([c0], int (length c0) * ?bs, k')
    \<and> coord k' = coord k \<and> km_ok k' \<and> km_max_model_len k' = km_max_model_len k \<and> km_enable_caching k' = km_enable_caching k \<and> log_stats k' = log_stats k"
    using ok D(11) by (cases "log_stats k") (auto intro: km_ok_stats)
  ultimately obtain k' where "get_computed_blocks k r = Inr ([c0], int (length c0) * ?bs, k')" "coord k' = coord k" "km_ok k'"
    "km_max_model_len k' = km_max_model_len k" "km_enable_caching k' = km_enable_caching k" "log_stats k' = log_stats k"
    using False by (auto simp: get_computed_blocks_def)
  then show ?thesis using hb bound False c(2) c0 by (intro exI[of _ c0] exI[of _ k']) auto
qed

section \<open>Allocation of slots\<close>

lemma touch_and_save:
  assumes own: "owned p m" and adm: "case num_cached_block m rid of None \<Rightarrow> hit_blocks p c | Some _ \<Rightarrow> c = []" and en: "c \<noteq> [] \<longrightarrow> en"
  shows "\<exists>p1 m1. (if en then touch p [c] else Inr p) = Inr p1 \<and> save_new_computed_blocks m rid c = Inr m1 \<and> owned p1 m1
    \<and> pool_frame p1 = pool_frame p \<and> blocks_of m1 = (blocks_of m)(rid := blocks_of m rid @ c)
    \<and> num_cached_block m1 = (num_cached_block m)(rid \<mapsto> (case num_cached_block m rid of None \<Rightarrow> length c | Some n \<Rightarrow> n))
    \<and> m_spec m1 = m_spec m \<and> m_block_size m1 = m_block_size m \<and> kv_cache_group_id m1 = kv_cache_group_id m
    \<and> get_num_free_blocks p1 = get_num_free_blocks p - int (length (evictable p c))"
proof (cases "num_cached_block m rid")
  case (Some n)
  then have "c = []" using adm by simp
  moreover have "save_new_computed_blocks m rid [] = Inr m" using not_cross[OF ownedD(7)[OF own]] Some by (simp add: save_new_computed_blocks_def)
  moreover have "(num_cached_block m)(rid \<mapsto> n) = num_cached_block m" using Some by (simp add: fun_eq_iff)
  ultimately show ?thesis using own Some by (intro exI[of _ p] exI[of _ m]) (simp add: evictable_def)
next
  case None
  then have c: "distinct c" "set c \<subseteq> Blk ` usable p" "\<forall>r\<in>set c. block_hash p r \<noteq> None" using adm by (auto simp: hit_blocks_def)
  have empty: "blocks_of m rid = []" using ownedD(6)[OF own, of rid] None by (simp add: tail_ok_def)
  obtain p1 where t: "(if en then touch p [c] else Inr p) = Inr p1" "pool_inv p1" "pool_frame p1 = pool_frame p" "block_hash p1 = block_hash p"
    "ref_cnt p1 = (\<lambda>r. ref_cnt p r + (if r \<in> set c then 1 else 0))"
    "get_num_free_blocks p1 = get_num_free_blocks p - int (length (evictable p c))"
  proof (cases en)
    case True
    from touch_free_count[OF ownedD(1)[OF own] c(1,2)] show ?thesis using True by (elim exE conjE) (rule that, simp_all)
  next
    case False
    then have "c = []" using en by simp
    then show ?thesis using False ownedD(1)[OF own] by (intro that[of p]) (simp_all add: evictable_def)
  qed
  from admit_ok[OF own None c t(2-5)] show ?thesis using t None empty by auto
qed

lemma div_mult_le: "0 < b \<Longrightarrow> x div b * b \<le> (x::int)"
  using div_mult_mod_eq[of x b] pos_mod_sign[of b x] by linarith

lemma ceil_div_mono_div:
  assumes "b > 0" "x \<le> y"
  shows "x div b \<le> ceil_div y b"
proof -
  have "x div b * b \<le> x" by (rule div_mult_le[OF assms(1)])
  also have "\<dots> \<le> ceil_div y b * b" using ceil_div_bounds(1)[OF assms(1), of y] assms(2) by linarith
  finally show ?thesis using assms(1) by (simp add: mult_le_cancel_right)
qed

definition same_setup :: "kv_manager \<Rightarrow> kv_manager \<Rightarrow> bool" where
  "same_setup k k' \<longleftrightarrow> km_max_model_len k' = km_max_model_len k \<and> km_enable_caching k' = km_enable_caching k
     \<and> block_size_of k' = block_size_of k \<and> pool_frame (the_pool k') = pool_frame (the_pool k) \<and> log_stats k' = log_stats k"

lemma one_manager:
  assumes "km_ok k"
  shows "co_remove_skipped_blocks (coord k) rid n = Inr (coord k)"
    "co_get_num_blocks_to_allocate (coord k) rid n [c] 0
     = Inr (ceil_div n (block_size_of k) - int (length c) - int (length (table k rid)) + int (length (evictable (the_pool k) c)),
            (coord k)\<lparr>managers := [with_entry (the_manager k) rid]\<rparr>)"
proof -
  note D = km_okD[OF assms]
  have "remove_skipped_blocks p (the_manager k) rid n = Inr (p, the_manager k)" for p
    using D(12) by (cases "m_spec (the_manager k)") (auto simp: remove_skipped_blocks_def)
  then show "co_remove_skipped_blocks (coord k) rid n = Inr (coord k)"
    using D(1) by (simp add: co_remove_skipped_blocks_def co_each_def)
  show "co_get_num_blocks_to_allocate (coord k) rid n [c] 0
     = Inr (ceil_div n (block_size_of k) - int (length c) - int (length (table k rid)) + int (length (evictable (the_pool k) c)),
            (coord k)\<lparr>managers := [with_entry (the_manager k) rid]\<rparr>)"
    using D(1,5) not_cross[OF D(12)]
    by (simp add: co_get_num_blocks_to_allocate_def get_num_blocks_to_allocate_def table_def evictable_def the_pool_def block_size_of_def Let_def)
qed

text \<open>Blocks that are full and final after the step, and those cached before it.\<close>

definition cached_before :: "kv_manager \<Rightarrow> string \<Rightarrow> bref list \<Rightarrow> nat" where
  "cached_before k rid c = (case num_cached_block (the_manager k) rid of None \<Rightarrow> length c | Some n \<Rightarrow> n)"

definition admissible :: "kv_manager \<Rightarrow> string \<Rightarrow> bref list \<Rightarrow> bool" where
  "admissible k rid c \<longleftrightarrow> (case num_cached_block (the_manager k) rid of None \<Rightarrow> hit_blocks (the_pool k) c | Some _ \<Rightarrow> c = [])
     \<and> (c \<noteq> [] \<longrightarrow> km_enable_caching k)"

definition needed_blocks :: "kv_manager \<Rightarrow> string \<Rightarrow> bref list \<Rightarrow> int \<Rightarrow> int" where
  "needed_blocks k rid c slots =
     ceil_div slots (block_size_of k) - int (length c) - int (length (table k rid)) + int (length (evictable (the_pool k) c))"

text \<open>The part of \<open>allocate_slots\<close> before the blocks are cached.\<close>

lemma take_blocks_ok:
  assumes ok: "km_ok k" and adm: "admissible k rid c" and enough: "needed_blocks k rid c slots \<le> get_num_free_blocks (the_pool k)"
    and co1: "co1 = (coord k)\<lparr>managers := [with_entry (the_manager k) rid]\<rparr>"
  shows "\<exists>p1 m1 bs p2 m2. (if km_enable_caching k then touch (the_pool k) [c] else Inr (the_pool k)) = Inr p1
    \<and> co_save_new_computed_blocks (co1\<lparr>co_pool := p1\<rparr>) rid [c] = Inr ((coord k)\<lparr>co_pool := p1, managers := [m1]\<rparr>)
    \<and> co_allocate_new_blocks ((coord k)\<lparr>co_pool := p1, managers := [m1]\<rparr>) rid slots 0 = Inr ([bs], (coord k)\<lparr>co_pool := p2, managers := [m2]\<rparr>)
    \<and> owned p2 m2 \<and> pool_frame p2 = pool_frame (the_pool k)
    \<and> m_spec m2 = m_spec (the_manager k) \<and> m_block_size m2 = block_size_of k \<and> kv_cache_group_id m2 = 0
    \<and> blocks_of m2 = (table k)(rid := table k rid @ c @ bs)
    \<and> num_cached_block m2 = (num_cached_block (the_manager k))(rid \<mapsto> cached_before k rid c)
    \<and> int (length (table k rid @ c @ bs)) = max (int (length (table k rid @ c))) (ceil_div slots (block_size_of k))"
proof -
  note D = km_okD[OF ok]
  let ?m0 = "with_entry (the_manager k) rid"
  have own: "owned (the_pool k) ?m0" by (rule owned_cong[OF D(2)]) simp_all
  have a: "case num_cached_block ?m0 rid of None \<Rightarrow> hit_blocks (the_pool k) c | Some _ \<Rightarrow> c = []" "c \<noteq> [] \<longrightarrow> km_enable_caching k"
    using adm by (auto simp: admissible_def)
  obtain p1 m1 where s: "(if km_enable_caching k then touch (the_pool k) [c] else Inr (the_pool k)) = Inr p1"
    "save_new_computed_blocks ?m0 rid c = Inr m1" "owned p1 m1" "pool_frame p1 = pool_frame (the_pool k)"
    "blocks_of m1 = (blocks_of ?m0)(rid := blocks_of ?m0 rid @ c)"
    "num_cached_block m1 = (num_cached_block ?m0)(rid \<mapsto> (case num_cached_block ?m0 rid of None \<Rightarrow> length c | Some n \<Rightarrow> n))"
    "m_spec m1 = m_spec ?m0" "m_block_size m1 = m_block_size ?m0" "kv_cache_group_id m1 = kv_cache_group_id ?m0"
    "get_num_free_blocks p1 = get_num_free_blocks (the_pool k) - int (length (evictable (the_pool k) c))"
    using touch_and_save[OF own a] by (elim exE conjE) (rule that)
  have b1: "blocks_of m1 = (table k)(rid := table k rid @ c)" using s(5) by (simp add: table_def fun_eq_iff)
  have n1: "num_cached_block m1 = (num_cached_block (the_manager k))(rid \<mapsto> cached_before k rid c)" using s(6) by (simp add: cached_before_def)
  have bs1: "m_block_size m1 = block_size_of k" using s(8) by (simp add: block_size_of_def)
  have run: "num_cached_block m1 rid = Some (cached_before k rid c)" using n1 by simp
  have "ceil_div slots (m_block_size m1) - int (length (blocks_of m1 rid)) \<le> get_num_free_blocks p1"
    using enough s(10) b1 bs1 by (simp add: needed_blocks_def)
  from allocate_new_blocks_ok[OF s(3) run this] obtain bs p2 m2 where
    l: "allocate_new_blocks p1 m1 rid slots = Inr (bs, p2, m2)" "owned p2 m2" "pool_frame p2 = pool_frame p1"
    "blocks_of m2 = (blocks_of m1)(rid := blocks_of m1 rid @ bs)" "num_cached_block m2 = num_cached_block m1"
    "m_spec m2 = m_spec m1" "m_block_size m2 = m_block_size m1" "kv_cache_group_id m2 = kv_cache_group_id m1"
    "int (length (blocks_of m1 rid @ bs)) = max (int (length (blocks_of m1 rid))) (ceil_div slots (m_block_size m1))"
    by (elim exE conjE) (rule that)
  have "co_save_new_computed_blocks (co1\<lparr>co_pool := p1\<rparr>) rid [c] = Inr ((coord k)\<lparr>co_pool := p1, managers := [m1]\<rparr>)"
    using s(2) by (simp add: co_save_new_computed_blocks_def co1)
  moreover have "co_allocate_new_blocks ((coord k)\<lparr>co_pool := p1, managers := [m1]\<rparr>) rid slots 0 = Inr ([bs], (coord k)\<lparr>co_pool := p2, managers := [m2]\<rparr>)"
    using l(1) s(7) not_cross[OF D(12)] by (simp add: co_allocate_new_blocks_def)
  moreover have "blocks_of m2 = (table k)(rid := table k rid @ c @ bs)" using l(4) b1 by (simp add: fun_eq_iff)
  moreover have "int (length (table k rid @ c @ bs)) = max (int (length (table k rid @ c))) (ceil_div slots (block_size_of k))"
    using l(9) b1 bs1 by simp
  moreover have "num_cached_block m2 = (num_cached_block (the_manager k))(rid \<mapsto> cached_before k rid c)" using l(5) n1 by simp
  moreover have "m_spec m2 = m_spec (the_manager k)" "m_block_size m2 = block_size_of k" "kv_cache_group_id m2 = 0" "pool_frame p2 = pool_frame (the_pool k)"
    using l(3,6-8) s(4,7,9) bs1 D(3) by simp_all
  ultimately show ?thesis using s(1) l(2) by (intro exI conjI)
qed

text \<open>What the scheduler guarantees when the blocks are cached in the same step: the request fits the model, its
  hashes are those of its full blocks, and its cached blocks lie in the tokens that are final after the step.\<close>

definition cacheable_step :: "kv_manager \<Rightarrow> request \<Rightarrow> bref list \<Rightarrow> int \<Rightarrow> bool" where
  "cacheable_step k r c final \<longleftrightarrow> int (num_tokens r) \<le> km_max_model_len k
     \<and> int (length (block_hashes r)) = int (num_tokens r) div block_size_of k
     \<and> int (cached_before k (request_id r) c) * block_size_of k \<le> min final (int (num_tokens r))"

lemma cache_step_ok:
  assumes ok: "km_ok k" and own: "owned p2 m2" and fr: "pool_frame p2 = pool_frame (the_pool k)"
    and m: "m_spec m2 = m_spec (the_manager k)" "m_block_size m2 = block_size_of k" "kv_cache_group_id m2 = 0"
    and run: "num_cached_block m2 (request_id r) = Some (cached_before k (request_id r) c)"
    and en: "km_enable_caching k" and st: "cacheable_step k r c final"
    and len: "int (length (blocks_of m2 (request_id r))) \<ge> ceil_div (min (final + int look) (km_max_model_len k)) (block_size_of k)"
  shows "\<exists>p3 m3. co_cache_blocks ((coord k)\<lparr>co_pool := p2, managers := [m2]\<rparr>) r (nat (min final (int (num_tokens r))))
      = Inr ((coord k)\<lparr>co_pool := p3, managers := [m3]\<rparr>)
    \<and> owned p3 m3 \<and> pool_frame p3 = pool_frame (the_pool k) \<and> blocks_of m3 = blocks_of m2
    \<and> num_cached_block m3 = (num_cached_block m2)(request_id r \<mapsto> nat (min final (int (num_tokens r)) div block_size_of k))
    \<and> m_spec m3 = m_spec (the_manager k) \<and> m_block_size m3 = block_size_of k \<and> kv_cache_group_id m3 = 0
    \<and> (\<forall>i. cached_before k (request_id r) c \<le> i \<longrightarrow> i < nat (min final (int (num_tokens r)) div block_size_of k) \<longrightarrow>
         block_hash p3 (blocks_of m2 (request_id r) ! i) = Some (group_key (block_hashes r ! i) 0))"
proof -
  note D = km_okD[OF ok]
  let ?n = "min final (int (num_tokens r))" and ?b = "block_size_of k" and ?nc = "cached_before k (request_id r) c"
  have s: "int (num_tokens r) \<le> km_max_model_len k" "int (length (block_hashes r)) = int (num_tokens r) div ?b" "int ?nc * ?b \<le> ?n"
    using st by (simp_all add: cacheable_step_def)
  have "int ?nc * ?b \<ge> 0" using D(5) by simp
  then have n0: "?n \<ge> 0" using s(3) by linarith
  then have q0: "?n div ?b \<ge> 0" using D(5) by (simp add: pos_imp_zdiv_nonneg_iff)
  have "int ?nc \<le> ?n div ?b" using s(3) D(5) zdiv_mono1[OF s(3) D(5)] by simp
  moreover have "?n div ?b \<le> ceil_div (min (final + int look) (km_max_model_len k)) ?b" using s(1) D(5) by (intro ceil_div_mono_div) auto
  moreover have "?n div ?b \<le> int (num_tokens r) div ?b" using D(5) by (intro zdiv_mono1) auto
  moreover have "enable_caching p2" "\<not> enable_kv_cache_events p2" using fr D(7,9) en by (simp_all add: pool_frame_def)
  moreover have "int (nat (?n div ?b)) = int (nat ?n) div m_block_size m2" using n0 q0 m(2) by simp
  ultimately obtain p3 m3 where c: "cache_blocks p2 m2 r (nat ?n) = Inr (p3, m3)" "owned p3 m3" "pool_frame p3 = pool_frame p2"
    "blocks_of m3 = blocks_of m2" "num_cached_block m3 = (num_cached_block m2)(request_id r \<mapsto> nat (?n div ?b))"
    "m_spec m3 = m_spec m2" "m_block_size m3 = m_block_size m2" "kv_cache_group_id m3 = kv_cache_group_id m2"
    "\<forall>i. ?nc \<le> i \<longrightarrow> i < nat (?n div ?b) \<longrightarrow> block_hash p3 (blocks_of m2 (request_id r) ! i) = Some (group_key (block_hashes r ! i) (kv_cache_group_id m2))"
    using cache_blocks_ok[OF own run, of "nat (?n div ?b)" "nat ?n"] s(2) len m(3) q0 by (auto simp: le_nat_iff nat_le_iff)
  then show ?thesis using m fr by (intro exI[of _ p3] exI[of _ m3]) (simp add: co_cache_blocks_def co_each_def)
qed

definition slots_ok :: "kv_manager \<Rightarrow> request \<Rightarrow> bref list \<Rightarrow> int \<Rightarrow> int \<Rightarrow> bref list list option \<Rightarrow> kv_manager \<Rightarrow> bool" where
  "slots_ok k r c final slots res k' \<longleftrightarrow> km_ok k' \<and> same_setup k k' \<and> (\<forall>rid. rid \<noteq> request_id r \<longrightarrow> table k' rid = table k rid)
    \<and> (\<forall>rid. rid \<noteq> request_id r \<longrightarrow> num_cached_block (the_manager k') rid = num_cached_block (the_manager k) rid)
    \<and> (case res of
         None \<Rightarrow> needed_blocks k (request_id r) c slots > get_num_free_blocks (the_pool k) \<and> the_pool k' = the_pool k
                 \<and> table k' = table k \<and> num_cached_block (the_manager k') = num_cached_block (the_manager k)
       | Some bss \<Rightarrow> needed_blocks k (request_id r) c slots \<le> get_num_free_blocks (the_pool k)
           \<and> (\<exists>bs. bss = [bs] \<and> table k' (request_id r) = table k (request_id r) @ c @ bs)
           \<and> int (length (table k' (request_id r))) = max (int (length (table k (request_id r) @ c))) (ceil_div slots (block_size_of k))
           \<and> (\<exists>nc. num_cached_block (the_manager k') (request_id r) = Some nc
                \<and> (nc = cached_before k (request_id r) c \<or> nc \<le> length (block_hashes r) \<and> int nc * block_size_of k \<le> final)))"

lemma slots_okI:
  assumes ok: "km_ok k" and p: "owned p m" "pool_frame p = pool_frame (the_pool k)"
    "m_spec m = m_spec (the_manager k)" "m_block_size m = block_size_of k" "kv_cache_group_id m = 0"
    and b: "blocks_of m = (table k)(request_id r := table k (request_id r) @ c @ bs)"
    and n: "num_cached_block m = (num_cached_block (the_manager k))(request_id r \<mapsto> nc)"
      "nc = cached_before k (request_id r) c \<or> nc \<le> length (block_hashes r) \<and> int nc * block_size_of k \<le> final"
    and enough: "needed_blocks k (request_id r) c slots \<le> get_num_free_blocks (the_pool k)"
    and len: "int (length (table k (request_id r) @ c @ bs)) = max (int (length (table k (request_id r) @ c))) (ceil_div slots (block_size_of k))"
  shows "slots_ok k r c final slots (Some [bs]) (k\<lparr>coord := (coord k)\<lparr>co_pool := p, managers := [m]\<rparr>\<rparr>)"
proof -
  let ?k = "k\<lparr>coord := (coord k)\<lparr>co_pool := p, managers := [m]\<rparr>\<rparr>"
  have "table ?k = blocks_of m" by (simp add: table_def fun_eq_iff)
  moreover have "same_setup k ?k" using p(2,4) by (simp add: same_setup_def block_size_of_def)
  ultimately show ?thesis using km_ok_update[OF ok p] b n enough len by (simp add: slots_ok_def)
qed

lemma allocate_slots_ok:
  assumes ok: "km_ok k" and new: "n_new > 0" and adm: "admissible k (request_id r) c"
    and cb: "cb = Some [c] \<or> (cb = None \<and> c = [])"
    and st: "km_enable_caching k \<and> \<not> delay \<longrightarrow> cacheable_step k r c (num_computed_tokens r + n_hit + n_new)"
  shows "\<exists>res k'. allocate_slots k r n_new n_hit cb look delay 0 = Inr (res, k')
    \<and> slots_ok k r c (num_computed_tokens r + n_hit + n_new) (min (num_computed_tokens r + n_hit + n_new + int look) (km_max_model_len k)) res k'"
proof -
  note D = km_okD[OF ok]
  let ?rid = "request_id r" and ?final = "num_computed_tokens r + n_hit + n_new"
  let ?slots = "min (?final + int look) (km_max_model_len k)"
  let ?co1 = "(coord k)\<lparr>managers := [with_entry (the_manager k) ?rid]\<rparr>"
  have cs: "(case cb of None \<Rightarrow> replicate (num_kv_cache_groups k) [] | Some bs \<Rightarrow> bs) = [c]" using cb D(10) by auto
  have pool: "co_pool (coord k) = the_pool k" by (simp add: the_pool_def)
  note o = one_manager[OF ok, of ?rid]
  note unf = allocate_slots_def Let_def cs o needed_blocks_def[symmetric] pool
  show ?thesis
  proof (cases "needed_blocks k ?rid c ?slots \<le> get_num_free_blocks (the_pool k)")
    case False
    have k': "k\<lparr>coord := ?co1\<rparr> = k\<lparr>coord := (coord k)\<lparr>co_pool := the_pool k, managers := [with_entry (the_manager k) ?rid]\<rparr>\<rparr>"
      by (simp add: the_pool_def)
    have "allocate_slots k r n_new n_hit cb look delay 0 = Inr (None, k\<lparr>coord := ?co1\<rparr>)"
      using new False by (simp add: unf)
    moreover have "km_ok (k\<lparr>coord := ?co1\<rparr>)" unfolding k'
      by (rule km_ok_update[OF ok owned_cong[OF D(2)]]) (simp_all add: block_size_of_def D(3))
    moreover from this have "slots_ok k r c ?final ?slots None (k\<lparr>coord := ?co1\<rparr>)" using False unfolding k'
      by (simp add: slots_ok_def same_setup_def table_def fun_eq_iff block_size_of_def)
    ultimately show ?thesis by blast
  next
    case True
    from take_blocks_ok[OF ok adm True refl] obtain p1 m1 bs p2 m2 where
      t: "(if km_enable_caching k then touch (the_pool k) [c] else Inr (the_pool k)) = Inr p1"
      "co_save_new_computed_blocks (?co1\<lparr>co_pool := p1\<rparr>) ?rid [c] = Inr ((coord k)\<lparr>co_pool := p1, managers := [m1]\<rparr>)"
      "co_allocate_new_blocks ((coord k)\<lparr>co_pool := p1, managers := [m1]\<rparr>) ?rid ?slots 0 = Inr ([bs], (coord k)\<lparr>co_pool := p2, managers := [m2]\<rparr>)"
      and o2: "owned p2 m2" "pool_frame p2 = pool_frame (the_pool k)" "m_spec m2 = m_spec (the_manager k)" "m_block_size m2 = block_size_of k"
      "kv_cache_group_id m2 = 0"
      and b: "blocks_of m2 = (table k)(?rid := table k ?rid @ c @ bs)"
      and n: "num_cached_block m2 = (num_cached_block (the_manager k))(?rid \<mapsto> cached_before k ?rid c)"
      and len: "int (length (table k ?rid @ c @ bs)) = max (int (length (table k ?rid @ c))) (ceil_div ?slots (block_size_of k))"
      by (elim exE conjE) (rule that)
    have touched: "(if km_enable_caching k then bindE (touch (the_pool k) [c]) (\<lambda>p. Inr (?co1\<lparr>co_pool := p\<rparr>))
        else if \<exists>c\<in>set [c]. c \<noteq> [] then Inl AssertionError else Inr ?co1) = Inr (?co1\<lparr>co_pool := p1\<rparr>)"
      using t(1) adm by (cases "km_enable_caching k") (auto simp: admissible_def the_pool_def)
    have pl: "co_pool ?co1 = the_pool k" by (simp add: the_pool_def)
    have "n_new \<noteq> 0" "\<not> needed_blocks k ?rid c ?slots > get_num_free_blocks (the_pool k)" using new True by simp_all
    then have eq: "allocate_slots k r n_new n_hit cb look delay 0
      = (if \<not> km_enable_caching k \<or> delay then Inr (Some [bs], k\<lparr>coord := (coord k)\<lparr>co_pool := p2, managers := [m2]\<rparr>\<rparr>)
         else bindE (co_cache_blocks ((coord k)\<lparr>co_pool := p2, managers := [m2]\<rparr>) r (nat (min ?final (int (num_tokens r)))))
                (\<lambda>co5. Inr (Some [bs], k\<lparr>coord := co5\<rparr>)))"
      unfolding allocate_slots_def Let_def cs
      by (simp only: o semiring_1_class.of_nat_0 bindE.simps prod.case pl needed_blocks_def[symmetric] touched t(2,3) if_False)
    show ?thesis
    proof (cases "km_enable_caching k \<and> \<not> delay")
      case False
      then have "allocate_slots k r n_new n_hit cb look delay 0 = Inr (Some [bs], k\<lparr>coord := (coord k)\<lparr>co_pool := p2, managers := [m2]\<rparr>\<rparr>)"
        by (simp add: eq)
      then show ?thesis using slots_okI[OF ok o2 b n disjI1[OF refl] True len] by (intro exI conjI)
    next
      case caching: True
      have run: "num_cached_block m2 ?rid = Some (cached_before k ?rid c)" using n by simp
      have "int (length (blocks_of m2 ?rid)) \<ge> ceil_div ?slots (block_size_of k)" using len b by simp
      from cache_step_ok[OF ok o2 run _ _ this] caching st obtain p3 m3 where
        c3: "co_cache_blocks ((coord k)\<lparr>co_pool := p2, managers := [m2]\<rparr>) r (nat (min ?final (int (num_tokens r)))) = Inr ((coord k)\<lparr>co_pool := p3, managers := [m3]\<rparr>)"
        and o3: "owned p3 m3" "pool_frame p3 = pool_frame (the_pool k)" "m_spec m3 = m_spec (the_manager k)" "m_block_size m3 = block_size_of k" "kv_cache_group_id m3 = 0"
        and b3: "blocks_of m3 = blocks_of m2"
        and n3: "num_cached_block m3 = (num_cached_block m2)(?rid \<mapsto> nat (min ?final (int (num_tokens r)) div block_size_of k))" by blast
      have b4: "blocks_of m3 = (table k)(?rid := table k ?rid @ c @ bs)" using b3 b by simp
      have n4: "num_cached_block m3 = (num_cached_block (the_manager k))(?rid \<mapsto> nat (min ?final (int (num_tokens r)) div block_size_of k))"
        using n3 n by (simp add: fun_eq_iff)
      have "allocate_slots k r n_new n_hit cb look delay 0 = Inr (Some [bs], k\<lparr>coord := (coord k)\<lparr>co_pool := p3, managers := [m3]\<rparr>\<rparr>)"
        unfolding eq using c3 caching by simp
      moreover have "min ?final (int (num_tokens r)) div block_size_of k \<le> int (num_tokens r) div block_size_of k"
        using D(5) by (intro zdiv_mono1) auto
      then have "nat (min ?final (int (num_tokens r)) div block_size_of k) \<le> length (block_hashes r)"
        using st caching by (simp add: cacheable_step_def nat_le_iff)
      moreover have "0 \<le> int (cached_before k ?rid c) * block_size_of k" using D(5) by simp
      then have "0 \<le> min ?final (int (num_tokens r))" using st caching unfolding cacheable_step_def by linarith
      then have "0 \<le> min ?final (int (num_tokens r)) div block_size_of k" using D(5) by (simp add: pos_imp_zdiv_nonneg_iff)
      then have "int (nat (min ?final (int (num_tokens r)) div block_size_of k)) * block_size_of k \<le> ?final"
        using div_mult_le[OF D(5), of "min ?final (int (num_tokens r))"] by simp
      ultimately show ?thesis using slots_okI[OF ok o3 b4 n4 disjI2[OF conjI] True len] by (intro exI conjI)
    qed
  qed
qed

end
