(* ===== verification/KV_Run.thy ===== *)
theory KV_Run
  imports KV_Life
begin

text \<open>
  Runs of the \<open>KVCacheManager\<close> of a model with one full-attention group, and what they guarantee: block tables
  and reference counts agree, slots are granted exactly when enough blocks are free, nothing raises, and
  nothing leaks.
\<close>

section \<open>Freeing, reset, construction\<close>

lemma km_free_ok:
  assumes ok: "km_ok k"
  shows "\<exists>k'. km_free k r = Inr k' \<and> km_ok k' \<and> same_setup k k' \<and> table k' = (table k)(request_id r := [])
    \<and> num_cached_block (the_manager k') = (num_cached_block (the_manager k))(request_id r := None)"
proof -
  note D = km_okD[OF ok]
  from free_request_ok[OF D(2), of "request_id r"] obtain p m where
    f: "free_request (the_pool k) (the_manager k) (request_id r) = Inr (p, m)" "owned p m" "pool_frame p = pool_frame (the_pool k)"
    "blocks_of m = (blocks_of (the_manager k))(request_id r := [])"
    "num_cached_block m = (num_cached_block (the_manager k))(request_id r := None)"
    "m_spec m = m_spec (the_manager k)" "m_block_size m = m_block_size (the_manager k)" "kv_cache_group_id m = kv_cache_group_id (the_manager k)"
    by (elim exE conjE) (rule that)
  let ?k = "k\<lparr>coord := (coord k)\<lparr>co_pool := p, managers := [m]\<rparr>\<rparr>"
  have "km_free k r = Inr ?k" using f(1) D(1) by (simp add: km_free_def co_free_def co_each_def the_pool_def)
  moreover have "km_ok ?k" using f D(3) by (intro km_ok_update[OF ok]) (simp_all add: block_size_of_def)
  moreover have "same_setup k ?k" using f(3,7) by (simp add: same_setup_def block_size_of_def)
  moreover have "table ?k = (table k)(request_id r := [])" using f(4) by (simp add: table_def fun_eq_iff)
  ultimately show ?thesis using f(5) by (intro exI[of _ ?k]) simp
qed

lemma reset_owned:
  assumes own: "owned p m"
  shows "owned (snd (reset_prefix_cache p)) m"
proof (cases "fst (reset_prefix_cache p)")
  case True
  note R = reset_prefix_cache_ok[OF ownedD(1)[OF own]]
  have u: "usable (snd (reset_prefix_cache p)) = usable p" by (simp add: usable_def)
  have "tail_ok (snd (reset_prefix_cache p)) m rid" for rid
    using ownedD(6)[OF own, of rid] R(3)[OF True] by (auto simp: tail_ok_def split: option.splits)
  then show ?thesis using own R(2,4) by (simp add: owned_def u)
next
  case False
  then have "snd (reset_prefix_cache p) = p" by (auto simp: reset_prefix_cache_def Let_def split: if_splits)
  then show ?thesis using own by simp
qed

lemma reset_frame: "pool_frame (snd (reset_prefix_cache p)) = pool_frame p"
  by (auto simp: reset_prefix_cache_def pool_frame_def Let_def)

lemma km_reset_ok:
  assumes ok: "km_ok k"
  shows "\<exists>k'. km_reset_prefix_cache k = Inr (fst (reset_prefix_cache (the_pool k)), k') \<and> km_ok k' \<and> same_setup k k'
    \<and> table k' = table k \<and> the_pool k' = snd (reset_prefix_cache (the_pool k)) \<and> the_manager k' = the_manager k"
proof -
  note D = km_okD[OF ok]
  obtain b p where r: "reset_prefix_cache (the_pool k) = (b, p)" by fastforce
  let ?k = "k\<lparr>coord := (coord k)\<lparr>co_pool := p, managers := [the_manager k]\<rparr>\<rparr>"
  have k: "k\<lparr>coord := (coord k)\<lparr>co_pool := p\<rparr>\<rparr> = ?k" using D(1) by simp
  have own: "owned p (the_manager k)" using reset_owned[OF D(2)] r by simp
  have fr: "pool_frame p = pool_frame (the_pool k)" using reset_frame[of "the_pool k"] r by simp
  have ok': "km_ok ?k" using D(3) by (intro km_ok_update[OF ok own fr]) (simp_all add: block_size_of_def)
  have st: "km_ok (?k\<lparr>prefix_cache_stats := Some st\<rparr>)" for st by (rule km_ok_stats[OF ok'])
  have "same_setup k ?k" "same_setup k (?k\<lparr>prefix_cache_stats := Some st\<rparr>)" for st
    using fr by (simp_all add: same_setup_def block_size_of_def the_manager_def the_pool_def)
  moreover have "table (?k\<lparr>prefix_cache_stats := Some st\<rparr>) = table k" "table ?k = table k" for st
    by (simp_all add: table_def fun_eq_iff the_manager_def)
  moreover have "the_pool (?k\<lparr>prefix_cache_stats := Some st\<rparr>) = p" "the_manager (?k\<lparr>prefix_cache_stats := Some st\<rparr>) = the_manager k" for st
    by (simp_all add: the_pool_def the_manager_def)
  ultimately show ?thesis using ok' st D(11)
    by (cases b; cases "log_stats k") (auto simp: km_reset_prefix_cache_def r k Let_def the_pool_def[symmetric])
qed

lemma init_kv_manager_ok:
  assumes c: "kv_cache_groups c = [g]" "is_full_attention (group_spec g)" "spec_block_size (group_spec g) > 0" "num_blocks c > 0"
  shows "\<exists>k. init_kv_manager c max_len caching use_eagle logging False use_int 1 = Inr k \<and> km_ok k
    \<and> km_max_model_len k = max_len \<and> km_enable_caching k = caching \<and> block_size_of k = spec_block_size (group_spec g)
    \<and> table k = (\<lambda>_. []) \<and> num_cached_block (the_manager k) = Map.empty \<and> num_gpu_blocks (the_pool k) = num_blocks c
    \<and> log_stats k = logging"
proof -
  obtain p where p: "init_pool (num_blocks c) caching False use_int = Inr p" "enable_caching p = caching"
    "\<not> enable_kv_cache_events p" "ref_cnt p = (\<lambda>_. 0)" using init_pool_total[OF c(4)] by blast
  have inv: "pool_inv p" "num_gpu_blocks p = num_blocks c" using init_pool_inv[OF p(1)] by auto
  let ?m = "\<lparr>m_spec = group_spec g, m_block_size = spec_block_size (group_spec g), req_to_blocks = Map.empty,
    num_cached_block = Map.empty, kv_cache_group_id = 0\<rparr>"
  have m: "get_manager_for_kv_cache_spec (group_spec g) 0 1 = Inr ?m"
    using c(2) by (cases "group_spec g") (auto simp: get_manager_for_kv_cache_spec_def)
  have "owned p ?m" using c(2,3) inv p(4) by (auto simp: owned_def blocks_of_def owners_def tail_ok_def)
  moreover have "init_pool (num_blocks c) False False use_int = Inr p" if "\<not> caching" using that p(1) by simp
  ultimately show ?thesis using p m c(1) inv(2)
    by (cases caching)
      (simp_all add: init_kv_manager_def get_kv_cache_coordinator_def init_coordinator_def km_ok_def enumerate_eq_zip
        the_manager_def the_pool_def block_size_of_def table_def blocks_of_def fun_eq_iff)
qed

section \<open>Runs\<close>

text \<open>A request as the scheduler hands it over: at least one token, not longer than the model allows, one hash
  per full block, no hash twice.\<close>

definition valid_request :: "kv_manager \<Rightarrow> request \<Rightarrow> bool" where
  "valid_request k r \<longleftrightarrow> 1 \<le> num_tokens r \<and> int (num_tokens r) \<le> km_max_model_len k
     \<and> int (length (block_hashes r)) = int (num_tokens r) div block_size_of k \<and> distinct (block_hashes r)"

inductive km_run :: "kv_cache_config \<Rightarrow> kv_manager \<Rightarrow> bool" for c :: kv_cache_config where
  start: "kv_cache_groups c = [g] \<Longrightarrow> is_full_attention (group_spec g) \<Longrightarrow> spec_block_size (group_spec g) > 0 \<Longrightarrow> num_blocks c > 0
    \<Longrightarrow> init_kv_manager c max_len caching use_eagle logging False use_int 1 = Inr k \<Longrightarrow> km_run c k"
| look_up: "km_run c k \<Longrightarrow> valid_request k r \<Longrightarrow> get_computed_blocks k r = Inr (cs, n, k') \<Longrightarrow> km_run c k'"
| arrive: "km_run c k \<Longrightarrow> valid_request k r \<Longrightarrow> num_computed_tokens r = 0 \<Longrightarrow> num_cached_block (the_manager k) (request_id r) = None
    \<Longrightarrow> get_computed_blocks k r = Inr (cs, n, k1) \<Longrightarrow> n_new > 0
    \<Longrightarrow> allocate_slots k1 r n_new n (Some cs) look delay 0 = Inr (res, k') \<Longrightarrow> km_run c k'"
| grow: "km_run c k \<Longrightarrow> valid_request k r \<Longrightarrow> num_cached_block (the_manager k) (request_id r) = Some nc \<Longrightarrow> n_new > 0
    \<Longrightarrow> int nc * block_size_of k \<le> num_computed_tokens r + n_new \<Longrightarrow> nc \<le> length (block_hashes r)
    \<Longrightarrow> allocate_slots k r n_new 0 None look delay 0 = Inr (res, k') \<Longrightarrow> km_run c k'"
| finish: "km_run c k \<Longrightarrow> km_free k r = Inr k' \<Longrightarrow> km_run c k'"
| reset: "km_run c k \<Longrightarrow> km_reset_prefix_cache k = Inr (b, k') \<Longrightarrow> km_run c k'"

lemma arrive_ok:
  assumes ok: "km_ok k" and v: "valid_request k r" and r0: "num_computed_tokens r = 0"
    and new: "num_cached_block (the_manager k) (request_id r) = None" "n_new > 0"
  shows "\<exists>hits k1 res k'. get_computed_blocks k r = Inr ([hits], int (length hits) * block_size_of k, k1)
    \<and> allocate_slots k1 r n_new (int (length hits) * block_size_of k) (Some [hits]) look delay 0 = Inr (res, k')
    \<and> (\<forall>j<length hits. serves (the_pool k) (block_hashes r ! j) 0 (hits ! j))
    \<and> int (length hits) * block_size_of k < int (num_tokens r)
    \<and> slots_ok k r hits (int (length hits) * block_size_of k + n_new) (min (int (length hits) * block_size_of k + n_new + int look) (km_max_model_len k)) res k'"
proof -
  from get_computed_blocks_ok[OF ok] v obtain hits k1 where
    g: "get_computed_blocks k r = Inr ([hits], int (length hits) * block_size_of k, k1)" "coord k1 = coord k" "km_ok k1"
    "hit_blocks (the_pool k) hits" "\<not> km_enable_caching k \<longrightarrow> hits = []"
    "int (length hits) * block_size_of k \<le> int (num_tokens r) - 1" "km_max_model_len k1 = km_max_model_len k"
    "km_enable_caching k1 = km_enable_caching k" "\<forall>j<length hits. serves (the_pool k) (block_hashes r ! j) 0 (hits ! j)"
    "log_stats k1 = log_stats k"
    unfolding valid_request_def by (metis (no_types, lifting))
  have same: "the_manager k1 = the_manager k" "the_pool k1 = the_pool k" "block_size_of k1 = block_size_of k" "table k1 = table k"
    using g(2) by (simp_all add: the_manager_def the_pool_def block_size_of_def table_def fun_eq_iff)
  have adm: "admissible k1 (request_id r) hits" using g(4,5,8) new same by (auto simp: admissible_def)
  have step: "cacheable_step k1 r hits (num_computed_tokens r + int (length hits) * block_size_of k + n_new)"
    using v g(6,7) new same r0 by (auto simp: cacheable_step_def valid_request_def cached_before_def)
  from allocate_slots_ok[OF g(3) new(2) adm, of "Some [hits]" delay "int (length hits) * block_size_of k" look] step obtain res k' where
    a: "allocate_slots k1 r n_new (int (length hits) * block_size_of k) (Some [hits]) look delay 0 = Inr (res, k')"
    "slots_ok k1 r hits (num_computed_tokens r + int (length hits) * block_size_of k + n_new) (min (num_computed_tokens r + int (length hits) * block_size_of k + n_new + int look) (km_max_model_len k1)) res k'"
    by blast
  have "slots_ok k r hits (int (length hits) * block_size_of k + n_new) (min (int (length hits) * block_size_of k + n_new + int look) (km_max_model_len k)) res k'"
    using a(2) same g(7,8,10) r0 by (cases res) (simp_all add: slots_ok_def same_setup_def needed_blocks_def cached_before_def)
  then show ?thesis using g(1,6,9) a(1) by (intro exI conjI) (assumption | simp)+
qed

lemma grow_ok:
  assumes ok: "km_ok k" and v: "valid_request k r" and run: "num_cached_block (the_manager k) (request_id r) = Some nc" and new: "n_new > 0"
    and nc: "int nc * block_size_of k \<le> num_computed_tokens r + n_new" "nc \<le> length (block_hashes r)"
  shows "\<exists>res k'. allocate_slots k r n_new 0 None look delay 0 = Inr (res, k')
    \<and> slots_ok k r [] (num_computed_tokens r + n_new) (min (num_computed_tokens r + n_new + int look) (km_max_model_len k)) res k'"
proof -
  have pos: "block_size_of k > 0" by (rule km_okD(5)[OF ok])
  have "int nc * block_size_of k \<le> int (num_tokens r) div block_size_of k * block_size_of k"
    using v nc(2) pos by (intro mult_right_mono) (auto simp: valid_request_def)
  also have "\<dots> \<le> int (num_tokens r)" by (rule div_mult_le[OF pos])
  finally have "cacheable_step k r [] (num_computed_tokens r + 0 + n_new)"
    using v nc(1) run by (simp add: cacheable_step_def valid_request_def cached_before_def)
  moreover have "admissible k (request_id r) []" using run by (simp add: admissible_def)
  ultimately show ?thesis using allocate_slots_ok[OF ok new, of r "[]" None delay 0 look] by (simp add: algebra_simps)
qed

text \<open>What a step means for the caller.\<close>

lemma slots_ok_room:
  assumes pos: "block_size_of k > 0" and s: "slots_ok k r c final slots res k'"
  shows "(res = None \<longleftrightarrow> needed_blocks k (request_id r) c slots > get_num_free_blocks (the_pool k))
    \<and> (res = None \<longrightarrow> table k' = table k \<and> the_pool k' = the_pool k)
    \<and> (res \<noteq> None \<longrightarrow> (\<exists>bs. res = Some [bs] \<and> table k' = (table k)(request_id r := table k (request_id r) @ c @ bs))
         \<and> slots \<le> int (length (table k' (request_id r))) * block_size_of k)"
proof (cases res)
  case None
  then show ?thesis using s by (simp add: slots_ok_def)
next
  case (Some bss)
  then obtain bs where b: "bss = [bs]" "table k' (request_id r) = table k (request_id r) @ c @ bs"
    "\<forall>rid. rid \<noteq> request_id r \<longrightarrow> table k' rid = table k rid" "needed_blocks k (request_id r) c slots \<le> get_num_free_blocks (the_pool k)"
    "int (length (table k' (request_id r))) = max (int (length (table k (request_id r) @ c))) (ceil_div slots (block_size_of k))"
    using s by (auto simp: slots_ok_def)
  have "slots \<le> ceil_div slots (block_size_of k) * block_size_of k" by (rule ceil_div_bounds(1)[OF pos])
  also have "\<dots> \<le> int (length (table k' (request_id r))) * block_size_of k" using b(5) pos by (intro mult_right_mono) auto
  finally show ?thesis using Some b by (auto simp: fun_eq_iff)
qed

lemma free_when_alone:
  assumes ok: "km_ok k" and alone: "\<forall>rid. rid \<noteq> r \<longrightarrow> table k rid = []"
  shows "get_num_free_blocks (the_pool k) = num_gpu_blocks (the_pool k) - 1 - int (length (table k r))"
proof -
  note own = km_okD(2)[OF ok] and D = ownedD[OF km_okD(2)[OF ok]]
  let ?U = "usable (the_pool k)"
  have "{b \<in> ?U. ref_cnt (the_pool k) (Blk b) = 0} = ?U - {b. Blk b \<in> set (table k r)}"
    using unowned_iff[OF own] alone by (fastforce simp: table_def)
  moreover have "set (table k r) = Blk ` {b. Blk b \<in> set (table k r)}" using D(3)[of r] by (auto simp: table_def)
  then have "card {b. Blk b \<in> set (table k r)} = length (table k r)"
    using distinct_card[OF D(2)[of r]] card_image[of Blk "{b. Blk b \<in> set (table k r)}"] by (simp add: inj_on_def table_def)
  moreover have sub: "{b. Blk b \<in> set (table k r)} \<subseteq> ?U" using D(3)[of r] by (auto simp: table_def)
  moreover have fin: "finite ?U" and pos: "num_gpu_blocks (the_pool k) > 0" using D(1) by (auto simp: usable_def pool_inv_def pool_wf_def)
  ultimately have "card {b \<in> ?U. ref_cnt (the_pool k) (Blk b) = 0} = card ?U - length (table k r)" "length (table k r) \<le> card ?U"
    using card_Diff_subset[OF finite_subset[OF sub fin] sub] card_mono[OF fin sub] by simp_all
  moreover have "int (card ?U) = num_gpu_blocks (the_pool k) - 1" using pos by (simp add: usable_def)
  ultimately show ?thesis using num_free_blocks_card[OF D(1)] by simp
qed

lemma km_run_ok:
  assumes "km_run c k"
  shows "km_ok k \<and> num_gpu_blocks (the_pool k) = num_blocks c"
  using assms
proof induction
  case (start g max_len caching use_eagle logging use_int k)
  then show ?case using init_kv_manager_ok[OF start(1-4), of max_len caching use_eagle logging use_int] by auto
next
  case (look_up k r cs n k')
  then obtain hits k1 where "get_computed_blocks k r = Inr ([hits], int (length hits) * block_size_of k, k1)" "coord k1 = coord k" "km_ok k1"
    using get_computed_blocks_ok[of k r] unfolding valid_request_def by blast
  then show ?case using look_up by (simp add: the_pool_def)
next
  case (arrive k r cs n k1 n_new look delay res k')
  then have "slots_ok k r (hd cs) (int (length (hd cs)) * block_size_of k + n_new) (min (int (length (hd cs)) * block_size_of k + n_new + int look) (km_max_model_len k)) res k'"
    using arrive_ok[of k r n_new look delay] by auto
  then show ?case using arrive by (simp add: slots_ok_def same_setup_def pool_frame_def)
next
  case (grow k r nc n_new look delay res k')
  then have "slots_ok k r [] (num_computed_tokens r + n_new) (min (num_computed_tokens r + n_new + int look) (km_max_model_len k)) res k'"
    using grow_ok[of k r nc n_new look delay] by auto
  then show ?case using grow by (simp add: slots_ok_def same_setup_def pool_frame_def)
next
  case (finish k r k')
  then obtain k1 where "km_free k r = Inr k1" "km_ok k1" "same_setup k k1" using km_free_ok[of k r] by blast
  then show ?case using finish by (simp add: same_setup_def pool_frame_def)
next
  case (reset k b k')
  then obtain k1 where "km_reset_prefix_cache k = Inr (fst (reset_prefix_cache (the_pool k)), k1)" "km_ok k1" "same_setup k k1"
    using km_reset_ok[of k] by blast
  then show ?case using reset by (simp add: same_setup_def pool_frame_def)
qed

section \<open>Properties\<close>

text \<open>C18. Ownership of KV blocks. In every state the manager of a full-attention model reaches by starting,
  admitting, growing and finishing requests and resetting the prefix cache: no block table holds a block twice
  or the null block, the reference count of a block is the number of requests whose table holds it, the number
  of free blocks is the number of blocks in no table, and once no request has a table left the usage is 0 and the
  prefix cache can be reset: no block leaks.\<close>

theorem kv_blocks_owned:
  assumes run: "km_run c k"
  shows "(\<forall>rid. distinct (table k rid) \<and> set (table k rid) \<subseteq> Blk ` usable (the_pool k))
    \<and> (\<forall>b\<in>usable (the_pool k). finite {rid. Blk b \<in> set (table k rid)}
         \<and> ref_cnt (the_pool k) (Blk b) = int (card {rid. Blk b \<in> set (table k rid)}))
    \<and> get_num_free_blocks (the_pool k) = int (card {b\<in>usable (the_pool k). \<forall>rid. Blk b \<notin> set (table k rid)})
    \<and> (get_usage (the_pool k) = 0 \<longleftrightarrow> (\<forall>rid. table k rid = []))
    \<and> (\<exists>k'. km_reset_prefix_cache k = Inr (\<forall>rid. table k rid = [], k'))"
proof -
  have ok: "km_ok k" using km_run_ok[OF run] by simp
  note own = km_okD(2)[OF ok] and D = ownedD[OF km_okD(2)[OF ok]]
  have z: "ref_cnt (the_pool k) (Blk b) = 0 \<longleftrightarrow> (\<forall>rid. Blk b \<notin> set (table k rid))" if "b \<in> usable (the_pool k)" for b
    using unowned_iff[OF own that] by (simp add: table_def)
  then have f: "{b \<in> usable (the_pool k). ref_cnt (the_pool k) (Blk b) = 0} = {b\<in>usable (the_pool k). \<forall>rid. Blk b \<notin> set (table k rid)}" by auto
  have e: "(\<forall>b\<in>usable (the_pool k). ref_cnt (the_pool k) (Blk b) = 0) \<longleftrightarrow> (\<forall>rid. table k rid = [])"
  proof
    assume a: "\<forall>b\<in>usable (the_pool k). ref_cnt (the_pool k) (Blk b) = 0"
    show "\<forall>rid. table k rid = []"
    proof
      fix rid
      have "set (table k rid) \<subseteq> Blk ` usable (the_pool k)" using D(3)[of rid] by (simp add: table_def)
      then have "x \<notin> set (table k rid)" for x using a z by blast
      then show "table k rid = []" by (metis list.set_intros(1) neq_Nil_conv)
    qed
  qed (simp add: z)
  obtain k' where "km_reset_prefix_cache k = Inr (fst (reset_prefix_cache (the_pool k)), k')" using km_reset_ok[OF ok] by blast
  then have "\<exists>k'. km_reset_prefix_cache k = Inr (\<forall>rid. table k rid = [], k')"
    using reset_prefix_cache_ok(1)[OF D(1)] e by simp
  then show ?thesis
    using D(2,3,4,5) usage_bounds(2)[OF D(1)] num_free_blocks_card[OF D(1)] e f by (simp add: table_def owners_def)
qed

definition demo_kv_config :: kv_cache_config where
  "demo_kv_config = \<lparr>num_blocks = 4, kv_cache_tensors = [], kv_cache_groups =
     [\<lparr>layer_names = [''l0''], group_spec = RabitQAttentionSpec demo_attention None None (Some 4) None None\<rparr>]\<rparr>"

definition demo_kv_request :: request where
  "demo_kv_request = \<lparr>request_id = ''r'', all_token_ids = replicate 20 7, block_hashes = [[1]], mm_positions = [], mm_hashes = [],
     lora_request = None, cache_salt = None, num_computed_tokens = 0, prompt_logprobs = False\<rparr>"

lemma demo_start:
  obtains k where "km_run demo_kv_config k" "valid_request k demo_kv_request" "km_max_model_len k = 100" "block_size_of k = 16"
    "table k = (\<lambda>_. [])" "num_cached_block (the_manager k) = Map.empty" "get_num_free_blocks (the_pool k) = 3"
    "get_num_free_blocks (the_pool k) = int (card {b\<in>usable (the_pool k). \<forall>rid. Blk b \<notin> set (table k rid)})"
proof -
  let ?g = "\<lparr>layer_names = [''l0''], group_spec = RabitQAttentionSpec demo_attention None None (Some 4) None None\<rparr>"
  have c: "kv_cache_groups demo_kv_config = [?g]" "is_full_attention (group_spec ?g)" "spec_block_size (group_spec ?g) > 0" "num_blocks demo_kv_config > 0"
    by (simp_all add: demo_kv_config_def demo_attention_def)
  from init_kv_manager_ok[OF c, of 100 True False True False] obtain k where
    i: "init_kv_manager demo_kv_config 100 True False True False False 1 = Inr k" "km_ok k" "km_max_model_len k = 100"
    "block_size_of k = spec_block_size (group_spec ?g)" "table k = (\<lambda>_. [])" "num_cached_block (the_manager k) = Map.empty"
    "num_gpu_blocks (the_pool k) = num_blocks demo_kv_config" by blast
  note own = km_okD(2)[OF i(2)]
  have "{b \<in> usable (the_pool k). ref_cnt (the_pool k) (Blk b) = 0} = {b\<in>usable (the_pool k). \<forall>rid. Blk b \<notin> set (table k rid)}"
    using unowned_iff[OF own] by (auto simp: table_def)
  then have n: "get_num_free_blocks (the_pool k) = int (card {b\<in>usable (the_pool k). \<forall>rid. Blk b \<notin> set (table k rid)})"
    using num_free_blocks_card[OF km_okD(13)[OF i(2)]] by simp
  moreover have "usable (the_pool k) = {1, 2, 3}" using i(7) by (auto simp: usable_def demo_kv_config_def)
  moreover from this have "{b\<in>usable (the_pool k). \<forall>rid. Blk b \<notin> set (table k rid)} = {1, 2, 3}" using i(5) by auto
  ultimately have "get_num_free_blocks (the_pool k) = 3" by simp
  moreover have "block_size_of k = 16" using i(4) by (simp add: demo_attention_def)
  moreover from this have "valid_request k demo_kv_request" using i(3) by (simp add: valid_request_def demo_kv_request_def num_tokens_def)
  ultimately show ?thesis using that[OF km_run.start[OF c i(1)] _ i(3) _ i(5,6) _ n] by simp
qed

theorem kv_blocks_owned_witness:
  "\<exists>k. km_run demo_kv_config k \<and> get_usage (the_pool k) = 0 \<and> (\<exists>k'. km_reset_prefix_cache k = Inr (True, k'))"
proof -
  obtain k where k: "km_run demo_kv_config k" "table k = (\<lambda>_. [])" using demo_start by blast
  from kv_blocks_owned[OF k(1)] k show ?thesis by (intro exI[of _ k]) simp
qed

text \<open>C19. Admission. For a new request the prefix lookup and the allocation that follows never raise. The
  lookup returns blocks cached under the request's own first hashes and leaves at least one token to compute; slots
  are refused, with all tables and the pool unchanged, exactly when more blocks are needed (the hit blocks that
  lie in the free queue included) than are free; otherwise the table of the request is the hit blocks followed by new
  ones and has room for all tokens of the step up to the length of the model, and no other table changes.\<close>

theorem admission_serves_prefix:
  assumes run: "km_run c k" and v: "valid_request k r" and r0: "num_computed_tokens r = 0"
    and new: "num_cached_block (the_manager k) (request_id r) = None" "n_new > 0"
  shows "\<exists>hits k1 res k'. get_computed_blocks k r = Inr ([hits], int (length hits) * block_size_of k, k1)
    \<and> allocate_slots k1 r n_new (int (length hits) * block_size_of k) (Some [hits]) look delay 0 = Inr (res, k')
    \<and> (\<forall>j<length hits. serves (the_pool k) (block_hashes r ! j) 0 (hits ! j))
    \<and> int (length hits) * block_size_of k < int (num_tokens r)
    \<and> (let slots = min (int (length hits) * block_size_of k + n_new + int look) (km_max_model_len k);
           needed = ceil_div slots (block_size_of k) - int (length hits) + int (length (evictable (the_pool k) hits))
       in (res = None \<longleftrightarrow> needed > get_num_free_blocks (the_pool k))
        \<and> (res = None \<longrightarrow> table k' = table k \<and> the_pool k' = the_pool k)
        \<and> (res \<noteq> None \<longrightarrow> (\<exists>bs. res = Some [bs] \<and> table k' = (table k)(request_id r := hits @ bs))
             \<and> slots \<le> int (length (table k' (request_id r))) * block_size_of k))"
proof -
  have ok: "km_ok k" using km_run_ok[OF run] by simp
  obtain hits k1 res k' where a: "get_computed_blocks k r = Inr ([hits], int (length hits) * block_size_of k, k1)"
    "allocate_slots k1 r n_new (int (length hits) * block_size_of k) (Some [hits]) look delay 0 = Inr (res, k')"
    "\<forall>j<length hits. serves (the_pool k) (block_hashes r ! j) 0 (hits ! j)" "int (length hits) * block_size_of k < int (num_tokens r)"
    and s: "slots_ok k r hits (int (length hits) * block_size_of k + n_new) (min (int (length hits) * block_size_of k + n_new + int look) (km_max_model_len k)) res k'"
    using arrive_ok[OF ok v r0 new, of look delay] by (elim exE conjE) (rule that)
  have empty: "table k (request_id r) = []" using ownedD(6)[OF km_okD(2)[OF ok], of "request_id r"] new(1) by (simp add: tail_ok_def table_def)
  show ?thesis using a slots_ok_room[OF km_okD(5)[OF ok] s] empty
    by (rule_tac x = hits in exI, rule_tac x = k1 in exI, rule_tac x = res in exI, rule_tac x = k' in exI)
      (cases res; simp add: Let_def needed_blocks_def)
qed

theorem admission_serves_prefix_witness:
  "\<exists>k hits k1 res k'. km_run demo_kv_config k
    \<and> get_computed_blocks k demo_kv_request = Inr ([hits], int (length hits) * 16, k1)
    \<and> allocate_slots k1 demo_kv_request 20 (int (length hits) * 16) (Some [hits]) 0 False 0 = Inr (res, k')
    \<and> int (length hits) * 16 < 20"
proof -
  obtain k where k: "km_run demo_kv_config k" "valid_request k demo_kv_request" "block_size_of k = 16" "num_cached_block (the_manager k) = Map.empty"
    using demo_start by blast
  have r: "num_computed_tokens demo_kv_request = 0" "num_cached_block (the_manager k) (request_id demo_kv_request) = None" "(20::int) > 0"
    "num_tokens demo_kv_request = 20" using k(4) by (simp_all add: demo_kv_request_def num_tokens_def)
  show ?thesis using admission_serves_prefix[OF k(1,2) r(1-3), of 0 False] k(1,3) r(4) unfolding Let_def by fastforce
qed

text \<open>The demonstration request with its 20 tokens admitted.\<close>

lemma demo_admitted:
  obtains k nc where "km_run demo_kv_config k" "table k ''r'' \<noteq> []" "num_cached_block (the_manager k) ''r'' = Some nc" "nc \<le> 1"
    "block_size_of k = 16" "km_max_model_len k = 100"
proof -
  obtain k0 where k: "km_run demo_kv_config k0" "valid_request k0 demo_kv_request" "km_max_model_len k0 = 100" "block_size_of k0 = 16"
    "table k0 = (\<lambda>_. [])" "num_cached_block (the_manager k0) = Map.empty" "get_num_free_blocks (the_pool k0) = 3"
    using demo_start by blast
  have r: "num_computed_tokens demo_kv_request = 0" "num_cached_block (the_manager k0) (request_id demo_kv_request) = None" "(20::int) > 0"
    "num_tokens demo_kv_request = 20" "request_id demo_kv_request = ''r''" "length (block_hashes demo_kv_request) = 1"
    using k(6) by (simp_all add: demo_kv_request_def num_tokens_def)
  have ok: "km_ok k0" using km_run_ok[OF k(1)] by simp
  from arrive_ok[OF ok k(2) r(1-3), of 0 True] k(3,4) r(4) obtain hits k1 res k2 where
    a: "get_computed_blocks k0 demo_kv_request = Inr ([hits], int (length hits) * 16, k1)"
    "allocate_slots k1 demo_kv_request 20 (int (length hits) * 16) (Some [hits]) 0 True 0 = Inr (res, k2)"
    "int (length hits) * 16 < 20" "slots_ok k0 demo_kv_request hits (int (length hits) * 16 + 20) (min (int (length hits) * 16 + 20) 100) res k2" by auto
  have run: "km_run demo_kv_config k2" by (rule km_run.arrive[OF k(1,2) r(1,2) a(1) r(3) a(2)])
  have "length hits = 0 \<or> length hits = 1" using a(3) by linarith
  moreover have "length (evictable (the_pool k0) hits) \<le> length hits" by (simp add: evictable_def)
  ultimately have h: "length hits = 0 \<or> length hits = 1" "length (evictable (the_pool k0) hits) \<le> length hits" by blast+
  then have "needed_blocks k0 ''r'' hits (min (int (length hits) * 16 + 20) 100) \<le> 3"
    using k(4,5) by (auto simp: needed_blocks_def ceil_div_def)
  then have "res \<noteq> None" using slots_ok_room[OF _ a(4)] k(4,7) r(5) by auto
  then obtain bss where b: "res = Some bss" by blast
  note sl = a(4)[unfolded slots_ok_def b option.case]
  have su: "same_setup k0 k2" using sl by blast
  have "int (length (table k2 ''r'')) > 0" using sl h k(4) r(5) by (auto simp: ceil_div_def)
  then have t: "table k2 ''r'' \<noteq> []" by auto
  obtain nc where nc: "num_cached_block (the_manager k2) ''r'' = Some nc" "nc \<le> 1"
    using sl h r(5,6) k(6) by (auto simp: cached_before_def)
  have "block_size_of k2 = 16" "km_max_model_len k2 = 100" using su k(3,4) by (simp_all add: same_setup_def)
  then show ?thesis by (rule that[OF run t nc])
qed

text \<open>C20. Progress. Asking for slots for a running request never raises: it is refused, with tables and pool
  unchanged, exactly when the missing blocks exceed the free ones, and otherwise the table is extended by new
  blocks to cover the tokens of the step up to the length of the model. When all other requests are finished first
  the request is refused only if the pool itself is too small.\<close>

theorem running_request_progress:
  assumes run: "km_run c k" and v: "valid_request k r" and cached: "num_cached_block (the_manager k) (request_id r) = Some nc" and new: "n_new > 0"
    and nc: "int nc * block_size_of k \<le> num_computed_tokens r + n_new" "nc \<le> length (block_hashes r)"
  shows "\<exists>res k'. allocate_slots k r n_new 0 None look delay 0 = Inr (res, k')
    \<and> (let slots = min (num_computed_tokens r + n_new + int look) (km_max_model_len k);
           missing = ceil_div slots (block_size_of k) - int (length (table k (request_id r)))
       in (res = None \<longleftrightarrow> missing > get_num_free_blocks (the_pool k))
        \<and> (res = None \<longrightarrow> table k' = table k \<and> the_pool k' = the_pool k)
        \<and> (res \<noteq> None \<longrightarrow> (\<exists>bs. res = Some [bs] \<and> table k' = (table k)(request_id r := table k (request_id r) @ bs))
             \<and> slots \<le> int (length (table k' (request_id r))) * block_size_of k)
        \<and> ((\<forall>rid. rid \<noteq> request_id r \<longrightarrow> table k rid = []) \<longrightarrow> ceil_div slots (block_size_of k) < num_blocks c \<longrightarrow> res \<noteq> None))"
proof -
  have ok: "km_ok k" and nb: "num_gpu_blocks (the_pool k) = num_blocks c" using km_run_ok[OF run] by auto
  obtain res k' where a: "allocate_slots k r n_new 0 None look delay 0 = Inr (res, k')"
    "slots_ok k r [] (num_computed_tokens r + n_new) (min (num_computed_tokens r + n_new + int look) (km_max_model_len k)) res k'"
    using grow_ok[OF ok v cached new nc, of look delay] by (elim exE conjE) (rule that)
  have alone: "get_num_free_blocks (the_pool k) = num_blocks c - 1 - int (length (table k (request_id r)))"
    if "\<forall>rid. rid \<noteq> request_id r \<longrightarrow> table k rid = []" using free_when_alone[OF ok that] nb by simp
  show ?thesis using a(1) slots_ok_room[OF km_okD(5)[OF ok] a(2)] alone
    by (rule_tac x = res in exI, rule_tac x = k' in exI) (auto simp: Let_def needed_blocks_def evictable_def)
qed

theorem running_request_progress_witness:
  "\<exists>k res k'. km_run demo_kv_config k \<and> table k ''r'' \<noteq> []
    \<and> allocate_slots k (demo_kv_request\<lparr>num_computed_tokens := 20\<rparr>) 12 0 None 0 True 0 = Inr (res, k')"
proof -
  obtain k2 nc where run: "km_run demo_kv_config k2" and t: "table k2 ''r'' \<noteq> []" and nc: "num_cached_block (the_manager k2) ''r'' = Some nc" "nc \<le> 1"
    and bs: "block_size_of k2 = 16" "km_max_model_len k2 = 100" by (rule demo_admitted)
  let ?r = "demo_kv_request\<lparr>num_computed_tokens := 20\<rparr>"
  from bs have "valid_request k2 ?r" "num_cached_block (the_manager k2) (request_id ?r) = Some nc" "(12::int) > 0"
    "int nc * block_size_of k2 \<le> num_computed_tokens ?r + 12" "nc \<le> length (block_hashes ?r)"
    using nc by (simp_all add: valid_request_def demo_kv_request_def num_tokens_def)
  from running_request_progress[OF run this, of 0 True] show ?thesis using run t by blast
qed

end
