(* ===== verification/KV_Cross.thy ===== *)
theory KV_Cross
  imports KV_Life
begin

text \<open>
  Encoder-decoder models: the static allocation of the cross-attention group and the check for free blocks.
\<close>

lemma ceil_div_0 [simp]: "ceil_div 0 b = 0"
  by (simp add: ceil_div_def)

lemma cross_plain:
  assumes "is_cross s"
  shows "\<not> is_full_attention s" "speculative_tokens s = 0" "\<not> is_mamba s"
  using assms by (cases s; simp)+

lemma no_skipped:
  assumes "is_full_attention (m_spec m) \<or> is_cross (m_spec m)"
  shows "remove_skipped_blocks p m rid n = Inr (p, m)"
  using assms by (cases "m_spec m") (auto simp: remove_skipped_blocks_def)

text \<open>C30. A running request of an encoder-decoder model is given no encoder tokens, so the check counts the blocks
  its cross-attention table already holds as negative demand. Whenever the free blocks do not cover the missing
  self-attention blocks, but would with the request's cross-attention blocks added, the check passes and the
  allocation raises \<open>ValueError\<close> where the caller expects \<open>None\<close> to preempt another request.\<close>

theorem cross_attention_hides_shortage:
  assumes ms: "managers (coord k) = [mf, mx]" "is_full_attention (m_spec mf)" "is_cross (m_spec mx)" "m_block_size mf > 0" "m_block_size mx > 0"
    and k: "\<not> km_enable_caching k" "num_kv_cache_groups k = 2" "num_cached_block mf (request_id r) = Some nc" "n_new > 0"
    and slots: "slots = min (num_computed_tokens r + n_new + int look) (km_max_model_len k)"
    and missing: "missing = ceil_div slots (m_block_size mf) - int (length (blocks_of mf (request_id r)))"
    and short: "get_num_free_blocks (co_pool (coord k)) < missing"
      "missing \<le> get_num_free_blocks (co_pool (coord k)) + int (length (blocks_of mx (request_id r)))"
    and free: "get_num_free_blocks (co_pool (coord k)) \<ge> 0"
  shows "allocate_slots k r n_new 0 None look delay 0 = Inl ValueError"
proof -
  let ?rid = "request_id r" and ?co1 = "(coord k)\<lparr>managers := [with_entry mf (request_id r), with_entry mx (request_id r)]\<rparr>"
  have skip: "co_remove_skipped_blocks (coord k) ?rid n = Inr (coord k)" for n
    using ms by (simp add: co_remove_skipped_blocks_def co_each_def no_skipped)
  have "\<not> is_cross (m_spec mf)" "speculative_tokens (m_spec mf) = 0" using not_cross[OF ms(2)] by auto
  note fx = this cross_plain[OF ms(3)]
  have num: "co_get_num_blocks_to_allocate (coord k) ?rid slots [[], []] 0 = Inr (missing - int (length (blocks_of mx ?rid)), ?co1)"
    using ms fx by (simp add: co_get_num_blocks_to_allocate_def get_num_blocks_to_allocate_def missing Let_def)
  have save: "co_save_new_computed_blocks ?co1 ?rid [[], []] = Inr ?co1"
    using ms k fx by (simp add: co_save_new_computed_blocks_def save_new_computed_blocks_def)
  have "get_new_blocks (co_pool (coord k)) (nat missing) = Inl ValueError" using short(1) free by (simp add: get_new_blocks_def)
  then have alloc: "co_allocate_new_blocks ?co1 ?rid slots 0 = Inl ValueError"
    using ms fx short(1) free by (simp add: co_allocate_new_blocks_def allocate_new_blocks_def missing)
  have "replicate (num_kv_cache_groups k) [] = [[], [] :: bref list]" using k(2) by (simp add: numeral_2_eq_2)
  then show ?thesis using k skip num save alloc short by (simp add: allocate_slots_def Let_def slots add.assoc)
qed

definition demo_encdec_config :: kv_cache_config where
  "demo_encdec_config = \<lparr>num_blocks = 4, kv_cache_tensors = [], kv_cache_groups =
     [\<lparr>layer_names = [''self''], group_spec = FullAttentionSpec demo_attention None None\<rparr>,
      \<lparr>layer_names = [''cross''], group_spec = CrossAttentionSpec demo_attention\<rparr>]\<rparr>"

definition demo_encdec_request :: request where
  "demo_encdec_request = \<lparr>request_id = ''r'', all_token_ids = replicate 16 7, block_hashes = [[1]], mm_positions = [], mm_hashes = [],
     lora_request = None, cache_salt = None, num_computed_tokens = 0, prompt_logprobs = False\<rparr>"

text \<open>After the prompt of 16 tokens with 32 encoder tokens, which takes all three blocks.\<close>

definition demo_encdec :: "(bref list list option \<times> kv_manager) result" where
  "demo_encdec = bindE (init_kv_manager demo_encdec_config 100 False False False False False 1)
     (\<lambda>k. allocate_slots k demo_encdec_request 16 0 None 0 False 32)"

lemma demo_encdec_state:
  "case demo_encdec of Inl e \<Rightarrow> False | Inr (res, k) \<Rightarrow> res = Some [[Blk 1], [Blk 2, Blk 3]] \<and> get_num_free_blocks (co_pool (coord k)) = 0
    \<and> \<not> km_enable_caching k \<and> num_kv_cache_groups k = 2 \<and> km_max_model_len k = 100
    \<and> (case managers (coord k) of [mf, mx] \<Rightarrow> is_full_attention (m_spec mf) \<and> is_cross (m_spec mx) \<and> m_block_size mf = 16
        \<and> m_block_size mx = 16 \<and> num_cached_block mf ''r'' = Some 0 \<and> blocks_of mf ''r'' = [Blk 1] \<and> blocks_of mx ''r'' = [Blk 2, Blk 3]
       | _ \<Rightarrow> False)"
  by code_simp

theorem cross_attention_hides_shortage_witness:
  "\<exists>k. demo_encdec = Inr (Some [[Blk 1], [Blk 2, Blk 3]], k)
    \<and> allocate_slots k (demo_encdec_request\<lparr>num_computed_tokens := 16\<rparr>) 1 0 None 0 False 0 = Inl ValueError"
proof -
  obtain k mf mx where d: "demo_encdec = Inr (Some [[Blk 1], [Blk 2, Blk 3]], k)" "managers (coord k) = [mf, mx]"
    "get_num_free_blocks (co_pool (coord k)) = 0" "\<not> km_enable_caching k" "num_kv_cache_groups k = 2" "km_max_model_len k = 100"
    "is_full_attention (m_spec mf)" "is_cross (m_spec mx)" "m_block_size mf = 16" "m_block_size mx = 16"
    "num_cached_block mf ''r'' = Some 0" "blocks_of mf ''r'' = [Blk 1]" "blocks_of mx ''r'' = [Blk 2, Blk 3]"
    using demo_encdec_state by (auto split: sum.splits prod.splits list.splits)
  let ?r = "demo_encdec_request\<lparr>num_computed_tokens := 16\<rparr>"
  have r: "request_id ?r = ''r''" "num_computed_tokens ?r = 16" by (simp_all add: demo_encdec_request_def)
  have "allocate_slots k ?r 1 0 None 0 False 0 = Inl ValueError"
    by (rule cross_attention_hides_shortage[OF d(2,7,8) _ _ d(4,5) _ _ refl refl]) (use d r in \<open>simp_all add: ceil_div_def\<close>)
  then show ?thesis using d(1) by blast
qed

end
