(* ===== verification/Sched_Request.thy ===== *)
theory Sched_Request
  imports Block_Hash
begin

text \<open>
  \<open>vllm/v1/request.py\<close> and \<open>vllm/v1/core/sched/utils.py\<close>: the request object the scheduler works on, its life
  as a status, the append of sampled tokens, and the check for the end of a generation.

  The KV-cache manager reads only the fields of \<open>request\<close>; the record here extends it. The function that hashes new full blocks is the
  callable \<open>block_hasher\<close> that the constructor receives; an absent one is \<open>None\<close>.
\<close>

section \<open>Status\<close>

datatype request_status =
    WAITING | WAITING_FOR_FSM | WAITING_FOR_REMOTE_KVS | RUNNING | PREEMPTED
  | FINISHED_STOPPED | FINISHED_LENGTH_CAPPED | FINISHED_ABORTED | FINISHED_IGNORED

datatype finish_reason = FR_STOP | FR_LENGTH | FR_ABORT

text \<open>The values \<open>enum.auto()\<close> gives, in the order of the class.\<close>

fun status_value :: "request_status \<Rightarrow> nat" where
  "status_value WAITING = 1"
| "status_value WAITING_FOR_FSM = 2"
| "status_value WAITING_FOR_REMOTE_KVS = 3"
| "status_value RUNNING = 4"
| "status_value PREEMPTED = 5"
| "status_value FINISHED_STOPPED = 6"
| "status_value FINISHED_LENGTH_CAPPED = 7"
| "status_value FINISHED_ABORTED = 8"
| "status_value FINISHED_IGNORED = 9"

definition status_is_finished :: "request_status \<Rightarrow> bool" where
  "status_is_finished st \<longleftrightarrow> status_value st > status_value PREEMPTED"

fun status_finished_reason :: "request_status \<Rightarrow> finish_reason option" where
  "status_finished_reason FINISHED_STOPPED = Some FR_STOP"
| "status_finished_reason FINISHED_LENGTH_CAPPED = Some FR_LENGTH"
| "status_finished_reason FINISHED_ABORTED = Some FR_ABORT"
| "status_finished_reason FINISHED_IGNORED = Some FR_LENGTH"
| "status_finished_reason _ = None"

lemma status_is_finished_iff [simp]:
  "status_is_finished WAITING = False" "status_is_finished WAITING_FOR_FSM = False" "status_is_finished WAITING_FOR_REMOTE_KVS = False"
  "status_is_finished RUNNING = False" "status_is_finished PREEMPTED = False" "status_is_finished FINISHED_STOPPED = True"
  "status_is_finished FINISHED_LENGTH_CAPPED = True" "status_is_finished FINISHED_ABORTED = True" "status_is_finished FINISHED_IGNORED = True"
  by (simp_all add: status_is_finished_def)

lemma finished_iff_reason: "status_is_finished st \<longleftrightarrow> status_finished_reason st \<noteq> None"
  by (cases st) simp_all

section \<open>Requests\<close>

datatype event_type = QUEUED | SCHEDULED | EV_PREEMPTED

record sampling_params =
  sp_max_tokens :: "int option"
  ignore_eos :: bool
  stop_token_ids :: "int list"
  guided_decoding :: bool
  sp_logprobs :: bool
  sp_prompt_logprobs :: bool

text \<open>\<open>grammar_tokens\<close> are the tokens with which the grammar object of a structured request was advanced.\<close>

record sched_request = request +
  client_index :: int
  priority :: int
  arrival_time :: real
  status :: request_status
  sampling :: "sampling_params option"
  pooling :: bool
  eos_token_id :: "int option"
  use_structured_output :: bool
  grammar_tokens :: "int list"
  stop_reason :: "int option"
  max_tokens :: int
  prompt_token_ids :: "int list"
  output_token_ids :: "int list"
  num_output_placeholders :: int
  spec_token_ids :: "int list"
  num_cached_tokens :: int
  num_nans_in_logits :: int
  events :: "(event_type \<times> real) list"

type_synonym block_hasher = "(request \<Rightarrow> byte_list list result) option"

abbreviation kv_request :: "sched_request \<Rightarrow> request" where
  "kv_request r \<equiv> request.truncate r"

definition hash_new_full_blocks :: "block_hasher \<Rightarrow> sched_request \<Rightarrow> sched_request result" where
  "hash_new_full_blocks hasher r =
     (case hasher of
        None \<Rightarrow> Inr r
      | Some f \<Rightarrow> bindE (f (kv_request r)) (\<lambda>hs. Inr (r\<lparr>block_hashes := block_hashes r @ hs\<rparr>)))"

text \<open>\<open>Request.__init__\<close>; \<open>now\<close> is \<open>time.time()\<close>.\<close>

definition init_sched_request ::
  "block_hasher \<Rightarrow> real \<Rightarrow> string \<Rightarrow> int list \<Rightarrow> sampling_params option \<Rightarrow> bool \<Rightarrow> int option \<Rightarrow> int \<Rightarrow> real option
   \<Rightarrow> (mm_position \<times> string option) list \<Rightarrow> int option \<Rightarrow> string option \<Rightarrow> int \<Rightarrow> sched_request result" where
  "init_sched_request hasher now rid prompt sampling' pooling' eos client arrival mm_features lora salt prio =
     bindE (if pooling' then Inr (1, WAITING, False)
            else (case sampling' of
                    None \<Rightarrow> Inl ValueError
                  | Some sp \<Rightarrow> (case sp_max_tokens sp of
                                 None \<Rightarrow> Inl AssertionError
                               | Some n \<Rightarrow> Inr (n, if guided_decoding sp then WAITING_FOR_FSM else WAITING, guided_decoding sp))))
       (\<lambda>(n, st, structured).
          hash_new_full_blocks hasher
            \<lparr>request_id = rid, all_token_ids = prompt, block_hashes = [], mm_positions = map fst mm_features, mm_hashes = map snd mm_features,
             lora_request = lora, cache_salt = salt, num_computed_tokens = 0,
             prompt_logprobs = (case sampling' of None \<Rightarrow> False | Some sp \<Rightarrow> sp_prompt_logprobs sp),
             client_index = client, priority = prio, arrival_time = (case arrival of None \<Rightarrow> now | Some t \<Rightarrow> t), status = st,
             sampling = sampling', pooling = pooling', eos_token_id = eos, use_structured_output = structured, grammar_tokens = [],
             stop_reason = None, max_tokens = n, prompt_token_ids = prompt, output_token_ids = [], num_output_placeholders = 0,
             spec_token_ids = [], num_cached_tokens = - 1, num_nans_in_logits = 0, events = []\<rparr>)"

definition append_tokens :: "block_hasher \<Rightarrow> sched_request \<Rightarrow> int list \<Rightarrow> sched_request result" where
  "append_tokens hasher r token_ids =
     hash_new_full_blocks hasher (r\<lparr>output_token_ids := output_token_ids r @ token_ids, all_token_ids := all_token_ids r @ token_ids\<rparr>)"

definition num_req_tokens :: "sched_request \<Rightarrow> int" where
  "num_req_tokens r = int (length (all_token_ids r))"

definition num_tokens_with_spec :: "sched_request \<Rightarrow> int" where
  "num_tokens_with_spec r = int (length (all_token_ids r)) + int (length (spec_token_ids r))"

definition num_output_tokens :: "sched_request \<Rightarrow> int" where
  "num_output_tokens r = int (length (output_token_ids r))"

definition has_encoder_inputs :: "sched_request \<Rightarrow> bool" where
  "has_encoder_inputs r \<longleftrightarrow> length (mm_positions r) > 0"

definition is_output_corrupted :: "sched_request \<Rightarrow> bool" where
  "is_output_corrupted r \<longleftrightarrow> num_nans_in_logits r > 0"

definition get_num_encoder_tokens :: "sched_request \<Rightarrow> nat \<Rightarrow> int result" where
  "get_num_encoder_tokens r input_id =
     (if \<not> input_id < length (mm_positions r) then Inl AssertionError else Inr (mm_length (mm_positions r ! input_id)))"

definition record_event :: "sched_request \<Rightarrow> event_type \<Rightarrow> real \<Rightarrow> sched_request" where
  "record_event r e timestamp = r\<lparr>events := events r @ [(e, timestamp)]\<rparr>"

definition take_req_events :: "sched_request \<Rightarrow> (event_type \<times> real) list option \<times> sched_request" where
  "take_req_events r = (if events r = [] then (None, r) else (Some (events r), r\<lparr>events := []\<rparr>))"

section \<open>The end of a generation\<close>

text \<open>\<open>check_stop\<close>; \<open>pooled\<close> says whether a pooler output is given.\<close>

definition check_stop :: "sched_request \<Rightarrow> int \<Rightarrow> bool \<Rightarrow> (bool \<times> sched_request) result" where
  "check_stop r max_model_len pooled =
     (if num_req_tokens r \<ge> max_model_len \<or> num_output_tokens r \<ge> max_tokens r
      then Inr (True, r\<lparr>status := FINISHED_LENGTH_CAPPED\<rparr>)
      else if pooling r
      then (if pooled then Inr (True, r\<lparr>status := FINISHED_STOPPED\<rparr>) else Inr (False, r))
      else (case sampling r of
              None \<Rightarrow> Inl AssertionError
            | Some sp \<Rightarrow>
                if output_token_ids r = [] then Inl IndexError
                else (let last_token_id = last (output_token_ids r)
                      in if \<not> ignore_eos sp \<and> Some last_token_id = eos_token_id r then Inr (True, r\<lparr>status := FINISHED_STOPPED\<rparr>)
                         else if last_token_id \<in> set (stop_token_ids sp)
                         then Inr (True, r\<lparr>status := FINISHED_STOPPED, stop_reason := Some last_token_id\<rparr>)
                         else Inr (False, r))))"

text \<open>The loop of \<open>Scheduler._update_request_with_output\<close>: \<open>kept\<close> are the tokens that remain of the list of new tokens.\<close>

fun output_loop :: "block_hasher \<Rightarrow> int \<Rightarrow> sched_request \<Rightarrow> int list \<Rightarrow> int list \<Rightarrow> (int list \<times> bool \<times> sched_request) result" where
  "output_loop hasher max_model_len r [] kept = Inr (kept, False, r)"
| "output_loop hasher max_model_len r (t # ts) kept =
     bindE (append_tokens hasher r [t]) (\<lambda>r1.
     bindE (check_stop r1 max_model_len False) (\<lambda>(stopped, r2).
       if stopped then Inr (kept @ [t], True, r2) else output_loop hasher max_model_len r2 ts (kept @ [t])))"

definition update_request_with_output :: "block_hasher \<Rightarrow> int \<Rightarrow> sched_request \<Rightarrow> int list \<Rightarrow> (int list \<times> bool \<times> sched_request) result" where
  "update_request_with_output hasher max_model_len r new_token_ids = output_loop hasher max_model_len r new_token_ids []"

text \<open>\<open>remove_all\<close>: one element is removed where it occurs first, several are filtered out.\<close>

definition remove_all :: "'a list \<Rightarrow> 'a list \<Rightarrow> 'a list" where
  "remove_all lst items =
     (case remdups items of
        [] \<Rightarrow> lst
      | [x] \<Rightarrow> remove1 x lst
      | _ \<Rightarrow> filter (\<lambda>x. x \<notin> set items) lst)"

section \<open>What the update of a request does\<close>

lemma remove_all_distinct: "distinct lst \<Longrightarrow> remove_all lst items = filter (\<lambda>x. x \<notin> set items) lst"
proof -
  assume d: "distinct lst"
  have s: "set items = set (remdups items)" by simp
  show ?thesis
  proof (cases "remdups items")
    case Nil
    then show ?thesis by (simp add: remove_all_def)
  next
    case (Cons x xs)
    then show ?thesis using d unfolding s
      by (cases xs) (simp_all add: remove_all_def distinct_remove1_removeAll removeAll_filter_not_eq eq_commute[of x] s)
  qed
qed

text \<open>The request has reached its length limit, or an end, once \<open>ks\<close> are its new output tokens.\<close>

definition capped :: "int \<Rightarrow> sched_request \<Rightarrow> int list \<Rightarrow> bool" where
  "capped max_model_len r ks \<longleftrightarrow> num_req_tokens r + int (length ks) \<ge> max_model_len \<or> num_output_tokens r + int (length ks) \<ge> max_tokens r"

definition ends_at :: "int \<Rightarrow> sched_request \<Rightarrow> int list \<Rightarrow> bool" where
  "ends_at max_model_len r ks \<longleftrightarrow> capped max_model_len r ks
     \<or> (\<not> pooling r \<and> (\<exists>sp. sampling r = Some sp
          \<and> (\<not> ignore_eos sp \<and> Some (last (output_token_ids r @ ks)) = eos_token_id r \<or> last (output_token_ids r @ ks) \<in> set (stop_token_ids sp))))"

definition end_status :: "int \<Rightarrow> sched_request \<Rightarrow> int list \<Rightarrow> request_status" where
  "end_status max_model_len r ks = (if capped max_model_len r ks then FINISHED_LENGTH_CAPPED else FINISHED_STOPPED)"

text \<open>Two requests that differ at most in their tokens, hashes, and how they ended.\<close>

definition same_params :: "sched_request \<Rightarrow> sched_request \<Rightarrow> bool" where
  "same_params r r' \<longleftrightarrow> r' = r\<lparr>all_token_ids := all_token_ids r', output_token_ids := output_token_ids r', block_hashes := block_hashes r',
     status := status r', stop_reason := stop_reason r'\<rparr>"

lemma same_params_refl [simp]: "same_params r r"
  unfolding same_params_def by (cases r) simp

lemma same_params_upd [simp]:
  "same_params r (r\<lparr>status := st\<rparr>)" "same_params r (r\<lparr>status := st, stop_reason := sr\<rparr>)"
  "same_params r (r\<lparr>output_token_ids := os, all_token_ids := ts\<rparr>)" "same_params r (r\<lparr>output_token_ids := os, all_token_ids := ts, block_hashes := hs\<rparr>)"
  unfolding same_params_def by (cases r; simp)+

lemma same_params_trans: "same_params a b \<Longrightarrow> same_params b c \<Longrightarrow> same_params a c"
  unfolding same_params_def by (cases a; cases b; cases c) simp

lemma same_paramsD:
  assumes "same_params r r'"
  shows "request_id r' = request_id r" "mm_positions r' = mm_positions r" "mm_hashes r' = mm_hashes r" "lora_request r' = lora_request r"
    "cache_salt r' = cache_salt r" "num_computed_tokens r' = num_computed_tokens r" "prompt_logprobs r' = prompt_logprobs r"
    "client_index r' = client_index r" "priority r' = priority r" "arrival_time r' = arrival_time r" "sampling r' = sampling r" "pooling r' = pooling r"
    "max_tokens r' = max_tokens r" "eos_token_id r' = eos_token_id r" "spec_token_ids r' = spec_token_ids r"
    "num_output_placeholders r' = num_output_placeholders r" "use_structured_output r' = use_structured_output r"
  using assms unfolding same_params_def by (cases r; cases r'; simp)+

definition hasher_returns :: "block_hasher \<Rightarrow> bool" where
  "hasher_returns hasher \<longleftrightarrow> (\<forall>f r. hasher = Some f \<longrightarrow> (\<exists>hs. f r = Inr hs))"

lemma append_tokens_ok:
  assumes "hasher_returns hasher"
  obtains r' where "append_tokens hasher r ks = Inr r'" "all_token_ids r' = all_token_ids r @ ks" "output_token_ids r' = output_token_ids r @ ks"
    "status r' = status r" "stop_reason r' = stop_reason r" "same_params r r'"
proof (cases hasher)
  case None
  then show ?thesis
    by (intro that[of "r\<lparr>output_token_ids := output_token_ids r @ ks, all_token_ids := all_token_ids r @ ks\<rparr>"])
      (simp_all add: append_tokens_def hash_new_full_blocks_def)
next
  case (Some f)
  let ?r = "r\<lparr>output_token_ids := output_token_ids r @ ks, all_token_ids := all_token_ids r @ ks\<rparr>"
  obtain hs where "f (kv_request ?r) = Inr hs" using assms Some by (auto simp: hasher_returns_def)
  then show ?thesis using Some
    by (intro that[of "?r\<lparr>block_hashes := block_hashes r @ hs\<rparr>"]) (simp_all add: append_tokens_def hash_new_full_blocks_def)
qed

lemma check_stop_ok:
  assumes "pooling r \<or> sampling r \<noteq> None" "output_token_ids r \<noteq> []"
  shows "\<exists>r'. check_stop r max_model_len False = Inr (ends_at max_model_len r [], r') \<and> same_params r r'
    \<and> all_token_ids r' = all_token_ids r \<and> output_token_ids r' = output_token_ids r \<and> block_hashes r' = block_hashes r
    \<and> (if ends_at max_model_len r [] then status r' = end_status max_model_len r [] else r' = r)"
proof (cases "num_req_tokens r \<ge> max_model_len \<or> num_output_tokens r \<ge> max_tokens r \<or> pooling r")
  case True
  then show ?thesis by (auto simp: check_stop_def ends_at_def end_status_def capped_def)
next
  case False
  then obtain sp where sp: "sampling r = Some sp" using assms(1) by auto
  then have e: "ends_at max_model_len r [] \<longleftrightarrow> \<not> ignore_eos sp \<and> Some (last (output_token_ids r)) = eos_token_id r
      \<or> last (output_token_ids r) \<in> set (stop_token_ids sp)"
    using False by (auto simp: ends_at_def capped_def)
  show ?thesis unfolding e using False sp assms(2) by (simp add: check_stop_def Let_def end_status_def capped_def)
qed

lemma ends_at_cong:
  assumes "same_params r r'" "all_token_ids r' = all_token_ids r @ ks" "output_token_ids r' = output_token_ids r @ ks"
  shows "ends_at m r' ls = ends_at m r (ks @ ls)" "end_status m r' ls = end_status m r (ks @ ls)"
  using same_paramsD[OF assms(1)] assms(2,3) by (simp_all add: ends_at_def end_status_def capped_def num_req_tokens_def num_output_tokens_def add.assoc)

lemma output_loop_ok:
  assumes h: "hasher_returns hasher" and r: "pooling r \<or> sampling r \<noteq> None"
  shows "\<exists>n stopped r'. output_loop hasher max_model_len r toks kept = Inr (kept @ take n toks, stopped, r') \<and> n \<le> length toks
    \<and> (\<forall>m. 0 < m \<longrightarrow> m < n \<longrightarrow> \<not> ends_at max_model_len r (take m toks)) \<and> (stopped \<longleftrightarrow> 0 < n \<and> ends_at max_model_len r (take n toks))
    \<and> (\<not> stopped \<longrightarrow> n = length toks) \<and> all_token_ids r' = all_token_ids r @ take n toks \<and> output_token_ids r' = output_token_ids r @ take n toks
    \<and> same_params r r' \<and> (if stopped then status r' = end_status max_model_len r (take n toks) else status r' = status r \<and> stop_reason r' = stop_reason r)"
  using r
proof (induction toks arbitrary: r kept)
  case Nil
  then show ?case by (intro exI[of _ 0] exI[of _ False] exI[of _ r]) simp
next
  case (Cons t ts)
  obtain r1 where a: "append_tokens hasher r [t] = Inr r1" "all_token_ids r1 = all_token_ids r @ [t]" "output_token_ids r1 = output_token_ids r @ [t]"
    "status r1 = status r" "stop_reason r1 = stop_reason r" "same_params r r1" by (rule append_tokens_ok[OF h])
  have r1: "pooling r1 \<or> sampling r1 \<noteq> None" "output_token_ids r1 \<noteq> []" using Cons.prems same_paramsD[OF a(6)] a(3) by simp_all
  have e: "ends_at max_model_len r1 ls = ends_at max_model_len r (t # ls)" "end_status max_model_len r1 ls = end_status max_model_len r (t # ls)" for ls
    using ends_at_cong[OF a(6,2,3), of max_model_len ls] by simp_all
  from check_stop_ok[OF r1, of max_model_len] obtain r2 where c: "check_stop r1 max_model_len False = Inr (ends_at max_model_len r [t], r2)"
    "same_params r1 r2" "all_token_ids r2 = all_token_ids r1" "output_token_ids r2 = output_token_ids r1"
    "if ends_at max_model_len r [t] then status r2 = end_status max_model_len r [t] else r2 = r1" unfolding e by blast
  show ?case
  proof (cases "ends_at max_model_len r [t]")
    case True
    then show ?thesis using a c same_params_trans[OF a(6) c(2)]
      by (intro exI[of _ 1] exI[of _ True] exI[of _ r2]) simp
  next
    case False
    then have r2: "r2 = r1" using c(5) by simp
    obtain n stopped r' where i: "output_loop hasher max_model_len r1 ts (kept @ [t]) = Inr ((kept @ [t]) @ take n ts, stopped, r')" "n \<le> length ts"
      "\<forall>m. 0 < m \<longrightarrow> m < n \<longrightarrow> \<not> ends_at max_model_len r1 (take m ts)" "stopped \<longleftrightarrow> 0 < n \<and> ends_at max_model_len r1 (take n ts)"
      "\<not> stopped \<longrightarrow> n = length ts" "all_token_ids r' = all_token_ids r1 @ take n ts" "output_token_ids r' = output_token_ids r1 @ take n ts"
      "same_params r1 r'" "if stopped then status r' = end_status max_model_len r1 (take n ts) else status r' = status r1 \<and> stop_reason r' = stop_reason r1"
      using Cons.IH[OF r1(1), of "kept @ [t]"] by (elim exE conjE) (rule that)
    have "\<not> ends_at max_model_len r (take m (t # ts))" if "0 < m" "m < Suc n" for m
      using that i(3) False unfolding e by (cases m; cases "m - 1 = 0") auto
    moreover have "stopped \<longleftrightarrow> ends_at max_model_len r (take (Suc n) (t # ts))" using i(4) False unfolding e by (cases "n = 0") auto
    moreover have "output_loop hasher max_model_len r (t # ts) kept = Inr (kept @ take (Suc n) (t # ts), stopped, r')"
      using a(1) c(1) False r2 i(1) by simp
    moreover have "same_params r r'" by (rule same_params_trans[OF a(6) i(8)])
    moreover have "all_token_ids r' = all_token_ids r @ take (Suc n) (t # ts)" "output_token_ids r' = output_token_ids r @ take (Suc n) (t # ts)"
      "Suc n \<le> length (t # ts)" "\<not> stopped \<longrightarrow> Suc n = length (t # ts)" using a(2,3) i(2,5-7) by simp_all
    moreover have "if stopped then status r' = end_status max_model_len r (take (Suc n) (t # ts)) else status r' = status r \<and> stop_reason r' = stop_reason r"
      using i(9) a(4,5) unfolding e by simp
    ultimately show ?thesis by (intro exI[of _ "Suc n"] exI[of _ stopped] exI[of _ r']) blast
  qed
qed

lemma end_status_finished [simp]: "status_is_finished (end_status m r ks)"
  by (simp add: end_status_def)

text \<open>C22. Sampled tokens are appended one by one until the request ends. The update keeps exactly the tokens up to the first one with which the
  request reaches its length limit, its end-of-sequence token or a stop token, drops the tokens after it, finishes the request with the
  reason that applies (the limit before the tokens), and otherwise keeps all tokens and leaves the status as it is; it never raises for a request with
  sampling or pooling parameters.\<close>

theorem generation_stops_at_first_end:
  assumes "hasher_returns hasher" "pooling r \<or> sampling r \<noteq> None"
  shows "\<exists>n stopped r'. update_request_with_output hasher max_model_len r toks = Inr (take n toks, stopped, r') \<and> n \<le> length toks
    \<and> (\<forall>m. 0 < m \<and> m < n \<longrightarrow> \<not> ends_at max_model_len r (take m toks)) \<and> (stopped \<longleftrightarrow> 0 < n \<and> ends_at max_model_len r (take n toks))
    \<and> (\<not> stopped \<longrightarrow> n = length toks) \<and> all_token_ids r' = all_token_ids r @ take n toks \<and> output_token_ids r' = output_token_ids r @ take n toks
    \<and> status r' = (if stopped then end_status max_model_len r (take n toks) else status r) \<and> num_computed_tokens r' = num_computed_tokens r"
proof -
  obtain n stopped r' where i: "output_loop hasher max_model_len r toks [] = Inr ([] @ take n toks, stopped, r')" "n \<le> length toks"
    "\<forall>m. 0 < m \<longrightarrow> m < n \<longrightarrow> \<not> ends_at max_model_len r (take m toks)" "stopped \<longleftrightarrow> 0 < n \<and> ends_at max_model_len r (take n toks)"
    "\<not> stopped \<longrightarrow> n = length toks" "all_token_ids r' = all_token_ids r @ take n toks" "output_token_ids r' = output_token_ids r @ take n toks"
    "same_params r r'" "if stopped then status r' = end_status max_model_len r (take n toks) else status r' = status r \<and> stop_reason r' = stop_reason r"
    using output_loop_ok[OF assms, of max_model_len toks "[]"] by (elim exE conjE) (rule that)
  have "update_request_with_output hasher max_model_len r toks = Inr (take n toks, stopped, r')" using i(1) by (simp add: update_request_with_output_def)
  moreover have "status r' = (if stopped then end_status max_model_len r (take n toks) else status r)" using i(9) by (cases stopped) simp_all
  ultimately show ?thesis using i(2-7) same_paramsD(6)[OF i(8)]
    by (intro exI[of _ n] exI[of _ stopped] exI[of _ r']) blast
qed

definition demo_sampling :: sampling_params where
  "demo_sampling = \<lparr>sp_max_tokens = Some 5, ignore_eos = False, stop_token_ids = [9], guided_decoding = False, sp_logprobs = False, sp_prompt_logprobs = False\<rparr>"

definition demo_sched_request :: "string \<Rightarrow> int list \<Rightarrow> int \<Rightarrow> real \<Rightarrow> sched_request" where
  "demo_sched_request rid prompt prio arrival =
     (case init_sched_request None 0 rid prompt (Some demo_sampling) False (Some 2) 0 (Some arrival) [] None None prio of Inr r \<Rightarrow> r | Inl e \<Rightarrow> undefined)"

lemma demo_sched_request_eq:
  "demo_sched_request rid prompt prio arrival =
     \<lparr>request_id = rid, all_token_ids = prompt, block_hashes = [], mm_positions = [], mm_hashes = [], lora_request = None, cache_salt = None,
      num_computed_tokens = 0, prompt_logprobs = False, client_index = 0, priority = prio, arrival_time = arrival, status = WAITING,
      sampling = Some demo_sampling, pooling = False, eos_token_id = Some 2, use_structured_output = False, grammar_tokens = [], stop_reason = None,
      max_tokens = 5, prompt_token_ids = prompt, output_token_ids = [], num_output_placeholders = 0, spec_token_ids = [], num_cached_tokens = - 1,
      num_nans_in_logits = 0, events = []\<rparr>"
  by (simp add: demo_sched_request_def init_sched_request_def demo_sampling_def hash_new_full_blocks_def)

theorem generation_stops_at_first_end_witness:
  "\<exists>r'. update_request_with_output None 100 (demo_sched_request ''a'' [1, 5] 0 0) [4, 9, 7] = Inr ([4, 9], True, r')
    \<and> status r' = FINISHED_STOPPED \<and> all_token_ids r' = [1, 5, 4, 9]"
proof -
  let ?r = "demo_sched_request ''a'' [1, 5] 0 0"
  have r: "hasher_returns None" "pooling ?r \<or> sampling ?r \<noteq> None" by (simp_all add: hasher_returns_def demo_sched_request_eq)
  have e: "\<not> ends_at 100 ?r [4]" "ends_at 100 ?r [4, 9]" "end_status 100 ?r [4, 9] = FINISHED_STOPPED"
    by (simp_all add: ends_at_def end_status_def capped_def demo_sched_request_eq demo_sampling_def num_req_tokens_def num_output_tokens_def)
  obtain n stopped r' where w: "update_request_with_output None 100 ?r [4, 9, 7] = Inr (take n [4, 9, 7], stopped, r')" "n \<le> length [4, 9, 7::int]"
    "\<forall>m. 0 < m \<and> m < n \<longrightarrow> \<not> ends_at 100 ?r (take m [4, 9, 7])" "stopped \<longleftrightarrow> 0 < n \<and> ends_at 100 ?r (take n [4, 9, 7])"
    "\<not> stopped \<longrightarrow> n = length [4, 9, 7::int]" "all_token_ids r' = all_token_ids ?r @ take n [4, 9, 7]"
    "status r' = (if stopped then end_status 100 ?r (take n [4, 9, 7]) else status ?r)"
    using generation_stops_at_first_end[OF r, of 100 "[4, 9, 7]"] by (elim exE conjE) (rule that)
  have "\<not> 2 < n" using w(3)[rule_format, of 2] e(2) by auto
  moreover have "n \<noteq> 1" using w(4,5) e(1) by auto
  moreover have "n \<noteq> 0" using w(4,5) by auto
  ultimately have n: "n = 2" by linarith
  then have "stopped" using w(4) e(2) by simp
  then show ?thesis using w(1,6,7) e(3) n by (intro exI[of _ r']) (simp add: demo_sched_request_eq)
qed

end
