(* ===== verification/Heap_Queue.thy ===== *)
theory Heap_Queue
  imports RQ_Prelude
begin

text \<open>
  Python's \<open>heapq\<close> on lists, as \<open>vllm/v1/core/sched/request_queue.py\<close> uses it: a binary heap whose only access to its elements
  is \<open><\<close>, which may raise. The locale \<open>py_order\<close> is what the heap relies on of the comparison; in it the operations keep the heap
  order and the elements, and return whenever the elements they hold can be compared.
\<close>

declare bindE_cong [fundef_cong]

section \<open>The operations\<close>

type_synonym 'a py_less = "'a \<Rightarrow> 'a \<Rightarrow> bool result"

function siftdown_loop :: "'a py_less \<Rightarrow> 'a \<Rightarrow> 'a list \<Rightarrow> nat \<Rightarrow> nat \<Rightarrow> ('a list \<times> nat) result" where
  "siftdown_loop lt newitem h startpos pos =
     (if pos > startpos
      then (let parentpos = (pos - 1) div 2; parent = h ! parentpos
            in bindE (lt newitem parent) (\<lambda>less.
                 if less then siftdown_loop lt newitem (h[pos := parent]) startpos parentpos else Inr (h, pos)))
      else Inr (h, pos))"
  by pat_completeness auto
termination by (relation "measure (\<lambda>(lt, x, h, s, pos). pos)") auto

declare siftdown_loop.simps [simp del]

definition siftdown :: "'a py_less \<Rightarrow> 'a list \<Rightarrow> nat \<Rightarrow> nat \<Rightarrow> 'a list result" where
  "siftdown lt h startpos pos = (let newitem = h ! pos in bindE (siftdown_loop lt newitem h startpos pos) (\<lambda>(h', p). Inr (h'[p := newitem])))"

definition smaller_child :: "'a py_less \<Rightarrow> 'a list \<Rightarrow> nat \<Rightarrow> nat result" where
  "smaller_child lt h childpos =
     (let rightpos = childpos + 1
      in if rightpos < length h then bindE (lt (h ! childpos) (h ! rightpos)) (\<lambda>less. Inr (if \<not> less then rightpos else childpos)) else Inr childpos)"

lemma smaller_child_cases:
  assumes "smaller_child lt h c = Inr d" "c < length h"
  shows "d < length h \<and> (d = c \<or> d = c + 1)"
  using assms by (auto simp: smaller_child_def Let_def result_simps split: if_splits)

function siftup_loop :: "'a py_less \<Rightarrow> 'a list \<Rightarrow> nat \<Rightarrow> ('a list \<times> nat) result" where
  "siftup_loop lt h pos =
     (let childpos = 2 * pos + 1
      in if childpos < length h then bindE (smaller_child lt h childpos) (\<lambda>c. siftup_loop lt (h[pos := h ! c]) c) else Inr (h, pos))"
  by pat_completeness auto
termination
  by (relation "measure (\<lambda>(lt, h, pos). length h - pos)") (auto dest!: smaller_child_cases)

declare siftup_loop.simps [simp del]

definition siftup :: "'a py_less \<Rightarrow> 'a list \<Rightarrow> nat \<Rightarrow> 'a list result" where
  "siftup lt h pos = (let newitem = h ! pos in bindE (siftup_loop lt h pos) (\<lambda>(h', p). siftdown lt (h'[p := newitem]) pos p))"

definition heappush :: "'a py_less \<Rightarrow> 'a list \<Rightarrow> 'a \<Rightarrow> 'a list result" where
  "heappush lt h item = siftdown lt (h @ [item]) 0 (length h)"

definition heappop :: "'a py_less \<Rightarrow> 'a list \<Rightarrow> ('a \<times> 'a list) result" where
  "heappop lt h =
     (if h = [] then Inl IndexError
      else (let lastelt = last h; h' = butlast h
            in if h' = [] then Inr (lastelt, []) else bindE (siftup lt (h'[0 := lastelt]) 0) (\<lambda>h''. Inr (h' ! 0, h''))))"

fun heapify_loop :: "'a py_less \<Rightarrow> nat \<Rightarrow> 'a list \<Rightarrow> 'a list result" where
  "heapify_loop lt 0 h = Inr h"
| "heapify_loop lt (Suc i) h = bindE (siftup lt h i) (heapify_loop lt i)"

definition heapify :: "'a py_less \<Rightarrow> 'a list \<Rightarrow> 'a list result" where
  "heapify lt h = heapify_loop lt (length h div 2) h"

section \<open>Heap order\<close>

text \<open>The order holds between position \<open>i\<close> and its parent; in all of the list below position \<open>s\<close>.\<close>

definition parent_of :: "nat \<Rightarrow> nat" where
  "parent_of i = (i - 1) div 2"

lemma parent_child [simp]: "parent_of (2 * p + 1) = p" "parent_of (2 * p + 2) = p" "parent_of (Suc (2 * p)) = p" "parent_of (Suc (Suc (2 * p))) = p"
  by (simp_all add: parent_of_def)

lemma parent_cases: "0 < i \<Longrightarrow> i = 2 * parent_of i + 1 \<or> i = 2 * parent_of i + 2"
  unfolding parent_of_def by presburger

lemma parent_less: "0 < i \<Longrightarrow> parent_of i < i"
  unfolding parent_of_def by linarith

definition in_order :: "('a \<Rightarrow> 'k::linorder) \<Rightarrow> 'a list \<Rightarrow> nat \<Rightarrow> bool" where
  "in_order key h i \<longleftrightarrow> key (h ! parent_of i) \<le> key (h ! i)"

definition heap_from :: "('a \<Rightarrow> 'k::linorder) \<Rightarrow> nat \<Rightarrow> 'a list \<Rightarrow> bool" where
  "heap_from key s h \<longleftrightarrow> (\<forall>i. 0 < i \<longrightarrow> i < length h \<longrightarrow> s \<le> parent_of i \<longrightarrow> in_order key h i)"

inductive below :: "nat \<Rightarrow> nat \<Rightarrow> bool" for s :: nat where
  same: "below s s"
| left: "below s p \<Longrightarrow> below s (2 * p + 1)"
| right: "below s p \<Longrightarrow> below s (2 * p + 2)"

lemma below_le: "below s p \<Longrightarrow> s \<le> p"
  by (induction rule: below.induct) auto

lemma below_parent: "below s p \<Longrightarrow> s < p \<Longrightarrow> below s (parent_of p)"
  by (erule below.cases) auto

lemma below_0: "below 0 p"
proof (induction p rule: less_induct)
  case (less p)
  show ?case
  proof (cases "p = 0")
    case False
    then have "below 0 (parent_of p)" using less parent_less[of p] by simp
    then show ?thesis using parent_cases[of p] False below.left[of 0 "parent_of p"] below.right[of 0 "parent_of p"] by auto
  qed (simp add: below.same)
qed

text \<open>An element at \<open>pos\<close> that may still have to move up: all else is in order, and its children are not before its parent.\<close>

definition heap_but :: "('a \<Rightarrow> 'k::linorder) \<Rightarrow> nat \<Rightarrow> 'a list \<Rightarrow> nat \<Rightarrow> bool" where
  "heap_but key s h pos \<longleftrightarrow> (\<forall>i. 0 < i \<longrightarrow> i < length h \<longrightarrow> s \<le> parent_of i \<longrightarrow> i \<noteq> pos \<longrightarrow> in_order key h i)
     \<and> (\<forall>i. s < pos \<longrightarrow> 0 < i \<longrightarrow> i < length h \<longrightarrow> parent_of i = pos \<longrightarrow> key (h ! parent_of pos) \<le> key (h ! i))"

lemma heap_but_swap:
  assumes h: "heap_but key s h pos" and pos: "below s pos" "s < pos" "pos < length h" and lt: "key (h ! pos) < key (h ! q)" and q: "q = parent_of pos"
  shows "heap_but key s (h[pos := h ! q, q := h ! pos]) q"
proof -
  let ?h = "h[pos := h ! q, q := h ! pos]"
  have bq: "below s q" using below_parent[OF pos(1,2)] q by simp
  have q': "q < pos" "q < length h" "s \<le> q" using pos parent_less[of pos] below_le[OF bq] q by simp_all
  have at: "?h ! j = (if j = q then h ! pos else if j = pos then h ! q else h ! j)" if "j < length h" for j
    using that q' pos(3) by (simp add: nth_list_update)
  have old: "key (h ! parent_of i) \<le> key (h ! i)" if "0 < i" "i < length h" "s \<le> parent_of i" "i \<noteq> pos" for i
    using h that unfolding heap_but_def in_order_def by blast
  have child: "key (h ! q) \<le> key (h ! i)" if "0 < i" "i < length h" "parent_of i = pos" for i
    using h that pos(2) q unfolding heap_but_def by blast
  have "in_order key ?h i" if i: "0 < i" "i < length h" "s \<le> parent_of i" "i \<noteq> q" for i
  proof (cases "i = pos")
    case True
    then show ?thesis using at[OF q'(2)] at[OF pos(3)] q q'(1) lt by (simp add: in_order_def)
  next
    case False
    have p: "parent_of i < length h" using i(2) parent_less[OF i(1)] by linarith
    show ?thesis unfolding in_order_def at[OF p] at[OF i(2)]
      using old[OF i(1-3) False] child[OF i(1,2)] False i(4) lt by (auto intro: order_trans less_imp_le)
  qed
  moreover have "key (?h ! parent_of q) \<le> key (?h ! i)" if i: "s < q" "0 < i" "i < length h" "parent_of i = q" for i
  proof -
    have pq: "s \<le> parent_of q" "parent_of q < q" using below_le[OF below_parent[OF bq i(1)]] parent_less[of q] i(1) by simp_all
    have g: "key (h ! parent_of q) \<le> key (h ! q)" by (rule old) (use i(1) q' pq in auto)
    have "i \<noteq> q" using parent_less[OF i(2)] i(4) by simp
    then have "key (h ! q) \<le> key (?h ! i)" using at[OF i(3)] old[of i] i q'(3) by auto
    moreover have "?h ! parent_of q = h ! parent_of q" using at[of "parent_of q"] pq q' by (simp del: nth_list_update)
    ultimately show ?thesis using g by simp
  qed
  ultimately show ?thesis by (simp add: heap_but_def)
qed

lemma heap_but_stop:
  assumes "heap_but key s h pos" "s < pos \<longrightarrow> in_order key h pos"
  shows "heap_from key s h"
  unfolding heap_from_def
proof (intro allI impI)
  fix i assume i: "0 < i" "i < length h" "s \<le> parent_of i"
  show "in_order key h i"
  proof (cases "i = pos")
    case True
    then show ?thesis using i assms(2) parent_less[of i] by auto
  next
    case False
    then show ?thesis using assms(1) i unfolding heap_but_def by blast
  qed
qed

text \<open>A hole at \<open>pos\<close>: the order may fail below it only while it is still at the top.\<close>

definition heap_hole :: "('a \<Rightarrow> 'k::linorder) \<Rightarrow> nat \<Rightarrow> 'a list \<Rightarrow> nat \<Rightarrow> bool" where
  "heap_hole key s h pos \<longleftrightarrow> (\<forall>i. 0 < i \<longrightarrow> i < length h \<longrightarrow> s \<le> parent_of i \<longrightarrow> parent_of i \<noteq> pos \<or> s < pos \<longrightarrow> in_order key h i)"

lemma heap_hole_fill:
  assumes h: "heap_hole key s h pos" and pos: "s \<le> pos" "pos < length h" and c: "c < length h" "c = 2 * pos + 1 \<or> c = 2 * pos + 2"
    and min: "\<And>d. d < length h \<Longrightarrow> d = 2 * pos + 1 \<or> d = 2 * pos + 2 \<Longrightarrow> key (h ! c) \<le> key (h ! d)"
  shows "heap_from key s (h[pos := h ! c])"
  unfolding heap_from_def
proof (intro allI impI)
  fix i assume i: "0 < i" "i < length (h[pos := h ! c])" "s \<le> parent_of i"
  have cp: "c \<noteq> pos" "parent_of c = pos" "0 < c" using c(2) by auto
  have old: "key (h ! parent_of j) \<le> key (h ! j)" if "0 < j" "j < length h" "s \<le> parent_of j" "parent_of j \<noteq> pos \<or> s < pos" for j
    using h that by (simp add: heap_hole_def in_order_def)
  consider "i = pos" | "parent_of i = pos" | "i \<noteq> pos" "parent_of i \<noteq> pos" by blast
  then show "in_order key (h[pos := h ! c]) i"
  proof cases
    case 1
    then have s: "s < pos" "parent_of pos \<noteq> pos" using i parent_less[of pos] by auto
    have "key (h ! parent_of pos) \<le> key (h ! pos)" using old[of pos] i 1 s by simp
    also have "\<dots> \<le> key (h ! c)" using old[of c] c cp pos s by simp
    finally show ?thesis using 1 s pos by (simp add: in_order_def)
  next
    case 2
    then have "i \<noteq> pos" using i parent_less[of i] by auto
    moreover have "key (h ! c) \<le> key (h ! i)" using min[of i] i 2 parent_cases[of i] by auto
    ultimately show ?thesis using 2 pos by (simp add: in_order_def)
  next
    case 3
    then show ?thesis using old[of i] i by (simp add: in_order_def)
  qed
qed

lemma heap_hole_leaf: "heap_hole key s h pos \<Longrightarrow> length h \<le> 2 * pos + 1 \<Longrightarrow> heap_from key s h"
  unfolding heap_hole_def heap_from_def
proof (intro allI impI)
  fix i
  assume h: "\<forall>i. 0 < i \<longrightarrow> i < length h \<longrightarrow> s \<le> parent_of i \<longrightarrow> parent_of i \<noteq> pos \<or> s < pos \<longrightarrow> in_order key h i"
    and l: "length h \<le> 2 * pos + 1" and i: "0 < i" "i < length h" "s \<le> parent_of i"
  have "parent_of i \<noteq> pos" using parent_cases[OF i(1)] i(2) l by auto
  then show "in_order key h i" using h i by blast
qed

lemma heap_first:
  assumes "heap_from key 0 h" "i < length h"
  shows "key (h ! 0) \<le> key (h ! i)"
  using assms(2)
proof (induction i rule: less_induct)
  case (less i)
  show ?case
  proof (cases "i = 0")
    case False
    then have "key (h ! 0) \<le> key (h ! parent_of i)" using less.prems parent_less[of i] by (intro less.IH) auto
    also have "\<dots> \<le> key (h ! i)" using assms(1) less.prems False by (simp add: heap_from_def in_order_def)
    finally show ?thesis .
  qed simp
qed

lemma mset_move:
  assumes "i < length h" "j < length h" "i \<noteq> j"
  shows "mset (h[i := h ! j, j := x]) = mset (h[i := x])"
proof -
  have "h[i := h ! j, j := x] = (h[i := x])[j := h[i := x] ! i, i := h[i := x] ! j]"
    using assms by (intro nth_equalityI) (auto simp: nth_list_update)
  then show ?thesis using mset_swap[of i "h[i := x]" j] assms by simp
qed

lemma siftdown_loop_step:
  "s < pos \<Longrightarrow> siftdown_loop lt x h s pos = bindE (lt x (h ! parent_of pos)) (\<lambda>less.
     if less then siftdown_loop lt x (h[pos := h ! parent_of pos]) s (parent_of pos) else Inr (h, pos))"
  "\<not> s < pos \<Longrightarrow> siftdown_loop lt x h s pos = Inr (h, pos)"
  by (simp_all add: siftdown_loop.simps[of lt x h s pos] Let_def parent_of_def cong: if_cong)

lemma siftup_loop_step:
  "2 * pos + 1 < length h \<Longrightarrow> siftup_loop lt h pos = bindE (smaller_child lt h (2 * pos + 1)) (\<lambda>c. siftup_loop lt (h[pos := h ! c]) c)"
  "\<not> 2 * pos + 1 < length h \<Longrightarrow> siftup_loop lt h pos = Inr (h, pos)"
  by (simp_all add: siftup_loop.simps[of lt h pos])

text \<open>Lengths.\<close>

lemma siftdown_loop_length: "siftdown_loop lt x h s pos = Inr (h', p) \<Longrightarrow> length h' = length h"
proof (induction pos arbitrary: h rule: less_induct)
  case (less pos)
  show ?case
  proof (cases "s < pos")
    case True
    then show ?thesis using less.prems less.IH[of "parent_of pos"] parent_less[of pos]
      by (auto simp: siftdown_loop_step(1) result_simps split: if_splits)
  qed (use less.prems in \<open>simp add: siftdown_loop_step\<close>)
qed

lemma siftup_loop_length: "siftup_loop lt h pos = Inr (h', p) \<Longrightarrow> length h' = length h"
proof (induction "length h - pos" arbitrary: h pos rule: less_induct)
  case less
  show ?case
  proof (cases "2 * pos + 1 < length h")
    case True
    then obtain c where c: "smaller_child lt h (2 * pos + 1) = Inr c" "siftup_loop lt (h[pos := h ! c]) c = Inr (h', p)"
      using less.prems by (auto simp: siftup_loop_step(1) result_simps)
    have "length (h[pos := h ! c]) - c < length h - pos" using smaller_child_cases[OF c(1) True] True by auto
    from less.hyps[OF this c(2)] show ?thesis by simp
  qed (use less.prems in \<open>simp add: siftup_loop_step\<close>)
qed

lemma heappop_length: "heappop lt h = Inr (x, h') \<Longrightarrow> length h = Suc (length h')"
proof -
  assume p: "heappop lt h = Inr (x, h')"
  then have ne: "h \<noteq> []" by (auto simp: heappop_def)
  show ?thesis
  proof (cases "butlast h = []")
    case True
    then have "length h = 1" using ne by (cases h) (auto split: if_splits)
    then show ?thesis using p ne True by (simp add: heappop_def)
  next
    case False
    have "length h' = length (butlast h)"
      using p ne False by (auto simp: heappop_def siftup_def siftdown_def Let_def result_simps dest!: siftup_loop_length siftdown_loop_length)
    then show ?thesis using ne by simp
  qed
qed

section \<open>Correctness for an order\<close>

text \<open>Where the comparison returns, it compares keys.\<close>

locale py_order =
  fixes lt :: "'a py_less" and key :: "'a \<Rightarrow> 'k::linorder"
  assumes lt_key: "lt x y = Inr b \<Longrightarrow> b \<longleftrightarrow> key x < key y"
begin

lemma siftdown_loop_ok:
  assumes "siftdown_loop lt x h s pos = Inr (h', p)" "pos < length h" "below s pos" "heap_but key s (h[pos := x]) pos"
  shows "heap_from key s (h'[p := x]) \<and> mset (h'[p := x]) = mset (h[pos := x])"
  using assms
proof (induction pos arbitrary: h rule: less_induct)
  case (less pos)
  let ?q = "parent_of pos" and ?g = "h[pos := x]"
  show ?case
  proof (cases "s < pos")
    case False
    then have "h' = h" "p = pos" using less.prems(1) by (simp_all add: siftdown_loop_step)
    then show ?thesis using heap_but_stop[OF less.prems(4)] False by simp
  next
    case True
    then have q: "?q < pos" "?q < length h" "below s ?q" using less.prems parent_less[of pos] below_parent[of s pos] by auto
    obtain b where b: "lt x (h ! ?q) = Inr b" "(if b then siftdown_loop lt x (h[pos := h ! ?q]) s ?q else Inr (h, pos)) = Inr (h', p)"
      using less.prems(1) True by (auto simp: result_simps siftdown_loop_step(1))
    have at: "?g ! ?q = h ! ?q" "?g ! pos = x" "length ?g = length h" using q(1) less.prems(2) by simp_all
    show ?thesis
    proof (cases b)
      case False
      then have "in_order key ?g pos" using lt_key[OF b(1)] by (simp only: in_order_def at not_less simp_thms)
      then show ?thesis using heap_but_stop[OF less.prems(4)] b(2) False by simp
    next
      case b': True
      have "key (?g ! pos) < key (?g ! ?q)" using lt_key[OF b(1)] b' by (simp only: at simp_thms)
      from heap_but_swap[OF less.prems(4,3) True _ this refl] less.prems(2)
      have hb: "heap_but key s (h[pos := h ! ?q, ?q := x]) ?q" unfolding at by simp
      show ?thesis using less.IH[OF q(1) _ _ q(3) hb] b(2) b' q(2) mset_move[OF less.prems(2) q(2), of x] q(1) by simp
    qed
  qed
qed

lemma siftdown_ok:
  assumes "siftdown lt h s pos = Inr h'" "pos < length h" "below s pos" "heap_but key s h pos"
  shows "heap_from key s h' \<and> mset h' = mset h"
  using assms siftdown_loop_ok[of "h ! pos" h s pos] by (auto simp: siftdown_def Let_def result_simps)

lemma smaller_child_ok:
  assumes "smaller_child lt h (2 * pos + 1) = Inr c" "2 * pos + 1 < length h"
  shows "c < length h" "c = 2 * pos + 1 \<or> c = 2 * pos + 2"
    "d < length h \<Longrightarrow> d = 2 * pos + 1 \<or> d = 2 * pos + 2 \<Longrightarrow> key (h ! c) \<le> key (h ! d)"
  using assms by (auto simp: smaller_child_def Let_def result_simps dest: lt_key split: if_splits)

lemma siftup_loop_ok:
  assumes "siftup_loop lt h pos = Inr (h', p)" "pos < length h" "below s pos" "heap_hole key s h pos"
  shows "heap_from key s h' \<and> length h' = length h \<and> p < length h \<and> length h \<le> 2 * p + 1 \<and> below s p \<and> (\<forall>x. mset (h'[p := x]) = mset (h[pos := x]))"
  using assms
proof (induction "length h - pos" arbitrary: h pos rule: less_induct)
  case less
  show ?case
  proof (cases "2 * pos + 1 < length h")
    case False
    then have "h' = h" "p = pos" using less.prems(1) by (simp_all add: siftup_loop_step)
    then show ?thesis using less.prems False heap_hole_leaf[OF less.prems(4)] by simp
  next
    case True
    then obtain c where c: "smaller_child lt h (2 * pos + 1) = Inr c" "siftup_loop lt (h[pos := h ! c]) c = Inr (h', p)"
      using less.prems(1) by (auto simp: result_simps siftup_loop_step(1))
    note m = smaller_child_ok[OF c(1) True]
    have b: "below s c" using m(2) below.left[OF less.prems(3)] below.right[OF less.prems(3)] by auto
    have n: "pos < c" using m(2) by auto
    have "heap_from key s (h[pos := h ! c])"
      using heap_hole_fill[OF less.prems(4) below_le[OF less.prems(3)] less.prems(2) m(1,2)] m(3) by blast
    then have hole: "heap_hole key s (h[pos := h ! c]) c" by (simp add: heap_from_def heap_hole_def)
    have "length (h[pos := h ! c]) - c < length h - pos" using n m(1) by simp
    from less.hyps[OF this c(2) _ b hole] m(1) show ?thesis
      using mset_move[OF less.prems(2) m(1)] n by simp
  qed
qed

lemma siftup_ok:
  assumes "siftup lt h s = Inr h'" "s < length h" "heap_from key (Suc s) h"
  shows "heap_from key s h' \<and> mset h' = mset h"
proof -
  obtain g p where g: "siftup_loop lt h s = Inr (g, p)" "siftdown lt (g[p := h ! s]) s p = Inr h'"
    using assms(1) by (auto simp: siftup_def Let_def result_simps)
  have "heap_hole key s h s" using assms(3) unfolding heap_hole_def heap_from_def by (metis Suc_leI le_neq_implies_less less_irrefl)
  from siftup_loop_ok[OF g(1) assms(2) below.same this]
  have l: "heap_from key s g" "length g = length h" "p < length h" "length h \<le> 2 * p + 1" "below s p" "mset (g[p := h ! s]) = mset h"
    using assms(2) by auto
  have leaf: "parent_of i \<noteq> p" if "0 < i" "i < length g" for i using parent_cases[OF that(1)] that(2) l(2,4) by auto
  have at: "g[p := h ! s] ! i = g ! i" if "i \<noteq> p" for i using that by simp
  have "heap_but key s (g[p := h ! s]) p" unfolding heap_but_def
  proof (intro conjI allI impI)
    fix i assume i: "0 < i" "i < length (g[p := h ! s])" "s \<le> parent_of i" "i \<noteq> p"
    then have "in_order key g i" using l(1) by (simp add: heap_from_def)
    then show "in_order key (g[p := h ! s]) i" unfolding in_order_def at[OF i(4)] using at[OF leaf] i by simp
  next
    fix i assume "0 < i" "i < length (g[p := h ! s])" "parent_of i = p"
    then show "key (g[p := h ! s] ! parent_of p) \<le> key (g[p := h ! s] ! i)" using leaf by simp
  qed
  from siftdown_ok[OF g(2) _ l(5) this] l show ?thesis by simp
qed

lemma heapify_loop_ok:
  "heapify_loop lt n h = Inr h' \<Longrightarrow> n \<le> length h \<Longrightarrow> heap_from key n h \<Longrightarrow> heap_from key 0 h' \<and> mset h' = mset h"
proof (induction n arbitrary: h)
  case (Suc n)
  then obtain g where g: "siftup lt h n = Inr g" "heapify_loop lt n g = Inr h'" by (auto simp: result_simps)
  have "heap_from key n g" "mset g = mset h" using siftup_ok[OF g(1)] Suc.prems by auto
  then show ?case using Suc.IH[OF g(2)] Suc.prems(2) by (simp add: mset_eq_length[of g h])
qed simp

theorem heapify_ok:
  assumes "heapify lt h = Inr h'"
  shows "heap_from key 0 h' \<and> mset h' = mset h"
proof -
  have "\<not> length h div 2 \<le> parent_of i" if "0 < i" "i < length h" for i using parent_cases[OF that(1)] that(2) by linarith
  then have "heap_from key (length h div 2) h" by (simp add: heap_from_def)
  then show ?thesis using heapify_loop_ok[of "length h div 2" h h'] assms by (simp add: heapify_def)
qed

theorem heappush_ok:
  assumes "heappush lt h x = Inr h'" "heap_from key 0 h"
  shows "heap_from key 0 h' \<and> mset h' = add_mset x (mset h)"
proof -
  have leaf: "parent_of i < length h" if "0 < i" "i < length (h @ [x])" for i using parent_less[OF that(1)] that(2) by simp
  have "heap_but key 0 (h @ [x]) (length h)" unfolding heap_but_def
  proof (intro conjI allI impI)
    fix i assume i: "0 < i" "i < length (h @ [x])" "i \<noteq> length h"
    then have "in_order key h i" using assms(2) by (simp add: heap_from_def)
    then show "in_order key (h @ [x]) i" using leaf[OF i(1,2)] i by (simp add: in_order_def nth_append)
  next
    fix i assume "0 < i" "i < length (h @ [x])" "parent_of i = length h"
    then show "key ((h @ [x]) ! parent_of (length h)) \<le> key ((h @ [x]) ! i)" using leaf[of i] by simp
  qed
  from siftdown_ok[OF _ _ below_0 this] assms(1) show ?thesis by (simp add: heappush_def)
qed

theorem heappop_ok:
  assumes "heappop lt h = Inr (x, h')" "heap_from key 0 h"
  shows "h \<noteq> [] \<and> x = hd h \<and> heap_from key 0 h' \<and> mset h = add_mset x (mset h') \<and> (\<forall>y\<in>set h. key x \<le> key y)"
proof -
  have ne: "h \<noteq> []" using assms(1) by (auto simp: heappop_def)
  then have hd: "hd h = h ! 0" by (rule hd_conv_nth)
  have le: "\<forall>y\<in>set h. key (hd h) \<le> key y" using heap_first[OF assms(2)] hd by (auto simp: in_set_conv_nth)
  show ?thesis
  proof (cases "butlast h = []")
    case True
    then have "h = [last h]" using ne append_butlast_last_id[of h] by simp
    then obtain z where "h = [z]" by blast
    then show ?thesis using assms(1) by (simp add: heappop_def heap_from_def)
  next
    case False
    let ?g = "(butlast h)[0 := last h]"
    obtain h2 where h2: "siftup lt ?g 0 = Inr h2" "x = butlast h ! 0" "h' = h2"
      using assms(1) ne False by (auto simp: heappop_def Let_def result_simps)
    have len: "0 < length (butlast h)" using False unfolding length_greater_0_conv .
    have "in_order key ?g i" if i: "0 < i" "i < length ?g" "Suc 0 \<le> parent_of i" for i
    proof -
      have "in_order key h i" using assms(2) i by (simp add: heap_from_def)
      moreover have "parent_of i < length (butlast h)" using parent_less[OF i(1)] i(2) by simp
      ultimately show ?thesis using i by (simp add: in_order_def nth_butlast)
    qed
    then have "heap_from key (Suc 0) ?g" by (simp add: heap_from_def)
    from siftup_ok[OF h2(1) _ this] have s: "heap_from key 0 h2" "mset h2 = mset ?g" using len by simp_all
    have x: "x = hd h" using h2(2) hd len by (simp add: nth_butlast)
    obtain a bs where ab: "butlast h = a # bs" using False by (cases "butlast h") auto
    then have "h = a # bs @ [last h]" using append_butlast_last_id[OF ne] by simp
    then have "mset h = add_mset a (add_mset (last h) (mset bs))" by (metis mset.simps(2) mset_append union_mset_add_mset_right add_mset_add_single mset_single_iff_right union_commute)
    then show ?thesis using s h2 x ab le ne by simp
  qed
qed

end

text \<open>The operations return when the elements at hand can be compared.\<close>

definition comparable :: "'a py_less \<Rightarrow> 'a set \<Rightarrow> bool" where
  "comparable lt S \<longleftrightarrow> (\<forall>x\<in>S. \<forall>y\<in>S. \<exists>b. lt x y = Inr b)"

lemma set_update_sub: "x \<in> S \<Longrightarrow> set h \<subseteq> S \<Longrightarrow> set (h[i := x]) \<subseteq> S"
  using set_update_subset_insert by fastforce

lemma siftdown_loop_returns:
  assumes "comparable lt S" "x \<in> S"
  shows "set h \<subseteq> S \<Longrightarrow> pos < length h \<Longrightarrow> \<exists>h' p. siftdown_loop lt x h s pos = Inr (h', p) \<and> set h' \<subseteq> S \<and> length h' = length h"
proof (induction pos arbitrary: h rule: less_induct)
  case (less pos)
  show ?case
  proof (cases "s < pos")
    case True
    then have q: "parent_of pos < pos" "h ! parent_of pos \<in> S" using parent_less[of pos] less.prems by auto
    obtain b where "lt x (h ! parent_of pos) = Inr b" using assms q(2) by (auto simp: comparable_def)
    moreover have "\<exists>h' p. siftdown_loop lt x (h[pos := h ! parent_of pos]) s (parent_of pos) = Inr (h', p) \<and> set h' \<subseteq> S \<and> length h' = length h"
      using less.IH[OF q(1), of "h[pos := h ! parent_of pos]"] set_update_sub[OF q(2) less.prems(1)] less.prems(2) q(1) by simp
    ultimately show ?thesis using True less.prems by (cases b) (simp_all add: siftdown_loop_step)
  qed (use less.prems in \<open>simp add: siftdown_loop_step\<close>)
qed

lemma siftdown_returns:
  assumes "comparable lt S" "set h \<subseteq> S" "pos < length h"
  shows "\<exists>h'. siftdown lt h s pos = Inr h' \<and> set h' \<subseteq> S \<and> length h' = length h"
proof -
  have x: "h ! pos \<in> S" using assms by auto
  obtain h' p where "siftdown_loop lt (h ! pos) h s pos = Inr (h', p)" "set h' \<subseteq> S" "length h' = length h"
    using siftdown_loop_returns[OF assms(1) x assms(2,3)] by blast
  then show ?thesis using set_update_sub[OF x] by (simp add: siftdown_def)
qed

lemma siftup_loop_returns:
  assumes "comparable lt S"
  shows "set h \<subseteq> S \<Longrightarrow> pos < length h \<Longrightarrow> \<exists>h' p. siftup_loop lt h pos = Inr (h', p) \<and> set h' \<subseteq> S \<and> p < length h' \<and> length h' = length h"
proof (induction "length h - pos" arbitrary: h pos rule: less_induct)
  case less
  show ?case
  proof (cases "2 * pos + 1 < length h")
    case True
    have "\<exists>b. lt (h ! (2 * pos + 1)) (h ! (2 * pos + 1 + 1)) = Inr b" if "2 * pos + 1 + 1 < length h"
      using assms less.prems(1) True that unfolding comparable_def by (metis nth_mem subsetD)
    then obtain c where c: "smaller_child lt h (2 * pos + 1) = Inr c"
      by (cases "2 * pos + 1 + 1 < length h") (auto simp: smaller_child_def Let_def)
    have c': "c < length h" "pos < c" using smaller_child_cases[OF c True] by auto
    have "h ! c \<in> S" using c'(1) less.prems(1) by auto
    then have "length (h[pos := h ! c]) - c < length h - pos" "set (h[pos := h ! c]) \<subseteq> S" using c' set_update_sub[OF _ less.prems(1)] by auto
    from less.hyps[OF this] c' show ?thesis using c True by (simp add: siftup_loop_step(1))
  qed (use less.prems in \<open>simp add: siftup_loop_step\<close>)
qed

lemma siftup_returns:
  assumes "comparable lt S" "set h \<subseteq> S" "pos < length h"
  shows "\<exists>h'. siftup lt h pos = Inr h' \<and> set h' \<subseteq> S \<and> length h' = length h"
proof -
  obtain g p where g: "siftup_loop lt h pos = Inr (g, p)" "set g \<subseteq> S" "p < length g" "length g = length h" using siftup_loop_returns[OF assms] by blast
  have "h ! pos \<in> S" using assms(2,3) by auto
  then have "set (g[p := h ! pos]) \<subseteq> S" by (rule set_update_sub[OF _ g(2)])
  then show ?thesis using siftdown_returns[OF assms(1), of "g[p := h ! pos]" p pos] g by (simp add: siftup_def)
qed

lemma heapify_loop_returns:
  assumes "comparable lt S"
  shows "set h \<subseteq> S \<Longrightarrow> n \<le> length h \<Longrightarrow> \<exists>h'. heapify_loop lt n h = Inr h'"
proof (induction n arbitrary: h)
  case (Suc n)
  then obtain g where "siftup lt h n = Inr g" "set g \<subseteq> S" "length g = length h" using siftup_returns[OF assms, of h n] by auto
  then show ?case using Suc.IH[of g] Suc.prems(2) by simp
qed simp

lemma heapify_returns: "comparable lt (set h) \<Longrightarrow> \<exists>h'. heapify lt h = Inr h'"
  unfolding heapify_def by (rule heapify_loop_returns) auto

lemma heappush_returns: "comparable lt (insert x (set h)) \<Longrightarrow> \<exists>h'. heappush lt h x = Inr h'"
  using siftdown_returns[of lt "insert x (set h)" "h @ [x]" "length h" 0] by (auto simp: heappush_def)

lemma heappop_returns:
  assumes "comparable lt (set h)" "h \<noteq> []"
  shows "\<exists>x h'. heappop lt h = Inr (x, h')"
proof (cases "butlast h = []")
  case False
  then have "set ((butlast h)[0 := last h]) \<subseteq> set h" using assms(2) by (intro set_update_sub) (auto dest: in_set_butlastD)
  moreover have "0 < length ((butlast h)[0 := last h])" using False unfolding length_list_update length_greater_0_conv .
  ultimately obtain g where "siftup lt ((butlast h)[0 := last h]) 0 = Inr g" using siftup_returns[OF assms(1)] by blast
  then show ?thesis using assms(2) False by (simp add: heappop_def)
qed (use assms in \<open>simp add: heappop_def\<close>)

end
