(* ===== verification/Request_Queue.thy ===== *)
theory Request_Queue
  imports Sched_Request Heap_Queue "HOL-Library.Product_Lexorder"
begin

text \<open>
  \<open>vllm/v1/core/sched/request_queue.py\<close>: the first-come-first-served queue (a deque) and the priority queue (a heap of triples of
  priority, arrival time and request). Requests are objects: \<open>rref\<close> is the identity of one, and \<open>objs\<close> gives its present fields. The locale
  \<open>request_queue_laws\<close> is the contract of the abstract class \<open>RequestQueue\<close>, which both queues interpret.
\<close>

type_synonym rref = nat
type_synonym objects = "rref \<Rightarrow> sched_request"

datatype scheduling_policy = FCFS | PRIORITY

section \<open>First come, first served\<close>

definition fcfs_add_request :: "rref list \<Rightarrow> rref \<Rightarrow> rref list" where
  "fcfs_add_request q x = q @ [x]"

definition fcfs_pop_request :: "rref list \<Rightarrow> (rref \<times> rref list) result" where
  "fcfs_pop_request q = (case q of [] \<Rightarrow> Inl IndexError | x # q' \<Rightarrow> Inr (x, q'))"

definition fcfs_peek_request :: "rref list \<Rightarrow> rref result" where
  "fcfs_peek_request q = (case q of [] \<Rightarrow> Inl IndexError | x # _ \<Rightarrow> Inr x)"

definition fcfs_prepend_request :: "rref list \<Rightarrow> rref \<Rightarrow> rref list" where
  "fcfs_prepend_request q x = x # q"

text \<open>\<open>extendleft\<close> appends each element on the left; the other queue is iterated in reverse.\<close>

definition fcfs_prepend_requests :: "rref list \<Rightarrow> rref list \<Rightarrow> rref list" where
  "fcfs_prepend_requests q other = foldl (\<lambda>q x. x # q) q (rev other)"

definition fcfs_remove_request :: "rref list \<Rightarrow> rref \<Rightarrow> rref list result" where
  "fcfs_remove_request q x = (if x \<in> set q then Inr (remove1 x q) else Inl ValueError)"

definition fcfs_remove_requests :: "rref list \<Rightarrow> rref list \<Rightarrow> rref list" where
  "fcfs_remove_requests q xs = filter (\<lambda>x. x \<notin> set xs) q"

section \<open>Priorities\<close>

type_synonym entry = "int \<times> real \<times> rref"

text \<open>\<open><\<close> on tuples: the first components that differ decide. \<open>Request\<close> defines no order, so two different requests with equal
  priority and arrival time cannot be compared.\<close>

definition entry_less :: "entry py_less" where
  "entry_less a b = (case (a, b) of ((p, t, x), (p', t', x')) \<Rightarrow>
     if p \<noteq> p' then Inr (p < p') else if t \<noteq> t' then Inr (t < t') else if x = x' then Inr False else Inl TypeError)"

definition entry_of :: "objects \<Rightarrow> rref \<Rightarrow> entry" where
  "entry_of objs x = (priority (objs x), arrival_time (objs x), x)"

definition pq_add_request :: "objects \<Rightarrow> entry list \<Rightarrow> rref \<Rightarrow> entry list result" where
  "pq_add_request objs h x = heappush entry_less h (entry_of objs x)"

definition pq_pop_request :: "entry list \<Rightarrow> (rref \<times> entry list) result" where
  "pq_pop_request h = (if h = [] then Inl IndexError else bindE (heappop entry_less h) (\<lambda>((p, t, x), h'). Inr (x, h')))"

definition pq_peek_request :: "entry list \<Rightarrow> rref result" where
  "pq_peek_request h = (case h of [] \<Rightarrow> Inl IndexError | (p, t, x) # _ \<Rightarrow> Inr x)"

definition pq_prepend_request :: "objects \<Rightarrow> entry list \<Rightarrow> rref \<Rightarrow> entry list result" where
  "pq_prepend_request objs h x = pq_add_request objs h x"

fun pq_prepend_requests :: "objects \<Rightarrow> entry list \<Rightarrow> rref list \<Rightarrow> entry list result" where
  "pq_prepend_requests objs h [] = Inr h"
| "pq_prepend_requests objs h (x # other) = bindE (pq_add_request objs h x) (\<lambda>h'. pq_prepend_requests objs h' other)"

definition pq_remove_request :: "entry list \<Rightarrow> rref \<Rightarrow> entry list result" where
  "pq_remove_request h x = heapify entry_less (filter (\<lambda>(p, t, y). y \<noteq> x) h)"

definition pq_remove_requests :: "entry list \<Rightarrow> rref list \<Rightarrow> entry list result" where
  "pq_remove_requests h xs = heapify entry_less (filter (\<lambda>(p, t, y). y \<notin> set xs) h)"

text \<open>\<open>__iter__\<close> pops a copy of the heap until it is empty; the heap has one element less after each pop.\<close>

fun pop_n :: "nat \<Rightarrow> entry list \<Rightarrow> rref list result" where
  "pop_n 0 h = Inr []"
| "pop_n (Suc n) h = bindE (heappop entry_less h) (\<lambda>((p, t, x), h'). bindE (pop_n n h') (\<lambda>xs. Inr (x # xs)))"

definition pq_iter :: "entry list \<Rightarrow> rref list result" where
  "pq_iter h = pop_n (length h) h"

section \<open>Either queue\<close>

datatype request_queue = Fcfs_queue "rref list" | Priority_queue "entry list"

definition create_request_queue :: "scheduling_policy \<Rightarrow> request_queue" where
  "create_request_queue policy = (case policy of PRIORITY \<Rightarrow> Priority_queue [] | FCFS \<Rightarrow> Fcfs_queue [])"

fun rq_add :: "objects \<Rightarrow> request_queue \<Rightarrow> rref \<Rightarrow> request_queue result" where
  "rq_add objs (Fcfs_queue q) x = Inr (Fcfs_queue (fcfs_add_request q x))"
| "rq_add objs (Priority_queue h) x = bindE (pq_add_request objs h x) (\<lambda>h'. Inr (Priority_queue h'))"

fun rq_pop :: "request_queue \<Rightarrow> (rref \<times> request_queue) result" where
  "rq_pop (Fcfs_queue q) = bindE (fcfs_pop_request q) (\<lambda>(x, q'). Inr (x, Fcfs_queue q'))"
| "rq_pop (Priority_queue h) = bindE (pq_pop_request h) (\<lambda>(x, h'). Inr (x, Priority_queue h'))"

fun rq_peek :: "request_queue \<Rightarrow> rref result" where
  "rq_peek (Fcfs_queue q) = fcfs_peek_request q"
| "rq_peek (Priority_queue h) = pq_peek_request h"

fun rq_prepend :: "objects \<Rightarrow> request_queue \<Rightarrow> rref \<Rightarrow> request_queue result" where
  "rq_prepend objs (Fcfs_queue q) x = Inr (Fcfs_queue (fcfs_prepend_request q x))"
| "rq_prepend objs (Priority_queue h) x = bindE (pq_prepend_request objs h x) (\<lambda>h'. Inr (Priority_queue h'))"

fun rq_iter :: "request_queue \<Rightarrow> rref list result" where
  "rq_iter (Fcfs_queue q) = Inr q"
| "rq_iter (Priority_queue h) = pq_iter h"

definition rq_reversed :: "request_queue \<Rightarrow> rref list result" where
  "rq_reversed q = bindE (rq_iter q) (\<lambda>xs. Inr (rev xs))"

definition rq_prepend_requests :: "objects \<Rightarrow> request_queue \<Rightarrow> request_queue \<Rightarrow> request_queue result" where
  "rq_prepend_requests objs q other =
     bindE (rq_iter other) (\<lambda>xs.
       case q of
         Fcfs_queue q \<Rightarrow> Inr (Fcfs_queue (fcfs_prepend_requests q xs))
       | Priority_queue h \<Rightarrow> bindE (pq_prepend_requests objs h xs) (\<lambda>h'. Inr (Priority_queue h')))"

fun rq_remove :: "request_queue \<Rightarrow> rref \<Rightarrow> request_queue result" where
  "rq_remove (Fcfs_queue q) x = bindE (fcfs_remove_request q x) (\<lambda>q'. Inr (Fcfs_queue q'))"
| "rq_remove (Priority_queue h) x = bindE (pq_remove_request h x) (\<lambda>h'. Inr (Priority_queue h'))"

fun rq_remove_requests :: "request_queue \<Rightarrow> rref list \<Rightarrow> request_queue result" where
  "rq_remove_requests (Fcfs_queue q) xs = Inr (Fcfs_queue (fcfs_remove_requests q xs))"
| "rq_remove_requests (Priority_queue h) xs = bindE (pq_remove_requests h xs) (\<lambda>h'. Inr (Priority_queue h'))"

fun rq_len :: "request_queue \<Rightarrow> nat" where
  "rq_len (Fcfs_queue q) = length q"
| "rq_len (Priority_queue h) = length h"

fun rq_bool :: "request_queue \<Rightarrow> bool" where
  "rq_bool (Fcfs_queue q) = (length q > 0)"
| "rq_bool (Priority_queue h) = (h \<noteq> [])"

lemma rq_pop_len: "rq_pop q = Inr (x, q') \<Longrightarrow> rq_len q = Suc (rq_len q')"
  by (cases q) (auto simp: result_simps fcfs_pop_request_def pq_pop_request_def dest!: heappop_length split: list.splits if_splits)

section \<open>The contract of a request queue\<close>

locale request_queue_laws =
  fixes members :: "'q \<Rightarrow> rref multiset" and valid :: "'q \<Rightarrow> bool"
    and add :: "objects \<Rightarrow> 'q \<Rightarrow> rref \<Rightarrow> 'q result" and prepend :: "objects \<Rightarrow> 'q \<Rightarrow> rref \<Rightarrow> 'q result"
    and pop :: "'q \<Rightarrow> (rref \<times> 'q) result" and peek :: "'q \<Rightarrow> rref result" and remove_many :: "'q \<Rightarrow> rref list \<Rightarrow> 'q result"
  assumes add_law: "valid q \<Longrightarrow> add objs q x = Inr q' \<Longrightarrow> valid q' \<and> members q' = add_mset x (members q)"
    and prepend_law: "valid q \<Longrightarrow> prepend objs q x = Inr q' \<Longrightarrow> valid q' \<and> members q' = add_mset x (members q)"
    and pop_law: "valid q \<Longrightarrow> pop q = Inr (x, q') \<Longrightarrow> valid q' \<and> members q = add_mset x (members q') \<and> peek q = Inr x"
    and peek_law: "peek q = Inr x \<Longrightarrow> x \<in># members q"
    and remove_law: "valid q \<Longrightarrow> remove_many q xs = Inr q' \<Longrightarrow> valid q' \<and> members q' = filter_mset (\<lambda>x. x \<notin> set xs) (members q)"
begin

lemma peek_pop: "valid q \<Longrightarrow> peek q = Inr x \<Longrightarrow> pop q = Inr (y, q') \<Longrightarrow> y = x"
  using pop_law by fastforce

lemma pop_size: "valid q \<Longrightarrow> pop q = Inr (x, q') \<Longrightarrow> size (members q) = Suc (size (members q'))"
  using pop_law by fastforce

lemma pop_fresh:
  assumes "valid q" "pop q = Inr (x, q')" "\<forall>y. count (members q) y \<le> 1"
  shows "x \<notin># members q'" "\<forall>y. count (members q') y \<le> 1"
proof -
  have m: "members q = add_mset x (members q')" using pop_law[OF assms(1,2)] by simp
  have "count (members q) x \<le> 1" using assms(3) by simp
  then show "x \<notin># members q'" unfolding m by (simp add: not_in_iff)
  show "\<forall>y. count (members q') y \<le> 1"
  proof
    fix y
    have "count (members q) y \<le> 1" using assms(3) by simp
    then show "count (members q') y \<le> 1" unfolding m by (simp split: if_splits)
  qed
qed

end

section \<open>The two queues keep the contract\<close>

definition entry_key :: "entry \<Rightarrow> int \<times> real" where
  "entry_key e = (fst e, fst (snd e))"

definition entry_request :: "entry \<Rightarrow> rref" where
  "entry_request e = snd (snd e)"

lemma entry_request_simps [simp]: "entry_request (p, t, x) = x" "entry_request (entry_of objs x) = x"
  by (simp_all add: entry_request_def entry_of_def)

interpretation entries: py_order entry_less entry_key
  by unfold_locales (auto simp: entry_less_def entry_key_def split: if_splits)

lemma fcfs_prepend_requests_append: "fcfs_prepend_requests q other = other @ q"
proof -
  have "foldl (\<lambda>q x. x # q) q xs = rev xs @ q" for xs :: "rref list" by (induction xs arbitrary: q) auto
  then show ?thesis by (simp add: fcfs_prepend_requests_def)
qed

interpretation fcfs: request_queue_laws mset "\<lambda>_. True" "\<lambda>_ q x. Inr (fcfs_add_request q x)" "\<lambda>_ q x. Inr (fcfs_prepend_request q x)"
  fcfs_pop_request fcfs_peek_request "\<lambda>q xs. Inr (fcfs_remove_requests q xs)"
  by unfold_locales
    (auto simp: fcfs_add_request_def fcfs_prepend_request_def fcfs_pop_request_def fcfs_peek_request_def fcfs_remove_requests_def mset_filter split: list.splits)

definition pq_members :: "entry list \<Rightarrow> rref multiset" where
  "pq_members h = image_mset entry_request (mset h)"

abbreviation pq_valid :: "entry list \<Rightarrow> bool" where
  "pq_valid h \<equiv> heap_from entry_key 0 h"

lemma pq_push_law: "pq_valid h \<Longrightarrow> pq_add_request objs h x = Inr h' \<Longrightarrow> pq_valid h' \<and> pq_members h' = add_mset x (pq_members h)"
  using entries.heappush_ok[of h "entry_of objs x" h'] by (simp add: pq_add_request_def pq_members_def)

lemma heappop_entry:
  assumes "heappop entry_less h = Inr (e, h')" "pq_valid h"
  obtains rest where "h = e # rest" "pq_valid h'" "mset h = add_mset e (mset h')" "\<forall>y\<in>set h. entry_key e \<le> entry_key y" "length h = Suc (length h')" "set h' \<subseteq> set h"
proof -
  have o: "h \<noteq> []" "e = hd h" "pq_valid h'" "mset h = add_mset e (mset h')" "\<forall>y\<in>set h. entry_key e \<le> entry_key y"
    using entries.heappop_ok[OF assms] by blast+
  have "h = e # tl h" using o(1,2) by simp
  moreover have "length h = Suc (length h')" using arg_cong[OF o(4), of size] by simp
  moreover have "set h' \<subseteq> set h" using arg_cong[OF o(4), of set_mset] by auto
  ultimately show ?thesis using o(3-5) by (intro that[of "tl h"])
qed

lemma pq_pop_law:
  assumes "pq_valid h" "pq_pop_request h = Inr (x, h')"
  shows "pq_valid h' \<and> pq_members h = add_mset x (pq_members h') \<and> pq_peek_request h = Inr x"
proof -
  obtain p t where pop: "heappop entry_less h = Inr ((p, t, x), h')" using assms(2) by (auto simp: pq_pop_request_def result_simps split: if_splits)
  then obtain rest where "h = (p, t, x) # rest" "pq_valid h'" "mset h = add_mset (p, t, x) (mset h')" using heappop_entry[OF _ assms(1)] by metis
  then show ?thesis by (simp add: pq_members_def pq_peek_request_def)
qed

lemma pq_remove_law:
  assumes "pq_remove_requests h xs = Inr h'"
  shows "pq_valid h' \<and> pq_members h' = filter_mset (\<lambda>x. x \<notin> set xs) (pq_members h)"
proof -
  have o: "pq_valid h'" "mset h' = mset (filter (\<lambda>(p, t, y). y \<notin> set xs) h)"
    using entries.heapify_ok assms unfolding pq_remove_requests_def by auto
  have "(\<lambda>(p, t, y). y \<notin> set xs) = (\<lambda>e. entry_request e \<notin> set xs)" by (auto simp: entry_request_def)
  then show ?thesis using o by (simp add: pq_members_def mset_filter filter_mset_image_mset)
qed

interpretation prio: request_queue_laws pq_members pq_valid pq_add_request pq_prepend_request pq_pop_request pq_peek_request pq_remove_requests
proof unfold_locales
  show "pq_valid q' \<and> pq_members q' = add_mset x (pq_members q)" if "pq_valid q" "pq_prepend_request objs q x = Inr q'" for q objs x q'
    using that pq_push_law by (simp add: pq_prepend_request_def)
  show "x \<in># pq_members q" if "pq_peek_request q = Inr x" for q x
    using that by (auto simp: pq_peek_request_def pq_members_def split: list.splits)
qed (use pq_push_law pq_pop_law pq_remove_law in blast)+

fun rq_members :: "request_queue \<Rightarrow> rref multiset" where
  "rq_members (Fcfs_queue q) = mset q"
| "rq_members (Priority_queue h) = pq_members h"

fun rq_valid :: "request_queue \<Rightarrow> bool" where
  "rq_valid (Fcfs_queue q) = True"
| "rq_valid (Priority_queue h) = pq_valid h"

interpretation rq: request_queue_laws rq_members rq_valid rq_add rq_prepend rq_pop rq_peek rq_remove_requests
proof unfold_locales
  fix q q' :: request_queue and objs x xs
  show "rq_valid q' \<and> rq_members q' = add_mset x (rq_members q)" if "rq_valid q" "rq_add objs q x = Inr q'"
    using that fcfs.add_law prio.add_law by (cases q) (auto simp: result_simps)
  show "rq_valid q' \<and> rq_members q' = add_mset x (rq_members q)" if "rq_valid q" "rq_prepend objs q x = Inr q'"
    using that fcfs.prepend_law prio.prepend_law by (cases q) (auto simp: result_simps)
  show "rq_valid q' \<and> rq_members q = add_mset x (rq_members q') \<and> rq_peek q = Inr x" if "rq_valid q" "rq_pop q = Inr (x, q')"
    using that fcfs.pop_law prio.pop_law by (cases q) (auto simp: result_simps)
  show "x \<in># rq_members q" if "rq_peek q = Inr x" using that fcfs.peek_law prio.peek_law by (cases q) auto
  show "rq_valid q' \<and> rq_members q' = filter_mset (\<lambda>x. x \<notin> set xs) (rq_members q)" if "rq_valid q" "rq_remove_requests q xs = Inr q'"
    using that fcfs.remove_law prio.remove_law by (cases q) (auto simp: result_simps)
qed

section \<open>The order of the priority queue\<close>

lemma pop_n_sorted:
  assumes "pop_n n h = Inr xs" "pq_valid h" "n = length h"
  shows "\<exists>es. mset es = mset h \<and> sorted (map entry_key es) \<and> xs = map entry_request es"
  using assms
proof (induction n arbitrary: h xs)
  case (Suc n)
  obtain p t x h' ys where s: "heappop entry_less h = Inr ((p, t, x), h')" "pop_n n h' = Inr ys" "xs = x # ys"
    using Suc.prems(1) by (auto simp: result_simps)
  obtain rest where o: "pq_valid h'" "mset h = add_mset (p, t, x) (mset h')" "\<forall>y\<in>set h. entry_key (p, t, x) \<le> entry_key y" "length h = Suc (length h')" "set h' \<subseteq> set h"
    using heappop_entry[OF s(1) Suc.prems(2)] by metis
  have n: "n = length h'" using Suc.prems(3) o(4) by simp
  obtain es where es: "mset es = mset h'" "sorted (map entry_key es)" "ys = map entry_request es" using Suc.IH[OF s(2) o(1) n] by auto
  have "set es = set h'" using es(1) by (metis set_mset_mset)
  then have "sorted (map entry_key ((p, t, x) # es))" using es(2) o(3,5) by auto
  then show ?case using es s(3) o(2) by (intro exI[of _ "(p, t, x) # es"]) simp
qed simp

lemma entries_comparable: "inj_on entry_key S \<Longrightarrow> comparable entry_less S"
  unfolding comparable_def inj_on_def by (force simp: entry_less_def entry_key_def)

lemma heap_of_ok:
  assumes "inj_on entry_key (set h \<union> entry_of objs ` set xs)" "pq_valid h"
  shows "\<exists>h'. pq_prepend_requests objs h xs = Inr h' \<and> pq_valid h' \<and> mset h' = mset h + mset (map (entry_of objs) xs)"
  using assms
proof (induction xs arbitrary: h)
  case (Cons x xs)
  have "comparable entry_less (insert (entry_of objs x) (set h))" by (rule entries_comparable) (rule inj_on_subset[OF Cons.prems(1)], auto)
  then obtain h1 where h1: "heappush entry_less h (entry_of objs x) = Inr h1" using heappush_returns[of entry_less "entry_of objs x" h] by blast
  note o = entries.heappush_ok[OF h1 Cons.prems(2)]
  then have "set h1 = insert (entry_of objs x) (set h)" by (metis set_mset_mset set_mset_add_mset_insert)
  then have "inj_on entry_key (set h1 \<union> entry_of objs ` set xs)" using Cons.prems(1) by (auto intro: inj_on_subset)
  from Cons.IH[OF this] o h1 show ?case by (auto simp: pq_add_request_def)
qed simp

lemma pop_n_returns:
  assumes "comparable entry_less (set h)" "n = length h" "pq_valid h"
  shows "\<exists>xs. pop_n n h = Inr xs"
  using assms
proof (induction n arbitrary: h)
  case (Suc n)
  then obtain p t x h' where s: "heappop entry_less h = Inr ((p, t, x), h')" using heappop_returns[of entry_less h] by (metis length_0_conv nat.distinct(1) prod_cases3)
  obtain rest where o: "pq_valid h'" "length h = Suc (length h')" "set h' \<subseteq> set h" using heappop_entry[OF s Suc.prems(3)] by metis
  have "comparable entry_less (set h')" using Suc.prems(1) o(3) by (meson comparable_def subsetD)
  then obtain xs where "pop_n n h' = Inr xs" using Suc.IH[of h'] Suc.prems(2) o by auto
  then show ?case using s by simp
qed simp

lemma sorted_entries:
  assumes "inj_on k (set xs)" "distinct xs" "k = (\<lambda>x. (priority (objs x), arrival_time (objs x)))"
    and es: "mset es = mset (map (entry_of objs) xs)" "sorted (map entry_key es)"
  shows "map entry_request es = sort_key k xs"
proof -
  let ?fs = "map (entry_of objs) (sort_key k xs)"
  have k: "entry_key (entry_of objs x) = k x" for x by (simp add: entry_key_def entry_of_def assms(3))
  have same: "set es = set ?fs" using mset_eq_setD[OF es(1)] by simp
  have inj: "inj_on entry_key (set ?fs)" using assms(1) by (auto simp: inj_on_def k)
  have "mset (map entry_key es) = image_mset entry_key (mset es)" by simp
  also have "\<dots> = mset (map k xs)" unfolding es(1) by (simp add: image_mset.compositionality comp_def k)
  finally have "distinct (map entry_key es)" using assms(1,2) by (metis distinct_map mset_eq_imp_distinct_iff)
  moreover have "distinct (map entry_key ?fs)" using assms(1,2) by (simp add: distinct_map comp_def k cong: map_cong)
  ultimately have "es = ?fs" using same inj es(2)
    by (intro map_sorted_distinct_set_unique[of entry_key]) (simp_all add: comp_def k)
  then show ?thesis by (simp add: comp_def)
qed

text \<open>C23. The priority queue. Requests whose pairs of priority and arrival time differ can be added in any order: no operation raises, and iterating
  over the queue (which is how it is drained) gives every request once, in ascending order of priority and, within one priority, of arrival. But two different
  requests with the same priority and arrival time cannot both be queued: the heap compares the requests themselves, which have no order, and
  \<open>TypeError\<close> leaves the queue.\<close>

theorem priority_queue_order:
  "(inj_on (\<lambda>x. (priority (objs x), arrival_time (objs x))) (set xs) \<and> distinct xs \<longrightarrow>
      (\<exists>h. pq_prepend_requests objs [] xs = Inr h \<and> pq_iter h = Inr (sort_key (\<lambda>x. (priority (objs x), arrival_time (objs x))) xs)
         \<and> (xs \<noteq> [] \<longrightarrow> pq_peek_request h = Inr (hd (sort_key (\<lambda>x. (priority (objs x), arrival_time (objs x))) xs)))))
   \<and> (x \<noteq> y \<and> priority (objs x) = priority (objs y) \<and> arrival_time (objs x) = arrival_time (objs y) \<longrightarrow> pq_prepend_requests objs [] [x, y] = Inl TypeError)"
proof (intro conjI impI)
  let ?k = "\<lambda>x. (priority (objs x), arrival_time (objs x))"
  assume "inj_on ?k (set xs) \<and> distinct xs"
  then have d: "inj_on ?k (set xs)" "distinct xs" by simp_all
  have "inj_on entry_key (set [] \<union> entry_of objs ` set xs)" using d(1) by (auto simp: inj_on_def entry_key_def entry_of_def)
  then obtain h where h: "pq_prepend_requests objs [] xs = Inr h" "pq_valid h" "mset h = mset (map (entry_of objs) xs)"
    using heap_of_ok[of "[]" objs xs] by (auto simp: heap_from_def)
  have "inj_on entry_key (set h)" using d(1) mset_eq_setD[OF h(3)] by (auto simp: inj_on_def entry_key_def entry_of_def)
  then obtain ys where ys: "pop_n (length h) h = Inr ys" using pop_n_returns[OF entries_comparable refl h(2)] by blast
  then obtain es where es: "mset es = mset h" "sorted (map entry_key es)" "ys = map entry_request es" using pop_n_sorted[OF ys h(2) refl] by blast
  have iter: "pq_iter h = Inr (sort_key ?k xs)" using ys es sorted_entries[OF d refl, of es] h(3) by (simp add: pq_iter_def)
  moreover have "pq_peek_request h = Inr (hd (sort_key ?k xs))" if "xs \<noteq> []"
  proof -
    have "h \<noteq> []" using h(3) that by auto
    then obtain e rest where e: "h = e # rest" by (cases h) auto
    obtain p t y h' zs where z: "heappop entry_less h = Inr ((p, t, y), h')" "y # zs = sort_key ?k xs"
      using iter e by (auto simp: pq_iter_def result_simps)
    then have "e = (p, t, y)" using heappop_entry[OF z(1) h(2)] e by (metis list.inject)
    then show ?thesis using e by (simp add: pq_peek_request_def flip: z(2))
  qed
  ultimately show "\<exists>h. pq_prepend_requests objs [] xs = Inr h \<and> pq_iter h = Inr (sort_key ?k xs)
      \<and> (xs \<noteq> [] \<longrightarrow> pq_peek_request h = Inr (hd (sort_key ?k xs)))" using h(1) by blast
next
  assume "x \<noteq> y \<and> priority (objs x) = priority (objs y) \<and> arrival_time (objs x) = arrival_time (objs y)"
  then show "pq_prepend_requests objs [] [x, y] = Inl TypeError"
    by (simp add: pq_add_request_def heappush_def siftdown_def siftdown_loop_step entry_less_def entry_of_def parent_of_def)
qed

theorem priority_queue_order_witness:
  "let objs = (\<lambda>x. demo_sched_request ''r'' [1] (if x = 2 then 0 else 1) (if x = 3 then 7 else real x))
   in \<exists>h. pq_prepend_requests objs [] [1, 2, 3] = Inr h \<and> pq_iter h = Inr [2, 1, 3] \<and> pq_peek_request h = Inr 2
     \<and> pq_prepend_requests (\<lambda>_. demo_sched_request ''r'' [1] 0 0) [] [0, 1] = Inl TypeError"
proof -
  define objs where "objs = (\<lambda>x. demo_sched_request ''r'' [1] (if x = 2 then 0 else 1) (if x = 3 then 7 else real x))"
  let ?k = "\<lambda>x. (priority (objs x), arrival_time (objs x))"
  have k: "?k 1 = (1, 1)" "?k 2 = (0, 2)" "?k 3 = (1, 7)" by (simp_all add: objs_def demo_sched_request_eq)
  then have i: "inj_on ?k (set [1, 2, 3])" by auto
  have s: "sort_key ?k [1, 2, 3] = [2, 1, 3]" using k by (simp add: sort_key_def)
  show ?thesis using priority_queue_order[of objs "[1, 2, 3]" 0 1] i s
      priority_queue_order[of "\<lambda>_. demo_sched_request ''r'' [1] 0 0" "[]" 0 1] unfolding Let_def objs_def[symmetric] by (auto simp: demo_sched_request_eq)
qed

end
