(* ===== verification/Encoder_Cache.thy ===== *)
theory Encoder_Cache
  imports Sched_Request
begin

text \<open>
  \<open>vllm/v1/core/encoder_cache_manager.py\<close>: the bookkeeping of cached outputs of the multi-modal encoder. An entry is identified by the hash of
  its input; it is referenced by requests, and evicted, oldest first, only when no request references it and room is needed.

  A dictionary is a map, the \<open>OrderedDict\<close> \<open>freeable\<close> an association list in its order. Python leaves the order open in which a set is iterated; where
  the code iterates over the set of input ids of a request, \<open>set_iter\<close> gives the order.
\<close>

type_synonym mm_hash = "string option"

record encoder_cache =
  cache_size :: int
  num_free_slots :: int
  num_freeable_slots :: int
  cached :: "mm_hash \<rightharpoonup> string set"
  freeable :: "(mm_hash \<times> int) list"
  freed :: "mm_hash list"

section \<open>Operations\<close>

definition init_encoder_cache :: "int \<Rightarrow> encoder_cache" where
  "init_encoder_cache n =
     \<lparr>cache_size = n, num_free_slots = n, num_freeable_slots = n, cached = Map.empty, freeable = [], freed = []\<rparr>"

definition mm_hash_at :: "sched_request \<Rightarrow> nat \<Rightarrow> mm_hash result" where
  "mm_hash_at r input_id = (if input_id < length (mm_hashes r) then Inr (mm_hashes r ! input_id) else Inl IndexError)"

text \<open>\<open>freeable.pop(mm_hash)\<close>.\<close>

definition pop_freeable :: "encoder_cache \<Rightarrow> mm_hash \<Rightarrow> (int \<times> encoder_cache) result" where
  "pop_freeable e h =
     (case map_of (freeable e) h of
        None \<Rightarrow> Inl KeyError
      | Some n \<Rightarrow> Inr (n, e\<lparr>freeable := filter (\<lambda>(k, _). k \<noteq> h) (freeable e)\<rparr>))"

definition check_and_update_cache :: "encoder_cache \<Rightarrow> sched_request \<Rightarrow> nat \<Rightarrow> (bool \<times> encoder_cache) result" where
  "check_and_update_cache e r input_id =
     bindE (mm_hash_at r input_id) (\<lambda>h.
       case cached e h of
         None \<Rightarrow> Inr (False, e)
       | Some refs \<Rightarrow>
           bindE (if refs = {}
                  then bindE (pop_freeable e h) (\<lambda>(n, e1). Inr (e1\<lparr>num_freeable_slots := num_freeable_slots e1 - n\<rparr>))
                  else Inr e)
             (\<lambda>e2. Inr (True, e2\<lparr>cached := (cached e2)(h \<mapsto> insert (request_id r) refs)\<rparr>)))"

text \<open>The eviction loop of \<open>can_allocate\<close>; \<open>popitem(last=False)\<close> takes the oldest entry.\<close>

function evict_loop :: "int \<Rightarrow> encoder_cache \<Rightarrow> encoder_cache result" where
  "evict_loop n e =
     (if n > num_free_slots e
      then (case freeable e of
              [] \<Rightarrow> Inl KeyError
            | (h, k) # rest \<Rightarrow>
                if cached e h = None then Inl KeyError
                else evict_loop n (e\<lparr>freeable := rest, cached := (cached e)(h := None), freed := freed e @ [h],
                                     num_free_slots := num_free_slots e + k\<rparr>))
      else Inr e)"
  by pat_completeness auto
termination by (relation "measure (\<lambda>(n, e). length (freeable e))") auto

declare evict_loop.simps [simp del]

definition can_allocate :: "encoder_cache \<Rightarrow> sched_request \<Rightarrow> nat \<Rightarrow> int \<Rightarrow> int \<Rightarrow> (bool \<times> encoder_cache) result" where
  "can_allocate e r input_id encoder_compute_budget num_tokens_to_schedule =
     bindE (get_num_encoder_tokens r input_id) (\<lambda>n.
       if n > encoder_compute_budget then Inr (False, e)
       else (let n' = n + num_tokens_to_schedule
             in if n' \<le> num_free_slots e then Inr (True, e)
                else if n' > num_freeable_slots e then Inr (False, e)
                else bindE (evict_loop n' e) (\<lambda>e'. Inr (True, e'))))"

definition ec_allocate :: "encoder_cache \<Rightarrow> sched_request \<Rightarrow> nat \<Rightarrow> encoder_cache result" where
  "ec_allocate e r input_id =
     bindE (mm_hash_at r input_id) (\<lambda>h.
     let refs = (case cached e h of None \<Rightarrow> {} | Some s \<Rightarrow> s)
     in bindE (get_num_encoder_tokens r input_id) (\<lambda>n.
          if \<not> num_free_slots e \<ge> n then Inl AssertionError
          else if \<not> num_freeable_slots e \<ge> n then Inl AssertionError
          else Inr (e\<lparr>cached := (cached e)(h \<mapsto> insert (request_id r) refs), num_free_slots := num_free_slots e - n,
                      num_freeable_slots := num_freeable_slots e - n\<rparr>)))"

definition get_cached_input_ids :: "encoder_cache \<Rightarrow> sched_request \<Rightarrow> nat list" where
  "get_cached_input_ids e r = filter (\<lambda>i. cached e (mm_hashes r ! i) \<noteq> None) [0..<length (mm_hashes r)]"

text \<open>\<open>freeable[mm_hash] = n\<close>: a present key keeps its place.\<close>

fun od_set :: "('k \<times> 'v) list \<Rightarrow> 'k \<Rightarrow> 'v \<Rightarrow> ('k \<times> 'v) list" where
  "od_set [] k v = [(k, v)]"
| "od_set ((k', v') # xs) k v = (if k' = k then (k, v) # xs else (k', v') # od_set xs k v)"

definition free_encoder_input :: "encoder_cache \<Rightarrow> sched_request \<Rightarrow> nat \<Rightarrow> encoder_cache result" where
  "free_encoder_input e r input_id =
     bindE (mm_hash_at r input_id) (\<lambda>h.
       case cached e h of
         None \<Rightarrow> Inr e
       | Some refs \<Rightarrow>
           if refs = {} then Inr e
           else (let refs' = refs - {request_id r}; e1 = e\<lparr>cached := (cached e)(h \<mapsto> refs')\<rparr>
                 in if refs' = {}
                    then bindE (get_num_encoder_tokens r input_id) (\<lambda>n.
                           Inr (e1\<lparr>freeable := od_set (freeable e1) h n, num_freeable_slots := num_freeable_slots e1 + n\<rparr>))
                    else Inr e1))"

fun free_inputs :: "encoder_cache \<Rightarrow> sched_request \<Rightarrow> nat list \<Rightarrow> encoder_cache result" where
  "free_inputs e r [] = Inr e"
| "free_inputs e r (i # is) = bindE (free_encoder_input e r i) (\<lambda>e'. free_inputs e' r is)"

type_synonym set_iter = "nat list \<Rightarrow> nat list"

definition ec_free :: "set_iter \<Rightarrow> encoder_cache \<Rightarrow> sched_request \<Rightarrow> encoder_cache result" where
  "ec_free set_iter e r = free_inputs e r (set_iter (get_cached_input_ids e r))"

definition get_freed_mm_hashes :: "encoder_cache \<Rightarrow> mm_hash list \<times> encoder_cache" where
  "get_freed_mm_hashes e = (freed e, e\<lparr>freed := []\<rparr>)"

section \<open>Budgets\<close>

record encoder_limits =
  disable_chunked_mm_input :: bool
  max_num_batched_tokens :: int
  max_num_encoder_input_tokens :: int
  encoder_cache_size :: int

definition compute_text_encoder_budget :: "int \<times> int" where
  "compute_text_encoder_budget = (0, 0)"

definition compute_mm_encoder_budget :: "encoder_limits \<Rightarrow> (string \<times> int) list \<Rightarrow> (int \<times> int) result" where
  "compute_mm_encoder_budget c max_tokens_by_modality =
     (if max_tokens_by_modality = [] then Inr (0, 0)
      else (let max_tokens_per_mm_item = Max (set (map snd max_tokens_by_modality))
            in if disable_chunked_mm_input c \<and> max_tokens_per_mm_item > max_num_batched_tokens c then Inl ValueError
               else Inr (max (max_num_encoder_input_tokens c) max_tokens_per_mm_item, max (encoder_cache_size c) max_tokens_per_mm_item)))"

text \<open>What the registry of modalities answers is a parameter: nothing for a text-only model, else the largest item of each modality.\<close>

definition compute_encoder_budget :: "encoder_limits \<Rightarrow> (string \<times> int) list option \<Rightarrow> (int \<times> int) result" where
  "compute_encoder_budget c modalities =
     (case modalities of Some m \<Rightarrow> compute_mm_encoder_budget c m | None \<Rightarrow> Inr compute_text_encoder_budget)"

section \<open>Accounting\<close>

text \<open>\<open>sz\<close> is the number of encoder tokens of the input behind a hash. Slots in use are those of the cached entries; those that can be reclaimed are the
  free ones and those of the entries without a reference, which are the entries of \<open>freeable\<close>.\<close>

definition unreferenced :: "encoder_cache \<Rightarrow> mm_hash set" where
  "unreferenced e = {h. cached e h = Some {}}"

definition ec_ok :: "(mm_hash \<Rightarrow> int) \<Rightarrow> encoder_cache \<Rightarrow> bool" where
  "ec_ok sz e \<longleftrightarrow> distinct (map fst (freeable e)) \<and> (\<forall>(h, n) \<in> set (freeable e). n = sz h) \<and> fst ` set (freeable e) = unreferenced e
     \<and> finite (dom (cached e)) \<and> (\<forall>h \<in> dom (cached e). 0 \<le> sz h) \<and> 0 \<le> num_free_slots e
     \<and> num_free_slots e + sum sz (dom (cached e)) = cache_size e
     \<and> num_freeable_slots e = num_free_slots e + sum sz (unreferenced e)"

definition sized :: "(mm_hash \<Rightarrow> int) \<Rightarrow> sched_request \<Rightarrow> bool" where
  "sized sz r \<longleftrightarrow> length (mm_hashes r) = length (mm_positions r)
     \<and> (\<forall>i < length (mm_positions r). mm_length (mm_positions r ! i) = sz (mm_hashes r ! i) \<and> 0 \<le> sz (mm_hashes r ! i))"

lemma ec_okD:
  assumes "ec_ok sz e"
  shows "distinct (map fst (freeable e))" "(h, n) \<in> set (freeable e) \<Longrightarrow> n = sz h" "fst ` set (freeable e) = unreferenced e" "finite (dom (cached e))"
    "h \<in> dom (cached e) \<Longrightarrow> 0 \<le> sz h" "0 \<le> num_free_slots e" "num_free_slots e + sum sz (dom (cached e)) = cache_size e"
    "num_freeable_slots e = num_free_slots e + sum sz (unreferenced e)" "finite (unreferenced e)" "unreferenced e \<subseteq> dom (cached e)"
    "num_free_slots e \<le> num_freeable_slots e"
proof -
  show sub: "unreferenced e \<subseteq> dom (cached e)" by (auto simp: unreferenced_def)
  then show "finite (unreferenced e)" using assms by (auto simp: ec_ok_def intro: finite_subset)
  have "0 \<le> sum sz (unreferenced e)" using assms sub by (intro sum_nonneg) (auto simp: ec_ok_def)
  then show "num_free_slots e \<le> num_freeable_slots e" using assms by (simp add: ec_ok_def)
qed (use assms in \<open>auto simp: ec_ok_def\<close>)

lemma sizedD:
  assumes "sized sz r" "i < length (mm_positions r)"
  shows "mm_hash_at r i = Inr (mm_hashes r ! i)" "get_num_encoder_tokens r i = Inr (sz (mm_hashes r ! i))" "0 \<le> sz (mm_hashes r ! i)"
  using assms by (auto simp: sized_def mm_hash_at_def get_num_encoder_tokens_def)

lemma init_encoder_cache_ok: "0 \<le> n \<Longrightarrow> ec_ok sz (init_encoder_cache n)"
  by (simp add: ec_ok_def init_encoder_cache_def unreferenced_def)

text \<open>Changing the references of a cached entry.\<close>

lemma unreferenced_upd:
  "unreferenced (e\<lparr>cached := (cached e)(h \<mapsto> refs)\<rparr>) = (if refs = {} then insert h (unreferenced e) else unreferenced e - {h})"
  by (auto simp: unreferenced_def)

lemma dom_upd_cached: "h \<in> dom (cached e) \<Longrightarrow> dom ((cached e)(h \<mapsto> refs)) = dom (cached e)"
  by (auto simp: dom_def)

lemma check_and_update_cache_ok:
  assumes ok: "ec_ok sz e" and r: "sized sz r" "i < length (mm_positions r)" and h: "h = mm_hashes r ! i"
  shows "\<exists>e'. check_and_update_cache e r i = Inr (h \<in> dom (cached e), e') \<and> ec_ok sz e'
    \<and> cached e' = (case cached e h of None \<Rightarrow> cached e | Some refs \<Rightarrow> (cached e)(h \<mapsto> insert (request_id r) refs))
    \<and> num_free_slots e' = num_free_slots e \<and> freed e' = freed e \<and> cache_size e' = cache_size e"
proof (cases "cached e h")
  case None
  then show ?thesis using ok sizedD(1)[OF r] h by (auto simp: check_and_update_cache_def dom_def)
next
  case (Some refs)
  note D = ec_okD[OF ok]
  have hd: "h \<in> dom (cached e)" using Some by auto
  show ?thesis
  proof (cases "refs = {}")
    case False
    let ?e = "e\<lparr>cached := (cached e)(h \<mapsto> insert (request_id r) refs)\<rparr>"
    have "unreferenced ?e = unreferenced e" using False Some by (auto simp: unreferenced_def)
    then have "ec_ok sz ?e" using ok dom_upd_cached[OF hd] by (simp add: ec_ok_def)
    then show ?thesis using sizedD(1)[OF r] h Some False hd by (simp add: check_and_update_cache_def)
  next
    case True
    then have hu: "h \<in> unreferenced e" using Some by (simp add: unreferenced_def)
    then obtain n where "(h, n) \<in> set (freeable e)" using D(3) by force
    then have m: "map_of (freeable e) h = Some (sz h)" using D(1,2) by (metis map_of_is_SomeI)
    let ?e = "e\<lparr>freeable := filter (\<lambda>(k, _). k \<noteq> h) (freeable e), num_freeable_slots := num_freeable_slots e - sz h,
      cached := (cached e)(h \<mapsto> {request_id r})\<rparr>"
    have u: "unreferenced ?e = unreferenced e - {h}" by (auto simp: unreferenced_def)
    have "distinct (map fst (freeable ?e))" using D(1) by (simp add: distinct_map_filter)
    moreover have "fst ` set (freeable ?e) = unreferenced ?e" unfolding u D(3)[symmetric] by force
    moreover have "sum sz (unreferenced e) = sz h + sum sz (unreferenced ?e)" unfolding u by (rule sum.remove[OF D(9) hu])
    ultimately have "ec_ok sz ?e" using ok dom_upd_cached[OF hd] by (auto simp: ec_ok_def)
    then show ?thesis using sizedD(1)[OF r] h Some True hd m by (simp add: check_and_update_cache_def pop_freeable_def)
  qed
qed

lemma restrict_UNIV [simp]: "m |` UNIV = m"
  by (simp add: restrict_map_def)

text \<open>Eviction takes the oldest unreferenced entries until there is room, and finds them.\<close>

lemma evict_step_ok:
  assumes ok: "ec_ok sz e" and f: "freeable e = (h, k) # rest"
  shows "cached e h = Some {}" "k = sz h"
    "ec_ok sz (e\<lparr>freeable := rest, cached := (cached e)(h := None), freed := freed e @ [h], num_free_slots := num_free_slots e + k\<rparr>)"
proof -
  note D = ec_okD[OF ok]
  have hu: "h \<in> unreferenced e" using D(3) f by auto
  then show c: "cached e h = Some {}" by (simp add: unreferenced_def)
  show k: "k = sz h" using D(2) f by simp
  let ?e = "e\<lparr>freeable := rest, cached := (cached e)(h := None), freed := freed e @ [h], num_free_slots := num_free_slots e + k\<rparr>"
  have u: "unreferenced ?e = unreferenced e - {h}" by (auto simp: unreferenced_def)
  have hd: "h \<in> dom (cached e)" using c by auto
  have "fst ` set rest = unreferenced e - {h}" using D(1,3) f by auto
  moreover have "sum sz (dom (cached e)) = sz h + sum sz (dom (cached e) - {h})" by (rule sum.remove[OF D(4) hd])
  moreover have "sum sz (unreferenced e) = sz h + sum sz (unreferenced e - {h})" by (rule sum.remove[OF D(9) hu])
  moreover have "0 \<le> sz h" by (rule D(5)[OF hd])
  moreover have "dom ((cached e)(h := None)) = dom (cached e) - {h}" by auto
  ultimately show "ec_ok sz ?e" using ok f k u by (auto simp: ec_ok_def)
qed

lemma evict_loop_ok:
  assumes "ec_ok sz e" "n \<le> num_freeable_slots e"
  shows "\<exists>e' k. evict_loop n e = Inr e' \<and> ec_ok sz e' \<and> n \<le> num_free_slots e' \<and> freeable e' = drop k (freeable e)
    \<and> freed e' = freed e @ map fst (take k (freeable e)) \<and> cached e' = (cached e) |` (- set (map fst (take k (freeable e))))
    \<and> cache_size e' = cache_size e \<and> num_freeable_slots e' = num_freeable_slots e"
  using assms
proof (induction "length (freeable e)" arbitrary: e)
  case 0
  then have "freeable e = []" by simp
  then have "unreferenced e = {}" using ec_okD(3)[OF 0(2)] by simp
  then have "n \<le> num_free_slots e" using 0(3) ec_okD(8)[OF 0(2)] by simp
  then show ?case using 0 by (intro exI[of _ e] exI[of _ 0]) (simp add: evict_loop.simps)
next
  case (Suc m)
  show ?case
  proof (cases "n > num_free_slots e")
    case False
    then show ?thesis using Suc by (intro exI[of _ e] exI[of _ 0]) (simp add: evict_loop.simps)
  next
    case True
    obtain h k rest where f: "freeable e = (h, k) # rest" using Suc.hyps(2) by (cases "freeable e") auto
    let ?e = "e\<lparr>freeable := rest, cached := (cached e)(h := None), freed := freed e @ [h], num_free_slots := num_free_slots e + k\<rparr>"
    note s = evict_step_ok[OF Suc.prems(1) f]
    obtain e' j where i: "evict_loop n ?e = Inr e'" "ec_ok sz e'" "n \<le> num_free_slots e'" "freeable e' = drop j rest"
      "freed e' = freed ?e @ map fst (take j rest)" "cached e' = (cached ?e) |` (- set (map fst (take j rest)))" "cache_size e' = cache_size e"
      "num_freeable_slots e' = num_freeable_slots e"
      using Suc.hyps(1)[of ?e] Suc.hyps(2) s(3) Suc.prems(2) f by auto
    have "evict_loop n e = Inr e'" using True f s(1) i(1) by (simp add: evict_loop.simps[of n e])
    moreover have "cached e' = (cached e) |` (- set (map fst (take (Suc j) (freeable e))))" using i(6) f by (auto simp: restrict_map_def fun_eq_iff)
    ultimately show ?thesis using i f by (intro exI[of _ e'] exI[of _ "Suc j"]) simp
  qed
qed

lemma can_allocate_ok:
  assumes ok: "ec_ok sz e" and r: "sized sz r" "i < length (mm_positions r)" and n: "n = sz (mm_hashes r ! i)"
  shows "\<exists>e' k. can_allocate e r i budget extra = Inr (n \<le> budget \<and> n + extra \<le> num_freeable_slots e, e') \<and> ec_ok sz e'
    \<and> (n \<le> budget \<and> n + extra \<le> num_freeable_slots e \<longrightarrow> n + extra \<le> num_free_slots e') \<and> freeable e' = drop k (freeable e)
    \<and> freed e' = freed e @ map fst (take k (freeable e)) \<and> cached e' = (cached e) |` (- set (map fst (take k (freeable e))))
    \<and> cache_size e' = cache_size e \<and> num_freeable_slots e' = num_freeable_slots e"
proof (cases "n \<le> budget \<and> n + extra > num_free_slots e \<and> n + extra \<le> num_freeable_slots e")
  case True
  then obtain e' k where "evict_loop (n + extra) e = Inr e'" "ec_ok sz e'" "n + extra \<le> num_free_slots e'" "freeable e' = drop k (freeable e)"
    "freed e' = freed e @ map fst (take k (freeable e))" "cached e' = (cached e) |` (- set (map fst (take k (freeable e))))"
    "cache_size e' = cache_size e" "num_freeable_slots e' = num_freeable_slots e" using evict_loop_ok[OF ok, of "n + extra"] by blast
  then show ?thesis using True sizedD(2)[OF r] n by (intro exI[of _ e'] exI[of _ k]) (simp add: can_allocate_def Let_def)
next
  case False
  have "can_allocate e r i budget extra = Inr (n \<le> budget \<and> n + extra \<le> num_freeable_slots e, e)"
    using False sizedD(2)[OF r] n ec_okD(11)[OF ok] by (auto simp: can_allocate_def Let_def)
  then show ?thesis using ok False by (intro exI[of _ e] exI[of _ 0]) auto
qed

lemma ec_allocate_ok:
  assumes ok: "ec_ok sz e" and r: "sized sz r" "i < length (mm_positions r)" and h: "h = mm_hashes r ! i" "h \<notin> dom (cached e)"
    and room: "sz h \<le> num_free_slots e"
  shows "\<exists>e'. ec_allocate e r i = Inr e' \<and> ec_ok sz e' \<and> cached e' = (cached e)(h \<mapsto> {request_id r}) \<and> num_free_slots e' = num_free_slots e - sz h
    \<and> freeable e' = freeable e \<and> freed e' = freed e \<and> cache_size e' = cache_size e"
proof -
  note D = ec_okD[OF ok]
  let ?e = "e\<lparr>cached := (cached e)(h \<mapsto> {request_id r}), num_free_slots := num_free_slots e - sz h, num_freeable_slots := num_freeable_slots e - sz h\<rparr>"
  have c: "cached e h = None" using h(2) by auto
  have u: "unreferenced ?e = unreferenced e" using c by (auto simp: unreferenced_def)
  have "ec_allocate e r i = Inr ?e" using sizedD[OF r] h c room D(11) by (simp add: ec_allocate_def)
  moreover have "sum sz (insert h (dom (cached e))) = sz h + sum sz (dom (cached e))" using D(4) h(2) by (rule sum.insert)
  then have "ec_ok sz ?e" using ok u room sizedD(3)[OF r] h(1) by (simp add: ec_ok_def)
  ultimately show ?thesis by simp
qed

lemma od_set_new: "k \<notin> fst ` set xs \<Longrightarrow> od_set xs k v = xs @ [(k, v)]"
  by (induction xs k v rule: od_set.induct) auto

lemma free_encoder_input_ok:
  assumes ok: "ec_ok sz e" and r: "sized sz r" "i < length (mm_positions r)" and h: "h = mm_hashes r ! i"
  shows "\<exists>e'. free_encoder_input e r i = Inr e' \<and> ec_ok sz e' \<and> dom (cached e') = dom (cached e)
    \<and> (\<forall>h'. cached e' h' = (if h' = h then map_option (\<lambda>refs. refs - {request_id r}) (cached e h) else cached e h'))
    \<and> num_free_slots e' = num_free_slots e \<and> num_freeable_slots e \<le> num_freeable_slots e' \<and> freed e' = freed e \<and> cache_size e' = cache_size e"
proof (cases "cached e h = None \<or> cached e h = Some {}")
  case True
  then show ?thesis using ok sizedD(1)[OF r] h by (auto simp: free_encoder_input_def)
next
  case False
  then obtain refs where c: "cached e h = Some refs" "refs \<noteq> {}" by auto
  note D = ec_okD[OF ok]
  have hd: "h \<in> dom (cached e)" using c by auto
  note dom = dom_upd_cached[OF hd, of "refs - {request_id r}"]
  show ?thesis
  proof (cases "refs - {request_id r} = {}")
    case False
    let ?e = "e\<lparr>cached := (cached e)(h \<mapsto> refs - {request_id r})\<rparr>"
    have "unreferenced ?e = unreferenced e" using False c by (auto simp: unreferenced_def)
    then have "ec_ok sz ?e" using ok dom by (simp add: ec_ok_def)
    then show ?thesis using sizedD(1)[OF r] h c False dom by (intro exI[of _ ?e]) (simp add: free_encoder_input_def Let_def)
  next
    case True
    have hu: "h \<notin> unreferenced e" using c by (auto simp: unreferenced_def)
    let ?e = "e\<lparr>cached := (cached e)(h \<mapsto> {}), freeable := freeable e @ [(h, sz h)], num_freeable_slots := num_freeable_slots e + sz h\<rparr>"
    have u: "unreferenced ?e = insert h (unreferenced e)" by (auto simp: unreferenced_def)
    have f: "od_set (freeable e) h n = freeable e @ [(h, n)]" for n using hu D(3) by (intro od_set_new) simp
    have "sum sz (insert h (unreferenced e)) = sz h + sum sz (unreferenced e)" using D(9) hu by (rule sum.insert)
    then have "ec_ok sz ?e" using ok dom_upd_cached[OF hd, of "{}"] u hu D(3) by (auto simp: ec_ok_def)
    moreover have "free_encoder_input e r i = Inr ?e" using sizedD[OF r] h c f by (simp add: free_encoder_input_def Let_def True)
    ultimately show ?thesis using True c dom_upd_cached[OF hd, of "{}"] D(5)[OF hd] by (intro exI[of _ ?e]) simp
  qed
qed

lemma free_inputs_ok:
  assumes r: "sized sz r"
  shows "ec_ok sz e \<Longrightarrow> set is \<subseteq> {..<length (mm_positions r)} \<Longrightarrow> \<exists>e'. free_inputs e r is = Inr e' \<and> ec_ok sz e' \<and> dom (cached e') = dom (cached e)
    \<and> (\<forall>h. cached e' h = (if h \<in> (!) (mm_hashes r) ` set is then map_option (\<lambda>refs. refs - {request_id r}) (cached e h) else cached e h))
    \<and> num_free_slots e' = num_free_slots e \<and> num_freeable_slots e \<le> num_freeable_slots e' \<and> freed e' = freed e \<and> cache_size e' = cache_size e"
proof (induction "is" arbitrary: e)
  case (Cons i "is")
  have i: "i < length (mm_positions r)" using Cons.prems(2) by simp
  obtain e1 where 1: "free_encoder_input e r i = Inr e1" "ec_ok sz e1" "dom (cached e1) = dom (cached e)"
    "\<forall>h. cached e1 h = (if h = mm_hashes r ! i then map_option (\<lambda>refs. refs - {request_id r}) (cached e (mm_hashes r ! i)) else cached e h)"
    "num_free_slots e1 = num_free_slots e" "num_freeable_slots e \<le> num_freeable_slots e1" "freed e1 = freed e" "cache_size e1 = cache_size e"
    using free_encoder_input_ok[OF Cons.prems(1) r i refl] by blast
  obtain e2 where 2: "free_inputs e1 r is = Inr e2" "ec_ok sz e2" "dom (cached e2) = dom (cached e1)"
    "\<forall>h. cached e2 h = (if h \<in> (!) (mm_hashes r) ` set is then map_option (\<lambda>refs. refs - {request_id r}) (cached e1 h) else cached e1 h)"
    "num_free_slots e2 = num_free_slots e1" "num_freeable_slots e1 \<le> num_freeable_slots e2" "freed e2 = freed e1" "cache_size e2 = cache_size e1"
    using Cons.IH[OF 1(2)] Cons.prems(2) by auto
  have "cached e2 h = (if h \<in> (!) (mm_hashes r) ` set (i # is) then map_option (\<lambda>refs. refs - {request_id r}) (cached e h) else cached e h)" for h
    using 1(4) 2(4) by (cases "cached e h") (auto simp: option.map_comp comp_def)
  moreover have "free_inputs e r (i # is) = Inr e2" using 1(1) 2(1) by simp
  moreover have "dom (cached e2) = dom (cached e)" using 1(3) 2(3) by metis
  moreover have "num_free_slots e2 = num_free_slots e" "num_freeable_slots e \<le> num_freeable_slots e2" "freed e2 = freed e" "cache_size e2 = cache_size e"
    using 1(5-8) 2(5-8) by simp_all
  ultimately show ?case using 2(2) by blast
qed simp

definition iterates :: "set_iter \<Rightarrow> bool" where
  "iterates set_iter \<longleftrightarrow> (\<forall>xs. set (set_iter xs) = set xs)"

lemma ec_free_ok:
  assumes ok: "ec_ok sz e" and r: "sized sz r" and it: "iterates set_iter"
  shows "\<exists>e'. ec_free set_iter e r = Inr e' \<and> ec_ok sz e' \<and> dom (cached e') = dom (cached e)
    \<and> (\<forall>h. cached e' h = (if h \<in> set (mm_hashes r) then map_option (\<lambda>refs. refs - {request_id r}) (cached e h) else cached e h))
    \<and> num_free_slots e' = num_free_slots e \<and> num_freeable_slots e \<le> num_freeable_slots e' \<and> freed e' = freed e \<and> cache_size e' = cache_size e"
proof -
  let ?is = "set_iter (get_cached_input_ids e r)"
  have s: "set ?is = {i. i < length (mm_hashes r) \<and> cached e (mm_hashes r ! i) \<noteq> None}" using it by (auto simp: iterates_def get_cached_input_ids_def)
  then have "set ?is \<subseteq> {..<length (mm_positions r)}" using r by (auto simp: sized_def)
  from free_inputs_ok[OF r ok this] obtain e' where e': "free_inputs e r ?is = Inr e'" "ec_ok sz e'" "dom (cached e') = dom (cached e)"
    "\<forall>h. cached e' h = (if h \<in> (!) (mm_hashes r) ` set ?is then map_option (\<lambda>refs. refs - {request_id r}) (cached e h) else cached e h)"
    "num_free_slots e' = num_free_slots e" "num_freeable_slots e \<le> num_freeable_slots e'" "freed e' = freed e" "cache_size e' = cache_size e" by blast
  have "(!) (mm_hashes r) ` set ?is = {h \<in> set (mm_hashes r). cached e h \<noteq> None}" unfolding s by (auto simp: in_set_conv_nth)
  then have "\<forall>h. cached e' h = (if h \<in> set (mm_hashes r) then map_option (\<lambda>refs. refs - {request_id r}) (cached e h) else cached e h)" using e'(4) by auto
  then show ?thesis using e' by (intro exI[of _ e']) (simp add: ec_free_def)
qed

section \<open>Runs of the encoder cache\<close>

text \<open>The calls of the scheduler for decoder-only models: an input is allocated after it was found not to be cached and to fit.\<close>

inductive ec_run :: "(mm_hash \<Rightarrow> int) \<Rightarrow> encoder_cache \<Rightarrow> bool" for sz :: "mm_hash \<Rightarrow> int" where
  start: "0 \<le> n \<Longrightarrow> ec_run sz (init_encoder_cache n)"
| look_up: "ec_run sz e \<Longrightarrow> sized sz r \<Longrightarrow> i < length (mm_positions r) \<Longrightarrow> check_and_update_cache e r i = Inr (b, e') \<Longrightarrow> ec_run sz e'"
| make_room: "ec_run sz e \<Longrightarrow> sized sz r \<Longrightarrow> i < length (mm_positions r) \<Longrightarrow> can_allocate e r i budget extra = Inr (b, e') \<Longrightarrow> ec_run sz e'"
| insert: "ec_run sz e \<Longrightarrow> sized sz r \<Longrightarrow> i < length (mm_positions r) \<Longrightarrow> mm_hashes r ! i \<notin> dom (cached e) \<Longrightarrow> sz (mm_hashes r ! i) \<le> num_free_slots e
    \<Longrightarrow> ec_allocate e r i = Inr e' \<Longrightarrow> ec_run sz e'"
| release: "ec_run sz e \<Longrightarrow> sized sz r \<Longrightarrow> i < length (mm_positions r) \<Longrightarrow> free_encoder_input e r i = Inr e' \<Longrightarrow> ec_run sz e'"
| finish: "ec_run sz e \<Longrightarrow> sized sz r \<Longrightarrow> iterates set_iter \<Longrightarrow> ec_free set_iter e r = Inr e' \<Longrightarrow> ec_run sz e'"
| report: "ec_run sz e \<Longrightarrow> ec_run sz (snd (get_freed_mm_hashes e))"

lemma ec_run_ok: "ec_run sz e \<Longrightarrow> ec_ok sz e"
proof (induction rule: ec_run.induct)
  case (start n)
  then show ?case by (rule init_encoder_cache_ok)
next
  case (look_up e r i b e')
  then show ?case using check_and_update_cache_ok[OF look_up(5,2,3) refl] by auto
next
  case (make_room e r i budget extra b e')
  then show ?case using can_allocate_ok[OF make_room(5,2,3) refl, of budget extra] by auto
next
  case (insert e r i e')
  then show ?case using ec_allocate_ok[OF insert(7,2,3) refl insert(4,5)] by auto
next
  case (release e r i e')
  then show ?case using free_encoder_input_ok[OF release(5,2,3) refl] by auto
next
  case (finish e r set_iter e')
  then show ?case using ec_free_ok[OF finish(5,2,3)] by auto
next
  case (report e)
  then show ?case by (simp add: ec_ok_def get_freed_mm_hashes_def unreferenced_def)
qed

text \<open>C24. The encoder cache. In every state its calls can reach, the slots in use are those of the cached entries, the slots that can be reclaimed are
  the free ones and those of the entries no request references, and there are never less than 0 or more than all slots free. Asking for room never raises: the
  answer is whether the input fits the budget and, together with the inputs chosen before it, the reclaimable slots, and then that room is free. Room is made by evicting
  the oldest unreferenced entries, each reported once; an entry that a request references stays. (The docstrings differ: \<open>can_allocate\<close> is said to refuse for lack of capacity only, and
  \<open>num_freeable_slots\<close> to count the unreferenced entries only.)\<close>

theorem encoder_cache_accounting:
  assumes run: "ec_run sz e"
  shows "num_free_slots e = cache_size e - sum sz (dom (cached e)) \<and> 0 \<le> num_free_slots e \<and> num_free_slots e \<le> cache_size e
    \<and> num_freeable_slots e = num_free_slots e + sum sz {h. cached e h = Some {}} \<and> fst ` set (freeable e) = {h. cached e h = Some {}}
    \<and> (\<forall>r i budget extra. sized sz r \<and> i < length (mm_positions r) \<longrightarrow>
        (\<exists>e' k. can_allocate e r i budget extra
            = Inr (mm_length (mm_positions r ! i) \<le> budget \<and> mm_length (mm_positions r ! i) + extra \<le> num_freeable_slots e, e')
          \<and> (mm_length (mm_positions r ! i) \<le> budget \<and> mm_length (mm_positions r ! i) + extra \<le> num_freeable_slots e \<longrightarrow>
               mm_length (mm_positions r ! i) + extra \<le> num_free_slots e')
          \<and> freed e' = freed e @ map fst (take k (freeable e)) \<and> distinct (map fst (take k (freeable e))) \<and> freeable e' = drop k (freeable e)
          \<and> (\<forall>h refs. cached e h = Some refs \<and> refs \<noteq> {} \<longrightarrow> cached e' h = Some refs)))"
proof -
  have ok: "ec_ok sz e" by (rule ec_run_ok[OF run])
  note D = ec_okD[OF ok]
  have pos: "0 \<le> sum sz (dom (cached e))" by (rule sum_nonneg) (use D(5) in auto)
  have "\<exists>e' k. can_allocate e r i budget extra
            = Inr (mm_length (mm_positions r ! i) \<le> budget \<and> mm_length (mm_positions r ! i) + extra \<le> num_freeable_slots e, e')
          \<and> (mm_length (mm_positions r ! i) \<le> budget \<and> mm_length (mm_positions r ! i) + extra \<le> num_freeable_slots e \<longrightarrow>
               mm_length (mm_positions r ! i) + extra \<le> num_free_slots e')
          \<and> freed e' = freed e @ map fst (take k (freeable e)) \<and> distinct (map fst (take k (freeable e))) \<and> freeable e' = drop k (freeable e)
          \<and> (\<forall>h refs. cached e h = Some refs \<and> refs \<noteq> {} \<longrightarrow> cached e' h = Some refs)"
    if r: "sized sz r" "i < length (mm_positions r)" for r i budget extra
  proof -
    have n: "mm_length (mm_positions r ! i) = sz (mm_hashes r ! i)" using r by (simp add: sized_def)
    obtain e' k where c: "can_allocate e r i budget extra = Inr (sz (mm_hashes r ! i) \<le> budget \<and> sz (mm_hashes r ! i) + extra \<le> num_freeable_slots e, e')"
      "sz (mm_hashes r ! i) \<le> budget \<and> sz (mm_hashes r ! i) + extra \<le> num_freeable_slots e \<longrightarrow> sz (mm_hashes r ! i) + extra \<le> num_free_slots e'"
      "freeable e' = drop k (freeable e)" "freed e' = freed e @ map fst (take k (freeable e))"
      "cached e' = (cached e) |` (- set (map fst (take k (freeable e))))" using can_allocate_ok[OF ok r refl, of budget extra] by blast
    have "distinct (map fst (take k (freeable e)))" using D(1) by (simp add: take_map[symmetric])
    moreover have "h \<notin> set (map fst (take k (freeable e)))" if "cached e h = Some refs" "refs \<noteq> {}" for h refs
    proof -
      have "h \<notin> fst ` set (freeable e)" unfolding D(3) using that by (simp add: unreferenced_def)
      then show ?thesis by (auto dest!: in_set_takeD intro: rev_image_eqI)
    qed
    then have "\<forall>h refs. cached e h = Some refs \<and> refs \<noteq> {} \<longrightarrow> cached e' h = Some refs" using c(5) by (simp add: restrict_map_def)
    ultimately show ?thesis unfolding n using c(1-4) by blast
  qed
  then show ?thesis using D(3,6,7,8) pos by (simp add: unreferenced_def)
qed

definition demo_mm_request :: "string \<Rightarrow> string \<Rightarrow> sched_request" where
  "demo_mm_request rid h = (demo_sched_request rid (replicate 8 7) 0 0)\<lparr>mm_positions := [\<lparr>offset = 1, mm_length = 4\<rparr>], mm_hashes := [Some h]\<rparr>"

lemma demo_mm_request_sized: "sized (\<lambda>_. 4) (demo_mm_request rid h)"
  by (simp add: demo_mm_request_def sized_def)

lemma demo_encoder_state:
  "bindE (ec_allocate (init_encoder_cache 6) (demo_mm_request ''a'' ''h'') 0) (\<lambda>e. free_encoder_input e (demo_mm_request ''a'' ''h'') 0)
   = Inr \<lparr>cache_size = 6, num_free_slots = 2, num_freeable_slots = 6, cached = [Some ''h'' \<mapsto> {}], freeable = [(Some ''h'', 4)], freed = []\<rparr>"
  by (simp add: ec_allocate_def free_encoder_input_def init_encoder_cache_def mm_hash_at_def get_num_encoder_tokens_def demo_mm_request_def
      demo_sched_request_eq Let_def)

text \<open>An unreferenced entry of four tokens in a cache of six: a request with another input of four tokens is let in.\<close>

theorem encoder_cache_accounting_witness:
  "\<exists>e e' k. ec_run (\<lambda>_. 4) e \<and> num_free_slots e = 2 \<and> num_freeable_slots e = 6
    \<and> can_allocate e (demo_mm_request ''b'' ''i'') 0 5 0 = Inr (True, e') \<and> 4 \<le> num_free_slots e' \<and> freed e' = map fst (take k [(Some ''h'', 4 :: int)])"
proof -
  let ?a = "demo_mm_request ''a'' ''h''" and ?b = "demo_mm_request ''b'' ''i''"
  obtain e1 where e1: "ec_allocate (init_encoder_cache 6) ?a 0 = Inr e1" "free_encoder_input e1 ?a 0
      = Inr \<lparr>cache_size = 6, num_free_slots = 2, num_freeable_slots = 6, cached = [Some ''h'' \<mapsto> {}], freeable = [(Some ''h'', 4)], freed = []\<rparr>"
    using demo_encoder_state by (auto simp: result_simps)
  have z: "0 < length (mm_positions ?a)" "0 < length (mm_positions ?b)" "mm_length (mm_positions ?b ! 0) = 4" by (simp_all add: demo_mm_request_def)
  have "ec_run (\<lambda>_. 4) e1"
    by (rule ec_run.insert[OF ec_run.start demo_mm_request_sized z(1) _ _ e1(1)]) (simp_all add: init_encoder_cache_def)
  from ec_run.release[OF this demo_mm_request_sized z(1) e1(2)]
  have run: "ec_run (\<lambda>_. 4) \<lparr>cache_size = 6, num_free_slots = 2, num_freeable_slots = 6, cached = [Some ''h'' \<mapsto> {}], freeable = [(Some ''h'', 4)], freed = []\<rparr>" .
  note P = encoder_cache_accounting[OF run, THEN conjunct2, THEN conjunct2, THEN conjunct2, THEN conjunct2, THEN conjunct2, rule_format,
      OF conjI[OF demo_mm_request_sized z(2)], of 5 0, unfolded z(3)]
  from P obtain e' k where "can_allocate \<lparr>cache_size = 6, num_free_slots = 2, num_freeable_slots = 6, cached = [Some ''h'' \<mapsto> {}], freeable = [(Some ''h'', 4)], freed = []\<rparr> ?b 0 5 0
      = Inr (True, e')" "4 \<le> num_free_slots e'" "freed e' = map fst (take k [(Some ''h'', 4 :: int)])" by auto
  then show ?thesis using run
    by (intro exI[of _ "\<lparr>cache_size = 6, num_free_slots = 2, num_freeable_slots = 6, cached = [Some ''h'' \<mapsto> {}], freeable = [(Some ''h'', 4)], freed = []\<rparr>"] exI[of _ e'] exI[of _ k]) simp
qed

end
