(* ===== verification/Scheduler.thy ===== *)
theory Scheduler
  imports Request_Queue Encoder_Cache KV_Coordinator
begin

text \<open>
  \<open>vllm/v1/core/sched/scheduler.py\<close> and \<open>async_scheduler.py\<close>: the scheduler of the engine, over the request queues, the encoder cache and the
  KV-cache manager. The model is that of a scheduler without a KV connector (\<open>self.connector is None\<close>, no \<open>kv_transfer_config\<close>): what the code asks the
  connector is not asked, a request in the state \<open>WAITING_FOR_REMOTE_KVS\<close> fails the assertion at the head of \<open>_update_waiting_for_remote_kv\<close>, and blocks are freed at once.

  Requests are objects that the queues, the table \<open>requests\<close> and the output share: \<open>objs\<close> is the store of their fields. What other parts decide while the scheduler runs
  (clock, grammars, the order in which a set is iterated) is the argument \<open>env\<close>.
\<close>

section \<open>State\<close>

record sched_config =
  policy :: scheduling_policy
  max_num_running_reqs :: nat
  max_num_scheduled_tokens :: int
  max_model_len :: int
  long_prefill_token_threshold :: int
  chunked_prefill_enabled :: bool
  no_chunked_mm_input :: bool
  is_encoder_decoder :: bool
  is_whisper :: bool
  encdec_max_encoder_len :: nat
  max_loras :: "nat option"
  num_lookahead_tokens :: nat
  num_spec_tokens :: nat
  use_pp :: bool
  sched_log_stats :: bool
  encoder_token_budget :: int
  async_scheduling :: bool

record sched_env =
  env_now :: real
  grammar_ready :: "rref \<Rightarrow> bool"
  set_order :: set_iter
  fill_bitmask :: "(string \<times> nat) list \<Rightarrow> (string \<rightharpoonup> int list) \<Rightarrow> int list list"
  hasher :: block_hasher
  should_advance :: "sched_request \<Rightarrow> bool"
  validate_tokens :: "int list \<Rightarrow> int list \<Rightarrow> int list"

record scheduler =
  objs :: objects
  requests :: "string \<rightharpoonup> rref"
  waiting :: request_queue
  running :: "rref list"
  finished_req_ids :: "string set"
  finished_req_ids_dict :: "(int \<times> string set) list option"
  encoder :: encoder_cache
  kv :: kv_manager

definition upd_obj :: "scheduler \<Rightarrow> rref \<Rightarrow> (sched_request \<Rightarrow> sched_request) \<Rightarrow> scheduler" where
  "upd_obj s x f = s\<lparr>objs := (objs s)(x := f (objs s x))\<rparr>"

definition init_scheduler :: "sched_config \<Rightarrow> bool \<Rightarrow> objects \<Rightarrow> int \<Rightarrow> kv_manager \<Rightarrow> scheduler" where
  "init_scheduler c include_finished_set os encoder_size k =
     \<lparr>objs = os, requests = Map.empty, waiting = create_request_queue (policy c), running = [], finished_req_ids = {},
      finished_req_ids_dict = (if include_finished_set then Some [] else None), encoder = init_encoder_cache encoder_size, kv = k\<rparr>"

text \<open>The local variables of \<open>schedule\<close>.\<close>

record sched_local =
  scheduled_new_reqs :: "rref list"
  scheduled_resumed_reqs :: "rref list"
  scheduled_running_reqs :: "rref list"
  preempted_reqs :: "rref list"
  req_to_new_blocks :: "string \<rightharpoonup> bref list list"
  num_scheduled_tokens :: "(string \<times> int) list"
  token_budget :: int
  scheduled_encoder_inputs :: "string \<rightharpoonup> nat list"
  encoder_compute_budget :: int
  scheduled_spec_decode_tokens :: "string \<rightharpoonup> int list"

definition init_local :: "sched_config \<Rightarrow> sched_local" where
  "init_local c =
     \<lparr>scheduled_new_reqs = [], scheduled_resumed_reqs = [], scheduled_running_reqs = [], preempted_reqs = [], req_to_new_blocks = Map.empty,
      num_scheduled_tokens = [], token_budget = max_num_scheduled_tokens c, scheduled_encoder_inputs = Map.empty,
      encoder_compute_budget = encoder_token_budget c, scheduled_spec_decode_tokens = Map.empty\<rparr>"

section \<open>Encoder inputs of a step\<close>

fun enc_loop ::
  "sched_config \<Rightarrow> sched_request \<Rightarrow> int \<Rightarrow> (nat \<times> mm_position) list \<Rightarrow> encoder_cache \<Rightarrow> int \<Rightarrow> int \<Rightarrow> mm_hash list \<Rightarrow> int \<Rightarrow> nat list
   \<Rightarrow> ((nat list \<times> int \<times> int) \<times> encoder_cache) result" where
  "enc_loop c r n_computed [] e n_new budget hs n_sched ins = Inr ((ins, n_new, budget), e)"
| "enc_loop c r n_computed ((i, pos) # rest) e n_new budget hs n_sched ins =
     (let start_pos = offset pos; num_encoder_tokens = mm_length pos
      in if start_pos \<ge> n_computed + n_new then Inr ((ins, n_new, budget), e)
         else if is_encoder_decoder c \<and> n_computed > 0
         then (if start_pos \<noteq> 0 then Inl AssertionError else enc_loop c r n_computed rest e n_new budget hs n_sched ins)
         else if start_pos + num_encoder_tokens \<le> n_computed then enc_loop c r n_computed rest e n_new budget hs n_sched ins
         else bindE (if is_encoder_decoder c then Inr (False, e)
                     else bindE (mm_hash_at r i) (\<lambda>h. if h \<in> set hs then Inr (True, e) else check_and_update_cache e r i)) (\<lambda>(present, e1).
           if present then enc_loop c r n_computed rest e1 n_new budget hs n_sched ins
           else if no_chunked_mm_input c \<and> n_computed < start_pos \<and> n_computed + n_new < start_pos + num_encoder_tokens
           then Inr ((ins, start_pos - n_computed, budget), e1)
           else bindE (can_allocate e1 r i budget n_sched) (\<lambda>(fits, e2).
             if \<not> fits then Inr ((ins, if n_computed < start_pos then start_pos - n_computed else 0, budget), e2)
             else bindE (mm_hash_at r i) (\<lambda>h.
               enc_loop c r n_computed rest e2 n_new (budget - num_encoder_tokens) (h # hs) (n_sched + num_encoder_tokens) (ins @ [i])))))"

definition try_schedule_encoder_inputs ::
  "sched_config \<Rightarrow> encoder_cache \<Rightarrow> sched_request \<Rightarrow> int \<Rightarrow> int \<Rightarrow> int \<Rightarrow> ((nat list \<times> int \<times> int) \<times> encoder_cache) result" where
  "try_schedule_encoder_inputs c e r n_computed n_new budget =
     (if n_new = 0 \<or> \<not> has_encoder_inputs r then Inr (([], n_new, budget), e)
      else enc_loop c r n_computed (enumerate 0 (mm_positions r)) e n_new budget [] 0 [])"

text \<open>The call in both loops of \<open>schedule\<close>, made only for requests with encoder inputs.\<close>

definition encoder_step :: "sched_config \<Rightarrow> scheduler \<Rightarrow> sched_request \<Rightarrow> int \<Rightarrow> int \<Rightarrow> int \<Rightarrow> (nat list \<times> int \<times> int \<times> scheduler) result" where
  "encoder_step c s r n_computed n_new budget =
     (if has_encoder_inputs r
      then bindE (try_schedule_encoder_inputs c (encoder s) r n_computed n_new budget) (\<lambda>((ins, n, b), e). Inr (ins, n, b, s\<lparr>encoder := e\<rparr>))
      else Inr ([], n_new, budget, s))"

fun allocate_inputs :: "encoder_cache \<Rightarrow> sched_request \<Rightarrow> nat list \<Rightarrow> encoder_cache result" where
  "allocate_inputs e r [] = Inr e"
| "allocate_inputs e r (i # is) = bindE (ec_allocate e r i) (\<lambda>e'. allocate_inputs e' r is)"

section \<open>Preemption\<close>

text \<open>\<open>max(_, key=_)\<close>: the first of the largest.\<close>

definition max_by :: "('a \<Rightarrow> 'k::linorder) \<Rightarrow> 'a list \<Rightarrow> 'a" where
  "max_by key xs = foldl (\<lambda>m x. if key m < key x then x else m) (hd xs) (tl xs)"

lemma max_by_in: "xs \<noteq> [] \<Longrightarrow> max_by key xs \<in> set xs"
proof -
  have "foldl (\<lambda>m x. if key m < key x then x else m) a ys \<in> insert a (set ys)" for a ys by (induction ys arbitrary: a) auto
  then show "xs \<noteq> [] \<Longrightarrow> max_by key xs \<in> set xs" unfolding max_by_def by (cases xs) auto
qed

definition pick_victim :: "sched_config \<Rightarrow> scheduler \<Rightarrow> sched_local \<Rightarrow> (rref \<times> scheduler \<times> sched_local) result" where
  "pick_victim c s l =
     (case policy c of
        PRIORITY \<Rightarrow>
          if running s = [] then Inl ValueError
          else (let y = max_by (\<lambda>x. (priority (objs s x), arrival_time (objs s x))) (running s)
                in Inr (y, s\<lparr>running := remove1 y (running s)\<rparr>,
                        if y \<in> set (scheduled_running_reqs l) then l\<lparr>scheduled_running_reqs := remove1 y (scheduled_running_reqs l)\<rparr> else l))
      | FCFS \<Rightarrow> if running s = [] then Inl IndexError else Inr (last (running s), s\<lparr>running := butlast (running s)\<rparr>, l))"

definition preempted :: "sched_config \<Rightarrow> real \<Rightarrow> sched_request \<Rightarrow> sched_request" where
  "preempted c now r =
     (let r' = r\<lparr>status := PREEMPTED, num_computed_tokens := 0\<rparr> in if sched_log_stats c then record_event r' EV_PREEMPTED now else r')"

definition preempt :: "sched_config \<Rightarrow> sched_env \<Rightarrow> scheduler \<Rightarrow> sched_local \<Rightarrow> (rref \<times> scheduler \<times> sched_local) result" where
  "preempt c env s l =
     bindE (pick_victim c s l) (\<lambda>(y, s1, l1).
     bindE (km_free (kv s1) (kv_request (objs s1 y))) (\<lambda>k.
     bindE (ec_free (set_order env) (encoder s1) (objs s1 y)) (\<lambda>e.
     let s2 = upd_obj (s1\<lparr>kv := k, encoder := e\<rparr>) y (preempted c (env_now env))
     in bindE (rq_prepend (objs s2) (waiting s2) y) (\<lambda>w.
          Inr (y, s2\<lparr>waiting := w\<rparr>, l1\<lparr>preempted_reqs := preempted_reqs l1 @ [y]\<rparr>)))))"

lemma pick_victim_running:
  assumes "pick_victim c s l = Inr (y, s', l')"
  shows "y \<in> set (running s)" "Suc (length (running s')) = length (running s)"
proof -
  have m: "max_by key (running s) \<in> set (running s)" if "running s \<noteq> []" for key :: "rref \<Rightarrow> int \<times> real" by (rule max_by_in[OF that])
  have len: "Suc (length (remove1 x (running s))) = length (running s)" if "x \<in> set (running s)" for x
    using that length_pos_if_in_set[OF that] by (simp add: length_remove1)
  show "y \<in> set (running s)" "Suc (length (running s')) = length (running s)"
    using assms m len by (auto simp: pick_victim_def Let_def split: scheduling_policy.splits if_splits)
qed

lemma preempt_running:
  assumes "preempt c env s l = Inr (y, s', l')"
  shows "Suc (length (running s')) = length (running s)" "y \<in> set (running s)"
proof -
  obtain s1 l1 where "pick_victim c s l = Inr (y, s1, l1)" "running s' = running s1"
    using assms by (auto simp: preempt_def upd_obj_def result_simps Let_def)
  then show "Suc (length (running s')) = length (running s)" "y \<in> set (running s)" using pick_victim_running[of c s l] by auto
qed

text \<open>The loop \<open>while True\<close> around \<open>allocate_slots\<close>: it ends because every preemption shortens \<open>running\<close>.\<close>

function allocate_or_preempt ::
  "sched_config \<Rightarrow> sched_env \<Rightarrow> rref \<Rightarrow> int \<Rightarrow> scheduler \<Rightarrow> sched_local \<Rightarrow> (bref list list option \<times> scheduler \<times> sched_local) result" where
  "allocate_or_preempt c env x n s l =
     bindE (allocate_slots (kv s) (kv_request (objs s x)) n 0 None (num_lookahead_tokens c) False 0) (\<lambda>(res, k).
       case res of
         Some bs \<Rightarrow> Inr (Some bs, s\<lparr>kv := k\<rparr>, l)
       | None \<Rightarrow> bindE (preempt c env (s\<lparr>kv := k\<rparr>) l) (\<lambda>(y, s', l').
                   if y = x then Inr (None, s', l') else allocate_or_preempt c env x n s' l'))"
  by pat_completeness auto
termination
  by (relation "measure (\<lambda>(c, env, x, n, s, l). length (running s))") (auto dest!: preempt_running(1))

declare allocate_or_preempt.simps [simp del]

section \<open>Running requests\<close>

definition cap_tokens :: "sched_config \<Rightarrow> int \<Rightarrow> int" where
  "cap_tokens c n = (if 0 < long_prefill_token_threshold c \<and> long_prefill_token_threshold c < n then long_prefill_token_threshold c else n)"

definition running_new_tokens :: "sched_config \<Rightarrow> sched_request \<Rightarrow> int \<Rightarrow> int" where
  "running_new_tokens c r budget =
     min (min (cap_tokens c (num_tokens_with_spec r + num_output_placeholders r - num_computed_tokens r)) budget)
       (max_model_len c - 1 - num_computed_tokens r)"

text \<open>What is recorded for a scheduled request; speculative tokens beyond the scheduled ones are dropped from the request.\<close>

definition trim_spec :: "rref \<Rightarrow> int \<Rightarrow> scheduler \<Rightarrow> sched_local \<Rightarrow> scheduler \<times> sched_local" where
  "trim_spec x n s l =
     (let r = objs s x; num_scheduled_spec_tokens = n + num_computed_tokens r - num_req_tokens r
      in if spec_token_ids r \<noteq> [] \<and> num_scheduled_spec_tokens > 0
         then (let toks = take (nat num_scheduled_spec_tokens) (spec_token_ids r)
               in (upd_obj s x (\<lambda>r. r\<lparr>spec_token_ids := toks\<rparr>),
                   l\<lparr>scheduled_spec_decode_tokens := (scheduled_spec_decode_tokens l)(request_id r \<mapsto> toks)\<rparr>))
         else (s, l))"

definition commit_encoder :: "rref \<Rightarrow> nat list \<Rightarrow> int \<Rightarrow> scheduler \<Rightarrow> sched_local \<Rightarrow> (scheduler \<times> sched_local) result" where
  "commit_encoder x ins budget s l =
     (if ins = [] then Inr (s, l)
      else bindE (allocate_inputs (encoder s) (objs s x) ins) (\<lambda>e.
             Inr (s\<lparr>encoder := e\<rparr>, l\<lparr>scheduled_encoder_inputs := (scheduled_encoder_inputs l)(request_id (objs s x) \<mapsto> ins),
                                    encoder_compute_budget := budget\<rparr>)))"

definition book_tokens :: "string \<Rightarrow> bref list list \<Rightarrow> int \<Rightarrow> sched_local \<Rightarrow> sched_local" where
  "book_tokens rid bs n l =
     l\<lparr>req_to_new_blocks := (req_to_new_blocks l)(rid \<mapsto> bs), num_scheduled_tokens := od_set (num_scheduled_tokens l) rid n,
       token_budget := token_budget l - n\<rparr>"

text \<open>One iteration; \<open>False\<close> means \<open>break\<close>.\<close>

definition running_step :: "sched_config \<Rightarrow> sched_env \<Rightarrow> rref \<Rightarrow> scheduler \<Rightarrow> sched_local \<Rightarrow> (bool \<times> scheduler \<times> sched_local) result" where
  "running_step c env x s l =
     (let r = objs s x
      in bindE (encoder_step c s r (num_computed_tokens r) (running_new_tokens c r (token_budget l)) (encoder_compute_budget l)) (\<lambda>(ins, n, b, s1).
           if n = 0 then Inr (True, s1, l)
           else bindE (allocate_or_preempt c env x n s1 l) (\<lambda>(res, s2, l2).
             case res of
               None \<Rightarrow> Inr (False, s2, l2)
             | Some bs \<Rightarrow>
                 (let l3 = book_tokens (request_id (objs s2 x)) bs n (l2\<lparr>scheduled_running_reqs := scheduled_running_reqs l2 @ [x]\<rparr>);
                      (s4, l4) = trim_spec x n s2 l3
                  in bindE (commit_encoder x ins b s4 l4) (\<lambda>(s5, l5). Inr (True, s5, l5))))))"

lemma allocate_or_preempt_running:
  "allocate_or_preempt c env x n s l = Inr (res, s', l') \<Longrightarrow> length (running s') \<le> length (running s)"
proof (induction "length (running s)" arbitrary: s l rule: less_induct)
  case less
  obtain r0 k where a: "allocate_slots (kv s) (kv_request (objs s x)) n 0 None (num_lookahead_tokens c) False 0 = Inr (r0, k)"
    "(case r0 of Some bs \<Rightarrow> Inr (Some bs, s\<lparr>kv := k\<rparr>, l)
      | None \<Rightarrow> bindE (preempt c env (s\<lparr>kv := k\<rparr>) l) (\<lambda>(y, s', l'). if y = x then Inr (None, s', l') else allocate_or_preempt c env x n s' l'))
     = Inr (res, s', l')"
    using less.prems by (subst (asm) allocate_or_preempt.simps) (auto simp: result_simps)
  show ?case
  proof (cases r0)
    case None
    then obtain y s1 l1 where p: "preempt c env (s\<lparr>kv := k\<rparr>) l = Inr (y, s1, l1)"
      "(if y = x then Inr (None, s1, l1) else allocate_or_preempt c env x n s1 l1) = Inr (res, s', l')"
      using a(2) by (auto simp: result_simps)
    have "Suc (length (running s1)) = length (running s)" using preempt_running(1)[OF p(1)] by simp
    then show ?thesis using p(2) less.hyps[of s1 l1] by (auto split: if_splits)
  qed (use a(2) in auto)
qed

lemma encoder_step_frame:
  assumes "encoder_step c s r n_computed n_new budget = Inr (ins, n, b, s')"
  shows "objs s' = objs s" "requests s' = requests s" "waiting s' = waiting s" "running s' = running s" "kv s' = kv s"
    "finished_req_ids s' = finished_req_ids s" "finished_req_ids_dict s' = finished_req_ids_dict s"
  using assms by (auto simp: encoder_step_def result_simps split: if_splits)

lemma trim_spec_frame:
  assumes "trim_spec x n s l = (s', l')"
  shows "requests s' = requests s" "waiting s' = waiting s" "running s' = running s" "kv s' = kv s" "encoder s' = encoder s"
    "finished_req_ids s' = finished_req_ids s" "finished_req_ids_dict s' = finished_req_ids_dict s"
  using assms by (auto simp: trim_spec_def upd_obj_def Let_def split: if_splits)

lemma commit_encoder_frame:
  assumes "commit_encoder x ins b s l = Inr (s', l')"
  shows "objs s' = objs s" "requests s' = requests s" "waiting s' = waiting s" "running s' = running s" "kv s' = kv s"
    "finished_req_ids s' = finished_req_ids s" "finished_req_ids_dict s' = finished_req_ids_dict s"
  using assms by (auto simp: commit_encoder_def result_simps split: if_splits)

lemma running_step_cases:
  assumes "running_step c env x s l = Inr (go, s', l')"
  obtains (skip) ins b where "encoder_step c s (objs s x) (num_computed_tokens (objs s x)) (running_new_tokens c (objs s x) (token_budget l)) (encoder_compute_budget l)
      = Inr (ins, 0, b, s')" "go" "l' = l"
  | (stop) ins n b s1 where "encoder_step c s (objs s x) (num_computed_tokens (objs s x)) (running_new_tokens c (objs s x) (token_budget l)) (encoder_compute_budget l)
      = Inr (ins, n, b, s1)" "n \<noteq> 0" "allocate_or_preempt c env x n s1 l = Inr (None, s', l')" "\<not> go"
  | (sched) ins n b s1 bs s2 l2 s4 l4 where "encoder_step c s (objs s x) (num_computed_tokens (objs s x)) (running_new_tokens c (objs s x) (token_budget l)) (encoder_compute_budget l)
      = Inr (ins, n, b, s1)" "n \<noteq> 0" "allocate_or_preempt c env x n s1 l = Inr (Some bs, s2, l2)"
      "trim_spec x n s2 (book_tokens (request_id (objs s2 x)) bs n (l2\<lparr>scheduled_running_reqs := scheduled_running_reqs l2 @ [x]\<rparr>)) = (s4, l4)"
      "commit_encoder x ins b s4 l4 = Inr (s', l')" "go"
proof -
  let ?E = "encoder_step c s (objs s x) (num_computed_tokens (objs s x)) (running_new_tokens c (objs s x) (token_budget l)) (encoder_compute_budget l)"
  obtain ins n b s1 where e: "?E = Inr (ins, n, b, s1)"
    and rest: "(if n = 0 then Inr (True, s1, l) else bindE (allocate_or_preempt c env x n s1 l) (\<lambda>(res, s2, l2).
             case res of
               None \<Rightarrow> Inr (False, s2, l2)
             | Some bs \<Rightarrow>
                 (let l3 = book_tokens (request_id (objs s2 x)) bs n (l2\<lparr>scheduled_running_reqs := scheduled_running_reqs l2 @ [x]\<rparr>);
                      (s4, l4) = trim_spec x n s2 l3
                  in bindE (commit_encoder x ins b s4 l4) (\<lambda>(s5, l5). Inr (True, s5, l5))))) = Inr (go, s', l')"
    using assms unfolding running_step_def Let_def by (rule bindE_InrE4)
  show ?thesis
  proof (cases "n = 0")
    case True
    then show ?thesis using rest e by (intro skip[of ins b]) simp_all
  next
    case False
    from rest[unfolded if_not_P[OF False]] obtain res s2 l2 where a: "allocate_or_preempt c env x n s1 l = Inr (res, s2, l2)"
      and r2: "(case res of
               None \<Rightarrow> Inr (False, s2, l2)
             | Some bs \<Rightarrow>
                 (let l3 = book_tokens (request_id (objs s2 x)) bs n (l2\<lparr>scheduled_running_reqs := scheduled_running_reqs l2 @ [x]\<rparr>);
                      (s4, l4) = trim_spec x n s2 l3
                  in bindE (commit_encoder x ins b s4 l4) (\<lambda>(s5, l5). Inr (True, s5, l5)))) = Inr (go, s', l')"
      by (rule bindE_InrE3)
    show ?thesis
    proof (cases res)
      case None
      then show ?thesis using r2 e False a by (intro stop[of ins n b s1]) simp_all
    next
      case (Some bs)
      let ?l3 = "book_tokens (request_id (objs s2 x)) bs n (l2\<lparr>scheduled_running_reqs := scheduled_running_reqs l2 @ [x]\<rparr>)"
      obtain s4 l4 where t: "trim_spec x n s2 ?l3 = (s4, l4)" by (cases "trim_spec x n s2 ?l3")
      have "bindE (commit_encoder x ins b s4 l4) (\<lambda>(s5, l5). Inr (True, s5, l5)) = Inr (go, s', l')" using r2 Some t by simp
      then obtain s5 l5 where "commit_encoder x ins b s4 l4 = Inr (s5, l5)" "Inr (True, s5, l5) = (Inr (go, s', l') :: (bool \<times> scheduler \<times> sched_local) result)"
        by (rule bindE_InrE2)
      then show ?thesis using e False a Some t by (intro sched[of ins n b s1 bs s2 l2 s4 l4]) simp_all
    qed
  qed
qed

lemma running_step_running:
  assumes "running_step c env x s l = Inr (b, s', l')"
  shows "length (running s') \<le> length (running s)"
  using assms
proof (cases rule: running_step_cases)
  case (skip ins b')
  then show ?thesis using encoder_step_frame(4)[OF skip(1)] by simp
next
  case (stop ins n b' s1)
  then show ?thesis using encoder_step_frame(4)[OF stop(1)] allocate_or_preempt_running[OF stop(3)] by simp
next
  case (sched ins n b' s1 bs s2 l2 s4 l4)
  then show ?thesis
    using encoder_step_frame(4)[OF sched(1)] allocate_or_preempt_running[OF sched(3)] trim_spec_frame(3)[OF sched(4)] commit_encoder_frame(4)[OF sched(5)] by simp
qed

function running_loop :: "sched_config \<Rightarrow> sched_env \<Rightarrow> nat \<Rightarrow> scheduler \<Rightarrow> sched_local \<Rightarrow> (scheduler \<times> sched_local) result" where
  "running_loop c env req_index s l =
     (if req_index < length (running s) \<and> token_budget l > 0
      then bindE (running_step c env (running s ! req_index) s l) (\<lambda>(go, s', l').
             if go then running_loop c env (req_index + 1) s' l' else Inr (s', l'))
      else Inr (s, l))"
  by pat_completeness auto
termination
  by (relation "measure (\<lambda>(c, env, i, s, l). length (running s) - i)") (auto dest!: running_step_running)

declare running_loop.simps [simp del]

section \<open>Waiting requests\<close>

text \<open>The request at the head is popped and collected in the queue \<open>skipped_waiting_requests\<close>.\<close>

definition skip_request :: "scheduler \<Rightarrow> rref \<Rightarrow> request_queue \<Rightarrow> (scheduler \<times> request_queue) result" where
  "skip_request s x skipped =
     bindE (rq_pop (waiting s)) (\<lambda>(_, w). bindE (rq_prepend (objs s) skipped x) (\<lambda>sk. Inr (s\<lparr>waiting := w\<rparr>, sk)))"

definition lora_limit_reached :: "sched_config \<Rightarrow> int set \<Rightarrow> sched_request \<Rightarrow> bool" where
  "lora_limit_reached c loras r =
     (case (max_loras c, lora_request r) of (Some m, Some i) \<Rightarrow> card loras = m \<and> i \<notin> loras | _ \<Rightarrow> False)"

text \<open>Tokens found in the prefix cache: new blocks, locally computed tokens, computed tokens.\<close>

definition computed_tokens :: "scheduler \<Rightarrow> sched_request \<Rightarrow> (bref list list \<times> int \<times> int \<times> scheduler) result" where
  "computed_tokens s r =
     (if num_computed_tokens r = 0
      then bindE (get_computed_blocks (kv s) (kv_request r)) (\<lambda>(bs, n, k). Inr (bs, n, n, s\<lparr>kv := k\<rparr>))
      else Inr (create_empty_block_list (kv s), 0, num_computed_tokens r, s))"

definition cross_attention_tokens :: "sched_config \<Rightarrow> sched_request \<Rightarrow> nat result" where
  "cross_attention_tokens c r =
     (if is_encoder_decoder c \<and> has_encoder_inputs r then (if \<not> is_whisper c then Inl AssertionError else Inr (encdec_max_encoder_len c)) else Inr 0)"

text \<open>The request has its slots: it leaves the queue and runs.\<close>

definition admit ::
  "sched_config \<Rightarrow> sched_env \<Rightarrow> int \<Rightarrow> int \<Rightarrow> nat list \<Rightarrow> int \<Rightarrow> int set \<Rightarrow> scheduler \<Rightarrow> sched_local \<Rightarrow> (scheduler \<times> sched_local \<times> int set) result" where
  "admit c env n n_computed ins b loras s l =
     bindE (rq_pop (waiting s)) (\<lambda>(x, w).
       let s1 = (s\<lparr>waiting := w, running := running s @ [x]\<rparr>);
           s2 = (if sched_log_stats c then upd_obj s1 x (\<lambda>r. record_event r SCHEDULED (env_now env)) else s1);
           r = objs s2 x
       in bindE (case status r of
                   WAITING \<Rightarrow> Inr (l\<lparr>scheduled_new_reqs := scheduled_new_reqs l @ [x]\<rparr>)
                 | PREEMPTED \<Rightarrow> Inr (l\<lparr>scheduled_resumed_reqs := scheduled_resumed_reqs l @ [x]\<rparr>)
                 | _ \<Rightarrow> Inl RuntimeError) (\<lambda>l1.
            let loras' = (case (max_loras c, lora_request r) of (Some m, Some i) \<Rightarrow> insert i loras | _ \<Rightarrow> loras);
                l2 = book_tokens (request_id r) (km_get_blocks (kv s2) (request_id r)) n l1;
                s3 = upd_obj s2 x (\<lambda>r. r\<lparr>status := RUNNING, num_computed_tokens := n_computed,
                                         num_cached_tokens := (if num_cached_tokens r < 0 then n_computed else num_cached_tokens r)\<rparr>)
            in bindE (commit_encoder x ins b s3 l2) (\<lambda>(s4, l4). Inr (s4, l4, loras'))))"

text \<open>One iteration for the request at the head of the queue; \<open>False\<close> means \<open>break\<close>.\<close>

definition waiting_tokens ::
  "sched_config \<Rightarrow> sched_env \<Rightarrow> rref \<Rightarrow> int \<Rightarrow> int \<Rightarrow> bref list list \<Rightarrow> int \<Rightarrow> scheduler \<Rightarrow> sched_local \<Rightarrow> int set
   \<Rightarrow> (bool \<times> scheduler \<times> sched_local \<times> int set) result" where
  "waiting_tokens c env x n_computed n_local new_computed_blocks n s l loras =
     (let r = objs s x
      in bindE (encoder_step c s r n_computed n (encoder_compute_budget l)) (\<lambda>(ins, n', b, s1).
           if has_encoder_inputs r \<and> n' = 0 then Inr (False, s1, l, loras)
           else bindE (cross_attention_tokens c r) (\<lambda>n_enc.
                bindE (allocate_slots (kv s1) (kv_request r) n' n_local (Some new_computed_blocks)
                         (if num_computed_tokens r = 0 then 0 else num_lookahead_tokens c) False n_enc) (\<lambda>(res, k).
                  case res of
                    None \<Rightarrow> Inr (False, s1\<lparr>kv := k\<rparr>, l, loras)
                  | Some bs \<Rightarrow> bindE (admit c env n' n_computed ins b loras (s1\<lparr>kv := k\<rparr>) l) (\<lambda>(s2, l2, loras2). Inr (True, s2, l2, loras2))))))"

definition waiting_step ::
  "sched_config \<Rightarrow> sched_env \<Rightarrow> rref \<Rightarrow> scheduler \<Rightarrow> sched_local \<Rightarrow> request_queue \<Rightarrow> int set
   \<Rightarrow> (bool \<times> scheduler \<times> sched_local \<times> request_queue \<times> int set) result" where
  "waiting_step c env x s l skipped loras =
     (let r = objs s x; skip = (\<lambda>s. bindE (skip_request s x skipped) (\<lambda>(s', sk). Inr (True, s', l, sk, loras)))
      in if status r = WAITING_FOR_REMOTE_KVS then Inl AssertionError
         else if status r = WAITING_FOR_FSM \<and> \<not> grammar_ready env x then skip s
         else (let s0 = (if status r = WAITING_FOR_FSM then upd_obj s x (\<lambda>r. r\<lparr>status := WAITING\<rparr>) else s)
               in if lora_limit_reached c loras r then skip s0
                  else bindE (computed_tokens s0 (objs s0 x)) (\<lambda>(bs, n_local, n_computed, s1).
                       let n = cap_tokens c (num_req_tokens r - n_computed)
                       in if \<not> chunked_prefill_enabled c \<and> n > token_budget l then skip s1
                          else (let n' = min n (token_budget l)
                                in if \<not> n' > 0 then Inl AssertionError
                                   else bindE (waiting_tokens c env x n_computed n_local bs n' s1 l loras) (\<lambda>(go, s2, l2, loras2).
                                          Inr (go, s2, l2, skipped, loras2))))))"

lemma skip_request_len: "skip_request s x sk = Inr (s', sk') \<Longrightarrow> rq_len (waiting s) = Suc (rq_len (waiting s'))"
  unfolding skip_request_def by (elim bindE_InrE2 bindE_InrE) (auto dest: rq_pop_len)

lemma admit_len: "admit c env n n_computed ins b loras s l = Inr (s', l', loras') \<Longrightarrow> rq_len (waiting s) = Suc (rq_len (waiting s'))"
  unfolding admit_def Let_def
  by (elim bindE_InrE2 bindE_InrE) (auto simp: upd_obj_def dest!: rq_pop_len commit_encoder_frame(3) split: if_splits)

lemma computed_tokens_frame:
  assumes "computed_tokens s r = Inr (bs, n, m, s')"
  shows "objs s' = objs s" "requests s' = requests s" "waiting s' = waiting s" "running s' = running s" "encoder s' = encoder s"
    "finished_req_ids s' = finished_req_ids s" "finished_req_ids_dict s' = finished_req_ids_dict s"
  using assms by (auto simp: computed_tokens_def result_simps split: if_splits)

lemma waiting_tokens_cases:
  assumes "waiting_tokens c env x n_computed n_local bs n s l loras = Inr (go, s', l', loras')"
  obtains (enc_stop) ins n' b where "encoder_step c s (objs s x) n_computed n (encoder_compute_budget l) = Inr (ins, n', b, s')"
      "has_encoder_inputs (objs s x)" "n' = 0" "\<not> go" "l' = l" "loras' = loras"
  | (kv_stop) ins n' b s1 n_enc k where "encoder_step c s (objs s x) n_computed n (encoder_compute_budget l) = Inr (ins, n', b, s1)"
      "\<not> (has_encoder_inputs (objs s x) \<and> n' = 0)" "cross_attention_tokens c (objs s x) = Inr n_enc"
      "allocate_slots (kv s1) (kv_request (objs s x)) n' n_local (Some bs) (if num_computed_tokens (objs s x) = 0 then 0 else num_lookahead_tokens c) False n_enc
        = Inr (None, k)" "s' = s1\<lparr>kv := k\<rparr>" "\<not> go" "l' = l" "loras' = loras"
  | (admitted) ins n' b s1 n_enc k new where "encoder_step c s (objs s x) n_computed n (encoder_compute_budget l) = Inr (ins, n', b, s1)"
      "\<not> (has_encoder_inputs (objs s x) \<and> n' = 0)" "cross_attention_tokens c (objs s x) = Inr n_enc"
      "allocate_slots (kv s1) (kv_request (objs s x)) n' n_local (Some bs) (if num_computed_tokens (objs s x) = 0 then 0 else num_lookahead_tokens c) False n_enc
        = Inr (Some new, k)" "admit c env n' n_computed ins b loras (s1\<lparr>kv := k\<rparr>) l = Inr (s', l', loras')" "go"
proof -
  let ?r = "objs s x"
  from assms obtain ins n' b s1 where e: "encoder_step c s ?r n_computed n (encoder_compute_budget l) = Inr (ins, n', b, s1)"
    and 1: "(if has_encoder_inputs ?r \<and> n' = 0 then Inr (False, s1, l, loras)
           else bindE (cross_attention_tokens c ?r) (\<lambda>n_enc.
                bindE (allocate_slots (kv s1) (kv_request ?r) n' n_local (Some bs)
                         (if num_computed_tokens ?r = 0 then 0 else num_lookahead_tokens c) False n_enc) (\<lambda>(res, k).
                  case res of
                    None \<Rightarrow> Inr (False, s1\<lparr>kv := k\<rparr>, l, loras)
                  | Some bs \<Rightarrow> bindE (admit c env n' n_computed ins b loras (s1\<lparr>kv := k\<rparr>) l) (\<lambda>(s2, l2, loras2). Inr (True, s2, l2, loras2)))))
        = Inr (go, s', l', loras')"
    unfolding waiting_tokens_def Let_def by (rule bindE_InrE4)
  show ?thesis
  proof (cases "has_encoder_inputs ?r \<and> n' = 0")
    case True
    then show ?thesis using 1 e by (intro enc_stop[of ins n' b]) simp_all
  next
    case False
    from 1[unfolded if_not_P[OF False]] obtain n_enc where x: "cross_attention_tokens c ?r = Inr n_enc"
      and 2: "bindE (allocate_slots (kv s1) (kv_request ?r) n' n_local (Some bs)
                         (if num_computed_tokens ?r = 0 then 0 else num_lookahead_tokens c) False n_enc) (\<lambda>(res, k).
                  case res of
                    None \<Rightarrow> Inr (False, s1\<lparr>kv := k\<rparr>, l, loras)
                  | Some bs \<Rightarrow> bindE (admit c env n' n_computed ins b loras (s1\<lparr>kv := k\<rparr>) l) (\<lambda>(s2, l2, loras2). Inr (True, s2, l2, loras2)))
        = Inr (go, s', l', loras')" by (rule bindE_InrE)
    from 2 obtain res k where a: "allocate_slots (kv s1) (kv_request ?r) n' n_local (Some bs)
                         (if num_computed_tokens ?r = 0 then 0 else num_lookahead_tokens c) False n_enc = Inr (res, k)"
      and 3: "(case res of
                    None \<Rightarrow> Inr (False, s1\<lparr>kv := k\<rparr>, l, loras)
                  | Some bs \<Rightarrow> bindE (admit c env n' n_computed ins b loras (s1\<lparr>kv := k\<rparr>) l) (\<lambda>(s2, l2, loras2). Inr (True, s2, l2, loras2)))
        = Inr (go, s', l', loras')" by (rule bindE_InrE2)
    show ?thesis
    proof (cases res)
      case None
      then show ?thesis using e False x a 3 by (intro kv_stop[of ins n' b s1 n_enc k]) simp_all
    next
      case (Some new)
      with 3 have "bindE (admit c env n' n_computed ins b loras (s1\<lparr>kv := k\<rparr>) l) (\<lambda>(s2, l2, loras2). Inr (True, s2, l2, loras2)) = Inr (go, s', l', loras')" by simp
      then obtain s2 l2 loras2 where "admit c env n' n_computed ins b loras (s1\<lparr>kv := k\<rparr>) l = Inr (s2, l2, loras2)"
        "Inr (True, s2, l2, loras2) = (Inr (go, s', l', loras') :: (bool \<times> scheduler \<times> sched_local \<times> int set) result)" by (rule bindE_InrE3)
      then show ?thesis using e False x a Some by (intro admitted[of ins n' b s1 n_enc new k]) simp_all
    qed
  qed
qed

lemma waiting_tokens_len:
  assumes "waiting_tokens c env x n_computed n_local bs n s l loras = Inr (True, s', l', loras')"
  shows "rq_len (waiting s) = Suc (rq_len (waiting s'))"
  using assms
proof (cases rule: waiting_tokens_cases)
  case (admitted ins n' b s1 n_enc k new)
  then show ?thesis using admit_len[OF admitted(5)] encoder_step_frame(3)[OF admitted(1)] by simp
qed simp_all

text \<open>The state when the status of the request has been looked at.\<close>

definition fsm_ready :: "scheduler \<Rightarrow> rref \<Rightarrow> scheduler" where
  "fsm_ready s x = (if status (objs s x) = WAITING_FOR_FSM then upd_obj s x (\<lambda>r. r\<lparr>status := WAITING\<rparr>) else s)"

lemma waiting_step_cases:
  assumes "waiting_step c env x s l skipped loras = Inr (go, s', l', sk', loras')"
  obtains (skip_fsm) "status (objs s x) = WAITING_FOR_FSM" "\<not> grammar_ready env x" "skip_request s x skipped = Inr (s', sk')" "go" "l' = l" "loras' = loras"
  | (skip_lora) "skip_request (fsm_ready s x) x skipped = Inr (s', sk')" "lora_limit_reached c loras (objs s x)" "go" "l' = l" "loras' = loras"
      "status (objs s x) \<noteq> WAITING_FOR_REMOTE_KVS"
  | (skip_budget) bs n_local n_computed s1 where "computed_tokens (fsm_ready s x) (objs (fsm_ready s x) x) = Inr (bs, n_local, n_computed, s1)"
      "\<not> chunked_prefill_enabled c" "skip_request s1 x skipped = Inr (s', sk')" "go" "l' = l" "loras' = loras" "status (objs s x) \<noteq> WAITING_FOR_REMOTE_KVS"
  | (tokens) bs n_local n_computed s1 where "computed_tokens (fsm_ready s x) (objs (fsm_ready s x) x) = Inr (bs, n_local, n_computed, s1)"
      "min (cap_tokens c (num_req_tokens (objs s x) - n_computed)) (token_budget l) > 0"
      "waiting_tokens c env x n_computed n_local bs (min (cap_tokens c (num_req_tokens (objs s x) - n_computed)) (token_budget l)) s1 l loras = Inr (go, s', l', loras')"
      "sk' = skipped" "status (objs s x) \<noteq> WAITING_FOR_REMOTE_KVS"
proof -
  let ?r = "objs s x" and ?skip = "\<lambda>s. bindE (skip_request s x skipped) (\<lambda>(s', sk). Inr (True, s', l, sk, loras))"
  have nr: "status ?r \<noteq> WAITING_FOR_REMOTE_KVS" using assms by (auto simp: waiting_step_def Let_def)
  have sk: "skip_request s0 x skipped = Inr (s', sk')" "go" "l' = l" "loras' = loras" if "?skip s0 = Inr (go, s', l', sk', loras')" for s0
    using that by (cases "skip_request s0 x skipped"; auto)+
  consider "status ?r = WAITING_FOR_FSM" "\<not> grammar_ready env x" | "\<not> (status ?r = WAITING_FOR_FSM \<and> \<not> grammar_ready env x)" "lora_limit_reached c loras ?r"
    | "\<not> (status ?r = WAITING_FOR_FSM \<and> \<not> grammar_ready env x)" "\<not> lora_limit_reached c loras ?r" by blast
  then show ?thesis
  proof cases
    case 1
    then have "?skip s = Inr (go, s', l', sk', loras')" using assms by (simp add: waiting_step_def)
    from sk[OF this] 1 skip_fsm show ?thesis by blast
  next
    case 2
    then have "?skip (fsm_ready s x) = Inr (go, s', l', sk', loras')" using assms nr by (simp add: waiting_step_def fsm_ready_def Let_def split: if_splits)
    from sk[OF this] 2 nr skip_lora show ?thesis by blast
  next
    case 3
    let ?n = "\<lambda>m. cap_tokens c (num_req_tokens ?r - m)"
    have "bindE (computed_tokens (fsm_ready s x) (objs (fsm_ready s x) x)) (\<lambda>(bs, n_local, n_computed, s1).
        if \<not> chunked_prefill_enabled c \<and> ?n n_computed > token_budget l then ?skip s1
        else if \<not> min (?n n_computed) (token_budget l) > 0 then Inl AssertionError
             else bindE (waiting_tokens c env x n_computed n_local bs (min (?n n_computed) (token_budget l)) s1 l loras) (\<lambda>(go, s2, l2, loras2).
                    Inr (go, s2, l2, skipped, loras2))) = Inr (go, s', l', sk', loras')"
      using assms 3 nr unfolding waiting_step_def fsm_ready_def Let_def by (simp split: if_splits)
    then obtain bs n_local n_computed s1 where ct: "computed_tokens (fsm_ready s x) (objs (fsm_ready s x) x) = Inr (bs, n_local, n_computed, s1)"
      and r: "(if \<not> chunked_prefill_enabled c \<and> ?n n_computed > token_budget l then ?skip s1
        else if \<not> min (?n n_computed) (token_budget l) > 0 then Inl AssertionError
             else bindE (waiting_tokens c env x n_computed n_local bs (min (?n n_computed) (token_budget l)) s1 l loras) (\<lambda>(go, s2, l2, loras2).
                    Inr (go, s2, l2, skipped, loras2))) = Inr (go, s', l', sk', loras')" by (rule bindE_InrE4)
    show ?thesis
    proof (cases "\<not> chunked_prefill_enabled c \<and> ?n n_computed > token_budget l")
      case True
      then have "?skip s1 = Inr (go, s', l', sk', loras')" using r by simp
      from sk[OF this] ct True nr skip_budget show ?thesis by blast
    next
      case False
      have pos: "min (?n n_computed) (token_budget l) > 0" using r[unfolded if_not_P[OF False]] by (rule contrapos_pp) simp
      have "bindE (waiting_tokens c env x n_computed n_local bs (min (?n n_computed) (token_budget l)) s1 l loras) (\<lambda>(go, s2, l2, loras2).
                    Inr (go, s2, l2, skipped, loras2)) = Inr (go, s', l', sk', loras')" using r[unfolded if_not_P[OF False]] pos by simp
      then obtain g2 s2 l2 lo2 where "waiting_tokens c env x n_computed n_local bs (min (?n n_computed) (token_budget l)) s1 l loras = Inr (g2, s2, l2, lo2)"
        "Inr (g2, s2, l2, skipped, lo2) = (Inr (go, s', l', sk', loras') :: (bool \<times> scheduler \<times> sched_local \<times> request_queue \<times> int set) result)" by (rule bindE_InrE4)
      then show ?thesis using ct pos nr by (intro tokens[of bs n_local n_computed s1]) simp_all
    qed
  qed
qed

lemma fsm_ready_frame [simp]:
  "requests (fsm_ready s x) = requests s" "waiting (fsm_ready s x) = waiting s" "running (fsm_ready s x) = running s" "encoder (fsm_ready s x) = encoder s"
  "kv (fsm_ready s x) = kv s" "finished_req_ids (fsm_ready s x) = finished_req_ids s" "finished_req_ids_dict (fsm_ready s x) = finished_req_ids_dict s"
  by (simp_all add: fsm_ready_def upd_obj_def)

lemma waiting_step_len:
  assumes "waiting_step c env x s l skipped loras = Inr (True, s', l', sk', loras')"
  shows "rq_len (waiting s) = Suc (rq_len (waiting s'))"
  using assms
proof (cases rule: waiting_step_cases)
  case skip_fsm
  then show ?thesis using skip_request_len by blast
next
  case skip_lora
  then show ?thesis using skip_request_len by force
next
  case (skip_budget bs n_local n_computed s1)
  then show ?thesis using skip_request_len[OF skip_budget(3)] computed_tokens_frame(3)[OF skip_budget(1)] by simp
next
  case (tokens bs n_local n_computed s1)
  then show ?thesis using waiting_tokens_len[OF tokens(3)] computed_tokens_frame(3)[OF tokens(1)] by simp
qed

function waiting_loop ::
  "sched_config \<Rightarrow> sched_env \<Rightarrow> scheduler \<Rightarrow> sched_local \<Rightarrow> request_queue \<Rightarrow> int set \<Rightarrow> (scheduler \<times> sched_local \<times> request_queue) result" where
  "waiting_loop c env s l skipped loras =
     (if rq_bool (waiting s) \<and> token_budget l > 0 \<and> length (running s) \<noteq> max_num_running_reqs c
      then bindE (rq_peek (waiting s)) (\<lambda>x.
           bindE (waiting_step c env x s l skipped loras) (\<lambda>(go, s', l', sk', loras').
             if go then waiting_loop c env s' l' sk' loras' else Inr (s', l', sk')))
      else Inr (s, l, skipped))"
  by pat_completeness auto
termination
  by (relation "measure (\<lambda>(c, env, s, l, sk, loras). rq_len (waiting s))") (auto dest!: waiting_step_len)

declare waiting_loop.simps [simp del]

end
