(* ===== verification/Sched_Engine.thy ===== *)
theory Sched_Engine
  imports Scheduler
begin

text \<open>
  \<open>vllm/v1/core/sched/scheduler.py\<close>, continued: \<open>schedule\<close> as a whole with the output for the workers (\<open>sched/output.py\<close>), \<open>update_from_output\<close>, and the
  entry points for new, finished and drafted requests; \<open>async_scheduler.py\<close> overrides two of the steps.
\<close>

section \<open>One scheduling step\<close>

definition scheduled_loras :: "sched_config \<Rightarrow> scheduler \<Rightarrow> sched_local \<Rightarrow> int set" where
  "scheduled_loras c s l =
     (case max_loras c of
        None \<Rightarrow> {}
      | Some m \<Rightarrow> set (filter (\<lambda>i. i > 0) (List.map_filter (\<lambda>x. lora_request (objs s x)) (scheduled_running_reqs l))))"

definition put_back :: "scheduler \<Rightarrow> request_queue \<Rightarrow> scheduler result" where
  "put_back s skipped =
     (if rq_bool skipped then bindE (rq_prepend_requests (objs s) (waiting s) skipped) (\<lambda>w. Inr (s\<lparr>waiting := w\<rparr>)) else Inr s)"

text \<open>The two loops, up to the final assertions.\<close>

definition schedule_requests :: "sched_config \<Rightarrow> sched_env \<Rightarrow> scheduler \<Rightarrow> (scheduler \<times> sched_local) result" where
  "schedule_requests c env s =
     bindE (running_loop c env 0 s (init_local c)) (\<lambda>(s1, l1).
     if (case max_loras c of None \<Rightarrow> False | Some m \<Rightarrow> card (scheduled_loras c s1 l1) > m) then Inl AssertionError
     else bindE (if preempted_reqs l1 = []
                 then waiting_loop c env s1 l1 (create_request_queue (policy c)) (scheduled_loras c s1 l1)
                 else Inr (s1, l1, create_request_queue (policy c))) (\<lambda>(s2, l2, skipped).
          bindE (put_back s2 skipped) (\<lambda>s3. Inr (s3, l2))))"

definition total_scheduled :: "sched_local \<Rightarrow> int" where
  "total_scheduled l = sum_list (map snd (num_scheduled_tokens l))"

definition within_limits :: "sched_config \<Rightarrow> scheduler \<Rightarrow> sched_local \<Rightarrow> bool" where
  "within_limits c s l \<longleftrightarrow> total_scheduled l \<le> max_num_scheduled_tokens c \<and> token_budget l \<ge> 0 \<and> length (running s) \<le> max_num_running_reqs c
     \<and> length (scheduled_new_reqs l) + length (scheduled_resumed_reqs l) + length (scheduled_running_reqs l) \<le> length (running s)"

record new_request_data =
  nr_req_id :: string
  nr_prompt_token_ids :: "int list"
  nr_mm_hashes :: "mm_hash list"
  nr_mm_positions :: "mm_position list"
  nr_sampling_params :: "sampling_params option"
  nr_pooling_params :: bool
  nr_block_ids :: "int list list"
  nr_num_computed_tokens :: int
  nr_lora_request :: "int option"

record cached_request_data =
  cr_req_ids :: "string list"
  cr_resumed_from_preemption :: "bool list"
  cr_new_token_ids :: "int list list"
  cr_new_block_ids :: "int list list option list"
  cr_num_computed_tokens :: "int list"

record scheduler_output =
  so_new_reqs :: "new_request_data list"
  so_cached_reqs :: cached_request_data
  so_num_scheduled_tokens :: "(string \<times> int) list"
  so_total_num_scheduled_tokens :: int
  so_spec_decode_tokens :: "string \<rightharpoonup> int list"
  so_encoder_inputs :: "string \<rightharpoonup> nat list"
  so_num_common_prefix_blocks :: "nat list"
  so_finished_req_ids :: "string set"
  so_free_encoder_mm_hashes :: "mm_hash list"
  so_structured_output_request_ids :: "(string \<times> nat) list"
  so_grammar_bitmask :: "int list list option"

definition new_request_from :: "sched_request \<Rightarrow> int list list \<Rightarrow> new_request_data" where
  "new_request_from r block_ids =
     \<lparr>nr_req_id = request_id r, nr_prompt_token_ids = prompt_token_ids r, nr_mm_hashes = mm_hashes r, nr_mm_positions = mm_positions r,
      nr_sampling_params = sampling r, nr_pooling_params = pooling r, nr_block_ids = block_ids, nr_num_computed_tokens = num_computed_tokens r,
      nr_lora_request = lora_request r\<rparr>"

fun new_reqs_data :: "scheduler \<Rightarrow> sched_local \<Rightarrow> rref list \<Rightarrow> new_request_data list result" where
  "new_reqs_data s l [] = Inr []"
| "new_reqs_data s l (x # xs) =
     bindE (dict_get (req_to_new_blocks l) (request_id (objs s x))) (\<lambda>bs.
     bindE (new_reqs_data s l xs) (\<lambda>ds. Inr (new_request_from (objs s x) (case get_block_ids bs False of Some ids \<Rightarrow> ids | None \<Rightarrow> []) # ds)))"

definition py_slice :: "'a list \<Rightarrow> int \<Rightarrow> int \<Rightarrow> 'a list" where
  "py_slice xs a b =
     (let n = int (length xs);
          i = (if a < 0 then max 0 (n + a) else min a n);
          j = (if b < 0 then max 0 (n + b) else min b n)
      in take (nat (j - i)) (drop (nat i) xs))"

fun cached_loop :: "sched_config \<Rightarrow> scheduler \<Rightarrow> sched_local \<Rightarrow> rref list \<Rightarrow> (string list \<times> int list list \<times> int list list option list \<times> int list) result" where
  "cached_loop c s l [] = Inr ([], [], [], [])"
| "cached_loop c s l (x # xs) =
     (let r = objs s x; rid = request_id r
      in bindE (case map_of (num_scheduled_tokens l) rid of None \<Rightarrow> Inl KeyError | Some n \<Rightarrow> Inr n) (\<lambda>n.
         bindE (dict_get (req_to_new_blocks l) rid) (\<lambda>bs.
         let num_tokens = n - int (length (case scheduled_spec_decode_tokens l rid of None \<Rightarrow> [] | Some ts \<Rightarrow> ts));
             toks = (if use_pp c then [py_slice (all_token_ids r) (num_computed_tokens r) (num_computed_tokens r + num_tokens)] else [])
         in bindE (cached_loop c s l xs) (\<lambda>(ids, tss, bss, cs).
              Inr (rid # ids, toks @ tss, get_block_ids bs True # bss, num_computed_tokens r # cs)))))"

definition make_cached_request_data :: "sched_config \<Rightarrow> scheduler \<Rightarrow> sched_local \<Rightarrow> cached_request_data result" where
  "make_cached_request_data c s l =
     bindE (cached_loop c s l (scheduled_running_reqs l @ scheduled_resumed_reqs l)) (\<lambda>(ids, tss, bss, cs).
       Inr \<lparr>cr_req_ids = ids,
            cr_resumed_from_preemption = replicate (length (scheduled_running_reqs l)) False @ replicate (length (scheduled_resumed_reqs l)) True,
            cr_new_token_ids = tss, cr_new_block_ids = bss, cr_num_computed_tokens = cs\<rparr>)"

fun structured_ids :: "objects \<Rightarrow> nat \<Rightarrow> rref list \<Rightarrow> (string \<times> nat) list \<Rightarrow> (string \<times> nat) list" where
  "structured_ids os i [] acc = acc"
| "structured_ids os i (x # xs) acc =
     structured_ids os (i + 1) xs (if use_structured_output (os x) then od_set acc (request_id (os x)) i else acc)"

definition get_grammar_bitmask :: "sched_env \<Rightarrow> scheduler \<Rightarrow> sched_local \<Rightarrow> (string \<times> nat) list \<times> int list list option" where
  "get_grammar_bitmask env s l =
     (let ids = structured_ids (objs s) 0 (running s) []
      in (ids, if ids = [] then None else Some (fill_bitmask env ids (scheduled_spec_decode_tokens l))))"

section \<open>After the step\<close>

fun free_done_inputs :: "sched_config \<Rightarrow> encoder_cache \<Rightarrow> sched_request \<Rightarrow> nat list \<Rightarrow> encoder_cache result" where
  "free_done_inputs c e r [] = Inr e"
| "free_done_inputs c e r (i # is) =
     (if \<not> i < length (mm_positions r) then Inl IndexError
      else (let pos = mm_positions r ! i
            in bindE (if is_encoder_decoder c \<and> num_computed_tokens r > 0 then free_encoder_input e r i
                      else if offset pos + mm_length pos \<le> num_computed_tokens r then free_encoder_input e r i
                      else Inr e) (\<lambda>e'. free_done_inputs c e' r is)))"

definition free_encoder_inputs :: "sched_config \<Rightarrow> sched_env \<Rightarrow> encoder_cache \<Rightarrow> sched_request \<Rightarrow> encoder_cache result" where
  "free_encoder_inputs c env e r =
     (let ids = get_cached_input_ids e r in if ids = [] then Inr e else free_done_inputs c e r (set_order env ids))"

fun advance_loop :: "sched_config \<Rightarrow> sched_env \<Rightarrow> (string \<times> int) list \<Rightarrow> scheduler \<Rightarrow> scheduler result" where
  "advance_loop c env [] s = Inr s"
| "advance_loop c env ((rid, n) # rest) s =
     bindE (dict_get (requests s) rid) (\<lambda>x.
     let s1 = upd_obj s x (\<lambda>r. r\<lparr>num_computed_tokens := num_computed_tokens r + n\<rparr>)
     in bindE (if has_encoder_inputs (objs s1 x)
               then bindE (free_encoder_inputs c env (encoder s1) (objs s1 x)) (\<lambda>e. Inr (s1\<lparr>encoder := e\<rparr>))
               else Inr s1) (advance_loop c env rest))"

text \<open>\<open>AsyncScheduler._update_after_schedule\<close>: a placeholder for the token the step will produce.\<close>

fun placeholder_loop :: "(string \<times> int) list \<Rightarrow> scheduler \<Rightarrow> scheduler result" where
  "placeholder_loop [] s = Inr s"
| "placeholder_loop ((rid, n) # rest) s =
     bindE (dict_get (requests s) rid) (\<lambda>x.
     placeholder_loop rest
       (if num_computed_tokens (objs s x) = num_req_tokens (objs s x) + num_output_placeholders (objs s x)
        then upd_obj s x (\<lambda>r. r\<lparr>num_output_placeholders := num_output_placeholders r + 1\<rparr>) else s))"

definition update_after_schedule :: "sched_config \<Rightarrow> sched_env \<Rightarrow> (string \<times> int) list \<Rightarrow> scheduler \<Rightarrow> scheduler result" where
  "update_after_schedule c env scheduled s =
     bindE (advance_loop c env scheduled s) (\<lambda>s1.
     let s2 = s1\<lparr>finished_req_ids := {}\<rparr>
     in if async_scheduling c then placeholder_loop scheduled s2 else Inr s2)"

text \<open>\<open>schedule\<close>; the events of the block pool, which the code publishes, are the second component.\<close>

definition schedule :: "sched_config \<Rightarrow> sched_env \<Rightarrow> scheduler \<Rightarrow> (scheduler_output \<times> kv_event list \<times> scheduler) result" where
  "schedule c env s =
     bindE (schedule_requests c env s) (\<lambda>(s1, l).
     if \<not> within_limits c s1 l then Inl AssertionError
     else bindE (case running s1 of
                   [] \<Rightarrow> Inr (replicate (num_kv_cache_groups (kv s1)) 0)
                 | x # _ \<Rightarrow> km_get_num_common_prefix_blocks (kv s1) (kv_request (objs s1 x)) (status (objs s1 x) = RUNNING) (int (length (running s1)))) (\<lambda>common.
          bindE (new_reqs_data s1 l (scheduled_new_reqs l)) (\<lambda>new_data.
          bindE (make_cached_request_data c s1 l) (\<lambda>cached_data.
          let (ids, bitmask) = get_grammar_bitmask env s1 l;
              (freed_hashes, e) = get_freed_mm_hashes (encoder s1);
              (kv_events, k) = km_take_events (kv s1);
              out = \<lparr>so_new_reqs = new_data, so_cached_reqs = cached_data, so_num_scheduled_tokens = num_scheduled_tokens l,
                     so_total_num_scheduled_tokens = total_scheduled l, so_spec_decode_tokens = scheduled_spec_decode_tokens l,
                     so_encoder_inputs = scheduled_encoder_inputs l, so_num_common_prefix_blocks = common, so_finished_req_ids = finished_req_ids s1,
                     so_free_encoder_mm_hashes = freed_hashes, so_structured_output_request_ids = ids, so_grammar_bitmask = bitmask\<rparr>
          in bindE (update_after_schedule c env (num_scheduled_tokens l) (s1\<lparr>encoder := e, kv := k\<rparr>)) (\<lambda>s2. Inr (out, kv_events, s2))))))"

section \<open>Finishing requests\<close>

definition free_request_blocks :: "scheduler \<Rightarrow> rref \<Rightarrow> scheduler result" where
  "free_request_blocks s x =
     (let r = objs s x
      in if \<not> status_is_finished (status r) then Inl AssertionError
         else bindE (km_free (kv s) (kv_request r)) (\<lambda>k.
              if requests s (request_id r) = None then Inl KeyError
              else Inr (s\<lparr>kv := k, requests := (requests s)(request_id r := None)\<rparr>)))"

definition sched_free_request :: "sched_env \<Rightarrow> scheduler \<Rightarrow> rref \<Rightarrow> scheduler result" where
  "sched_free_request env s x =
     (let r = objs s x
      in if \<not> status_is_finished (status r) then Inl AssertionError
         else bindE (ec_free (set_order env) (encoder s) r) (\<lambda>e.
              free_request_blocks
                (s\<lparr>encoder := e, finished_req_ids := insert (request_id r) (finished_req_ids s),
                   finished_req_ids_dict :=
                     (case finished_req_ids_dict s of
                        None \<Rightarrow> None
                      | Some d \<Rightarrow> Some (od_set d (client_index r)
                                       (insert (request_id r) (case map_of d (client_index r) of None \<Rightarrow> {} | Some ids \<Rightarrow> ids))))\<rparr>) x))"

fun finish_loop :: "sched_env \<Rightarrow> request_status \<Rightarrow> rref list \<Rightarrow> scheduler \<Rightarrow> scheduler result" where
  "finish_loop env st [] s = Inr s"
| "finish_loop env st (x # xs) s = bindE (sched_free_request env (upd_obj s x (\<lambda>r. r\<lparr>status := st\<rparr>)) x) (finish_loop env st xs)"

text \<open>\<open>finish_requests\<close>; the argument lists the set of ids in the order in which it is iterated.\<close>

definition finish_requests :: "sched_env \<Rightarrow> scheduler \<Rightarrow> string list \<Rightarrow> request_status \<Rightarrow> scheduler result" where
  "finish_requests env s request_ids finished_status =
     (if \<not> status_is_finished finished_status then Inl AssertionError
      else (let valid = List.map_filter (requests s) request_ids;
                from_running = filter (\<lambda>x. status (objs s x) = RUNNING) valid;
                from_waiting = filter (\<lambda>x. status (objs s x) \<noteq> RUNNING) valid;
                s1 = (if from_running \<noteq> [] then s\<lparr>running := remove_all (running s) from_running\<rparr> else s)
            in bindE (if from_waiting \<noteq> [] then bindE (rq_remove_requests (waiting s1) from_waiting) (\<lambda>w. Inr (s1\<lparr>waiting := w\<rparr>)) else Inr s1)
                 (finish_loop env finished_status valid)))"

definition add_request :: "sched_config \<Rightarrow> real \<Rightarrow> scheduler \<Rightarrow> rref \<Rightarrow> scheduler result" where
  "add_request c now s x =
     bindE (rq_add (objs s) (waiting s) x) (\<lambda>w.
     let s1 = s\<lparr>waiting := w, requests := (requests s)(request_id (objs s x) \<mapsto> x)\<rparr>
     in Inr (if sched_log_stats c then upd_obj s1 x (\<lambda>r. record_event r QUEUED now) else s1))"

definition get_request_counts :: "scheduler \<Rightarrow> nat \<times> nat" where
  "get_request_counts s = (length (running s), rq_len (waiting s))"

definition get_num_unfinished_requests :: "scheduler \<Rightarrow> nat" where
  "get_num_unfinished_requests s = rq_len (waiting s) + length (running s)"

definition has_finished_requests :: "scheduler \<Rightarrow> bool" where
  "has_finished_requests s \<longleftrightarrow> finished_req_ids s \<noteq> {}"

definition sched_reset_prefix_cache :: "scheduler \<Rightarrow> (bool \<times> scheduler) result" where
  "sched_reset_prefix_cache s = bindE (km_reset_prefix_cache (kv s)) (\<lambda>(ok, k). Inr (ok, s\<lparr>kv := k\<rparr>))"

fun update_draft_token_ids :: "sched_env \<Rightarrow> scheduler \<Rightarrow> (string \<times> int list) list \<Rightarrow> scheduler" where
  "update_draft_token_ids env s [] = s"
| "update_draft_token_ids env s ((rid, toks) # rest) =
     update_draft_token_ids env
       (case requests s rid of
          None \<Rightarrow> s
        | Some x \<Rightarrow>
            (let r = objs s x
             in if status_is_finished (status r) then s
                else upd_obj s x (\<lambda>r. r\<lparr>spec_token_ids :=
                       (if toks = [] then [] else if should_advance env r then validate_tokens env (grammar_tokens r) toks else toks)\<rparr>)))
       rest"

section \<open>Statistics\<close>

record spec_decoding_stats =
  sd_num_spec_tokens :: nat
  sd_num_drafts :: nat
  sd_num_draft_tokens :: int
  sd_num_accepted_tokens :: int
  sd_accepted_per_pos :: "nat list"

definition new_spec_decoding_stats :: "nat \<Rightarrow> spec_decoding_stats" where
  "new_spec_decoding_stats n =
     \<lparr>sd_num_spec_tokens = n, sd_num_drafts = 0, sd_num_draft_tokens = 0, sd_num_accepted_tokens = 0, sd_accepted_per_pos = replicate n 0\<rparr>"

definition observe_draft :: "spec_decoding_stats \<Rightarrow> int \<Rightarrow> int \<Rightarrow> spec_decoding_stats result" where
  "observe_draft st num_draft_tokens num_accepted_tokens =
     (if \<not> num_accepted_tokens \<le> int (sd_num_spec_tokens st) then Inl AssertionError
      else Inr (st\<lparr>sd_num_drafts := sd_num_drafts st + 1, sd_num_draft_tokens := sd_num_draft_tokens st + num_draft_tokens,
                   sd_num_accepted_tokens := sd_num_accepted_tokens st + num_accepted_tokens,
                   sd_accepted_per_pos := map (\<lambda>(i, k). if int i < num_accepted_tokens then k + 1 else k) (enumerate 0 (sd_accepted_per_pos st))\<rparr>))"

definition make_spec_decoding_stats :: "sched_config \<Rightarrow> spec_decoding_stats option \<Rightarrow> int \<Rightarrow> int \<Rightarrow> spec_decoding_stats option result" where
  "make_spec_decoding_stats c st num_draft_tokens num_accepted_tokens =
     (if \<not> sched_log_stats c then Inr None
      else bindE (observe_draft (case st of None \<Rightarrow> new_spec_decoding_stats (num_spec_tokens c) | Some st \<Rightarrow> st) num_draft_tokens num_accepted_tokens)
             (\<lambda>st'. Inr (Some st')))"

record scheduler_stats =
  ss_num_running_reqs :: nat
  ss_num_waiting_reqs :: nat
  ss_kv_cache_usage :: real
  ss_prefix_cache_stats :: prefix_cache_stats
  ss_spec_decoding_stats :: "spec_decoding_stats option"
  ss_num_corrupted_reqs :: nat

definition make_stats :: "sched_config \<Rightarrow> scheduler \<Rightarrow> spec_decoding_stats option \<Rightarrow> (scheduler_stats option \<times> scheduler) result" where
  "make_stats c s spec =
     (if \<not> sched_log_stats c then Inr (None, s)
      else (case make_prefix_cache_stats (kv s) of
              (None, k) \<Rightarrow> Inl AssertionError
            | (Some st, k) \<Rightarrow>
                Inr (Some \<lparr>ss_num_running_reqs = length (running s), ss_num_waiting_reqs = rq_len (waiting s), ss_kv_cache_usage = km_usage k,
                          ss_prefix_cache_stats = st, ss_spec_decoding_stats = spec,
                          ss_num_corrupted_reqs = length (filter (\<lambda>x. is_output_corrupted (objs s x)) (running s))\<rparr>, s\<lparr>kv := k\<rparr>)))"

section \<open>The output of a step\<close>

text \<open>What the workers return; handles stand for the tensors that are only passed on.\<close>

record model_runner_output =
  mr_req_id_to_index :: "string \<rightharpoonup> nat"
  mr_sampled_token_ids :: "int list list"
  mr_pooler_output :: "nat option list"
  mr_logprobs :: "(nat \<Rightarrow> nat) option"
  mr_prompt_logprobs_dict :: "string \<rightharpoonup> nat"
  mr_num_nans_in_logits :: "(string \<rightharpoonup> int) option"

record engine_core_output =
  ec_request_id :: string
  ec_new_token_ids :: "int list"
  ec_finish_reason :: "finish_reason option"
  ec_new_logprobs :: "nat option"
  ec_new_prompt_logprobs :: "nat option"
  ec_pooling_output :: "nat option"
  ec_stop_reason :: "int option"
  ec_events :: "(event_type \<times> real) list option"
  ec_num_cached_tokens :: int

record engine_core_outputs =
  eo_outputs :: "engine_core_output list"
  eo_finished_requests :: "string set option"
  eo_scheduler_stats :: "scheduler_stats option"

record output_acc =
  oa_outputs :: "(int \<times> engine_core_output list) list"
  oa_spec_stats :: "spec_decoding_stats option"
  oa_stopped_running :: "rref list"
  oa_stopped_preempted :: "rref list"

definition list_get :: "'a list \<Rightarrow> nat \<Rightarrow> 'a result" where
  "list_get xs i = (if i < length xs then Inr (xs ! i) else Inl IndexError)"

text \<open>\<open>_update_request_with_output\<close> of both schedulers. The asynchronous one settles the placeholders and caches the blocks of a running request.\<close>

definition apply_output :: "sched_config \<Rightarrow> sched_env \<Rightarrow> scheduler \<Rightarrow> rref \<Rightarrow> int list \<Rightarrow> (int list \<times> bool \<times> scheduler) result" where
  "apply_output c env s x toks =
     bindE (update_request_with_output (hasher env) (max_model_len c) (objs s x) toks) (\<lambda>(kept, stopped, r).
       if \<not> async_scheduling c then Inr (kept, stopped, upd_obj s x (\<lambda>_. r))
       else (let r' = r\<lparr>num_output_placeholders := num_output_placeholders r - int (length kept)\<rparr>; s1 = upd_obj s x (\<lambda>_. r')
             in if \<not> num_output_placeholders r' \<ge> 0 then Inl AssertionError
                else if status (objs s x) = RUNNING
                then bindE (km_cache_blocks (kv s1) (kv_request r') (nat (num_computed_tokens r' - num_output_placeholders r')))
                       (\<lambda>k. Inr (kept, stopped, s1\<lparr>kv := k\<rparr>))
                else Inr (kept, stopped, s1)))"

definition settle_drafts ::
  "sched_config \<Rightarrow> scheduler_output \<Rightarrow> string \<Rightarrow> rref \<Rightarrow> int list \<Rightarrow> scheduler \<Rightarrow> spec_decoding_stats option \<Rightarrow> (scheduler \<times> spec_decoding_stats option) result" where
  "settle_drafts c out rid x generated s st =
     (case so_spec_decode_tokens out rid of
        None \<Rightarrow> Inr (s, st)
      | Some drafts \<Rightarrow>
          if drafts = [] then Inr (s, st)
          else (let num_accepted = int (length generated) - 1; num_rejected = int (length drafts) - num_accepted
                in bindE (make_spec_decoding_stats c st (int (length drafts)) num_accepted) (\<lambda>st'.
                     Inr (upd_obj s x (\<lambda>r. r\<lparr>num_computed_tokens := num_computed_tokens r - num_rejected\<rparr>), st'))))"

definition emit_output ::
  "model_runner_output \<Rightarrow> string \<Rightarrow> nat \<Rightarrow> rref \<Rightarrow> int list \<Rightarrow> nat option \<Rightarrow> scheduler \<Rightarrow> output_acc \<Rightarrow> (scheduler \<times> output_acc) result" where
  "emit_output mr rid idx x kept pooled s acc =
     (let r = objs s x;
          new_logprobs = (case (sampling r, mr_logprobs mr) of (Some sp, Some lp) \<Rightarrow> if sp_logprobs sp then Some (lp idx) else None | _ \<Rightarrow> None)
      in if kept \<noteq> [] \<or> pooled \<noteq> None
         then (let (evs, r') = take_req_events r;
                   o1 = \<lparr>ec_request_id = rid, ec_new_token_ids = kept, ec_finish_reason = status_finished_reason (status r),
                         ec_new_logprobs = new_logprobs, ec_new_prompt_logprobs = mr_prompt_logprobs_dict mr rid, ec_pooling_output = pooled,
                         ec_stop_reason = stop_reason r, ec_events = evs, ec_num_cached_tokens = num_cached_tokens r\<rparr>;
                   outs = oa_outputs acc
               in Inr (upd_obj s x (\<lambda>_. r'),
                       acc\<lparr>oa_outputs := od_set outs (client_index r) ((case map_of outs (client_index r) of None \<Rightarrow> [] | Some os \<Rightarrow> os) @ [o1])\<rparr>))
         else if mr_prompt_logprobs_dict mr rid \<noteq> None then Inl AssertionError
         else Inr (s, acc))"

text \<open>One request of the output. An id that is no longer known was aborted meanwhile.\<close>

definition output_step ::
  "sched_config \<Rightarrow> sched_env \<Rightarrow> scheduler_output \<Rightarrow> model_runner_output \<Rightarrow> string \<Rightarrow> int \<Rightarrow> scheduler \<Rightarrow> output_acc \<Rightarrow> (scheduler \<times> output_acc) result" where
  "output_step c env out mr rid n s acc =
     (if \<not> n > 0 then Inl AssertionError
      else (case requests s rid of
              None \<Rightarrow> Inr (s, acc)
            | Some x \<Rightarrow>
                bindE (dict_get (mr_req_id_to_index mr) rid) (\<lambda>idx.
                bindE (if mr_sampled_token_ids mr = [] then Inr [] else list_get (mr_sampled_token_ids mr) idx) (\<lambda>generated.
                bindE (settle_drafts c out rid x generated s (oa_spec_stats acc)) (\<lambda>(s1, st).
                let status_before_stop = status (objs s1 x)
                in bindE (if generated = [] then Inr (generated, False, s1) else apply_output c env s1 x generated) (\<lambda>(kept, stopped0, s2).
                   bindE (if mr_pooler_output mr = [] then Inr (None, stopped0, s2)
                          else bindE (list_get (mr_pooler_output mr) idx) (\<lambda>pooled.
                               bindE (check_stop (objs s2 x) (max_model_len c) (pooled \<noteq> None)) (\<lambda>(st1, r).
                                 Inr (pooled, st1, upd_obj s2 x (\<lambda>_. r))))) (\<lambda>(pooled, stopped, s3).
                   bindE (if stopped then sched_free_request env s3 x else Inr s3) (\<lambda>s4.
                   let acc1 = acc\<lparr>oa_spec_stats := st,
                                  oa_stopped_running := (if stopped \<and> status_before_stop = RUNNING then oa_stopped_running acc @ [x] else oa_stopped_running acc),
                                  oa_stopped_preempted := (if stopped \<and> status_before_stop \<noteq> RUNNING then oa_stopped_preempted acc @ [x] else oa_stopped_preempted acc)\<rparr>;
                       s5 = (if kept \<noteq> [] \<and> should_advance env (objs s4 x) then upd_obj s4 x (\<lambda>r. r\<lparr>grammar_tokens := grammar_tokens r @ kept\<rparr>) else s4);
                       s6 = (case mr_num_nans_in_logits mr of
                               None \<Rightarrow> s5
                             | Some m \<Rightarrow> (case m rid of None \<Rightarrow> s5 | Some k \<Rightarrow> upd_obj s5 x (\<lambda>r. r\<lparr>num_nans_in_logits := k\<rparr>)))
                   in emit_output mr rid idx x kept pooled s6 acc1))))))))"

fun output_steps ::
  "sched_config \<Rightarrow> sched_env \<Rightarrow> scheduler_output \<Rightarrow> model_runner_output \<Rightarrow> (string \<times> int) list \<Rightarrow> scheduler \<Rightarrow> output_acc \<Rightarrow> (scheduler \<times> output_acc) result" where
  "output_steps c env out mr [] s acc = Inr (s, acc)"
| "output_steps c env out mr ((rid, n) # rest) s acc =
     bindE (output_step c env out mr rid n s acc) (\<lambda>(s', acc'). output_steps c env out mr rest s' acc')"

definition drop_stopped :: "scheduler \<Rightarrow> output_acc \<Rightarrow> scheduler result" where
  "drop_stopped s acc =
     (let s1 = (if oa_stopped_running acc \<noteq> [] then s\<lparr>running := remove_all (running s) (oa_stopped_running acc)\<rparr> else s)
      in if oa_stopped_preempted acc \<noteq> []
         then bindE (rq_remove_requests (waiting s1) (oa_stopped_preempted acc)) (\<lambda>w. Inr (s1\<lparr>waiting := w\<rparr>))
         else Inr s1)"

fun add_finished :: "(int \<times> engine_core_outputs) list \<Rightarrow> (int \<times> string set) list \<Rightarrow> (int \<times> engine_core_outputs) list" where
  "add_finished outs [] = outs"
| "add_finished outs ((client, ids) # rest) =
     add_finished
       (od_set outs client
          (case map_of outs client of
             Some eco \<Rightarrow> eco\<lparr>eo_finished_requests := Some ids\<rparr>
           | None \<Rightarrow> \<lparr>eo_outputs = [], eo_finished_requests = Some ids, eo_scheduler_stats = None\<rparr>)) rest"

fun add_stats :: "(int \<times> engine_core_outputs) list \<Rightarrow> scheduler_stats \<Rightarrow> (int \<times> engine_core_outputs) list" where
  "add_stats [] st = [(0, \<lparr>eo_outputs = [], eo_finished_requests = None, eo_scheduler_stats = Some st\<rparr>)]"
| "add_stats ((client, eco) # rest) st = (client, eco\<lparr>eo_scheduler_stats := Some st\<rparr>) # rest"

definition update_from_output ::
  "sched_config \<Rightarrow> sched_env \<Rightarrow> scheduler \<Rightarrow> scheduler_output \<Rightarrow> model_runner_output \<Rightarrow> ((int \<times> engine_core_outputs) list \<times> scheduler) result" where
  "update_from_output c env s out mr =
     bindE (output_steps c env out mr (so_num_scheduled_tokens out) s
              \<lparr>oa_outputs = [], oa_spec_stats = None, oa_stopped_running = [], oa_stopped_preempted = []\<rparr>) (\<lambda>(s1, acc).
     bindE (drop_stopped s1 acc) (\<lambda>s2.
     let outs = map (\<lambda>(client, os). (client, \<lparr>eo_outputs = os, eo_finished_requests = None, eo_scheduler_stats = None\<rparr>)) (oa_outputs acc);
         (outs1, s3) = (case finished_req_ids_dict s2 of
                          Some d \<Rightarrow> if d = [] then (outs, s2) else (add_finished outs d, s2\<lparr>finished_req_ids_dict := Some []\<rparr>)
                        | None \<Rightarrow> (outs, s2))
     in bindE (make_stats c s3 (oa_spec_stats acc)) (\<lambda>(st, s4).
          Inr (case st of None \<Rightarrow> outs1 | Some st \<Rightarrow> add_stats outs1 st, s4))))"

end
