(* ===== verification/Sched_Inv.thy ===== *)
theory Sched_Inv
  imports Sched_Engine KV_Run
begin

text \<open>
  The invariant of the scheduler, for first-come-first-served scheduling of decoder-only models with one full-attention group, and the two
  components it relies on: the choice of encoder inputs leaves the room that the later allocation asserts, and the calls to the KV-cache manager meet the
  conditions under which it returns.
\<close>

section \<open>Encoder inputs\<close>

abbreviation input_hashes :: "sched_request \<Rightarrow> nat list \<Rightarrow> mm_hash list" where
  "input_hashes r ins \<equiv> map ((!) (mm_hashes r)) ins"

text \<open>Inputs chosen for a step: not cached, no hash twice, and with room for all of them.\<close>

definition chosen :: "(mm_hash \<Rightarrow> int) \<Rightarrow> sched_request \<Rightarrow> nat list \<Rightarrow> encoder_cache \<Rightarrow> bool" where
  "chosen sz r ins e \<longleftrightarrow> set ins \<subseteq> {..<length (mm_positions r)} \<and> distinct (input_hashes r ins) \<and> set (input_hashes r ins) \<inter> dom (cached e) = {}
     \<and> sum_list (map sz (input_hashes r ins)) \<le> num_free_slots e"

lemma chosen_mono:
  assumes "chosen sz r ins e" "dom (cached e') \<subseteq> dom (cached e)" "num_free_slots e \<le> num_free_slots e'"
  shows "chosen sz r ins e'"
proof -
  have "set (input_hashes r ins) \<inter> dom (cached e') = {}" using assms(1,2) unfolding chosen_def by blast
  then show ?thesis using assms(1,3) unfolding chosen_def by (elim conjE, intro conjI) (assumption | linarith)+
qed

lemma enc_loop_ok:
  assumes r: "sized sz r" and c: "\<not> is_encoder_decoder c"
  shows "ec_ok sz e \<Longrightarrow> \<forall>(i, p) \<in> set xs. i < length (mm_positions r) \<and> p = mm_positions r ! i \<Longrightarrow> chosen sz r ins e \<Longrightarrow> set hs = set (input_hashes r ins)
    \<Longrightarrow> n_sched = sum_list (map sz (input_hashes r ins)) \<Longrightarrow> 0 \<le> n_new
    \<Longrightarrow> \<exists>ins' n b e'. enc_loop c r n_computed xs e n_new budget hs n_sched ins = Inr ((ins', n, b), e') \<and> ec_ok sz e' \<and> chosen sz r ins' e' \<and> 0 \<le> n \<and> n \<le> n_new"
proof (induction xs arbitrary: e hs n_sched ins budget)
  case Nil
  then show ?case by simp
next
  case (Cons a xs)
  obtain i p where a: "a = (i, p)" by (cases a)
  have i: "i < length (mm_positions r)" "p = mm_positions r ! i" using Cons.prems(2) a by auto
  have xs: "\<forall>(i, p) \<in> set xs. i < length (mm_positions r) \<and> p = mm_positions r ! i" using Cons.prems(2) by auto
  let ?h = "mm_hashes r ! i" and ?loop = "enc_loop c r n_computed"
  have len: "mm_length p = sz ?h" using r i by (simp add: sized_def)
  note step = enc_loop.simps(2)[of c r n_computed i p xs e n_new budget hs n_sched ins, folded a]
  consider (late) "offset p \<ge> n_computed + n_new" | (early) "\<not> offset p \<ge> n_computed + n_new" "offset p + mm_length p \<le> n_computed"
    | (now) "\<not> offset p \<ge> n_computed + n_new" "\<not> offset p + mm_length p \<le> n_computed" by blast
  then show ?case
  proof cases
    case late
    then show ?thesis using Cons.prems step by (simp add: Let_def)
  next
    case early
    then have "?loop (a # xs) e n_new budget hs n_sched ins = ?loop xs e n_new budget hs n_sched ins" using step c by (simp add: Let_def)
    then show ?thesis using Cons.IH[OF Cons.prems(1) xs Cons.prems(3-6)] by simp
  next
    case now
    show ?thesis
    proof (cases "?h \<in> set hs")
      case True
      then have "?loop (a # xs) e n_new budget hs n_sched ins = ?loop xs e n_new budget hs n_sched ins"
        using step c now sizedD(1)[OF r i(1)] by (simp add: Let_def)
      then show ?thesis using Cons.IH[OF Cons.prems(1) xs Cons.prems(3-6)] by simp
    next
      case new: False
      obtain e1 where e1: "check_and_update_cache e r i = Inr (?h \<in> dom (cached e), e1)" "ec_ok sz e1"
        "cached e1 = (case cached e ?h of None \<Rightarrow> cached e | Some refs \<Rightarrow> (cached e)(?h \<mapsto> insert (request_id r) refs))" "num_free_slots e1 = num_free_slots e"
        using check_and_update_cache_ok[OF Cons.prems(1) r i(1) refl] by blast
      have dom1: "dom (cached e1) = dom (cached e)" using e1(3) by (auto split: option.splits)
      then have ch1: "chosen sz r ins e1" using Cons.prems(3) e1(4) by (simp add: chosen_def)
      show ?thesis
      proof (cases "?h \<in> dom (cached e)")
        case True
        then have "?loop (a # xs) e n_new budget hs n_sched ins = ?loop xs e1 n_new budget hs n_sched ins"
          using step c now new sizedD(1)[OF r i(1)] e1(1) by (simp add: Let_def cong: if_cong)
        then show ?thesis using Cons.IH[OF e1(2) xs ch1 Cons.prems(4-6)] by simp
      next
        case False
        then have st: "?loop (a # xs) e n_new budget hs n_sched ins =
            (if no_chunked_mm_input c \<and> n_computed < offset p \<and> n_computed + n_new < offset p + mm_length p then Inr ((ins, offset p - n_computed, budget), e1)
             else bindE (can_allocate e1 r i budget n_sched) (\<lambda>(fits, e2).
               if \<not> fits then Inr ((ins, if n_computed < offset p then offset p - n_computed else 0, budget), e2)
               else ?loop xs e2 n_new (budget - mm_length p) (?h # hs) (n_sched + mm_length p) (ins @ [i])))"
          using step c now new sizedD(1)[OF r i(1)] e1(1) by (simp add: Let_def cong: if_cong)
        obtain e2 k where e2: "can_allocate e1 r i budget n_sched = Inr (sz ?h \<le> budget \<and> sz ?h + n_sched \<le> num_freeable_slots e1, e2)" "ec_ok sz e2"
          "sz ?h \<le> budget \<and> sz ?h + n_sched \<le> num_freeable_slots e1 \<longrightarrow> sz ?h + n_sched \<le> num_free_slots e2"
          "cached e2 = (cached e1) |` (- set (map fst (take k (encoder_cache.freeable e1))))" "cache_size e2 = cache_size e1"
          using can_allocate_ok[OF e1(2) r i(1) refl, of budget n_sched] by blast
        have dom2: "dom (cached e2) \<subseteq> dom (cached e)" using e2(4) dom1 by auto
        have free2: "num_free_slots e1 \<le> num_free_slots e2"
          using ec_okD(7)[OF e1(2)] ec_okD(7)[OF e2(2)] e2(5) sum_mono2[OF ec_okD(4)[OF e1(2)], of "dom (cached e2)" sz] ec_okD(5)[OF e1(2)] e2(4) by force
        have ch2: "chosen sz r ins e2" by (rule chosen_mono[OF ch1 _ free2]) (use dom1 dom2 in simp)
        have pos: "offset p - n_computed \<le> n_new" using now by simp
        show ?thesis
        proof (cases "no_chunked_mm_input c \<and> n_computed < offset p \<and> n_computed + n_new < offset p + mm_length p")
          case True
          then show ?thesis using st e1(2) ch1 pos by simp
        next
          case chunk: False
          show ?thesis
          proof (cases "sz ?h \<le> budget \<and> sz ?h + n_sched \<le> num_freeable_slots e1")
            case no_fit: False
            then show ?thesis using st chunk e2(1,2) ch2 pos Cons.prems(6) by simp
          next
            case fits: True
            have "?h \<notin> set (input_hashes r ins)" using new Cons.prems(4) by simp
            moreover have "?h \<notin> dom (cached e2)" using False dom2 by blast
            moreover have "sum_list (map sz (input_hashes r (ins @ [i]))) \<le> num_free_slots e2" using fits e2(3) Cons.prems(5) by simp
            ultimately have ch: "chosen sz r (ins @ [i]) e2" using ch2 i(1) by (simp add: chosen_def)
            have "?loop (a # xs) e n_new budget hs n_sched ins = ?loop xs e2 n_new (budget - mm_length p) (?h # hs) (n_sched + mm_length p) (ins @ [i])"
              using st chunk e2(1) fits by simp
            then show ?thesis using Cons.IH[OF e2(2) xs ch, of "?h # hs" "n_sched + mm_length p" "budget - mm_length p"] Cons.prems(4,5,6) len by simp
          qed
        qed
      qed
    qed
  qed
qed

lemma try_schedule_ok:
  assumes "sized sz r" "\<not> is_encoder_decoder c" "ec_ok sz e" "0 \<le> n_new"
  shows "\<exists>ins n b e'. try_schedule_encoder_inputs c e r n_computed n_new budget = Inr ((ins, n, b), e') \<and> ec_ok sz e' \<and> chosen sz r ins e' \<and> 0 \<le> n \<and> n \<le> n_new"
proof (cases "n_new = 0 \<or> \<not> has_encoder_inputs r")
  case True
  then show ?thesis using assms ec_okD(6)[OF assms(3)] by (simp add: try_schedule_encoder_inputs_def chosen_def)
next
  case False
  have "\<forall>(i, p) \<in> set (enumerate 0 (mm_positions r)). i < length (mm_positions r) \<and> p = mm_positions r ! i" by (auto simp: in_set_enumerate_eq)
  from enc_loop_ok[OF assms(1,2,3) this, of "[]" "[]" 0 n_new n_computed budget] show ?thesis
    using assms(4) ec_okD(6)[OF assms(3)] False by (simp add: try_schedule_encoder_inputs_def chosen_def)
qed

lemma allocate_inputs_ok:
  assumes r: "sized sz r"
  shows "ec_ok sz e \<Longrightarrow> chosen sz r ins e \<Longrightarrow> \<exists>e'. allocate_inputs e r ins = Inr e' \<and> ec_ok sz e'"
proof (induction ins arbitrary: e)
  case (Cons i ins)
  let ?h = "mm_hashes r ! i"
  have i: "i < length (mm_positions r)" "?h \<notin> dom (cached e)" using Cons.prems(2) by (auto simp: chosen_def)
  have nn: "0 \<le> sum_list (map sz (input_hashes r ins))"
    using Cons.prems(2) sizedD(3)[OF r] by (intro sum_list_nonneg) (auto simp: chosen_def)
  then have room: "sz ?h \<le> num_free_slots e" using Cons.prems(2) by (simp add: chosen_def)
  obtain e1 where e1: "ec_allocate e r i = Inr e1" "ec_ok sz e1" "cached e1 = (cached e)(?h \<mapsto> {request_id r})" "num_free_slots e1 = num_free_slots e - sz ?h"
    using ec_allocate_ok[OF Cons.prems(1) r i(1) refl i(2) room] by blast
  have "chosen sz r ins e1" using Cons.prems(2) e1(3,4) by (auto simp: chosen_def)
  from Cons.IH[OF e1(2) this] e1(1) show ?case by simp
qed simp

section \<open>The invariant\<close>

text \<open>The hashes of a request: none twice, none beyond its tokens, and one per full block when prefix caching is on.\<close>

definition hashes_ok :: "bool \<Rightarrow> int \<Rightarrow> sched_request \<Rightarrow> bool" where
  "hashes_ok caching bs r \<longleftrightarrow> distinct (block_hashes r) \<and> int (length (block_hashes r)) * bs \<le> num_req_tokens r
     \<and> (caching \<longrightarrow> int (length (block_hashes r)) = num_req_tokens r div bs)"

text \<open>What the block hasher reads of a request. The predicate \<open>G\<close> on it stands for what the hasher maintains beyond \<open>hashes_ok\<close>.\<close>

definition hash_view :: "sched_request \<Rightarrow> request" where
  "hash_view r = (kv_request r)\<lparr>num_computed_tokens := 0, prompt_logprobs := False\<rparr>"

definition req_ok :: "sched_config \<Rightarrow> (mm_hash \<Rightarrow> int) \<Rightarrow> (request \<Rightarrow> bool) \<Rightarrow> bool \<Rightarrow> int \<Rightarrow> sched_request \<Rightarrow> bool" where
  "req_ok c sz G caching bs r \<longleftrightarrow> sized sz r \<and> 1 \<le> num_req_tokens r \<and> num_req_tokens r < max_model_len c \<and> num_output_placeholders r = 0 \<and> hashes_ok caching bs r
     \<and> (pooling r \<or> sampling r \<noteq> None) \<and> G (hash_view r)"

text \<open>A running request of which \<open>n\<close> tokens are booked in the current step; \<open>h\<close> is what it holds in the KV cache: how many of its blocks are cached, and how many it owns.\<close>

definition runs_ok :: "sched_config \<Rightarrow> int \<Rightarrow> nat option \<times> nat \<Rightarrow> int \<Rightarrow> sched_request \<Rightarrow> bool" where
  "runs_ok c bs h n r \<longleftrightarrow> status r = RUNNING \<and> 0 \<le> num_computed_tokens r \<and> 0 \<le> n
     \<and> num_computed_tokens r + n \<le> num_tokens_with_spec r \<and> num_computed_tokens r + n < max_model_len c
     \<and> num_computed_tokens r + n \<le> int (snd h) * bs
     \<and> (case fst h of None \<Rightarrow> False | Some k \<Rightarrow> int k * bs \<le> num_computed_tokens r + n \<and> int k * bs \<le> num_req_tokens r)"

definition waits_ok :: "sched_request \<Rightarrow> bool" where
  "waits_ok r \<longleftrightarrow> status r \<in> {WAITING, WAITING_FOR_FSM, PREEMPTED} \<and> num_computed_tokens r = 0"

abbreviation rid_of :: "scheduler \<Rightarrow> rref \<Rightarrow> string" where
  "rid_of s x \<equiv> request_id (objs s x)"

abbreviation cached_blocks :: "scheduler \<Rightarrow> string \<Rightarrow> nat option" where
  "cached_blocks s \<equiv> num_cached_block (the_manager (kv s))"

abbreviation holding :: "kv_manager \<Rightarrow> string \<Rightarrow> nat option \<times> nat" where
  "holding k rid \<equiv> (num_cached_block (the_manager k) rid, length (table k rid))"

text \<open>\<open>K\<close> says whether prefix caching is on and gives the block size, \<open>b\<close> the tokens booked so far; \<open>ws\<close> lists the requests that wait or are skipped.\<close>

definition sched_inv :: "sched_config \<Rightarrow> (mm_hash \<Rightarrow> int) \<Rightarrow> (request \<Rightarrow> bool) \<Rightarrow> bool \<times> int \<Rightarrow> (string \<Rightarrow> int) \<Rightarrow> rref list \<Rightarrow> scheduler \<Rightarrow> bool" where
  "sched_inv c sz G K b ws s \<longleftrightarrow> km_ok (kv s) \<and> km_max_model_len (kv s) = max_model_len c \<and> ec_ok sz (encoder s) \<and> distinct (running s @ ws)
     \<and> log_stats (kv s) = sched_log_stats c \<and> (km_enable_caching (kv s), block_size_of (kv s)) = K \<and> length (running s) \<le> max_num_running_reqs c
     \<and> (\<forall>x \<in> set (running s @ ws). requests s (rid_of s x) = Some x \<and> req_ok c sz G (km_enable_caching (kv s)) (block_size_of (kv s)) (objs s x))
     \<and> (\<forall>rid x. requests s rid = Some x \<longrightarrow> x \<in> set (running s @ ws) \<and> rid_of s x = rid)
     \<and> (\<forall>x \<in> set (running s). runs_ok c (block_size_of (kv s)) (holding (kv s) (rid_of s x)) (b (rid_of s x)) (objs s x))
     \<and> (\<forall>x \<in> set ws. waits_ok (objs s x))
     \<and> (\<forall>rid. rid \<notin> rid_of s ` set (running s) \<longrightarrow> b rid = 0 \<and> cached_blocks s rid = None \<and> table (kv s) rid = [])"

lemma sched_invD:
  assumes "sched_inv c sz G K b ws s"
  shows "km_ok (kv s)" "km_max_model_len (kv s) = max_model_len c" "ec_ok sz (encoder s)" "distinct (running s @ ws)" "length (running s) \<le> max_num_running_reqs c"
    "x \<in> set (running s @ ws) \<Longrightarrow> requests s (rid_of s x) = Some x"
    "x \<in> set (running s @ ws) \<Longrightarrow> req_ok c sz G (km_enable_caching (kv s)) (block_size_of (kv s)) (objs s x)"
    "requests s rid = Some x \<Longrightarrow> x \<in> set (running s @ ws)" "requests s rid = Some x \<Longrightarrow> rid_of s x = rid"
    "x \<in> set (running s) \<Longrightarrow> runs_ok c (block_size_of (kv s)) (holding (kv s) (rid_of s x)) (b (rid_of s x)) (objs s x)"
    "x \<in> set ws \<Longrightarrow> waits_ok (objs s x)" "rid \<notin> rid_of s ` set (running s) \<Longrightarrow> b rid = 0"
    "rid \<notin> rid_of s ` set (running s) \<Longrightarrow> cached_blocks s rid = None" "rid \<notin> rid_of s ` set (running s) \<Longrightarrow> table (kv s) rid = []"
    "log_stats (kv s) = sched_log_stats c" "(km_enable_caching (kv s), block_size_of (kv s)) = K"
  using assms unfolding sched_inv_def by (elim conjE; simp)+

text \<open>Different requests have different ids.\<close>

lemma rid_inj:
  assumes "sched_inv c sz G K b ws s" "x \<in> set (running s @ ws)" "y \<in> set (running s @ ws)" "rid_of s x = rid_of s y"
  shows "x = y"
  using trans[OF sched_invD(6)[OF assms(1,2), unfolded assms(4), symmetric] sched_invD(6)[OF assms(1,3)]] by (rule option.inject[THEN iffD1])

lemma waiting_rid:
  assumes "sched_inv c sz G K b ws s" "x \<in> set ws"
  shows "rid_of s x \<notin> rid_of s ` set (running s)"
proof
  assume "rid_of s x \<in> rid_of s ` set (running s)"
  then obtain y where "y \<in> set (running s)" "rid_of s y = rid_of s x" by auto
  then have "y = x" using rid_inj[OF assms(1), of y x] assms(2) by simp
  then show False using \<open>y \<in> set (running s)\<close> sched_invD(4)[OF assms(1)] assms(2) by auto
qed

text \<open>Changes that the invariant does not see.\<close>

lemma inv_encoder: "sched_inv c sz G K b ws s \<Longrightarrow> ec_ok sz e \<Longrightarrow> sched_inv c sz G K b ws (s\<lparr>encoder := e\<rparr>)"
  by (simp add: sched_inv_def)

lemma inv_kv:
  assumes "sched_inv c sz G K b ws s" "km_ok k" "same_setup (kv s) k" "table k = table (kv s)" "num_cached_block (the_manager k) = cached_blocks s"
  shows "sched_inv c sz G K b ws (s\<lparr>kv := k\<rparr>)"
  using assms by (simp add: sched_inv_def same_setup_def)

lemma inv_reorder:
  assumes "sched_inv c sz G K b ws s" "distinct ws'" "set ws' = set ws"
  shows "sched_inv c sz G K b ws' s" "sched_inv c sz G K b ws' (s\<lparr>waiting := w\<rparr>)"
  using assms by (simp_all add: sched_inv_def)

text \<open>A request changes, but neither its id nor what it must satisfy.\<close>

lemma inv_obj:
  assumes inv: "sched_inv c sz G K b ws s" and f: "request_id (f (objs s x)) = rid_of s x"
    "req_ok c sz G (km_enable_caching (kv s)) (block_size_of (kv s)) (objs s x) \<Longrightarrow> req_ok c sz G (km_enable_caching (kv s)) (block_size_of (kv s)) (f (objs s x))"
    "x \<in> set (running s) \<Longrightarrow> runs_ok c (block_size_of (kv s)) (holding (kv s) (rid_of s x)) (b (rid_of s x)) (f (objs s x))"
    "x \<in> set ws \<Longrightarrow> waits_ok (f (objs s x))"
  shows "sched_inv c sz G K b ws (upd_obj s x f)"
proof -
  have id: "rid_of (upd_obj s x f) y = rid_of s y" for y using f(1) by (simp add: upd_obj_def)
  show ?thesis using inv f(2-4) unfolding sched_inv_def id
    by (simp add: upd_obj_def)
qed

section \<open>Growing and preempting\<close>

lemma kv_request_fields [simp]:
  "request_id (kv_request r) = request_id r" "num_computed_tokens (kv_request r) = num_computed_tokens r" "block_hashes (kv_request r) = block_hashes r"
  "int (num_tokens (kv_request r)) = num_req_tokens r" "prompt_logprobs (kv_request r) = prompt_logprobs r"
  by (simp_all add: request.truncate_def num_tokens_def num_req_tokens_def)

lemma req_okD:
  assumes "req_ok c sz G caching bs r"
  shows "sized sz r" "1 \<le> num_req_tokens r" "num_req_tokens r < max_model_len c" "num_output_placeholders r = 0" "distinct (block_hashes r)"
    "int (length (block_hashes r)) * bs \<le> num_req_tokens r" "caching \<Longrightarrow> int (length (block_hashes r)) = num_req_tokens r div bs"
    "hashes_ok caching bs r" "pooling r \<or> sampling r \<noteq> None" "G (hash_view r)"
  using assms by (simp_all add: req_ok_def hashes_ok_def)

lemma runs_okD:
  assumes "runs_ok c bs h n r"
  obtains k where "fst h = Some k" "int k * bs \<le> num_computed_tokens r + n" "int k * bs \<le> num_req_tokens r" "status r = RUNNING"
    "0 \<le> num_computed_tokens r" "0 \<le> n" "num_computed_tokens r + n \<le> num_tokens_with_spec r" "num_computed_tokens r + n < max_model_len c"
    "num_computed_tokens r + n \<le> int (snd h) * bs"
  using assms by (auto simp: runs_ok_def split: option.splits)

text \<open>Granted slots cover all tokens below the length limit.\<close>

lemma slots_cover:
  assumes k: "km_ok k" and so: "slots_ok k r cs final (min slots (km_max_model_len k)) res k'" and res: "res \<noteq> None" and m: "m \<le> slots" "m \<le> km_max_model_len k"
  shows "m \<le> int (length (table k' (request_id r))) * block_size_of k"
proof -
  have bs: "block_size_of k > 0" by (rule km_okD(5)[OF k])
  have "ceil_div (min slots (km_max_model_len k)) (block_size_of k) \<le> int (length (table k' (request_id r)))" using so res by (cases res) (simp_all add: slots_ok_def)
  then show ?thesis using ceil_div_least[OF bs] m by (meson min.boundedI order_trans)
qed

lemma grow_inv:
  assumes inv: "sched_inv c sz G K b ws s" and x: "x \<in> set (running s)" "b (rid_of s x) = 0" and n: "0 < n"
    "num_computed_tokens (objs s x) + n \<le> num_tokens_with_spec (objs s x)" "num_computed_tokens (objs s x) + n < max_model_len c"
  shows "\<exists>res k. allocate_slots (kv s) (kv_request (objs s x)) n 0 None look False 0 = Inr (res, k)
    \<and> sched_inv c sz G K (if res = None then b else b(rid_of s x := n)) ws (s\<lparr>kv := k\<rparr>)"
proof -
  let ?r = "objs s x" and ?rid = "rid_of s x" and ?bs = "block_size_of (kv s)"
  note D = sched_invD[OF inv]
  have ro: "req_ok c sz G (km_enable_caching (kv s)) ?bs ?r" using D(7) x(1) by simp
  obtain nc where nc: "cached_blocks s ?rid = Some nc" "int nc * ?bs \<le> num_computed_tokens ?r" "int nc * ?bs \<le> num_req_tokens ?r"
    "status ?r = RUNNING" "0 \<le> num_computed_tokens ?r"
    using runs_okD[OF D(10)[OF x(1)]] x(2) by auto
  have adm: "admissible (kv s) (request_id (kv_request ?r)) []" using nc(1) by (simp add: admissible_def)
  have step: "km_enable_caching (kv s) \<and> \<not> False \<longrightarrow> cacheable_step (kv s) (kv_request ?r) [] (num_computed_tokens (kv_request ?r) + 0 + n)"
    using nc n(1) req_okD(3,7)[OF ro] D(2) by (auto simp: cacheable_step_def cached_before_def)
  obtain res k where a: "allocate_slots (kv s) (kv_request ?r) n 0 None look False 0 = Inr (res, k)"
    and so: "slots_ok (kv s) (kv_request ?r) [] (num_computed_tokens ?r + n) (min (num_computed_tokens ?r + 0 + n + int look) (km_max_model_len (kv s))) res k"
    using allocate_slots_ok[OF D(1) n(1) adm _ step, of None look] by auto
  show ?thesis
  proof (cases res)
    case None
    then have "sched_inv c sz G K b ws (s\<lparr>kv := k\<rparr>)" using so by (intro inv_kv[OF inv]) (simp_all add: slots_ok_def)
    then show ?thesis using a None by auto
  next
    case (Some bss)
    then obtain nc' where nc': "num_cached_block (the_manager k) ?rid = Some nc'"
      "nc' = nc \<or> nc' \<le> length (block_hashes ?r) \<and> int nc' * ?bs \<le> num_computed_tokens ?r + n"
      using so nc(1) by (auto simp: slots_ok_def cached_before_def)
    have bs: "?bs > 0" by (rule km_okD(5)[OF D(1)])
    have "int nc' * ?bs \<le> num_req_tokens ?r" if "nc' \<le> length (block_hashes ?r)"
    proof -
      have "int nc' * ?bs \<le> int (length (block_hashes ?r)) * ?bs" using that bs by (intro mult_right_mono) auto
      then show ?thesis using req_okD(6)[OF ro] by simp
    qed
    moreover have "num_computed_tokens ?r + n \<le> int (length (table k ?rid)) * ?bs"
      using slots_cover[OF D(1) so, of "num_computed_tokens ?r + n"] Some n(3) D(2) by simp
    ultimately have run: "runs_ok c ?bs (holding k ?rid) n ?r"
      using nc nc' n by (auto simp: runs_ok_def)
    have same: "km_ok k" "same_setup (kv s) k" "rid \<noteq> ?rid \<Longrightarrow> table k rid = table (kv s) rid" "rid \<noteq> ?rid \<Longrightarrow> num_cached_block (the_manager k) rid = cached_blocks s rid" for rid
      using so by (simp_all add: slots_ok_def)
    have "runs_ok c ?bs (holding k (rid_of s y)) ((b(?rid := n)) (rid_of s y)) (objs s y)" if "y \<in> set (running s)" for y
      using run D(10)[OF that] same(3,4)[of "rid_of s y"] rid_inj[OF inv, of x y] x(1) that by (cases "rid_of s y = ?rid") auto
    moreover have "(b(?rid := n)) rid = 0 \<and> num_cached_block (the_manager k) rid = None \<and> table k rid = []" if "rid \<notin> rid_of s ` set (running s)" for rid
      using D(12-14)[OF that] same(3,4)[of rid] that x(1) by auto
    ultimately have "sched_inv c sz G K (b(?rid := n)) ws (s\<lparr>kv := k\<rparr>)"
      using inv same(1,2) unfolding sched_inv_def same_setup_def by simp
    then show ?thesis using a Some by auto
  qed
qed

lemma preempted_fields [simp]:
  "request_id (preempted c t r) = request_id r" "status (preempted c t r) = PREEMPTED" "num_computed_tokens (preempted c t r) = 0"
  "req_ok c' sz G caching bs (preempted c t r) = req_ok c' sz G caching bs r"
  by (simp_all add: preempted_def record_event_def Let_def req_ok_def hashes_ok_def sized_def num_req_tokens_def hash_view_def request.truncate_def)

lemma preempt_inv:
  assumes inv: "sched_inv c sz G K b ws s" and c: "policy c = FCFS" and it: "iterates (set_order env)"
    and r: "running s = xs @ [y]" "b (rid_of s y) = 0" and w: "waiting s = Fcfs_queue w"
  shows "\<exists>s'. preempt c env s l = Inr (y, s', l\<lparr>preempted_reqs := preempted_reqs l @ [y]\<rparr>) \<and> sched_inv c sz G K b (y # ws) s'
    \<and> running s' = xs \<and> waiting s' = Fcfs_queue (y # w) \<and> requests s' = requests s \<and> objs s' = (objs s)(y := preempted c (env_now env) (objs s y))
    \<and> dom (cached (encoder s')) = dom (cached (encoder s)) \<and> num_free_slots (encoder s') = num_free_slots (encoder s)"
proof -
  note D = sched_invD[OF inv]
  let ?p = "preempted c (env_now env)" and ?rid = "rid_of s y"
  have y: "y \<in> set (running s)" using r by simp
  have ro: "req_ok c sz G (km_enable_caching (kv s)) (block_size_of (kv s)) (objs s y)" using D(7) y by simp
  obtain k where k: "km_free (kv s) (kv_request (objs s y)) = Inr k" "km_ok k" "same_setup (kv s) k" "table k = (table (kv s))(?rid := [])"
    "num_cached_block (the_manager k) = (cached_blocks s)(?rid := None)"
    using km_free_ok[OF D(1), of "kv_request (objs s y)"] by auto
  obtain e where e: "ec_free (set_order env) (encoder s) (objs s y) = Inr e" "ec_ok sz e" "dom (cached e) = dom (cached (encoder s))"
    "num_free_slots e = num_free_slots (encoder s)"
    using ec_free_ok[OF D(3) req_okD(1)[OF ro] it] by blast
  define s' where "s' = s\<lparr>objs := (objs s)(y := ?p (objs s y)), running := xs, kv := k, encoder := e, waiting := Fcfs_queue (y # w)\<rparr>"
  have "preempt c env s l = Inr (y, s', l\<lparr>preempted_reqs := preempted_reqs l @ [y]\<rparr>)"
    using c r(1) k(1) e(1) w by (simp add: preempt_def pick_victim_def upd_obj_def fcfs_prepend_request_def s'_def Let_def)
  moreover have "sched_inv c sz G K b (y # ws) s'"
  proof -
    have id: "rid_of s' x = rid_of s x" for x by (simp add: s'_def)
    have nid: "rid_of s x \<noteq> ?rid" if "x \<in> set xs" for x
      using rid_inj[OF inv, of x y] that r(1) D(4) by auto
    have run: "runs_ok c (block_size_of k) (holding k (rid_of s x)) (b (rid_of s x)) (objs s' x)" if "x \<in> set xs" for x
      using D(10)[of x] that r(1) nid[OF that] k(3-5) by (auto simp: s'_def same_setup_def)
    have out: "b rid = 0 \<and> num_cached_block (the_manager k) rid = None \<and> table k rid = []" if "rid \<notin> rid_of s ` set xs" for rid
      using D(12-14)[of rid] that r k(4,5) by (cases "rid = ?rid") auto
    show ?thesis unfolding sched_inv_def id
      using inv k(2,3) e(2) r(1) ro run out
      by (simp add: s'_def sched_inv_def same_setup_def waits_ok_def)
  qed
  ultimately show ?thesis using e(3,4) by (intro exI[of _ s']) (simp add: s'_def)
qed

text \<open>The victims of one call: a suffix of the running requests from the current one on, moved in order to the front of the queue.\<close>

definition evicted :: "rref list \<Rightarrow> sched_local \<Rightarrow> sched_local" where
  "evicted Q l = l\<lparr>preempted_reqs := preempted_reqs l @ rev Q\<rparr>"

lemma evicted_simps [simp]: "evicted [] l = l" "evicted Q (evicted [y] l) = evicted (Q @ [y]) l"
  by (cases l; simp add: evicted_def)+

lemma allocate_or_preempt_inv:
  assumes c: "policy c = FCFS" and it: "iterates (set_order env)" and n: "0 < n"
  shows "sched_inv c sz G K b ws s \<Longrightarrow> running s = P @ x # Q \<Longrightarrow> waiting s = Fcfs_queue w \<Longrightarrow> \<forall>y \<in> set (x # Q). b (rid_of s y) = 0
    \<Longrightarrow> num_computed_tokens (objs s x) + n \<le> num_tokens_with_spec (objs s x) \<Longrightarrow> num_computed_tokens (objs s x) + n < max_model_len c
    \<Longrightarrow> \<exists>res s' Q1 Q2. allocate_or_preempt c env x n s l = Inr (res, s', evicted Q2 l)
      \<and> sched_inv c sz G K (if res = None then b else b(rid_of s x := n)) (Q2 @ ws) s' \<and> x # Q = Q1 @ Q2 \<and> running s' = P @ Q1 \<and> waiting s' = Fcfs_queue (Q2 @ w)
      \<and> requests s' = requests s \<and> (\<forall>y. rid_of s' y = rid_of s y) \<and> (\<forall>y. y \<notin> set Q2 \<longrightarrow> objs s' y = objs s y)
      \<and> dom (cached (encoder s')) = dom (cached (encoder s)) \<and> num_free_slots (encoder s') = num_free_slots (encoder s) \<and> (res = None \<longleftrightarrow> Q1 = [])"
proof (induction Q arbitrary: s l ws w rule: rev_induct)
  case Nil
  have x: "x \<in> set (running s)" "b (rid_of s x) = 0" using Nil by simp_all
  obtain res k where a: "allocate_slots (kv s) (kv_request (objs s x)) n 0 None (num_lookahead_tokens c) False 0 = Inr (res, k)"
    "sched_inv c sz G K (if res = None then b else b(rid_of s x := n)) ws (s\<lparr>kv := k\<rparr>)"
    using grow_inv[OF Nil(1) x n Nil(5,6)] by blast
  show ?case
  proof (cases res)
    case None
    then have inv: "sched_inv c sz G K b ws (s\<lparr>kv := k\<rparr>)" using a(2) by simp
    obtain s' where p: "preempt c env (s\<lparr>kv := k\<rparr>) l = Inr (x, s', l\<lparr>preempted_reqs := preempted_reqs l @ [x]\<rparr>)" "sched_inv c sz G K b (x # ws) s'"
      "running s' = P" "waiting s' = Fcfs_queue (x # w)" "requests s' = requests s" "objs s' = (objs s)(x := preempted c (env_now env) (objs s x))"
      "dom (cached (encoder s')) = dom (cached (encoder s))" "num_free_slots (encoder s') = num_free_slots (encoder s)"
      using preempt_inv[OF inv c it, of P x w l] Nil x(2) by auto
    have "allocate_or_preempt c env x n s l = Inr (None, s', evicted [x] l)"
      using a(1) None p(1) by (subst allocate_or_preempt.simps) (simp add: evicted_def)
    with p(2-8) show ?thesis by - (rule exI[of _ None], rule exI[of _ s'], rule exI[of _ "[]"], rule exI[of _ "[x]"], simp add: fun_upd_def)
  next
    case (Some bs)
    then have "allocate_or_preempt c env x n s l = Inr (res, s\<lparr>kv := k\<rparr>, evicted [] l)" using a(1) by (subst allocate_or_preempt.simps) simp
    with a(2) Some Nil show ?thesis by - (rule exI[of _ res], rule exI[of _ "s\<lparr>kv := k\<rparr>"], rule exI[of _ "[x]"], rule exI[of _ "[]"], simp add: fun_upd_def)
  qed
next
  case (snoc y Q)
  have x: "x \<in> set (running s)" "b (rid_of s x) = 0" using snoc.prems by simp_all
  have yx: "y \<noteq> x" "y \<notin> set Q" using sched_invD(4)[OF snoc.prems(1)] snoc.prems(2) by auto
  obtain res k where a: "allocate_slots (kv s) (kv_request (objs s x)) n 0 None (num_lookahead_tokens c) False 0 = Inr (res, k)"
    "sched_inv c sz G K (if res = None then b else b(rid_of s x := n)) ws (s\<lparr>kv := k\<rparr>)"
    using grow_inv[OF snoc.prems(1) x n snoc.prems(5,6)] by blast
  show ?case
  proof (cases res)
    case None
    then have inv: "sched_inv c sz G K b ws (s\<lparr>kv := k\<rparr>)" using a(2) by simp
    have "running (s\<lparr>kv := k\<rparr>) = (P @ x # Q) @ [y]" "b (rid_of (s\<lparr>kv := k\<rparr>) y) = 0" "waiting (s\<lparr>kv := k\<rparr>) = Fcfs_queue w" using snoc.prems by simp_all
    from preempt_inv[OF inv c it this, of l] obtain s1 where p: "preempt c env (s\<lparr>kv := k\<rparr>) l = Inr (y, s1, evicted [y] l)" "sched_inv c sz G K b (y # ws) s1"
      "running s1 = P @ x # Q" "waiting s1 = Fcfs_queue (y # w)" "requests s1 = requests s" "objs s1 = (objs s)(y := preempted c (env_now env) (objs s y))"
      "dom (cached (encoder s1)) = dom (cached (encoder s))" "num_free_slots (encoder s1) = num_free_slots (encoder s)" by (auto simp: evicted_def)
    have o: "rid_of s1 z = rid_of s z" "objs s1 x = objs s x" for z using p(6) yx(1) by simp_all
    have pre: "\<forall>z \<in> set (x # Q). b (rid_of s1 z) = 0" "num_computed_tokens (objs s1 x) + n \<le> num_tokens_with_spec (objs s1 x)"
      "num_computed_tokens (objs s1 x) + n < max_model_len c" using snoc.prems(4-6) o by simp_all
    obtain res' s' Q1 Q2 where i: "allocate_or_preempt c env x n s1 (evicted [y] l) = Inr (res', s', evicted Q2 (evicted [y] l))"
      "sched_inv c sz G K (if res' = None then b else b(rid_of s1 x := n)) (Q2 @ y # ws) s'" "x # Q = Q1 @ Q2" "running s' = P @ Q1" "waiting s' = Fcfs_queue (Q2 @ y # w)"
      "requests s' = requests s1" "\<forall>z. rid_of s' z = rid_of s1 z" "\<forall>z. z \<notin> set Q2 \<longrightarrow> objs s' z = objs s1 z"
      "dom (cached (encoder s')) = dom (cached (encoder s1))" "num_free_slots (encoder s') = num_free_slots (encoder s1)" "res' = None \<longleftrightarrow> Q1 = []"
      using snoc.IH[OF p(2,3,4) pre, of "evicted [y] l"] by (elim exE conjE) (rule that)
    have "allocate_or_preempt c env x n s l = Inr (res', s', evicted (Q2 @ [y]) l)"
      using a(1) None p(1) yx(1) i(1) by (subst allocate_or_preempt.simps) simp
    moreover have "sched_inv c sz G K (if res' = None then b else b(rid_of s x := n)) ((Q2 @ [y]) @ ws) s'" using i(2) unfolding o(1) by simp
    moreover have "\<forall>z. z \<notin> set (Q2 @ [y]) \<longrightarrow> objs s' z = objs s z" using i(8) p(6) by simp
    moreover have "\<forall>z. rid_of s' z = rid_of s z" using i(7) o(1) by simp
    ultimately show ?thesis using i(3-6,9-11) p(5,7,8)
      by - (rule exI[of _ res'], rule exI[of _ s'], rule exI[of _ Q1], rule exI[of _ "Q2 @ [y]"], intro conjI, simp_all)
  next
    case (Some bs)
    then have "allocate_or_preempt c env x n s l = Inr (res, s\<lparr>kv := k\<rparr>, evicted [] l)" using a(1) by (subst allocate_or_preempt.simps) simp
    with a(2) Some snoc.prems show ?thesis by - (rule exI[of _ res], rule exI[of _ "s\<lparr>kv := k\<rparr>"], rule exI[of _ "x # Q @ [y]"], rule exI[of _ "[]"], simp add: fun_upd_def)
  qed
qed

section \<open>The bookkeeping of a step\<close>

definition booked :: "sched_local \<Rightarrow> string \<Rightarrow> int" where
  "booked l rid = (case map_of (num_scheduled_tokens l) rid of None \<Rightarrow> 0 | Some n \<Rightarrow> n)"

definition scheduled :: "sched_local \<Rightarrow> rref list" where
  "scheduled l = scheduled_new_reqs l @ scheduled_resumed_reqs l @ scheduled_running_reqs l"

definition local_ok :: "sched_config \<Rightarrow> scheduler \<Rightarrow> sched_local \<Rightarrow> bool" where
  "local_ok c s l \<longleftrightarrow> distinct (scheduled l) \<and> set (scheduled l) \<subseteq> set (running s) \<and> fst ` set (num_scheduled_tokens l) = rid_of s ` set (scheduled l)
     \<and> distinct (map fst (num_scheduled_tokens l)) \<and> dom (req_to_new_blocks l) = rid_of s ` set (scheduled l)
     \<and> (\<forall>p \<in> set (num_scheduled_tokens l). 0 < snd p) \<and> 0 \<le> token_budget l \<and> total_scheduled l + token_budget l = max_num_scheduled_tokens c"

text \<open>Two records that differ at most in encoder inputs and drafts.\<close>

definition same_booking :: "sched_local \<Rightarrow> sched_local \<Rightarrow> bool" where
  "same_booking l l' \<longleftrightarrow> scheduled_new_reqs l' = scheduled_new_reqs l \<and> scheduled_resumed_reqs l' = scheduled_resumed_reqs l
     \<and> scheduled_running_reqs l' = scheduled_running_reqs l \<and> preempted_reqs l' = preempted_reqs l \<and> req_to_new_blocks l' = req_to_new_blocks l
     \<and> num_scheduled_tokens l' = num_scheduled_tokens l \<and> token_budget l' = token_budget l"

lemma same_bookingD:
  assumes "same_booking l l'"
  shows "booked l' = booked l" "scheduled l' = scheduled l" "local_ok c s l' = local_ok c s l" "preempted_reqs l' = preempted_reqs l"
    "token_budget l' = token_budget l" "num_scheduled_tokens l' = num_scheduled_tokens l"
  using assms by (simp_all add: same_booking_def booked_def[abs_def] scheduled_def local_ok_def total_scheduled_def)

lemma same_booking_refl [simp]: "same_booking l l"
  by (simp add: same_booking_def)

lemma local_ok_cong:
  assumes "local_ok c s l" "\<forall>y. rid_of s' y = rid_of s y" "set (scheduled l) \<subseteq> set (running s')"
  shows "local_ok c s' l"
  using assms by (simp add: local_ok_def)

lemma init_local_ok: "0 \<le> max_num_scheduled_tokens c \<Longrightarrow> local_ok c s (init_local c)" "booked (init_local c) = (\<lambda>_. 0)" "scheduled (init_local c) = []" "preempted_reqs (init_local c) = []"
  by (simp_all add: local_ok_def init_local_def scheduled_def total_scheduled_def booked_def fun_eq_iff)

lemma evicted_booking [simp]:
  "booked (evicted Q l) = booked l" "scheduled (evicted Q l) = scheduled l" "token_budget (evicted Q l) = token_budget l"
  "num_scheduled_tokens (evicted Q l) = num_scheduled_tokens l" "req_to_new_blocks (evicted Q l) = req_to_new_blocks l"
  "set (preempted_reqs (evicted Q l)) = set (preempted_reqs l) \<union> set Q" "encoder_compute_budget (evicted Q l) = encoder_compute_budget l"
  "scheduled_new_reqs (evicted Q l) = scheduled_new_reqs l" "scheduled_resumed_reqs (evicted Q l) = scheduled_resumed_reqs l"
  by (simp_all add: evicted_def booked_def scheduled_def fun_eq_iff)

lemma evicted_local_ok: "local_ok c s (evicted Q l) = local_ok c s l"
  unfolding local_ok_def total_scheduled_def by (simp only: evicted_booking)

lemma booked_none: "local_ok c s l \<Longrightarrow> rid \<notin> rid_of s ` set (scheduled l) \<Longrightarrow> booked l rid = 0"
  unfolding booked_def local_ok_def by (simp add: map_of_eq_None_iff[THEN iffD2])

lemma unscheduled_unbooked:
  assumes "sched_inv c sz G K b ws s" "local_ok c s l" "x \<in> set (running s @ ws)" "x \<notin> set (scheduled l)"
  shows "rid_of s x \<notin> rid_of s ` set (scheduled l)" "booked l (rid_of s x) = 0"
proof -
  show n: "rid_of s x \<notin> rid_of s ` set (scheduled l)"
  proof
    assume "rid_of s x \<in> rid_of s ` set (scheduled l)"
    then obtain y where "y \<in> set (scheduled l)" "rid_of s x = rid_of s y" by auto
    moreover from this have "y \<in> set (running s @ ws)" using assms(2) by (auto simp: local_ok_def)
    ultimately show False using rid_inj[OF assms(1,3)] assms(4) by blast
  qed
  show "booked l (rid_of s x) = 0" by (rule booked_none[OF assms(2) n])
qed

lemma book_ok:
  assumes l: "local_ok c s l" and x: "x \<in> set (running s)" "rid_of s x \<notin> rid_of s ` set (scheduled l)" and n: "0 < n" "n \<le> token_budget l"
    and l': "num_scheduled_tokens l' = num_scheduled_tokens l" "req_to_new_blocks l' = req_to_new_blocks l" "token_budget l' = token_budget l"
      "set (scheduled l') = insert x (set (scheduled l))" "distinct (scheduled l')"
  shows "local_ok c s (book_tokens (rid_of s x) bs n l')" "booked (book_tokens (rid_of s x) bs n l') = (booked l)(rid_of s x := n)"
    "scheduled (book_tokens (rid_of s x) bs n l') = scheduled l'" "preempted_reqs (book_tokens (rid_of s x) bs n l') = preempted_reqs l'"
proof -
  have fresh: "rid_of s x \<notin> fst ` set (num_scheduled_tokens l)" using l x(2) by (simp add: local_ok_def)
  show sch: "scheduled (book_tokens (rid_of s x) bs n l') = scheduled l'" by (simp add: scheduled_def book_tokens_def)
  show "preempted_reqs (book_tokens (rid_of s x) bs n l') = preempted_reqs l'" by (simp add: book_tokens_def)
  have num: "num_scheduled_tokens (book_tokens (rid_of s x) bs n l') = num_scheduled_tokens l @ [(rid_of s x, n)]"
    using od_set_new[OF fresh] l'(1) by (simp add: book_tokens_def)
  have rest: "req_to_new_blocks (book_tokens (rid_of s x) bs n l') = (req_to_new_blocks l)(rid_of s x \<mapsto> bs)"
    "token_budget (book_tokens (rid_of s x) bs n l') = token_budget l - n" using l'(2,3) by (simp_all add: book_tokens_def)
  show "local_ok c s (book_tokens (rid_of s x) bs n l')"
    using l fresh x(1) n l'(4,5) unfolding local_ok_def total_scheduled_def num rest sch by simp
  have "map_of (num_scheduled_tokens l) (rid_of s x) = None" using fresh by (simp add: map_of_eq_None_iff)
  then show "booked (book_tokens (rid_of s x) bs n l') = (booked l)(rid_of s x := n)"
    by (auto simp: booked_def num map_add_def fun_eq_iff split: option.splits)
qed

lemma encoder_step_ok:
  assumes "sized sz r" "\<not> is_encoder_decoder c" "ec_ok sz (encoder s)" "0 \<le> n_new"
  shows "\<exists>ins n b e. encoder_step c s r n_computed n_new budget = Inr (ins, n, b, s\<lparr>encoder := e\<rparr>) \<and> ec_ok sz e \<and> chosen sz r ins e \<and> 0 \<le> n \<and> n \<le> n_new
    \<and> (\<not> has_encoder_inputs r \<longrightarrow> n = n_new)"
proof (cases "has_encoder_inputs r")
  case True
  then show ?thesis using try_schedule_ok[OF assms, of n_computed budget] by (auto simp: encoder_step_def)
next
  case False
  then have "encoder_step c s r n_computed n_new budget = Inr ([], n_new, budget, s\<lparr>encoder := encoder s\<rparr>)" by (simp add: encoder_step_def)
  then show ?thesis using assms(3,4) ec_okD(6)[OF assms(3)] by (intro exI[of _ n_new] exI[of _ "[]"] exI[of _ budget] exI[of _ "encoder s"]) (simp add: chosen_def)
qed

lemma commit_encoder_ok:
  assumes "sized sz (objs s x)" "ec_ok sz (encoder s)" "chosen sz (objs s x) ins (encoder s)"
  shows "\<exists>e l'. commit_encoder x ins b s l = Inr (s\<lparr>encoder := e\<rparr>, l') \<and> ec_ok sz e \<and> same_booking l l'"
proof (cases "ins = []")
  case True
  then show ?thesis using assms(2) by (intro exI[of _ "encoder s"] exI[of _ l]) (simp add: commit_encoder_def)
next
  case False
  obtain e where "allocate_inputs (encoder s) (objs s x) ins = Inr e" "ec_ok sz e" using allocate_inputs_ok[OF assms] by blast
  then show ?thesis using False
    by (intro exI[of _ e] exI[of _ "l\<lparr>scheduled_encoder_inputs := (scheduled_encoder_inputs l)(rid_of s x \<mapsto> ins), encoder_compute_budget := b\<rparr>"])
      (simp add: commit_encoder_def same_booking_def)
qed

section \<open>Running requests\<close>

lemma req_ok_upd [simp]:
  "req_ok c sz G caching bs (r\<lparr>spec_token_ids := ts\<rparr>) = req_ok c sz G caching bs r" "req_ok c sz G caching bs (r\<lparr>status := st\<rparr>) = req_ok c sz G caching bs r"
  "req_ok c sz G caching bs (r\<lparr>num_computed_tokens := n\<rparr>) = req_ok c sz G caching bs r" "req_ok c sz G caching bs (r\<lparr>num_cached_tokens := m\<rparr>) = req_ok c sz G caching bs r"
  "req_ok c sz G caching bs (r\<lparr>events := es\<rparr>) = req_ok c sz G caching bs r"
  by (simp_all add: req_ok_def hashes_ok_def sized_def num_req_tokens_def hash_view_def request.truncate_def)

lemma trim_spec_inv:
  assumes inv: "sched_inv c sz G K b ws s" and x: "x \<in> set (running s)" "b (rid_of s x) = n"
  shows "\<exists>s' l'. trim_spec x n s l = (s', l') \<and> sched_inv c sz G K b ws s' \<and> same_booking l l' \<and> (\<forall>y. rid_of s' y = rid_of s y)
    \<and> mm_hashes (objs s' x) = mm_hashes (objs s x) \<and> mm_positions (objs s' x) = mm_positions (objs s x) \<and> (\<forall>y. y \<noteq> x \<longrightarrow> objs s' y = objs s y)"
proof (cases "spec_token_ids (objs s x) \<noteq> [] \<and> n + num_computed_tokens (objs s x) - num_req_tokens (objs s x) > 0")
  case True
  let ?r = "objs s x"
  let ?toks = "take (nat (n + num_computed_tokens ?r - num_req_tokens ?r)) (spec_token_ids ?r)"
  let ?f = "\<lambda>r. r\<lparr>spec_token_ids := ?toks\<rparr>" and ?l = "l\<lparr>scheduled_spec_decode_tokens := (scheduled_spec_decode_tokens l)(rid_of s x \<mapsto> ?toks)\<rparr>"
  have "x \<notin> set ws" using sched_invD(4)[OF inv] x(1) by auto
  moreover have "runs_ok c (block_size_of (kv s)) (holding (kv s) (rid_of s x)) (b (rid_of s x)) (?f ?r)"
    using sched_invD(10)[OF inv x(1)] x(2) True by (auto simp: runs_ok_def num_tokens_with_spec_def num_req_tokens_def split: option.splits)
  ultimately have "sched_inv c sz G K b ws (upd_obj s x ?f)" by (intro inv_obj[OF inv]) simp_all
  moreover have "trim_spec x n s l = (upd_obj s x ?f, ?l)" using True by (simp add: trim_spec_def Let_def)
  moreover have "same_booking l ?l" by (simp add: same_booking_def)
  ultimately show ?thesis by (intro exI[of _ "upd_obj s x ?f"] exI[of _ ?l]) (simp add: upd_obj_def)
next
  case False
  then have "trim_spec x n s l = (s, l)" by (auto simp: trim_spec_def Let_def)
  then show ?thesis using inv by simp
qed

definition step_inv :: "sched_config \<Rightarrow> (mm_hash \<Rightarrow> int) \<Rightarrow> (request \<Rightarrow> bool) \<Rightarrow> bool \<times> int \<Rightarrow> rref list \<Rightarrow> scheduler \<Rightarrow> sched_local \<Rightarrow> bool" where
  "step_inv c sz G K w s l \<longleftrightarrow> sched_inv c sz G K (booked l) w s \<and> waiting s = Fcfs_queue w \<and> local_ok c s l \<and> set (preempted_reqs l) \<subseteq> set w"

text \<open>The setting of the properties: first come first served, decoder-only, no limit on adapters, not asynchronous.\<close>

definition plain_engine :: "sched_config \<Rightarrow> sched_env \<Rightarrow> bool" where
  "plain_engine c env \<longleftrightarrow> policy c = FCFS \<and> \<not> is_encoder_decoder c \<and> max_loras c = None \<and> \<not> async_scheduling c \<and> iterates (set_order env)"

lemma plainD: "plain_engine c env \<Longrightarrow> policy c = FCFS" "plain_engine c env \<Longrightarrow> \<not> is_encoder_decoder c" "plain_engine c env \<Longrightarrow> max_loras c = None" "plain_engine c env \<Longrightarrow> \<not> async_scheduling c"
  "plain_engine c env \<Longrightarrow> iterates (set_order env)"
  by (simp_all add: plain_engine_def)

lemma running_new_tokens_bounds:
  assumes "runs_ok c bs h 0 r" "num_output_placeholders r = 0" "0 < budget"
  shows "0 \<le> running_new_tokens c r budget" "running_new_tokens c r budget \<le> budget"
    "num_computed_tokens r + running_new_tokens c r budget \<le> num_tokens_with_spec r" "num_computed_tokens r + running_new_tokens c r budget < max_model_len c"
  using assms by (auto simp: runs_ok_def running_new_tokens_def cap_tokens_def)

text \<open>Booking a running request that has its slots.\<close>

lemma book_running_inv:
  assumes inv: "sched_inv c sz G K ((booked l)(rid_of s x := n)) ws s" and x: "x \<in> set (running s)" "x \<notin> set (scheduled l)" and lo: "local_ok c s l"
    and n: "0 < n" "n \<le> token_budget l" and e: "sized sz (objs s x)" "chosen sz (objs s x) ins (encoder s)"
  shows "\<exists>s4 l4 e5 l5. trim_spec x n s (book_tokens (rid_of s x) bs n (l\<lparr>scheduled_running_reqs := scheduled_running_reqs l @ [x]\<rparr>)) = (s4, l4)
    \<and> commit_encoder x ins b s4 l4 = Inr (s4\<lparr>encoder := e5\<rparr>, l5) \<and> sched_inv c sz G K (booked l5) ws (s4\<lparr>encoder := e5\<rparr>) \<and> local_ok c (s4\<lparr>encoder := e5\<rparr>) l5
    \<and> set (scheduled l5) = insert x (set (scheduled l)) \<and> preempted_reqs l5 = preempted_reqs l \<and> scheduled_new_reqs l5 = scheduled_new_reqs l
    \<and> scheduled_resumed_reqs l5 = scheduled_resumed_reqs l \<and> running s4 = running s \<and> waiting s4 = waiting s \<and> requests s4 = requests s \<and> (\<forall>y. rid_of s4 y = rid_of s y)
    \<and> (\<forall>y. y \<noteq> x \<longrightarrow> objs s4 y = objs s y)"
proof -
  let ?l2 = "l\<lparr>scheduled_running_reqs := scheduled_running_reqs l @ [x]\<rparr>"
  let ?l3 = "book_tokens (rid_of s x) bs n ?l2"
  have nid: "rid_of s x \<notin> rid_of s ` set (scheduled l)" using unscheduled_unbooked(1)[OF inv lo _ x(2)] x(1) by simp
  have l2: "num_scheduled_tokens ?l2 = num_scheduled_tokens l" "req_to_new_blocks ?l2 = req_to_new_blocks l" "token_budget ?l2 = token_budget l"
    "set (scheduled ?l2) = insert x (set (scheduled l))" "distinct (scheduled ?l2)"
    using lo x(2) by (auto simp: scheduled_def local_ok_def)
  note bk = book_ok[OF lo x(1) nid n l2, of bs]
  have inv3: "sched_inv c sz G K (booked ?l3) ws s" "booked ?l3 (rid_of s x) = n" using inv bk(2) by simp_all
  from trim_spec_inv[OF inv3(1) x(1) inv3(2), of ?l3] obtain s4 l4 where t: "trim_spec x n s ?l3 = (s4, l4)" "sched_inv c sz G K (booked ?l3) ws s4" "same_booking ?l3 l4"
    "\<forall>y. rid_of s4 y = rid_of s y" "mm_hashes (objs s4 x) = mm_hashes (objs s x)" "mm_positions (objs s4 x) = mm_positions (objs s x)"
    "\<forall>y. y \<noteq> x \<longrightarrow> objs s4 y = objs s y" by blast
  note tf = trim_spec_frame[OF t(1)]
  have e4: "sized sz (objs s4 x)" "chosen sz (objs s4 x) ins (encoder s4)" using e t(5,6) tf(5) by (simp_all add: sized_def chosen_def)
  obtain e5 l5 where k: "commit_encoder x ins b s4 l4 = Inr (s4\<lparr>encoder := e5\<rparr>, l5)" "ec_ok sz e5" "same_booking l4 l5"
    using commit_encoder_ok[OF e4(1) _ e4(2), of b l4] sched_invD(3)[OF t(2)] by blast
  note b4 = same_bookingD[OF t(3)] and b5 = same_bookingD[OF k(3)]
  have "local_ok c (s4\<lparr>encoder := e5\<rparr>) l5" using bk(1) t(4) tf(3) b4(3) b5(3) by (simp add: local_ok_def)
  moreover have "sched_inv c sz G K (booked l5) ws (s4\<lparr>encoder := e5\<rparr>)" using inv_encoder[OF t(2) k(2)] b4(1) b5(1) by simp
  moreover have "set (scheduled l5) = insert x (set (scheduled l))" "preempted_reqs l5 = preempted_reqs l" using b4(2,4) b5(2,4) bk(3,4) l2(4) by simp_all
  moreover have "scheduled_new_reqs l5 = scheduled_new_reqs l" "scheduled_resumed_reqs l5 = scheduled_resumed_reqs l"
    using t(3) k(3) by (simp_all add: same_booking_def book_tokens_def)
  ultimately show ?thesis using t(1,4,7) k(1) tf(1-3) by - (rule exI[of _ s4], rule exI[of _ l4], rule exI[of _ e5], rule exI[of _ l5], simp)
qed

lemma running_step_inv:
  assumes p: "plain_engine c env" and inv: "step_inv c sz G K w s l" and r: "running s = P @ x # Q" and sch: "set (scheduled l) \<subseteq> set P" and bud: "0 < token_budget l"
  shows "\<exists>go s' l' w'. running_step c env x s l = Inr (go, s', l') \<and> step_inv c sz G K w' s' l' \<and> (\<exists>Q2. running s = running s' @ Q2 \<and> w' = Q2 @ w \<and> set (preempted_reqs l') = set (preempted_reqs l) \<union> set Q2)
    \<and> (go \<longrightarrow> (\<exists>Q1. running s' = P @ x # Q1)) \<and> set (scheduled l') \<subseteq> set (P @ [x]) \<and> (\<not> go \<longrightarrow> preempted_reqs l' \<noteq> [])
    \<and> scheduled_new_reqs l' = scheduled_new_reqs l \<and> scheduled_resumed_reqs l' = scheduled_resumed_reqs l \<and> requests s' = requests s \<and> (\<forall>y. rid_of s' y = rid_of s y)
    \<and> (\<forall>y. y \<notin> set (running s) \<longrightarrow> objs s' y = objs s y)"
proof -
  let ?r = "objs s x" and ?rid = "rid_of s x" and ?n = "running_new_tokens c (objs s x) (token_budget l)"
  have si: "sched_inv c sz G K (booked l) w s" "waiting s = Fcfs_queue w" "local_ok c s l" "set (preempted_reqs l) \<subseteq> set w" using inv by (simp_all add: step_inv_def)
  note D = sched_invD[OF si(1)]
  have x: "x \<in> set (running s)" "x \<in> set (running s @ w)" "x \<notin> set (scheduled l)" using r sch D(4) by auto
  have unb: "\<forall>y \<in> set (x # Q). booked l (rid_of s y) = 0"
  proof
    fix y assume "y \<in> set (x # Q)"
    then have "y \<in> set (running s @ w)" "y \<notin> set (scheduled l)" using r sch D(4) by auto
    then show "booked l (rid_of s y) = 0" by (rule unscheduled_unbooked(2)[OF si(1,3)])
  qed
  have ro: "req_ok c sz G (km_enable_caching (kv s)) (block_size_of (kv s)) ?r" by (rule D(7)[OF x(2)])
  have run: "runs_ok c (block_size_of (kv s)) (holding (kv s) ?rid) 0 ?r" using D(10)[OF x(1)] unb by simp
  note nb = running_new_tokens_bounds[OF run req_okD(4)[OF ro] bud]
  obtain ins n b e where e: "encoder_step c s ?r (num_computed_tokens ?r) ?n (encoder_compute_budget l) = Inr (ins, n, b, s\<lparr>encoder := e\<rparr>)"
    "ec_ok sz e" "chosen sz ?r ins e" "0 \<le> n" "n \<le> ?n"
    using encoder_step_ok[OF req_okD(1)[OF ro] plainD(2)[OF p] D(3) nb(1)] by blast
  have inv1: "sched_inv c sz G K (booked l) w (s\<lparr>encoder := e\<rparr>)" by (rule inv_encoder[OF si(1) e(2)])
  show ?thesis
  proof (cases "n = 0")
    case True
    have "running_step c env x s l = Inr (True, s\<lparr>encoder := e\<rparr>, l)" using e(1) True by (simp add: running_step_def Let_def)
    moreover have "step_inv c sz G K w (s\<lparr>encoder := e\<rparr>) l" using inv1 si(2-4) by (simp add: step_inv_def local_ok_def)
    ultimately show ?thesis using r sch by (intro exI[of _ True] exI[of _ "s\<lparr>encoder := e\<rparr>"] exI[of _ l] exI[of _ w]) auto
  next
    case False
    then have n0: "0 < n" using e(4) by simp
    have pre: "running (s\<lparr>encoder := e\<rparr>) = P @ x # Q" "waiting (s\<lparr>encoder := e\<rparr>) = Fcfs_queue w" "\<forall>y\<in>set (x # Q). booked l (rid_of (s\<lparr>encoder := e\<rparr>) y) = 0"
      "num_computed_tokens (objs (s\<lparr>encoder := e\<rparr>) x) + n \<le> num_tokens_with_spec (objs (s\<lparr>encoder := e\<rparr>) x)"
      "num_computed_tokens (objs (s\<lparr>encoder := e\<rparr>) x) + n < max_model_len c" using r si(2) unb nb e(5) by simp_all
    obtain res s2 Q1 Q2 where a: "allocate_or_preempt c env x n (s\<lparr>encoder := e\<rparr>) l = Inr (res, s2, evicted Q2 l)"
      "sched_inv c sz G K (if res = None then booked l else (booked l)(rid_of (s\<lparr>encoder := e\<rparr>) x := n)) (Q2 @ w) s2" "x # Q = Q1 @ Q2" "running s2 = P @ Q1" "waiting s2 = Fcfs_queue (Q2 @ w)"
      "requests s2 = requests (s\<lparr>encoder := e\<rparr>)" "\<forall>y. rid_of s2 y = rid_of (s\<lparr>encoder := e\<rparr>) y" "\<forall>y. y \<notin> set Q2 \<longrightarrow> objs s2 y = objs (s\<lparr>encoder := e\<rparr>) y"
      "dom (cached (encoder s2)) = dom (cached (encoder (s\<lparr>encoder := e\<rparr>)))" "num_free_slots (encoder s2) = num_free_slots (encoder (s\<lparr>encoder := e\<rparr>))" "res = None \<longleftrightarrow> Q1 = []"
      using allocate_or_preempt_inv[OF plainD(1,5)[OF p] n0 inv1 pre, of l] by (elim exE conjE) (rule that)
    have ids: "\<forall>y. rid_of s2 y = rid_of s y" "requests s2 = requests s" using a(6,7) by simp_all
    have all: "running s = running s2 @ Q2" using a(3,4) r by simp
    have fr: "\<forall>y. y \<notin> set (running s) \<longrightarrow> objs s2 y = objs s y" using a(8) all by simp
    have pre2: "set (preempted_reqs (evicted Q2 l)) \<subseteq> set (Q2 @ w)" using si(4) by auto
    have "set (scheduled l) \<subseteq> set (running s2)" using sch a(4) by auto
    then have lo: "local_ok c s2 (evicted Q2 l)" unfolding evicted_local_ok by (rule local_ok_cong[OF si(3) ids(1)])
    show ?thesis
    proof (cases res)
      case None
      then have Q: "Q1 = []" "Q2 = x # Q" using a(3,11) by simp_all
      have "running_step c env x s l = Inr (False, s2, evicted Q2 l)" using e(1) False a(1) None by (simp add: running_step_def Let_def)
      moreover have "step_inv c sz G K (Q2 @ w) s2 (evicted Q2 l)" using a(2,5) None lo pre2 by (simp add: step_inv_def)
      moreover have "preempted_reqs (evicted Q2 l) \<noteq> []" using Q by (simp add: evicted_def)
      ultimately show ?thesis using all sch ids fr by (intro exI[of _ False] exI[of _ s2] exI[of _ "evicted Q2 l"] exI[of _ "Q2 @ w"]) (simp add: subset_insertI2)
    next
      case (Some bs)
      then obtain Q1' where Q: "Q1 = x # Q1'" using a(3,11) by (cases Q1) auto
      have xQ: "x \<notin> set Q2" "x \<in> set (running s2)" using a(3,4) Q r D(4) by auto
      have ox: "objs s2 x = ?r" using a(8) xQ(1) by simp
      have inv2: "sched_inv c sz G K ((booked l)(?rid := n)) (Q2 @ w) s2" using a(2) Some by simp
      have inv2': "sched_inv c sz G K ((booked (evicted Q2 l))(rid_of s2 x := n)) (Q2 @ w) s2" "x \<notin> set (scheduled (evicted Q2 l))" "n \<le> token_budget (evicted Q2 l)"
        "sized sz (objs s2 x)" "chosen sz (objs s2 x) ins (encoder s2)"
        using inv2 ox x(3) e(3,5) nb(2) req_okD(1)[OF ro] a(9,10) by (simp_all add: chosen_def)
      from book_running_inv[OF inv2'(1) xQ(2) inv2'(2) lo n0 inv2'(3-5), of bs b] obtain s4 l4 e5 l5 where
        k: "trim_spec x n s2 (book_tokens (rid_of s2 x) bs n ((evicted Q2 l)\<lparr>scheduled_running_reqs := scheduled_running_reqs (evicted Q2 l) @ [x]\<rparr>)) = (s4, l4)"
        "commit_encoder x ins b s4 l4 = Inr (s4\<lparr>encoder := e5\<rparr>, l5)" "sched_inv c sz G K (booked l5) (Q2 @ w) (s4\<lparr>encoder := e5\<rparr>)" "local_ok c (s4\<lparr>encoder := e5\<rparr>) l5"
        "set (scheduled l5) = insert x (set (scheduled (evicted Q2 l)))" "preempted_reqs l5 = preempted_reqs (evicted Q2 l)"
        "scheduled_new_reqs l5 = scheduled_new_reqs (evicted Q2 l)" "scheduled_resumed_reqs l5 = scheduled_resumed_reqs (evicted Q2 l)"
        "running s4 = running s2" "waiting s4 = waiting s2" "requests s4 = requests s2" "\<forall>y. rid_of s4 y = rid_of s2 y"
        "\<forall>y. y \<noteq> x \<longrightarrow> objs s4 y = objs s2 y" by (elim exE conjE) (rule that)
      have "running_step c env x s l = Inr (True, s4\<lparr>encoder := e5\<rparr>, l5)" using e(1) False a(1) Some k(1,2) by (simp add: running_step_def Let_def)
      moreover have "step_inv c sz G K (Q2 @ w) (s4\<lparr>encoder := e5\<rparr>) l5" using k(3,4,6,10) a(5) pre2 by (simp add: step_inv_def)
      moreover have "set (scheduled l5) \<subseteq> set (P @ [x])" using k(5) sch by auto
      moreover have "running s = running s4 @ Q2" "running s4 = P @ x # Q1'" using all k(9) a(4) Q by simp_all
      moreover have "\<forall>y. y \<notin> set (running s) \<longrightarrow> objs s4 y = objs s y" using k(13) fr x(1) by auto
      ultimately show ?thesis using k(6-8,11,12) ids
        by (intro exI[of _ True] exI[of _ "s4\<lparr>encoder := e5\<rparr>"] exI[of _ l5] exI[of _ "Q2 @ w"]) simp
    qed
  qed
qed

lemma running_loop_inv:
  assumes p: "plain_engine c env"
  shows "step_inv c sz G K w s l \<Longrightarrow> running s = P @ R \<Longrightarrow> i = length P \<Longrightarrow> set (scheduled l) \<subseteq> set P
    \<Longrightarrow> \<exists>s' l' w'. running_loop c env i s l = Inr (s', l') \<and> step_inv c sz G K w' s' l' \<and> (\<exists>Q2. running s = running s' @ Q2 \<and> w' = Q2 @ w \<and> set (preempted_reqs l') = set (preempted_reqs l) \<union> set Q2)
      \<and> scheduled_new_reqs l' = scheduled_new_reqs l \<and> scheduled_resumed_reqs l' = scheduled_resumed_reqs l \<and> requests s' = requests s \<and> (\<forall>y. rid_of s' y = rid_of s y)
      \<and> (\<forall>y. y \<notin> set (running s) \<longrightarrow> objs s' y = objs s y)"
proof (induction "length R" arbitrary: w s l P R i rule: less_induct)
  case less
  show ?case
  proof (cases "R \<noteq> [] \<and> token_budget l > 0")
    case False
    then have "running_loop c env i s l = Inr (s, l)" using less.prems by (subst running_loop.simps) auto
    then show ?thesis using less.prems by (intro exI[of _ s] exI[of _ l] exI[of _ w]) simp
  next
    case True
    then obtain x Q where R: "R = x # Q" by (cases R) auto
    then have r: "running s = P @ x # Q" using less.prems by simp
    obtain go s1 l1 w1 Q2 where st: "running_step c env x s l = Inr (go, s1, l1)" "step_inv c sz G K w1 s1 l1" "running s = running s1 @ Q2" "w1 = Q2 @ w" "set (preempted_reqs l1) = set (preempted_reqs l) \<union> set Q2"
      "go \<longrightarrow> (\<exists>Q1. running s1 = P @ x # Q1)" "set (scheduled l1) \<subseteq> set (P @ [x])"
      "scheduled_new_reqs l1 = scheduled_new_reqs l" "scheduled_resumed_reqs l1 = scheduled_resumed_reqs l" "requests s1 = requests s" "\<forall>y. rid_of s1 y = rid_of s y"
      "\<forall>y. y \<notin> set (running s) \<longrightarrow> objs s1 y = objs s y"
      using running_step_inv[OF p less.prems(1) r less.prems(4) conjunct2[OF True]] by (elim exE conjE) (rule that)
    have x: "running s ! i = x" "i < length (running s)" using r less.prems(3) by simp_all
    have eq: "running_loop c env i s l = (if go then running_loop c env (i + 1) s1 l1 else Inr (s1, l1))"
      using st(1) x True by (subst running_loop.simps) simp
    show ?thesis
    proof (cases go)
      case False
      then show ?thesis using eq st by (intro exI[of _ s1] exI[of _ l1] exI[of _ w1]) simp
    next
      case True
      then obtain Q1 where Q1: "running s1 = (P @ [x]) @ Q1" using st(6) by auto
      have "length (running s1) \<le> length (running s)" by (rule running_step_running[OF st(1)])
      then have "length Q1 < length R" using Q1 r R by simp
      from less.hyps[OF this st(2) Q1 _ st(7), of "i + 1"] obtain s' l' w' Q3 where "running_loop c env (i + 1) s1 l1 = Inr (s', l')" "step_inv c sz G K w' s' l'"
        "running s1 = running s' @ Q3" "w' = Q3 @ w1" "set (preempted_reqs l') = set (preempted_reqs l1) \<union> set Q3" "scheduled_new_reqs l' = scheduled_new_reqs l1" "scheduled_resumed_reqs l' = scheduled_resumed_reqs l1"
        "requests s' = requests s1" "\<forall>y. rid_of s' y = rid_of s1 y"
        "\<forall>y. y \<notin> set (running s1) \<longrightarrow> objs s' y = objs s1 y" using less.prems(3) by auto
      then show ?thesis using eq True st by (intro exI[of _ s'] exI[of _ l'] exI[of _ w']) (simp add: Un_ac)
    qed
  qed
qed

end
