(* ===== verification/Sched_Run.thy ===== *)
theory Sched_Run
  imports Sched_Inv
begin

text \<open>
  The waiting requests of a scheduling step, in the setting of \<^verbatim>\<open>Sched_Inv\<close>: the loop raises nothing, admits requests in the order of their arrival with
  blocks for all tokens they are given, passes over those it may pass over, and keeps the invariant.
\<close>

section \<open>Admission\<close>

lemma fsm_ready_inv:
  assumes inv: "sched_inv c sz G K b ws s" and x: "x \<in> set ws"
  shows "sched_inv c sz G K b ws (fsm_ready s x)" "status (objs (fsm_ready s x) x) \<in> {WAITING, PREEMPTED}" "rid_of (fsm_ready s x) y = rid_of s y"
    "num_req_tokens (objs (fsm_ready s x) x) = num_req_tokens (objs s x)"
proof -
  have w: "waits_ok (objs s x)" by (rule sched_invD(11)[OF inv x])
  have n: "x \<notin> set (running s)" using sched_invD(4)[OF inv] x by auto
  have "sched_inv c sz G K b ws (upd_obj s x (\<lambda>r. r\<lparr>status := WAITING\<rparr>))"
    by (rule inv_obj[OF inv]) (use w n in \<open>simp_all add: waits_ok_def\<close>)
  then show "sched_inv c sz G K b ws (fsm_ready s x)" using inv by (simp add: fsm_ready_def)
qed (use sched_invD(11)[OF inv x] in \<open>auto simp: fsm_ready_def upd_obj_def waits_ok_def num_req_tokens_def\<close>)

text \<open>What an admitted request holds: at most its own full blocks are cached, and its blocks have room for the tokens of the step.\<close>

definition granted :: "sched_config \<Rightarrow> kv_manager \<Rightarrow> int \<Rightarrow> int \<Rightarrow> sched_request \<Rightarrow> bool" where
  "granted c k bs final r \<longleftrightarrow> (\<exists>nc. num_cached_block (the_manager k) (request_id r) = Some nc \<and> int nc * bs \<le> final \<and> int nc * bs \<le> num_req_tokens r)
     \<and> min final (max_model_len c) \<le> int (length (table k (request_id r))) * bs"

lemma admit_inv:
  assumes p: "plain_engine c env" and inv: "sched_inv c sz G K (booked l) (sk @ x # w) s" and lo: "local_ok c s l" and wt: "waiting s = Fcfs_queue (x # w)"
    and st: "status (objs s x) \<in> {WAITING, PREEMPTED}" and room: "length (running s) < max_num_running_reqs c"
    and k: "km_ok k" "same_setup (kv s) k" "\<forall>rid. rid \<noteq> rid_of s x \<longrightarrow> table k rid = table (kv s) rid"
      "\<forall>rid. rid \<noteq> rid_of s x \<longrightarrow> num_cached_block (the_manager k) rid = cached_blocks s rid" "granted c k (block_size_of (kv s)) (m + n) (objs s x)"
    and n: "0 \<le> m" "0 < n" "n \<le> token_budget l" "m + n \<le> num_req_tokens (objs s x)" and e: "chosen sz (objs s x) ins (encoder s)"
  shows "\<exists>s' l'. admit c env n m ins b loras (s\<lparr>kv := k\<rparr>) l = Inr (s', l', loras) \<and> sched_inv c sz G K (booked l') (sk @ w) s' \<and> waiting s' = Fcfs_queue w
    \<and> local_ok c s' l' \<and> running s' = running s @ [x] \<and> requests s' = requests s \<and> (\<forall>y. rid_of s' y = rid_of s y) \<and> preempted_reqs l' = preempted_reqs l \<and> token_budget l' \<le> token_budget l
    \<and> (\<forall>y. y \<noteq> x \<longrightarrow> objs s' y = objs s y)"
proof -
  note D = sched_invD[OF inv]
  define r where "r = (if sched_log_stats c then record_event (objs s x) SCHEDULED (env_now env) else objs s x)"
  define r3 where "r3 = r\<lparr>status := RUNNING, num_computed_tokens := m, num_cached_tokens := (if num_cached_tokens r < 0 then m else num_cached_tokens r)\<rparr>"
  define s3 where "s3 = s\<lparr>kv := k, waiting := Fcfs_queue w, running := running s @ [x], objs := (objs s)(x := r3)\<rparr>"
  have x: "x \<in> set (running s @ sk @ x # w)" "x \<notin> set (running s)" "x \<notin> set (scheduled l)" using D(4) lo by (auto simp: local_ok_def)
  have ro: "req_ok c sz G (km_enable_caching (kv s)) (block_size_of (kv s)) (objs s x)" by (rule D(7)[OF x(1)])
  have r3: "request_id r3 = rid_of s x" "mm_hashes r3 = mm_hashes (objs s x)" "mm_positions r3 = mm_positions (objs s x)" "status r3 = RUNNING"
    "num_computed_tokens r3 = m" "num_req_tokens r3 = num_req_tokens (objs s x)" "num_tokens_with_spec r3 = num_tokens_with_spec (objs s x)"
    "req_ok c sz G (km_enable_caching (kv s)) (block_size_of (kv s)) r3"
    using ro by (simp_all add: r3_def r_def record_event_def num_req_tokens_def num_tokens_with_spec_def)
  have id: "rid_of s3 y = rid_of s y" for y using r3(1) by (simp add: s3_def)
  have nid: "rid_of s y \<noteq> rid_of s x" if "y \<in> set (running s)" for y using rid_inj[OF inv _ x(1), of y] that x(2) by auto
  have run: "runs_ok c (block_size_of k) (holding k (rid_of s x)) n r3"
    using k(2,5) n r3 req_okD(3)[OF ro] by (auto simp: granted_def runs_ok_def same_setup_def num_tokens_with_spec_def num_req_tokens_def)
  have runs: "runs_ok c (block_size_of k) (holding k (rid_of s y)) (booked l (rid_of s y)) (objs s y)" if "y \<in> set (running s)" for y
    using D(10)[OF that] nid[OF that] k(2-4) by (simp add: same_setup_def)
  have out: "((booked l)(rid_of s x := n)) rid = 0 \<and> num_cached_block (the_manager k) rid = None \<and> table k rid = []" if "rid \<notin> rid_of s ` set (running s @ [x])" for rid
    using D(12-14)[of rid] that k(3,4) by auto
  have inv3: "sched_inv c sz G K ((booked l)(rid_of s x := n)) (sk @ w) s3"
  proof -
    have "runs_ok c (block_size_of k) (holding k (rid_of s y)) (((booked l)(rid_of s x := n)) (rid_of s y)) (objs s3 y)"
      if "y \<in> set (running s @ [x])" for y using that run runs[of y] nid[of y] x(2) by (cases "y = x") (auto simp: s3_def)
    then have "\<forall>y \<in> set (running s3). runs_ok c (block_size_of (kv s3)) (holding (kv s3) (rid_of s y)) (((booked l)(rid_of s x := n)) (rid_of s y)) (objs s3 y)" by (simp add: s3_def)
    moreover have "\<forall>rid. rid \<notin> rid_of s ` set (running s3) \<longrightarrow> ((booked l)(rid_of s x := n)) rid = 0 \<and> cached_blocks s3 rid = None \<and> table (kv s3) rid = []"
      using out by (simp add: s3_def)
    moreover have "\<forall>y \<in> set (sk @ w). waits_ok (objs s3 y)" using D(11) D(4) by (auto simp: s3_def)
    moreover have "km_ok (kv s3)" "km_max_model_len (kv s3) = max_model_len c" "ec_ok sz (encoder s3)" "distinct (running s3 @ sk @ w)" "length (running s3) \<le> max_num_running_reqs c"
      "log_stats (kv s3) = sched_log_stats c" "requests s3 = requests s" "km_enable_caching (kv s3) = km_enable_caching (kv s)" "block_size_of (kv s3) = block_size_of (kv s)"
      "(km_enable_caching (kv s), block_size_of (kv s)) = K"
      using k(1,2) D(2-4,15,16) room by (simp_all add: s3_def same_setup_def)
    moreover have "\<forall>y \<in> set (running s3 @ sk @ w). requests s (rid_of s y) = Some y \<and> req_ok c sz G (km_enable_caching (kv s)) (block_size_of (kv s)) (objs s3 y)"
      using D(6,7) r3(8) by (simp add: s3_def)
    moreover have "\<forall>rid y. requests s rid = Some y \<longrightarrow> y \<in> set (running s3 @ sk @ w) \<and> rid_of s y = rid" using D(8,9) by (auto simp: s3_def)
    ultimately show ?thesis unfolding sched_inv_def id by simp
  qed
  define l1 where "l1 = (if status (objs s x) = WAITING then l\<lparr>scheduled_new_reqs := scheduled_new_reqs l @ [x]\<rparr> else l\<lparr>scheduled_resumed_reqs := scheduled_resumed_reqs l @ [x]\<rparr>)"
  let ?l2 = "book_tokens (rid_of s3 x) (km_get_blocks k (rid_of s x)) n l1"
  have lo3: "local_ok c s3 l" by (rule local_ok_cong[OF lo]) (use lo id in \<open>auto simp: local_ok_def s3_def\<close>)
  have x3: "x \<in> set (running s3)" "rid_of s3 x \<notin> rid_of s3 ` set (scheduled l)" using unscheduled_unbooked(1)[OF inv lo x(1,3)] unfolding id by (simp_all add: s3_def)
  have l1: "num_scheduled_tokens l1 = num_scheduled_tokens l" "req_to_new_blocks l1 = req_to_new_blocks l" "token_budget l1 = token_budget l"
    "set (scheduled l1) = insert x (set (scheduled l))" "distinct (scheduled l1)" "preempted_reqs l1 = preempted_reqs l"
    using lo x(3) by (auto simp: l1_def scheduled_def local_ok_def)
  note bk = book_ok[OF lo3 x3 n(2,3) l1(1-5), of "km_get_blocks k (rid_of s x)"]
  have e3: "sized sz (objs s3 x)" "chosen sz (objs s3 x) ins (encoder s3)" using req_okD(1)[OF ro] e r3(2,3) by (simp_all add: s3_def sized_def chosen_def)
  obtain e5 l5 where c5: "commit_encoder x ins b s3 ?l2 = Inr (s3\<lparr>encoder := e5\<rparr>, l5)" "ec_ok sz e5" "same_booking ?l2 l5"
    using commit_encoder_ok[OF e3(1) sched_invD(3)[OF inv3] e3(2), of b ?l2] by blast
  note b5 = same_bookingD[OF c5(3)]
  have "admit c env n m ins b loras (s\<lparr>kv := k\<rparr>) l = Inr (s3\<lparr>encoder := e5\<rparr>, l5, loras)"
  proof -
    have rr: "status r = status (objs s x)" "request_id r = rid_of s x" by (simp_all add: r_def record_event_def)
    have s2: "(if sched_log_stats c then upd_obj (s\<lparr>kv := k, waiting := Fcfs_queue w, running := running s @ [x]\<rparr>) x (\<lambda>r. record_event r SCHEDULED (env_now env))
        else s\<lparr>kv := k, waiting := Fcfs_queue w, running := running s @ [x]\<rparr>) = s\<lparr>kv := k, waiting := Fcfs_queue w, running := running s @ [x], objs := (objs s)(x := r)\<rparr>"
      by (simp add: r_def upd_obj_def)
    have l1': "(case status r of WAITING \<Rightarrow> Inr (l\<lparr>scheduled_new_reqs := scheduled_new_reqs l @ [x]\<rparr>)
        | PREEMPTED \<Rightarrow> Inr (l\<lparr>scheduled_resumed_reqs := scheduled_resumed_reqs l @ [x]\<rparr>) | _ \<Rightarrow> Inl RuntimeError) = Inr l1"
      using st rr by (auto simp: l1_def)
    have s3': "upd_obj (s\<lparr>kv := k, waiting := Fcfs_queue w, running := running s @ [x], objs := (objs s)(x := r)\<rparr>) x
        (\<lambda>r. r\<lparr>status := RUNNING, num_computed_tokens := m, num_cached_tokens := (if num_cached_tokens r < 0 then m else num_cached_tokens r)\<rparr>) = s3"
      by (simp add: s3_def r3_def upd_obj_def)
    show ?thesis unfolding admit_def using wt s2 l1' s3' c5(1) rr(2) id plainD(3)[OF p]
      by (simp add: fcfs_pop_request_def Let_def)
  qed
  moreover have "sched_inv c sz G K (booked l5) (sk @ w) (s3\<lparr>encoder := e5\<rparr>)" using inv_encoder[OF inv3 c5(2)] b5(1) bk(2) id booked_none[OF lo] by simp
  moreover have "local_ok c (s3\<lparr>encoder := e5\<rparr>) l5" using bk(1) b5(3) by (simp add: local_ok_def)
  moreover have "preempted_reqs l5 = preempted_reqs l" using b5(4) bk(4) l1(6) by simp
  moreover have "token_budget l5 \<le> token_budget l" using c5(3) l1(3) n(2) by (simp add: same_booking_def book_tokens_def)
  ultimately show ?thesis using id by (intro exI[of _ "s3\<lparr>encoder := e5\<rparr>"] exI[of _ l5]) (simp add: s3_def)
qed

text \<open>What the prefix cache and the allocation give for a waiting request.\<close>

lemma waiting_slots:
  assumes inv: "sched_inv c sz G K b ws s" and x: "x \<in> set ws"
  obtains hits m k1 where "get_computed_blocks (kv s) (kv_request (objs s x)) = Inr ([hits], m, k1)" "0 \<le> m" "m < num_req_tokens (objs s x)"
    "sched_inv c sz G K b ws (s\<lparr>kv := k1\<rparr>)"
    "\<And>n. 0 < n \<Longrightarrow> \<exists>res k. allocate_slots k1 (kv_request (objs s x)) n m (Some [hits]) 0 False 0 = Inr (res, k) \<and> km_ok k \<and> same_setup k1 k
       \<and> (res = None \<longrightarrow> sched_inv c sz G K b ws (s\<lparr>kv := k\<rparr>))
       \<and> (res \<noteq> None \<longrightarrow> (\<forall>rid. rid \<noteq> rid_of s x \<longrightarrow> table k rid = table k1 rid \<and> num_cached_block (the_manager k) rid = num_cached_block (the_manager k1) rid)
            \<and> granted c k (block_size_of k1) (m + n) (objs s x))"
proof -
  note D = sched_invD[OF inv]
  let ?r = "objs s x" and ?bs = "block_size_of (kv s)"
  have ro: "req_ok c sz G (km_enable_caching (kv s)) ?bs ?r" using D(7) x by simp
  have v: "num_tokens (kv_request ?r) \<ge> 1" "distinct (block_hashes (kv_request ?r))" using req_okD(2,5)[OF ro] by (simp_all add: num_tokens_def num_req_tokens_def request.truncate_def)
  obtain hits k1 where g: "get_computed_blocks (kv s) (kv_request ?r) = Inr ([hits], int (length hits) * ?bs, k1)" "coord k1 = coord (kv s)" "km_ok k1"
    "hit_blocks (the_pool (kv s)) hits" "\<not> km_enable_caching (kv s) \<longrightarrow> hits = []" "int (length hits) * ?bs \<le> int (num_tokens (kv_request ?r)) - 1"
    "km_max_model_len k1 = km_max_model_len (kv s)" "km_enable_caching k1 = km_enable_caching (kv s)" "log_stats k1 = log_stats (kv s)"
    using get_computed_blocks_ok[OF D(1) v] by (elim exE conjE) (rule that)
  let ?m = "int (length hits) * ?bs"
  have same: "the_manager k1 = the_manager (kv s)" "the_pool k1 = the_pool (kv s)" "block_size_of k1 = ?bs" "table k1 = table (kv s)"
    using g(2) by (simp_all add: the_manager_def the_pool_def block_size_of_def table_def fun_eq_iff)
  have bs: "?bs > 0" by (rule km_okD(5)[OF D(1)])
  have inv1: "sched_inv c sz G K b ws (s\<lparr>kv := k1\<rparr>)" using g(3,7-9) same by (intro inv_kv[OF inv]) (simp_all add: same_setup_def)
  have none: "cached_blocks s (rid_of s x) = None" by (rule D(13)[OF waiting_rid[OF inv x]])
  have comp: "num_computed_tokens ?r = 0" using D(11)[OF x] by (simp add: waits_ok_def)
  have adm: "admissible k1 (request_id (kv_request ?r)) hits" using none same g(4,5,8) by (auto simp: admissible_def)
  have "\<exists>res k. allocate_slots k1 (kv_request ?r) n ?m (Some [hits]) 0 False 0 = Inr (res, k) \<and> km_ok k \<and> same_setup k1 k
       \<and> (res = None \<longrightarrow> sched_inv c sz G K b ws (s\<lparr>kv := k\<rparr>))
       \<and> (res \<noteq> None \<longrightarrow> (\<forall>rid. rid \<noteq> rid_of s x \<longrightarrow> table k rid = table k1 rid \<and> num_cached_block (the_manager k) rid = num_cached_block (the_manager k1) rid)
            \<and> granted c k (block_size_of k1) (?m + n) ?r)"
    if n: "0 < n" for n
  proof -
    have cb: "cached_before k1 (rid_of s x) hits = length hits" using none same by (simp add: cached_before_def)
    have step: "km_enable_caching k1 \<and> \<not> False \<longrightarrow> cacheable_step k1 (kv_request ?r) hits (num_computed_tokens (kv_request ?r) + ?m + n)"
      using comp n req_okD(3,7)[OF ro] D(2) g(6,7,8) same cb by (auto simp: cacheable_step_def)
    obtain res k where a: "allocate_slots k1 (kv_request ?r) n ?m (Some [hits]) 0 False 0 = Inr (res, k)"
      and so: "slots_ok k1 (kv_request ?r) hits (num_computed_tokens (kv_request ?r) + ?m + n) (min (num_computed_tokens (kv_request ?r) + ?m + n + int 0) (km_max_model_len k1)) res k"
      using allocate_slots_ok[OF g(3) n adm _ step, of "Some [hits]" 0] by auto
    have ks: "km_ok k" "same_setup k1 k" using so by (simp_all add: slots_ok_def)
    have "sched_inv c sz G K b ws (s\<lparr>kv := k\<rparr>)" if "res = None"
    proof -
      have "sched_inv c sz G K b ws ((s\<lparr>kv := k1\<rparr>)\<lparr>kv := k\<rparr>)" using so that by (intro inv_kv[OF inv1]) (simp_all add: slots_ok_def)
      then show ?thesis by simp
    qed
    moreover have "granted c k ?bs (?m + n) ?r" if some: "res \<noteq> None"
    proof -
      obtain nc where nc: "num_cached_block (the_manager k) (rid_of s x) = Some nc" "nc = length hits \<or> nc \<le> length (block_hashes ?r) \<and> int nc * ?bs \<le> ?m + n"
        using so some same comp cb by (cases res) (auto simp: slots_ok_def)
      have "int nc * ?bs \<le> int (length (block_hashes ?r)) * ?bs" if "nc \<le> length (block_hashes ?r)" using that bs by (intro mult_right_mono) auto
      moreover have "min (?m + n) (max_model_len c) \<le> int (length (table k (rid_of s x))) * ?bs"
        using slots_cover[OF g(3) so some, of "min (?m + n) (max_model_len c)"] comp D(2) g(7) same(3) by simp
      ultimately show ?thesis unfolding granted_def using nc n g(6) req_okD(6)[OF ro] by auto
    qed
    ultimately show ?thesis using a ks so same by (intro exI[of _ res] exI[of _ k]) (simp add: slots_ok_def)
  qed
  then show ?thesis using g(1,6) bs inv1 by (intro that[of hits ?m k1]) simp_all
qed

text \<open>Moving the request at the head to the skipped ones.\<close>

lemma skip_inv:
  assumes inv: "sched_inv c sz G K b (sk @ x # w) s" and wt: "waiting s = Fcfs_queue (x # w)"
  shows "skip_request s x (Fcfs_queue sk) = Inr (s\<lparr>waiting := Fcfs_queue w\<rparr>, Fcfs_queue (x # sk))" "sched_inv c sz G K b ((x # sk) @ w) (s\<lparr>waiting := Fcfs_queue w\<rparr>)"
proof -
  show "skip_request s x (Fcfs_queue sk) = Inr (s\<lparr>waiting := Fcfs_queue w\<rparr>, Fcfs_queue (x # sk))"
    using wt by (simp add: skip_request_def fcfs_pop_request_def fcfs_prepend_request_def)
  show "sched_inv c sz G K b ((x # sk) @ w) (s\<lparr>waiting := Fcfs_queue w\<rparr>)" by (rule inv_reorder(2)[OF inv]) (use sched_invD(4)[OF inv] in auto)
qed

text \<open>The state of the second loop: \<open>sk\<close> skipped so far, \<open>w\<close> still waiting.\<close>

definition wait_inv :: "sched_config \<Rightarrow> (mm_hash \<Rightarrow> int) \<Rightarrow> (request \<Rightarrow> bool) \<Rightarrow> bool \<times> int \<Rightarrow> rref list \<Rightarrow> rref list \<Rightarrow> scheduler \<Rightarrow> sched_local \<Rightarrow> bool" where
  "wait_inv c sz G K sk w s l \<longleftrightarrow> sched_inv c sz G K (booked l) (sk @ w) s \<and> waiting s = Fcfs_queue w \<and> local_ok c s l"

lemma wait_invI:
  assumes "sched_inv c sz G K (booked l) (sk @ w) s'" "waiting s' = Fcfs_queue w" "local_ok c s l" "running s' = running s" "\<forall>y. rid_of s' y = rid_of s y"
  shows "wait_inv c sz G K sk w s' l"
  using assms local_ok_cong[OF assms(3), of s'] by (auto simp: wait_inv_def local_ok_def)

lemma waiting_tokens_inv:
  assumes p: "plain_engine c env" and inv: "sched_inv c sz G K (booked l) (sk @ x # w) s" and lo: "local_ok c s l" and wt: "waiting s = Fcfs_queue (x # w)"
    and st: "status (objs s x) \<in> {WAITING, PREEMPTED}" and room: "length (running s) < max_num_running_reqs c"
    and m: "0 \<le> m" and n: "0 < n" "n \<le> token_budget l" "m + n \<le> num_req_tokens (objs s x)"
    and al: "\<And>n. 0 < n \<Longrightarrow> \<exists>res k. allocate_slots (kv s) (kv_request (objs s x)) n m (Some [hits]) 0 False 0 = Inr (res, k) \<and> km_ok k \<and> same_setup (kv s) k
       \<and> (res = None \<longrightarrow> sched_inv c sz G K (booked l) (sk @ x # w) (s\<lparr>kv := k\<rparr>))
       \<and> (res \<noteq> None \<longrightarrow> (\<forall>rid. rid \<noteq> rid_of s x \<longrightarrow> table k rid = table (kv s) rid \<and> num_cached_block (the_manager k) rid = cached_blocks s rid)
            \<and> granted c k (block_size_of (kv s)) (m + n) (objs s x))"
  shows "\<exists>go s' l'. waiting_tokens c env x m m [hits] n s l loras = Inr (go, s', l', loras) \<and> wait_inv c sz G K sk (if go then w else x # w) s' l'
    \<and> running s' = (if go then running s @ [x] else running s) \<and> requests s' = requests s \<and> (\<forall>y. rid_of s' y = rid_of s y) \<and> preempted_reqs l' = preempted_reqs l \<and> token_budget l' \<le> token_budget l
    \<and> (\<forall>y. y \<noteq> x \<longrightarrow> objs s' y = objs s y)"
proof -
  note D = sched_invD[OF inv]
  let ?r = "objs s x"
  have ro: "req_ok c sz G (km_enable_caching (kv s)) (block_size_of (kv s)) ?r" using D(7) by simp
  have comp: "num_computed_tokens ?r = 0" using D(11)[of x] by (simp add: waits_ok_def)
  obtain ins n' b e where e: "encoder_step c s ?r m n (encoder_compute_budget l) = Inr (ins, n', b, s\<lparr>encoder := e\<rparr>)" "ec_ok sz e" "chosen sz ?r ins e"
    "0 \<le> n'" "n' \<le> n" "\<not> has_encoder_inputs ?r \<longrightarrow> n' = n"
    using encoder_step_ok[OF req_okD(1)[OF ro] plainD(2)[OF p] D(3), of n m "encoder_compute_budget l"] n(1) by auto
  have cross: "cross_attention_tokens c ?r = Inr 0" using plainD(2)[OF p] by (simp add: cross_attention_tokens_def)
  show ?thesis
  proof (cases "has_encoder_inputs ?r \<and> n' = 0")
    case True
    have "waiting_tokens c env x m m [hits] n s l loras = Inr (False, s\<lparr>encoder := e\<rparr>, l, loras)" using e(1) True by (simp add: waiting_tokens_def Let_def)
    moreover have "wait_inv c sz G K sk (x # w) (s\<lparr>encoder := e\<rparr>) l" by (rule wait_invI[OF inv_encoder[OF inv e(2)] _ lo]) (use wt in simp_all)
    ultimately show ?thesis by (intro exI[of _ False] exI[of _ "s\<lparr>encoder := e\<rparr>"] exI[of _ l]) simp
  next
    case False
    then have n': "0 < n'" "n' \<le> token_budget l" "m + n' \<le> num_req_tokens ?r" using e(4-6) n by auto
    from al[OF n'(1)] obtain res k where a: "allocate_slots (kv s) (kv_request ?r) n' m (Some [hits]) 0 False 0 = Inr (res, k)" "km_ok k" "same_setup (kv s) k"
      "res = None \<longrightarrow> sched_inv c sz G K (booked l) (sk @ x # w) (s\<lparr>kv := k\<rparr>)"
      "res \<noteq> None \<longrightarrow> (\<forall>rid. rid \<noteq> rid_of s x \<longrightarrow> table k rid = table (kv s) rid \<and> num_cached_block (the_manager k) rid = cached_blocks s rid)
            \<and> granted c k (block_size_of (kv s)) (m + n') ?r"
      by (elim exE conjE) (rule that)
    show ?thesis
    proof (cases res)
      case None
      let ?s = "s\<lparr>encoder := e, kv := k\<rparr>"
      have wtk: "waiting_tokens c env x m m [hits] n s l loras = Inr (False, ?s, l, loras)"
        using e(1) False cross comp a(1) None by (cases "has_encoder_inputs ?r") (simp_all add: waiting_tokens_def Let_def)
      have "sched_inv c sz G K (booked l) (sk @ x # w) ((s\<lparr>kv := k\<rparr>)\<lparr>encoder := e\<rparr>)" using a(4) None by (intro inv_encoder[OF _ e(2)]) simp
      moreover have "(s\<lparr>kv := k\<rparr>)\<lparr>encoder := e\<rparr> = ?s" by (rule scheduler.equality) simp_all
      ultimately have "wait_inv c sz G K sk (x # w) ?s l" by (intro wait_invI[OF _ _ lo]) (use wt in simp_all)
      then show ?thesis using wtk by (intro exI[of _ False] exI[of _ ?s] exI[of _ l]) simp
    next
      case (Some bs)
      then have k: "\<forall>rid. rid \<noteq> rid_of s x \<longrightarrow> table k rid = table (kv s) rid"
        "\<forall>rid. rid \<noteq> rid_of s x \<longrightarrow> num_cached_block (the_manager k) rid = cached_blocks s rid" "granted c k (block_size_of (kv s)) (m + n') ?r" using a(5) by auto
      let ?s1 = "s\<lparr>encoder := e\<rparr>"
      have s1: "local_ok c ?s1 l" "waiting ?s1 = Fcfs_queue (x # w)" "status (objs ?s1 x) \<in> {WAITING, PREEMPTED}" "length (running ?s1) < max_num_running_reqs c"
        "chosen sz (objs ?s1 x) ins (encoder ?s1)" using lo wt st room e(3) by (simp_all add: local_ok_def)
      have "\<exists>s' l'. admit c env n' m ins b loras (?s1\<lparr>kv := k\<rparr>) l = Inr (s', l', loras) \<and> sched_inv c sz G K (booked l') (sk @ w) s' \<and> waiting s' = Fcfs_queue w
        \<and> local_ok c s' l' \<and> running s' = running ?s1 @ [x] \<and> requests s' = requests ?s1 \<and> (\<forall>y. rid_of s' y = rid_of ?s1 y) \<and> preempted_reqs l' = preempted_reqs l \<and> token_budget l' \<le> token_budget l
        \<and> (\<forall>y. y \<noteq> x \<longrightarrow> objs s' y = objs ?s1 y)"
        by (rule admit_inv[OF p inv_encoder[OF inv e(2)] s1(1-4) a(2) _ _ _ _ m n'(1,2) _ s1(5)]) (use a(3) k n'(3) in simp_all)
      then obtain s' l' where ad: "admit c env n' m ins b loras (?s1\<lparr>kv := k\<rparr>) l = Inr (s', l', loras)" "sched_inv c sz G K (booked l') (sk @ w) s'" "waiting s' = Fcfs_queue w"
        "local_ok c s' l'" "running s' = running s @ [x]" "requests s' = requests s" "\<forall>y. rid_of s' y = rid_of s y" "preempted_reqs l' = preempted_reqs l" "token_budget l' \<le> token_budget l"
        "\<forall>y. y \<noteq> x \<longrightarrow> objs s' y = objs s y" by auto
      have "waiting_tokens c env x m m [hits] n s l loras = Inr (True, s', l', loras)"
        using e(1) False cross comp a(1) Some ad(1) by (cases "has_encoder_inputs ?r") (simp_all add: waiting_tokens_def Let_def)
      then show ?thesis using ad(2-10) by (intro exI[of _ True] exI[of _ s'] exI[of _ l']) (simp add: wait_inv_def)
    qed
  qed
qed

text \<open>The only reasons to pass over a request: its grammar is not compiled yet, or prompts cannot be chunked and it has more tokens to schedule than \<open>left\<close>, what is left
  of the budget.\<close>

definition skippable :: "sched_config \<Rightarrow> sched_env \<Rightarrow> scheduler \<Rightarrow> int \<Rightarrow> rref \<Rightarrow> bool" where
  "skippable c env s left x \<longleftrightarrow> status (objs s x) = WAITING_FOR_FSM \<and> \<not> grammar_ready env x
     \<or> \<not> chunked_prefill_enabled c \<and> left < cap_tokens c (num_req_tokens (objs s x))"

lemma skippable_antimono: "skippable c env s left x \<Longrightarrow> left' \<le> left \<Longrightarrow> skippable c env s left' x"
  by (auto simp: skippable_def)

lemma cap_tokens_mono: "m \<le> n \<Longrightarrow> cap_tokens c m \<le> cap_tokens c n"
  by (auto simp: cap_tokens_def)

lemma waiting_step_inv:
  assumes p: "plain_engine c env" and wi: "wait_inv c sz G K sk (x # w) s l" and bud: "0 < token_budget l" and room: "length (running s) < max_num_running_reqs c"
  shows "\<exists>go s' l' sk'. waiting_step c env x s l (Fcfs_queue sk) loras = Inr (go, s', l', Fcfs_queue sk', loras) \<and> wait_inv c sz G K sk' (if go then w else x # w) s' l'
    \<and> (go \<and> sk' = x # sk \<and> skippable c env s (token_budget l) x \<and> running s' = running s \<or> sk' = sk \<and> running s' = (if go then running s @ [x] else running s))
    \<and> requests s' = requests s \<and> (\<forall>y. rid_of s' y = rid_of s y) \<and> preempted_reqs l' = preempted_reqs l \<and> token_budget l' \<le> token_budget l
    \<and> (\<forall>y. y \<noteq> x \<longrightarrow> objs s' y = objs s y)"
proof -
  have si: "sched_inv c sz G K (booked l) (sk @ x # w) s" "waiting s = Fcfs_queue (x # w)" "local_ok c s l" using wi by (simp_all add: wait_inv_def)
  note D = sched_invD[OF si(1)]
  let ?r = "objs s x"
  have x: "x \<in> set (sk @ x # w)" by simp
  have st: "status ?r \<noteq> WAITING_FOR_REMOTE_KVS" using D(11)[OF x] by (auto simp: waits_ok_def)
  have skip: "\<exists>go s' l' sk'. bindE (skip_request s0 x (Fcfs_queue sk)) (\<lambda>(s', q). Inr (True, s', l, q, loras)) = Inr (go, s', l', Fcfs_queue sk', loras)
      \<and> wait_inv c sz G K sk' (if go then w else x # w) s' l' \<and> (go \<and> sk' = x # sk \<and> skippable c env s (token_budget l) x \<and> running s' = running s \<or> sk' = sk \<and> running s' = (if go then running s @ [x] else running s))
      \<and> requests s' = requests s \<and> (\<forall>y. rid_of s' y = rid_of s y) \<and> preempted_reqs l' = preempted_reqs l \<and> token_budget l' \<le> token_budget l
    \<and> (\<forall>y. y \<noteq> x \<longrightarrow> objs s' y = objs s y)"
    if i: "sched_inv c sz G K (booked l) (sk @ x # w) s0" and f: "waiting s0 = waiting s" "running s0 = running s" "requests s0 = requests s" "\<forall>y. rid_of s0 y = rid_of s y"
      "\<forall>y. y \<noteq> x \<longrightarrow> objs s0 y = objs s y" and sb: "skippable c env s (token_budget l) x" for s0
  proof -
    note k = skip_inv[OF i f(1)[unfolded si(2)]]
    have "wait_inv c sz G K (x # sk) w (s0\<lparr>waiting := Fcfs_queue w\<rparr>) l" by (rule wait_invI[OF k(2) _ si(3)]) (use f in simp_all)
    then show ?thesis using k(1) f sb by (intro exI[of _ True] exI[of _ "s0\<lparr>waiting := Fcfs_queue w\<rparr>"] exI[of _ l] exI[of _ "x # sk"]) simp
  qed
  show ?thesis
  proof (cases "status ?r = WAITING_FOR_FSM \<and> \<not> grammar_ready env x")
    case True
    then have "waiting_step c env x s l (Fcfs_queue sk) loras = bindE (skip_request s x (Fcfs_queue sk)) (\<lambda>(s', q). Inr (True, s', l, q, loras))"
      by (simp add: waiting_step_def Let_def)
    then show ?thesis using skip[OF si(1)] True by (simp add: skippable_def)
  next
    case ready: False
    let ?s0 = "fsm_ready s x"
    note f0 = fsm_ready_inv[OF si(1) x]
    obtain hits m k1 where g: "get_computed_blocks (kv ?s0) (kv_request (objs ?s0 x)) = Inr ([hits], m, k1)" "0 \<le> m" "m < num_req_tokens (objs ?s0 x)"
      "sched_inv c sz G K (booked l) (sk @ x # w) (?s0\<lparr>kv := k1\<rparr>)"
      "\<And>n. 0 < n \<Longrightarrow> \<exists>res k. allocate_slots k1 (kv_request (objs ?s0 x)) n m (Some [hits]) 0 False 0 = Inr (res, k) \<and> km_ok k \<and> same_setup k1 k
       \<and> (res = None \<longrightarrow> sched_inv c sz G K (booked l) (sk @ x # w) (?s0\<lparr>kv := k\<rparr>))
       \<and> (res \<noteq> None \<longrightarrow> (\<forall>rid. rid \<noteq> rid_of ?s0 x \<longrightarrow> table k rid = table k1 rid \<and> num_cached_block (the_manager k) rid = num_cached_block (the_manager k1) rid)
            \<and> granted c k (block_size_of k1) (m + n) (objs ?s0 x))"
      by (rule waiting_slots[OF f0(1) x]) (rule that)
    let ?s1 = "?s0\<lparr>kv := k1\<rparr>"
    have f1: "waiting ?s1 = waiting s" "running ?s1 = running s" "requests ?s1 = requests s" "\<forall>y. rid_of ?s1 y = rid_of s y"
      "\<forall>y. y \<noteq> x \<longrightarrow> objs ?s1 y = objs s y" using f0(3) by (simp_all add: fsm_ready_def upd_obj_def)
    have "num_computed_tokens (objs ?s0 x) = 0" using sched_invD(11)[OF f0(1) x] by (simp add: waits_ok_def)
    then have ct: "computed_tokens ?s0 (objs ?s0 x) = Inr ([hits], m, m, ?s1)" using g(1) by (simp add: computed_tokens_def)
    have lora: "\<not> lora_limit_reached c loras ?r" using plainD(3)[OF p] by (simp add: lora_limit_reached_def)
    let ?n = "cap_tokens c (num_req_tokens ?r - m)"
    have n: "0 < ?n" "m + ?n \<le> num_req_tokens ?r" using g(3) f0(4) by (simp_all add: cap_tokens_def)
    have eq: "waiting_step c env x s l (Fcfs_queue sk) loras =
        (if \<not> chunked_prefill_enabled c \<and> ?n > token_budget l then bindE (skip_request ?s1 x (Fcfs_queue sk)) (\<lambda>(s', q). Inr (True, s', l, q, loras))
         else bindE (waiting_tokens c env x m m [hits] (min ?n (token_budget l)) ?s1 l loras) (\<lambda>(go, s2, l2, loras2). Inr (go, s2, l2, Fcfs_queue sk, loras2)))"
      using st ready lora ct n(1) bud unfolding waiting_step_def fsm_ready_def Let_def by (simp cong: if_cong split: if_splits)
    show ?thesis
    proof (cases "\<not> chunked_prefill_enabled c \<and> ?n > token_budget l")
      case True
      then have "skippable c env s (token_budget l) x"
        using cap_tokens_mono[of "num_req_tokens ?r - m" "num_req_tokens ?r" c] g(2) by (simp add: skippable_def)
      then show ?thesis unfolding eq using skip[OF g(4) f1] True by simp
    next
      case False
      have lo1: "local_ok c ?s1 l" by (rule local_ok_cong[OF si(3)]) (use si(3) f0(3) in \<open>simp_all add: local_ok_def\<close>)
      have "\<exists>go s' l'. waiting_tokens c env x m m [hits] (min ?n (token_budget l)) ?s1 l loras = Inr (go, s', l', loras) \<and> wait_inv c sz G K sk (if go then w else x # w) s' l'
        \<and> running s' = (if go then running ?s1 @ [x] else running ?s1) \<and> requests s' = requests ?s1 \<and> (\<forall>y. rid_of s' y = rid_of ?s1 y) \<and> preempted_reqs l' = preempted_reqs l \<and> token_budget l' \<le> token_budget l
        \<and> (\<forall>y. y \<noteq> x \<longrightarrow> objs s' y = objs ?s1 y)"
        by (rule waiting_tokens_inv[OF p g(4) lo1 _ _ _ g(2)]) (use si(2) f0(2,4) room n bud g(5) in simp_all)
      then obtain go s' l' where "waiting_tokens c env x m m [hits] (min ?n (token_budget l)) ?s1 l loras = Inr (go, s', l', loras)" "wait_inv c sz G K sk (if go then w else x # w) s' l'"
        "running s' = (if go then running s @ [x] else running s)" "requests s' = requests s" "\<forall>y. rid_of s' y = rid_of s y" "preempted_reqs l' = preempted_reqs l" "token_budget l' \<le> token_budget l"
        "\<forall>y. y \<noteq> x \<longrightarrow> objs s' y = objs s y" using f1 by auto
      then show ?thesis unfolding eq if_not_P[OF False] by (intro exI[of _ go] exI[of _ s'] exI[of _ l'] exI[of _ sk]) simp
    qed
  qed
qed

lemma waiting_loop_inv:
  assumes p: "plain_engine c env"
  shows "wait_inv c sz G K sk w s l \<Longrightarrow> \<exists>s' l' w' A B. waiting_loop c env s l (Fcfs_queue sk) loras = Inr (s', l', Fcfs_queue (rev B @ sk)) \<and> wait_inv c sz G K (rev B @ sk) w' s' l'
    \<and> running s' = running s @ A \<and> (\<exists>M. w = M @ w' \<and> M \<in> shuffles A B) \<and> (\<forall>x \<in> set B. skippable c env s (token_budget l') x)
    \<and> requests s' = requests s \<and> (\<forall>y. rid_of s' y = rid_of s y) \<and> preempted_reqs l' = preempted_reqs l \<and> token_budget l' \<le> token_budget l"
proof (induction w arbitrary: sk s l)
  case Nil
  then have "waiting_loop c env s l (Fcfs_queue sk) loras = Inr (s, l, Fcfs_queue (rev [] @ sk))" by (subst waiting_loop.simps) (simp add: wait_inv_def)
  then show ?case using Nil by (intro exI[of _ s] exI[of _ l] exI[of _ "[]"]) simp
next
  case (Cons x w)
  have wt: "waiting s = Fcfs_queue (x # w)" using Cons.prems by (simp add: wait_inv_def)
  show ?case
  proof (cases "0 < token_budget l \<and> length (running s) \<noteq> max_num_running_reqs c")
    case False
    then have "waiting_loop c env s l (Fcfs_queue sk) loras = Inr (s, l, Fcfs_queue (rev [] @ sk))" by (subst waiting_loop.simps) auto
    then show ?thesis using Cons.prems by - (rule exI[of _ s], rule exI[of _ l], rule exI[of _ "x # w"], rule exI[of _ "[]"], rule exI[of _ "[]"], simp)
  next
    case True
    then have room: "length (running s) < max_num_running_reqs c" using Cons.prems sched_invD(5) by (fastforce simp: wait_inv_def)
    obtain go s1 l1 sk1 where st: "waiting_step c env x s l (Fcfs_queue sk) loras = Inr (go, s1, l1, Fcfs_queue sk1, loras)" "wait_inv c sz G K sk1 (if go then w else x # w) s1 l1"
      "go \<and> sk1 = x # sk \<and> skippable c env s (token_budget l) x \<and> running s1 = running s \<or> sk1 = sk \<and> running s1 = (if go then running s @ [x] else running s)"
      "requests s1 = requests s" "\<forall>y. rid_of s1 y = rid_of s y" "preempted_reqs l1 = preempted_reqs l" "token_budget l1 \<le> token_budget l" "\<forall>y. y \<noteq> x \<longrightarrow> objs s1 y = objs s y"
      using waiting_step_inv[OF p Cons.prems conjunct1[OF True] room, of loras] by (elim exE conjE) (rule that)
    have eq: "waiting_loop c env s l (Fcfs_queue sk) loras = (if go then waiting_loop c env s1 l1 (Fcfs_queue sk1) loras else Inr (s1, l1, Fcfs_queue sk1))"
      using True wt st(1) by (subst waiting_loop.simps) (simp add: fcfs_peek_request_def)
    show ?thesis
    proof (cases go)
      case False
      then show ?thesis using eq st by - (rule exI[of _ s1], rule exI[of _ l1], rule exI[of _ "x # w"], rule exI[of _ "[]"], rule exI[of _ "[]"], simp)
    next
      case go: True
      then have w1: "wait_inv c sz G K sk1 w s1 l1" using st(2) by simp
      obtain s' l' w' A B M where i: "waiting_loop c env s1 l1 (Fcfs_queue sk1) loras = Inr (s', l', Fcfs_queue (rev B @ sk1))" "wait_inv c sz G K (rev B @ sk1) w' s' l'"
        "running s' = running s1 @ A" "w = M @ w'" "M \<in> shuffles A B" "\<forall>y \<in> set B. skippable c env s1 (token_budget l') y"
        "requests s' = requests s1" "\<forall>y. rid_of s' y = rid_of s1 y" "preempted_reqs l' = preempted_reqs l1" "token_budget l' \<le> token_budget l1"
        using Cons.IH[OF w1] by (elim exE conjE) (rule that)
      have "x \<notin> set w" using Cons.prems sched_invD(4) by (fastforce simp: wait_inv_def)
      then have "\<forall>y \<in> set B. y \<noteq> x" using i(4) set_shuffles[OF i(5)] by auto
      then have sb: "\<forall>y \<in> set B. skippable c env s (token_budget l') y" using i(6) st(8) by (simp add: skippable_def)
      from st(3) go consider (skip) "sk1 = x # sk" "skippable c env s (token_budget l) x" "running s1 = running s" | (run) "sk1 = sk" "running s1 = running s @ [x]" by auto
      then show ?thesis
      proof cases
        case skip
        have "skippable c env s (token_budget l') x" by (rule skippable_antimono[OF skip(2)]) (use i(10) st(7) in simp)
        moreover have "x # M \<in> shuffles A (x # B)" by (rule Cons_in_shuffles_rightI[OF i(5)])
        ultimately show ?thesis using eq go i skip sb st(4-7)
          by - (rule exI[of _ s'], rule exI[of _ l'], rule exI[of _ w'], rule exI[of _ A], rule exI[of _ "x # B"], simp)
      next
        case run
        have "x # M \<in> shuffles (x # A) B" by (rule Cons_in_shuffles_leftI[OF i(5)])
        then show ?thesis using eq go i run sb st(4-7)
          by - (rule exI[of _ s'], rule exI[of _ l'], rule exI[of _ w'], rule exI[of _ "x # A"], rule exI[of _ B], simp)
      qed
    qed
  qed
qed

end
