(* ===== verification/Sched_Step.thy ===== *)
theory Sched_Step
  imports Sched_Run
begin

text \<open>
  A scheduling step as a whole: both loops, the output for the workers, and the advance of the scheduled requests. The last lemma, \<open>schedule_inv\<close>, says what \<open>schedule\<close>
  does in every state that satisfies the invariant of \<^verbatim>\<open>Sched_Inv\<close>.
\<close>

section \<open>Both loops\<close>

text \<open>The order of the requests: what ran keeps running or waits again in front, those admitted follow in their order, those passed over are put back in reverse.\<close>

definition served_in_order :: "sched_config \<Rightarrow> sched_env \<Rightarrow> scheduler \<Rightarrow> int \<Rightarrow> rref list \<Rightarrow> rref list \<Rightarrow> rref list \<Rightarrow> bool" where
  "served_in_order c env s left all run wait \<longleftrightarrow> (\<exists>R M W A B. all = R @ M @ W \<and> M \<in> shuffles A B \<and> run = R @ A \<and> wait = rev B @ W \<and> (\<forall>x \<in> set B. skippable c env s left x))"

lemma schedule_requests_inv:
  assumes p: "plain_engine c env" and inv: "sched_inv c sz G K (\<lambda>_. 0) w s" and wt: "waiting s = Fcfs_queue w" and bud: "0 \<le> max_num_scheduled_tokens c"
  shows "\<exists>s' l w'. schedule_requests c env s = Inr (s', l) \<and> step_inv c sz G K w' s' l \<and> served_in_order c env s (token_budget l) (running s @ w) (running s') w'
    \<and> requests s' = requests s \<and> (\<forall>y. rid_of s' y = rid_of s y)"
proof -
  have "step_inv c sz G K w s (init_local c)" using inv wt init_local_ok(1)[OF bud] init_local_ok(2) by (simp add: step_inv_def init_local_def)
  from running_loop_inv[OF p this, of "[]" "running s" 0] obtain s1 l1 w1 Q where r: "running_loop c env 0 s (init_local c) = Inr (s1, l1)" "step_inv c sz G K w1 s1 l1"
    "running s = running s1 @ Q" "w1 = Q @ w" "set (preempted_reqs l1) = set Q" "requests s1 = requests s" "\<forall>y. rid_of s1 y = rid_of s y" "\<forall>y. y \<notin> set (running s) \<longrightarrow> objs s1 y = objs s y"
    by (auto simp: init_local_ok(3,4))
  have si: "sched_inv c sz G K (booked l1) w1 s1" "waiting s1 = Fcfs_queue w1" "local_ok c s1 l1" "set (preempted_reqs l1) \<subseteq> set w1" using r(2) by (simp_all add: step_inv_def)
  have q: "create_request_queue (policy c) = Fcfs_queue []" using plainD(1)[OF p] by (simp add: create_request_queue_def)
  have lor: "(case max_loras c of None \<Rightarrow> False | Some m \<Rightarrow> card (scheduled_loras c s1 l1) > m) = False" using plainD(3)[OF p] by simp
  show ?thesis
  proof (cases "preempted_reqs l1 = []")
    case False
    then have "schedule_requests c env s = Inr (s1, l1)" unfolding schedule_requests_def using r(1) lor q by (simp add: put_back_def)
    moreover have "served_in_order c env s (token_budget l1) (running s @ w) (running s1) w1" unfolding served_in_order_def
      by (rule exI[of _ "running s1"], rule exI[of _ "[]"], rule exI[of _ w1], rule exI[of _ "[]"], rule exI[of _ "[]"]) (simp add: r(3,4))
    ultimately show ?thesis using r(2,6,7) by (intro exI[of _ s1] exI[of _ l1] exI[of _ w1]) simp
  next
    case True
    have "wait_inv c sz G K [] w1 s1 l1" using si by (simp add: wait_inv_def)
    from waiting_loop_inv[OF p this, of "scheduled_loras c s1 l1"] obtain s2 l2 w2 A B M where
      v: "waiting_loop c env s1 l1 (Fcfs_queue []) (scheduled_loras c s1 l1) = Inr (s2, l2, Fcfs_queue (rev B @ []))" "wait_inv c sz G K (rev B @ []) w2 s2 l2"
      "running s2 = running s1 @ A" "w1 = M @ w2" "M \<in> shuffles A B" "\<forall>x \<in> set B. skippable c env s1 (token_budget l2) x" "requests s2 = requests s1" "\<forall>y. rid_of s2 y = rid_of s1 y"
      "preempted_reqs l2 = preempted_reqs l1" by (elim exE conjE) (rule that)
    let ?s3 = "s2\<lparr>waiting := Fcfs_queue (rev B @ w2)\<rparr>"
    have wi: "sched_inv c sz G K (booked l2) (rev B @ w2) s2" "waiting s2 = Fcfs_queue w2" "local_ok c s2 l2" using v(2) by (simp_all add: wait_inv_def)
    have inv3: "sched_inv c sz G K (booked l2) (rev B @ w2) ?s3" by (rule inv_reorder(2)[OF wi(1)]) (use sched_invD(4)[OF wi(1)] in simp_all)
    have "put_back s2 (Fcfs_queue (rev B)) = Inr ?s3"
      using wi(2) by (cases "B = []") (simp_all add: put_back_def rq_prepend_requests_def fcfs_prepend_requests_append scheduler.equality)
    then have "schedule_requests c env s = Inr (?s3, l2)" unfolding schedule_requests_def using r(1) lor q True v(1) by simp
    moreover have "step_inv c sz G K (rev B @ w2) ?s3 l2" using inv3 wi(3) v(9) True by (simp add: step_inv_def local_ok_def)
    moreover have "served_in_order c env s (token_budget l2) (running s @ w) (running ?s3) (rev B @ w2)"
    proof -
      have "x \<notin> set (running s)" if "x \<in> set B" for x
      proof -
        have "x \<in> set w1" using that v(4) set_shuffles[OF v(5)] by auto
        then show ?thesis using sched_invD(4)[OF inv] r(4,5) True by auto
      qed
      then have "\<forall>x \<in> set B. skippable c env s (token_budget l2) x" using v(6) r(8) by (simp add: skippable_def)
      then show ?thesis unfolding served_in_order_def using v(3-5) r(3,4)
        by - (rule exI[of _ "running s1"], rule exI[of _ M], rule exI[of _ w2], rule exI[of _ A], rule exI[of _ B], simp)
    qed
    ultimately show ?thesis using r(6,7) v(7,8) by (intro exI[of _ ?s3] exI[of _ l2] exI[of _ "rev B @ w2"]) simp
  qed
qed

section \<open>The output\<close>

lemma new_reqs_data_ok:
  "\<forall>x \<in> set xs. rid_of s x \<in> dom (req_to_new_blocks l) \<Longrightarrow> \<exists>ds. new_reqs_data s l xs = Inr ds \<and> map nr_req_id ds = map (rid_of s) xs"
proof (induction xs)
  case (Cons x xs)
  then obtain bs ds where "req_to_new_blocks l (rid_of s x) = Some bs" "new_reqs_data s l xs = Inr ds" "map nr_req_id ds = map (rid_of s) xs" by auto
  then show ?case by (intro exI[of _ "new_request_from (objs s x) (case get_block_ids bs False of Some ids \<Rightarrow> ids | None \<Rightarrow> []) # ds"]) (simp add: new_request_from_def)
qed simp

lemma cached_loop_ok:
  "\<forall>x \<in> set xs. rid_of s x \<in> dom (req_to_new_blocks l) \<and> rid_of s x \<in> fst ` set (num_scheduled_tokens l)
    \<Longrightarrow> \<exists>tss bss. cached_loop c s l xs = Inr (map (rid_of s) xs, tss, bss, map (\<lambda>x. num_computed_tokens (objs s x)) xs)"
proof (induction xs)
  case (Cons x xs)
  then obtain bs tss bss where 1: "req_to_new_blocks l (rid_of s x) = Some bs"
    "cached_loop c s l xs = Inr (map (rid_of s) xs, tss, bss, map (\<lambda>x. num_computed_tokens (objs s x)) xs)" by auto
  have "map_of (num_scheduled_tokens l) (rid_of s x) \<noteq> None" using Cons.prems by (simp add: map_of_eq_None_iff)
  then obtain n where "map_of (num_scheduled_tokens l) (rid_of s x) = Some n" by auto
  then show ?case using 1 by (simp add: Let_def)
qed simp

text \<open>The ids in the output are those of the scheduled requests.\<close>

lemma make_cached_request_data_ok:
  assumes "local_ok c s l"
  shows "\<exists>d. make_cached_request_data c s l = Inr d \<and> cr_req_ids d = map (rid_of s) (scheduled_running_reqs l @ scheduled_resumed_reqs l)
    \<and> cr_num_computed_tokens d = map (\<lambda>x. num_computed_tokens (objs s x)) (scheduled_running_reqs l @ scheduled_resumed_reqs l)"
proof -
  have "\<forall>x \<in> set (scheduled_running_reqs l @ scheduled_resumed_reqs l). rid_of s x \<in> dom (req_to_new_blocks l) \<and> rid_of s x \<in> fst ` set (num_scheduled_tokens l)"
    using assms by (auto simp: local_ok_def scheduled_def)
  from cached_loop_ok[OF this, of c] show ?thesis by (auto simp: make_cached_request_data_def)
qed

lemma within_limits_ok:
  assumes inv: "sched_inv c sz G K b ws s" and lo: "local_ok c s l"
  shows "within_limits c s l"
proof -
  have "length (scheduled l) \<le> length (running s)"
  proof -
    have "card (set (scheduled l)) \<le> card (set (running s))" using lo by (intro card_mono) (auto simp: local_ok_def)
    then show ?thesis using lo sched_invD(4)[OF inv] by (simp add: local_ok_def distinct_card)
  qed
  then show ?thesis using lo sched_invD(5)[OF inv] by (simp add: within_limits_def local_ok_def scheduled_def)
qed

section \<open>After the step\<close>

lemma free_done_inputs_ok:
  assumes r: "sized sz r"
  shows "ec_ok sz e \<Longrightarrow> set is \<subseteq> {..<length (mm_positions r)} \<Longrightarrow> \<exists>e'. free_done_inputs c e r is = Inr e' \<and> ec_ok sz e'"
proof (induction "is" arbitrary: e)
  case (Cons i "is")
  have i: "i < length (mm_positions r)" "set is \<subseteq> {..<length (mm_positions r)}" using Cons.prems(2) by simp_all
  obtain e1 where e1: "free_encoder_input e r i = Inr e1" "ec_ok sz e1" using free_encoder_input_ok[OF Cons.prems(1) r i(1) refl] by blast
  show ?case using Cons.IH[OF e1(2) i(2)] Cons.IH[OF Cons.prems(1) i(2)] e1(1) i(1) by (simp add: Let_def)
qed simp

lemma free_encoder_inputs_ok:
  assumes "sized sz r" "ec_ok sz e" "iterates (set_order env)"
  shows "\<exists>e'. free_encoder_inputs c env e r = Inr e' \<and> ec_ok sz e'"
proof -
  have "set (set_order env (get_cached_input_ids e r)) \<subseteq> {..<length (mm_positions r)}"
    using assms(1,3) by (auto simp: iterates_def get_cached_input_ids_def sized_def)
  then show ?thesis using free_done_inputs_ok[OF assms(1,2)] assms(2) by (simp add: free_encoder_inputs_def Let_def)
qed

lemma advance_inv:
  assumes inv: "sched_inv c sz G K b ws s" and x: "x \<in> set (running s)" "b (rid_of s x) = n"
  shows "sched_inv c sz G K (b(rid_of s x := 0)) ws (upd_obj s x (\<lambda>r. r\<lparr>num_computed_tokens := num_computed_tokens r + n\<rparr>))"
proof -
  let ?s = "upd_obj s x (\<lambda>r. r\<lparr>num_computed_tokens := num_computed_tokens r + n\<rparr>)" and ?b = "b(rid_of s x := 0)"
  note D = sched_invD[OF inv]
  have id: "rid_of ?s y = rid_of s y" for y by (simp add: upd_obj_def)
  have fr: "kv ?s = kv s" "running ?s = running s" "encoder ?s = encoder s" "requests ?s = requests s" by (simp_all add: upd_obj_def)
  have "runs_ok c (block_size_of (kv s)) (holding (kv s) (rid_of s y)) (?b (rid_of s y)) (objs ?s y)" if y: "y \<in> set (running s)" for y
  proof (cases "y = x")
    case True
    then show ?thesis using D(10)[OF x(1)] x(2)
      by (auto simp: upd_obj_def runs_ok_def num_req_tokens_def num_tokens_with_spec_def split: option.splits)
  next
    case False
    then have "rid_of s y \<noteq> rid_of s x" using rid_inj[OF inv, of y x] x(1) y by auto
    then show ?thesis using D(10)[OF y] False by (simp add: upd_obj_def)
  qed
  moreover have "?b rid = 0 \<and> cached_blocks s rid = None \<and> table (kv s) rid = []" if "rid \<notin> rid_of s ` set (running s)" for rid
    using D(12-14)[OF that] by auto
  moreover have "\<forall>y \<in> set ws. waits_ok (objs ?s y)" using D(4,11) x(1) by (auto simp: upd_obj_def)
  moreover have "\<forall>y. req_ok c sz G (km_enable_caching (kv s)) (block_size_of (kv s)) (objs ?s y) = req_ok c sz G (km_enable_caching (kv s)) (block_size_of (kv s)) (objs s y)"
    by (simp add: upd_obj_def)
  ultimately show ?thesis using inv unfolding sched_inv_def id fr by simp
qed

lemma advance_loop_inv:
  assumes p: "plain_engine c env"
  shows "sched_inv c sz G K b ws s \<Longrightarrow> distinct (map fst ns) \<Longrightarrow> \<forall>(rid, n) \<in> set ns. b rid = n \<and> 0 < n
    \<Longrightarrow> \<exists>s'. advance_loop c env ns s = Inr s' \<and> sched_inv c sz G K (\<lambda>rid. if rid \<in> fst ` set ns then 0 else b rid) ws s'
      \<and> running s' = running s \<and> waiting s' = waiting s \<and> requests s' = requests s \<and> (\<forall>y. rid_of s' y = rid_of s y)
      \<and> (\<forall>y \<in> set (running s). num_computed_tokens (objs s' y) = num_computed_tokens (objs s y) + (if rid_of s y \<in> fst ` set ns then b (rid_of s y) else 0))"
proof (induction ns arbitrary: s b)
  case Nil
  then show ?case by simp
next
  case (Cons q ns)
  obtain rid n where q: "q = (rid, n)" by (cases q)
  have n: "b rid = n" "0 < n" "rid \<notin> fst ` set ns" "distinct (map fst ns)" using Cons.prems(2,3) q by auto
  note D = sched_invD[OF Cons.prems(1)]
  have "rid \<in> rid_of s ` set (running s)" using D(12)[of rid] n(1,2) by auto
  then obtain x where x: "x \<in> set (running s)" "rid = rid_of s x" by auto
  have rx: "requests s rid = Some x" using D(6) x by simp
  let ?s1 = "upd_obj s x (\<lambda>r. r\<lparr>num_computed_tokens := num_computed_tokens r + n\<rparr>)" and ?b = "b(rid := 0)"
  have i1: "sched_inv c sz G K ?b ws ?s1" using advance_inv[OF Cons.prems(1) x(1), of n] n(1) x(2) by simp
  have id: "rid_of ?s1 y = rid_of s y" for y by (simp add: upd_obj_def)
  have "sized sz (objs ?s1 x)" using D(7)[of x] x(1) req_okD(1) by (fastforce simp: upd_obj_def sized_def)
  then obtain e where e: "free_encoder_inputs c env (encoder ?s1) (objs ?s1 x) = Inr e" "ec_ok sz e"
    using free_encoder_inputs_ok[OF _ sched_invD(3)[OF i1] plainD(5)[OF p]] by blast
  define s2 where "s2 = (if has_encoder_inputs (objs ?s1 x) then ?s1\<lparr>encoder := e\<rparr> else ?s1)"
  have i2: "sched_inv c sz G K ?b ws s2" using i1 inv_encoder[OF i1 e(2)] by (simp add: s2_def)
  have s2: "running s2 = running s" "waiting s2 = waiting s" "requests s2 = requests s" "objs s2 = (objs s)(x := (objs s x)\<lparr>num_computed_tokens := num_computed_tokens (objs s x) + n\<rparr>)"
    by (simp_all add: s2_def upd_obj_def)
  have pre: "\<forall>(r, m) \<in> set ns. ?b r = m \<and> 0 < m" using Cons.prems(3) n(3) by (fastforce simp: rev_image_eqI)
  obtain s' where s': "advance_loop c env ns s2 = Inr s'" "sched_inv c sz G K (\<lambda>r. if r \<in> fst ` set ns then 0 else ?b r) ws s'"
    "running s' = running s2" "waiting s' = waiting s2" "requests s' = requests s2" "\<forall>y. rid_of s' y = rid_of s2 y"
    "\<forall>y \<in> set (running s2). num_computed_tokens (objs s' y) = num_computed_tokens (objs s2 y) + (if rid_of s2 y \<in> fst ` set ns then ?b (rid_of s2 y) else 0)"
    using Cons.IH[OF i2 n(4) pre] by (elim exE conjE) (rule that)
  have rids: "rid_of s2 y = rid_of s y" for y by (simp add: s2(4))
  have "advance_loop c env (q # ns) s = Inr s'" using q rx e(1) s'(1) by (simp add: s2_def Let_def split: if_splits)
  moreover have "(\<lambda>r. if r \<in> fst ` set ns then 0 else ?b r) = (\<lambda>r. if r \<in> fst ` set (q # ns) then 0 else b r)" using q by (auto simp: fun_eq_iff)
  moreover have "num_computed_tokens (objs s' y) = num_computed_tokens (objs s y) + (if rid_of s y \<in> fst ` set (q # ns) then b (rid_of s y) else 0)" if y: "y \<in> set (running s)" for y
  proof (cases "y = x")
    case True
    then show ?thesis using s'(7) y s2(1,4) rids x(2) n(1,3) q by simp
  next
    case False
    then have "rid_of s y \<noteq> rid" using rid_inj[OF Cons.prems(1), of y x] x y by auto
    then show ?thesis using s'(7) y s2(1) rids False q s2(4) by simp
  qed
  ultimately show ?case using s'(2-6) s2(1-3) rids by (intro exI[of _ s']) simp
qed

section \<open>The step\<close>

lemma take_events_same: "km_ok k \<Longrightarrow> km_take_events k = ([], k)"
  using km_okD(9)[of k] by (simp add: km_take_events_def take_events_def the_pool_def)

lemma ec_ok_freed: "ec_ok sz e \<Longrightarrow> ec_ok sz (e\<lparr>freed := []\<rparr>)"
  by (simp add: ec_ok_def unreferenced_def)

lemma common_prefix_returns:
  assumes "sched_inv c sz G K b ws s"
  shows "\<exists>common. (case running s of [] \<Rightarrow> Inr (replicate (num_kv_cache_groups (kv s)) 0)
    | x # _ \<Rightarrow> km_get_num_common_prefix_blocks (kv s) (kv_request (objs s x)) (status (objs s x) = RUNNING) (int (length (running s)))) = Inr common"
proof (cases "running s")
  case (Cons x xs)
  then have "status (objs s x) = RUNNING" using sched_invD(10)[OF assms, of x] by (simp add: runs_ok_def)
  then show ?thesis using Cons by (simp add: km_get_num_common_prefix_blocks_def)
qed simp

text \<open>What the output says: positive token counts within the limit, for requests that run after the step, each described once.\<close>

definition output_ok :: "sched_config \<Rightarrow> scheduler \<Rightarrow> scheduler_output \<Rightarrow> bool" where
  "output_ok c s out \<longleftrightarrow> so_total_num_scheduled_tokens out = sum_list (map snd (so_num_scheduled_tokens out))
     \<and> so_total_num_scheduled_tokens out \<le> max_num_scheduled_tokens c \<and> (\<forall>p \<in> set (so_num_scheduled_tokens out). 0 < snd p)
     \<and> distinct (map fst (so_num_scheduled_tokens out)) \<and> distinct (map nr_req_id (so_new_reqs out) @ cr_req_ids (so_cached_reqs out))
     \<and> fst ` set (so_num_scheduled_tokens out) = set (map nr_req_id (so_new_reqs out) @ cr_req_ids (so_cached_reqs out))
     \<and> set (map nr_req_id (so_new_reqs out) @ cr_req_ids (so_cached_reqs out)) \<subseteq> rid_of s ` set (running s)"

lemma distinct_rids:
  assumes "sched_inv c sz G K b ws s" "distinct xs" "set xs \<subseteq> set (running s)"
  shows "distinct (map (rid_of s) xs)"
proof -
  have "x = y" if "x \<in> set xs" "y \<in> set xs" "rid_of s x = rid_of s y" for x y using rid_inj[OF assms(1), of x y] that assms(3) by auto
  then show ?thesis using assms(2) by (simp add: distinct_map inj_on_def)
qed

lemma schedule_inv:
  assumes p: "plain_engine c env" and inv: "sched_inv c sz G K (\<lambda>_. 0) w s" and wt: "waiting s = Fcfs_queue w" and bud: "0 \<le> max_num_scheduled_tokens c"
  shows "\<exists>out ev s' w'. schedule c env s = Inr (out, ev, s') \<and> sched_inv c sz G K (\<lambda>_. 0) w' s' \<and> waiting s' = Fcfs_queue w'
    \<and> served_in_order c env s (max_num_scheduled_tokens c - so_total_num_scheduled_tokens out) (running s @ w) (running s') w' \<and> output_ok c s' out \<and> requests s' = requests s"
proof -
  obtain s1 l w1 where r: "schedule_requests c env s = Inr (s1, l)" "step_inv c sz G K w1 s1 l" "served_in_order c env s (token_budget l) (running s @ w) (running s1) w1"
    "requests s1 = requests s" "\<forall>y. rid_of s1 y = rid_of s y" using schedule_requests_inv[OF assms] by blast
  have si: "sched_inv c sz G K (booked l) w1 s1" "waiting s1 = Fcfs_queue w1" "local_ok c s1 l" using r(2) by (simp_all add: step_inv_def)
  note wl = within_limits_ok[OF si(1,3)]
  obtain common where common: "(case running s1 of [] \<Rightarrow> Inr (replicate (num_kv_cache_groups (kv s1)) 0)
    | x # _ \<Rightarrow> km_get_num_common_prefix_blocks (kv s1) (kv_request (objs s1 x)) (status (objs s1 x) = RUNNING) (int (length (running s1)))) = Inr common"
    using common_prefix_returns[OF si(1)] by blast
  have "\<forall>x \<in> set (scheduled_new_reqs l). rid_of s1 x \<in> dom (req_to_new_blocks l)" using si(3) by (auto simp: local_ok_def scheduled_def)
  from new_reqs_data_ok[OF this] obtain ds where ds: "new_reqs_data s1 l (scheduled_new_reqs l) = Inr ds" "map nr_req_id ds = map (rid_of s1) (scheduled_new_reqs l)" by blast
  obtain d where d: "make_cached_request_data c s1 l = Inr d" "cr_req_ids d = map (rid_of s1) (scheduled_running_reqs l @ scheduled_resumed_reqs l)"
    using make_cached_request_data_ok[OF si(3)] by blast
  let ?s2 = "s1\<lparr>encoder := (encoder s1)\<lparr>freed := []\<rparr>, kv := kv s1\<rparr>"
  have i2: "sched_inv c sz G K (booked l) w1 ?s2" using inv_encoder[OF si(1) ec_ok_freed[OF sched_invD(3)[OF si(1)]]] by (simp add: sched_inv_def)
  have nums: "distinct (map fst (num_scheduled_tokens l))" "\<forall>(rid, n) \<in> set (num_scheduled_tokens l). booked l rid = n \<and> 0 < n"
    using si(3) by (auto simp: local_ok_def booked_def map_of_is_SomeI)
  obtain s3 where s3: "advance_loop c env (num_scheduled_tokens l) ?s2 = Inr s3"
    "sched_inv c sz G K (\<lambda>rid. if rid \<in> fst ` set (num_scheduled_tokens l) then 0 else booked l rid) w1 s3" "running s3 = running ?s2" "waiting s3 = waiting ?s2"
    "requests s3 = requests ?s2" "\<forall>y. rid_of s3 y = rid_of ?s2 y" using advance_loop_inv[OF p i2 nums] by (elim exE conjE) (rule that)
  have b0: "(\<lambda>rid. if rid \<in> fst ` set (num_scheduled_tokens l) then 0 else booked l rid) = (\<lambda>_. 0)"
    using booked_none[OF si(3)] si(3) by (auto simp: fun_eq_iff local_ok_def)
  let ?s4 = "s3\<lparr>finished_req_ids := {}\<rparr>"
  have up: "update_after_schedule c env (num_scheduled_tokens l) ?s2 = Inr ?s4" using s3(1) plainD(4)[OF p] by (simp add: update_after_schedule_def Let_def)
  have i4: "sched_inv c sz G K (\<lambda>_. 0) w1 ?s4" using s3(2) unfolding b0 by (simp add: sched_inv_def)
  obtain ids bitmask where gb: "get_grammar_bitmask env s1 l = (ids, bitmask)" by (cases "get_grammar_bitmask env s1 l")
  let ?out = "\<lparr>so_new_reqs = ds, so_cached_reqs = d, so_num_scheduled_tokens = num_scheduled_tokens l,
     so_total_num_scheduled_tokens = total_scheduled l, so_spec_decode_tokens = scheduled_spec_decode_tokens l,
     so_encoder_inputs = scheduled_encoder_inputs l, so_num_common_prefix_blocks = common, so_finished_req_ids = finished_req_ids s1,
     so_free_encoder_mm_hashes = freed (encoder s1), so_structured_output_request_ids = ids, so_grammar_bitmask = bitmask\<rparr>"
  have "schedule c env s = Inr (?out, [], ?s4)"
    unfolding schedule_def using r(1) wl common ds(1) d(1) gb take_events_same[OF sched_invD(1)[OF si(1)]] up
    by (simp add: get_freed_mm_hashes_def)
  moreover have "output_ok c ?s4 ?out"
  proof -
    have "distinct (map (rid_of s1) (scheduled l))" by (rule distinct_rids[OF si(1)]) (use si(3) in \<open>simp_all add: local_ok_def\<close>)
    then have "distinct (map nr_req_id ds @ cr_req_ids d)" unfolding ds(2) d(2) by (auto simp: scheduled_def)
    moreover have sd: "set (map nr_req_id ds @ cr_req_ids d) = rid_of s1 ` set (scheduled l)" unfolding set_append ds(2) d(2) by (auto simp: scheduled_def)
    moreover have "rid_of s1 ` set (scheduled l) \<subseteq> rid_of ?s4 ` set (running ?s4)" using si(3) s3(3,6) by (auto simp: local_ok_def)
    ultimately show ?thesis using si(3) wl by (simp add: output_ok_def within_limits_def local_ok_def total_scheduled_def)
  qed
  moreover have "token_budget l = max_num_scheduled_tokens c - total_scheduled l" using si(3) by (simp add: local_ok_def)
  ultimately show ?thesis using i4 si(2) s3(3-5) r(3,4) by (intro exI[of _ ?out] exI[of _ "[]"] exI[of _ ?s4] exI[of _ w1]) simp
qed

end
