(* ===== verification/Sched_Output.thy ===== *)
theory Sched_Output
  imports Sched_Step
begin

text \<open>
  The other half of an engine step: sampled tokens are appended, requests that end leave the scheduler and give their blocks back. What the scheduler relies on
  of the block hasher is the locale \<open>block_hashing\<close>; the absent hasher and the chained hasher are its interpretations.
\<close>

section \<open>The block hasher\<close>

locale block_hashing =
  fixes bh :: block_hasher and G :: "request \<Rightarrow> bool" and caching :: bool and bs :: int
  assumes append_law: "hashes_ok caching bs r \<Longrightarrow> G (hash_view r) \<Longrightarrow>
    \<exists>r'. append_tokens bh r [t] = Inr r' \<and> hashes_ok caching bs r' \<and> G (hash_view r')"

lemma append_tokens_fields:
  assumes "append_tokens bh r ks = Inr r'"
  shows "all_token_ids r' = all_token_ids r @ ks" "output_token_ids r' = output_token_ids r @ ks" "status r' = status r" "same_params r r'"
  using assms by (auto simp: append_tokens_def hash_new_full_blocks_def result_simps split: option.splits)

lemma hash_view_cong:
  assumes "same_params r r'" "all_token_ids r' = all_token_ids r" "block_hashes r' = block_hashes r"
  shows "hash_view r' = hash_view r" "hashes_ok caching bs r' = hashes_ok caching bs r"
  using same_paramsD[OF assms(1)] assms(2,3) by (simp_all add: hash_view_def request.truncate_def hashes_ok_def num_req_tokens_def)

context block_hashing
begin

text \<open>Appending sampled tokens keeps the hashes of the request in step with its tokens.\<close>

lemma output_loop_inv:
  "hashes_ok caching bs r \<Longrightarrow> G (hash_view r) \<Longrightarrow> pooling r \<or> sampling r \<noteq> None \<Longrightarrow>
    \<exists>kept stopped r'. output_loop bh mml r toks k0 = Inr (k0 @ kept, stopped, r') \<and> same_params r r' \<and> hashes_ok caching bs r' \<and> G (hash_view r')
      \<and> (toks \<noteq> [] \<longrightarrow> kept \<noteq> []) \<and> num_req_tokens r' = num_req_tokens r + int (length kept)
      \<and> (if stopped then status_is_finished (status r') else status r' = status r \<and> (toks \<noteq> [] \<longrightarrow> num_req_tokens r' < mml))"
proof (induction toks arbitrary: r k0)
  case Nil
  then show ?case by (intro exI[of _ "[]"] exI[of _ False] exI[of _ r]) simp
next
  case (Cons t ts)
  obtain r1 where a: "append_tokens bh r [t] = Inr r1" "hashes_ok caching bs r1" "G (hash_view r1)" using append_law[OF Cons.prems(1,2)] by blast
  note f = append_tokens_fields[OF a(1)]
  have r1: "pooling r1 \<or> sampling r1 \<noteq> None" "output_token_ids r1 \<noteq> []" using Cons.prems(3) same_paramsD[OF f(4)] f(2) by simp_all
  obtain r2 where c: "check_stop r1 mml False = Inr (ends_at mml r1 [], r2)" "same_params r1 r2" "all_token_ids r2 = all_token_ids r1" "block_hashes r2 = block_hashes r1"
    "if ends_at mml r1 [] then status r2 = end_status mml r1 [] else r2 = r1" using check_stop_ok[OF r1, of mml] by blast
  have r2: "hashes_ok caching bs r2" "G (hash_view r2)" using hash_view_cong[OF c(2-4)] a(2,3) by simp_all
  have n2: "num_req_tokens r2 = num_req_tokens r + 1" using c(3) f(1) by (simp add: num_req_tokens_def)
  note sp = same_params_trans[OF f(4) c(2)]
  show ?case
  proof (cases "ends_at mml r1 []")
    case True
    then show ?thesis using a(1) c(1,5) r2 n2 sp by (intro exI[of _ "[t]"] exI[of _ True] exI[of _ r2]) simp
  next
    case False
    then have e: "r2 = r1" "num_req_tokens r1 < mml" using c(5) by (simp_all add: ends_at_def capped_def)
    obtain kept stopped r' where i: "output_loop bh mml r2 ts (k0 @ [t]) = Inr ((k0 @ [t]) @ kept, stopped, r')" "same_params r2 r'" "hashes_ok caching bs r'" "G (hash_view r')"
      "ts \<noteq> [] \<longrightarrow> kept \<noteq> []" "num_req_tokens r' = num_req_tokens r2 + int (length kept)"
      "if stopped then status_is_finished (status r') else status r' = status r2 \<and> (ts \<noteq> [] \<longrightarrow> num_req_tokens r' < mml)"
      using Cons.IH[OF r2, of "k0 @ [t]"] r1(1) e(1) by blast
    have nil: "ts = [] \<Longrightarrow> r' = r2 \<and> \<not> stopped" using i(1) by auto
    have "output_loop bh mml r (t # ts) k0 = Inr (k0 @ t # kept, stopped, r')" using a(1) c(1) False i(1) by simp
    moreover have "if stopped then status_is_finished (status r') else status r' = status r \<and> num_req_tokens r' < mml"
      using i(7) e f(3) nil by (cases "ts = []"; cases stopped) simp_all
    ultimately show ?thesis using i(2-4,6) n2 same_params_trans[OF sp i(2)] by (intro exI[of _ "t # kept"] exI[of _ stopped] exI[of _ r']) (cases stopped; simp)
  qed
qed

end

text \<open>Without prefix caching there is no hasher.\<close>

interpretation unhashed: block_hashing None "\<lambda>_. True" False bs
  by unfold_locales (simp add: append_tokens_def hash_new_full_blocks_def hashes_ok_def num_req_tokens_def)

text \<open>The hasher of \<open>get_request_block_hasher\<close>, which returns for every block size but 0.\<close>

definition chained_hasher :: "hash_function \<Rightarrow> byte_list \<Rightarrow> nat \<Rightarrow> request \<Rightarrow> byte_list list result" where
  "chained_hasher hash_fn none_hash n r = (case request_block_hasher hash_fn none_hash n r of Some res \<Rightarrow> res | None \<Rightarrow> Inl RuntimeError)"

definition text_hashed :: "hash_function \<Rightarrow> byte_list \<Rightarrow> nat \<Rightarrow> request \<Rightarrow> bool" where
  "text_hashed hash_fn none_hash n r \<longleftrightarrow> mm_positions r = [] \<and> hashed hash_fn none_hash n r"

lemma hashed_view: "hashed hash_fn none_hash n (hash_view r) = hashed hash_fn none_hash n (kv_request r)"
proof -
  have "spec_hash hash_fn none_hash n (hash_view r) k = spec_hash hash_fn none_hash n (kv_request r) k" for k
    by (rule spec_hash_cong) (simp_all add: hash_view_def)
  then show ?thesis by (simp add: hashed_def hash_view_def num_tokens_def cong: map_cong)
qed

lemma chained_append:
  assumes n: "0 < n" and r: "text_hashed hash_fn none_hash n (hash_view r)"
  shows "\<exists>r'. append_tokens (Some (chained_hasher hash_fn none_hash n)) r ts = Inr r' \<and> text_hashed hash_fn none_hash n (hash_view r')"
proof -
  let ?r = "kv_request r" and ?q = "r\<lparr>output_token_ids := output_token_ids r @ ts, all_token_ids := all_token_ids r @ ts\<rparr>"
  have h: "mm_positions ?r = []" "hashed hash_fn none_hash n ?r" using r hashed_view by (simp_all add: text_hashed_def hash_view_def)
  have q: "kv_request ?q = ?r\<lparr>all_token_ids := all_token_ids ?r @ ts\<rparr>" by (simp add: request.truncate_def)
  from append_output_hashed[OF h(1) n h(2), of ts] obtain r1 where r1: "append_output_token_ids hash_fn none_hash n ?r ts = Some (Inr r1)" "hashed hash_fn none_hash n r1" by blast
  then obtain hs where hs: "request_block_hasher hash_fn none_hash n (kv_request ?q) = Some (Inr hs)" "r1 = (kv_request ?q)\<lparr>block_hashes := block_hashes (kv_request ?q) @ hs\<rparr>"
    unfolding append_output_token_ids_def Let_def q by (auto simp: result_simps)
  let ?r' = "?q\<lparr>block_hashes := block_hashes r @ hs\<rparr>"
  have "append_tokens (Some (chained_hasher hash_fn none_hash n)) r ts = Inr ?r'" using hs(1) by (simp add: append_tokens_def hash_new_full_blocks_def chained_hasher_def)
  moreover have "hashed hash_fn none_hash n (kv_request ?r')" using hs(2) r1(2) by (simp add: request.truncate_def)
  moreover have "mm_positions (hash_view ?r') = []" using h(1) by (simp add: hash_view_def request.truncate_def)
  ultimately show ?thesis unfolding text_hashed_def using hashed_view[of hash_fn none_hash n ?r'] by blast
qed

text \<open>With a collision-free hash function the hashes of a request differ pairwise.\<close>

locale collision_free =
  fixes hash_fn :: hash_function and none_hash :: byte_list and n :: nat
  assumes inj_hash: "inj hash_fn" and fresh_hash: "hash_fn v \<noteq> [] \<and> hash_fn v \<noteq> none_hash" and size: "0 < n"
begin

lemma text_hashed_ok:
  assumes "text_hashed hash_fn none_hash n (hash_view r)"
  shows "hashes_ok caching (int n) r"
proof -
  have h: "block_hashes r = map (spec_hash hash_fn none_hash n (kv_request r)) [0..<num_tokens (kv_request r) div n]"
    using assms hashed_view unfolding text_hashed_def hashed_def by (simp add: request.truncate_def)
  have nt: "num_tokens (kv_request r) = length (all_token_ids r)" by (simp add: num_tokens_def request.truncate_def)
  have "inj_on (spec_hash hash_fn none_hash n (kv_request r)) A" for A
    using spec_hash_sound[OF inj_hash fresh_hash] by (intro inj_onI) blast
  then have "distinct (block_hashes r)" unfolding h by (simp add: distinct_map)
  moreover have "length (block_hashes r) * n \<le> length (all_token_ids r)" unfolding h nt by simp
  then have "int (length (block_hashes r)) * int n \<le> num_req_tokens r" unfolding num_req_tokens_def by (simp flip: of_nat_mult)
  moreover have "int (length (block_hashes r)) = num_req_tokens r div int n" unfolding h nt by (simp add: num_req_tokens_def zdiv_int)
  ultimately show ?thesis by (simp add: hashes_ok_def)
qed

end

sublocale collision_free \<subseteq> chained: block_hashing "Some (chained_hasher hash_fn none_hash n)" "text_hashed hash_fn none_hash n" True "int n"
proof
  fix r :: sched_request and t
  assume "text_hashed hash_fn none_hash n (hash_view r)"
  from chained_append[OF size this] text_hashed_ok show "\<exists>r'. append_tokens (Some (chained_hasher hash_fn none_hash n)) r [t] = Inr r' \<and> hashes_ok True (int n) r'
    \<and> text_hashed hash_fn none_hash n (hash_view r')" by blast
qed

interpretation demo: collision_free demo_hash "[9]" 2
  by unfold_locales (use demo_hash_inj in \<open>auto simp: demo_hash_def\<close>)

section \<open>Requests that leave\<close>

lemma sched_free_ok:
  assumes k: "km_ok (kv s)" and e: "ec_ok sz (encoder s)" "sized sz (objs s x)" "iterates (set_order env)" and f: "status_is_finished (status (objs s x))" "requests s (rid_of s x) \<noteq> None"
  obtains s' where "sched_free_request env s x = Inr s'" "objs s' = objs s" "running s' = running s" "waiting s' = waiting s" "requests s' = (requests s)(rid_of s x := None)"
    "ec_ok sz (encoder s')" "km_ok (kv s')" "same_setup (kv s) (kv s')" "table (kv s') = (table (kv s))(rid_of s x := [])" "cached_blocks s' = (cached_blocks s)(rid_of s x := None)"
    "finished_req_ids s' = insert (rid_of s x) (finished_req_ids s)"
proof -
  obtain k1 where k1: "km_free (kv s) (kv_request (objs s x)) = Inr k1" "km_ok k1" "same_setup (kv s) k1" "table k1 = (table (kv s))(rid_of s x := [])"
    "num_cached_block (the_manager k1) = (cached_blocks s)(rid_of s x := None)" using km_free_ok[OF k, of "kv_request (objs s x)"] by auto
  obtain e1 where e1: "ec_free (set_order env) (encoder s) (objs s x) = Inr e1" "ec_ok sz e1" using ec_free_ok[OF e] by blast
  obtain d where "sched_free_request env s x = Inr (s\<lparr>encoder := e1, finished_req_ids := insert (rid_of s x) (finished_req_ids s), finished_req_ids_dict := d,
      kv := k1, requests := (requests s)(rid_of s x := None)\<rparr>)"
    using k1(1) e1(1) f by (simp add: sched_free_request_def free_request_blocks_def Let_def)
  then show ?thesis by (rule that) (use k1 e1 in simp_all)
qed

text \<open>A request leaves: its object may have changed in any way before, but for its id.\<close>

lemma leave_inv:
  assumes inv: "sched_inv c sz G K (\<lambda>_. 0) ws s" and x: "x \<in> set (running s @ ws)"
    and s': "running s' = filter (\<lambda>y. y \<noteq> x) (running s)" "\<forall>y. y \<noteq> x \<longrightarrow> objs s' y = objs s y" "rid_of s' x = rid_of s x"
      "requests s' = (requests s)(rid_of s x := None)" "ec_ok sz (encoder s')" "km_ok (kv s')" "same_setup (kv s) (kv s')"
      "table (kv s') = (table (kv s))(rid_of s x := [])" "cached_blocks s' = (cached_blocks s)(rid_of s x := None)"
  shows "sched_inv c sz G K (\<lambda>_. 0) (filter (\<lambda>y. y \<noteq> x) ws) s'"
proof -
  note D = sched_invD[OF inv]
  have id: "rid_of s' y = rid_of s y" for y using s'(2,3) by (cases "y = x") simp_all
  have ne: "rid_of s y \<noteq> rid_of s x" if "y \<in> set (running s @ ws)" "y \<noteq> x" for y using rid_inj[OF inv that(1) x] that(2) by auto
  have "requests s' (rid_of s y) = Some y \<and> req_ok c sz G (km_enable_caching (kv s')) (block_size_of (kv s')) (objs s' y)" if y: "y \<in> set (running s @ ws)" "y \<noteq> x" for y
    using D(6,7)[OF y(1)] ne[OF y] s'(2,4,7) y(2) by (simp add: same_setup_def)
  then have "\<forall>y \<in> set (running s' @ filter (\<lambda>y. y \<noteq> x) ws). requests s' (rid_of s y) = Some y
      \<and> req_ok c sz G (km_enable_caching (kv s')) (block_size_of (kv s')) (objs s' y)"
    using s'(1) by (intro ballI) auto
  moreover have "\<forall>rid y. requests s' rid = Some y \<longrightarrow> y \<in> set (running s' @ filter (\<lambda>y. y \<noteq> x) ws) \<and> rid_of s y = rid"
  proof (intro allI impI)
    fix rid y assume "requests s' rid = Some y"
    then have y: "requests s rid = Some y" "rid \<noteq> rid_of s x" using s'(4) by (simp_all split: if_splits)
    then show "y \<in> set (running s' @ filter (\<lambda>y. y \<noteq> x) ws) \<and> rid_of s y = rid" using D(8,9)[OF y(1)] s'(1) by auto
  qed
  moreover have "runs_ok c (block_size_of (kv s')) (holding (kv s') (rid_of s y)) 0 (objs s' y)" if y: "y \<in> set (running s')" for y
    using D(10)[of y] y s'(1,2,7-9) ne[of y] by (simp add: same_setup_def)
  moreover have "\<forall>y \<in> set (filter (\<lambda>y. y \<noteq> x) ws). waits_ok (objs s' y)" using D(11) s'(2) by simp
  moreover have "cached_blocks s' rid = None \<and> table (kv s') rid = []" if "rid \<notin> rid_of s ` set (running s')" for rid
  proof (cases "rid = rid_of s x")
    case False
    then have "rid \<notin> rid_of s ` set (running s)" using that s'(1) by auto
    then show ?thesis using D(13,14) s'(8,9) False by simp
  qed (use s'(8,9) in simp)
  moreover have "distinct (running s' @ filter (\<lambda>y. y \<noteq> x) ws)" "length (running s') \<le> max_num_running_reqs c"
    using D(4,5) s'(1) le_trans[OF length_filter_le] by auto
  ultimately show ?thesis using D(2,15,16) s'(5-7) unfolding sched_inv_def id by (simp add: same_setup_def)
qed

section \<open>One output\<close>

definition live :: "scheduler \<Rightarrow> output_acc \<Rightarrow> rref list" where
  "live s acc = filter (\<lambda>x. x \<notin> set (oa_stopped_running acc)) (running s)"

text \<open>While outputs are processed the requests that stopped are still listed as running.\<close>

definition out_inv :: "sched_config \<Rightarrow> (mm_hash \<Rightarrow> int) \<Rightarrow> (request \<Rightarrow> bool) \<Rightarrow> bool \<times> int \<Rightarrow> rref list \<Rightarrow> scheduler \<Rightarrow> output_acc \<Rightarrow> bool" where
  "out_inv c sz G K ws s acc \<longleftrightarrow> sched_inv c sz G K (\<lambda>_. 0) ws (s\<lparr>running := live s acc\<rparr>) \<and> distinct (running s @ ws) \<and> oa_stopped_preempted acc = []"

text \<open>Updates of fields that the invariant does not read.\<close>

definition harmless :: "(sched_request \<Rightarrow> sched_request) \<Rightarrow> bool" where
  "harmless f \<longleftrightarrow> (\<forall>r. \<exists>g m es. f r = r\<lparr>grammar_tokens := g, num_nans_in_logits := m, events := es\<rparr>)"

lemma harmless_inv:
  assumes inv: "out_inv c sz G K ws s acc" and f: "harmless f"
  shows "out_inv c sz G K ws (upd_obj s x f) acc"
proof -
  let ?s = "s\<lparr>running := live s acc\<rparr>"
  obtain g m es where r: "f (objs s x) = (objs s x)\<lparr>grammar_tokens := g, num_nans_in_logits := m, events := es\<rparr>" using f unfolding harmless_def by blast
  have i: "sched_inv c sz G K (\<lambda>_. 0) ws ?s" using inv by (simp add: out_inv_def)
  have "sched_inv c sz G K (\<lambda>_. 0) ws (upd_obj ?s x f)"
  proof (rule inv_obj[OF i])
    show "x \<in> set (running ?s) \<Longrightarrow> runs_ok c (block_size_of (kv ?s)) (holding (kv ?s) (rid_of ?s x)) 0 (f (objs ?s x))"
      using sched_invD(10)[OF i, of x] by (simp add: r runs_ok_def num_req_tokens_def num_tokens_with_spec_def split: option.splits)
    show "x \<in> set ws \<Longrightarrow> waits_ok (f (objs ?s x))" using sched_invD(11)[OF i, of x] by (simp add: r waits_ok_def)
  qed (simp_all add: r req_ok_def hashes_ok_def sized_def num_req_tokens_def hash_view_def request.truncate_def)
  moreover have "upd_obj ?s x f = (upd_obj s x f)\<lparr>running := live (upd_obj s x f) acc\<rparr>" by (rule scheduler.equality) (simp_all add: upd_obj_def live_def)
  ultimately show ?thesis using inv by (simp add: out_inv_def upd_obj_def)
qed

lemma harmless_fields [simp]:
  "harmless (\<lambda>r. r\<lparr>grammar_tokens := grammar_tokens r @ ts\<rparr>)" "harmless (\<lambda>r. r\<lparr>num_nans_in_logits := k\<rparr>)" "harmless (\<lambda>r. r\<lparr>events := []\<rparr>)"
proof -
  have "r\<lparr>grammar_tokens := grammar_tokens r @ ts\<rparr> = r\<lparr>grammar_tokens := grammar_tokens r @ ts, num_nans_in_logits := num_nans_in_logits r, events := events r\<rparr>"
    "r\<lparr>num_nans_in_logits := k\<rparr> = r\<lparr>grammar_tokens := grammar_tokens r, num_nans_in_logits := k, events := events r\<rparr>"
    "r\<lparr>events := []\<rparr> = r\<lparr>grammar_tokens := grammar_tokens r, num_nans_in_logits := num_nans_in_logits r, events := []\<rparr>" for r by (cases r; simp)+
  then show "harmless (\<lambda>r. r\<lparr>grammar_tokens := grammar_tokens r @ ts\<rparr>)" "harmless (\<lambda>r. r\<lparr>num_nans_in_logits := k\<rparr>)" "harmless (\<lambda>r. r\<lparr>events := []\<rparr>)"
    unfolding harmless_def by blast+
qed

lemma out_inv_acc:
  assumes "out_inv c sz G K ws s acc" "oa_stopped_running acc' = oa_stopped_running acc" "oa_stopped_preempted acc' = oa_stopped_preempted acc"
  shows "out_inv c sz G K ws s acc'"
  using assms by (simp add: out_inv_def live_def)

text \<open>What follows once the tokens of the request are settled.\<close>

definition frame :: "scheduler \<Rightarrow> scheduler \<Rightarrow> bool" where
  "frame s s' \<longleftrightarrow> running s' = running s \<and> waiting s' = waiting s \<and> requests s' = requests s \<and> kv s' = kv s"

lemma frame_trans: "frame a b \<Longrightarrow> frame b d \<Longrightarrow> frame a d"
  by (simp add: frame_def)

lemma frame_obj [simp]: "frame s s" "frame s (upd_obj s x f)"
  by (simp_all add: frame_def upd_obj_def)

lemma emit_inv:
  assumes inv: "out_inv c sz G K ws s acc" and k: "kept \<noteq> [] \<or> mr_prompt_logprobs_dict mr rid = None"
  shows "\<exists>s' acc'. emit_output mr rid idx x kept None s acc = Inr (s', acc') \<and> out_inv c sz G K ws s' acc' \<and> frame s s'"
proof (cases "kept = []")
  case True
  then show ?thesis using inv k by (intro exI[of _ s] exI[of _ acc]) (simp add: emit_output_def Let_def)
next
  case False
  obtain evs r' where t: "take_req_events (objs s x) = (evs, r')" by (cases "take_req_events (objs s x)")
  have "upd_obj s x (\<lambda>_. r') = s \<or> upd_obj s x (\<lambda>_. r') = upd_obj s x (\<lambda>r. r\<lparr>events := []\<rparr>)"
    using t by (auto simp: take_req_events_def upd_obj_def split: if_splits)
  then have "out_inv c sz G K ws (upd_obj s x (\<lambda>_. r')) acc" using inv harmless_inv[OF inv harmless_fields(3), of x] by auto
  then show ?thesis using False t by (auto simp: emit_output_def Let_def out_inv_def live_def)
qed

lemma tail_inv:
  assumes inv: "out_inv c sz G K ws s acc" and k: "kept \<noteq> [] \<or> mr_prompt_logprobs_dict mr rid = None"
    and s5: "s5 = (if kept \<noteq> [] \<and> should_advance env (objs s x) then upd_obj s x (\<lambda>r. r\<lparr>grammar_tokens := grammar_tokens r @ kept\<rparr>) else s)"
    and s6: "s6 = (case mr_num_nans_in_logits mr of None \<Rightarrow> s5 | Some m \<Rightarrow> (case m rid of None \<Rightarrow> s5 | Some k \<Rightarrow> upd_obj s5 x (\<lambda>r. r\<lparr>num_nans_in_logits := k\<rparr>)))"
  shows "\<exists>s' acc'. emit_output mr rid idx x kept None s6 acc = Inr (s', acc') \<and> out_inv c sz G K ws s' acc' \<and> frame s s'"
proof -
  have 5: "out_inv c sz G K ws s5 acc" "frame s s5" using inv harmless_inv[OF inv harmless_fields(1), of x kept] unfolding s5 by simp_all
  have 6: "out_inv c sz G K ws s6 acc" "frame s5 s6" using 5(1) harmless_inv[OF 5(1) harmless_fields(2), of x] unfolding s6 by (simp_all split: option.splits)
  from emit_inv[OF 6(1) k, of idx x] show ?thesis using frame_trans[OF 5(2) frame_trans[OF 6(2)]] by blast
qed

lemma apply_inv:
  assumes h: "block_hashing (hasher env) G (km_enable_caching (kv s)) (block_size_of (kv s))" and p: "plain_engine c env" and inv: "out_inv c sz G K ws s acc"
    and x: "x \<in> set (live s acc)" and toks: "toks \<noteq> []"
  shows "\<exists>kept stopped r'. apply_output c env s x toks = Inr (kept, stopped, upd_obj s x (\<lambda>_. r')) \<and> kept \<noteq> [] \<and> request_id r' = rid_of s x \<and> sized sz r'
    \<and> (if stopped then status_is_finished (status r') else out_inv c sz G K ws (upd_obj s x (\<lambda>_. r')) acc)"
proof -
  let ?s = "s\<lparr>running := live s acc\<rparr>"
  have i: "sched_inv c sz G K (\<lambda>_. 0) ws ?s" "distinct (running s @ ws)" "oa_stopped_preempted acc = []" using inv by (simp_all add: out_inv_def)
  have ro: "req_ok c sz G (km_enable_caching (kv s)) (block_size_of (kv s)) (objs s x)" using sched_invD(7)[OF i(1), of x] x by simp
  obtain kept stopped r' where o: "output_loop (hasher env) (max_model_len c) (objs s x) toks [] = Inr ([] @ kept, stopped, r')" "same_params (objs s x) r'"
    "hashes_ok (km_enable_caching (kv s)) (block_size_of (kv s)) r'" "G (hash_view r')" "toks \<noteq> [] \<longrightarrow> kept \<noteq> []" "num_req_tokens r' = num_req_tokens (objs s x) + int (length kept)"
    "if stopped then status_is_finished (status r') else status r' = status (objs s x) \<and> (toks \<noteq> [] \<longrightarrow> num_req_tokens r' < max_model_len c)"
    using block_hashing.output_loop_inv[OF h req_okD(8,10,9)[OF ro], of "max_model_len c" toks "[]"] by (elim exE conjE) (rule that)
  note sp = same_paramsD[OF o(2)]
  have ap: "apply_output c env s x toks = Inr (kept, stopped, upd_obj s x (\<lambda>_. r'))"
    using o(1) plainD(4)[OF p] by (simp add: apply_output_def update_request_with_output_def)
  have sz': "sized sz r'" using req_okD(1)[OF ro] sp by (simp add: sized_def)
  have "out_inv c sz G K ws (upd_obj s x (\<lambda>_. r')) acc" if ns: "\<not> stopped"
  proof -
    have st: "status r' = status (objs s x)" "num_req_tokens r' < max_model_len c" using o(7) ns toks by simp_all
    have "sched_inv c sz G K (\<lambda>_. 0) ws (upd_obj ?s x (\<lambda>_. r'))"
    proof (rule inv_obj[OF i(1)])
      show "req_ok c sz G (km_enable_caching (kv ?s)) (block_size_of (kv ?s)) r'" using ro sz' st o(3,4,6) sp by (simp add: req_ok_def)
      show "runs_ok c (block_size_of (kv ?s)) (holding (kv ?s) (rid_of ?s x)) 0 r'"
        using sched_invD(10)[OF i(1), of x] x st o(6) sp by (auto simp: runs_ok_def num_tokens_with_spec_def num_req_tokens_def split: option.splits)
      show "x \<in> set ws \<Longrightarrow> waits_ok r'" using sched_invD(4)[OF i(1)] x by auto
    qed (use sp in simp)
    moreover have "upd_obj ?s x (\<lambda>_. r') = (upd_obj s x (\<lambda>_. r'))\<lparr>running := live (upd_obj s x (\<lambda>_. r')) acc\<rparr>" by (rule scheduler.equality) (simp_all add: upd_obj_def live_def)
    ultimately show ?thesis using i(2,3) by (simp add: out_inv_def upd_obj_def)
  qed
  then show ?thesis using ap o(5,7) toks sp(1) sz' by (intro exI[of _ kept] exI[of _ stopped] exI[of _ r']) simp
qed

lemma stop_inv:
  assumes p: "plain_engine c env" and inv: "out_inv c sz G K ws s acc" and x: "x \<in> set (live s acc)"
    and r: "request_id r' = rid_of s x" "sized sz r'" "status_is_finished (status r')" and acc': "oa_stopped_running acc' = oa_stopped_running acc @ [x]" "oa_stopped_preempted acc' = []"
  shows "\<exists>s'. sched_free_request env (upd_obj s x (\<lambda>_. r')) x = Inr s' \<and> out_inv c sz G K ws s' acc' \<and> running s' = running s \<and> waiting s' = waiting s
    \<and> requests s' = (requests s)(rid_of s x := None) \<and> same_setup (kv s) (kv s')"
proof -
  let ?s = "s\<lparr>running := live s acc\<rparr>" and ?u = "upd_obj s x (\<lambda>_. r')"
  have i: "sched_inv c sz G K (\<lambda>_. 0) ws ?s" "distinct (running s @ ws)" using inv by (simp_all add: out_inv_def)
  note D = sched_invD[OF i(1)]
  have u: "objs ?u x = r'" "kv ?u = kv s" "encoder ?u = encoder s" "requests ?u = requests s" "running ?u = running s" "waiting ?u = waiting s" "y \<noteq> x \<Longrightarrow> objs ?u y = objs s y" for y
    by (simp_all add: upd_obj_def)
  have pre: "km_ok (kv ?u)" "ec_ok sz (encoder ?u)" "sized sz (objs ?u x)" "status_is_finished (status (objs ?u x))" "requests ?u (rid_of ?u x) \<noteq> None"
    using D(1,3) D(6)[of x] x r u(1-4) by simp_all
  obtain s' where s': "sched_free_request env ?u x = Inr s'" "objs s' = objs ?u" "running s' = running ?u" "waiting s' = waiting ?u" "requests s' = (requests ?u)(rid_of ?u x := None)"
    "ec_ok sz (encoder s')" "km_ok (kv s')" "same_setup (kv ?u) (kv s')" "table (kv s') = (table (kv ?u))(rid_of ?u x := [])" "cached_blocks s' = (cached_blocks ?u)(rid_of ?u x := None)"
    by (rule sched_free_ok[OF pre(1-3) plainD(5)[OF p] pre(4,5)])
  have lv: "live s' acc' = filter (\<lambda>y. y \<noteq> x) (live s acc)" using s'(3) u(5) acc'(1) by (auto simp: live_def intro: filter_cong)
  have "x \<notin> set ws" using D(4) x by auto
  then have ws: "filter (\<lambda>y. y \<noteq> x) ws = ws" by (intro filter_True) auto
  have "sched_inv c sz G K (\<lambda>_. 0) (filter (\<lambda>y. y \<noteq> x) ws) (s'\<lparr>running := live s' acc'\<rparr>)"
    by (rule leave_inv[OF i(1), of x]) (use x lv s'(2-10) u r(1) in simp_all)
  then have "out_inv c sz G K ws s' acc'" using ws i(2) s'(3) u(5) acc'(2) by (simp add: out_inv_def)
  then show ?thesis using s'(1,3-5,8) u r(1) by (intro exI[of _ s']) simp
qed

text \<open>What a worker that samples tokens returns for the ids of the step: an index for each, token lists within range, and prompt
  log-probabilities only together with a token.\<close>

definition runner_ok :: "model_runner_output \<Rightarrow> string set \<Rightarrow> bool" where
  "runner_ok mr rids \<longleftrightarrow> mr_pooler_output mr = [] \<and> (\<forall>rid \<in> rids. \<exists>idx. mr_req_id_to_index mr rid = Some idx \<and> (mr_sampled_token_ids mr \<noteq> [] \<longrightarrow> idx < length (mr_sampled_token_ids mr))
     \<and> (mr_prompt_logprobs_dict mr rid \<noteq> None \<longrightarrow> mr_sampled_token_ids mr \<noteq> [] \<and> mr_sampled_token_ids mr ! idx \<noteq> []))"

lemma output_step_inv:
  assumes h: "block_hashing (hasher env) G (km_enable_caching (kv s)) (block_size_of (kv s))" and p: "plain_engine c env" and inv: "out_inv c sz G K ws s acc" and n: "0 < n"
    and d: "so_spec_decode_tokens out rid = None" and mr: "runner_ok mr {rid}" and run: "\<forall>x. requests s rid = Some x \<longrightarrow> x \<in> set (running s)"
  shows "\<exists>s' acc'. output_step c env out mr rid n s acc = Inr (s', acc') \<and> out_inv c sz G K ws s' acc' \<and> running s' = running s \<and> waiting s' = waiting s
    \<and> requests s' \<subseteq>\<^sub>m requests s \<and> same_setup (kv s) (kv s')"
proof (cases "requests s rid")
  case None
  then show ?thesis using inv n by (intro exI[of _ s] exI[of _ acc]) (simp add: output_step_def same_setup_def)
next
  case (Some x)
  let ?s = "s\<lparr>running := live s acc\<rparr>"
  have i: "sched_inv c sz G K (\<lambda>_. 0) ws ?s" "distinct (running s @ ws)" "oa_stopped_preempted acc = []" using inv by (simp_all add: out_inv_def)
  have rid: "rid_of s x = rid" and x: "x \<in> set (live s acc)" using sched_invD(8,9)[OF i(1), of rid x] Some run i(2) by auto
  have st: "status (objs s x) = RUNNING" using sched_invD(10)[OF i(1), of x] x by (simp add: runs_ok_def)
  obtain idx where ix: "mr_req_id_to_index mr rid = Some idx" "mr_sampled_token_ids mr \<noteq> [] \<longrightarrow> idx < length (mr_sampled_token_ids mr)"
    "mr_prompt_logprobs_dict mr rid \<noteq> None \<longrightarrow> mr_sampled_token_ids mr \<noteq> [] \<and> mr_sampled_token_ids mr ! idx \<noteq> []" and pool: "mr_pooler_output mr = []"
    using mr by (auto simp: runner_ok_def)
  define toks where "toks = (if mr_sampled_token_ids mr = [] then [] else mr_sampled_token_ids mr ! idx)"
  have get: "(if mr_sampled_token_ids mr = [] then Inr [] else list_get (mr_sampled_token_ids mr) idx) = Inr toks" using ix(2) by (simp add: toks_def list_get_def)
  have settle: "settle_drafts c out rid x g s st0 = Inr (s, st0)" for g st0 using d by (simp add: settle_drafts_def)
  note unf = output_step_def settle pool ix(1) get Some st
  show ?thesis
  proof (cases "toks = []")
    case True
    let ?acc = "acc\<lparr>oa_spec_stats := oa_spec_stats acc, oa_stopped_running := oa_stopped_running acc, oa_stopped_preempted := oa_stopped_preempted acc\<rparr>"
    have lp: "[] \<noteq> ([] :: int list) \<or> mr_prompt_logprobs_dict mr rid = None" using ix(3) True by (auto simp: toks_def)
    have a: "out_inv c sz G K ws s ?acc" by (rule out_inv_acc[OF inv]) simp_all
    have s5: "s = (if [] \<noteq> ([] :: int list) \<and> should_advance env (objs s x) then upd_obj s x (\<lambda>r. r\<lparr>grammar_tokens := grammar_tokens r @ []\<rparr>) else s)" by simp
    obtain s' acc' where t: "emit_output mr rid idx x [] None (case mr_num_nans_in_logits mr of None \<Rightarrow> s | Some m \<Rightarrow> (case m rid of None \<Rightarrow> s | Some k \<Rightarrow> upd_obj s x (\<lambda>r. r\<lparr>num_nans_in_logits := k\<rparr>)))
       ?acc = Inr (s', acc')" "out_inv c sz G K ws s' acc'" "frame s s'"
      using tail_inv[OF a lp s5 refl, where idx = idx] by blast
    have "output_step c env out mr rid n s acc = Inr (s', acc')" using n True t(1) by (simp add: unf Let_def cong: if_cong)
    then show ?thesis using t(2,3) by (intro exI[of _ s'] exI[of _ acc']) (simp add: frame_def same_setup_def)
  next
    case toks: False
    obtain kept stopped r' where a: "apply_output c env s x toks = Inr (kept, stopped, upd_obj s x (\<lambda>_. r'))" "kept \<noteq> []" "request_id r' = rid_of s x" "sized sz r'"
      "if stopped then status_is_finished (status r') else out_inv c sz G K ws (upd_obj s x (\<lambda>_. r')) acc" using apply_inv[OF h p inv x toks] by blast
    let ?u = "upd_obj s x (\<lambda>_. r')"
    let ?acc = "acc\<lparr>oa_spec_stats := oa_spec_stats acc, oa_stopped_running := (if stopped then oa_stopped_running acc @ [x] else oa_stopped_running acc), oa_stopped_preempted := oa_stopped_preempted acc\<rparr>"
    have "\<exists>s4. (if stopped then sched_free_request env ?u x else Inr ?u) = Inr s4 \<and> out_inv c sz G K ws s4 ?acc \<and> running s4 = running s \<and> waiting s4 = waiting s
       \<and> requests s4 \<subseteq>\<^sub>m requests s \<and> same_setup (kv s) (kv s4)"
    proof (cases stopped)
      case True
      have r: "status_is_finished (status r')" "oa_stopped_running ?acc = oa_stopped_running acc @ [x]" "oa_stopped_preempted ?acc = []" using a(5) i(3) True by simp_all
      obtain s4 where "sched_free_request env ?u x = Inr s4" "out_inv c sz G K ws s4 ?acc" "running s4 = running s" "waiting s4 = waiting s"
        "requests s4 = (requests s)(rid_of s x := None)" "same_setup (kv s) (kv s4)" using stop_inv[OF p inv x a(3,4) r] by (elim exE conjE) (rule that)
      then show ?thesis using True by (intro exI[of _ s4]) (simp add: map_le_def)
    next
      case False
      then have "out_inv c sz G K ws ?u ?acc" using a(5) by - (rule out_inv_acc[of c sz G K ws ?u acc], simp_all)
      then show ?thesis using False by (simp add: upd_obj_def same_setup_def)
    qed
    then obtain s4 where s4: "(if stopped then sched_free_request env ?u x else Inr ?u) = Inr s4" "out_inv c sz G K ws s4 ?acc" "running s4 = running s" "waiting s4 = waiting s"
      "requests s4 \<subseteq>\<^sub>m requests s" "same_setup (kv s) (kv s4)" by blast
    define s5 where "s5 = (if kept \<noteq> [] \<and> should_advance env (objs s4 x) then upd_obj s4 x (\<lambda>r. r\<lparr>grammar_tokens := grammar_tokens r @ kept\<rparr>) else s4)"
    define s6 where "s6 = (case mr_num_nans_in_logits mr of None \<Rightarrow> s5 | Some m \<Rightarrow> (case m rid of None \<Rightarrow> s5 | Some k \<Rightarrow> upd_obj s5 x (\<lambda>r. r\<lparr>num_nans_in_logits := k\<rparr>)))"
    obtain s' acc' where t: "emit_output mr rid idx x kept None s6 ?acc = Inr (s', acc')" "out_inv c sz G K ws s' acc'" "frame s4 s'"
      using tail_inv[OF s4(2) disjI1[OF a(2)] s5_def s6_def, where idx = idx] by blast
    have "output_step c env out mr rid n s acc = Inr (s', acc')" using n toks a(1) s4(1) t(1) unfolding s6_def s5_def by (simp add: unf Let_def cong: if_cong)
    then show ?thesis using t(2,3) s4(3-6) by (intro exI[of _ s'] exI[of _ acc']) (simp add: frame_def)
  qed
qed

lemma output_steps_inv:
  assumes p: "plain_engine c env"
  shows "block_hashing (hasher env) G (km_enable_caching (kv s)) (block_size_of (kv s)) \<Longrightarrow> out_inv c sz G K ws s acc \<Longrightarrow> \<forall>q \<in> set ns. 0 < snd q
    \<Longrightarrow> \<forall>q \<in> set ns. so_spec_decode_tokens out (fst q) = None \<Longrightarrow> runner_ok mr (fst ` set ns) \<Longrightarrow> \<forall>rid \<in> fst ` set ns. \<forall>x. requests s rid = Some x \<longrightarrow> x \<in> set (running s)
    \<Longrightarrow> \<exists>s' acc'. output_steps c env out mr ns s acc = Inr (s', acc') \<and> out_inv c sz G K ws s' acc' \<and> running s' = running s \<and> waiting s' = waiting s
      \<and> requests s' \<subseteq>\<^sub>m requests s \<and> same_setup (kv s) (kv s')"
proof (induction ns arbitrary: s acc)
  case Nil
  then show ?case by (simp add: same_setup_def)
next
  case (Cons q ns)
  obtain rid n where q: "q = (rid, n)" by (cases q)
  have mr: "runner_ok mr {rid}" "runner_ok mr (fst ` set ns)" using Cons.prems(5) q by (simp_all add: runner_ok_def)
  obtain s1 acc1 where o: "output_step c env out mr rid n s acc = Inr (s1, acc1)" "out_inv c sz G K ws s1 acc1" "running s1 = running s" "waiting s1 = waiting s"
    "requests s1 \<subseteq>\<^sub>m requests s" "same_setup (kv s) (kv s1)"
    using output_step_inv[OF Cons.prems(1) p Cons.prems(2), where n = n and rid = rid and mr = mr and out = out] Cons.prems(3,4,6) mr(1) q by auto
  have h1: "block_hashing (hasher env) G (km_enable_caching (kv s1)) (block_size_of (kv s1))" using Cons.prems(1) o(6) by (simp add: same_setup_def)
  have run1: "\<forall>rid \<in> fst ` set ns. \<forall>x. requests s1 rid = Some x \<longrightarrow> x \<in> set (running s1)"
    using Cons.prems(6) o(3,5) by (auto simp: map_le_def dom_def)
  have pre: "\<forall>q \<in> set ns. 0 < snd q" "\<forall>q \<in> set ns. so_spec_decode_tokens out (fst q) = None" using Cons.prems(3,4) by simp_all
  obtain s' acc' where i: "output_steps c env out mr ns s1 acc1 = Inr (s', acc')" "out_inv c sz G K ws s' acc'" "running s' = running s1" "waiting s' = waiting s1"
    "requests s' \<subseteq>\<^sub>m requests s1" "same_setup (kv s1) (kv s')" using Cons.IH[OF h1 o(2) pre mr(2) run1] by (elim exE conjE) (rule that)
  then show ?case using q o map_le_trans[OF i(5) o(5)] by (intro exI[of _ s'] exI[of _ acc']) (simp add: same_setup_def)
qed

section \<open>The output of a step\<close>

lemma drop_stopped_inv:
  assumes "out_inv c sz G K ws s acc"
  shows "\<exists>s'. drop_stopped s acc = Inr s' \<and> sched_inv c sz G K (\<lambda>_. 0) ws s' \<and> running s' = live s acc \<and> waiting s' = waiting s \<and> requests s' = requests s \<and> kv s' = kv s"
proof -
  have i: "sched_inv c sz G K (\<lambda>_. 0) ws (s\<lparr>running := live s acc\<rparr>)" "distinct (running s)" "oa_stopped_preempted acc = []" using assms by (simp_all add: out_inv_def)
  have "(if oa_stopped_running acc \<noteq> [] then s\<lparr>running := remove_all (running s) (oa_stopped_running acc)\<rparr> else s) = s\<lparr>running := live s acc\<rparr>"
    using remove_all_distinct[OF i(2)] by (simp add: live_def)
  then have "drop_stopped s acc = Inr (s\<lparr>running := live s acc\<rparr>)" using i(3) by (simp add: drop_stopped_def)
  then show ?thesis using i(1) by simp
qed

lemma make_stats_inv:
  assumes inv: "sched_inv c sz G K (\<lambda>_. 0) ws s"
  shows "\<exists>st k. make_stats c s spec = Inr (st, s\<lparr>kv := k\<rparr>) \<and> sched_inv c sz G K (\<lambda>_. 0) ws (s\<lparr>kv := k\<rparr>) \<and> same_setup (kv s) k"
proof (cases "sched_log_stats c")
  case False
  then show ?thesis using inv by (intro exI[of _ None] exI[of _ "kv s"]) (simp add: make_stats_def same_setup_def)
next
  case True
  note D = sched_invD[OF inv]
  obtain st where st: "prefix_cache_stats (kv s) = Some st" using km_okD(11)[OF D(1)] D(15) True by auto
  let ?k = "(kv s)\<lparr>prefix_cache_stats := Some empty_stats\<rparr>"
  have k: "coord ?k = coord (kv s)" "km_ok ?k" using km_ok_stats[OF D(1)] by simp_all
  then have ss: "same_setup (kv s) ?k" "table ?k = table (kv s)" "num_cached_block (the_manager ?k) = cached_blocks s"
    by (simp_all add: same_setup_def the_manager_def the_pool_def block_size_of_def table_def fun_eq_iff)
  have "make_prefix_cache_stats (kv s) = (Some st, ?k)" using D(15) True st by (simp add: make_prefix_cache_stats_def)
  then have "\<exists>st. make_stats c s spec = Inr (st, s\<lparr>kv := ?k\<rparr>)" using True by (simp add: make_stats_def)
  then show ?thesis using inv_kv[OF inv k(2) ss] ss(1) by blast
qed

lemma update_from_output_inv:
  assumes p: "plain_engine c env" and h: "block_hashing (hasher env) G (km_enable_caching (kv s)) (block_size_of (kv s))" and inv: "sched_inv c sz G K (\<lambda>_. 0) w s" and wt: "waiting s = Fcfs_queue w"
    and out: "output_ok c s out" "so_spec_decode_tokens out = Map.empty" and mr: "runner_ok mr (fst ` set (so_num_scheduled_tokens out))"
  shows "\<exists>outs s'. update_from_output c env s out mr = Inr (outs, s') \<and> sched_inv c sz G K (\<lambda>_. 0) w s' \<and> waiting s' = Fcfs_queue w
    \<and> requests s' \<subseteq>\<^sub>m requests s \<and> same_setup (kv s) (kv s') \<and> set (running s') \<subseteq> set (running s)"
proof -
  let ?a0 = "\<lparr>oa_outputs = [], oa_spec_stats = None, oa_stopped_running = [], oa_stopped_preempted = []\<rparr>"
  have o0: "out_inv c sz G K w s ?a0" using inv sched_invD(4)[OF inv] by (simp add: out_inv_def live_def)
  have "x \<in> set (running s)" if rid: "rid \<in> fst ` set (so_num_scheduled_tokens out)" and rx: "requests s rid = Some x" for rid x
  proof -
    have "rid \<in> rid_of s ` set (running s)" using out(1) rid unfolding output_ok_def by blast
    then obtain y where y: "y \<in> set (running s)" "rid = rid_of s y" by (rule imageE)
    then have "requests s rid = Some y" using sched_invD(6)[OF inv, of y] by simp
    then show ?thesis using y(1) rx by simp
  qed
  then have run: "\<forall>rid \<in> fst ` set (so_num_scheduled_tokens out). \<forall>x. requests s rid = Some x \<longrightarrow> x \<in> set (running s)" by blast
  have pre: "\<forall>q \<in> set (so_num_scheduled_tokens out). 0 < snd q" "\<forall>q \<in> set (so_num_scheduled_tokens out). so_spec_decode_tokens out (fst q) = None"
    using out by (simp_all add: output_ok_def)
  obtain s1 acc where s1: "output_steps c env out mr (so_num_scheduled_tokens out) s ?a0 = Inr (s1, acc)" "out_inv c sz G K w s1 acc" "running s1 = running s" "waiting s1 = waiting s"
    "requests s1 \<subseteq>\<^sub>m requests s" "same_setup (kv s) (kv s1)" using output_steps_inv[OF p h o0 pre mr run] by (elim exE conjE) (rule that)
  obtain s2 where s2: "drop_stopped s1 acc = Inr s2" "sched_inv c sz G K (\<lambda>_. 0) w s2" "running s2 = live s1 acc" "waiting s2 = waiting s1" "requests s2 = requests s1" "kv s2 = kv s1"
    using drop_stopped_inv[OF s1(2)] by blast
  let ?outs = "map (\<lambda>(client, os). (client, \<lparr>eo_outputs = os, eo_finished_requests = None, eo_scheduler_stats = None\<rparr>)) (oa_outputs acc)"
  obtain outs1 d where s3: "(case finished_req_ids_dict s2 of Some d \<Rightarrow> if d = [] then (?outs, s2) else (add_finished ?outs d, s2\<lparr>finished_req_ids_dict := Some []\<rparr>) | None \<Rightarrow> (?outs, s2))
      = (outs1, s2\<lparr>finished_req_ids_dict := d\<rparr>)"
  proof (cases "finished_req_ids_dict s2 = None \<or> finished_req_ids_dict s2 = Some []")
    case True
    have "s2\<lparr>finished_req_ids_dict := finished_req_ids_dict s2\<rparr> = s2" by simp
    then show ?thesis using True by - (rule that[of ?outs "finished_req_ids_dict s2"], auto)
  next
    case False
    then obtain d where "finished_req_ids_dict s2 = Some d" "d \<noteq> []" by auto
    then show ?thesis by - (rule that[of "add_finished ?outs d" "Some []"], simp)
  qed
  have i3: "sched_inv c sz G K (\<lambda>_. 0) w (s2\<lparr>finished_req_ids_dict := d\<rparr>)" using s2(2) by (simp add: sched_inv_def)
  obtain st k where s4: "make_stats c (s2\<lparr>finished_req_ids_dict := d\<rparr>) (oa_spec_stats acc) = Inr (st, s2\<lparr>finished_req_ids_dict := d, kv := k\<rparr>)"
    "sched_inv c sz G K (\<lambda>_. 0) w (s2\<lparr>finished_req_ids_dict := d, kv := k\<rparr>)" "same_setup (kv s2) k" using make_stats_inv[OF i3, of "oa_spec_stats acc"] by auto
  have "update_from_output c env s out mr = Inr (case st of None \<Rightarrow> outs1 | Some st \<Rightarrow> add_stats outs1 st, s2\<lparr>finished_req_ids_dict := d, kv := k\<rparr>)"
    unfolding update_from_output_def using s1(1) s2(1) s3 s4(1) by simp
  then show ?thesis using s4(2,3) s1(3-6) s2(3-6) wt
    by (intro exI[of _ "case st of None \<Rightarrow> outs1 | Some st \<Rightarrow> add_stats outs1 st"] exI[of _ "s2\<lparr>finished_req_ids_dict := d, kv := k\<rparr>"]) (simp add: same_setup_def live_def)
qed

end
