(* ===== verification/Engine_Run.thy ===== *)
theory Engine_Run
  imports Sched_Output
begin

text \<open>
  Runs of the engine: requests arrive, steps are scheduled and their outputs applied, requests are aborted, the prefix cache is reset. Every state of such a run satisfies
  the invariant of the scheduler, so that every call of it returns.
\<close>

section \<open>Arrival and abort\<close>

lemma init_scheduler_inv:
  assumes k: "km_ok k" "km_max_model_len k = max_model_len c" "table k = (\<lambda>_. [])" "num_cached_block (the_manager k) = Map.empty" "log_stats k = sched_log_stats c"
    and n: "0 \<le> n" and p: "policy c = FCFS"
    and kk: "(km_enable_caching k, block_size_of k) = K"
  shows "sched_inv c sz G K (\<lambda>_. 0) [] (init_scheduler c fin os n k)" "waiting (init_scheduler c fin os n k) = Fcfs_queue []"
  using assms init_encoder_cache_ok[OF n] by (simp_all add: sched_inv_def init_scheduler_def create_request_queue_def)

lemma add_request_inv:
  assumes inv: "sched_inv c sz G K (\<lambda>_. 0) w s" and wt: "waiting s = Fcfs_queue w" and x: "requests s (rid_of s x) = None"
    "req_ok c sz G (km_enable_caching (kv s)) (block_size_of (kv s)) (objs s x)" "waits_ok (objs s x)"
  shows "\<exists>s'. add_request c now s x = Inr s' \<and> sched_inv c sz G K (\<lambda>_. 0) (w @ [x]) s' \<and> waiting s' = Fcfs_queue (w @ [x]) \<and> kv s' = kv s \<and> running s' = running s"
proof -
  note D = sched_invD[OF inv]
  define s1 where "s1 = s\<lparr>waiting := Fcfs_queue (w @ [x]), requests := (requests s)(rid_of s x \<mapsto> x)\<rparr>"
  have f: "running s1 = running s" "objs s1 = objs s" "kv s1 = kv s" "encoder s1 = encoder s" by (simp_all add: s1_def)
  have new: "rid_of s y \<noteq> rid_of s x" if "y \<in> set (running s @ w)" for y using D(6)[OF that] x(1) by (metis option.distinct(1))
  have fresh: "x \<notin> set (running s @ w)" using new by blast
  have i1: "sched_inv c sz G K (\<lambda>_. 0) (w @ [x]) s1"
  proof -
    have "requests s1 (rid_of s y) = Some y \<and> req_ok c sz G (km_enable_caching (kv s)) (block_size_of (kv s)) (objs s y)" if "y \<in> set (running s @ w @ [x])" for y
    proof (cases "y = x")
      case False
      then have y: "y \<in> set (running s @ w)" using that by simp
      then show ?thesis using D(6,7)[OF y] new[OF y] by (simp add: s1_def)
    qed (use x(2) in \<open>simp add: s1_def\<close>)
    moreover have "y \<in> set (running s @ w @ [x]) \<and> rid_of s y = rid" if y: "requests s1 rid = Some y" for rid y
    proof (cases "rid = rid_of s x")
      case False
      then have "requests s rid = Some y" using y by (simp add: s1_def)
      from D(8,9)[OF this] show ?thesis by simp
    qed (use y in \<open>simp add: s1_def\<close>)
    ultimately have "\<forall>y \<in> set (running s @ w @ [x]). requests s1 (rid_of s y) = Some y \<and> req_ok c sz G (km_enable_caching (kv s)) (block_size_of (kv s)) (objs s y)"
      "\<forall>rid y. requests s1 rid = Some y \<longrightarrow> y \<in> set (running s @ w @ [x]) \<and> rid_of s y = rid" by blast+
    then show ?thesis using D(1-5,15,16) D(10,11,13,14) fresh x(3) unfolding sched_inv_def f by simp
  qed
  let ?s2 = "if sched_log_stats c then upd_obj s1 x (\<lambda>r. record_event r QUEUED now) else s1"
  have "sched_inv c sz G K (\<lambda>_. 0) (w @ [x]) (upd_obj s1 x (\<lambda>r. record_event r QUEUED now))"
    by (rule inv_obj[OF i1]) (use x(3) fresh f in \<open>simp_all add: record_event_def waits_ok_def\<close>)
  then have "sched_inv c sz G K (\<lambda>_. 0) (w @ [x]) ?s2" using i1 by simp
  moreover have "add_request c now s x = Inr ?s2" using wt by (simp add: add_request_def fcfs_add_request_def Let_def s1_def)
  ultimately show ?thesis by (intro exI[of _ ?s2]) (simp add: upd_obj_def f, simp add: s1_def)
qed

lemma finish_loop_inv:
  assumes p: "plain_engine c env" and st: "status_is_finished st"
  shows "sched_inv c sz G K (\<lambda>_. 0) ws (s\<lparr>running := R\<rparr>) \<Longrightarrow> distinct xs \<Longrightarrow> set xs \<subseteq> set (R @ ws)
    \<Longrightarrow> \<exists>s'. finish_loop env st xs s = Inr s' \<and> sched_inv c sz G K (\<lambda>_. 0) (filter (\<lambda>y. y \<notin> set xs) ws) (s'\<lparr>running := filter (\<lambda>y. y \<notin> set xs) R\<rparr>)
      \<and> running s' = running s \<and> waiting s' = waiting s \<and> same_setup (kv s) (kv s') \<and> requests s' = (\<lambda>r. if r \<in> rid_of s ` set xs then None else requests s r)
      \<and> (\<forall>y. rid_of s' y = rid_of s y)"
proof (induction xs arbitrary: s ws R)
  case Nil
  then show ?case by (simp add: same_setup_def)
next
  case (Cons x xs)
  let ?u = "upd_obj s x (\<lambda>r. r\<lparr>status := st\<rparr>)"
  note D = sched_invD[OF Cons.prems(1)]
  have x: "x \<in> set (R @ ws)" using Cons.prems(3) by simp
  have ro: "req_ok c sz G (km_enable_caching (kv s)) (block_size_of (kv s)) (objs s x)" using D(7)[of x] x by simp
  have u: "objs ?u x = (objs s x)\<lparr>status := st\<rparr>" "kv ?u = kv s" "encoder ?u = encoder s" "requests ?u = requests s" "running ?u = running s" "waiting ?u = waiting s"
    "y \<noteq> x \<Longrightarrow> objs ?u y = objs s y" "rid_of ?u y = rid_of s y" for y by (simp_all add: upd_obj_def)
  have pre: "km_ok (kv ?u)" "ec_ok sz (encoder ?u)" "sized sz (objs ?u x)" "status_is_finished (status (objs ?u x))" "requests ?u (rid_of ?u x) \<noteq> None"
    using D(1,3) D(6)[of x] x st req_okD(1)[OF ro] u(1-4) by (simp_all add: sized_def)
  obtain s1 where s1: "sched_free_request env ?u x = Inr s1" "objs s1 = objs ?u" "running s1 = running ?u" "waiting s1 = waiting ?u" "requests s1 = (requests ?u)(rid_of ?u x := None)"
    "ec_ok sz (encoder s1)" "km_ok (kv s1)" "same_setup (kv ?u) (kv s1)" "table (kv s1) = (table (kv ?u))(rid_of ?u x := [])" "cached_blocks s1 = (cached_blocks ?u)(rid_of ?u x := None)"
    by (rule sched_free_ok[OF pre(1-3) plainD(5)[OF p] pre(4,5)])
  let ?R = "filter (\<lambda>y. y \<noteq> x) R" and ?ws = "filter (\<lambda>y. y \<noteq> x) ws"
  have i1: "sched_inv c sz G K (\<lambda>_. 0) ?ws (s1\<lparr>running := ?R\<rparr>)"
    by (rule leave_inv[OF Cons.prems(1), of x]) (use x s1(2-10) u in simp_all)
  have xs: "distinct xs" "set xs \<subseteq> set (?R @ ?ws)" using Cons.prems(2,3) by auto
  obtain s' where s': "finish_loop env st xs s1 = Inr s'" "sched_inv c sz G K (\<lambda>_. 0) (filter (\<lambda>y. y \<notin> set xs) ?ws) (s'\<lparr>running := filter (\<lambda>y. y \<notin> set xs) ?R\<rparr>)"
    "running s' = running s1" "waiting s' = waiting s1" "same_setup (kv s1) (kv s')" "requests s' = (\<lambda>r. if r \<in> rid_of s1 ` set xs then None else requests s1 r)"
    "\<forall>y. rid_of s' y = rid_of s1 y" using Cons.IH[OF i1 xs] by (elim exE conjE) (rule that)
  have f: "filter (\<lambda>y. y \<notin> set xs) (filter (\<lambda>y. y \<noteq> x) zs) = filter (\<lambda>y. y \<notin> set (x # xs)) zs" for zs by (auto intro: filter_cong)
  have ids: "rid_of s1 y = rid_of s y" for y using s1(2) u(8) by simp
  have "requests s' = (\<lambda>r. if r \<in> rid_of s ` set (x # xs) then None else requests s r)" using s'(6) s1(5) u(4,8) ids by (auto simp: fun_eq_iff)
  moreover have "same_setup (kv s) (kv s')" using s'(5) s1(8) u(2) by (simp add: same_setup_def)
  moreover have "finish_loop env st (x # xs) s = Inr s'" using s1(1) s'(1) by simp
  ultimately show ?case using s'(2-4,7) s1(3,4) u(5,6) ids unfolding f by (intro exI[of _ s']) simp
qed

lemma finish_requests_inv:
  assumes p: "plain_engine c env" and inv: "sched_inv c sz G K (\<lambda>_. 0) w s" and wt: "waiting s = Fcfs_queue w" and st: "status_is_finished st" and ids: "distinct rids"
  shows "\<exists>s' w'. finish_requests env s rids st = Inr s' \<and> sched_inv c sz G K (\<lambda>_. 0) w' s' \<and> waiting s' = Fcfs_queue w' \<and> same_setup (kv s) (kv s')
    \<and> requests s' = (\<lambda>r. if r \<in> set rids then None else requests s r)"
proof -
  note D = sched_invD[OF inv]
  define valid where "valid = List.map_filter (requests s) rids"
  have v: "set valid = {x. \<exists>rid \<in> set rids. requests s rid = Some x}" unfolding valid_def map_filter_def by (auto simp: image_iff) (metis option.sel option.simps(3))
  have "inj_on (the \<circ> requests s) (set (filter (\<lambda>r. requests s r \<noteq> None) rids))"
  proof (rule inj_onI)
    fix r r' assume "r \<in> set (filter (\<lambda>r. requests s r \<noteq> None) rids)" "r' \<in> set (filter (\<lambda>r. requests s r \<noteq> None) rids)" "(the \<circ> requests s) r = (the \<circ> requests s) r'"
    then obtain x where "requests s r = Some x" "requests s r' = Some x" by auto
    from D(9)[OF this(1)] D(9)[OF this(2)] show "r = r'" by (rule trans[OF sym])
  qed
  then have dv: "distinct valid" unfolding valid_def map_filter_def using ids by (simp add: distinct_map)
  have sub: "set valid \<subseteq> set (running s @ w)" using D(8) v by auto
  let ?fr = "filter (\<lambda>x. status (objs s x) = RUNNING) valid" and ?fw = "filter (\<lambda>x. status (objs s x) \<noteq> RUNNING) valid"
  have run: "x \<in> set (running s) \<longleftrightarrow> status (objs s x) = RUNNING" if "x \<in> set (running s @ w)" for x
    using D(10)[of x] D(11)[of x] that by (auto simp: runs_ok_def waits_ok_def)
  have notin: "x \<notin> set ?fw \<longleftrightarrow> x \<notin> set valid" if "x \<in> set w" for x using run[of x] that D(4) by auto
  have notinr: "x \<notin> set ?fr \<longleftrightarrow> x \<notin> set valid" if "x \<in> set (running s)" for x using run[of x] that by auto
  let ?R = "filter (\<lambda>x. x \<notin> set valid) (running s)" and ?w = "filter (\<lambda>x. x \<notin> set valid) w"
  let ?s1 = "s\<lparr>running := ?R\<rparr>" and ?s2 = "s\<lparr>running := ?R, waiting := Fcfs_queue ?w\<rparr>"
  have r1: "(if ?fr \<noteq> [] then s\<lparr>running := remove_all (running s) ?fr\<rparr> else s) = ?s1"
  proof -
    have "filter (\<lambda>x. x \<notin> set ?fr) (running s) = ?R" by (rule filter_cong[OF refl notinr])
    then show ?thesis using remove_all_distinct[of "running s" ?fr] D(4) by (cases "?fr = []") (simp_all only: distinct_append if_True if_False simp_thms filter_True list.set empty_iff, simp)
  qed
  have r2: "(if ?fw \<noteq> [] then bindE (rq_remove_requests (waiting ?s1) ?fw) (\<lambda>w. Inr (?s1\<lparr>waiting := w\<rparr>)) else Inr ?s1) = Inr ?s2"
  proof -
    have "filter (\<lambda>x. x \<notin> set ?fw) w = ?w" by (rule filter_cong[OF refl notin])
    then show ?thesis using wt by (cases "?fw = []") (simp_all add: fcfs_remove_requests_def scheduler.equality)
  qed
  have g: "sched_inv c sz G K (\<lambda>_. 0) w (?s2\<lparr>running := running s\<rparr>)" using inv by (simp add: sched_inv_def)
  obtain s' where s': "finish_loop env st valid ?s2 = Inr s'" "sched_inv c sz G K (\<lambda>_. 0) ?w (s'\<lparr>running := ?R\<rparr>)" "running s' = running ?s2" "waiting s' = waiting ?s2"
    "same_setup (kv ?s2) (kv s')" "requests s' = (\<lambda>r. if r \<in> rid_of ?s2 ` set valid then None else requests ?s2 r)"
    using finish_loop_inv[OF p st g dv sub] by (elim exE conjE) (rule that)
  have eq: "finish_requests env s rids st = Inr s'" unfolding finish_requests_def valid_def[symmetric] Let_def r1 r2 using st s'(1) by simp
  have "s'\<lparr>running := ?R\<rparr> = s'" using s'(3) by simp
  moreover have "requests s' = (\<lambda>r. if r \<in> set rids then None else requests s r)"
  proof
    fix r show "requests s' r = (if r \<in> set rids then None else requests s r)"
    proof (cases "requests s r")
      case (Some x)
      then have "r \<in> rid_of s ` set valid \<longleftrightarrow> r \<in> set rids" using v D(9)[OF Some] D(9) by auto
      then show ?thesis using s'(6) by simp
    qed (use s'(6) in simp)
  qed
  ultimately show ?thesis using eq s'(2,4,5) by (intro exI[of _ s'] exI[of _ ?w]) simp
qed

section \<open>Runs\<close>

text \<open>Requests arrive with new ids and as the constructor leaves them; a step is \<open>EngineCore.step\<close> without drafts: schedule, execute, apply the output.\<close>

inductive engine_run :: "sched_config \<Rightarrow> (mm_hash \<Rightarrow> int) \<Rightarrow> (request \<Rightarrow> bool) \<Rightarrow> bool \<Rightarrow> int \<Rightarrow> scheduler \<Rightarrow> bool"
  for c :: sched_config and sz :: "mm_hash \<Rightarrow> int" and G :: "request \<Rightarrow> bool" and caching :: bool and bs :: int where
  start: "policy c = FCFS \<Longrightarrow> kv_cache_groups kc = [g] \<Longrightarrow> is_full_attention (group_spec g) \<Longrightarrow> spec_block_size (group_spec g) = bs \<Longrightarrow> 0 < bs \<Longrightarrow> num_blocks kc > 0
    \<Longrightarrow> init_kv_manager kc (max_model_len c) caching use_eagle (sched_log_stats c) False use_int 1 = Inr k \<Longrightarrow> 0 \<le> n
    \<Longrightarrow> engine_run c sz G caching bs (init_scheduler c fin os n k)"
| arrive: "engine_run c sz G caching bs s \<Longrightarrow> requests s (rid_of s x) = None \<Longrightarrow> req_ok c sz G caching bs (objs s x) \<Longrightarrow> waits_ok (objs s x)
    \<Longrightarrow> add_request c now s x = Inr s' \<Longrightarrow> engine_run c sz G caching bs s'"
| step: "engine_run c sz G caching bs s \<Longrightarrow> plain_engine c env \<Longrightarrow> block_hashing (hasher env) G caching bs \<Longrightarrow> 0 \<le> max_num_scheduled_tokens c
    \<Longrightarrow> schedule c env s = Inr (out, ev, s1) \<Longrightarrow> so_spec_decode_tokens out = Map.empty \<Longrightarrow> runner_ok mr (fst ` set (so_num_scheduled_tokens out))
    \<Longrightarrow> update_from_output c env s1 out mr = Inr (outs, s') \<Longrightarrow> engine_run c sz G caching bs s'"
| abort: "engine_run c sz G caching bs s \<Longrightarrow> plain_engine c env \<Longrightarrow> status_is_finished st \<Longrightarrow> distinct rids \<Longrightarrow> finish_requests env s rids st = Inr s'
    \<Longrightarrow> engine_run c sz G caching bs s'"
| reset: "engine_run c sz G caching bs s \<Longrightarrow> sched_reset_prefix_cache s = Inr (ok, s') \<Longrightarrow> engine_run c sz G caching bs s'"

lemma engine_run_inv:
  assumes "engine_run c sz G caching bs s"
  shows "\<exists>w. sched_inv c sz G (caching, bs) (\<lambda>_. 0) w s \<and> waiting s = Fcfs_queue w"
  using assms
proof induction
  case (start kc g use_eagle use_int k n fin os)
  then have "spec_block_size (group_spec g) > 0" by simp
  from init_kv_manager_ok[OF start(2,3) this start(6), of "max_model_len c" caching use_eagle "sched_log_stats c" use_int] start(4,7) have
    k: "km_ok k" "km_max_model_len k = max_model_len c" "table k = (\<lambda>_. [])" "num_cached_block (the_manager k) = Map.empty" "log_stats k = sched_log_stats c"
    "(km_enable_caching k, block_size_of k) = (caching, bs)" by auto
  show ?case using init_scheduler_inv[OF k(1-5) start(8,1) k(6)] by blast
next
  case (arrive s x now s')
  then obtain w where w: "sched_inv c sz G (caching, bs) (\<lambda>_. 0) w s" "waiting s = Fcfs_queue w" by blast
  have "req_ok c sz G (km_enable_caching (kv s)) (block_size_of (kv s)) (objs s x)" using arrive(3) sched_invD(16)[OF w(1)] by simp
  from add_request_inv[OF w arrive(2) this arrive(4), of now] show ?case using arrive(5) by auto
next
  case (step s env out ev s1 mr outs s')
  then obtain w where w: "sched_inv c sz G (caching, bs) (\<lambda>_. 0) w s" "waiting s = Fcfs_queue w" by blast
  obtain w1 where w1: "sched_inv c sz G (caching, bs) (\<lambda>_. 0) w1 s1" "waiting s1 = Fcfs_queue w1" "output_ok c s1 out"
    using schedule_inv[OF step(2) w step(4)] step(5) by auto
  have "block_hashing (hasher env) G (km_enable_caching (kv s1)) (block_size_of (kv s1))" using step(3) sched_invD(16)[OF w1(1)] by simp
  from update_from_output_inv[OF step(2) this w1(1,2,3) step(6,7)] show ?case using step(8) by auto
next
  case (abort s env st rids s')
  then obtain w where w: "sched_inv c sz G (caching, bs) (\<lambda>_. 0) w s" "waiting s = Fcfs_queue w" by blast
  from finish_requests_inv[OF abort(2) w abort(3,4)] show ?case using abort(5) by auto
next
  case (reset s ok s')
  then obtain w where w: "sched_inv c sz G (caching, bs) (\<lambda>_. 0) w s" "waiting s = Fcfs_queue w" by blast
  obtain k where k: "km_reset_prefix_cache (kv s) = Inr (fst (reset_prefix_cache (the_pool (kv s))), k)" "km_ok k" "same_setup (kv s) k" "table k = table (kv s)" "the_manager k = the_manager (kv s)"
    using km_reset_ok[OF sched_invD(1)[OF w(1)]] by blast
  have "s' = s\<lparr>kv := k\<rparr>" using reset(2) k(1) by (simp add: sched_reset_prefix_cache_def)
  then show ?case using inv_kv[OF w(1) k(2,3,4)] k(5) w(2) by auto
qed

section \<open>Properties\<close>

text \<open>C6. The engine never raises. In every state that a run of a decoder-only, first-come-first-served engine reaches, the next call of \<open>schedule\<close> returns: no assertion of the scheduler, the encoder
  cache or the KV-cache manager fails. Its output schedules a positive number of tokens for distinct requests that run, never more than the token limit in total,
  and no more requests run than allowed. For every output of the workers that covers the step, \<open>update_from_output\<close> returns as well.\<close>

theorem engine_never_raises:
  assumes "engine_run c sz G caching bs s" "plain_engine c env" "block_hashing (hasher env) G caching bs" "0 \<le> max_num_scheduled_tokens c"
  shows "\<exists>out ev s1. schedule c env s = Inr (out, ev, s1) \<and> output_ok c s1 out \<and> length (running s1) \<le> max_num_running_reqs c
    \<and> (\<forall>mr. so_spec_decode_tokens out = Map.empty \<and> runner_ok mr (fst ` set (so_num_scheduled_tokens out)) \<longrightarrow> (\<exists>outs s2. update_from_output c env s1 out mr = Inr (outs, s2)))"
proof -
  obtain w where w: "sched_inv c sz G (caching, bs) (\<lambda>_. 0) w s" "waiting s = Fcfs_queue w" using engine_run_inv[OF assms(1)] by blast
  obtain out ev s1 w1 where s1: "schedule c env s = Inr (out, ev, s1)" "sched_inv c sz G (caching, bs) (\<lambda>_. 0) w1 s1" "waiting s1 = Fcfs_queue w1" "output_ok c s1 out"
    using schedule_inv[OF assms(2) w assms(4)] by blast
  have "block_hashing (hasher env) G (km_enable_caching (kv s1)) (block_size_of (kv s1))" using assms(3) sched_invD(16)[OF s1(2)] by simp
  from update_from_output_inv[OF assms(2) this s1(2-4)] show ?thesis using s1(1,4) sched_invD(5)[OF s1(2)] by blast
qed

definition demo_sched_config :: "scheduling_policy \<Rightarrow> sched_config" where
  "demo_sched_config p = \<lparr>policy = p, max_num_running_reqs = 4, max_num_scheduled_tokens = 64, max_model_len = 100, long_prefill_token_threshold = 0,
     chunked_prefill_enabled = True, no_chunked_mm_input = False, is_encoder_decoder = False, is_whisper = False, encdec_max_encoder_len = 0, max_loras = None,
     num_lookahead_tokens = 0, num_spec_tokens = 0, use_pp = False, sched_log_stats = False, encoder_token_budget = 0, async_scheduling = False\<rparr>"

definition demo_sched_env :: sched_env where
  "demo_sched_env = \<lparr>env_now = 0, grammar_ready = (\<lambda>_. True), set_order = (\<lambda>xs. xs), fill_bitmask = (\<lambda>_ _. []), hasher = None, should_advance = (\<lambda>_. False), validate_tokens = (\<lambda>_ ts. ts)\<rparr>"

definition demo_objs :: "rref \<Rightarrow> sched_request" where
  "demo_objs x = (if x = 0 then demo_sched_request ''A'' (replicate 20 7) 5 0 else demo_sched_request ''B'' (replicate 16 7) 0 1)"

abbreviation demo_run :: "scheduler \<Rightarrow> bool" where
  "demo_run \<equiv> engine_run (demo_sched_config FCFS) (\<lambda>_. 0) (\<lambda>_. True) False 16"

lemma demo_plain: "plain_engine (demo_sched_config FCFS) demo_sched_env"
  by (simp add: plain_engine_def demo_sched_config_def demo_sched_env_def iterates_def)

lemma demo_step:
  "case init_kv_manager demo_kv_config 100 False False False False False 1 of
     Inl e \<Rightarrow> False
   | Inr k \<Rightarrow> (case bindE (add_request (demo_sched_config FCFS) 0 (init_scheduler (demo_sched_config FCFS) False demo_objs 8 k) 0) (schedule (demo_sched_config FCFS) demo_sched_env) of
       Inl e \<Rightarrow> False
     | Inr (out, ev, s) \<Rightarrow> running s = [0] \<and> num_computed_tokens (objs s 0) = 20 \<and> so_num_scheduled_tokens out = [(''A'', 20)])"
  by code_simp

lemma demo_engine:
  obtains s0 s1 out ev s2 where "demo_run s0" "requests s0 = Map.empty" "running s0 = []" "demo_run s1" "waiting s1 = Fcfs_queue [0]" "running s1 = []" "requests s1 = [''A'' \<mapsto> 0]" "objs s1 = demo_objs"
    "schedule (demo_sched_config FCFS) demo_sched_env s1 = Inr (out, ev, s2)" "running s2 = [0]" "num_computed_tokens (objs s2 0) = 20" "so_num_scheduled_tokens out = [(''A'', 20)]"
proof -
  let ?g = "\<lparr>layer_names = [''l0''], group_spec = RabitQAttentionSpec demo_attention None None (Some 4) None None\<rparr>" and ?c = "demo_sched_config FCFS"
  have g: "kv_cache_groups demo_kv_config = [?g]" "is_full_attention (group_spec ?g)" "spec_block_size (group_spec ?g) = 16" "num_blocks demo_kv_config > 0"
    by (simp_all add: demo_kv_config_def demo_attention_def)
  have c: "policy ?c = FCFS" "max_model_len ?c = 100" "sched_log_stats ?c = False" by (simp_all add: demo_sched_config_def)
  obtain k where k: "init_kv_manager demo_kv_config 100 False False False False False 1 = Inr k"
    using init_kv_manager_ok[OF g(1,2) _ g(4), of 100 False False False False] g(3) by auto
  let ?s = "init_scheduler ?c False demo_objs 8 k"
  have s: "demo_run ?s" using engine_run.start[OF c(1) g(1-3) _ g(4), of False False False k 8 "\<lambda>_. 0" "\<lambda>_. True" False demo_objs] k c by simp
  have w: "waiting ?s = Fcfs_queue []" "requests ?s = Map.empty" "running ?s = []" "objs ?s = demo_objs" using c by (simp_all add: init_scheduler_def create_request_queue_def)
  let ?t = "?s\<lparr>waiting := Fcfs_queue [0], requests := [''A'' \<mapsto> 0]\<rparr>"
  have a: "add_request ?c 0 ?s 0 = Inr ?t" using w c(3) by (simp add: add_request_def fcfs_add_request_def demo_objs_def demo_sched_request_eq)
  have "req_ok ?c (\<lambda>_. 0) (\<lambda>_. True) False 16 (objs ?s 0)" "waits_ok (objs ?s 0)"
    using w(4) by (simp_all add: req_ok_def hashes_ok_def sized_def num_req_tokens_def waits_ok_def demo_objs_def demo_sched_request_eq demo_sched_config_def)
  from engine_run.arrive[OF s _ this a] have "demo_run ?t" using w(2) by simp
  moreover obtain out ev s2 where "schedule ?c demo_sched_env ?t = Inr (out, ev, s2)" "running s2 = [0]" "num_computed_tokens (objs s2 0) = 20" "so_num_scheduled_tokens out = [(''A'', 20)]"
    using demo_step k a by (auto split: sum.splits)
  ultimately show ?thesis using s w by (intro that[of ?s ?t out ev s2]) simp_all
qed

theorem engine_never_raises_witness:
  "\<exists>s out ev s1. demo_run s \<and> requests s ''A'' = Some 0 \<and> schedule (demo_sched_config FCFS) demo_sched_env s = Inr (out, ev, s1) \<and> so_num_scheduled_tokens out = [(''A'', 20)]
     \<and> so_total_num_scheduled_tokens out \<le> 64"
proof -
  obtain s out ev s1 where s: "demo_run s" "requests s = [''A'' \<mapsto> 0]" "schedule (demo_sched_config FCFS) demo_sched_env s = Inr (out, ev, s1)"
    "so_num_scheduled_tokens out = [(''A'', 20)]" by (rule demo_engine)
  have h: "block_hashing (hasher demo_sched_env) (\<lambda>_. True) False 16" using unhashed.block_hashing_axioms by (simp add: demo_sched_env_def)
  from engine_never_raises[OF s(1) demo_plain h] have "output_ok (demo_sched_config FCFS) s1 out" using s(3) by (simp add: demo_sched_config_def)
  then show ?thesis using s by (intro exI[of _ s] exI[of _ out] exI[of _ ev] exI[of _ s1]) (simp add: output_ok_def demo_sched_config_def)
qed

text \<open>C8. Requests are served in the order of their arrival. A step lists the running requests, then the waiting ones; those it stops (for lack of blocks) are the last of the running ones and wait
  in front of all others, in their order; those it admits are the next of the waiting ones in their order. A request is passed over only if its grammar is not compiled, or if prompts
  cannot be chunked and it has more tokens (cut to the threshold of long prompts) than the step left of its budget; those passed over return to the front of the queue in reverse order. When no
  request may be passed over the order of all requests does not change.\<close>

theorem fcfs_order_kept:
  assumes "engine_run c sz G caching bs s" "plain_engine c env" "0 \<le> max_num_scheduled_tokens c" "waiting s = Fcfs_queue w"
  shows "\<exists>out ev s' w' left. schedule c env s = Inr (out, ev, s') \<and> waiting s' = Fcfs_queue w' \<and> left = max_num_scheduled_tokens c - so_total_num_scheduled_tokens out \<and> 0 \<le> left
    \<and> served_in_order c env s left (running s @ w) (running s') w'
    \<and> ((\<forall>x \<in> set (running s @ w). \<not> skippable c env s left x) \<longrightarrow> running s' @ w' = running s @ w)"
proof -
  have w: "sched_inv c sz G (caching, bs) (\<lambda>_. 0) w s" using engine_run_inv[OF assms(1)] assms(4) by auto
  obtain out ev s' w' where s': "schedule c env s = Inr (out, ev, s')" "waiting s' = Fcfs_queue w'"
    "served_in_order c env s (max_num_scheduled_tokens c - so_total_num_scheduled_tokens out) (running s @ w) (running s') w'" "output_ok c s' out"
    using schedule_inv[OF assms(2) w assms(4,3)] by blast
  let ?left = "max_num_scheduled_tokens c - so_total_num_scheduled_tokens out"
  have "running s' @ w' = running s @ w" if n: "\<forall>x \<in> set (running s @ w). \<not> skippable c env s ?left x"
  proof -
    obtain R M W A B where o: "running s @ w = R @ M @ W" "M \<in> shuffles A B" "running s' = R @ A" "w' = rev B @ W" "\<forall>x \<in> set B. skippable c env s ?left x"
      using s'(3) unfolding served_in_order_def by blast
    have "set B \<subseteq> set (running s @ w)" using set_shuffles[OF o(2)] unfolding o(1) by auto
    then have "B = []" using n o(5) by (cases B) auto
    then show ?thesis using o by simp
  qed
  moreover have "0 \<le> ?left" using s'(4) by (simp add: output_ok_def)
  ultimately show ?thesis using s'(1-3) by blast
qed

theorem fcfs_order_kept_witness:
  "\<exists>s out ev s' w'. demo_run s \<and> waiting s = Fcfs_queue [0] \<and> schedule (demo_sched_config FCFS) demo_sched_env s = Inr (out, ev, s') \<and> waiting s' = Fcfs_queue w' \<and> running s' @ w' = [0]"
proof -
  obtain s where s: "demo_run s" "waiting s = Fcfs_queue [0]" "running s = []" "objs s = demo_objs" using demo_engine by blast
  have "0 \<le> max_num_scheduled_tokens (demo_sched_config FCFS)" "\<forall>x \<in> set (running s @ [0]). \<not> skippable (demo_sched_config FCFS) demo_sched_env s left x" for left
    by (simp_all add: demo_sched_config_def skippable_def demo_sched_env_def)
  from fcfs_order_kept[OF s(1) demo_plain this(1) s(2)] this(2) show ?thesis using s by auto
qed

text \<open>C7. Blocks follow requests through the whole engine. In every state of a run the table of requests holds exactly the requests that run or wait, each once and under its own id (a request is
  in the table if and only if it is in the list of running requests or in the queue); those with status \<open>RUNNING\<close> are the running ones; only running requests
  own KV blocks, and each of them owns the entry that says how many of its blocks are cached; when no request is left every block is free.\<close>

theorem blocks_follow_requests:
  assumes "engine_run c sz G caching bs s"
  shows "\<exists>w. waiting s = Fcfs_queue w \<and> distinct (running s @ w)
    \<and> (\<forall>rid x. requests s rid = Some x \<longleftrightarrow> x \<in> set (running s @ w) \<and> rid_of s x = rid)
    \<and> (\<forall>rid x. requests s rid = Some x \<longrightarrow> (x \<in> set (running s) \<longleftrightarrow> status (objs s x) = RUNNING))
    \<and> (\<forall>rid. table (kv s) rid \<noteq> [] \<or> cached_blocks s rid \<noteq> None \<longrightarrow> (\<exists>x \<in> set (running s). requests s rid = Some x))
    \<and> (\<forall>x \<in> set (running s). \<exists>k. cached_blocks s (rid_of s x) = Some k)
    \<and> (requests s = Map.empty \<longrightarrow> running s = [] \<and> w = [] \<and> get_num_free_blocks (the_pool (kv s)) = num_gpu_blocks (the_pool (kv s)) - 1)"
proof -
  obtain w where w: "sched_inv c sz G (caching, bs) (\<lambda>_. 0) w s" "waiting s = Fcfs_queue w" using engine_run_inv[OF assms] by blast
  note D = sched_invD[OF w(1)]
  have st: "x \<in> set (running s) \<longleftrightarrow> status (objs s x) = RUNNING" if "requests s rid = Some x" for rid x
    using D(8)[OF that] D(10)[of x] D(11)[of x] by (auto simp: runs_ok_def waits_ok_def)
  have ex: "requests s rid = Some x \<longleftrightarrow> x \<in> set (running s @ w) \<and> rid_of s x = rid" for rid x
    using D(6)[of x] D(8,9)[of rid x] by blast
  have own: "\<exists>x \<in> set (running s). requests s rid = Some x" if "table (kv s) rid \<noteq> [] \<or> cached_blocks s rid \<noteq> None" for rid
  proof -
    have "rid \<in> rid_of s ` set (running s)" using D(13,14)[of rid] that by blast
    then obtain x where "x \<in> set (running s)" "rid = rid_of s x" by auto
    then show ?thesis using D(6)[of x] by auto
  qed
  have cached: "\<exists>k. cached_blocks s (rid_of s x) = Some k" if "x \<in> set (running s)" for x
    using D(10)[OF that] by (auto simp: runs_ok_def split: option.splits)
  have "running s = [] \<and> w = [] \<and> get_num_free_blocks (the_pool (kv s)) = num_gpu_blocks (the_pool (kv s)) - 1" if e: "requests s = Map.empty"
  proof -
    have "set (running s @ w) = {}" using D(6) e by (metis equals0I option.distinct(1))
    then have n: "running s = []" "w = []" by simp_all
    then have "table (kv s) rid = []" for rid using D(14)[of rid] by simp
    then show ?thesis using n free_when_alone[OF D(1), of "[]"] by simp
  qed
  then show ?thesis using D(4) ex st own cached w(2) by (intro exI[of _ w]) blast
qed

theorem blocks_follow_requests_witness:
  "\<exists>s. demo_run s \<and> requests s ''A'' = Some 0 \<and> waiting s = Fcfs_queue [0] \<and> status (objs s 0) \<noteq> RUNNING \<and> cached_blocks s ''A'' = None \<and> table (kv s) ''A'' = []"
proof -
  obtain s where s: "demo_run s" "waiting s = Fcfs_queue [0]" "running s = []" "requests s = [''A'' \<mapsto> 0]" using demo_engine by blast
  from blocks_follow_requests[OF s(1)] s show ?thesis by (intro exI[of _ s]) simp
qed

text \<open>C21. Requests can be aborted at any time. For any ids, known or not, \<open>finish_requests\<close> returns; afterwards none of them is known, none of them owns a block,
  and every other request is still there.\<close>

theorem abort_releases_requests:
  assumes "engine_run c sz G caching bs s" "plain_engine c env" "distinct rids"
  shows "\<exists>s'. finish_requests env s rids FINISHED_ABORTED = Inr s' \<and> (\<forall>rid \<in> set rids. requests s' rid = None \<and> table (kv s') rid = []) \<and> (\<forall>rid. rid \<notin> set rids \<longrightarrow> requests s' rid = requests s rid)"
proof -
  obtain w where w: "sched_inv c sz G (caching, bs) (\<lambda>_. 0) w s" "waiting s = Fcfs_queue w" using engine_run_inv[OF assms(1)] by blast
  obtain s' w' where s': "finish_requests env s rids FINISHED_ABORTED = Inr s'" "sched_inv c sz G (caching, bs) (\<lambda>_. 0) w' s'"
    "requests s' = (\<lambda>r. if r \<in> set rids then None else requests s r)" using finish_requests_inv[OF assms(2) w _ assms(3), of FINISHED_ABORTED] by auto
  note D = sched_invD[OF s'(2)]
  have "table (kv s') rid = []" if "rid \<in> set rids" for rid
  proof (rule D(14), rule notI)
    assume "rid \<in> rid_of s' ` set (running s')"
    then obtain x where "x \<in> set (running s')" "rid = rid_of s' x" by auto
    then show False using D(6)[of x] s'(3) that by auto
  qed
  then show ?thesis using s'(1,3) by (intro exI[of _ s']) simp
qed

theorem abort_releases_requests_witness:
  "\<exists>s s'. demo_run s \<and> requests s ''A'' = Some 0 \<and> finish_requests demo_sched_env s [''A'', ''Z''] FINISHED_ABORTED = Inr s' \<and> requests s' ''A'' = None"
proof -
  obtain s where s: "demo_run s" "requests s = [''A'' \<mapsto> 0]" using demo_engine by blast
  have "distinct [''A'', ''Z'']" by simp
  from abort_releases_requests[OF s(1) demo_plain this] obtain s' where "finish_requests demo_sched_env s [''A'', ''Z''] FINISHED_ABORTED = Inr s'" "requests s' ''A'' = None" by auto
  then show ?thesis using s by - (rule exI[of _ s], rule exI[of _ s'], simp)
qed

end
