(* ===== verification/Sched_Priority.thy ===== *)
theory Sched_Priority
  imports Engine_Run
begin

text \<open>
  Priority scheduling, outside the setting of \<^verbatim>\<open>Engine_Run\<close>: which requests a step preempts and what it leaves of them. The invariant \<open>prio_inv\<close> follows
  the loop over the running requests; it relates the current state to the state \<open>s0\<close> in which the step began.
\<close>

section \<open>The loop over the running requests\<close>

lemma max_by_max: "z \<in> set xs \<Longrightarrow> key z \<le> key (max_by key xs)"
proof -
  have "key a \<le> key (foldl (\<lambda>m x. if key m < key x then x else m) a ys) \<and> (\<forall>z \<in> set ys. key z \<le> key (foldl (\<lambda>m x. if key m < key x then x else m) a ys))" for a ys
  proof (induction ys arbitrary: a)
    case (Cons y ys)
    let ?b = "if key a < key y then y else a"
    have "key a \<le> key ?b" "key y \<le> key ?b" by auto
    then show ?case using Cons.IH[of ?b] by (auto intro: order_trans)
  qed simp
  then show "z \<in> set xs \<Longrightarrow> key z \<le> key (max_by key xs)" unfolding max_by_def by (cases xs) auto
qed

lemma take_remove1: "z \<in> set (take i xs) \<Longrightarrow> z \<noteq> y \<Longrightarrow> z \<in> set (take i (remove1 y xs))"
proof (induction xs arbitrary: i)
  case (Cons x xs)
  then obtain j where "i = Suc j" by (cases i) auto
  then show ?case using Cons set_take_subset_set_take[of j i xs] by auto
qed simp

abbreviation rank :: "scheduler \<Rightarrow> rref \<Rightarrow> int \<times> real" where
  "rank s x \<equiv> (priority (objs s x), arrival_time (objs s x))"

definition prio_inv :: "scheduler \<Rightarrow> nat \<Rightarrow> scheduler \<Rightarrow> sched_local \<Rightarrow> bool" where
  "prio_inv s0 i s l \<longleftrightarrow> distinct (running s) \<and> set (running s) \<subseteq> set (running s0) \<and> requests s = requests s0
     \<and> (\<forall>y. rid_of s y = rid_of s0 y \<and> rank s y = rank s0 y)
     \<and> scheduled_new_reqs l = [] \<and> scheduled_resumed_reqs l = [] \<and> distinct (scheduled_running_reqs l) \<and> set (scheduled_running_reqs l) \<subseteq> set (take i (running s))
     \<and> distinct (map fst (num_scheduled_tokens l)) \<and> fst ` set (num_scheduled_tokens l) \<subseteq> rid_of s0 ` set (running s0)
     \<and> (\<forall>y \<in> set (running s0) - set (running s). status (objs s y) = PREEMPTED \<and> num_computed_tokens (objs s y) = 0 \<and> (\<forall>z \<in> set (running s). rank s0 z \<le> rank s0 y))
     \<and> (preempted_reqs l = [] \<longrightarrow> set (running s0) \<subseteq> set (running s))"

lemma prio_invD:
  assumes "prio_inv s0 i s l"
  shows "distinct (running s)" "set (running s) \<subseteq> set (running s0)" "requests s = requests s0" "rid_of s y = rid_of s0 y" "rank s y = rank s0 y"
    "scheduled_new_reqs l = []" "scheduled_resumed_reqs l = []" "distinct (scheduled_running_reqs l)" "set (scheduled_running_reqs l) \<subseteq> set (take i (running s))"
    "distinct (map fst (num_scheduled_tokens l))" "fst ` set (num_scheduled_tokens l) \<subseteq> rid_of s0 ` set (running s0)"
    "y \<in> set (running s0) \<Longrightarrow> y \<notin> set (running s) \<Longrightarrow> status (objs s y) = PREEMPTED \<and> num_computed_tokens (objs s y) = 0 \<and> (\<forall>z \<in> set (running s). rank s0 z \<le> rank s0 y)"
    "preempted_reqs l = [] \<Longrightarrow> set (running s0) \<subseteq> set (running s)"
  using assms unfolding prio_inv_def by (elim conjE; simp)+

lemma prio_inv_cong:
  assumes "prio_inv s0 i s l" "objs s' = objs s" "running s' = running s" "requests s' = requests s"
  shows "prio_inv s0 i s' l"
  using assms by (simp add: prio_inv_def)

text \<open>The victim is one of the largest value and the latest arrival; it leaves the lists, but not the table of scheduled tokens.\<close>

lemma preempt_priority:
  assumes "policy c = PRIORITY" "preempt c env s l = Inr (y, s', l')"
  shows "y \<in> set (running s)" "z \<in> set (running s) \<Longrightarrow> rank s z \<le> rank s y" "running s' = remove1 y (running s)" "requests s' = requests s"
    "objs s' = (objs s)(y := preempted c (env_now env) (objs s y))"
    "\<exists>ys. l' = l\<lparr>scheduled_running_reqs := ys, preempted_reqs := preempted_reqs l @ [y]\<rparr>
       \<and> ys = (if y \<in> set (scheduled_running_reqs l) then remove1 y (scheduled_running_reqs l) else scheduled_running_reqs l)"
proof -
  have ne: "running s \<noteq> []" using assms by (auto simp: preempt_def pick_victim_def)
  let ?y = "max_by (rank s) (running s)"
  let ?l = "if ?y \<in> set (scheduled_running_reqs l) then l\<lparr>scheduled_running_reqs := remove1 ?y (scheduled_running_reqs l)\<rparr> else l"
  have pv: "pick_victim c s l = Inr (?y, s\<lparr>running := remove1 ?y (running s)\<rparr>, ?l)" using assms(1) ne by (simp add: pick_victim_def Let_def)
  obtain k e w where r: "y = ?y" "s' = (upd_obj (s\<lparr>running := remove1 ?y (running s), kv := k, encoder := e\<rparr>) ?y (preempted c (env_now env)))\<lparr>waiting := w\<rparr>"
    "l' = ?l\<lparr>preempted_reqs := preempted_reqs ?l @ [?y]\<rparr>"
    using assms(2) unfolding preempt_def pv Let_def by (auto simp: result_simps)
  show "y \<in> set (running s)" "z \<in> set (running s) \<Longrightarrow> rank s z \<le> rank s y" unfolding r(1) using max_by_in[OF ne] max_by_max[of z "running s" "rank s"] by blast+
  show "running s' = remove1 y (running s)" "requests s' = requests s" "objs s' = (objs s)(y := preempted c (env_now env) (objs s y))"
    unfolding r(1,2) by (simp_all add: upd_obj_def)
  show "\<exists>ys. l' = l\<lparr>scheduled_running_reqs := ys, preempted_reqs := preempted_reqs l @ [y]\<rparr>
       \<and> ys = (if y \<in> set (scheduled_running_reqs l) then remove1 y (scheduled_running_reqs l) else scheduled_running_reqs l)"
    unfolding r(1,3) by simp
qed

lemma preempt_prio_inv:
  assumes c: "policy c = PRIORITY" and inv: "prio_inv s0 i s l" and p: "preempt c env s l = Inr (y, s', l')"
  shows "prio_inv s0 i s' l'" "set (scheduled_running_reqs l') \<subseteq> set (scheduled_running_reqs l)"
proof -
  note P = preempt_priority[OF c p] and D = prio_invD[OF inv]
  obtain ys where l': "l' = l\<lparr>scheduled_running_reqs := ys, preempted_reqs := preempted_reqs l @ [y]\<rparr>"
    "ys = (if y \<in> set (scheduled_running_reqs l) then remove1 y (scheduled_running_reqs l) else scheduled_running_reqs l)" using P(6) by blast
  have ys: "set ys = set (scheduled_running_reqs l) - {y}" "distinct ys" using l'(2) D(8) by auto
  have run: "distinct (running s')" "set (running s') = set (running s) - {y}" using P(3) D(1) by simp_all
  have ob: "rid_of s' z = rid_of s0 z \<and> rank s' z = rank s0 z" for z using D(4,5)[of z] by (cases "z = y") (simp_all add: P(5) preempted_def record_event_def Let_def)
  have sub: "set ys \<subseteq> set (take i (running s'))" unfolding P(3) ys(1) using D(9) take_remove1[of _ i "running s" y] by blast
  have out: "status (objs s' x) = PREEMPTED \<and> num_computed_tokens (objs s' x) = 0 \<and> (\<forall>z \<in> set (running s'). rank s0 z \<le> rank s0 x)"
    if "x \<in> set (running s0) - set (running s')" for x
  proof (cases "x = y")
    case True
    then show ?thesis using P(2) D(5) run(2) by (simp add: P(5) preempted_def record_event_def Let_def)
  next
    case False
    then have "x \<notin> set (running s)" using that run(2) by simp
    then show ?thesis using D(12)[of x] that False run(2) by (simp add: P(5))
  qed
  show "prio_inv s0 i s' l'" unfolding prio_inv_def
    using run D(2,3,6,7,10,11) P(4) ob ys(2) sub out by (simp add: l'(1)) blast
  show "set (scheduled_running_reqs l') \<subseteq> set (scheduled_running_reqs l)" using ys(1) by (simp add: l'(1))
qed

lemma allocate_or_preempt_prio_inv:
  assumes c: "policy c = PRIORITY"
  shows "prio_inv s0 i s l \<Longrightarrow> x \<in> set (take (Suc i) (running s)) \<Longrightarrow> allocate_or_preempt c env x n s l = Inr (res, s', l') \<Longrightarrow>
    prio_inv s0 i s' l' \<and> set (scheduled_running_reqs l') \<subseteq> set (scheduled_running_reqs l) \<and> (res \<noteq> None \<longrightarrow> x \<in> set (take (Suc i) (running s')))"
proof (induction "length (running s)" arbitrary: s l rule: less_induct)
  case less
  obtain r0 k where a: "allocate_slots (kv s) (kv_request (objs s x)) n 0 None (num_lookahead_tokens c) False 0 = Inr (r0, k)"
    "(case r0 of Some bs \<Rightarrow> Inr (Some bs, s\<lparr>kv := k\<rparr>, l)
      | None \<Rightarrow> bindE (preempt c env (s\<lparr>kv := k\<rparr>) l) (\<lambda>(y, s', l'). if y = x then Inr (None, s', l') else allocate_or_preempt c env x n s' l'))
     = Inr (res, s', l')"
    using less.prems(3) by (subst (asm) allocate_or_preempt.simps) (auto simp: result_simps)
  have k: "prio_inv s0 i (s\<lparr>kv := k\<rparr>) l" by (rule prio_inv_cong[OF less.prems(1)]) simp_all
  show ?case
  proof (cases r0)
    case (Some bs)
    then show ?thesis using a(2) k less.prems(2) by auto
  next
    case None
    then obtain y s1 l1 where p: "preempt c env (s\<lparr>kv := k\<rparr>) l = Inr (y, s1, l1)"
      "(if y = x then Inr (None, s1, l1) else allocate_or_preempt c env x n s1 l1) = Inr (res, s', l')" using a(2) by (auto simp: result_simps)
    note q = preempt_prio_inv[OF c k p(1)]
    show ?thesis
    proof (cases "y = x")
      case True
      then show ?thesis using p(2) q by auto
    next
      case False
      have "length (running s1) < length (running s)" using preempt_running(1)[OF p(1)] by simp
      moreover have "x \<in> set (take (Suc i) (running s1))"
        using take_remove1[OF less.prems(2), of y] False preempt_priority(3)[OF c p(1)] by simp
      ultimately show ?thesis using less.hyps[of s1 l1] q p(2) False by auto
    qed
  qed
qed

lemma od_set_keys:
  "fst ` set (od_set d k v) = insert k (fst ` set d)" "distinct (map fst d) \<Longrightarrow> distinct (map fst (od_set d k v))"
  by (induction d k v rule: od_set.induct) auto

text \<open>The bookkeeping after a successful allocation touches the drafts and encoder inputs only.\<close>

lemma booking_frame:
  assumes "trim_spec x n s l = (s4, l4)" "commit_encoder x ins b s4 l4 = Inr (s', l')"
  shows "rid_of s' y = rid_of s y" "rank s' y = rank s y" "status (objs s' y) = status (objs s y)" "num_computed_tokens (objs s' y) = num_computed_tokens (objs s y)"
    "running s' = running s" "requests s' = requests s" "same_booking l l'"
proof -
  have o: "objs s' = objs s4" by (rule commit_encoder_frame(1)[OF assms(2)])
  show "running s' = running s" "requests s' = requests s"
    using trim_spec_frame(1,3)[OF assms(1)] commit_encoder_frame(2,4)[OF assms(2)] by simp_all
  show "rid_of s' y = rid_of s y" "rank s' y = rank s y" "status (objs s' y) = status (objs s y)" "num_computed_tokens (objs s' y) = num_computed_tokens (objs s y)"
    unfolding o using assms(1) by (auto simp: trim_spec_def upd_obj_def Let_def split: if_splits)
  have "same_booking l l4" using assms(1) by (auto simp: trim_spec_def same_booking_def Let_def split: if_splits)
  moreover have "same_booking l4 l'" using assms(2) by (auto simp: commit_encoder_def same_booking_def result_simps split: if_splits)
  ultimately show "same_booking l l'" by (simp add: same_booking_def)
qed

lemma prio_inv_Suc: "prio_inv s0 i s l \<Longrightarrow> prio_inv s0 (Suc i) s l"
proof -
  assume a: "prio_inv s0 i s l"
  have "set (scheduled_running_reqs l) \<subseteq> set (take (Suc i) (running s))" using prio_invD(9)[OF a] set_take_subset_set_take[of i "Suc i" "running s"] by simp
  then show ?thesis using a by (simp add: prio_inv_def)
qed

lemma running_step_prio_inv:
  assumes c: "policy c = PRIORITY" and inv: "prio_inv s0 i s l" and i: "i < length (running s)" and r: "running_step c env (running s ! i) s l = Inr (go, s', l')"
  shows "prio_inv s0 (Suc i) s' l'"
  using r
proof (cases rule: running_step_cases)
  case (skip ins b)
  note f = encoder_step_frame[OF skip(1)]
  have "prio_inv s0 i s' l" by (rule prio_inv_cong[OF inv f(1,4,2)])
  then show ?thesis using skip(3) prio_inv_Suc by simp
next
  case (stop ins n b s1)
  note f = encoder_step_frame[OF stop(1)]
  have "running s ! i \<in> set (take (Suc i) (running s1))" using i by (simp add: f(4) take_Suc_conv_app_nth)
  from allocate_or_preempt_prio_inv[OF c prio_inv_cong[OF inv f(1,4,2)] this stop(3)] show ?thesis using prio_inv_Suc by blast
next
  case (sched ins n b s1 bs s2 l2 s4 l4)
  note f = encoder_step_frame[OF sched(1)]
  let ?x = "running s ! i" and ?l3 = "book_tokens (rid_of s2 (running s ! i)) bs n (l2\<lparr>scheduled_running_reqs := scheduled_running_reqs l2 @ [running s ! i]\<rparr>)"
  have "?x \<in> set (take (Suc i) (running s1))" using i by (simp add: f(4) take_Suc_conv_app_nth)
  from allocate_or_preempt_prio_inv[OF c prio_inv_cong[OF inv f(1,4,2)] this sched(3)]
  have a: "prio_inv s0 i s2 l2" "set (scheduled_running_reqs l2) \<subseteq> set (scheduled_running_reqs l)" "?x \<in> set (take (Suc i) (running s2))" by simp_all
  note D = prio_invD[OF prio_inv_Suc[OF a(1)]]
  have "distinct (take i (running s) @ ?x # drop (Suc i) (running s))" using prio_invD(1)[OF inv] id_take_nth_drop[OF i] by simp
  then have fresh: "?x \<notin> set (scheduled_running_reqs l2)" using a(2) prio_invD(9)[OF inv] by auto
  have x0: "?x \<in> set (running s0)" using prio_invD(2)[OF inv] i by auto
  note bf = booking_frame[OF sched(4,5)]
  have l': "scheduled_new_reqs l' = []" "scheduled_resumed_reqs l' = []" "scheduled_running_reqs l' = scheduled_running_reqs l2 @ [?x]"
    "preempted_reqs l' = preempted_reqs l2" "num_scheduled_tokens l' = od_set (num_scheduled_tokens l2) (rid_of s0 ?x) n"
    using bf(7) D(4,6,7) by (simp_all add: same_booking_def book_tokens_def)
  show ?thesis unfolding prio_inv_def l' bf od_set_keys(1)
    using D fresh a(3) x0 od_set_keys(2)[OF D(10)] by (intro conjI ballI allI impI; simp)
qed

lemma running_loop_prio_inv:
  assumes c: "policy c = PRIORITY"
  shows "prio_inv s0 i s l \<Longrightarrow> running_loop c env i s l = Inr (s', l') \<Longrightarrow> \<exists>j. prio_inv s0 j s' l'"
proof (induction "length (running s) - i" arbitrary: i s l rule: less_induct)
  case less
  show ?case
  proof (cases "i < length (running s) \<and> token_budget l > 0")
    case False
    then have "running_loop c env i s l = Inr (s, l)" by (subst running_loop.simps) auto
    then show ?thesis using less.prems by auto
  next
    case True
    then obtain go s1 l1 where r: "running_step c env (running s ! i) s l = Inr (go, s1, l1)"
      "(if go then running_loop c env (i + 1) s1 l1 else Inr (s1, l1)) = Inr (s', l')"
      using less.prems(2) by (subst (asm) running_loop.simps) (auto elim!: bindE_InrE3)
    have inv: "prio_inv s0 (Suc i) s1 l1" by (rule running_step_prio_inv[OF c less.prems(1) conjunct1[OF True] r(1)])
    have "length (running s1) - Suc i < length (running s) - i" using running_step_running[OF r(1)] conjunct1[OF True] by linarith
    then show ?thesis using less.hyps[of s1 "Suc i" l1] inv r(2) by (auto split: if_splits)
  qed
qed

section \<open>The rest of the step\<close>

text \<open>The loop over the waiting requests takes nothing from the running ones.\<close>

lemma waiting_step_keeps_running:
  assumes "waiting_step c env x s l skipped loras = Inr (go, s', l', sk', loras')"
  shows "set (running s) \<subseteq> set (running s')"
  using assms
proof (cases rule: waiting_step_cases)
  case (tokens bs n_local n_computed s1)
  have "set (running s1) \<subseteq> set (running s')" using tokens(3)
  proof (cases rule: waiting_tokens_cases)
    case (admitted ins n' b s2 n_enc k new)
    have "set (running (s2\<lparr>kv := k\<rparr>)) \<subseteq> set (running s')" using admitted(5) unfolding admit_def Let_def
      by (elim bindE_InrE2 bindE_InrE) (auto simp: upd_obj_def dest!: commit_encoder_frame(4) split: if_splits)
    then show ?thesis using encoder_step_frame(4)[OF admitted(1)] by simp
  qed (auto dest: encoder_step_frame(4))
  then show ?thesis using computed_tokens_frame(4)[OF tokens(1)] by simp
qed (auto simp: skip_request_def result_simps dest!: computed_tokens_frame(4))

lemma waiting_loop_keeps_running: "waiting_loop c env s l sk loras = Inr (s', l', sk') \<Longrightarrow> set (running s) \<subseteq> set (running s')"
proof (induction "rq_len (waiting s)" arbitrary: s l sk loras rule: less_induct)
  case less
  show ?case
  proof (cases "rq_bool (waiting s) \<and> token_budget l > 0 \<and> length (running s) \<noteq> max_num_running_reqs c")
    case False
    then have "waiting_loop c env s l sk loras = Inr (s, l, sk)" by (subst waiting_loop.simps) (simp only: if_False)
    then show ?thesis using less.prems by simp
  next
    case True
    have "bindE (rq_peek (waiting s)) (\<lambda>x. bindE (waiting_step c env x s l sk loras) (\<lambda>(go, s', l', sk', loras').
             if go then waiting_loop c env s' l' sk' loras' else Inr (s', l', sk'))) = Inr (s', l', sk')"
      using less.prems by (subst (asm) waiting_loop.simps) (simp only: True if_True simp_thms)
    then obtain x go s1 l1 sk1 loras1 where r: "waiting_step c env x s l sk loras = Inr (go, s1, l1, sk1, loras1)"
      "(if go then waiting_loop c env s1 l1 sk1 loras1 else Inr (s1, l1, sk1)) = Inr (s', l', sk')"
      by (rule bindE_InrE) (erule bindE_InrE5, rule that)
    note k = waiting_step_keeps_running[OF r(1)]
    show ?thesis
    proof (cases go)
      case True
      then have "rq_len (waiting s1) < rq_len (waiting s)" using waiting_step_len r(1) by fastforce
      then show ?thesis using less.hyps[of s1 l1 sk1 loras1] r(2) True k by auto
    qed (use r(2) k in simp)
  qed
qed

text \<open>Each request advances by the tokens counted for it, whether it runs or not.\<close>

lemma advance_loop_counts:
  assumes "requests s rid = Some y"
  shows "advance_loop c env ps s = Inr s' \<Longrightarrow> distinct (map fst ps) \<Longrightarrow> \<forall>r \<in> fst ` set ps. r \<noteq> rid \<longrightarrow> requests s r \<noteq> Some y
    \<Longrightarrow> num_computed_tokens (objs s' y) = num_computed_tokens (objs s y) + (case map_of ps rid of None \<Rightarrow> 0 | Some n \<Rightarrow> n)
      \<and> status (objs s' y) = status (objs s y) \<and> running s' = running s"
  using assms
proof (induction ps arbitrary: s)
  case (Cons p ps)
  obtain r n where p: "p = (r, n)" by (cases p)
  from Cons.prems(1) obtain x s1 where x: "requests s r = Some x" "advance_loop c env ps s1 = Inr s'" "requests s1 = requests s" "running s1 = running s"
    "objs s1 = (objs s)(x := (objs s x)\<lparr>num_computed_tokens := num_computed_tokens (objs s x) + n\<rparr>)"
    unfolding p by (auto simp: dict_get_def upd_obj_def Let_def result_simps split: option.splits if_splits)
  have IH: "num_computed_tokens (objs s' y) = num_computed_tokens (objs s1 y) + (case map_of ps rid of None \<Rightarrow> 0 | Some n \<Rightarrow> n)
      \<and> status (objs s' y) = status (objs s1 y) \<and> running s' = running s1"
    by (rule Cons.IH[OF x(2)]) (use Cons.prems x(3) in auto)
  show ?case
  proof (cases "r = rid")
    case True
    then have "x = y" "map_of ps rid = None" using x(1) Cons.prems(2,4) by (auto simp: p map_of_eq_None_iff)
    then show ?thesis using IH x(4,5) True by (simp add: p)
  next
    case False
    then have "x \<noteq> y" using Cons.prems(3) x(1) by (auto simp: p)
    then show ?thesis using IH x(4,5) False by (simp add: p)
  qed
qed simp

lemma advance_loop_running: "advance_loop c env ps s = Inr s' \<Longrightarrow> running s' = running s"
proof (induction ps arbitrary: s)
  case (Cons p ps)
  then show ?case by (cases p) (fastforce simp: dict_get_def upd_obj_def Let_def result_simps split: option.splits if_splits)
qed simp

lemma placeholder_loop_frame:
  "placeholder_loop ps s = Inr s' \<Longrightarrow> num_computed_tokens (objs s' y) = num_computed_tokens (objs s y) \<and> status (objs s' y) = status (objs s y) \<and> running s' = running s"
proof (induction ps arbitrary: s)
  case (Cons p ps)
  then show ?case by (cases p) (fastforce simp: dict_get_def upd_obj_def result_simps split: option.splits if_splits)
qed simp

lemma update_after_schedule_counts:
  assumes "update_after_schedule c env ps s = Inr s'" "distinct (map fst ps)" "\<forall>r \<in> fst ` set ps. r \<noteq> rid \<longrightarrow> requests s r \<noteq> Some y" "requests s rid = Some y"
  shows "num_computed_tokens (objs s' y) = num_computed_tokens (objs s y) + (case map_of ps rid of None \<Rightarrow> 0 | Some n \<Rightarrow> n)
      \<and> status (objs s' y) = status (objs s y) \<and> running s' = running s"
proof -
  obtain s1 where s1: "advance_loop c env ps s = Inr s1" "(let s2 = s1\<lparr>finished_req_ids := {}\<rparr> in if async_scheduling c then placeholder_loop ps s2 else Inr s2) = Inr s'"
    using assms(1) unfolding update_after_schedule_def by (rule bindE_InrE)
  have "num_computed_tokens (objs s' y) = num_computed_tokens (objs s1 y) \<and> status (objs s' y) = status (objs s1 y) \<and> running s' = running s1"
    using s1(2) placeholder_loop_frame[of ps "s1\<lparr>finished_req_ids := {}\<rparr>" s' y] by (auto simp: Let_def split: if_splits)
  then show ?thesis using advance_loop_counts[OF assms(4) s1(1) assms(2,3)] by simp
qed

text \<open>What \<open>schedule\<close> makes of the two loops.\<close>

lemma new_reqs_data_ids: "new_reqs_data s l xs = Inr ds \<Longrightarrow> map nr_req_id ds = map (rid_of s) xs"
  by (induction xs arbitrary: ds) (auto simp: result_simps new_request_from_def)

lemma cached_loop_ids: "cached_loop c s l xs = Inr (ids, tss, bss, cs) \<Longrightarrow> ids = map (rid_of s) xs"
proof (induction xs arbitrary: ids tss bss cs)
  case (Cons x xs)
  then show ?case by (auto simp: Let_def result_simps split: option.splits)
qed simp

lemma if_InlE:
  assumes "(if P then Inl e else r) = Inr y"
  obtains "\<not> P" "r = Inr y"
  using assms by (auto split: if_splits)

lemma schedule_Inr:
  assumes "schedule c env s = Inr (out, ev, s')"
  obtains s1 l k e where "schedule_requests c env s = Inr (s1, l)" "so_num_scheduled_tokens out = num_scheduled_tokens l"
    "map nr_req_id (so_new_reqs out) = map (rid_of s1) (scheduled_new_reqs l)"
    "cr_req_ids (so_cached_reqs out) = map (rid_of s1) (scheduled_running_reqs l @ scheduled_resumed_reqs l)"
    "update_after_schedule c env (num_scheduled_tokens l) (s1\<lparr>encoder := e, kv := k\<rparr>) = Inr s'"
proof -
  have ids: "cr_req_ids d = map (rid_of s1) (scheduled_running_reqs l @ scheduled_resumed_reqs l)" if "make_cached_request_data c s1 l = Inr d" for s1 l d
    using that unfolding make_cached_request_data_def by (elim bindE_InrE4) (auto dest!: cached_loop_ids)
  show ?thesis
    by (rule bindE_InrE2[OF assms[unfolded schedule_def]], erule if_InlE, erule bindE_InrE, erule bindE_InrE, erule bindE_InrE, simp only: Let_def split_beta, erule bindE_InrE,
        rule that, assumption) (auto simp: ids new_reqs_data_ids)
qed

lemma schedule_requests_prio_inv:
  assumes c: "policy c = PRIORITY" and d: "distinct (running s)" and r: "schedule_requests c env s = Inr (s1, l)" and y: "y \<in> set (running s)" "y \<notin> set (running s1)"
  shows "\<exists>j. prio_inv s j s1 l"
proof -
  obtain s2 l2 where r2: "running_loop c env 0 s (init_local c) = Inr (s2, l2)"
    "(if (case max_loras c of None \<Rightarrow> False | Some m \<Rightarrow> card (scheduled_loras c s2 l2) > m) then Inl AssertionError
     else bindE (if preempted_reqs l2 = [] then waiting_loop c env s2 l2 (create_request_queue (policy c)) (scheduled_loras c s2 l2)
                 else Inr (s2, l2, create_request_queue (policy c))) (\<lambda>(s2, l2, skipped). bindE (put_back s2 skipped) (\<lambda>s3. Inr (s3, l2)))) = Inr (s1, l)"
    using r unfolding schedule_requests_def by (rule bindE_InrE2)
  have "prio_inv s 0 s (init_local c)" using d by (simp add: prio_inv_def init_local_def)
  then obtain j where j: "prio_inv s j s2 l2" using running_loop_prio_inv[OF c _ r2(1)] by blast
  obtain s3 l3 sk where w: "(if preempted_reqs l2 = [] then waiting_loop c env s2 l2 (create_request_queue (policy c)) (scheduled_loras c s2 l2)
                 else Inr (s2, l2, create_request_queue (policy c))) = Inr (s3, l3, sk)" "bindE (put_back s3 sk) (\<lambda>s3. Inr (s3, l3)) = Inr (s1, l)"
    using r2(2) by (elim if_InlE bindE_InrE3) (rule that)
  have pb: "objs s1 = objs s3" "running s1 = running s3" "requests s1 = requests s3" "l = l3"
    using w(2) by (auto simp: put_back_def result_simps split: if_splits)
  show ?thesis
  proof (cases "preempted_reqs l2 = []")
    case True
    then have "set (running s) \<subseteq> set (running s2)" by (rule prio_invD(13)[OF j])
    moreover have "set (running s2) \<subseteq> set (running s3)" by (rule waiting_loop_keeps_running) (use w(1) True in simp)
    ultimately have False using y pb(2) by auto
    then show ?thesis ..
  next
    case False
    then have "s3 = s2" "l3 = l2" using w(1) by simp_all
    then show ?thesis using prio_inv_cong[OF j, of s1] pb by auto
  qed
qed

section \<open>What a step leaves of a preempted request\<close>

text \<open>C25. Preemption with the priority policy. Let a step begin in any state in which the running requests are different and known under their ids. If a request ran before the step and
  does not run after it, it was preempted: its status says so, no request that still runs of those before has a larger priority value (or, for equal values, arrived later), and the output does not describe it
  to the workers. But the code takes a victim that this step has scheduled before off the list of scheduled requests only, not out of \<open>num_scheduled_tokens\<close>:
  after the step it has as many computed tokens as the output counts for it, instead of the 0 that its freed blocks would ask for. The witness is a run in which
  that number is not 0 although the request owns no block.\<close>

theorem priority_preempts_scheduled_request:
  assumes c: "policy c = PRIORITY" and d: "distinct (running s)" "\<forall>x \<in> set (running s). requests s (rid_of s x) = Some x"
    and step: "schedule c env s = Inr (out, ev, s')" and y: "y \<in> set (running s)" "y \<notin> set (running s')"
  shows "status (objs s' y) = PREEMPTED \<and> (\<forall>z \<in> set (running s) \<inter> set (running s'). rank s z \<le> rank s y)
    \<and> rid_of s y \<notin> set (map nr_req_id (so_new_reqs out) @ cr_req_ids (so_cached_reqs out))
    \<and> num_computed_tokens (objs s' y) = (case map_of (so_num_scheduled_tokens out) (rid_of s y) of None \<Rightarrow> 0 | Some n \<Rightarrow> n)"
proof -
  obtain s1 l k e where r: "schedule_requests c env s = Inr (s1, l)" "so_num_scheduled_tokens out = num_scheduled_tokens l"
    "map nr_req_id (so_new_reqs out) = map (rid_of s1) (scheduled_new_reqs l)"
    "cr_req_ids (so_cached_reqs out) = map (rid_of s1) (scheduled_running_reqs l @ scheduled_resumed_reqs l)"
    and u: "update_after_schedule c env (num_scheduled_tokens l) (s1\<lparr>encoder := e, kv := k\<rparr>) = Inr s'" by (rule schedule_Inr[OF step])
  have "running s' = running s1"
  proof -
    obtain s2 where s2: "advance_loop c env (num_scheduled_tokens l) (s1\<lparr>encoder := e, kv := k\<rparr>) = Inr s2" "running s' = running s2"
      using u placeholder_loop_frame unfolding update_after_schedule_def by (fastforce simp: Let_def result_simps split: if_splits)
    then show ?thesis using advance_loop_running[OF s2(1)] by simp
  qed
  then have y1: "y \<notin> set (running s1)" using y(2) by simp
  obtain j where "prio_inv s j s1 l" using schedule_requests_prio_inv[OF c d(1) r(1) y(1) y1] by blast
  note D = prio_invD[OF this]
  have inj: "z = y" if "z \<in> set (running s)" "rid_of s z = rid_of s y" for z using d(2) that y(1) by (metis option.inject)
  have keys: "\<forall>q \<in> fst ` set (num_scheduled_tokens l). q \<noteq> rid_of s y \<longrightarrow> requests (s1\<lparr>encoder := e, kv := k\<rparr>) q \<noteq> Some y"
  proof (intro ballI impI)
    fix q assume q: "q \<in> fst ` set (num_scheduled_tokens l)" "q \<noteq> rid_of s y"
    then obtain z where "z \<in> set (running s)" "q = rid_of s z" using D(11) by auto
    then show "requests (s1\<lparr>encoder := e, kv := k\<rparr>) q \<noteq> Some y" using d(2) q(2) D(3) by auto
  qed
  have "requests (s1\<lparr>encoder := e, kv := k\<rparr>) (rid_of s y) = Some y" using d(2) y(1) D(3) by simp
  note adv = update_after_schedule_counts[OF u D(10) keys this]
  have "rid_of s y \<notin> rid_of s1 ` set (scheduled_running_reqs l)"
  proof
    assume "rid_of s y \<in> rid_of s1 ` set (scheduled_running_reqs l)"
    then obtain z where z: "z \<in> set (scheduled_running_reqs l)" "rid_of s1 z = rid_of s y" by auto
    have "z \<in> set (running s1)" using subsetD[OF D(9) z(1)] by (rule in_set_takeD)
    then show False using inj[of z] z(2) D(2,4) y1 by auto
  qed
  then have "rid_of s y \<notin> set (map nr_req_id (so_new_reqs out) @ cr_req_ids (so_cached_reqs out))"
    unfolding set_append r(3,4) using D(6,7) by simp
  then show ?thesis using D(12)[OF y(1) y1] adv r(2) by auto
qed

section \<open>A concrete run\<close>

definition small_kv_config :: kv_cache_config where
  "small_kv_config = \<lparr>num_blocks = 3, kv_cache_tensors = [], kv_cache_groups = [\<lparr>layer_names = [''l0''], group_spec = RabitQAttentionSpec (demo_attention\<lparr>sp_block_size := 4\<rparr>) None None (Some 4) None None\<rparr>]\<rparr>"

text \<open>\<open>A\<close> has the lower priority (the larger value) and arrives first.\<close>

definition small_objs :: "rref \<Rightarrow> sched_request" where
  "small_objs x = (if x = 0 then demo_sched_request ''A'' [7] 5 0 else demo_sched_request ''B'' [7, 7, 7, 7] 0 1)"

definition sampled :: "int list list \<Rightarrow> model_runner_output" where
  "sampled toks = \<lparr>mr_req_id_to_index = [''A'' \<mapsto> 0, ''B'' \<mapsto> 1], mr_sampled_token_ids = toks, mr_pooler_output = [], mr_logprobs = None,
     mr_prompt_logprobs_dict = Map.empty, mr_num_nans_in_logits = None\<rparr>"

definition engine_step :: "sched_config \<Rightarrow> sched_env \<Rightarrow> int list list \<Rightarrow> scheduler \<Rightarrow> scheduler result" where
  "engine_step c env toks s = bindE (schedule c env s) (\<lambda>(out, _, s1). bindE (update_from_output c env s1 out (sampled toks)) (\<lambda>(_, s2). Inr s2))"

text \<open>\<open>A\<close> arrives and runs a step, \<open>B\<close> arrives, both run a step.\<close>

definition before_step :: "scheduling_policy \<Rightarrow> scheduler result" where
  "before_step p =
     (let c = demo_sched_config p
      in bindE (init_kv_manager small_kv_config 100 False False False False False 1) (\<lambda>k.
         bindE (add_request c 0 (init_scheduler c False small_objs 0 k) 0) (\<lambda>s.
         bindE (engine_step c demo_sched_env [[4]] s) (\<lambda>s.
         bindE (add_request c 0 s 1) (\<lambda>s.
         engine_step c demo_sched_env [[4], [4]] s)))))"

definition third_step :: "(rref list \<times> (string \<times> rref option) list \<times> (string \<times> int) list \<times> rref list \<times> bref list) option" where
  "third_step =
     (case before_step PRIORITY of
        Inl e \<Rightarrow> None
      | Inr s \<Rightarrow> (case schedule (demo_sched_config PRIORITY) demo_sched_env s of
                    Inl e \<Rightarrow> None
                  | Inr (out, ev, s') \<Rightarrow> Some (running s, map (\<lambda>x. (rid_of s x, requests s (rid_of s x))) (running s), so_num_scheduled_tokens out, running s', concat (km_get_blocks (kv s') ''A''))))"

lemma third_step_eval: "third_step = Some ([0, 1], [(''A'', Some 0), (''B'', Some 1)], [(''A'', 1), (''B'', 1)], [1], [])"
  by code_simp

theorem priority_preempts_scheduled_request_witness:
  "\<exists>s out ev s'. before_step PRIORITY = Inr s \<and> schedule (demo_sched_config PRIORITY) demo_sched_env s = Inr (out, ev, s') \<and> running s = [0, 1] \<and> running s' = [1]
    \<and> so_num_scheduled_tokens out = [(''A'', 1), (''B'', 1)] \<and> ''A'' \<notin> set (cr_req_ids (so_cached_reqs out))
    \<and> status (objs s' 0) = PREEMPTED \<and> num_computed_tokens (objs s' 0) = 1 \<and> concat (km_get_blocks (kv s') ''A'') = []"
proof -
  obtain s where s: "before_step PRIORITY = Inr s" using third_step_eval by (cases "before_step PRIORITY") (simp_all add: third_step_def)
  note t = third_step_eval[unfolded third_step_def s sum.case]
  obtain out ev s' where sc: "schedule (demo_sched_config PRIORITY) demo_sched_env s = Inr (out, ev, s')"
    using t by (cases "schedule (demo_sched_config PRIORITY) demo_sched_env s") (simp only: sum.case option.distinct, metis prod_cases3)
  have e: "running s = [0, 1]" "map (\<lambda>x. (rid_of s x, requests s (rid_of s x))) (running s) = [(''A'', Some 0), (''B'', Some 1)]"
    "so_num_scheduled_tokens out = [(''A'', 1), (''B'', 1)]" "running s' = [1]" "concat (km_get_blocks (kv s') ''A'') = []"
    using t unfolding sc sum.case prod.case option.inject prod.inject by blast+
  have h: "policy (demo_sched_config PRIORITY) = PRIORITY" "distinct (running s)" "\<forall>x \<in> set (running s). requests s (rid_of s x) = Some x" "0 \<in> set (running s)" "0 \<notin> set (running s')"
    using e(1,2,4) by (auto simp: demo_sched_config_def)
  have "rid_of s 0 = ''A''" using e(1,2) by simp
  with priority_preempts_scheduled_request[OF h(1-3) sc h(4,5)] show ?thesis using s sc e by - (rule exI[of _ s], rule exI[of _ out], rule exI[of _ ev], rule exI[of _ s'], simp)
qed

end
