(* ===== verification/Selectors.thy ===== *)
theory Selectors
  imports RabitQ_State
begin

text \<open>
  The index selectors of \<open>rabitqcache/pyimpl\<close> that RaBitQ is compared with: \<open>top_k.py\<close>, \<open>streaming_llm.py\<close>,
  \<open>tidal_decode.py\<close> and \<open>quest.py\<close>, on the rows of the attention weights (batch entry, head, query). They are
  called in the decode stage, with one query and keys of the same batch size, heads and head size; the errors of torch for tensors of other
  shapes are not modelled here.
\<close>

section \<open>Top-k\<close>

text \<open>\<open>zeros_like\<close> followed by \<open>scatter_\<close> of \<open>True\<close>.\<close>

definition true_at :: "nat \<Rightarrow> nat list \<Rightarrow> bool list" where
  "true_at n idx = scatter_loop (replicate n False) (map (\<lambda>j. (j, True)) idx)"

definition top_k :: "topk_op \<Rightarrow> score_rows \<Rightarrow> int \<Rightarrow> mask_rows result" where
  "top_k tk attn_weights token_budget =
     (let n = fst attn_weights; k = min token_budget (int n)
      in if k < 0 then Inl RuntimeError
         else Inr (\<lambda>b h i. true_at n (tk (nat k) (snd attn_weights b h i))))"

definition oracle_topk_selector :: "topk_op \<Rightarrow> score_rows \<Rightarrow> int \<Rightarrow> mask_rows result" where
  "oracle_topk_selector tk attn_weights token_budget = top_k tk attn_weights token_budget"

section \<open>StreamingLLM\<close>

text \<open>A slice bound of Python on an axis of length \<open>n\<close>.\<close>

definition slice_bound :: "nat \<Rightarrow> int \<Rightarrow> nat" where
  "slice_bound n i = nat (if i < 0 then max 0 (int n + i) else min i (int n))"

definition streaming_selector :: "score_rows \<Rightarrow> int \<Rightarrow> int \<Rightarrow> mask_rows" where
  "streaming_selector attn_weights token_budget num_sinks =
     (let n = fst attn_weights; sinks = slice_bound n num_sinks; recent = slice_bound n (- token_budget)
      in (\<lambda>b h i. map (\<lambda>j. j < sinks \<or> recent \<le> j) [0..<n]))"

section \<open>TidalDecode\<close>

text \<open>The selector returns a pair \<open>(None, mask)\<close>; the attribute \<open>td_mask_buffer\<close> of the state is threaded.\<close>

definition tidal_decode_selector ::
  "topk_op \<Rightarrow> mask_rows option \<Rightarrow> score_rows \<Rightarrow> int \<Rightarrow> nat \<Rightarrow> nat list \<Rightarrow> ((unit option \<times> mask_rows) \<times> mask_rows option) result" where
  "tidal_decode_selector tk td_mask_buffer attn_weights token_budget layer_id reselection_layers =
     (if layer_id \<in> set reselection_layers
      then bindE (top_k tk attn_weights token_budget) (\<lambda>m.
             Inr ((None, \<lambda>b h i. replicate (fst attn_weights) True), Some m))
      else case td_mask_buffer of
             None \<Rightarrow> Inl AssertionError
           | Some m \<Rightarrow> Inr ((None, m), td_mask_buffer))"

section \<open>Quest\<close>

definition quest_sign :: "real \<Rightarrow> real" where
  "quest_sign x = (if x > 0 then 1 else - 1)"

definition padded_len :: "nat \<Rightarrow> nat \<Rightarrow> nat" where
  "padded_len n chunk_size =
     (let padding_length = chunk_size - n mod chunk_size in if padding_length < chunk_size then n + padding_length else n)"

text \<open>\<open>max_key\<close> with its padding, which holds the smallest number \<open>fmin\<close> of the dtype.\<close>

definition max_key :: "real \<Rightarrow> tensor4 \<Rightarrow> tensor4 \<Rightarrow> nat \<Rightarrow> nat \<Rightarrow> nat \<Rightarrow> nat \<Rightarrow> nat \<Rightarrow> real" where
  "max_key fmin q k b h i t d = (if t < t_len k then t_at k b h t d * quest_sign (t_at q b h i d) else fmin)"

definition chunk_max_key :: "real \<Rightarrow> nat \<Rightarrow> tensor4 \<Rightarrow> tensor4 \<Rightarrow> nat \<Rightarrow> nat \<Rightarrow> nat \<Rightarrow> nat \<Rightarrow> nat \<Rightarrow> real" where
  "chunk_max_key fmin chunk_size q k b h i j d =
     Max (set (map (\<lambda>t. max_key fmin q k b h i t d) [j * chunk_size..<Suc j * chunk_size]))"

definition quest_weights :: "real \<Rightarrow> nat \<Rightarrow> tensor4 \<Rightarrow> tensor4 \<Rightarrow> score_rows" where
  "quest_weights fmin chunk_size q k =
     (let chunk_num = padded_len (t_len k) chunk_size div chunk_size
      in (chunk_num, \<lambda>b h i. map (\<lambda>j. dot (t_dim q) (\<lambda>d. t_at q b h i d * quest_sign (t_at q b h i d))
                                      (chunk_max_key fmin chunk_size q k b h i j)) [0..<chunk_num]))"

text \<open>Python's \<open>int\<close> on a float.\<close>

definition py_trunc :: "real \<Rightarrow> int" where
  "py_trunc x = (if x \<ge> 0 then \<lfloor>x\<rfloor> else \<lceil>x\<rceil>)"

definition chunk_budget :: "int \<Rightarrow> int \<Rightarrow> int" where
  "chunk_budget token_budget chunk_size =
     max 1 (token_budget div chunk_size) + (if token_budget mod chunk_size \<noteq> 0 then 1 else 0)"

text \<open>The tokens of the chunks \<open>topk\<close>.\<close>

definition chunk_tokens :: "nat \<Rightarrow> nat list \<Rightarrow> nat list" where
  "chunk_tokens chunk_size topk = concat (map (\<lambda>j. map (\<lambda>e. j * chunk_size + e) [0..<chunk_size]) topk)"

definition quest_selector :: "topk_op \<Rightarrow> real \<Rightarrow> tensor4 \<Rightarrow> tensor4 \<Rightarrow> nat \<Rightarrow> int \<Rightarrow> real \<Rightarrow> mask_rows result" where
  "quest_selector tk fmin query_states key_states chunk_size token_budget sparsity_rate =
     (let seq_length = t_len key_states;
          tb = (if sparsity_rate \<noteq> - 1 then py_trunc (real seq_length * sparsity_rate) else token_budget)
      in if chunk_size = 0 then Inl ZeroDivisionError
         else (let estimated_weight = quest_weights fmin chunk_size query_states key_states;
                   k = nat (min (chunk_budget tb (int chunk_size)) (int (fst estimated_weight)))
               in Inr (\<lambda>b h i. take seq_length (true_at (padded_len seq_length chunk_size)
                                 (chunk_tokens chunk_size (tk k (snd estimated_weight b h i)))))))"

section \<open>Lemmas\<close>

lemma length_true_at [simp]: "length (true_at n idx) = n"
  by (simp add: true_at_def)

lemma scatter_true_nth:
  "j < length dst \<Longrightarrow> scatter_loop dst (map (\<lambda>j. (j, True)) idx) ! j \<longleftrightarrow> dst ! j \<or> j \<in> set idx"
proof (induction idx arbitrary: dst)
  case (Cons a idx)
  then show ?case by (cases "a = j") (simp_all add: nth_list_update)
qed simp

lemma nth_true_at [simp]: "j < n \<Longrightarrow> true_at n idx ! j \<longleftrightarrow> j \<in> set idx"
  by (simp add: true_at_def scatter_true_nth)

lemma top_k_total: "tb \<ge> 0 \<Longrightarrow> \<exists>m. top_k tk w tb = Inr m"
  by (simp add: top_k_def Let_def min_def)

lemma topk_specD:
  assumes "topk_spec tk" "k \<le> length xs"
  shows "distinct (tk k xs)" "length (tk k xs) = k" "set (tk k xs) \<subseteq> {..<length xs}"
    "i \<in> set (tk k xs) \<Longrightarrow> j < length xs \<Longrightarrow> j \<notin> set (tk k xs) \<Longrightarrow> xs ! j \<le> xs ! i"
  using assms by (auto simp: topk_spec_def)

text \<open>What a top-k mask selects: \<open>min budget n\<close> tokens, none smaller than a token left out.\<close>

lemma top_k_selects:
  assumes tk: "topk_spec tk" and w: "length (snd w b h i) = fst w" and nn: "token_budget \<ge> 0"
  shows "\<exists>m. top_k tk w token_budget = Inr m \<and> length (m b h i) = fst w
    \<and> card {j. j < fst w \<and> m b h i ! j} = nat (min token_budget (int (fst w)))
    \<and> (\<forall>j j'. j < fst w \<longrightarrow> j' < fst w \<longrightarrow> m b h i ! j \<longrightarrow> \<not> m b h i ! j' \<longrightarrow> snd w b h i ! j' \<le> snd w b h i ! j)"
proof -
  let ?k = "nat (min token_budget (int (fst w)))" and ?x = "snd w b h i"
  have k: "?k \<le> length ?x" using w nn by auto
  note S = topk_specD[OF tk k]
  have set: "{j. j < fst w \<and> true_at (fst w) (tk ?k ?x) ! j} = set (tk ?k ?x)" using S(3) w by (auto simp: subset_iff)
  have "top_k tk w token_budget = Inr (\<lambda>b h i. true_at (fst w) (tk ?k (snd w b h i)))" using nn by (simp add: top_k_def Let_def)
  then show ?thesis using S set w distinct_card[OF S(1)] by auto
qed

lemma padded_len_chunks:
  assumes "c > 0"
  shows "padded_len n c div c * c = padded_len n c" "n \<le> padded_len n c" "padded_len n c < n + c"
proof -
  have d: "n div c * c + n mod c = n" by (rule div_mult_mod_eq)
  have m: "n mod c < c" using assms by simp
  have "padded_len n c = (if n mod c = 0 then n else (n div c + 1) * c)"
  proof (cases "n mod c = 0")
    case False
    have "n + (c - n mod c) = n div c * c + c" using d m by linarith
    then show ?thesis using False m by (simp add: padded_len_def Let_def)
  qed (simp add: padded_len_def)
  moreover have "n div c * c = n" if "n mod c = 0" using d that by simp
  ultimately show "padded_len n c div c * c = padded_len n c" using assms by auto
  have p: "padded_len n c = n \<or> (padded_len n c = n + (c - n mod c) \<and> c - n mod c < c)" unfolding padded_len_def Let_def by simp
  show "n \<le> padded_len n c" using p by linarith
  show "padded_len n c < n + c" using p assms by linarith
qed

lemma chunk_of_token:
  assumes "c > 0" "t < n"
  shows "t div c < padded_len n c div c"
proof -
  have "t < padded_len n c div c * c" using padded_len_chunks[OF assms(1), of n] assms(2) by simp
  then show ?thesis using assms(1) by (simp add: less_mult_imp_div_less)
qed

lemma set_chunk_tokens:
  assumes "c > 0"
  shows "t \<in> set (chunk_tokens c js) \<longleftrightarrow> t div c \<in> set js"
proof
  assume "t \<in> set (chunk_tokens c js)"
  then obtain j where "j \<in> set js" "t \<in> (\<lambda>e. j * c + e) ` {..<c}"
    by (auto simp: chunk_tokens_def atLeast0LessThan)
  then obtain e where "j \<in> set js" "e < c" "t = j * c + e" by blast
  then show "t div c \<in> set js" using assms by simp
next
  assume j: "t div c \<in> set js"
  have "t \<in> (\<lambda>e. t div c * c + e) ` {..<c}" using assms by (intro image_eqI[of _ _ "t mod c"]) simp_all
  then show "t \<in> set (chunk_tokens c js)" using j by (auto simp: chunk_tokens_def atLeast0LessThan intro!: bexI[of _ "t div c"])
qed

lemma max_key_le_chunk:
  assumes "c > 0"
  shows "max_key fmin q k b h i t d \<le> chunk_max_key fmin c q k b h i (t div c) d"
proof -
  have "t div c * c \<le> t" by simp
  moreover have "t < t div c * c + c" using div_mult_mod_eq[of t c] mod_less_divisor[OF assms, of t] by linarith
  ultimately show ?thesis unfolding chunk_max_key_def by (intro Max_ge) auto
qed

lemma quest_sign_mult: "quest_sign x * quest_sign x = 1"
  by (simp add: quest_sign_def)

lemma quest_estimate_bound:
  assumes c: "c > 0" and t: "t < t_len k"
  shows "dot (t_dim q) (t_at q b h i) (t_at k b h t) \<le> snd (quest_weights fmin c q k) b h i ! (t div c)"
proof -
  let ?s = "\<lambda>d. quest_sign (t_at q b h i d)"
  have "t_at q b h i d * t_at k b h t d \<le> (t_at q b h i d * ?s d) * chunk_max_key fmin c q k b h i (t div c) d" for d
  proof -
    have "t_at q b h i d * t_at k b h t d = (t_at q b h i d * ?s d) * (t_at k b h t d * ?s d)"
      using quest_sign_mult[of "t_at q b h i d"] by (simp add: algebra_simps)
    also have "\<dots> \<le> (t_at q b h i d * ?s d) * chunk_max_key fmin c q k b h i (t div c) d"
      using max_key_le_chunk[OF c, of fmin q k b h i t d] t
      by (intro mult_left_mono) (auto simp: max_key_def quest_sign_def)
    finally show ?thesis .
  qed
  then show ?thesis using chunk_of_token[OF c t] by (simp add: quest_weights_def Let_def dot_def sum_mono)
qed

section \<open>Properties\<close>

text \<open>C32. Quest. Without an exception the mask has one entry per cached token and selects whole chunks: as many as the
  budget asks for, or all. The estimate of a chunk is an upper bound of the inner product of the query with every
  key in it, and no token left out belongs to a chunk with a larger estimate than a selected one: so a token left
  out never has a larger inner product than the smallest estimate among the selected chunks.\<close>

theorem quest_selects_upper_bounds:
  assumes tk: "topk_spec tk" and c: "chunk_size > 0" and tb: "token_budget \<ge> 0"
  shows "\<exists>m S. quest_selector tk fmin q k chunk_size token_budget (- 1) = Inr m
    \<and> length (m b h i) = t_len k
    \<and> S \<subseteq> {..<padded_len (t_len k) chunk_size div chunk_size}
    \<and> int (card S) = min (chunk_budget token_budget (int chunk_size)) (int (padded_len (t_len k) chunk_size div chunk_size))
    \<and> (\<forall>t<t_len k. m b h i ! t \<longleftrightarrow> t div chunk_size \<in> S)
    \<and> (\<forall>t<t_len k. dot (t_dim q) (t_at q b h i) (t_at k b h t) \<le> snd (quest_weights fmin chunk_size q k) b h i ! (t div chunk_size))
    \<and> (\<forall>t<t_len k. \<not> m b h i ! t \<longrightarrow> (\<forall>j\<in>S. dot (t_dim q) (t_at q b h i) (t_at k b h t)
          \<le> snd (quest_weights fmin chunk_size q k) b h i ! j))"
proof -
  let ?w = "quest_weights fmin chunk_size q k" and ?n = "t_len k"
  let ?C = "padded_len ?n chunk_size div chunk_size"
  let ?k = "nat (min (chunk_budget token_budget (int chunk_size)) (int (fst ?w)))"
  have w: "fst ?w = ?C" "length (snd ?w b h i) = ?C" by (simp_all add: quest_weights_def Let_def)
  have "max 1 (token_budget div int chunk_size) \<ge> 1" by simp
  then have cb: "chunk_budget token_budget (int chunk_size) \<ge> 1" unfolding chunk_budget_def by (auto intro: order_trans)
  have k: "?k \<le> length (snd ?w b h i)" using w cb by auto
  note S = topk_specD[OF tk k]
  let ?S = "set (tk ?k (snd ?w b h i))"
  define m where "m = (\<lambda>b h i. take ?n (true_at (padded_len ?n chunk_size) (chunk_tokens chunk_size (tk ?k (snd ?w b h i)))))"
  have sel: "quest_selector tk fmin q k chunk_size token_budget (- 1) = Inr m"
    using c by (simp add: quest_selector_def Let_def m_def)
  have len: "length (m b h i) = ?n" using padded_len_chunks(2)[OF c, of ?n] by (simp add: m_def)
  have nth: "m b h i ! t \<longleftrightarrow> t div chunk_size \<in> ?S" if "t < ?n" for t
    using that padded_len_chunks(2)[OF c, of ?n] by (simp add: m_def set_chunk_tokens[OF c])
  have card: "int (card ?S) = min (chunk_budget token_budget (int chunk_size)) (int ?C)"
    using distinct_card[OF S(1)] S(2) w cb by simp
  have low: "dot (t_dim q) (t_at q b h i) (t_at k b h t) \<le> snd ?w b h i ! j" if "t < ?n" "\<not> m b h i ! t" "j \<in> ?S" for t j
    using quest_estimate_bound[OF c that(1), of q b h i fmin] S(4)[OF that(3), of "t div chunk_size"] nth[OF that(1)] that(2)
      chunk_of_token[OF c that(1)] w by force
  show ?thesis using sel len nth card low S(3) w quest_estimate_bound[OF c] by (intro exI[of _ m] exI[of _ ?S]) auto
qed

definition demo_query :: tensor4 where
  "demo_query = \<lparr>t_bs = 1, t_heads = 1, t_len = 1, t_dim = 2, t_dev = 0, t_dtype = Float32, t_at = (\<lambda>b h t d. if d = 0 then 1 else - 2)\<rparr>"

definition demo_keys :: tensor4 where
  "demo_keys = \<lparr>t_bs = 1, t_heads = 1, t_len = 5, t_dim = 2, t_dev = 0, t_dtype = Float32, t_at = (\<lambda>b h t d. if d = 0 then real t else - 1)\<rparr>"

theorem quest_selects_upper_bounds_witness:
  "\<exists>m S. quest_selector topk_ref (- 1000) demo_query demo_keys 2 3 (- 1) = Inr m \<and> length (m 0 0 0) = 5
    \<and> S \<subseteq> {..<3} \<and> int (card S) = 2 \<and> (\<forall>t<5. m 0 0 0 ! t \<longleftrightarrow> t div 2 \<in> S)"
proof -
  have "(2::nat) > 0" "(3::int) \<ge> 0" by simp_all
  from quest_selects_upper_bounds[OF topk_ref_spec this, of "- 1000" demo_query demo_keys 0 0 0]
  show ?thesis by (simp add: demo_keys_def padded_len_def Let_def chunk_budget_def) blast
qed

text \<open>StreamingLLM keeps exactly the first \<open>num_sinks\<close> and the last \<open>token_budget\<close> tokens of every row, for a
  positive budget; a budget of 0 keeps every token instead of none of the recent ones, since the slice starts at 0.\<close>

theorem streaming_selects_ends:
  assumes "token_budget \<ge> 0" "num_sinks \<ge> 0"
  shows "length (streaming_selector w token_budget num_sinks b h i) = fst w
    \<and> (\<forall>j<fst w. streaming_selector w token_budget num_sinks b h i ! j
         \<longleftrightarrow> token_budget = 0 \<or> int j < num_sinks \<or> int (fst w) - token_budget \<le> int j)"
  using assms by (auto simp: streaming_selector_def Let_def slice_bound_def)

theorem streaming_selects_ends_witness:
  "streaming_selector (6, \<lambda>b h i. replicate 6 0) 2 1 0 0 0 = [True, False, False, False, True, True]
    \<and> streaming_selector (6, \<lambda>b h i. replicate 6 0) 0 1 0 0 0 ! 3"
proof -
  have "(0::int) \<ge> 0" "(1::int) \<ge> 0" by simp_all
  from streaming_selects_ends[OF this, of "(6, \<lambda>b h i. replicate 6 0)" 0 0 0]
  have "streaming_selector (6, \<lambda>b h i. replicate 6 0) 0 1 0 0 0 ! 3" by simp
  then show ?thesis by (simp add: streaming_selector_def slice_bound_def upt_rec)
qed

end
