(* ===== verification/Estimators.thy ===== *)
theory Estimators
  imports Selectors
begin

text \<open>
  Weight estimators of \<open>rabitqcache/pyimpl\<close>: key quantization (\<open>quantize.py\<close>), SparQ (\<open>sparq.py\<close>), DoubleSparsity
  (\<open>double_sparse.py\<close> with the Triton kernel that gathers channels) and the threshold pruner.
\<close>

section \<open>Quantization of keys\<close>

text \<open>\<open>torch.round\<close> rounds halves to the even neighbour.\<close>

definition torch_round :: "real \<Rightarrow> real" where
  "torch_round x = (let f = \<lfloor>x\<rfloor>; r = x - of_int f
     in of_int (if r < 1 / 2 then f else if r > 1 / 2 then f + 1 else if even f then f else f + 1))"

definition row_max :: "nat \<Rightarrow> (nat \<Rightarrow> real) \<Rightarrow> real" where
  "row_max D f = Max (set (map f [0..<D]))"

definition row_min :: "nat \<Rightarrow> (nat \<Rightarrow> real) \<Rightarrow> real" where
  "row_min D f = Min (set (map f [0..<D]))"

definition min_max_scale :: "nat \<Rightarrow> nat \<Rightarrow> (nat \<Rightarrow> real) \<Rightarrow> real" where
  "min_max_scale D qbit f = max (row_max D f - row_min D f) (1 / 10 ^ 9) / (2 ^ qbit - 1)"

text \<open>Quantize and dequantize; for \<open>qbit = 0\<close> the code divides by 0 and yields NaN, which is outside the model.\<close>

definition min_max_per_token_quant_kv :: "tensor4 \<Rightarrow> nat \<Rightarrow> tensor4" where
  "min_max_per_token_quant_kv kv qbit =
     kv\<lparr>t_at := (\<lambda>b h t d.
       let f = t_at kv b h t; scales = min_max_scale (t_dim kv) qbit f; zeros = - row_min (t_dim kv) f
       in min (max (torch_round ((f d + zeros) / scales)) 0) (2 ^ qbit - 1) * scales - zeros)\<rparr>"

definition max_scale :: "nat \<Rightarrow> nat \<Rightarrow> (nat \<Rightarrow> real) \<Rightarrow> real" where
  "max_scale D qbit f = max (row_max D (\<lambda>d. \<bar>f d\<bar>) / (2 ^ qbit - 1)) (1 / 10 ^ 6)"

definition smooth_kv :: "tensor4 \<Rightarrow> tensor4" where
  "smooth_kv kv = kv\<lparr>t_at := (\<lambda>b h t d. t_at kv b h t d - row_min (t_len kv) (\<lambda>t'. t_at kv b h t' d))\<rparr>"

definition max_per_token_quant_kv :: "tensor4 \<Rightarrow> nat \<Rightarrow> bool \<Rightarrow> tensor4" where
  "max_per_token_quant_kv kv0 qbit smooth =
     (let kv = (if smooth then smooth_kv kv0 else kv0)
      in if qbit = 1 then kv\<lparr>t_at := (\<lambda>b h t d. sgn (t_at kv b h t d))\<rparr>
         else kv\<lparr>t_at := (\<lambda>b h t d. let scale = max_scale (t_dim kv) qbit (t_at kv b h t)
                                     in torch_round (t_at kv b h t d / scale) * scale)\<rparr>)"

section \<open>SparQ\<close>

definition sparq :: "topk_op \<Rightarrow> tensor4 \<Rightarrow> tensor4 \<Rightarrow> nat \<Rightarrow> score_rows result" where
  "sparq tk query_states key_states r =
     (if r > t_dim query_states then Inl RuntimeError
      else Inr (t_len key_states, \<lambda>b h i.
        let channel_indices = tk r (map (\<lambda>d. \<bar>t_at query_states b h i d\<bar>) [0..<t_dim query_states])
        in map (\<lambda>t. (\<Sum>c\<leftarrow>channel_indices. t_at query_states b h i c * t_at key_states b h t c) / sqrt (real (t_dim query_states)))
             [0..<t_len key_states]))"

definition sparq_selector :: "topk_op \<Rightarrow> tensor4 \<Rightarrow> tensor4 \<Rightarrow> nat \<Rightarrow> int option \<Rightarrow> real option \<Rightarrow> mask_rows result" where
  "sparq_selector tk query_states key_states r token_budget token_ratio =
     bindE (sparq tk query_states key_states r) (\<lambda>estimated_weights.
       case token_ratio of
         Some ratio \<Rightarrow>
           if ratio \<le> 0 then Inl ValueError
           else top_k tk estimated_weights (max 1 \<lceil>real (fst estimated_weights) * ratio\<rceil>)
       | None \<Rightarrow> (case token_budget of
                    None \<Rightarrow> Inl ValueError
                  | Some tb \<Rightarrow> top_k tk estimated_weights tb))"

section \<open>DoubleSparsity\<close>

text \<open>\<open>get_label_tensor\<close>: the Triton kernel copies, per token and head, the channels listed for the head.\<close>

definition get_label_tensor :: "tensor4 \<Rightarrow> (nat \<Rightarrow> nat list) \<Rightarrow> nat \<Rightarrow> tensor4" where
  "get_label_tensor x channel heavy_channel_num =
     x\<lparr>t_dim := heavy_channel_num, t_at := (\<lambda>b h t c. t_at x b h t (channel h ! c))\<rparr>"

definition permute_channel_config :: "nat \<Rightarrow> nat list \<Rightarrow> nat list" where
  "permute_channel_config head_dim sorted_channel = map (\<lambda>c. (c * 2) mod head_dim + (c * 2) div head_dim) sorted_channel"

definition double_sparse :: "tensor4 \<Rightarrow> tensor4 \<Rightarrow> (nat \<Rightarrow> nat list) \<Rightarrow> nat \<Rightarrow> nat \<Rightarrow> score_rows" where
  "double_sparse query_states key_states sorted_channel r quant_bit =
     (let query_label = get_label_tensor query_states sorted_channel r;
          key_label0 = get_label_tensor key_states sorted_channel r;
          key_label = (if quant_bit < 32 then min_max_per_token_quant_kv key_label0 quant_bit else key_label0)
      in (t_len key_states, \<lambda>b h i. map (\<lambda>t. dot r (t_at query_label b h i) (t_at key_label b h t) / sqrt (real (t_dim query_states)))
            [0..<t_len key_states]))"

definition double_sparse_selector ::
  "topk_op \<Rightarrow> tensor4 \<Rightarrow> tensor4 \<Rightarrow> (nat \<Rightarrow> nat list) \<Rightarrow> nat \<Rightarrow> nat \<Rightarrow> int \<Rightarrow> real \<Rightarrow> mask_rows result" where
  "double_sparse_selector tk query_states key_states sorted_channel r quant_bit token_budget sparsity_rate =
     (let seq_length = t_len key_states;
          tb = (if sparsity_rate \<noteq> - 1 then py_trunc (real seq_length * sparsity_rate) else token_budget)
      in top_k tk (double_sparse query_states key_states sorted_channel r quant_bit) tb)"

definition double_sparse_selector1 ::
  "topk_op \<Rightarrow> real \<Rightarrow> tensor4 \<Rightarrow> tensor4 \<Rightarrow> (nat \<Rightarrow> nat list) \<Rightarrow> nat \<Rightarrow> nat \<Rightarrow> int
   \<Rightarrow> (nat \<Rightarrow> nat \<Rightarrow> nat \<Rightarrow> nat \<Rightarrow> real) option \<Rightarrow> mask_rows result" where
  "double_sparse_selector1 tk fmin query_states key_states sorted_channel r quant_bit token_budget attention_mask =
     (let w = double_sparse query_states key_states sorted_channel r quant_bit;
          w' = (case attention_mask of
                  None \<Rightarrow> w
                | Some am \<Rightarrow> (fst w, \<lambda>b h i. map (\<lambda>t. max (snd w b h i ! t + am b h i t) fmin) [0..<fst w]))
      in top_k tk w' token_budget)"

section \<open>Threshold\<close>

definition elementwise_threshold :: "score_rows \<Rightarrow> real \<Rightarrow> mask_rows" where
  "elementwise_threshold attn_weights threshold =
     (\<lambda>b h i. map (\<lambda>x. x > hd (snd attn_weights b h i) - threshold) (snd attn_weights b h i))"

section \<open>Lemmas\<close>

lemma torch_round_near: "\<bar>torch_round x - x\<bar> \<le> 1 / 2"
proof -
  have "of_int \<lfloor>x\<rfloor> \<le> x" "x < of_int \<lfloor>x\<rfloor> + 1" by linarith+
  then show ?thesis by (auto simp: torch_round_def Let_def)
qed

lemma torch_round_between:
  assumes "of_int a \<le> x" "x \<le> of_int b"
  shows "of_int a \<le> torch_round x" "torch_round x \<le> of_int b"
proof -
  have "a \<le> \<lfloor>x\<rfloor>" using assms(1) by (simp add: le_floor_iff)
  then show "of_int a \<le> torch_round x" by (auto simp: torch_round_def Let_def)
  have "torch_round x \<le> of_int \<lfloor>x\<rfloor> + 1" by (auto simp: torch_round_def Let_def)
  moreover have "torch_round x = of_int \<lfloor>x\<rfloor>" if "x = of_int \<lfloor>x\<rfloor>" using that by (simp add: torch_round_def Let_def)
  moreover have "\<lfloor>x\<rfloor> + 1 \<le> b" if "x \<noteq> of_int \<lfloor>x\<rfloor>"
  proof -
    have "of_int \<lfloor>x\<rfloor> < x" using that of_int_floor_le[of x] by linarith
    then have "of_int \<lfloor>x\<rfloor> < (of_int b :: real)" using assms(2) by linarith
    then show ?thesis by simp
  qed
  ultimately show "torch_round x \<le> of_int b" using assms(2) by (cases "x = of_int \<lfloor>x\<rfloor>") (fastforce, smt (verit) of_int_le_iff of_int_add of_int_1)
qed

lemma row_bounds:
  assumes "d < D"
  shows "row_min D f \<le> f d" "f d \<le> row_max D f"
  using assms by (auto simp: row_min_def row_max_def intro!: Min_le Max_ge)

lemma quant_levels_pos: "qbit > 0 \<Longrightarrow> (2 ^ qbit - 1 :: real) \<ge> 1"
  using power_increasing[of 1 qbit "2::real"] by simp

lemma min_max_scale_pos: "qbit > 0 \<Longrightarrow> min_max_scale D qbit f > 0"
  using quant_levels_pos[of qbit] by (simp add: min_max_scale_def less_max_iff_disj)

lemma min_max_quant_entry:
  assumes q: "qbit > 0" and d: "d < t_dim kv"
  shows "\<bar>t_at (min_max_per_token_quant_kv kv qbit) b h t d - t_at kv b h t d\<bar> \<le> min_max_scale (t_dim kv) qbit (t_at kv b h t) / 2"
proof -
  let ?f = "t_at kv b h t" and ?D = "t_dim kv"
  let ?s = "min_max_scale ?D qbit ?f" and ?z = "- row_min ?D ?f" and ?L = "2 ^ qbit - 1 :: real"
  note s = min_max_scale_pos[OF q, of ?D ?f] and L = quant_levels_pos[OF q] and B = row_bounds[OF d, of ?f]
  let ?u = "(?f d + ?z) / ?s"
  have u0: "0 \<le> ?u" using B s by simp
  have "?f d + ?z \<le> ?s * ?L" using B L by (simp add: min_max_scale_def le_max_iff_disj)
  then have u1: "?u \<le> ?L" using s by (simp add: pos_divide_le_eq mult.commute)
  have "of_int 0 \<le> torch_round ?u" "torch_round ?u \<le> of_int (2 ^ qbit - 1)"
    using torch_round_between[of 0 ?u "2 ^ qbit - 1"] u0 u1 by simp_all
  then have "t_at (min_max_per_token_quant_kv kv qbit) b h t d = torch_round ?u * ?s - ?z"
    by (simp add: min_max_per_token_quant_kv_def Let_def)
  moreover have "?f d = ?u * ?s - ?z" using s by simp
  ultimately have "t_at (min_max_per_token_quant_kv kv qbit) b h t d - ?f d = (torch_round ?u - ?u) * ?s"
    by (simp add: left_diff_distrib)
  then have "\<bar>t_at (min_max_per_token_quant_kv kv qbit) b h t d - ?f d\<bar> = \<bar>torch_round ?u - ?u\<bar> * ?s"
    using s by (simp add: abs_mult)
  also have "\<dots> \<le> 1 / 2 * ?s" using torch_round_near[of ?u] s by (intro mult_right_mono) auto
  finally show ?thesis by simp
qed

section \<open>Properties\<close>

text \<open>Min-max quantization of keys with at least one bit changes every entry by at most half a quantization
  step of its token, where the step is the range of the token's entries (at least \<open>1e-9\<close>) over the number of steps;
  so the inner product a query forms with the quantized key, as the weight estimator does, is off by at most the
  sum of the absolute query entries times half the step.\<close>

theorem min_max_estimate_error:
  assumes q: "qbit > 0"
  shows "(\<forall>d<t_dim kv. \<bar>t_at (min_max_per_token_quant_kv kv qbit) b h t d - t_at kv b h t d\<bar>
            \<le> max (row_max (t_dim kv) (t_at kv b h t) - row_min (t_dim kv) (t_at kv b h t)) (1 / 10 ^ 9) / (2 ^ qbit - 1) / 2)
    \<and> \<bar>dot (t_dim kv) x (t_at (min_max_per_token_quant_kv kv qbit) b h t) - dot (t_dim kv) x (t_at kv b h t)\<bar>
        \<le> (\<Sum>d<t_dim kv. \<bar>x d\<bar>) * (min_max_scale (t_dim kv) qbit (t_at kv b h t) / 2)"
proof -
  let ?k = "t_at kv b h t" and ?k' = "t_at (min_max_per_token_quant_kv kv qbit) b h t" and ?s = "min_max_scale (t_dim kv) qbit (t_at kv b h t) / 2"
  have e: "\<bar>?k' d - ?k d\<bar> \<le> ?s" if "d < t_dim kv" for d by (rule min_max_quant_entry[OF q that])
  have "\<bar>dot (t_dim kv) x ?k' - dot (t_dim kv) x ?k\<bar> = \<bar>\<Sum>d<t_dim kv. x d * (?k' d - ?k d)\<bar>"
    by (simp add: dot_def right_diff_distrib sum_subtractf)
  also have "\<dots> \<le> (\<Sum>d<t_dim kv. \<bar>x d\<bar> * ?s)"
    by (intro order_trans[OF sum_abs] sum_mono) (simp only: abs_mult, rule mult_left_mono, rule e, simp_all)
  finally have "\<bar>dot (t_dim kv) x ?k' - dot (t_dim kv) x ?k\<bar> \<le> (\<Sum>d<t_dim kv. \<bar>x d\<bar>) * ?s" by (simp only: sum_distrib_right)
  then show ?thesis using e[unfolded min_max_scale_def] by blast
qed

theorem min_max_estimate_error_witness:
  "\<bar>t_at (min_max_per_token_quant_kv demo_keys 4) 0 0 3 0 - t_at demo_keys 0 0 3 0\<bar> \<le> 2 / 15
    \<and> min_max_scale 2 4 (t_at demo_keys 0 0 3) = 4 / 15"
proof -
  have d: "t_dim demo_keys = 2" "[0..<2] = [0, 1::nat]" by (simp_all add: demo_keys_def upt_rec)
  have s: "min_max_scale 2 4 (t_at demo_keys 0 0 3) = 4 / 15"
    by (simp add: min_max_scale_def row_max_def row_min_def d(2)) (simp add: demo_keys_def)
  have "(0::nat) < 4" "(0::nat) < 2" by simp_all
  with min_max_estimate_error[of 4 demo_keys 0 0 3] show ?thesis using s unfolding d(1) min_max_scale_def[symmetric] by simp
qed

text \<open>SparQ. For \<open>r\<close> channels of a head of dimension at least \<open>r\<close> the estimated weight of every token differs from the
  exact attention weight by at most the contribution of the channels left out, in none of which the query is larger in
  absolute value than in a channel used; asking for more channels than there are raises. The selector raises exactly
  when that happens, when the ratio is not positive, or when neither budget nor ratio is given (for a budget that is
  not negative).\<close>

theorem sparq_estimate_and_errors:
  assumes tk: "topk_spec tk" and tb: "case token_budget of None \<Rightarrow> True | Some n \<Rightarrow> n \<ge> 0"
  shows "(r \<le> t_dim q \<longrightarrow> (\<exists>w. sparq tk q k r = Inr w \<and> fst w = t_len k \<and> (\<forall>b h i. length (snd w b h i) = t_len k
      \<and> (\<exists>C\<subseteq>{..<t_dim q}. card C = r \<and> (\<forall>d\<in>{..<t_dim q} - C. \<forall>c\<in>C. \<bar>t_at q b h i d\<bar> \<le> \<bar>t_at q b h i c\<bar>)
          \<and> (\<forall>t<t_len k. \<bar>snd w b h i ! t - dot (t_dim q) (t_at q b h i) (t_at k b h t) / sqrt (real (t_dim q))\<bar>
               \<le> (\<Sum>d\<in>{..<t_dim q} - C. \<bar>t_at q b h i d\<bar> * \<bar>t_at k b h t d\<bar>) / sqrt (real (t_dim q)))))))
    \<and> (r > t_dim q \<longrightarrow> sparq_selector tk q k r token_budget token_ratio = Inl RuntimeError)
    \<and> ((\<exists>m. sparq_selector tk q k r token_budget token_ratio = Inr m)
         \<longleftrightarrow> r \<le> t_dim q \<and> (case token_ratio of Some x \<Rightarrow> x > 0 | None \<Rightarrow> token_budget \<noteq> None))"
proof -
  have est: "\<exists>C\<subseteq>{..<t_dim q}. card C = r \<and> (\<forall>d\<in>{..<t_dim q} - C. \<forall>c\<in>C. \<bar>t_at q b h i d\<bar> \<le> \<bar>t_at q b h i c\<bar>)
      \<and> (\<forall>t<t_len k. \<bar>(\<Sum>c\<leftarrow>tk r (map (\<lambda>d. \<bar>t_at q b h i d\<bar>) [0..<t_dim q]). t_at q b h i c * t_at k b h t c) / sqrt (real (t_dim q))
              - dot (t_dim q) (t_at q b h i) (t_at k b h t) / sqrt (real (t_dim q))\<bar>
            \<le> (\<Sum>d\<in>{..<t_dim q} - C. \<bar>t_at q b h i d\<bar> * \<bar>t_at k b h t d\<bar>) / sqrt (real (t_dim q)))"
    if r: "r \<le> t_dim q" for b h i
  proof -
    let ?a = "map (\<lambda>d. \<bar>t_at q b h i d\<bar>) [0..<t_dim q]"
    let ?C = "set (tk r ?a)" and ?D = "{..<t_dim q}"
    have "r \<le> length ?a" using r by simp
    note S = topk_specD[OF tk this]
    have C: "?C \<subseteq> ?D" "card ?C = r" using S(3) distinct_card[OF S(1)] S(2) by simp_all
    have "\<bar>t_at q b h i d\<bar> \<le> \<bar>t_at q b h i c\<bar>" if "d \<in> ?D - ?C" "c \<in> ?C" for d c
      using S(4)[OF that(2), of d] that C(1) by (auto simp: subset_iff)
    moreover have "\<bar>(\<Sum>c\<leftarrow>tk r ?a. t_at q b h i c * t_at k b h t c) / sqrt (real (t_dim q))
        - dot (t_dim q) (t_at q b h i) (t_at k b h t) / sqrt (real (t_dim q))\<bar>
        \<le> (\<Sum>d\<in>?D - ?C. \<bar>t_at q b h i d\<bar> * \<bar>t_at k b h t d\<bar>) / sqrt (real (t_dim q))" for t
    proof -
      let ?p = "\<lambda>d. t_at q b h i d * t_at k b h t d"
      have "dot (t_dim q) (t_at q b h i) (t_at k b h t) = sum ?p ?C + sum ?p (?D - ?C)"
        using C(1) by (simp add: dot_def sum.subset_diff)
      moreover have "(\<Sum>c\<leftarrow>tk r ?a. ?p c) = sum ?p ?C" using S(1) by (simp add: sum_list_distinct_conv_sum_set)
      ultimately have "(\<Sum>c\<leftarrow>tk r ?a. ?p c) / sqrt (real (t_dim q)) - dot (t_dim q) (t_at q b h i) (t_at k b h t) / sqrt (real (t_dim q))
        = - (sum ?p (?D - ?C) / sqrt (real (t_dim q)))" by (simp add: add_divide_distrib)
      moreover have "\<bar>sum ?p (?D - ?C)\<bar> \<le> (\<Sum>d\<in>?D - ?C. \<bar>t_at q b h i d\<bar> * \<bar>t_at k b h t d\<bar>)"
        by (intro order_trans[OF sum_abs]) (simp add: abs_mult)
      ultimately show ?thesis by (simp add: divide_right_mono)
    qed
    ultimately show ?thesis using C by blast
  qed
  have sel: "(\<exists>m. sparq_selector tk q k r token_budget token_ratio = Inr m)
         \<longleftrightarrow> r \<le> t_dim q \<and> (case token_ratio of Some x \<Rightarrow> x > 0 | None \<Rightarrow> token_budget \<noteq> None)"
    using tb by (cases token_ratio; cases token_budget) (auto simp: sparq_selector_def sparq_def top_k_total)
  show ?thesis using est sel by (simp add: sparq_def sparq_selector_def Let_def)
qed

theorem sparq_estimate_and_errors_witness:
  "sparq_selector topk_ref demo_query demo_keys 3 (Some 2) None = Inl RuntimeError
    \<and> (\<exists>m. sparq_selector topk_ref demo_query demo_keys 1 (Some 2) None = Inr m)"
proof -
  have d: "t_dim demo_query = 2" by (simp add: demo_query_def)
  have "case Some (2::int) of None \<Rightarrow> True | Some n \<Rightarrow> n \<ge> 0" by simp
  note s = sparq_estimate_and_errors[OF topk_ref_spec this, of _ demo_query demo_keys None]
  show ?thesis using s[of 3] s[of 1] d by simp
qed

end
