(* ===== verification/Budget_Info.thy ===== *)
theory Budget_Info
  imports RabitQ_State
begin

text \<open>
  \<open>rabitqcache/pyimpl/state.py\<close>: statistics about the tokens selected and the attention mass they carry, recorded
  by every layer at every decode step. A new query is recognised by a layer number that does not follow the last one.
  Dictionaries keep insertion order. The mean of nothing is NaN, here \<open>None\<close>.
\<close>

section \<open>Dictionaries and means\<close>

fun dict_put :: "'k \<Rightarrow> 'v \<Rightarrow> ('k \<times> 'v) list \<Rightarrow> ('k \<times> 'v) list" where
  "dict_put k v [] = [(k, v)]"
| "dict_put k v ((k', v') # d) = (if k' = k then (k, v) # d else (k', v') # dict_put k v d)"

definition mean :: "real list \<Rightarrow> real option" where
  "mean xs = (if xs = [] then None else Some (sum_list xs / real (length xs)))"

definition mean_nan :: "real option list \<Rightarrow> real option" where
  "mean_nan xs = (if None \<in> set xs then None else mean (map the xs))"

text \<open>\<open>xs[-1][k] = v\<close> on a list of dictionaries.\<close>

definition put_last :: "'k \<Rightarrow> 'v \<Rightarrow> ('k \<times> 'v) list list \<Rightarrow> ('k \<times> 'v) list list result" where
  "put_last k v ds = (if ds = [] then Inl IndexError else Inr (butlast ds @ [dict_put k v (last ds)]))"

section \<open>Accumulated scores\<close>

record score_info =
  score_sum :: "(nat \<times> real list) list list"
  min_sum :: "(nat \<times> real) list list"
  sc_last_layer_id :: int

definition score_reset :: score_info where
  "score_reset = \<lparr>score_sum = [], min_sum = [], sc_last_layer_id = - 999\<rparr>"

text \<open>The mass of the selected tokens of every row; the rows are those of all batch entries and heads in order.\<close>

definition selected_mass :: "real list \<Rightarrow> bool list \<Rightarrow> real" where
  "selected_mass attn_weights msk = (\<Sum>(p, m)\<leftarrow>zip (softmax attn_weights) msk. if m then p else 0)"

definition score_update :: "score_info \<Rightarrow> nat \<Rightarrow> (real list \<times> bool list) list \<Rightarrow> score_info result" where
  "score_update s layer_id rows =
     (let totals = map (\<lambda>(w, m). selected_mass w m) rows;
          fresh = int layer_id \<noteq> sc_last_layer_id s + 1;
          ss = score_sum s @ (if fresh then [[]] else []);
          ms = min_sum s @ (if fresh then [[]] else [])
      in if rows = [] then Inl RuntimeError
         else bindE (put_last layer_id totals ss) (\<lambda>ss'.
              bindE (put_last layer_id (Min (set totals)) ms) (\<lambda>ms'.
                Inr \<lparr>score_sum = ss', min_sum = ms', sc_last_layer_id = int layer_id\<rparr>)))"

definition get_avg_score_per_query :: "score_info \<Rightarrow> real option list" where
  "get_avg_score_per_query s = map (\<lambda>q. mean (map snd (filter (\<lambda>(l, x). l > 1) q))) (min_sum s)"

definition get_total_avg_score :: "score_info \<Rightarrow> real option" where
  "get_total_avg_score s = mean_nan (get_avg_score_per_query s)"

section \<open>Budgets\<close>

record budget_info =
  budget_num :: "(nat \<times> nat list) list list"
  b0 :: "(nat \<times> int) list list"
  last_layer_id :: int

definition budget_reset :: budget_info where
  "budget_reset = \<lparr>budget_num = [], b0 = [], last_layer_id = - 999\<rparr>"

definition head_budgets :: "bool list list \<Rightarrow> nat list" where
  "head_budgets selected_mask = map (\<lambda>row. length (filter id row)) selected_mask"

definition budget_update :: "budget_info \<Rightarrow> nat \<Rightarrow> bool list list \<Rightarrow> budget_info result" where
  "budget_update s layer_id selected_mask =
     (let bs = budget_num s @ (if int layer_id \<noteq> last_layer_id s + 1 then [[]] else [])
      in bindE (put_last layer_id (head_budgets selected_mask) bs) (\<lambda>bs'.
           Inr (s\<lparr>budget_num := bs', last_layer_id := int layer_id\<rparr>)))"

definition update_B0 :: "budget_info \<Rightarrow> nat \<Rightarrow> int \<Rightarrow> budget_info result" where
  "update_B0 s layer_id token_budget =
     bindE (put_last layer_id token_budget (b0 s @ (if int layer_id \<noteq> last_layer_id s + 1 then [[]] else [])))
       (\<lambda>bs. Inr (s\<lparr>b0 := bs\<rparr>))"

definition layer_avg :: "nat list \<Rightarrow> real option" where
  "layer_avg heads = mean (map real heads)"

definition get_avg_budget_per_layer_single_query :: "budget_info \<Rightarrow> nat \<Rightarrow> real option list result" where
  "get_avg_budget_per_layer_single_query s query_index =
     (if query_index < length (budget_num s) then Inr (map (layer_avg \<circ> snd) (budget_num s ! query_index)) else Inl IndexError)"

definition get_avg_budget_cur_query :: "budget_info \<Rightarrow> real option list result" where
  "get_avg_budget_cur_query s =
     (if budget_num s = [] then Inl IndexError else Inr (map (layer_avg \<circ> snd) (last (budget_num s))))"

definition get_avg_budget_per_query :: "budget_info \<Rightarrow> real option list" where
  "get_avg_budget_per_query s = map (\<lambda>q. mean_nan (map (layer_avg \<circ> snd) (filter (\<lambda>(l, x). l > 1) q))) (budget_num s)"

definition get_avg_budget_per_query_B0 :: "budget_info \<Rightarrow> real option list" where
  "get_avg_budget_per_query_B0 s = map (\<lambda>q. mean (map (real_of_int \<circ> snd) (drop 1 q))) (b0 s)"

definition get_total_avg_budget :: "budget_info \<Rightarrow> real option" where
  "get_total_avg_budget s = mean_nan (get_avg_budget_per_query s)"

definition get_total_avg_budget_B0 :: "budget_info \<Rightarrow> real option" where
  "get_total_avg_budget_B0 s = mean_nan (get_avg_budget_per_query_B0 s)"

section \<open>One decode step\<close>

text \<open>The layers of a model from \<open>start_layer\<close> on, in order, with the masks they selected.\<close>

fun record_layers :: "budget_info \<Rightarrow> (nat \<times> bool list list) list \<Rightarrow> budget_info result" where
  "record_layers s [] = Inr s"
| "record_layers s ((l, m) # rest) = bindE (budget_update s l m) (\<lambda>s'. record_layers s' rest)"

fun record_steps :: "budget_info \<Rightarrow> (nat \<times> bool list list) list list \<Rightarrow> budget_info result" where
  "record_steps s [] = Inr s"
| "record_steps s (st # sts) = bindE (record_layers s st) (\<lambda>s'. record_steps s' sts)"

lemma dict_put_new: "k \<notin> fst ` set d \<Longrightarrow> dict_put k v d = d @ [(k, v)]"
  by (induction d) auto

text \<open>The layers after the first of a step extend the last entry.\<close>

lemma record_layers_rest:
  assumes "budget_num s = qs @ [d]" "last_layer_id s = int a - 1" "map fst ms = [a..<b]" "\<forall>l\<in>fst ` set d. l < a"
  shows "\<exists>s'. record_layers s ms = Inr s' \<and> budget_num s' = qs @ [d @ map (\<lambda>(l, m). (l, head_budgets m)) ms]
    \<and> last_layer_id s' = (if ms = [] then int a - 1 else int b - 1)"
  using assms
proof (induction ms arbitrary: s d a)
  case (Cons x ms)
  obtain l m where x: "x = (l, m)" by fastforce
  have ab: "a < b" using Cons.prems(3) by (metis list.simps(3) list.simps(9) not_less upt_conv_Nil)
  then have l: "l = a" "map fst ms = [Suc a..<b]" using Cons.prems(3) x by (simp_all add: upt_rec[of a b])
  have "budget_update s l m = Inr (s\<lparr>budget_num := qs @ [d @ [(l, head_budgets m)]], last_layer_id := int l\<rparr>)"
    using Cons.prems l(1) dict_put_new[of l d] by (force simp: budget_update_def put_last_def)
  then obtain s1 where s1: "budget_update s l m = Inr s1" "budget_num s1 = qs @ [d @ [(l, head_budgets m)]]" "last_layer_id s1 = int l" by simp
  have "\<forall>l'\<in>fst ` set (d @ [(l, head_budgets m)]). l' < Suc a" using Cons.prems(4) l(1) by (auto simp: less_Suc_eq)
  from Cons.IH[OF s1(2) _ l(2) this] s1(3) l(1) obtain s' where
    "record_layers s1 ms = Inr s'" "budget_num s' = qs @ [(d @ [(l, head_budgets m)]) @ map (\<lambda>(l, m). (l, head_budgets m)) ms]"
    "last_layer_id s' = (if ms = [] then int (Suc a) - 1 else int b - 1)" by auto
  moreover have "b = Suc a" if "ms = []" using arg_cong[OF l(2), of length] that ab by simp
  ultimately show ?case using s1(1) x by auto
qed simp

lemma record_layers_new:
  assumes "last_layer_id s + 1 \<noteq> int a" "map fst ms = [a..<b]" "a < b"
  shows "\<exists>s'. record_layers s ms = Inr s' \<and> budget_num s' = budget_num s @ [map (\<lambda>(l, m). (l, head_budgets m)) ms]
    \<and> last_layer_id s' = int b - 1"
proof -
  have "ms \<noteq> []" using arg_cong[OF assms(2), of length] assms(3) by auto
  then obtain l m rest where ms: "ms = (l, m) # rest" by (cases ms) auto
  have l: "l = a" "map fst rest = [Suc a..<b]" using assms(2,3) ms by (simp_all add: upt_rec[of a b])
  let ?s = "s\<lparr>budget_num := budget_num s @ [[(l, head_budgets m)]], last_layer_id := int l\<rparr>"
  have u: "budget_update s l m = Inr ?s" using assms(1) l(1) by (simp add: budget_update_def put_last_def)
  from record_layers_rest[of ?s "budget_num s" "[(l, head_budgets m)]" "Suc a" rest b] l obtain s' where
    "record_layers ?s rest = Inr s'" "budget_num s' = budget_num s @ [[(l, head_budgets m)] @ map (\<lambda>(l, m). (l, head_budgets m)) rest]"
    "last_layer_id s' = (if rest = [] then int (Suc a) - 1 else int b - 1)" by auto
  moreover have "b = Suc a" if "rest = []" using arg_cong[OF l(2), of length] that assms(3) by simp
  ultimately show ?thesis using u ms by auto
qed

text \<open>Budget statistics. When every decode step records the layers \<open>start\<close> to \<open>n - 1\<close> in order, the statistics hold
  exactly one entry per step, with the number of selected tokens of every head for every layer of that step: steps are
  never merged or split, for any number of layers. The reported average of a step is the mean over the layers from
  2 on of the mean over the heads, so with at least one such layer, and a head in each, it is a number.\<close>

theorem budget_entry_per_step:
  assumes layers: "\<forall>st\<in>set steps. map fst st = [start..<n]" "start < n"
  shows "\<exists>s. record_steps budget_reset steps = Inr s
    \<and> budget_num s = map (map (\<lambda>(l, m). (l, head_budgets m))) steps
    \<and> (n > 2 \<and> (\<forall>st\<in>set steps. \<forall>(l, m)\<in>set st. m \<noteq> []) \<longrightarrow> None \<notin> set (get_avg_budget_per_query s))"
proof -
  have gen: "\<exists>s. record_steps s0 steps = Inr s \<and> budget_num s = budget_num s0 @ map (map (\<lambda>(l, m). (l, head_budgets m))) steps"
    if "last_layer_id s0 + 1 \<noteq> int start" for s0
    using that layers(1)
  proof (induction steps arbitrary: s0)
    case (Cons st steps)
    from record_layers_new[OF Cons.prems(1) _ layers(2)] Cons.prems(2) obtain s1 where
      s1: "record_layers s0 st = Inr s1" "budget_num s1 = budget_num s0 @ [map (\<lambda>(l, m). (l, head_budgets m)) st]" "last_layer_id s1 = int n - 1"
      by auto
    from Cons.IH[of s1] s1 Cons.prems(2) layers(2) show ?case by auto
  qed simp
  have "last_layer_id budget_reset + 1 \<noteq> int start" by (simp add: budget_reset_def)
  from gen[OF this] obtain s where s: "record_steps budget_reset steps = Inr s"
    "budget_num s = map (map (\<lambda>(l, m). (l, head_budgets m))) steps" by (auto simp: budget_reset_def)
  have "None \<notin> set (get_avg_budget_per_query s)" if big: "n > 2" "\<forall>st\<in>set steps. \<forall>(l, m)\<in>set st. m \<noteq> []"
  proof
    assume "None \<in> set (get_avg_budget_per_query s)"
    then obtain st where st: "st \<in> set steps"
      and bad: "mean_nan (map (layer_avg \<circ> snd) (filter (\<lambda>(l, x). l > 1) (map (\<lambda>(l, m). (l, head_budgets m)) st))) = None"
      unfolding get_avg_budget_per_query_def s(2) by auto
    have "layer_avg (head_budgets m) \<noteq> None" if "(l, m) \<in> set st" for l m
      using big(2) st that by (auto simp: layer_avg_def mean_def head_budgets_def)
    then have "None \<notin> set (map (layer_avg \<circ> snd) (filter (\<lambda>(l, x). l > 1) (map (\<lambda>(l, m). (l, head_budgets m)) st)))"
      by fastforce
    moreover have "n - 1 \<in> fst ` set st" using layers st big(1) by (metis Suc_pred' atLeastLessThan_iff gr0I less_Suc_eq_le less_nat_zero_code list.set_map not_less_eq set_upt zero_less_diff le_less_Suc_eq lessI)
    then have "filter (\<lambda>(l, x). l > 1) (map (\<lambda>(l, m). (l, head_budgets m)) st) \<noteq> []"
      using big(1) by (fastforce simp: filter_empty_conv)
    ultimately show False using bad by (simp add: mean_nan_def mean_def split: if_splits)
  qed
  then show ?thesis using s by blast
qed

theorem budget_entry_per_step_witness:
  "\<exists>s. record_steps budget_reset [[(2, [[True, False]]), (3, [[True, True]])], [(2, [[True, False]]), (3, [[False, True]])]] = Inr s
    \<and> budget_num s = [[(2, [1]), (3, [2])], [(2, [1]), (3, [1])]] \<and> None \<notin> set (get_avg_budget_per_query s)"
proof -
  let ?st = "[[(2, [[True, False]]), (3, [[True, True]])], [(2, [[True, False]]), (3, [[False, True]])]] :: (nat \<times> bool list list) list list"
  have "\<forall>st\<in>set ?st. map fst st = [2..<4]" "(2::nat) < 4" by (simp_all add: upt_rec)
  from budget_entry_per_step[OF this] show ?thesis by (auto simp: head_budgets_def)
qed

end
