(* ===== verification/RabitQ_NoCenter.thy ===== *)
theory RabitQ_NoCenter
  imports RabitQ_Run
begin

text \<open>
  \<open>rabitqcache/pyimpl/rabitq_no_center.py\<close>: the ablation that fixes both centroids to zero. Its state class overrides \<open>train\<close> only;
  its selector and its prefill hook in \<open>attention.py\<close> repeat those of \<open>rabitq.py\<close> on a global state of their own.
\<close>

section \<open>Operations\<close>

definition no_center_train :: "(nat \<Rightarrow> nat \<Rightarrow> mat) \<Rightarrow> rq_state \<Rightarrow> tensor4 \<Rightarrow> tensor4 \<Rightarrow> nat \<Rightarrow> rq_state" where
  "no_center_train qr s query_states key_states layer_id =
     (if is_trained s layer_id = None \<or> is_trained s layer_id = Some False then
        (let s1 = (if rotation_matrices s layer_id = None
                   then s\<lparr>rotation_matrices := (rotation_matrices s)(layer_id \<mapsto>
                            \<lparr>ten_dev = t_dev query_states, ten_dtype = Float32, ten_shape = [t_dim query_states, t_dim query_states],
                              ten_val = qr layer_id (t_dim query_states)\<rparr>)\<rparr>
                   else s);
             zeros = (\<lambda>dt v. \<lparr>ten_dev = t_dev query_states, ten_dtype = dt, ten_shape = [t_heads query_states, t_dim query_states], ten_val = v\<rparr>)
         in s1\<lparr>q_centroids := (q_centroids s1)(layer_id \<mapsto> zeros (t_dtype query_states) (\<lambda>h d. 0)),
               k_centroids := (k_centroids s1)(layer_id \<mapsto> zeros (t_dtype key_states) (\<lambda>h d. 0)),
               cq_dot_ck := (cq_dot_ck s1)(layer_id \<mapsto> \<lparr>ten_dev = t_dev query_states, ten_dtype = t_dtype query_states, ten_shape = [t_heads query_states], ten_val = (\<lambda>h. 0)\<rparr>),
               is_trained := (is_trained s1)(layer_id \<mapsto> True)\<rparr>)
      else s)"

definition get_rabitq_no_center_state :: "nat \<Rightarrow> rq_state option \<Rightarrow> rq_state" where
  "get_rabitq_no_center_state interval g = (case g of None \<Rightarrow> init_state interval | Some s \<Rightarrow> s)"

definition no_center_prefill ::
  "cast \<Rightarrow> (nat \<Rightarrow> nat \<Rightarrow> mat) \<Rightarrow> rq_state option \<Rightarrow> nat \<Rightarrow> tensor4 \<Rightarrow> tensor4 \<Rightarrow> nat \<Rightarrow> rq_state result option" where
  "no_center_prefill cast qr g layer_id query_states key_states_expanded quantize_interval' =
     (let rabitq_state = get_rabitq_no_center_state quantize_interval' g
      in quantize_initial_keys cast
           (if is_trained rabitq_state layer_id = None \<or> is_trained rabitq_state layer_id = Some False
            then no_center_train qr rabitq_state query_states key_states_expanded layer_id else rabitq_state)
           key_states_expanded layer_id)"

definition rabitq_no_center_selector ::
  "cast \<Rightarrow> sorter \<Rightarrow> rq_state option \<Rightarrow> nat \<Rightarrow> tensor4 \<Rightarrow> tensor4 \<Rightarrow> nat \<Rightarrow> real \<Rightarrow> (mask_rows \<times> rq_state) result option" where
  "rabitq_no_center_selector cast srt g layer_id query_states key_states quantize_interval' top_p =
     (let head_dim = t_dim query_states; seq_length = t_len key_states;
          rabitq_state = get_rabitq_no_center_state quantize_interval' g
      in if is_trained rabitq_state layer_id = None \<or> is_trained rabitq_state layer_id = Some False
         then Some (Inr (\<lambda>b h i. replicate seq_length True, rabitq_state))
         else (let mask = replicate (min quantize_interval' seq_length) True @ replicate (seq_length - quantize_interval') False
               in if seq_length \<le> quantize_interval' then Some (Inr (\<lambda>b h i. mask, rabitq_state))
         else (case quantize_new_decode_tokens cast rabitq_state key_states layer_id of
                 None \<Rightarrow> None
               | Some (Inl e) \<Rightarrow> Some (Inl e)
               | Some (Inr s1) \<Rightarrow>
           (let last_quantized_idx = (case num_quantized_tokens s1 layer_id of None \<Rightarrow> quantize_interval' | Some n \<Rightarrow> n);
                mask1 = (if last_quantized_idx < seq_length
                         then take last_quantized_idx mask @ replicate (seq_length - last_quantized_idx) True else mask);
                quantized_length = last_quantized_idx - quantize_interval'
            in if last_quantized_idx > quantize_interval'
               then (case distances cast s1 query_states layer_id quantized_length of
                       Inl e \<Rightarrow> Some (Inl e)
                     | Inr (None, s2) \<Rightarrow> Some (Inl TypeError)
                     | Inr (Some (B, HH, m, rows), s2) \<Rightarrow>
                        (if m = 0 then Some (Inl IndexError)
                         else if t_bs query_states < B \<or> t_heads query_states < HH then Some (Inl RuntimeError)
                         else if last_quantized_idx > seq_length then Some (Inl RuntimeError)
                         else Some (Inr (\<lambda>b h i.
                           set_slice mask1 quantize_interval'
                             (if B < t_bs query_states \<or> HH < t_heads query_states then replicate quantized_length False
                              else top_p_row srt top_p quantized_length
                                     (softmax (map (\<lambda>x. x / sqrt (real head_dim)) (rows b h i)))), s2))))
               else Some (Inr (\<lambda>b h i. mask1, s1))))))"

section \<open>The selector is the one of RaBitQ\<close>

theorem no_center_selector_agrees: "rabitq_no_center_selector = rabitq_selector"
  by (intro ext) (simp only: rabitq_no_center_selector_def rabitq_selector_def get_rabitq_no_center_state_def get_rabitq_state_def)

section \<open>A sequence\<close>

abbreviation zero_quant :: "cast \<Rightarrow> (nat \<Rightarrow> nat \<Rightarrow> mat) \<Rightarrow> sequence \<Rightarrow> nat \<Rightarrow> rq_state \<Rightarrow> bool" where
  "zero_quant cast qr sq hi s \<equiv> quant_inv cast (sq_dtype sq) (sq_bs sq, sq_heads sq) (sq_dim sq) (sq_rot cast qr sq) (\<lambda>h d. 0) (\<lambda>h d. 0) (\<lambda>h. 0)
     (sq_keys sq) (sq_interval sq) hi s (sq_layer sq)"

lemma no_center_prefill_returns:
  assumes ok: "sequence_ok cast qr sq" and long: "sq_interval sq < sq_prompt sq"
  shows "\<exists>s. no_center_prefill cast qr None (sq_layer sq) (sq_queries sq) (key_cache sq dev (sq_prompt sq)) (sq_interval sq) = Some (Inr s) \<and>
    zero_quant cast qr sq (sq_prompt sq) s \<and> num_quantized_tokens s (sq_layer sq) = Some (sq_prompt sq) \<and>
    quantize_interval s = sq_interval sq \<and> is_trained s (sq_layer sq) = Some True"
proof -
  let ?l = "sq_layer sq" and ?i = "sq_interval sq" and ?k = "key_cache sq dev (sq_prompt sq)"
  define s0 where "s0 = no_center_train qr (init_state ?i) (sq_queries sq) ?k ?l"
  have i: "0 < ?i" "cast_spec cast" "\<And>i j. cast Float32 (qr ?l (sq_dim sq) i j) = qr ?l (sq_dim sq) i j"
    using ok by (auto simp: sequence_ok_def)
  have s0: "is_trained s0 ?l = Some True" "quantize_interval s0 = ?i" "quantized_data s0 = Map.empty" "num_quantized_tokens s0 = Map.empty"
    by (simp_all add: s0_def no_center_train_def init_state_def Let_def)
  have "layer_has cast (sq_dtype sq) (sq_bs sq, sq_heads sq) (sq_dim sq) (sq_rot cast qr sq) (\<lambda>h d. 0) (\<lambda>h d. 0) (\<lambda>h. 0) s0 ?l"
    using same_shape_key_cache[OF ok, of dev] i(3)
    by (simp add: s0_def no_center_train_def init_state_def Let_def layer_has_def representable_def to_dtype_def sq_rot_def)
  then have "zero_quant cast qr sq ?i s0" using s0(3,4) by (simp add: quant_inv_def)
  then obtain s where "initial_loop cast s0 ?k ?l ?i = Some (Inr s)" "zero_quant cast qr sq (sq_prompt sq) s"
    "num_quantized_tokens s ?l = Some (sq_prompt sq)" "quantize_interval s = ?i" "is_trained s = is_trained s0"
    using initial_loop_inv[OF i(2), of ?k "(sq_bs sq, sq_heads sq)" "sq_dim sq" "sq_dtype sq" "sq_keys sq" "sq_rot cast qr sq" "\<lambda>h d. 0" "\<lambda>h d. 0" "\<lambda>h. 0" ?i ?i s0 ?l] long s0(2) i(1)
    by auto
  moreover have "no_center_prefill cast qr None ?l (sq_queries sq) ?k ?i = initial_loop cast s0 ?k ?l ?i"
    using s0(2) by (simp add: no_center_prefill_def get_rabitq_no_center_state_def init_state_def quantize_initial_keys_def s0_def Let_def)
  ultimately show ?thesis using s0(1) by simp
qed

text \<open>A sequence of decode steps with a growing cache.\<close>

inductive no_center_run :: "cast \<Rightarrow> sorter \<Rightarrow> (nat \<Rightarrow> nat \<Rightarrow> mat) \<Rightarrow> sequence \<Rightarrow> nat \<Rightarrow> rq_state \<Rightarrow> bool" for cast srt qr sq where
  prefill: "no_center_prefill cast qr None (sq_layer sq) (sq_queries sq) (key_cache sq dev (sq_prompt sq)) (sq_interval sq) = Some (Inr s) \<Longrightarrow>
     no_center_run cast srt qr sq (sq_prompt sq) s"
| decode: "no_center_run cast srt qr sq n s \<Longrightarrow> n \<le> n' \<Longrightarrow> query_ok sq q \<Longrightarrow>
     rabitq_no_center_selector cast srt (Some s) (sq_layer sq) q (key_cache sq dev n') (sq_interval sq) p = Some (Inr (msk, s')) \<Longrightarrow>
     no_center_run cast srt qr sq n' s'"

lemma no_center_step:
  assumes "sequence_ok cast qr sq" "zero_quant cast qr sq hi s" "num_quantized_tokens s (sq_layer sq) = Some hi" "sq_interval sq < hi" "hi \<le> n'"
    "quantize_interval s = sq_interval sq" "is_trained s (sq_layer sq) = Some True" "query_ok sq q"
  shows "\<exists>s' hi'. rabitq_no_center_selector cast srt (Some s) (sq_layer sq) q (key_cache sq dev n') (sq_interval sq) p =
      Some (Inr (\<lambda>b h r. expected_row srt p (sq_dim sq) (sq_interval sq) hi' n'
         (\<lambda>t. est_score (sq_dim sq) (sq_rot cast qr sq) (\<lambda>d. 0) (\<lambda>d. 0) 0 (t_at q b h r) (sq_keys sq b h t)), s')) \<and>
    zero_quant cast qr sq hi' s' \<and> num_quantized_tokens s' (sq_layer sq) = Some hi' \<and> hi \<le> hi' \<and> hi' \<le> n' \<and> n' < hi' + sq_interval sq \<and>
    quantize_interval s' = sq_interval sq \<and> is_trained s' (sq_layer sq) = Some True"
proof -
  have i: "0 < sq_interval sq" "cast_spec cast" using assms(1) by (auto simp: sequence_ok_def)
  show ?thesis
    using selector_step[OF i(2) assms(2,7,6) i(1) assms(3,4), of "key_cache sq dev n'" q srt p] assms(5,7,8) quantized_upto_bounds[OF i(1) assms(5)]
    by (auto simp: no_center_selector_agrees query_ok_def)
qed

lemma no_center_run_quant:
  "no_center_run cast srt qr sq n s \<Longrightarrow> sequence_ok cast qr sq \<Longrightarrow> sq_interval sq < sq_prompt sq \<Longrightarrow>
   \<exists>hi. zero_quant cast qr sq hi s \<and> num_quantized_tokens s (sq_layer sq) = Some hi \<and> sq_interval sq < hi \<and> hi \<le> n \<and>
     quantize_interval s = sq_interval sq \<and> is_trained s (sq_layer sq) = Some True"
proof (induction rule: no_center_run.induct)
  case (prefill dev s)
  then show ?case using no_center_prefill_returns[of cast qr sq dev] by auto
next
  case (decode n s n' q dev p msk s')
  then obtain hi where hi: "zero_quant cast qr sq hi s" "num_quantized_tokens s (sq_layer sq) = Some hi" "sq_interval sq < hi" "hi \<le> n'"
    "quantize_interval s = sq_interval sq" "is_trained s (sq_layer sq) = Some True" by auto
  from no_center_step[OF decode.prems(1) hi decode.hyps(3), of srt dev p] decode.hyps(4) hi(3) show ?case by auto
qed

text \<open>Without centring, too, every decode step of a sequence whose prompt is longer than the interval returns a mask: the first interval and the tokens after the last
  quantized one are selected, and of those between the top-p rule on estimates that use the keys themselves, not their distance to a centroid.\<close>

theorem no_center_decode_mask:
  assumes "no_center_run cast srt qr sq n s" "sequence_ok cast qr sq" "sq_interval sq < sq_prompt sq" "n \<le> n'" "query_ok sq q"
  shows "\<exists>s' hi. rabitq_no_center_selector cast srt (Some s) (sq_layer sq) q (key_cache sq dev n') (sq_interval sq) p =
      Some (Inr (\<lambda>b h r. expected_row srt p (sq_dim sq) (sq_interval sq) hi n'
         (\<lambda>t. est_score (sq_dim sq) (sq_rot cast qr sq) (\<lambda>d. 0) (\<lambda>d. 0) 0 (t_at q b h r) (sq_keys sq b h t)), s')) \<and>
    no_center_run cast srt qr sq n' s' \<and> hi \<le> n' \<and> n' < hi + sq_interval sq"
proof -
  obtain hi where hi: "zero_quant cast qr sq hi s" "num_quantized_tokens s (sq_layer sq) = Some hi" "sq_interval sq < hi" "hi \<le> n'"
    "quantize_interval s = sq_interval sq" "is_trained s (sq_layer sq) = Some True"
    using no_center_run_quant[OF assms(1-3)] assms(4) by auto
  from no_center_step[OF assms(2) hi assms(5), of srt dev p] show ?thesis using no_center_run.decode[OF assms(1,4,5)] by blast
qed

end
