(* ===== verification/Decode_Attention.thy ===== *)
theory Decode_Attention
  imports Estimators Budget_Info RabitQ_NoCenter
begin

text \<open>
  The decode stage of \<open>attention_forward\<close> in \<open>rabitqcache/pyimpl/attention.py\<close>: index selection, weight estimation,
  pruning, statistics and masking, composed as the code does, and the configuration of the sparse attention. The
  projections, the rotary embedding and the cache update before it and the output projection after it are calls into
  the model and are not part of the definitions.
\<close>

section \<open>Configuration and state\<close>

text \<open>\<open>IndexSelectorType\<close> with the arguments that \<open>selector_args\<close> holds for it.\<close>

datatype index_selector_type =
    S_NONE
  | STREAMING int int
  | QUEST nat int real
  | ORACLE_TOPK int
  | TIDAL_DECODE int "nat list"
  | SPARQ nat "int option" "real option"
  | DS nat nat int real
  | PQCACHE
  | RABITQ nat real
  | RABITQ_NO_CENTER nat real

datatype weight_estimator_type = E_NONE | MIN_MAX_QUANT nat | MAX_QUANT nat bool | E_THRESHOLD | H_THRESHOLD

datatype weight_pruner_type = P_NONE | P_THRESHOLD real | TOP_P real

text \<open>\<open>LocalState\<close>, together with the module-level RaBitQ states and the channels of DoubleSparsity.\<close>

record local_state =
  selector :: index_selector_type
  weight_estimator :: weight_estimator_type
  weight_pruner :: weight_pruner_type
  st_budget_info :: "budget_info option"
  st_score_info :: "score_info option"
  use_estimated_weights_in_attn :: bool
  skip_first_two_layers :: bool
  td_mask_buffer :: "mask_rows option"
  rabitq_global :: "rq_state option"
  rabitq_nc_global :: "rq_state option"
  sorted_channel :: "nat \<Rightarrow> nat \<Rightarrow> nat list"

text \<open>Library code used: \<open>topk\<close>, \<open>sort\<close>, dtype conversion, \<open>finfo.min\<close>, and the CUDA kernel of the top-p pruner.\<close>

record lib =
  lib_topk :: topk_op
  lib_sort :: sorter
  lib_cast :: cast
  lib_fmin :: real
  lib_top_p :: "real \<Rightarrow> real list \<Rightarrow> bool list"

section \<open>Selection\<close>

datatype mask_value = Mask mask_rows | Pair_mask mask_rows | Unbound_mask

text \<open>
  What the variable \<open>mask\<close> holds after the selection: a mask, the pair that one selector returns, or nothing, since a selector without a branch leaves it
  unbound. Every use of it (\<open>~mask\<close>, \<open>mask & m\<close>, \<open>torch.sum(mask)\<close>) raises on a tuple and on an unbound variable.
\<close>

fun use_mask :: "mask_value \<Rightarrow> mask_rows result" where
  "use_mask (Mask m) = Inr m"
| "use_mask (Pair_mask _) = Inl TypeError"
| "use_mask Unbound_mask = Inl UnboundLocalError"

definition plain :: "local_state \<Rightarrow> mask_rows result \<Rightarrow> (mask_value \<times> local_state) result option" where
  "plain s r = Some (bindE r (\<lambda>m. Inr (Mask m, s)))"

definition index_select ::
  "lib \<Rightarrow> local_state \<Rightarrow> nat \<Rightarrow> tensor4 \<Rightarrow> tensor4 \<Rightarrow> score_rows \<Rightarrow> (mask_value \<times> local_state) result option" where
  "index_select L s layer_id query_states key_states attn_weights =
     (case selector s of
        S_NONE \<Rightarrow> plain s (Inr (\<lambda>b h i. replicate (fst attn_weights) True))
      | STREAMING token_budget num_sinks \<Rightarrow> plain s (Inr (streaming_selector attn_weights token_budget num_sinks))
      | QUEST chunk_size token_budget sparsity_rate \<Rightarrow>
          plain s (quest_selector (lib_topk L) (lib_fmin L) query_states key_states chunk_size token_budget sparsity_rate)
      | ORACLE_TOPK token_budget \<Rightarrow> plain s (oracle_topk_selector (lib_topk L) attn_weights token_budget)
      | TIDAL_DECODE token_budget reselection_layers \<Rightarrow>
          Some (bindE (tidal_decode_selector (lib_topk L) (td_mask_buffer s) attn_weights token_budget layer_id reselection_layers)
                  (\<lambda>((n, m), buf). Inr (Pair_mask m, s\<lparr>td_mask_buffer := buf\<rparr>)))
      | SPARQ r token_budget token_ratio \<Rightarrow> plain s (sparq_selector (lib_topk L) query_states key_states r token_budget token_ratio)
      | DS r quant_bit token_budget sparsity_rate \<Rightarrow>
          plain s (double_sparse_selector (lib_topk L) query_states key_states (sorted_channel s layer_id) r quant_bit token_budget sparsity_rate)
      | PQCACHE \<Rightarrow> Some (Inr (Unbound_mask, s))
      | RABITQ quantize_interval' top_p \<Rightarrow>
          map_option (\<lambda>r. bindE r (\<lambda>(m, rq). Inr (Mask m, s\<lparr>rabitq_global := Some rq\<rparr>)))
            (rabitq_selector (lib_cast L) (lib_sort L) (rabitq_global s) layer_id query_states key_states quantize_interval' top_p)
      | RABITQ_NO_CENTER quantize_interval' top_p \<Rightarrow>
          map_option (\<lambda>r. bindE r (\<lambda>(m, rq). Inr (Mask m, s\<lparr>rabitq_nc_global := Some rq\<rparr>)))
            (rabitq_no_center_selector (lib_cast L) (lib_sort L) (rabitq_nc_global s) layer_id query_states key_states quantize_interval' top_p))"

section \<open>Estimation, pruning, masking\<close>

definition attn_scores :: "tensor4 \<Rightarrow> tensor4 \<Rightarrow> score_rows" where
  "attn_scores q k = (t_len k, \<lambda>b h i. map (\<lambda>t. dot (t_dim q) (t_at q b h i) (t_at k b h t) / sqrt (real (t_dim q))) [0..<t_len k])"

text \<open>\<open>w[~mask] = finfo.min\<close>.\<close>

definition masked :: "real \<Rightarrow> mask_rows \<Rightarrow> score_rows \<Rightarrow> score_rows" where
  "masked fmin m w = (fst w, \<lambda>b h i. map2 (\<lambda>x keep. if keep then x else fmin) (snd w b h i) (m b h i))"

text \<open>\<open>None\<close>: the variable \<open>estimated_weights\<close> stays unbound.\<close>

definition estimate_weights :: "lib \<Rightarrow> local_state \<Rightarrow> mask_value \<Rightarrow> tensor4 \<Rightarrow> tensor4 \<Rightarrow> score_rows \<Rightarrow> score_rows option result" where
  "estimate_weights L s mv q k attn_weights =
     (case weight_estimator s of
        E_NONE \<Rightarrow> Inr (Some attn_weights)
      | MIN_MAX_QUANT quant_bit \<Rightarrow>
          bindE (use_mask mv) (\<lambda>m. Inr (Some (masked (lib_fmin L) m (attn_scores q (min_max_per_token_quant_kv k quant_bit)))))
      | MAX_QUANT quant_bit smooth_k \<Rightarrow>
          bindE (use_mask mv) (\<lambda>m. Inr (Some (masked (lib_fmin L) m (attn_scores q (max_per_token_quant_kv k quant_bit smooth_k)))))
      | E_THRESHOLD \<Rightarrow> Inr None
      | H_THRESHOLD \<Rightarrow> Inr None)"

definition bound :: "'a option \<Rightarrow> 'a result" where
  "bound x = (case x of None \<Rightarrow> Inl UnboundLocalError | Some v \<Rightarrow> Inr v)"

definition top_p_unnormalized :: "lib \<Rightarrow> score_rows \<Rightarrow> real \<Rightarrow> mask_rows" where
  "top_p_unnormalized L w threshold = (\<lambda>b h i. lib_top_p L threshold (softmax (snd w b h i)))"

definition mask_and :: "mask_rows \<Rightarrow> mask_rows \<Rightarrow> mask_rows" where
  "mask_and m1 m2 = (\<lambda>b h i. map2 (\<and>) (m1 b h i) (m2 b h i))"

definition prune_mask :: "lib \<Rightarrow> local_state \<Rightarrow> mask_value \<Rightarrow> score_rows option \<Rightarrow> mask_value result" where
  "prune_mask L s mv estimated_weights =
     (case weight_pruner s of
        P_NONE \<Rightarrow> Inr mv
      | P_THRESHOLD threshold \<Rightarrow>
          bindE (bound estimated_weights) (\<lambda>w. bindE (use_mask mv) (\<lambda>m. Inr (Mask (mask_and m (elementwise_threshold w threshold)))))
      | TOP_P threshold \<Rightarrow>
          bindE (bound estimated_weights) (\<lambda>w. bindE (use_mask mv) (\<lambda>m. Inr (Mask (mask_and m (top_p_unnormalized L w threshold))))))"

text \<open>All rows of a mask, batch entries and heads in order.\<close>

definition all_rows :: "tensor4 \<Rightarrow> (nat \<Rightarrow> nat \<Rightarrow> nat \<Rightarrow> 'a) \<Rightarrow> 'a list" where
  "all_rows q f = concat (map (\<lambda>b. concat (map (\<lambda>h. map (f b h) [0..<t_len q]) [0..<t_heads q])) [0..<t_bs q])"

definition record_stats :: "local_state \<Rightarrow> nat \<Rightarrow> mask_value \<Rightarrow> tensor4 \<Rightarrow> score_rows \<Rightarrow> local_state result" where
  "record_stats s layer_id mv q attn_weights =
     bindE (case st_budget_info s of
              None \<Rightarrow> Inr s
            | Some bi \<Rightarrow> bindE (use_mask mv) (\<lambda>m. bindE (budget_update bi layer_id (all_rows q m)) (\<lambda>bi'. Inr (s\<lparr>st_budget_info := Some bi'\<rparr>))))
       (\<lambda>s1. case st_score_info s1 of
               None \<Rightarrow> Inr s1
             | Some si \<Rightarrow> bindE (use_mask mv) (\<lambda>m.
                 bindE (score_update si layer_id (zip (all_rows q (snd attn_weights)) (all_rows q m)))
                   (\<lambda>si'. Inr (s1\<lparr>st_score_info := Some si'\<rparr>))))"

text \<open>The weights that enter the softmax.\<close>

definition decode_weights :: "lib \<Rightarrow> local_state \<Rightarrow> nat \<Rightarrow> tensor4 \<Rightarrow> tensor4 \<Rightarrow> (score_rows \<times> local_state) result option" where
  "decode_weights L s layer_id q k =
     (let attn_weights = attn_scores q k; start_layer = (if skip_first_two_layers s then 2 else 0)
      in if layer_id < start_layer then Some (Inr (attn_weights, s))
         else map_option (\<lambda>r. bindE r (\<lambda>(mv, s1).
                bindE (estimate_weights L s1 mv q k attn_weights) (\<lambda>est.
                bindE (prune_mask L s1 mv est) (\<lambda>mv'.
                bindE (record_stats s1 layer_id mv' q attn_weights) (\<lambda>s2.
                bindE (if use_estimated_weights_in_attn s2 then bound est else Inr attn_weights) (\<lambda>w.
                bindE (use_mask mv') (\<lambda>m. Inr (masked (lib_fmin L) m w, s2))))))))
              (index_select L s layer_id q k attn_weights))"

definition attn_output :: "score_rows \<Rightarrow> tensor4 \<Rightarrow> nat \<Rightarrow> nat \<Rightarrow> nat \<Rightarrow> nat \<Rightarrow> real" where
  "attn_output w v b h i d = (\<Sum>t<t_len v. softmax (snd w b h i) ! t * t_at v b h t d)"

definition decode_attention ::
  "lib \<Rightarrow> local_state \<Rightarrow> nat \<Rightarrow> tensor4 \<Rightarrow> tensor4 \<Rightarrow> tensor4 \<Rightarrow> ((nat \<Rightarrow> nat \<Rightarrow> nat \<Rightarrow> nat \<Rightarrow> real) \<times> local_state) result option" where
  "decode_attention L s layer_id q k v =
     map_option (\<lambda>r. bindE r (\<lambda>(w, s'). Inr (attn_output w v, s'))) (decode_weights L s layer_id q k)"

section \<open>The contract of an index selector\<close>

text \<open>A selector hands back one row per batch entry, head and query with an entry for every cached token; that is all
  the masking relies on.\<close>

locale index_selector =
  fixes select :: "'a \<Rightarrow> (mask_rows \<times> 'a) result option" and tokens :: nat
  assumes mask_shape: "select s = Some (Inr (m, s')) \<Longrightarrow> length (m b h i) = tokens"
begin

lemma masked_length: "select s = Some (Inr (m, s')) \<Longrightarrow> length (snd w b h i) = tokens \<Longrightarrow> length (snd (masked fmin m w) b h i) = tokens"
  using mask_shape by (simp add: masked_def)

lemma masked_nth:
  "select s = Some (Inr (m, s')) \<Longrightarrow> length (snd w b h i) = tokens \<Longrightarrow> t < tokens
   \<Longrightarrow> snd (masked fmin m w) b h i ! t = (if m b h i ! t then snd w b h i ! t else fmin)"
  using mask_shape by (simp add: masked_def)

end

definition stateless :: "mask_rows result \<Rightarrow> unit \<Rightarrow> (mask_rows \<times> unit) result option" where
  "stateless r u = Some (bindE r (\<lambda>m. Inr (m, ())))"

lemma stateless_shape:
  assumes "\<And>m b h i. r = Inr m \<Longrightarrow> length (m b h i) = n"
  shows "index_selector (stateless r) n"
  using assms by unfold_locales (auto simp: stateless_def result_simps)

lemma top_k_shape: "top_k tk w tb = Inr m \<Longrightarrow> length (m b h i) = fst w"
  by (auto simp: top_k_def Let_def split: if_splits)

interpretation streaming: index_selector "stateless (Inr (streaming_selector w token_budget num_sinks))" "fst w" for w token_budget num_sinks
  by (rule stateless_shape) (auto simp: streaming_selector_def Let_def)

interpretation topk: index_selector "stateless (oracle_topk_selector tk w token_budget)" "fst w" for tk w token_budget
  by (rule stateless_shape) (simp add: oracle_topk_selector_def top_k_shape)

lemma quest_shape: "quest_selector tk fmin q k c tb rate = Inr m \<Longrightarrow> length (m b h i) = t_len k"
  using padded_len_chunks(2)[of c "t_len k"] by (auto simp: quest_selector_def Let_def split: if_splits)

interpretation quest: index_selector "stateless (quest_selector tk fmin q k c tb rate)" "t_len k" for tk fmin q k c tb rate
  by (rule stateless_shape) (rule quest_shape)

lemma sparq_shape: "sparq_selector tk q k r tb ratio = Inr m \<Longrightarrow> length (m b h i) = t_len k"
  by (auto simp: sparq_selector_def sparq_def result_simps split: if_splits option.splits dest!: top_k_shape[where b = b and h = h and i = i])

interpretation sparq: index_selector "stateless (sparq_selector tk q k r tb ratio)" "t_len k" for tk q k r tb ratio
  by (rule stateless_shape) (rule sparq_shape)

lemma double_sparse_shape: "double_sparse_selector tk q k ch r qb tb rate = Inr m \<Longrightarrow> length (m b h i) = t_len k"
  by (auto simp: double_sparse_selector_def double_sparse_def Let_def dest!: top_k_shape[where b = b and h = h and i = i])

interpretation double_sparse: index_selector "stateless (double_sparse_selector tk q k ch r qb tb rate)" "t_len k" for tk q k ch r qb tb rate
  by (rule stateless_shape) (rule double_sparse_shape)

lemma length_top_p_mask [simp]: "length (top_p_row srt top_p n probs) = n"
  by (simp add: top_p_row_def Let_def split_beta)

lemma rabitq_shape:
  assumes "rabitq_selector cast srt g layer_id q k interval top_p = Some (Inr (m, s'))"
  shows "length (m b h i) = t_len k"
  using assms unfolding rabitq_selector_def Let_def
  by (auto simp: set_slice_def split: if_splits option.splits sum.splits prod.splits)

interpretation rabitq: index_selector "\<lambda>g. map_option (map_sum id (\<lambda>(m, s). (m, Some s))) (rabitq_selector cast srt g layer_id q k interval top_p)" "t_len k"
  for cast srt layer_id q k interval top_p
proof
  fix s m s' b h i
  assume "map_option (map_sum id (\<lambda>(m, s). (m, Some s))) (rabitq_selector cast srt s layer_id q k interval top_p) = Some (Inr (m, s'))"
  then obtain z where z: "rabitq_selector cast srt s layer_id q k interval top_p = Some z" "map_sum id (\<lambda>(m, s). (m, Some s)) z = Inr (m, s')"
    by auto
  then obtain s0 where "rabitq_selector cast srt s layer_id q k interval top_p = Some (Inr (m, s0))" by (cases z) auto
  then show "length (m b h i) = t_len k" by (rule rabitq_shape)
qed

text \<open>All selectors that return a mask.\<close>

lemma index_select_shape:
  assumes "index_select L s layer_id q k (attn_scores q k) = Some (Inr (Mask m, s'))"
  shows "length (m b h i) = t_len k"
proof -
  have n: "fst (attn_scores q k) = t_len k" by (simp add: attn_scores_def)
  have st: "length (m b h i) = t_len k" if "plain s r = Some (Inr (Mask m, s'))" "\<And>m'. r = Inr m' \<Longrightarrow> length (m' b h i) = t_len k" for r
    using that by (auto simp: plain_def result_simps)
  show ?thesis
  proof (cases "selector s")
    case S_NONE
    then show ?thesis using assms n by (auto simp: index_select_def plain_def)
  next
    case (STREAMING tb sinks)
    then show ?thesis using assms n streaming.mask_shape[of "attn_scores q k" tb sinks "()" m "()" b h i]
      by (simp add: index_select_def plain_def stateless_def)
  next
    case (QUEST c tb rate)
    then show ?thesis using assms quest_shape by (intro st) (auto simp: index_select_def)
  next
    case (ORACLE_TOPK tb)
    then show ?thesis using assms topk.mask_shape[of "lib_topk L" "attn_scores q k" tb "()" m "()" b h i] n
      by (auto simp: index_select_def plain_def stateless_def result_simps)
  next
    case (SPARQ r tb ratio)
    then show ?thesis using assms sparq_shape by (intro st) (auto simp: index_select_def)
  next
    case (DS r qb tb rate)
    then show ?thesis using assms double_sparse_shape by (intro st) (auto simp: index_select_def)
  next
    case (RABITQ iv top_p)
    then show ?thesis using assms rabitq_shape by (auto simp: index_select_def result_simps)
  next
    case (RABITQ_NO_CENTER iv top_p)
    then show ?thesis using assms rabitq_shape by (auto simp: index_select_def no_center_selector_agrees result_simps)
  qed (use assms in \<open>auto simp: index_select_def result_simps\<close>)
qed

lemma use_mask_Inr: "use_mask mv = Inr m \<longleftrightarrow> mv = Mask m"
  by (cases mv) auto

lemma estimate_shape:
  assumes "estimate_weights L s mv q k (attn_scores q k) = Inr (Some w)" "\<And>m. mv = Mask m \<Longrightarrow> length (m b h i) = t_len k"
  shows "length (snd w b h i) = t_len k" "fst w = t_len k"
  using assms
  by (auto simp: estimate_weights_def attn_scores_def masked_def result_simps use_mask_Inr min_max_per_token_quant_kv_def
      max_per_token_quant_kv_def smooth_kv_def Let_def split: weight_estimator_type.splits)

lemma prune_shape:
  assumes "prune_mask L s mv est = Inr (Mask m)" "\<And>m. mv = Mask m \<Longrightarrow> length (m b h i) = n" "\<And>w. est = Some w \<Longrightarrow> length (snd w b h i) = n"
    and "\<And>th p. length (lib_top_p L th p) = length p"
  shows "length (m b h i) = n"
  using assms
  by (auto simp: prune_mask_def bound_def mask_and_def elementwise_threshold_def top_p_unnormalized_def result_simps use_mask_Inr
      split: weight_pruner_type.splits option.splits)

lemma decode_weights_Inr:
  assumes d: "decode_weights L s layer_id q k = Some (Inr (w, s'))" and l: "layer_id \<ge> (if skip_first_two_layers s then 2 else 0)"
  obtains mv s1 est m base where "index_select L s layer_id q k (attn_scores q k) = Some (Inr (mv, s1))"
    "estimate_weights L s1 mv q k (attn_scores q k) = Inr est" "prune_mask L s1 mv est = Inr (Mask m)"
    "record_stats s1 layer_id (Mask m) q (attn_scores q k) = Inr s'"
    "(if use_estimated_weights_in_attn s' then bound est else Inr (attn_scores q k)) = Inr base" "w = masked (lib_fmin L) m base"
proof -
  have "\<not> layer_id < (if skip_first_two_layers s then 2 else 0)" using l by simp
  then obtain r where r: "index_select L s layer_id q k (attn_scores q k) = Some r"
    "bindE r (\<lambda>(mv, s1). bindE (estimate_weights L s1 mv q k (attn_scores q k)) (\<lambda>est. bindE (prune_mask L s1 mv est) (\<lambda>mv'.
        bindE (record_stats s1 layer_id mv' q (attn_scores q k)) (\<lambda>s2.
        bindE (if use_estimated_weights_in_attn s2 then bound est else Inr (attn_scores q k)) (\<lambda>w.
        bindE (use_mask mv') (\<lambda>m. Inr (masked (lib_fmin L) m w, s2))))))) = Inr (w, s')"
    using d unfolding decode_weights_def Let_def by auto
  then show thesis using that by (auto simp: result_simps use_mask_Inr)
qed

text \<open>Only a mask survives the pruner and the masking, and the pruner only removes tokens from it.\<close>

lemma prune_Mask:
  assumes "prune_mask L s mv est = Inr (Mask m)"
  obtains m0 where "mv = Mask m0"
  using assms by (auto simp: prune_mask_def result_simps use_mask_Inr split: weight_pruner_type.splits)

lemma prune_subset:
  assumes "prune_mask L s (Mask m0) est = Inr (Mask m)" "m b h i ! t" "t < length (m b h i)"
    and "\<And>w. est = Some w \<Longrightarrow> length (snd w b h i) = length (m0 b h i)" "\<And>th p. length (lib_top_p L th p) = length p"
  shows "m0 b h i ! t"
  using assms by (auto simp: prune_mask_def bound_def mask_and_def result_simps split: weight_pruner_type.splits option.splits)

lemma index_select_keeps:
  assumes "index_select L s layer_id q k a = Some (Inr (mv, s1))"
  shows "weight_estimator s1 = weight_estimator s" "weight_pruner s1 = weight_pruner s" "use_estimated_weights_in_attn s1 = use_estimated_weights_in_attn s"
  using assms by (auto simp: index_select_def plain_def result_simps split: index_selector_type.splits)

section \<open>Properties\<close>

text \<open>C31. What the decode stage attends to. Whenever a layer that is not skipped finishes (with any selector, estimator
  and pruner; the top-p kernel returns a mask of the shape of its input), the selector returned a mask with exactly one entry per cached token in every row,
  the pruner made from it and the estimated weights the final mask, which selects no other tokens, and the tokens of the final mask keep their weight: the exact attention weight, or the estimated one if the
  configuration asks for estimated weights. All others get the smallest number of the dtype, hence at
  most the probability \<open>exp (fmin - w)\<close> for the weight \<open>w\<close> of any token of the mask.\<close>

theorem decode_attends_to_selected:
  assumes d: "decode_weights L s layer_id q k = Some (Inr (w, s'))" and l: "layer_id \<ge> (if skip_first_two_layers s then 2 else 0)"
    and topp: "\<forall>th p. length (lib_top_p L th p) = length p"
  shows "\<exists>m0 s1 est m. index_select L s layer_id q k (attn_scores q k) = Some (Inr (Mask m0, s1))
    \<and> estimate_weights L s1 (Mask m0) q k (attn_scores q k) = Inr est \<and> prune_mask L s1 (Mask m0) est = Inr (Mask m)
    \<and> (use_estimated_weights_in_attn s' \<longrightarrow> est \<noteq> None) \<and> fst w = t_len k
    \<and> (\<forall>b h i. length (m0 b h i) = t_len k \<and> length (m b h i) = t_len k \<and> length (snd w b h i) = t_len k
       \<and> (\<forall>t<t_len k. m b h i ! t \<longrightarrow> m0 b h i ! t)
       \<and> (\<forall>t<t_len k. snd w b h i ! t =
            (if \<not> m b h i ! t then lib_fmin L else if use_estimated_weights_in_attn s' then snd (the est) b h i ! t
             else dot (t_dim q) (t_at q b h i) (t_at k b h t) / sqrt (real (t_dim q))))
       \<and> (\<forall>t<t_len k. \<forall>t'<t_len k. \<not> m b h i ! t \<longrightarrow> m b h i ! t' \<longrightarrow>
            softmax (snd w b h i) ! t \<le> exp (lib_fmin L - snd w b h i ! t')))"
proof -
  obtain mv s1 est m base where a: "index_select L s layer_id q k (attn_scores q k) = Some (Inr (mv, s1))"
    "estimate_weights L s1 mv q k (attn_scores q k) = Inr est" "prune_mask L s1 mv est = Inr (Mask m)"
    "record_stats s1 layer_id (Mask m) q (attn_scores q k) = Inr s'"
    "(if use_estimated_weights_in_attn s' then bound est else Inr (attn_scores q k)) = Inr base" "w = masked (lib_fmin L) m base"
    by (rule decode_weights_Inr[OF d l])
  obtain m0 where m0: "mv = Mask m0" by (rule prune_Mask[OF a(3)])
  have l0: "length (m0 b h i) = t_len k" for b h i by (rule index_select_shape[OF a(1)[unfolded m0]])
  have est: "length (snd w' b h i) = t_len k" "fst w' = t_len k" if "est = Some w'" for w' b h i
    using estimate_shape[of L s1 mv q k w'] a(2) that m0 l0 by auto
  have len: "length (m b h i) = t_len k" for b h i
    by (rule prune_shape[OF a(3)]) (use m0 l0 est topp in auto)
  have sub: "m0 b h i ! t" if "m b h i ! t" "t < t_len k" for b h i t
    by (rule prune_subset[OF a(3)[unfolded m0] that(1)]) (use that len l0 est topp in auto)
  have base: "base = (if use_estimated_weights_in_attn s' then the est else attn_scores q k)" "use_estimated_weights_in_attn s' \<longrightarrow> est \<noteq> None"
    using a(5) by (auto simp: bound_def split: if_splits option.splits)
  have bl: "length (snd base b h i) = t_len k" "fst base = t_len k" for b h i using base est by (auto simp: attn_scores_def)
  have row: "length (snd w b h i) = t_len k" "t < t_len k \<Longrightarrow> snd w b h i ! t = (if m b h i ! t then snd base b h i ! t else lib_fmin L)" for b h i t
    using len bl by (simp_all add: a(6) masked_def)
  have prob: "softmax (snd w b h i) ! t \<le> exp (lib_fmin L - snd w b h i ! t')"
    if t: "t < t_len k" "t' < t_len k" "\<not> m b h i ! t" for b h i t t'
  proof -
    let ?r = "snd w b h i"
    have "exp (?r ! t') \<le> (\<Sum>y\<leftarrow>?r. exp y)" using t(2) row(1)[of b h i] by (intro member_le_sum_list) (auto simp: image_iff)
    moreover have "softmax ?r ! t = exp (?r ! t) / (\<Sum>y\<leftarrow>?r. exp y)" using t(1) row(1) by (simp add: softmax_def)
    ultimately have "softmax ?r ! t \<le> exp (?r ! t) / exp (?r ! t')" by (simp add: frac_le)
    then show ?thesis using row(2)[OF t(1)] t(3) by (simp add: exp_diff)
  qed
  have exact: "snd base b h i ! t = (if use_estimated_weights_in_attn s' then snd (the est) b h i ! t
      else dot (t_dim q) (t_at q b h i) (t_at k b h t) / sqrt (real (t_dim q)))" if "t < t_len k" for b h i t
    using that base by (simp add: attn_scores_def)
  have rows: "length (m0 b h i) = t_len k \<and> length (m b h i) = t_len k \<and> length (snd w b h i) = t_len k
       \<and> (\<forall>t<t_len k. m b h i ! t \<longrightarrow> m0 b h i ! t)
       \<and> (\<forall>t<t_len k. snd w b h i ! t =
            (if \<not> m b h i ! t then lib_fmin L else if use_estimated_weights_in_attn s' then snd (the est) b h i ! t
             else dot (t_dim q) (t_at q b h i) (t_at k b h t) / sqrt (real (t_dim q))))
       \<and> (\<forall>t<t_len k. \<forall>t'<t_len k. \<not> m b h i ! t \<longrightarrow> m b h i ! t' \<longrightarrow>
            softmax (snd w b h i) ! t \<le> exp (lib_fmin L - snd w b h i ! t'))" for b h i
    by (intro conjI allI impI l0 len row(1) prob) (use sub row(2) exact in simp_all)
  show ?thesis
  proof (rule exI[of _ m0], rule exI[of _ s1], rule exI[of _ est], rule exI[of _ m], intro conjI)
    show "index_select L s layer_id q k (attn_scores q k) = Some (Inr (Mask m0, s1))" using a(1) m0 by simp
    show "estimate_weights L s1 (Mask m0) q k (attn_scores q k) = Inr est" "prune_mask L s1 (Mask m0) est = Inr (Mask m)" using a(2,3) m0 by simp_all
    show "use_estimated_weights_in_attn s' \<longrightarrow> est \<noteq> None" by (rule base(2))
    show "fst w = t_len k" using bl by (simp add: a(6) masked_def)
  qed (intro allI, rule rows)
qed

definition demo_lib :: lib where
  "demo_lib = \<lparr>lib_topk = topk_ref, lib_sort = sort_desc_ref, lib_cast = (\<lambda>_ x. x), lib_fmin = - 1000, lib_top_p = (\<lambda>_ p. map (\<lambda>_. True) p)\<rparr>"

definition demo_local :: "index_selector_type \<Rightarrow> local_state" where
  "demo_local sel = \<lparr>selector = sel, weight_estimator = E_NONE, weight_pruner = P_NONE, st_budget_info = None, st_score_info = None,
     use_estimated_weights_in_attn = False, skip_first_two_layers = True, td_mask_buffer = None, rabitq_global = None,
     rabitq_nc_global = None, sorted_channel = (\<lambda>_ _. [])\<rparr>"

theorem decode_attends_to_selected_witness:
  "\<exists>w s'. decode_weights demo_lib (demo_local (STREAMING 1 1)) 2 demo_query demo_keys = Some (Inr (w, s'))
    \<and> fst w = 5 \<and> (\<forall>b h i. length (snd w b h i) = 5)"
proof -
  let ?s = "demo_local (STREAMING 1 1)"
  obtain w where w: "decode_weights demo_lib ?s 2 demo_query demo_keys = Some (Inr (w, ?s))"
    by (rule that[of "masked (lib_fmin demo_lib) (streaming_selector (attn_scores demo_query demo_keys) 1 1) (attn_scores demo_query demo_keys)"])
      (simp add: decode_weights_def demo_local_def index_select_def plain_def estimate_weights_def prune_mask_def record_stats_def Let_def)
  have h: "(if skip_first_two_layers ?s then 2 else 0) \<le> (2::nat)" "\<forall>th p. length (lib_top_p demo_lib th p) = length p"
    "t_len demo_keys = 5" by (simp_all add: demo_local_def demo_lib_def demo_keys_def)
  from decode_attends_to_selected[OF w h(1,2)] have "fst w = 5" "\<forall>b h i. length (snd w b h i) = 5"
    unfolding h(3) by blast+
  then show ?thesis using w by (intro exI[of _ w] exI[of _ ?s]) simp
qed

text \<open>C33. Configurations that never work, for layers that are not skipped. With the TidalDecode selector no layer finishes, since
  the selector returns a pair where a mask is expected (\<open>TypeError\<close> in the plain configuration, at a reselection
  layer). PQCache can be configured but no branch handles it, so that \<open>mask\<close> is unbound and its first use raises, whatever the estimator and the pruner are. A threshold estimator
  leaves \<open>estimated_weights\<close> unbound: with a pruner, no layer finishes, and once the selector has returned \<open>UnboundLocalError\<close> is raised; without
  a pruner, too, if the configuration asks for estimated weights.\<close>

theorem unusable_configurations:
  assumes l: "layer_id \<ge> (if skip_first_two_layers s then 2 else 0)"
  shows "(selector s = TIDAL_DECODE tb ls \<longrightarrow> (\<exists>e. decode_weights L s layer_id q k = Some (Inl e)))
    \<and> (selector s = TIDAL_DECODE tb ls \<and> layer_id \<in> set ls \<and> tb \<ge> 0 \<and> weight_estimator s = E_NONE \<and> weight_pruner s = P_NONE
         \<longrightarrow> decode_weights L s layer_id q k = Some (Inl TypeError))
    \<and> (selector s = PQCACHE \<longrightarrow> decode_weights L s layer_id q k = Some (Inl UnboundLocalError))
    \<and> (weight_estimator s \<in> {E_THRESHOLD, H_THRESHOLD} \<and> (weight_pruner s \<noteq> P_NONE \<or> use_estimated_weights_in_attn s)
         \<longrightarrow> (\<forall>w s'. decode_weights L s layer_id q k \<noteq> Some (Inr (w, s'))))
    \<and> (weight_estimator s \<in> {E_THRESHOLD, H_THRESHOLD} \<and> weight_pruner s \<noteq> P_NONE \<and> index_select L s layer_id q k (attn_scores q k) = Some (Inr (mv, s1))
         \<longrightarrow> decode_weights L s layer_id q k = Some (Inl UnboundLocalError))"
proof (intro conjI impI)
  have nl: "\<not> layer_id < (if skip_first_two_layers s then 2 else 0)" using l by simp
  let ?a = "attn_scores q k"
  assume t: "selector s = TIDAL_DECODE tb ls"
  have "index_select L s layer_id q k ?a \<noteq> None" using t by (simp add: index_select_def)
  then obtain r where r: "decode_weights L s layer_id q k = Some r" using nl by (auto simp: decode_weights_def Let_def)
  moreover have "decode_weights L s layer_id q k \<noteq> Some (Inr (w, s'))" for w s'
  proof
    assume d: "decode_weights L s layer_id q k = Some (Inr (w, s'))"
    obtain mv s1 est m where a: "index_select L s layer_id q k ?a = Some (Inr (mv, s1))" "prune_mask L s1 mv est = Inr (Mask m)"
      by (rule decode_weights_Inr[OF d l])
    then have "\<exists>m'. mv = Pair_mask m'" using t by (auto simp: index_select_def result_simps)
    then show False using prune_Mask[OF a(2)] by auto
  qed
  ultimately show "\<exists>e. decode_weights L s layer_id q k = Some (Inl e)" by (cases r) auto
next
  assume a: "selector s = TIDAL_DECODE tb ls \<and> layer_id \<in> set ls \<and> tb \<ge> 0 \<and> weight_estimator s = E_NONE \<and> weight_pruner s = P_NONE"
  then obtain m where "top_k (lib_topk L) (attn_scores q k) tb = Inr m" using top_k_total by blast
  then show "decode_weights L s layer_id q k = Some (Inl TypeError)" using a l
    by (auto simp: decode_weights_def Let_def index_select_def tidal_decode_selector_def estimate_weights_def prune_mask_def
        record_stats_def bound_def split: option.splits)
next
  assume "selector s = PQCACHE"
  then show "decode_weights L s layer_id q k = Some (Inl UnboundLocalError)" using l
    by (auto simp: decode_weights_def Let_def index_select_def estimate_weights_def prune_mask_def record_stats_def bound_def
        split: option.splits weight_estimator_type.splits weight_pruner_type.splits)
next
  assume e: "weight_estimator s \<in> {E_THRESHOLD, H_THRESHOLD} \<and> (weight_pruner s \<noteq> P_NONE \<or> use_estimated_weights_in_attn s)"
  show "\<forall>w s'. decode_weights L s layer_id q k \<noteq> Some (Inr (w, s'))"
  proof (intro allI notI)
    fix w s'
    assume d: "decode_weights L s layer_id q k = Some (Inr (w, s'))"
    obtain mv s1 est m base where a: "index_select L s layer_id q k (attn_scores q k) = Some (Inr (mv, s1))"
      "estimate_weights L s1 mv q k (attn_scores q k) = Inr est" "prune_mask L s1 mv est = Inr (Mask m)"
      "record_stats s1 layer_id (Mask m) q (attn_scores q k) = Inr s'" "(if use_estimated_weights_in_attn s' then bound est else Inr (attn_scores q k)) = Inr base"
      by (rule decode_weights_Inr[OF d l])
    note keep = index_select_keeps[OF a(1)]
    have "est = None" using e a(2) keep(1) by (auto simp: estimate_weights_def)
    moreover have "use_estimated_weights_in_attn s' = use_estimated_weights_in_attn s"
      using a(4) keep(3) by (auto simp: record_stats_def result_simps split: option.splits)
    ultimately show False using e a(3,5) keep(2) by (auto simp: prune_mask_def bound_def split: weight_pruner_type.splits)
  qed
next
  assume e: "weight_estimator s \<in> {E_THRESHOLD, H_THRESHOLD} \<and> weight_pruner s \<noteq> P_NONE \<and> index_select L s layer_id q k (attn_scores q k) = Some (Inr (mv, s1))"
  then show "decode_weights L s layer_id q k = Some (Inl UnboundLocalError)" using l index_select_keeps[of L s layer_id q k "attn_scores q k" mv s1]
    by (auto simp: decode_weights_def Let_def estimate_weights_def prune_mask_def bound_def split: weight_pruner_type.splits)
qed

theorem unusable_configurations_witness:
  "decode_weights demo_lib (demo_local (TIDAL_DECODE 2 [2])) 2 demo_query demo_keys = Some (Inl TypeError)
    \<and> decode_weights demo_lib (demo_local PQCACHE) 2 demo_query demo_keys = Some (Inl UnboundLocalError)"
proof -
  have l: "(if skip_first_two_layers (demo_local x) then 2 else 0) \<le> (2::nat)" for x by (simp add: demo_local_def)
  show ?thesis using unusable_configurations[OF l, of "TIDAL_DECODE 2 [2]" 2 "[2]" demo_lib demo_query demo_keys]
      unusable_configurations[OF l, of PQCACHE 0 "[]" demo_lib demo_query demo_keys] by (simp add: demo_local_def)
qed

end
