(* ===== verification/Snap_KV.thy ===== *)
theory Snap_KV
  imports RQ_Prelude
begin

text \<open>
  \<open>rabitqcache/pyimpl/snap_kv.py\<close> and its use in \<open>attention.py\<close>: compression of the prompt's KV cache. The last tokens of the prompt (the window) vote with their attention
  weights for the tokens before them; the pooled votes choose what is kept beside the window.
\<close>

section \<open>Compression\<close>

datatype pooling = Avgpool | Maxpool | Other_pooling

text \<open>Attention weights of the window's row \<open>r\<close> of head \<open>h\<close>, with the causal mask inside the window; \<open>fmin\<close> is \<open>torch.finfo(dtype).min\<close>.\<close>

definition window_weights :: "real \<Rightarrow> nat \<Rightarrow> tensor4 \<Rightarrow> tensor4 \<Rightarrow> nat \<Rightarrow> nat \<Rightarrow> nat \<Rightarrow> real list" where
  "window_weights fmin window_size q k b h r =
     (let past = t_len q - window_size
      in softmax (map (\<lambda>t. dot (t_dim q) (t_at q b h (past + r)) (t_at k b h t) / sqrt (real (t_dim q))
                             + (if past \<le> t \<and> r < t - past then fmin else 0)) [0..<t_len k]))"

definition votes :: "real \<Rightarrow> nat \<Rightarrow> tensor4 \<Rightarrow> tensor4 \<Rightarrow> nat \<Rightarrow> nat \<Rightarrow> real list" where
  "votes fmin window_size q k b h =
     map (\<lambda>t. \<Sum>r\<leftarrow>[0..<window_size]. window_weights fmin window_size q k b h r ! t) [0..<t_len k - window_size]"

text \<open>\<open>avg_pool1d\<close> and \<open>max_pool1d\<close> with stride 1 and \<open>kernel_size // 2\<close> padding on both sides; the average counts the padding as zeros, the maximum ignores it.\<close>

definition pool_window :: "nat \<Rightarrow> real list \<Rightarrow> nat \<Rightarrow> real list" where
  "pool_window kernel_size xs i =
     map (\<lambda>j. xs ! (j - kernel_size div 2)) (filter (\<lambda>j. kernel_size div 2 \<le> j \<and> j < length xs + kernel_size div 2) [i..<i + kernel_size])"

definition pool1d :: "pooling \<Rightarrow> nat \<Rightarrow> real list \<Rightarrow> real list result" where
  "pool1d pooling kernel_size xs =
     (if pooling = Other_pooling then Inl ValueError
      else if kernel_size = 0 \<or> xs = [] then Inl RuntimeError
      else Inr (map (\<lambda>i. if pooling = Avgpool then sum_list (pool_window kernel_size xs i) / real kernel_size
                         else Max (set (pool_window kernel_size xs i)))
                  [0..<length xs + 2 * (kernel_size div 2) + 1 - kernel_size]))"

text \<open>
  A window that is empty or longer than the prompt makes the causal mask the wrong shape. The chosen indices may exceed the tokens before the window
  when the kernel size is even.
\<close>

definition snap_kv_compression ::
  "topk_op \<Rightarrow> real \<Rightarrow> tensor4 \<Rightarrow> tensor4 \<Rightarrow> tensor4 \<Rightarrow> nat \<Rightarrow> nat \<Rightarrow> nat \<Rightarrow> pooling \<Rightarrow> (tensor4 \<times> tensor4) result" where
  "snap_kv_compression tk fmin q k v window_size max_capacity_prompt kernel_size pooling =
     (if t_len k \<noteq> t_len q then Inl AssertionError
      else if t_len q < max_capacity_prompt then Inr (k, v)
      else if window_size = 0 \<or> t_len q < window_size then Inl RuntimeError
      else (let past = t_len q - window_size;
                pooled = (\<lambda>b h. pool1d pooling kernel_size (votes fmin window_size q k b h))
            in bindE (pooled 0 0) (\<lambda>first.
                 if max_capacity_prompt < window_size \<or> length first < max_capacity_prompt - window_size then Inl RuntimeError
                 else (let n = max_capacity_prompt - window_size;
                           indices = (\<lambda>b h. tk n (case pooled b h of Inl e \<Rightarrow> [] | Inr p \<Rightarrow> p));
                           compress = (\<lambda>x. x\<lparr>t_len := max_capacity_prompt,
                             t_at := (\<lambda>b h t. if t < n then t_at x b h (indices b h ! t) else t_at x b h (past + (t - n)))\<rparr>)
                       in if \<forall>b \<in> set [0..<t_bs k]. \<forall>h \<in> set [0..<t_heads k]. \<forall>j \<in> set (indices b h). j < past
                          then Inr (compress k, compress v) else Inl RuntimeError))))"

text \<open>
  The prefill stage of \<open>attention_forward\<close>: keys and values are repeated for the query heads of their group (by \<open>repeat_kv\<close> of the transformers library, a
  parameter), compressed, and the first head of each group is cached.
\<close>

definition every_head :: "nat \<Rightarrow> tensor4 \<Rightarrow> tensor4" where
  "every_head n x = x\<lparr>t_heads := (t_heads x + n - 1) div n, t_at := (\<lambda>b h. t_at x b (h * n))\<rparr>"

definition snap_prefill ::
  "topk_op \<Rightarrow> (tensor4 \<Rightarrow> nat \<Rightarrow> tensor4) \<Rightarrow> real \<Rightarrow> bool \<Rightarrow> bool \<Rightarrow> nat \<Rightarrow> nat \<Rightarrow> tensor4 \<Rightarrow> tensor4 \<Rightarrow> tensor4 \<Rightarrow> nat \<Rightarrow> nat \<Rightarrow> nat \<Rightarrow> pooling
   \<Rightarrow> (tensor4 \<times> tensor4) result" where
  "snap_prefill tk repeat_kv fmin snap_kv_active skip_first_two_layers layer_id groups q k v window_size max_capacity_prompt kernel_size pooling =
     (if snap_kv_active \<and> layer_id \<ge> (if skip_first_two_layers then 2 else 0)
      then bindE (snap_kv_compression tk fmin q (repeat_kv k groups) (repeat_kv v groups) window_size max_capacity_prompt kernel_size pooling)
             (\<lambda>(ck, cv). Inr (every_head groups ck, every_head groups cv))
      else Inr (k, v))"

section \<open>Properties\<close>

lemma length_votes [simp]: "length (votes fmin w q k b h) = t_len k - w"
  by (simp add: votes_def)

lemma pool1d_odd:
  assumes "odd kernel_size" "xs \<noteq> []" "pooling \<noteq> Other_pooling"
  shows "\<exists>ys. pool1d pooling kernel_size xs = Inr ys \<and> length ys = length xs"
proof -
  have "kernel_size = 2 * (kernel_size div 2) + 1" using assms(1) by (simp add: odd_two_times_div_two_succ)
  then have "length xs + 2 * (kernel_size div 2) + 1 - kernel_size = length xs" by linarith
  moreover have "kernel_size \<noteq> 0" using odd_pos[OF assms(1)] by simp
  ultimately show ?thesis using assms(2,3) by (simp add: pool1d_def)
qed

text \<open>For an odd kernel size and a window inside the capacity, compression of a long prompt returns the capacity many tokens of keys and values: the window
  unchanged at the end, and before it, without repetition, tokens before the window with pooled votes at least as large as those of every token dropped.\<close>

theorem snap_kv_keeps_best:
  assumes "topk_spec tk" "odd kernel_size" "pooling \<noteq> Other_pooling" "0 < w" "w \<le> cap" "cap \<le> t_len q" "w < t_len q" "t_len k = t_len q"
  shows "\<exists>ck cv idx. snap_kv_compression tk fmin q k v w cap kernel_size pooling = Inr (ck, cv) \<and> t_len ck = cap \<and> t_len cv = cap \<and>
    (\<forall>b h t. t < cap - w \<longrightarrow> t_at ck b h t = t_at k b h (idx b h ! t) \<and> t_at cv b h t = t_at v b h (idx b h ! t)) \<and>
    (\<forall>b h t. t < w \<longrightarrow> t_at ck b h (cap - w + t) = t_at k b h (t_len k - w + t) \<and> t_at cv b h (cap - w + t) = t_at v b h (t_len k - w + t)) \<and>
    (\<forall>b h. \<exists>ys. pool1d pooling kernel_size (votes fmin w q k b h) = Inr ys \<and> distinct (idx b h) \<and> length (idx b h) = cap - w \<and>
       set (idx b h) \<subseteq> {..<t_len k - w} \<and> (\<forall>i \<in> set (idx b h). \<forall>j<t_len k - w. j \<notin> set (idx b h) \<longrightarrow> ys ! j \<le> ys ! i))"
proof -
  have "votes fmin w q k b h \<noteq> []" for b h using assms(7,8) length_votes[of fmin w q k b h] by (metis list.size(3) not_less_zero zero_less_diff)
  then have "\<exists>ys. pool1d pooling kernel_size (votes fmin w q k b h) = Inr ys \<and> length ys = t_len k - w" for b h
    using pool1d_odd[OF assms(2) _ assms(3), of "votes fmin w q k b h"] by simp
  then obtain ys where ys: "\<And>b h. pool1d pooling kernel_size (votes fmin w q k b h) = Inr (ys b h)" "\<And>b h. length (ys b h) = t_len k - w" by metis
  let ?idx = "\<lambda>b h. tk (cap - w) (ys b h)"
  have len: "cap - w \<le> length (ys b h)" for b h using assms(6,8) ys(2) by simp
  have best: "distinct (?idx b h) \<and> length (?idx b h) = cap - w \<and> set (?idx b h) \<subseteq> {..<t_len k - w} \<and>
      (\<forall>i \<in> set (?idx b h). \<forall>j<t_len k - w. j \<notin> set (?idx b h) \<longrightarrow> ys b h ! j \<le> ys b h ! i)" for b h
    using assms(1)[unfolded topk_spec_def, THEN spec, THEN spec, THEN mp, OF len[of b h]] ys(2)[of b h] by simp
  let ?c = "\<lambda>x. x\<lparr>t_len := cap, t_at := (\<lambda>b h t. if t < cap - w then t_at x b h (?idx b h ! t) else t_at x b h (t_len q - w + (t - (cap - w))))\<rparr>"
  have "\<forall>j \<in> set (?idx b h). j < t_len q - w" for b h using best[of b h] assms(8) by auto
  moreover have "\<not> cap < w" "\<not> t_len q < w" "\<not> t_len q - w < cap - w" using assms(4-8) by linarith+
  ultimately have "snap_kv_compression tk fmin q k v w cap kernel_size pooling = Inr (?c k, ?c v)"
    using assms(4,6,8) ys by (simp add: snap_kv_compression_def Let_def)
  then show ?thesis using best ys(1) assms(8) by (intro exI[of _ "?c k"] exI[of _ "?c v"] exI[of _ ?idx]) simp
qed

end
