(* ===== verification/Backend_Quant.thy ===== *)
theory Backend_Quant
  imports Estimators RabitQ_Select "HOL-Library.Word"
begin

unbundle bit_operations_syntax

text \<open>
  Numerical part of the vLLM attention backend \<open>v1/attention/backends/rabitq.py\<close> with its Triton kernels
  \<open>rabitq_ops.py\<close> and the CUDA kernel \<open>csrc/rabitq_int4_binary.cu\<close>: quantization of keys (the torch code
  and the fused kernel), quantization of queries, packing of the codes into 32-bit integers, and the
  scores computed from packed codes. Machine integers keep their width; floating point is exact.
\<close>

type_synonym head_rows = "nat \<Rightarrow> nat \<Rightarrow> real" \<comment> \<open>head, dimension\<close>
type_synonym head_mats = "nat \<Rightarrow> mat"

text \<open>What is stored per quantized token; each field is indexed by the KV head.\<close>

record key_code =
  c_bits :: "nat \<Rightarrow> nat \<Rightarrow> nat"
  c_norm :: "nat \<Rightarrow> real"
  c_k_bar_dot_k :: "nat \<Rightarrow> real"
  c_sum_x_b :: "nat \<Rightarrow> real"
  c_cq_dot_kr :: "nat \<Rightarrow> real"

section \<open>Quantization of keys\<close>

text \<open>The torch code, for the key of one token.\<close>

definition quantize_key_torch ::
  "nat \<Rightarrow> head_mats \<Rightarrow> head_rows \<Rightarrow> head_rows \<Rightarrow> head_rows \<Rightarrow> key_code" where
  "quantize_key_torch D rotation_t centroid_k cq key =
     (let centered = (\<lambda>h d. key h d - centroid_k h d);
          norms = (\<lambda>h. max (sqrt (\<Sum>d<D. (centered h d)\<^sup>2)) (1 / 10 ^ 6));
          normalized = (\<lambda>h d. centered h d / norms h);
          rotated_inv = (\<lambda>h. vec_mat D (normalized h) (rotation_t h));
          bits = (\<lambda>h d. if rotated_inv h d \<ge> 0 then 1 else 0);
          x_bar = (\<lambda>h d. 2 * real (bits h d) - 1);
          rotated_normalized = (\<lambda>h. vec_mat D (normalized h) (rotation_t h))
      in \<lparr>c_bits = bits, c_norm = norms, c_k_bar_dot_k = (\<lambda>h. \<Sum>d<D. x_bar h d * rotated_normalized h d),
          c_sum_x_b = (\<lambda>h. \<Sum>d<D. real (bits h d)), c_cq_dot_kr = (\<lambda>h. dot D (key h) (cq h))\<rparr>)"

text \<open>
  A loop over blocks of \<open>BLOCK\<close> lanes, with the lanes beyond the dimension masked to 0.
\<close>

definition blocked_sum :: "nat \<Rightarrow> nat \<Rightarrow> (nat \<Rightarrow> 'a) \<Rightarrow> 'a::comm_monoid_add" where
  "blocked_sum BLOCK D f =
     (\<Sum>b<(D + BLOCK - 1) div BLOCK. \<Sum>lane<BLOCK. if b * BLOCK + lane < D then f (b * BLOCK + lane) else 0)"

text \<open>One program (token, head) of \<open>quantize_keys_fused_kernel\<close>, for every head.\<close>

definition quantize_keys_fused_kernel ::
  "nat \<Rightarrow> nat \<Rightarrow> head_mats \<Rightarrow> head_rows \<Rightarrow> head_rows \<Rightarrow> head_rows \<Rightarrow> key_code" where
  "quantize_keys_fused_kernel BLOCK_D D rotation_t centroid_k cq key =
     (let norm_sq = (\<lambda>h. blocked_sum BLOCK_D D (\<lambda>d. (key h d - centroid_k h d) * (key h d - centroid_k h d)));
          nrm = (\<lambda>h. sqrt (norm_sq h + 1 / 10 ^ 12));
          acc = (\<lambda>h out_d. blocked_sum BLOCK_D D (\<lambda>d. (key h d - centroid_k h d) / nrm h * rotation_t h out_d d));
          bits = (\<lambda>h out_d. if acc h out_d \<ge> 0 then 1 else 0);
          rotated_norm_val = (\<lambda>h out_d. \<Sum>in_d<D. (key h in_d - centroid_k h in_d) / nrm h * rotation_t h out_d in_d)
      in \<lparr>c_bits = bits, c_norm = nrm,
          c_k_bar_dot_k = (\<lambda>h. \<Sum>out_d<D. (2 * real (bits h out_d) - 1) * rotated_norm_val h out_d),
          c_sum_x_b = (\<lambda>h. \<Sum>out_d<D. real (bits h out_d)),
          c_cq_dot_kr = (\<lambda>h. blocked_sum BLOCK_D D (\<lambda>d. key h d * cq h d))\<rparr>)"

section \<open>Quantization of queries\<close>

record query_code =
  q_u :: "nat \<Rightarrow> nat \<Rightarrow> 8 word"
  q_Delta :: "nat \<Rightarrow> real"
  q_v_l :: "nat \<Rightarrow> real"
  q_sum :: "nat \<Rightarrow> real"
  q_norm :: "nat \<Rightarrow> real"
  q_qr_dot_ck :: "nat \<Rightarrow> real"

text \<open>The mean over the \<open>nq\<close> query heads that share KV head \<open>n\<close>.\<close>

definition group_mean :: "nat \<Rightarrow> (nat \<Rightarrow> real) \<Rightarrow> nat \<Rightarrow> real" where
  "group_mean nq f n = (\<Sum>g<nq. f (n * nq + g)) / real nq"

definition rotated_query :: "nat \<Rightarrow> nat \<Rightarrow> head_mats option \<Rightarrow> head_rows \<Rightarrow> head_rows \<Rightarrow> head_rows" where
  "rotated_query D nq rotation_t centroid_q query =
     (let centered = (\<lambda>h d. query h d - centroid_q h d);
          q_norms = (\<lambda>h. max (sqrt (\<Sum>d<D. (centered h d)\<^sup>2)) (1 / 10 ^ 6));
          normalized_kv = (\<lambda>n d. group_mean nq (\<lambda>h. centered h d / q_norms h) n)
      in (case rotation_t of
            None \<Rightarrow> normalized_kv
          | Some R \<Rightarrow> (\<lambda>n. vec_mat D (normalized_kv n) (R n))))"

definition query_preprocess ::
  "nat \<Rightarrow> nat \<Rightarrow> nat \<Rightarrow> head_mats option \<Rightarrow> head_rows \<Rightarrow> head_rows \<Rightarrow> head_rows \<Rightarrow> query_code" where
  "query_preprocess D nq B_q rotation_t centroid_q centroid_k query =
     (let q_norms = (\<lambda>h. max (sqrt (\<Sum>d<D. (query h d - centroid_q h d)\<^sup>2)) (1 / 10 ^ 6));
          rotated_q = rotated_query D nq rotation_t centroid_q query;
          v_l = (\<lambda>n. row_min D (rotated_q n)); v_r = (\<lambda>n. row_max D (rotated_q n));
          max_val = 2 ^ B_q - 1;
          Delta = (\<lambda>n. max ((v_r n - v_l n) / max_val) (1 / 10 ^ 8));
          q_quantized = (\<lambda>n d. min (max (torch_round ((rotated_q n d - v_l n) / Delta n)) 0) max_val);
          q_r = (\<lambda>n d. group_mean nq (\<lambda>h. query h d) n)
      in \<lparr>q_u = (\<lambda>n d. word_of_int \<lfloor>q_quantized n d\<rfloor>), q_Delta = Delta, q_v_l = v_l,
          q_sum = (\<lambda>n. \<Sum>d<D. q_quantized n d), q_norm = group_mean nq q_norms,
          q_qr_dot_ck = (\<lambda>n. dot D (q_r n) (centroid_k n))\<rparr>)"

section \<open>Packed codes and scores\<close>

text \<open>
  \<open>pack_binary_to_int32\<close>: bit \<open>i\<close> of word \<open>p\<close> is entry \<open>32 p + i\<close>. The sum is taken in 64 bits
  and converted to 32 bits by dropping the upper half.
\<close>

definition pack_binary_to_int32 :: "(nat \<Rightarrow> nat) \<Rightarrow> nat \<Rightarrow> 32 word" where
  "pack_binary_to_int32 x_b p = ucast (\<Sum>i<32. push_bit i (of_nat (x_b (p * 32 + i)) :: 64 word))"

text \<open>The inner product of the CUDA kernel, accumulated in a 32-bit integer.\<close>

definition packed_inner_product :: "nat \<Rightarrow> (nat \<Rightarrow> 8 word) \<Rightarrow> (nat \<Rightarrow> 32 word) \<Rightarrow> 32 word" where
  "packed_inner_product D q x_packed =
     (\<Sum>p<D div 32. (\<Sum>i<16. ucast (q (p * 32 + i)) * (drop_bit i (x_packed p) AND 1))
                  + (\<Sum>i<16. ucast (q (p * 32 + 16 + i)) * (drop_bit (16 + i) (x_packed p) AND 1)))"

definition x_bar_dot_q :: "nat \<Rightarrow> query_code \<Rightarrow> key_code \<Rightarrow> nat \<Rightarrow> real" where
  "x_bar_dot_q D qc kc h =
     (let inner_product = packed_inner_product D (q_u qc h) (pack_binary_to_int32 (c_bits kc h));
          term1 = 2 * q_Delta qc h * real_of_int (sint inner_product);
          term2 = 2 * q_v_l qc h * c_sum_x_b kc h;
          term3 = - q_Delta qc h * q_sum qc h;
          term4 = - real D * q_v_l qc h
      in term1 + term2 + term3 + term4)"

definition score_denom :: "real \<Rightarrow> real \<Rightarrow> real" where
  "score_denom denom_eps denom =
     (if \<bar>denom\<bar> < denom_eps then (if denom \<ge> 0 then denom_eps else - denom_eps) else denom)"

definition head_score :: "nat \<Rightarrow> real \<Rightarrow> query_code \<Rightarrow> (nat \<Rightarrow> real) \<Rightarrow> key_code \<Rightarrow> nat \<Rightarrow> real" where
  "head_score D denom_eps qc cqck kc h =
     q_norm qc h * c_norm kc h * (x_bar_dot_q D qc kc h / score_denom denom_eps (c_k_bar_dot_k kc h))
     + (q_qr_dot_ck qc h + c_cq_dot_kr kc h - cqck h)"

text \<open>One thread of the kernel: the maximum over the heads, starting from the smallest number.\<close>

definition packed_binary_score ::
  "real \<Rightarrow> nat \<Rightarrow> nat \<Rightarrow> real \<Rightarrow> query_code \<Rightarrow> (nat \<Rightarrow> real) \<Rightarrow> key_code \<Rightarrow> real" where
  "packed_binary_score flt_max num_heads D denom_eps qc cqck kc =
     fold (\<lambda>h m. let s = head_score D denom_eps qc cqck kc h in if s > m then s else m) [0..<num_heads] (- flt_max)"

section \<open>Bit-sliced inner products\<close>

text \<open>
  \<open>rabitq_binary_dot_quantized_kernel\<close> and its autotuned copy: the inner product of a binary vector with
  a \<open>B_q\<close>-bit vector, one bit of the query at a time.
\<close>

definition binary_dot_quantized :: "nat \<Rightarrow> nat \<Rightarrow> nat \<Rightarrow> (nat \<Rightarrow> 8 word) \<Rightarrow> (nat \<Rightarrow> 8 word) \<Rightarrow> nat" where
  "binary_dot_quantized BLOCK_SIZE D B_q x q =
     (\<Sum>bit_idx<B_q. 2 ^ bit_idx * blocked_sum BLOCK_SIZE D (\<lambda>d. unat (x d AND (drop_bit bit_idx (q d) AND 1))))"

section \<open>Lemmas on blocks and bits\<close>

lemma blocked_sum_eq:
  fixes f :: "nat \<Rightarrow> 'a::comm_monoid_add"
  assumes "0 < B"
  shows "blocked_sum B D f = (\<Sum>d<D. f d)"
proof -
  let ?g = "\<lambda>d. if d < D then f d else 0" and ?n = "(D + B - 1) div B"
  have shift: "(\<Sum>lane<B. ?g (b * B + lane)) = sum ?g {b * B..<b * B + B}" for b
    by (rule sum.reindex_bij_witness[of _ "\<lambda>d. d - b * B" "\<lambda>lane. b * B + lane"]) auto
  have "D \<le> ?n * B"
  proof (cases D)
    case (Suc m)
    then have "?n = Suc (m div B)" using assms by (simp add: add.commute[of m])
    then show ?thesis
      using Suc assms by (metis Suc_leI dividend_less_times_div mult.commute mult_Suc)
  qed simp
  have "blocked_sum B D f = sum ?g {..<?n * B}"
    unfolding blocked_sum_def shift by (rule sum.nat_group)
  also have "\<dots> = sum ?g {..<D}"
    by (rule sum.mono_neutral_right) (use \<open>D \<le> ?n * B\<close> in auto)
  also have "\<dots> = sum f {..<D}" by (rule sum.cong) auto
  finally show ?thesis .
qed

lemma bit_pack_binary:
  assumes "\<And>d. x_b d \<le> 1" and "i < 32"
  shows "bit (pack_binary_to_int32 x_b p) i \<longleftrightarrow> x_b (p * 32 + i) = 1"
proof -
  let ?bs = "map (\<lambda>i. x_b (p * 32 + i) = 1) [0..<32]"
  have ob: "(of_nat (x_b d) :: 64 word) = of_bool (x_b d = 1)" for d
    using assms(1)[of d] by (cases "x_b d = 1") (auto simp: le_Suc_eq)
  have "(\<Sum>i<32. push_bit i (of_nat (x_b (p * 32 + i)) :: 64 word)) = (\<Sum>i = 0..<32. of_bool (?bs ! i) * 2 ^ i)"
    unfolding atLeast0LessThan ob push_bit_eq_mult by (rule sum.cong) auto
  also have "\<dots> = horner_sum of_bool 2 ?bs" by (simp add: horner_sum_eq_sum)
  finally show ?thesis
    using assms(2) by (simp add: pack_binary_to_int32_def bit_ucast_iff bit_horner_sum_bit_word_iff)
qed

lemma drop_bit_and_1: "drop_bit i w AND 1 = (of_bool (bit w i) :: 'a::len word)"
  by (simp add: and_one_eq bit_iff_odd_drop_bit mod_2_eq_odd)

lemma split_32_lanes: "(\<Sum>i<16. f i) + (\<Sum>i<16. f (16 + i)) = (\<Sum>i<32::nat. f i :: 'a::comm_monoid_add)"
proof -
  have "(\<Sum>i<16. f (16 + i)) = sum f {16..<32}"
    by (rule sum.reindex_bij_witness[of _ "\<lambda>d. d - 16" "\<lambda>i. 16 + i"]) auto
  then show ?thesis
    using sum.atLeastLessThan_concat[of 0 16 32 f] by (simp add: atLeast0LessThan)
qed

text \<open>The packed inner product is the inner product of the query levels with the bits.\<close>

lemma packed_inner_product_eq:
  assumes "\<And>d. x_b d \<le> 1" and "D mod 32 = 0"
  shows "packed_inner_product D q (pack_binary_to_int32 x_b) = of_nat (\<Sum>d<D. unat (q d) * x_b d)"
proof -
  let ?f = "\<lambda>d. of_nat (unat (q d) * x_b d) :: 32 word"
  have lane: "ucast (q (p * 32 + i)) * (drop_bit i (pack_binary_to_int32 x_b p) AND 1) = ?f (p * 32 + i)"
    if "i < 32" for p i
    using bit_pack_binary[where p = p, OF assms(1) that] assms(1)[of "p * 32 + i"]
    by (cases "x_b (p * 32 + i) = 1") (auto simp: drop_bit_and_1 le_Suc_eq)
  have low: "(\<Sum>i<16. ucast (q (p * 32 + i)) * (drop_bit i (pack_binary_to_int32 x_b p) AND 1)) = (\<Sum>i<16. ?f (p * 32 + i))" for p
    by (rule sum.cong[OF refl]) (use lane in simp)
  have high: "(\<Sum>i<16. ucast (q (p * 32 + 16 + i)) * (drop_bit (16 + i) (pack_binary_to_int32 x_b p) AND 1)) = (\<Sum>i<16. ?f (p * 32 + (16 + i)))" for p
    by (rule sum.cong[OF refl]) (use lane[of "16 + _"] in \<open>simp add: add.assoc\<close>)
  have word: "(\<Sum>i<32. ?f (p * 32 + i)) = sum ?f {p * 32..<p * 32 + 32}" for p
    by (rule sum.reindex_bij_witness[of _ "\<lambda>d. d - p * 32" "\<lambda>i. p * 32 + i"]) auto
  have "packed_inner_product D q (pack_binary_to_int32 x_b) = (\<Sum>p<D div 32. sum ?f {p * 32..<p * 32 + 32})"
    unfolding packed_inner_product_def low high split_32_lanes[of "\<lambda>i. ?f (_ * 32 + i)"] word ..
  also have "\<dots> = sum ?f {..<D div 32 * 32}" by (rule sum.nat_group)
  also have "D div 32 * 32 = D" using assms(2) by auto
  finally show ?thesis by simp
qed

lemma sint_packed_inner_product:
  assumes "\<And>d. x_b d \<le> 1" and "D mod 32 = 0" and "255 * D < 2 ^ 31"
  shows "sint (packed_inner_product D q (pack_binary_to_int32 x_b)) = int (\<Sum>d<D. unat (q d) * x_b d)"
proof -
  have "(\<Sum>d<D. unat (q d) * x_b d) \<le> (\<Sum>d<D. 255)"
  proof (rule sum_mono)
    fix d
    have "unat (q d) < 2 ^ LENGTH(8)" by (rule unsigned_less)
    then have "unat (q d) \<le> 255" by simp
    then show "unat (q d) * x_b d \<le> 255" using assms(1)[of d] mult_le_mono[of "unat (q d)" 255 "x_b d" 1] by simp
  qed
  then have less: "(\<Sum>d<D. unat (q d) * x_b d) < 2 ^ 31" using assms(3) by simp
  have "signed_take_bit 31 (int N) = int N" if "N < 2 ^ 31" for N
    using that by (simp add: signed_take_bit_int_eq_self)
  from this[OF less] show ?thesis
    unfolding packed_inner_product_eq[OF assms(1,2)] signed_of_nat by (simp del: of_nat_sum)
qed

lemma sum_bits_take_bit: "(\<Sum>b<n. 2 ^ b * of_bool (bit a b)) = take_bit n (a::nat)"
proof -
  have "take_bit n a = (\<Sum>b = 0..<n. of_bool (bit a b) * 2 ^ b)"
    using horner_sum_bit_eq_take_bit[of a n] by (simp add: horner_sum_eq_sum)
  then show ?thesis by (simp add: atLeast0LessThan mult.commute)
qed

text \<open>The bit-sliced kernel computes the inner product, whatever the block size, once \<open>B_q\<close> covers the levels.\<close>

lemma binary_dot_quantized_eq:
  assumes "0 < B" and "\<And>d. unat (x d) \<le> 1" and "\<And>d. unat (q d) < 2 ^ B_q"
  shows "binary_dot_quantized B D B_q x q = (\<Sum>d<D. unat (q d) * unat (x d))"
proof -
  have entry: "unat (x d AND (drop_bit b (q d) AND 1)) = of_bool (bit (unat (q d)) b) * unat (x d)" for d b
  proof (cases "unat (x d) = 1")
    case True
    then have "x d = 1" by (metis unsigned_1 unsigned_word_eqI)
    then show ?thesis by (simp add: drop_bit_and_1 and.left_commute bit_unsigned_iff)
  next
    case False
    then have "x d = 0" using assms(2)[of d] by (metis le_Suc_eq le_zero_eq One_nat_def unat_eq_0)
    then show ?thesis by simp
  qed
  have "binary_dot_quantized B D B_q x q = (\<Sum>b<B_q. \<Sum>d<D. 2 ^ b * of_bool (bit (unat (q d)) b) * unat (x d))"
    by (simp only: binary_dot_quantized_def blocked_sum_eq[OF assms(1)] entry sum_distrib_left mult.assoc)
  also have "\<dots> = (\<Sum>d<D. \<Sum>b<B_q. 2 ^ b * of_bool (bit (unat (q d)) b) * unat (x d))" by (rule sum.swap)
  also have "\<dots> = (\<Sum>d<D. take_bit B_q (unat (q d)) * unat (x d))"
    by (simp only: sum_distrib_right[symmetric] sum_bits_take_bit)
  also have "\<dots> = (\<Sum>d<D. unat (q d) * unat (x d))" by (simp add: take_bit_nat_eq_self[OF assms(3)])
  finally show ?thesis .
qed

section \<open>The fused kernel\<close>

definition transposed :: "head_mats \<Rightarrow> head_mats" where
  "transposed R = (\<lambda>h i j. R h j i)"

lemma vec_mat_transposed: "vec_mat D x (transposed R h) = vec_mat_T D x (R h)"
  by (simp add: vec_mat_def vec_mat_T_def transposed_def)

lemma divide_nonneg_pos_iff: "0 < n \<Longrightarrow> 0 \<le> x / n \<longleftrightarrow> 0 \<le> (x::real)"
  by (simp add: zero_le_divide_iff)

lemma vec_mat_T_scaled: "vec_mat_T D (\<lambda>d. x d / n) P j = vec_mat_T D x P j / n"
  by (simp add: vec_mat_T_def sum_divide_distrib)

lemma fused_norm_pos: "0 < sqrt ((\<Sum>d<D. (x d :: real) * x d) + 1 / 10 ^ 12)"
  by (intro real_sqrt_gt_zero add_nonneg_pos sum_nonneg) auto

text \<open>What both routines store, in terms of the centred key \<open>x\<close> times the transposed matrix.\<close>

lemma fused_fields:
  fixes k ck :: head_rows
  assumes "0 < B"
  defines "x \<equiv> \<lambda>h d. k h d - ck h d"
  shows "c_bits (quantize_keys_fused_kernel B D R ck cq k) h d = (if vec_mat_T D (x h) (R h) d \<ge> 0 then 1 else 0)"
    and "c_norm (quantize_keys_fused_kernel B D R ck cq k) h = sqrt ((\<Sum>d<D. x h d * x h d) + 1 / 10 ^ 12)"
    and "c_cq_dot_kr (quantize_keys_fused_kernel B D R ck cq k) h = dot D (k h) (cq h)"
    and "c_k_bar_dot_k (quantize_keys_fused_kernel B D R ck cq k) h * c_norm (quantize_keys_fused_kernel B D R ck cq k) h =
      (\<Sum>d<D. \<bar>vec_mat_T D (x h) (R h) d\<bar>)"
proof -
  let ?n = "sqrt ((\<Sum>d<D. x h d * x h d) + 1 / 10 ^ 12)"
  have pos: "0 < ?n" by (rule fused_norm_pos)
  have acc: "(\<Sum>d<D. x h d / ?n * R h j d) = vec_mat_T D (x h) (R h) j / ?n" for j
    by (simp add: vec_mat_T_def sum_divide_distrib)
  show bits: "c_bits (quantize_keys_fused_kernel B D R ck cq k) h d = (if vec_mat_T D (x h) (R h) d \<ge> 0 then 1 else 0)" for d
    using acc[of d] divide_nonneg_pos_iff[OF pos]
    by (simp add: quantize_keys_fused_kernel_def Let_def blocked_sum_eq[OF assms(1)] x_def)
  show nrm: "c_norm (quantize_keys_fused_kernel B D R ck cq k) h = ?n"
    by (simp add: quantize_keys_fused_kernel_def Let_def blocked_sum_eq[OF assms(1)] x_def)
  show "c_cq_dot_kr (quantize_keys_fused_kernel B D R ck cq k) h = dot D (k h) (cq h)"
    by (simp add: quantize_keys_fused_kernel_def Let_def blocked_sum_eq[OF assms(1)] dot_def)
  have "c_k_bar_dot_k (quantize_keys_fused_kernel B D R ck cq k) h =
      (\<Sum>d<D. (2 * real (c_bits (quantize_keys_fused_kernel B D R ck cq k) h d) - 1) * (\<Sum>i<D. x h i / ?n * R h d i))"
    by (simp add: quantize_keys_fused_kernel_def Let_def blocked_sum_eq[OF assms(1)] x_def)
  also have "\<dots> = (\<Sum>d<D. \<bar>vec_mat_T D (x h) (R h) d\<bar> / ?n)"
    unfolding acc bits by (rule sum.cong) auto
  finally show "c_k_bar_dot_k (quantize_keys_fused_kernel B D R ck cq k) h * c_norm (quantize_keys_fused_kernel B D R ck cq k) h =
      (\<Sum>d<D. \<bar>vec_mat_T D (x h) (R h) d\<bar>)"
    unfolding nrm using pos by (simp flip: sum_divide_distrib)
qed

lemma torch_norm_pos: "0 < max (sqrt y) (1 / 10 ^ 6 :: real)"
  by (rule less_max_iff_disj[THEN iffD2]) simp

lemma vec_mat_scaled: "vec_mat D (\<lambda>d. x d / n) P j = vec_mat D x P j / n"
  by (simp add: vec_mat_def sum_divide_distrib)

lemma torch_fields:
  fixes k ck :: head_rows
  defines "x \<equiv> \<lambda>h d. k h d - ck h d"
  shows "c_bits (quantize_key_torch D R ck cq k) h d = (if vec_mat D (x h) (R h) d \<ge> 0 then 1 else 0)"
    and "c_norm (quantize_key_torch D R ck cq k) h = max (sqrt (\<Sum>d<D. (x h d)\<^sup>2)) (1 / 10 ^ 6)"
    and "c_cq_dot_kr (quantize_key_torch D R ck cq k) h = dot D (k h) (cq h)"
    and "c_k_bar_dot_k (quantize_key_torch D R ck cq k) h * c_norm (quantize_key_torch D R ck cq k) h =
      (\<Sum>d<D. \<bar>vec_mat D (x h) (R h) d\<bar>)"
    and "c_sum_x_b (quantize_key_torch D R ck cq k) h = (\<Sum>d<D. real (c_bits (quantize_key_torch D R ck cq k) h d))"
proof -
  let ?n = "max (sqrt (\<Sum>d<D. (x h d)\<^sup>2)) (1 / 10 ^ 6)"
  have pos: "0 < ?n" by (rule torch_norm_pos)
  show bits: "c_bits (quantize_key_torch D R ck cq k) h d = (if vec_mat D (x h) (R h) d \<ge> 0 then 1 else 0)" for d
    using divide_nonneg_pos_iff[OF pos]
    by (simp add: quantize_key_torch_def Let_def x_def vec_mat_scaled)
  show nrm: "c_norm (quantize_key_torch D R ck cq k) h = ?n"
    by (simp add: quantize_key_torch_def Let_def x_def)
  show "c_cq_dot_kr (quantize_key_torch D R ck cq k) h = dot D (k h) (cq h)"
    "c_sum_x_b (quantize_key_torch D R ck cq k) h = (\<Sum>d<D. real (c_bits (quantize_key_torch D R ck cq k) h d))"
    by (simp_all add: quantize_key_torch_def Let_def)
  have "c_k_bar_dot_k (quantize_key_torch D R ck cq k) h =
      (\<Sum>d<D. (2 * real (c_bits (quantize_key_torch D R ck cq k) h d) - 1) * vec_mat D (\<lambda>d. x h d / ?n) (R h) d)"
    by (simp add: quantize_key_torch_def Let_def x_def)
  also have "\<dots> = (\<Sum>d<D. \<bar>vec_mat D (x h) (R h) d\<bar> / ?n)"
    unfolding vec_mat_scaled bits by (rule sum.cong) auto
  finally show "c_k_bar_dot_k (quantize_key_torch D R ck cq k) h * c_norm (quantize_key_torch D R ck cq k) h =
      (\<Sum>d<D. \<bar>vec_mat D (x h) (R h) d\<bar>)"
    unfolding nrm using pos by (simp flip: sum_divide_distrib)
qed

text \<open>A quarter turn in the plane of the first two channels.\<close>

definition quarter_turn :: head_mats where
  "quarter_turn = (\<lambda>h i j. if i = 0 then (if j = 1 then 1 else 0) else if i = 1 then (if j = 0 then - 1 else 0)
                            else if i = j then 1 else 0)"

definition first_channel :: head_rows where
  "first_channel = (\<lambda>h d. if d = 0 then 1 else 0)"

lemma sum_first_channel: "(\<Sum>i<m + 2. first_channel h i * f i) = f 0"
  by (simp add: first_channel_def if_distrib[of "\<lambda>c. c * _"] cong: if_cong)

lemma first_channel_rotations:
  "vec_mat (m + 2) (first_channel h) (quarter_turn h) = (\<lambda>j. if j = 1 then 1 else 0)"
  "vec_mat_T (m + 2) (first_channel h) (quarter_turn h) = (\<lambda>j. if j = 1 then - 1 else if j = 0 then 0 else quarter_turn h j 0)"
  unfolding vec_mat_def vec_mat_T_def sum_first_channel by (auto simp: quarter_turn_def fun_eq_iff)

lemma quarter_turn_orthogonal: "orthogonal (m + 2) (transposed quarter_turn h)"
proof -
  have "(\<Sum>d<m + 2. quarter_turn h i d * quarter_turn h j d) = (if i = j then 1 else 0)" if "i < m + 2" "j < m + 2" for i j
  proof -
    have "quarter_turn h i d * quarter_turn h j d = (if d = (if i = 0 then 1 else if i = 1 then 0 else i) then (if i = j then 1 else 0) else 0)" for d
      by (auto simp: quarter_turn_def)
    then show ?thesis using that by simp
  qed
  then show ?thesis by (simp add: orthogonal_def transposed_def)
qed

lemma first_channel_norm: "(\<Sum>d<m + 2. (first_channel h d - 0)\<^sup>2) = 1"
  using sum_first_channel[of h "first_channel h" m] by (simp add: power2_eq_square) (simp add: first_channel_def)

lemma rotated_first_channel:
  "rotated_query (m + 2) 1 (Some quarter_turn) (\<lambda>h d. 0) first_channel h = (\<lambda>j. if j = 1 then 1 else 0)"
proof -
  have "(\<lambda>d. group_mean 1 (\<lambda>h. (first_channel h d - 0) / max (sqrt (\<Sum>d<m + 2. (first_channel h d - 0)\<^sup>2)) (1 / 10 ^ 6)) n)
      = first_channel n" for n
    unfolding first_channel_norm by (simp add: group_mean_def)
  then show ?thesis unfolding rotated_query_def Let_def option.case by (simp only: first_channel_rotations(1))
qed

text \<open>C38. The fused Triton kernel and the torch code do not compute the same codes. The kernel multiplies the
  centred key by the transpose of the matrix the torch code (and the preparation of the query) multiplies it by: its
  bits, bit counts, products with the query centroid and, up to the different safeguards of the norm, its
  remaining fields are those of the torch code for the transposed matrix. There is a rotation and a vector for
  which, with the kernel's code, the estimated cosine of the vector with itself is negative, while
  the torch code gives exactly 1.\<close>

theorem fused_kernel_transposes_rotation:
  "(let f = quantize_keys_fused_kernel (Suc b) D rotation_t ck cq k;
        t = quantize_key_torch D (transposed rotation_t) ck cq k
    in c_bits f = c_bits t \<and> c_sum_x_b f = c_sum_x_b t \<and> c_cq_dot_kr f = c_cq_dot_kr t \<and>
       (\<forall>h. c_k_bar_dot_k f h * c_norm f h = c_k_bar_dot_k t h * c_norm t h)) \<and>
   (\<exists>rotation_t v. orthogonal (m + 2) (transposed rotation_t 0) \<and>
      (let query = rotated_query (m + 2) 1 (Some rotation_t) (\<lambda>h d. 0) v 0;
           cosine = (\<lambda>c. dot (m + 2) (\<lambda>d. 2 * real (c_bits c 0 d) - 1) query / c_k_bar_dot_k c 0)
       in cosine (quantize_key_torch (m + 2) rotation_t (\<lambda>h d. 0) (\<lambda>h d. 0) v) = 1 \<and>
          cosine (quantize_keys_fused_kernel (Suc b) (m + 2) rotation_t (\<lambda>h d. 0) (\<lambda>h d. 0) v) < 0))"
proof -
  let ?f = "quantize_keys_fused_kernel (Suc b) D rotation_t ck cq k" and ?t = "quantize_key_torch D (transposed rotation_t) ck cq k"
  have "c_bits ?f h d = c_bits ?t h d" "c_cq_dot_kr ?f h = c_cq_dot_kr ?t h" for h d
    by (simp_all only: fused_fields(1,3)[OF zero_less_Suc] torch_fields(1,3) vec_mat_transposed)
  moreover have "c_k_bar_dot_k ?f h * c_norm ?f h = c_k_bar_dot_k ?t h * c_norm ?t h" for h
    by (simp only: fused_fields(4)[OF zero_less_Suc] torch_fields(4) vec_mat_transposed)
  ultimately have bits: "c_bits ?f = c_bits ?t" and rest: "c_cq_dot_kr ?f = c_cq_dot_kr ?t"
    "\<forall>h. c_k_bar_dot_k ?f h * c_norm ?f h = c_k_bar_dot_k ?t h * c_norm ?t h" by (auto simp: fun_eq_iff)
  have "c_sum_x_b ?f = (\<lambda>h. \<Sum>d<D. real (c_bits ?f h d))" by (simp add: quantize_keys_fused_kernel_def Let_def)
  moreover have "c_sum_x_b ?t = (\<lambda>h. \<Sum>d<D. real (c_bits ?t h d))" by (simp add: torch_fields(5) fun_eq_iff)
  ultimately have sums: "c_sum_x_b ?f = c_sum_x_b ?t" by (simp add: bits)
  let ?zero = "\<lambda>(h::nat) (d::nat). 0 :: real" and ?v = "first_channel"
  let ?q = "\<lambda>j::nat. if j = 1 then 1 else 0 :: real"
  let ?kt = "quantize_key_torch (m + 2) quarter_turn ?zero ?zero ?v"
  let ?kf = "quantize_keys_fused_kernel (Suc b) (m + 2) quarter_turn ?zero ?zero ?v"
  have pick: "dot (m + 2) x ?q = x 1" for x
    by (simp add: dot_def if_distrib[of "\<lambda>c. _ * c"] cong: if_cong)
  have x: "(\<lambda>d. ?v 0 d - ?zero 0 d) = ?v 0" by simp
  have "c_norm ?kt 0 = 1" unfolding torch_fields(2) first_channel_norm by simp
  moreover have "c_bits ?kt 0 1 = 1" unfolding torch_fields(1) x first_channel_rotations(1) by simp
  moreover have "c_k_bar_dot_k ?kt 0 * c_norm ?kt 0 = 1"
    unfolding torch_fields(4) x first_channel_rotations(1) by (simp add: if_distrib[of abs] cong: if_cong)
  ultimately have torch: "dot (m + 2) (\<lambda>d. 2 * real (c_bits ?kt 0 d) - 1) ?q / c_k_bar_dot_k ?kt 0 = 1" unfolding pick by simp
  have "c_bits ?kf 0 1 = 0" "0 < c_norm ?kf 0"
    unfolding fused_fields[OF zero_less_Suc] x first_channel_rotations by (simp, rule fused_norm_pos)
  moreover have "1 \<le> c_k_bar_dot_k ?kf 0 * c_norm ?kf 0"
  proof -
    have "(\<Sum>d\<in>{1}. \<bar>vec_mat_T (m + 2) (?v 0) (quarter_turn 0) d\<bar>) \<le> (\<Sum>d<m + 2. \<bar>vec_mat_T (m + 2) (?v 0) (quarter_turn 0) d\<bar>)"
      by (rule sum_mono2) auto
    moreover have "(\<Sum>d\<in>{1}. \<bar>vec_mat_T (m + 2) (?v 0) (quarter_turn 0) d\<bar>) = 1"
      unfolding first_channel_rotations(2) by simp
    ultimately show ?thesis unfolding fused_fields(4)[OF zero_less_Suc] x by (simp only:)
  qed
  then have "0 < c_k_bar_dot_k ?kf 0 * c_norm ?kf 0" by linarith
  ultimately have "0 < c_k_bar_dot_k ?kf 0" by (blast intro: zero_less_mult_pos2)
  then have fused: "dot (m + 2) (\<lambda>d. 2 * real (c_bits ?kf 0 d) - 1) ?q / c_k_bar_dot_k ?kf 0 < 0"
    unfolding pick \<open>c_bits ?kf 0 1 = 0\<close> by simp
  have "orthogonal (m + 2) (transposed quarter_turn 0) \<and>
    (let query = rotated_query (m + 2) 1 (Some quarter_turn) ?zero ?v 0;
         cosine = (\<lambda>c. dot (m + 2) (\<lambda>d. 2 * real (c_bits c 0 d) - 1) query / c_k_bar_dot_k c 0)
     in cosine ?kt = 1 \<and> cosine ?kf < 0)"
    unfolding Let_def rotated_first_channel using quarter_turn_orthogonal[of m 0] torch fused by blast
  then show ?thesis using bits rest sums by (auto simp: Let_def)
qed

section \<open>The estimated score\<close>

text \<open>The quantized query and the levels it stands for.\<close>

lemma query_levels:
  fixes rq :: "nat \<Rightarrow> real"
  assumes "0 < B_q" "d < D"
  defines "Delta \<equiv> max ((row_max D rq - row_min D rq) / (2 ^ B_q - 1)) (1 / 10 ^ 8)"
  shows "0 \<le> torch_round ((rq d - row_min D rq) / Delta)" "torch_round ((rq d - row_min D rq) / Delta) \<le> 2 ^ B_q - 1"
    "\<bar>row_min D rq + Delta * torch_round ((rq d - row_min D rq) / Delta) - rq d\<bar> \<le> Delta / 2"
proof -
  let ?u = "(rq d - row_min D rq) / Delta"
  have L: "(2 ^ B_q - 1 :: real) \<ge> 1" by (rule quant_levels_pos[OF assms(1)])
  have pos: "0 < Delta" unfolding Delta_def by (rule less_max_iff_disj[THEN iffD2]) simp
  have u0: "0 \<le> ?u" using row_bounds(1)[OF assms(2), of rq] pos by simp
  have "rq d - row_min D rq \<le> Delta * (2 ^ B_q - 1)"
  proof -
    have "rq d - row_min D rq \<le> (row_max D rq - row_min D rq) / (2 ^ B_q - 1) * (2 ^ B_q - 1)"
      using row_bounds(2)[OF assms(2), of rq] L by simp
    also have "\<dots> \<le> Delta * (2 ^ B_q - 1)" using L by (intro mult_right_mono) (auto simp: Delta_def)
    finally show ?thesis .
  qed
  then have u1: "?u \<le> 2 ^ B_q - 1" using pos by (simp add: divide_le_eq mult.commute)
  show "0 \<le> torch_round ?u" "torch_round ?u \<le> 2 ^ B_q - 1"
    using torch_round_between[of 0 ?u "2 ^ B_q - 1"] u0 u1 by simp_all
  have "row_min D rq + Delta * torch_round ?u - rq d = Delta * (torch_round ?u - ?u)"
    using pos by (simp add: field_simps)
  then have "\<bar>row_min D rq + Delta * torch_round ?u - rq d\<bar> = Delta * \<bar>torch_round ?u - ?u\<bar>"
    using pos by (simp add: abs_mult)
  also have "\<dots> \<le> Delta * (1 / 2)" using torch_round_near[of ?u] pos by (intro mult_left_mono) auto
  finally show "\<bar>row_min D rq + Delta * torch_round ?u - rq d\<bar> \<le> Delta / 2" by simp
qed

lemma query_code_levels:
  fixes cq ck q :: head_rows and R :: "head_mats option" and D nq B_q :: nat
  assumes "0 < B_q" "B_q \<le> 8"
  defines "qc \<equiv> query_preprocess D nq B_q R cq ck q" and "rq \<equiv> rotated_query D nq R cq q"
  shows "d < D \<Longrightarrow> \<bar>q_v_l qc n + q_Delta qc n * real (unat (q_u qc n d)) - rq n d\<bar> \<le> q_Delta qc n / 2"
    and "q_sum qc n = (\<Sum>d<D. real (unat (q_u qc n d)))" and "0 < q_Delta qc n"
proof -
  let ?D = "max ((row_max D (rq n) - row_min D (rq n)) / (2 ^ B_q - 1)) (1 / 10 ^ 8)"
  let ?r = "\<lambda>d. torch_round ((rq n d - row_min D (rq n)) / ?D)"
  note lev = query_levels[OF assms(1), of _ D "rq n"]
  have clamp: "min (max (?r d) 0) (2 ^ B_q - 1) = ?r d" if "d < D" for d using lev(1,2)[OF that] by simp
  have fields: "q_Delta qc n = ?D" "q_v_l qc n = row_min D (rq n)" "q_sum qc n = (\<Sum>d<D. min (max (?r d) 0) (2 ^ B_q - 1))"
    "q_u qc n d = word_of_int \<lfloor>min (max (?r d) 0) (2 ^ B_q - 1)\<rfloor>" for d
    by (simp_all add: qc_def rq_def query_preprocess_def Let_def)
  have level: "real (unat (q_u qc n d)) = ?r d" if "d < D" for d
  proof -
    have "?r d \<in> \<int>" by (simp add: torch_round_def Let_def)
    then obtain z where z: "?r d = of_int z" by (auto elim: Ints_cases)
    have "(2::real) ^ B_q \<le> 2 ^ 8" using assms(2) by (intro power_increasing) auto
    then have "0 \<le> real_of_int z" "real_of_int z < 256" using lev(1,2)[OF that] unfolding z by simp_all
    then have "0 \<le> z" "z < 256" by simp_all
    moreover have "q_u qc n d = word_of_int \<lfloor>?r d\<rfloor>" unfolding fields(4) clamp[OF that] ..
    then have "q_u qc n d = word_of_int z" unfolding z by simp
    ultimately show ?thesis unfolding z by (simp add: unsigned_of_int take_bit_int_eq_self)
  qed
  show "0 < q_Delta qc n" unfolding fields(1) by (rule less_max_iff_disj[THEN iffD2]) simp
  show "q_sum qc n = (\<Sum>d<D. real (unat (q_u qc n d)))"
    unfolding fields(3)
  proof (rule sum.cong[OF refl])
    fix d assume "d \<in> {..<D}"
    then have "d < D" by simp
    show "min (max (?r d) 0) (2 ^ B_q - 1) = real (unat (q_u qc n d))" unfolding clamp[OF \<open>d < D\<close>] level[OF \<open>d < D\<close>] ..
  qed
  show "\<bar>q_v_l qc n + q_Delta qc n * real (unat (q_u qc n d)) - rq n d\<bar> \<le> q_Delta qc n / 2" if "d < D"
    using lev(3)[OF that] unfolding fields(1,2) level[OF that] .
qed

text \<open>The four terms of the kernel are the product of the sign code with the dequantized query.\<close>

lemma x_bar_dot_q_eq:
  assumes "D mod 32 = 0" "255 * D < 2 ^ 31" "\<And>d. c_bits kc h d \<le> 1"
    and "c_sum_x_b kc h = (\<Sum>d<D. real (c_bits kc h d))" and "q_sum qc h = (\<Sum>d<D. real (unat (q_u qc h d)))"
  shows "x_bar_dot_q D qc kc h =
    (\<Sum>d<D. (2 * real (c_bits kc h d) - 1) * (q_v_l qc h + q_Delta qc h * real (unat (q_u qc h d))))"
proof -
  have "real_of_int (sint (packed_inner_product D (q_u qc h) (pack_binary_to_int32 (c_bits kc h)))) =
      (\<Sum>d<D. real (unat (q_u qc h d)) * real (c_bits kc h d))"
    unfolding sint_packed_inner_product[of "c_bits kc h" D, OF assms(3,1,2)] by simp
  then have "x_bar_dot_q D qc kc h = 2 * q_Delta qc h * (\<Sum>d<D. real (unat (q_u qc h d)) * real (c_bits kc h d))
      + 2 * q_v_l qc h * (\<Sum>d<D. real (c_bits kc h d)) - q_Delta qc h * (\<Sum>d<D. real (unat (q_u qc h d))) - (\<Sum>d<D. q_v_l qc h)"
    by (simp add: x_bar_dot_q_def Let_def assms(4,5))
  also have "\<dots> = (\<Sum>d<D. (2 * real (c_bits kc h d) - 1) * (q_v_l qc h + q_Delta qc h * real (unat (q_u qc h d))))"
    unfolding sum_distrib_left sum.distrib[symmetric] sum_subtractf[symmetric] by (rule sum.cong) (auto simp: algebra_simps)
  finally show ?thesis .
qed

lemma sign_code_product:
  assumes "dot D r r = 1"
  shows "1 \<le> (\<Sum>d<D. \<bar>r d\<bar>)" "(\<Sum>d<D. \<bar>r d\<bar>)\<^sup>2 \<le> real D"
proof -
  let ?s = "\<lambda>d. if r d \<ge> 0 then 1 else - 1 :: real"
  have le1: "r d * r d \<le> \<bar>r d\<bar>" if "d < D" for d
  proof -
    have "r d * r d \<le> dot D r r" unfolding dot_def by (rule member_le_sum) (use that in auto)
    then have "\<bar>r d\<bar> \<le> 1" using assms abs_le_square_iff[of "r d" 1] by (simp add: power2_eq_square)
    then show ?thesis using mult_left_mono[of "\<bar>r d\<bar>" 1 "\<bar>r d\<bar>"] by (simp add: abs_mult_self_eq)
  qed
  show "1 \<le> (\<Sum>d<D. \<bar>r d\<bar>)" unfolding assms[symmetric] dot_def by (rule sum_mono) (use le1 in auto)
  have "(\<Sum>d<D. \<bar>r d\<bar>) = dot D ?s r" unfolding dot_def by (rule sum.cong) auto
  moreover have "dot D ?s ?s = real D" by (simp add: dot_def if_distrib[of "\<lambda>c. c * _"] cong: if_cong)
  ultimately show "(\<Sum>d<D. \<bar>r d\<bar>)\<^sup>2 \<le> real D" using dot_Cauchy_Schwarz[of D ?s r] assms by simp
qed

lemma sign_code_estimate:
  assumes "dot D r r = 1" "dot D y y \<le> 1"
  defines "o_b \<equiv> \<Sum>d<D. \<bar>r d\<bar>"
  shows "\<bar>dot D y (\<lambda>d. if r d \<ge> 0 then 1 else - 1) / o_b - dot D y r\<bar> \<le> sqrt (real D / o_b\<^sup>2 - 1)"
proof -
  let ?s = "\<lambda>d. if r d \<ge> 0 then 1 else - 1 :: real" and ?e = "\<lambda>d. 1 / o_b * (if r d \<ge> 0 then 1 else - 1 :: real) - r d"
  have o: "1 \<le> o_b" unfolding o_b_def by (rule sign_code_product[OF assms(1)])
  have so: "dot D r ?s = o_b" unfolding dot_def o_b_def by (rule sum.cong) auto
  have ss: "dot D ?s ?s = real D" by (simp add: dot_def if_distrib[of "\<lambda>c. c * _"] cong: if_cong)
  have "dot D y ?s / o_b - dot D y r = dot D y ?e" unfolding dot_scale_diff_right by simp
  moreover have "dot D ?e ?e = real D / o_b\<^sup>2 - 1"
    unfolding dot_scaled_diff so ss assms(1) using o by (simp add: power2_eq_square)
  moreover have "sqrt (dot D y y) * sqrt (dot D ?e ?e) \<le> 1 * sqrt (dot D ?e ?e)"
    using assms(2) dot_nonneg_self[of D ?e] by (intro mult_right_mono) auto
  ultimately show ?thesis using dot_bound[of D y ?e] by simp
qed

text \<open>The stored code of a key in terms of its rotated direction \<open>r\<close>.\<close>

lemma key_code_direction:
  fixes k ck cq :: head_rows and R :: head_mats
  assumes "orthogonal D (R h)" "1 / 10 ^ 6 \<le> sqrt (\<Sum>d<D. (k h d - ck h d)\<^sup>2)"
  defines "kc \<equiv> quantize_key_torch D (transposed R) ck cq k"
  defines "r \<equiv> vec_mat_T D (\<lambda>d. (k h d - ck h d) / c_norm kc h) (R h)"
  shows "0 < c_norm kc h" "dot D r r = 1" "c_k_bar_dot_k kc h = (\<Sum>d<D. \<bar>r d\<bar>)"
    "\<And>d. 2 * real (c_bits kc h d) - 1 = (if r d \<ge> 0 then 1 else - 1)"
proof -
  let ?x = "\<lambda>d. k h d - ck h d" and ?n = "c_norm kc h"
  have n: "?n = sqrt (dot D ?x ?x)"
    using assms(2) unfolding kc_def torch_fields(2) by (simp add: dot_def power2_eq_square max_def)
  show pos: "0 < ?n" unfolding kc_def torch_fields(2) by (rule torch_norm_pos)
  have "dot D ?x ?x = ?n * ?n" unfolding n using dot_nonneg_self[of D ?x] by simp
  then show "dot D r r = 1"
    unfolding r_def dot_vec_mat_T[OF assms(1)] dot_scale_left dot_scale_right using pos by simp
  have scaled: "r d = vec_mat D ?x (transposed R h) d / ?n" for d
    by (simp add: r_def vec_mat_T_scaled vec_mat_transposed)
  have "c_k_bar_dot_k kc h * ?n = (\<Sum>d<D. \<bar>r d\<bar>) * ?n"
    using pos torch_fields(4)[of D "transposed R" ck cq k h, folded kc_def] by (simp add: scaled sum_distrib_right)
  then show "c_k_bar_dot_k kc h = (\<Sum>d<D. \<bar>r d\<bar>)" using pos by simp
  show "2 * real (c_bits kc h d) - 1 = (if r d \<ge> 0 then 1 else - 1)" for d
    using divide_nonneg_pos_iff[OF pos] torch_fields(1)[of D "transposed R" ck cq k h d, folded kc_def] by (simp add: scaled)
qed

text \<open>The product of the kernel against the product with the rotated query.\<close>

lemma x_bar_dot_q_near:
  fixes k ck cq q ck' cq' :: head_rows and R :: head_mats and D B_q nq :: nat and Rq :: "head_mats option"
  assumes "0 < B_q" "B_q \<le> 8" "D mod 32 = 0" "255 * D < 2 ^ 31"
  defines "kc \<equiv> quantize_key_torch D R ck cq k" and "qc \<equiv> query_preprocess D nq B_q Rq cq' ck' q"
  shows "\<bar>x_bar_dot_q D qc kc h - dot D (rotated_query D nq Rq cq' q h) (\<lambda>d. 2 * real (c_bits kc h d) - 1)\<bar> \<le> real D * (q_Delta qc h / 2)"
proof -
  let ?s = "\<lambda>d. 2 * real (c_bits kc h d) - 1" and ?rq = "rotated_query D nq Rq cq' q h"
  let ?lv = "\<lambda>d. q_v_l qc h + q_Delta qc h * real (unat (q_u qc h d))"
  note lv = query_code_levels[where D = D and nq = nq and R = Rq and cq = cq' and ck = ck' and q = q and n = h, OF assms(1,2), folded qc_def]
  have s: "\<bar>?s d\<bar> = 1" "c_bits kc h d \<le> 1" for d by (simp_all add: kc_def torch_fields(1))
  have "x_bar_dot_q D qc kc h = dot D ?s ?lv"
    unfolding dot_def by (rule x_bar_dot_q_eq[OF assms(3,4) s(2) _ lv(2)]) (simp add: kc_def torch_fields(5))
  then have "x_bar_dot_q D qc kc h - dot D ?rq ?s = dot D ?s (\<lambda>d. ?lv d - ?rq d)"
    unfolding dot_diff_right[of D ?s ?lv ?rq] dot_commute[of D ?rq ?s] by (simp only:)
  then have "\<bar>x_bar_dot_q D qc kc h - dot D ?rq ?s\<bar> \<le> (\<Sum>d<D. \<bar>?s d * (?lv d - ?rq d)\<bar>)"
    by (simp only: dot_def sum_abs)
  also have "\<dots> \<le> (\<Sum>d<D. q_Delta qc h / 2)"
    by (rule sum_mono) (use lv(1) s(1) in \<open>auto simp: abs_mult\<close>)
  finally show ?thesis by simp
qed

text \<open>Means over the query heads of a group.\<close>

lemma group_mean_mono:
  "(\<And>g. g < nq \<Longrightarrow> f (n * nq + g) \<le> f' (n * nq + g)) \<Longrightarrow> group_mean nq f n \<le> group_mean nq f' n"
  unfolding group_mean_def by (intro divide_right_mono sum_mono) auto

lemma group_mean_const: "0 < nq \<Longrightarrow> group_mean nq (\<lambda>_. c) n = c"
  by (simp add: group_mean_def)

lemma group_mean_abs: "\<bar>group_mean nq f n\<bar> \<le> group_mean nq (\<lambda>h. \<bar>f h\<bar>) n"
  by (simp add: group_mean_def abs_divide divide_right_mono sum_abs)

lemma group_mean_scale: "group_mean nq (\<lambda>h. f h * c) n = group_mean nq f n * c" "group_mean nq (\<lambda>h. c * f h) n = c * group_mean nq f n"
  by (simp_all add: group_mean_def sum_distrib_right sum_distrib_left)

lemma group_mean_diff: "group_mean nq (\<lambda>h. f h - f' h) n = group_mean nq f n - group_mean nq f' n"
  by (simp add: group_mean_def sum_subtractf diff_divide_distrib)

lemma dot_group_mean: "dot D (\<lambda>d. group_mean nq (\<lambda>h. f h d) n) v = group_mean nq (\<lambda>h. dot D (f h) v) n"
  unfolding dot_def group_mean_def
  by (simp add: sum_distrib_right sum_divide_distrib sum.swap[of _ "{..<D}"])

lemma dot_mean_le_1:
  assumes "0 < nq" "\<And>h. dot D (f h) (f h) \<le> 1"
  shows "dot D (\<lambda>d. group_mean nq (\<lambda>h. f h d) n) (\<lambda>d. group_mean nq (\<lambda>h. f h d) n) \<le> 1"
proof -
  let ?u = "\<lambda>d. group_mean nq (\<lambda>h. f h d) n"
  have "dot D (f h) ?u \<le> sqrt (dot D ?u ?u)" for h
  proof -
    have "sqrt (dot D (f h) (f h)) * sqrt (dot D ?u ?u) \<le> 1 * sqrt (dot D ?u ?u)"
      by (rule mult_right_mono) (use assms(2) dot_nonneg_self[of D ?u] in simp_all)
    then show ?thesis using dot_bound[of D "f h" ?u] by linarith
  qed
  then have "group_mean nq (\<lambda>h. dot D (f h) ?u) n \<le> group_mean nq (\<lambda>h. sqrt (dot D ?u ?u)) n" by (intro group_mean_mono)
  then have "dot D ?u ?u \<le> sqrt (dot D ?u ?u)" unfolding group_mean_const[OF assms(1)] dot_group_mean[symmetric] .
  then have "(dot D ?u ?u)\<^sup>2 \<le> (sqrt (dot D ?u ?u))\<^sup>2" using dot_nonneg_self[of D ?u] by (rule power_mono)
  then have "dot D ?u ?u * dot D ?u ?u \<le> 1 * dot D ?u ?u" using dot_nonneg_self[of D ?u] by (simp add: power2_eq_square)
  then show ?thesis using dot_nonneg_self[of D ?u] mult_le_cancel_right[of "dot D ?u ?u" "dot D ?u ?u" 1] by linarith
qed

text \<open>The code averages directions and norms of a group separately; the error of this is bounded by the spread of the norms.\<close>

lemma separate_means_error:
  assumes "\<And>h. dot D (u h) (u h) \<le> 1"
  shows "\<bar>group_mean nq nrm n * dot D (\<lambda>d. group_mean nq (\<lambda>h. u h d) n) x - dot D (\<lambda>d. group_mean nq (\<lambda>h. nrm h * u h d) n) x\<bar>
    \<le> sqrt (dot D x x) * group_mean nq (\<lambda>h. \<bar>nrm h - group_mean nq nrm n\<bar>) n"
proof -
  let ?N = "group_mean nq nrm n"
  have scale: "dot D (\<lambda>d. nrm h * u h d) x = nrm h * dot D (u h) x" for h by (simp add: dot_def sum_distrib_left mult.assoc)
  have "?N * dot D (\<lambda>d. group_mean nq (\<lambda>h. u h d) n) x - dot D (\<lambda>d. group_mean nq (\<lambda>h. nrm h * u h d) n) x = group_mean nq (\<lambda>h. (?N - nrm h) * dot D (u h) x) n"
    unfolding dot_group_mean scale by (simp add: left_diff_distrib group_mean_diff group_mean_scale(2))
  also have "\<bar>\<dots>\<bar> \<le> group_mean nq (\<lambda>h. \<bar>(?N - nrm h) * dot D (u h) x\<bar>) n" by (rule group_mean_abs)
  also have "\<dots> \<le> group_mean nq (\<lambda>h. sqrt (dot D x x) * \<bar>nrm h - ?N\<bar>) n"
  proof (rule group_mean_mono)
    fix g
    let ?h = "n * nq + g"
    have "sqrt (dot D (u ?h) (u ?h)) * sqrt (dot D x x) \<le> 1 * sqrt (dot D x x)" by (rule mult_right_mono) (use assms dot_nonneg_self[of D x] in simp_all)
    then have "\<bar>dot D (u ?h) x\<bar> \<le> sqrt (dot D x x)" using dot_bound[of D "u ?h" x] by linarith
    then show "\<bar>(?N - nrm ?h) * dot D (u ?h) x\<bar> \<le> sqrt (dot D x x) * \<bar>nrm ?h - ?N\<bar>"
      unfolding abs_mult abs_minus_commute[of ?N] mult.commute[of "sqrt (dot D x x)"] by (rule mult_left_mono) simp
  qed
  finally show ?thesis unfolding group_mean_scale(2) .
qed

text \<open>The clamped norm that the code divides a centred query head by.\<close>

definition query_head_norm :: "nat \<Rightarrow> head_rows \<Rightarrow> head_rows \<Rightarrow> nat \<Rightarrow> real" where
  "query_head_norm D cq q h = max (sqrt (\<Sum>d<D. (q h d - cq h d)\<^sup>2)) (1 / 10 ^ 6)"

lemma query_head_direction:
  fixes q cq :: head_rows and D :: nat
  defines "u \<equiv> \<lambda>h d. (q h d - cq h d) / query_head_norm D cq q h"
  shows "0 < query_head_norm D cq q h" "dot D (u h) (u h) \<le> 1" "query_head_norm D cq q h * u h d = q h d - cq h d"
proof -
  let ?n = "query_head_norm D cq q h" and ?y = "\<lambda>d. q h d - cq h d"
  show n: "0 < ?n" unfolding query_head_norm_def by (rule torch_norm_pos)
  have "sqrt (dot D ?y ?y) \<le> ?n" unfolding query_head_norm_def by (simp add: dot_def power2_eq_square)
  then have "dot D ?y ?y \<le> ?n * ?n" using n sqrt_le_D[of "dot D ?y ?y" ?n] by (simp add: power2_eq_square)
  then show "dot D (u h) (u h) \<le> 1" unfolding u_def dot_scale_left dot_scale_right using n by (simp add: divide_le_eq)
  show "?n * u h d = q h d - cq h d" using n by (simp add: u_def)
qed

text \<open>C39. Accuracy of the scores of the serving backend. Let \<open>nq\<close> query heads share a KV head, let the rotation be orthogonal, the query quantized to at most 8
  bits per channel, the head size a multiple of 32 and the centred key not nearly 0; the keys are stored with the mean of the group's query centroids, as the code does.
  Then the 32-bit accumulator of the packed product does not overflow, the stored product \<open>o\<close> of a key with its code lies between 1 and \<open>sqrt D\<close>, so that the denominator is never clamped,
  and the score computed from the packed codes written by the torch code differs from the exact inner product of the mean query of the group with the key by at most the two norms times the
  sum of the query's quantization step times half the dimension over \<open>o\<close>, and \<open>sqrt (D / o\<^sup>2 - 1)\<close>, plus the norm of the key times the mean deviation of the query heads' norms from
  their mean (0 for one query head per KV head), because the code averages directions and norms separately.\<close>

theorem packed_score_error:
  fixes R :: head_mats and k ck cq q :: head_rows
  assumes "0 < nq" "orthogonal D (R h)" "0 < B_q" "B_q \<le> 8" "D mod 32 = 0" "255 * D < 2 ^ 31"
    and "1 / 10 ^ 6 \<le> sqrt (\<Sum>d<D. (k h d - ck h d)\<^sup>2)"
  shows "let ckv = (\<lambda>n d. group_mean nq (\<lambda>j. cq j d) n); kc = quantize_key_torch D (transposed R) ck ckv k;
             qc = query_preprocess D nq B_q (Some (transposed R)) cq ck q; o_b = c_k_bar_dot_k kc h
         in sint (packed_inner_product D (q_u qc h) (pack_binary_to_int32 (c_bits kc h))) = int (\<Sum>d<D. unat (q_u qc h d) * c_bits kc h d)
          \<and> 1 \<le> o_b \<and> o_b\<^sup>2 \<le> real D \<and>
            \<bar>head_score D (1 / 10 ^ 6) qc (\<lambda>h. dot D (ckv h) (ck h)) kc h - dot D (\<lambda>d. group_mean nq (\<lambda>j. q j d) h) (k h)\<bar>
              \<le> q_norm qc h * c_norm kc h * (real D * q_Delta qc h / (2 * o_b) + sqrt (real D / o_b\<^sup>2 - 1))
                + c_norm kc h * group_mean nq (\<lambda>j. \<bar>query_head_norm D cq q j - q_norm qc h\<bar>) h"
proof -
  define ckv :: head_rows where "ckv = (\<lambda>n d. group_mean nq (\<lambda>j. cq j d) n)"
  define kc where "kc = quantize_key_torch D (transposed R) ck ckv k"
  define qc where "qc = query_preprocess D nq B_q (Some (transposed R)) cq ck q"
  define rq where "rq = rotated_query D nq (Some (transposed R)) cq q h"
  define u where "u = (\<lambda>j d. (q j d - cq j d) / query_head_norm D cq q j)"
  let ?nx = "c_norm kc h" and ?ny = "q_norm qc h" and ?o = "c_k_bar_dot_k kc h" and ?qm = "\<lambda>d. group_mean nq (\<lambda>j. q j d) h"
  let ?x = "\<lambda>d. k h d - ck h d" and ?um = "\<lambda>d. group_mean nq (\<lambda>j. u j d) h"
  let ?r = "vec_mat_T D (\<lambda>d. ?x d / ?nx) (R h)" and ?s = "\<lambda>d. 2 * real (c_bits kc h d) - 1"
  let ?dev = "group_mean nq (\<lambda>j. \<bar>query_head_norm D cq q j - ?ny\<bar>) h"
  note dir = key_code_direction[where R = R and h = h and k = k and ck = ck and cq = ckv, OF assms(2,7), folded kc_def]
  note ob = sign_code_product[OF dir(2), folded dir(3)]
  have ud: "0 < query_head_norm D cq q j" "dot D (u j) (u j) \<le> 1" "query_head_norm D cq q j * u j d = q j d - cq j d" for j d
    unfolding u_def by (rule query_head_direction)+
  have acc: "sint (packed_inner_product D (q_u qc h) (pack_binary_to_int32 (c_bits kc h))) = int (\<Sum>d<D. unat (q_u qc h d) * c_bits kc h d)"
    by (rule sint_packed_inner_product[OF _ assms(5,6)]) (simp add: kc_def torch_fields(1))
  have qf: "?ny = group_mean nq (query_head_norm D cq q) h" "q_qr_dot_ck qc h = dot D ?qm (ck h)"
    by (simp_all add: qc_def query_preprocess_def Let_def query_head_norm_def[abs_def])
  have ny: "0 \<le> ?ny" unfolding qf(1) group_mean_def using ud(1) by (intro divide_nonneg_nonneg sum_nonneg) (auto simp: less_imp_le)
  have rq: "rq = vec_mat_T D ?um (R h)"
    by (simp add: rq_def rotated_query_def vec_mat_transposed u_def query_head_norm_def[abs_def] Let_def)
  have yy: "dot D rq rq \<le> 1" unfolding rq dot_vec_mat_T[OF assms(2)] by (rule dot_mean_le_1[OF assms(1) ud(2)])
  have inner: "?nx * dot D rq ?r = dot D ?um ?x"
    unfolding rq dot_vec_mat_T[OF assms(2)] dot_scale_right using dir(1) by simp
  have "\<bar>x_bar_dot_q D qc kc h / ?o - dot D rq ?s / ?o\<bar> \<le> real D * q_Delta qc h / (2 * ?o)"
    using ob(1) divide_right_mono[OF x_bar_dot_q_near[OF assms(3-6)], of ?o]
    by (simp add: diff_divide_distrib[symmetric] abs_divide kc_def qc_def rq_def)
  moreover have "\<bar>dot D rq ?s / ?o - dot D rq ?r\<bar> \<le> sqrt (real D / ?o\<^sup>2 - 1)"
    using sign_code_estimate[OF dir(2) yy] unfolding dir(3,4) .
  ultimately have est: "\<bar>x_bar_dot_q D qc kc h / ?o - dot D rq ?r\<bar> \<le> real D * q_Delta qc h / (2 * ?o) + sqrt (real D / ?o\<^sup>2 - 1)"
    by linarith
  have spread: "\<bar>?ny * dot D ?um ?x - dot D (\<lambda>d. ?qm d - ckv h d) ?x\<bar> \<le> ?nx * ?dev"
  proof -
    have "sqrt (dot D ?x ?x) = ?nx" using assms(7) unfolding kc_def torch_fields(2) by (simp add: dot_def power2_eq_square max_def)
    moreover have "(\<lambda>d. group_mean nq (\<lambda>j. query_head_norm D cq q j * u j d) h) = (\<lambda>d. ?qm d - ckv h d)" by (simp add: ud(3) group_mean_diff ckv_def)
    ultimately show ?thesis using separate_means_error[of D u, OF ud(2), of nq "query_head_norm D cq q" h ?x] by (simp add: qf(1))
  qed
  have "dot D (\<lambda>d. ?qm d - ckv h d) ?x = dot D ?qm (k h) - dot D ?qm (ck h) - dot D (k h) (ckv h) + dot D (ckv h) (ck h)"
    by (simp add: dot_diff_left dot_diff_right dot_commute[of D "k h"])
  then have "head_score D (1 / 10 ^ 6) qc (\<lambda>h. dot D (ckv h) (ck h)) kc h - dot D ?qm (k h) =
      ?ny * ?nx * (x_bar_dot_q D qc kc h / ?o - dot D rq ?r) + (?ny * dot D ?um ?x - dot D (\<lambda>d. ?qm d - ckv h d) ?x)"
    using ob(1) inner[symmetric] torch_fields(3)[of D "transposed R" ck ckv k h, folded kc_def]
    unfolding head_score_def score_denom_def qf(2) by (simp add: right_diff_distrib)
  moreover have "\<bar>?ny * ?nx * (x_bar_dot_q D qc kc h / ?o - dot D rq ?r)\<bar> \<le> ?ny * ?nx * (real D * q_Delta qc h / (2 * ?o) + sqrt (real D / ?o\<^sup>2 - 1))"
    unfolding abs_mult using est ny dir(1) by (simp add: mult_left_mono)
  ultimately have "\<bar>head_score D (1 / 10 ^ 6) qc (\<lambda>h. dot D (ckv h) (ck h)) kc h - dot D ?qm (k h)\<bar>
      \<le> ?ny * ?nx * (real D * q_Delta qc h / (2 * ?o) + sqrt (real D / ?o\<^sup>2 - 1)) + ?nx * ?dev" using spread by linarith
  then show ?thesis using acc ob unfolding Let_def ckv_def[symmetric] kc_def[symmetric] qc_def[symmetric] by blast
qed

text \<open>Head size 32, four bits per channel, a key of ones and two query heads, \<open>1, -1, 1, -1, \<dots>\<close> and three times that.\<close>

theorem packed_score_error_witness:
  "let kc = quantize_key_torch 32 (transposed (\<lambda>h i j. if i = j then 1 else 0)) (\<lambda>h d. 0) (\<lambda>n d. group_mean 2 (\<lambda>j. 0) n) (\<lambda>h d. 1);
       q = (\<lambda>h d. (if even h then 1 else 3) * (if even d then 1 else - 1));
       qc = query_preprocess 32 2 4 (Some (transposed (\<lambda>h i j. if i = j then 1 else 0))) (\<lambda>h d. 0) (\<lambda>h d. 0) q; o_b = c_k_bar_dot_k kc 0
   in 1 \<le> o_b \<and> o_b\<^sup>2 \<le> 32 \<and>
      \<bar>head_score 32 (1 / 10 ^ 6) qc (\<lambda>h. dot 32 (\<lambda>d. group_mean 2 (\<lambda>j. 0) h) (\<lambda>d. 0)) kc 0 - dot 32 (\<lambda>d. group_mean 2 (\<lambda>j. q j d) 0) (\<lambda>d. 1)\<bar>
        \<le> q_norm qc 0 * c_norm kc 0 * (32 * q_Delta qc 0 / (2 * o_b) + sqrt (32 / o_b\<^sup>2 - 1))
          + c_norm kc 0 * group_mean 2 (\<lambda>j. \<bar>query_head_norm 32 (\<lambda>h d. 0) q j - q_norm qc 0\<bar>) 0"
proof -
  have "orthogonal 32 (\<lambda>i j. if i = j then 1 else 0)" by (simp add: orthogonal_def if_distrib[of "\<lambda>c. c * _"] cong: if_cong)
  moreover have "1 / 10 ^ 6 \<le> sqrt (\<Sum>d<32::nat. (1 - 0 :: real)\<^sup>2)"
    by (rule order_trans[of _ 1]) (simp_all del: lessThan_nat_numeral)
  ultimately show ?thesis
    using packed_score_error[of 2 32 "\<lambda>h i j. if i = j then 1 else 0" 0 4 "\<lambda>h d. 1" "\<lambda>h d. 0" "\<lambda>h d. 0" "\<lambda>h d. (if even h then 1 else 3) * (if even d then 1 else - 1)"]
    unfolding Let_def by (simp only:) simp
qed

end
