(* ===== verification/Backend_TopP.thy ===== *)
theory Backend_TopP
  imports TopP
begin

text \<open>
  The CUDA kernel \<open>TopPMaskKernel\<close> of \<open>csrc/rabitq_int4_binary.cu\<close> behind \<open>ops.top_p_mask\<close>: a ternary search
  for a threshold instead of a sort. One block handles one row; the sums, minima and maxima that its threads
  reduce are taken over the whole row.
\<close>

definition mass_gt :: "real list \<Rightarrow> real \<Rightarrow> real" where
  "mass_gt probs pivot = sum_list (filter (\<lambda>x. x > pivot) probs)"

definition min_gt :: "real list \<Rightarrow> real \<Rightarrow> real \<Rightarrow> real" where
  "min_gt probs low high = fold min (filter (\<lambda>x. x > low) probs) high"

definition max_le :: "real list \<Rightarrow> real \<Rightarrow> real \<Rightarrow> real" where
  "max_le probs low high = fold max (filter (\<lambda>x. x \<le> high) probs) low"

definition narrow :: "real list \<Rightarrow> real \<Rightarrow> real \<Rightarrow> real \<Rightarrow> real \<times> real" where
  "narrow probs p low high =
     (let pivot_0 = (high + 2 * low) / 3; pivot_1 = (2 * high + low) / 3
      in if mass_gt probs pivot_1 \<ge> p then (pivot_1, high)
         else if mass_gt probs pivot_0 \<ge> p then (pivot_0, min pivot_1 (max_le probs low high))
         else (low, min pivot_0 (max_le probs low high)))"

partial_function (option) top_p_loop :: "real list \<Rightarrow> real \<Rightarrow> real \<Rightarrow> real \<Rightarrow> real option" where
  "top_p_loop probs p low high =
     (if min_gt probs low high \<noteq> max_le probs low high
      then top_p_loop probs p (fst (narrow probs p low high)) (snd (narrow probs p low high))
      else Some (fst (narrow probs p low high)))"

text \<open>\<open>None\<close> stands for a search that does not end.\<close>

definition top_p_mask :: "real list \<Rightarrow> real \<Rightarrow> bool list option" where
  "top_p_mask probs top_p =
     (if top_p \<ge> 1 then Some (replicate (length probs) True)
      else map_option (\<lambda>low. map (\<lambda>x. x > low) probs) (top_p_loop probs top_p 0 (fold max probs 0)))"

section \<open>Lemmas\<close>

lemma fold_min_Min: "fold min xs a = Min (insert a (set xs))" for a :: "'a::linorder"
  by (metis Min.set_eq_fold list.simps(15))

lemma fold_max_Max: "fold max xs a = Max (insert a (set xs))" for a :: "'a::linorder"
  by (metis Max.set_eq_fold list.simps(15))

lemma mass_gt_cong: "(\<And>x. x \<in> set probs \<Longrightarrow> x > a \<longleftrightarrow> x > b) \<Longrightarrow> mass_gt probs a = mass_gt probs b"
  by (simp add: mass_gt_def cong: filter_cong)

lemma between_exists:
  assumes "mass_gt probs high < mass_gt probs low" "low \<le> high"
  shows "\<exists>x \<in> set probs. low < x \<and> x \<le> high"
proof (rule ccontr)
  assume "\<not> ?thesis"
  then have "mass_gt probs low = mass_gt probs high" by (intro mass_gt_cong) (use assms(2) in force)
  then show False using assms(1) by simp
qed

definition bracket :: "real list \<Rightarrow> real \<Rightarrow> real \<Rightarrow> real \<Rightarrow> bool" where
  "bracket probs p low high \<longleftrightarrow> low \<le> high \<and> mass_gt probs high < p \<and> p \<le> mass_gt probs low"

lemma bracketD:
  assumes "bracket probs p low high"
  obtains x where "x \<in> set probs" "low < x" "x \<le> high"
  using between_exists[of probs high low] assms by (force simp: bracket_def)

lemma max_le_in_bracket:
  assumes "bracket probs p low high"
  shows "low < max_le probs low high" "max_le probs low high \<le> high" "max_le probs low high \<in> set probs"
    "\<And>x. x \<in> set probs \<Longrightarrow> x \<le> high \<Longrightarrow> x \<le> max_le probs low high"
proof -
  obtain x where x: "x \<in> set probs" "low < x" "x \<le> high" by (rule bracketD[OF assms])
  let ?S = "insert low (set (filter (\<lambda>x. x \<le> high) probs))"
  have M: "max_le probs low high = Max ?S" by (simp add: max_le_def fold_max_Max)
  have "x \<le> Max ?S" using x by (intro Max_ge) auto
  then show low: "low < max_le probs low high" using x(2) unfolding M by linarith
  have "Max ?S \<in> ?S" by (rule Max_in) auto
  then show "max_le probs low high \<le> high" "max_le probs low high \<in> set probs" using low assms unfolding M by (auto simp: bracket_def)
  show "y \<le> max_le probs low high" if "y \<in> set probs" "y \<le> high" for y
    unfolding M using that by (intro Max_ge) auto
qed

lemma min_gt_in_bracket:
  assumes "bracket probs p low high"
  shows "low < min_gt probs low high" "min_gt probs low high \<le> high" "min_gt probs low high \<in> set probs"
    "\<And>x. x \<in> set probs \<Longrightarrow> low < x \<Longrightarrow> min_gt probs low high \<le> x"
proof -
  obtain x where x: "x \<in> set probs" "low < x" "x \<le> high" by (rule bracketD[OF assms])
  let ?S = "insert high (set (filter (\<lambda>x. x > low) probs))"
  have M: "min_gt probs low high = Min ?S" by (simp add: min_gt_def fold_min_Min)
  have "Min ?S \<in> ?S" by (rule Min_in) auto
  moreover have le: "Min ?S \<le> x" "Min ?S \<le> high" using x by (auto intro!: Min_le)
  ultimately have "Min ?S \<in> set probs \<and> low < Min ?S"
  proof (cases "Min ?S = high")
    case True
    then have "Min ?S = x" using le(1) x(3) by linarith
    then show ?thesis using x(1,2) by simp
  qed simp
  then show "low < min_gt probs low high" "min_gt probs low high \<le> high" "min_gt probs low high \<in> set probs"
    unfolding M using le(2) by simp_all
  show "min_gt probs low high \<le> y" if "y \<in> set probs" "low < y" for y
    unfolding M using that by (intro Min_le) auto
qed

lemma mass_gt_max_le: "bracket probs p low high \<Longrightarrow> mass_gt probs (max_le probs low high) = mass_gt probs high"
  by (rule mass_gt_cong) (meson leD leI max_le_in_bracket(2,4) order.strict_trans2)

text \<open>One round keeps the bracket and leaves at most a third of it.\<close>

lemma narrow_bracket:
  assumes "bracket probs p low high" "narrow probs p low high = (low', high')"
  shows "bracket probs p low' high'" "low \<le> low'" "high' \<le> high" "high' - low' \<le> (high - low) / 3"
proof -
  let ?m = "max_le probs low high"
  define p0 where "p0 = (high + 2 * low) / 3"
  define p1 where "p1 = (2 * high + low) / 3"
  note b = assms(1)[unfolded bracket_def] and m = max_le_in_bracket[OF assms(1)]
  have mass_min: "mass_gt probs (min a ?m) < p" if "mass_gt probs a < p" for a
    using that b mass_gt_max_le[OF assms(1)] by (simp add: min_def)
  consider (hi) "mass_gt probs p1 \<ge> p" "low' = p1" "high' = high"
    | (mid) "mass_gt probs p1 < p" "mass_gt probs p0 \<ge> p" "low' = p0" "high' = min p1 ?m"
    | (lo) "mass_gt probs p0 < p" "low' = low" "high' = min p0 ?m"
    using assms(2) unfolding narrow_def Let_def p0_def[symmetric] p1_def[symmetric] by (auto simp: not_le split: if_splits)
  then have "bracket probs p low' high' \<and> low \<le> low' \<and> high' \<le> high \<and> high' - low' \<le> (high - low) / 3"
  proof cases
    case hi
    have "low \<le> p1" "p1 \<le> high" "high - p1 = (high - low) / 3" using b by (simp_all add: p1_def field_simps)
    then show ?thesis using hi b by (auto simp: bracket_def)
  next
    case mid
    have "p0 \<le> ?m"
      using between_exists[of probs high p0] mid(2) b m(4) by (fastforce simp: p0_def)
    moreover have "min p1 ?m \<le> p1" by simp
    moreover have "p0 \<le> p1" "low \<le> p0" "p1 - p0 = (high - low) / 3" using b by (simp_all add: p0_def p1_def field_simps)
    ultimately show ?thesis using mid b mass_min[OF mid(1)] m(2) by (auto simp: bracket_def)
  next
    case lo
    have "min p0 ?m \<le> p0" by simp
    moreover have "p0 - low = (high - low) / 3" "low \<le> p0" using b by (simp_all add: p0_def field_simps)
    ultimately show ?thesis using lo b mass_min[OF lo(1)] m(1,2) by (auto simp: bracket_def)
  qed
  then show "bracket probs p low' high'" "low \<le> low'" "high' \<le> high" "high' - low' \<le> (high - low) / 3" by simp_all
qed

text \<open>The threshold found: a value \<open>t\<close> of the row such that exactly the values from \<open>t\<close> on exceed the bound.\<close>

definition threshold_found :: "real list \<Rightarrow> real \<Rightarrow> real \<Rightarrow> bool" where
  "threshold_found probs p low \<longleftrightarrow> (\<exists>t \<in> set probs. (\<forall>x \<in> set probs. x > low \<longleftrightarrow> t \<le> x) \<and>
      p \<le> mass_gt probs low \<and> mass_gt probs t < p)"

lemma narrow_last:
  assumes "bracket probs p low high" "min_gt probs low high = max_le probs low high"
  shows "threshold_found probs p (fst (narrow probs p low high))"
proof -
  let ?t = "max_le probs low high"
  note mx = max_le_in_bracket[OF assms(1)] and mn = min_gt_in_bracket[OF assms(1), unfolded assms(2)]
  have same: "x = ?t" if "x \<in> set probs" "low < x" "x \<le> high" for x
    using mx(4)[OF that(1,3)] mn(4)[OF that(1,2)] by simp
  obtain low' high' where n: "narrow probs p low high = (low', high')" by fastforce
  note nb = narrow_bracket[OF assms(1) n]
  obtain y where "y \<in> set probs" "low' < y" "y \<le> high'" by (rule bracketD[OF nb(1)])
  with same[of y] nb(2,3) have "low' < ?t" by simp
  then have "x > low' \<longleftrightarrow> ?t \<le> x" if "x \<in> set probs" for x
    using mn(4)[OF that] nb(2) by (metis order.strict_trans1 order.strict_trans2)
  moreover have "mass_gt probs ?t < p" using mass_gt_max_le[OF assms(1)] assms(1) by (simp add: bracket_def)
  ultimately show ?thesis using nb(1) mx(3) by (auto simp: threshold_found_def n bracket_def)
qed

lemma gap_exists:
  fixes probs :: "real list"
  obtains gap where "0 < gap" "\<And>x y. x \<in> set probs \<Longrightarrow> y \<in> set probs \<Longrightarrow> x < y \<Longrightarrow> gap \<le> y - x"
proof
  let ?S = "insert 1 ((\<lambda>z. snd z - fst z) ` {z \<in> set probs \<times> set probs. fst z < snd z})"
  have fin: "finite ?S" by simp
  show "0 < Min ?S" by (subst Min_gr_iff[OF fin]) auto
  show "Min ?S \<le> y - x" if "x \<in> set probs" "y \<in> set probs" "x < y" for x y
    by (rule Min_le[OF fin]) (use that in \<open>auto intro!: image_eqI[of _ _ "(x, y)"]\<close>)
qed

text \<open>The search ends: the bracket becomes smaller than the smallest gap between two values of the row.\<close>

lemma top_p_loop_ends:
  assumes "\<And>x y. x \<in> set probs \<Longrightarrow> y \<in> set probs \<Longrightarrow> x < y \<Longrightarrow> gap \<le> y - x"
    and "bracket probs p low high" "high - low < gap * 3 ^ n"
  shows "\<exists>r. top_p_loop probs p low high = Some r \<and> threshold_found probs p r"
  using assms(2,3)
proof (induction n arbitrary: low high)
  case 0
  note mx = max_le_in_bracket[OF 0(1)] and mn = min_gt_in_bracket[OF 0(1)]
  have "min_gt probs low high \<le> max_le probs low high" using mn(4)[OF mx(3,1)] .
  moreover have "\<not> min_gt probs low high < max_le probs low high"
    using assms(1)[OF mn(3) mx(3)] mn(1) mx(2) 0(2) by force
  ultimately have "min_gt probs low high = max_le probs low high" by simp
  then show ?case using narrow_last[OF 0(1)] by (subst top_p_loop.simps) simp
next
  case (Suc n)
  obtain low' high' where n: "narrow probs p low high = (low', high')" by fastforce
  note nb = narrow_bracket[OF Suc.prems(1) n]
  show ?case
  proof (cases "min_gt probs low high = max_le probs low high")
    case True
    then show ?thesis using narrow_last[OF Suc.prems(1)] by (subst top_p_loop.simps) simp
  next
    case False
    have "high' - low' < gap * 3 ^ n" using nb(4) Suc.prems(2) by simp
    from Suc.IH[OF nb(1) this] show ?thesis using False n by (subst top_p_loop.simps) simp
  qed
qed

lemma sum_list_filter_pos:
  "(\<And>x. x \<in> set probs \<Longrightarrow> 0 \<le> x) \<Longrightarrow> sum_list (filter (\<lambda>x. x > 0) probs) = sum_list (probs :: real list)"
  by (induction probs) (auto simp: not_less order.antisym)

lemma initial_bracket:
  assumes "\<And>x. x \<in> set probs \<Longrightarrow> 0 \<le> x" "0 < p" "p \<le> sum_list probs"
  shows "bracket probs p 0 (fold max probs 0)"
proof -
  have M: "x \<le> fold max probs 0" if "x \<in> insert 0 (set probs)" for x
    unfolding fold_max_Max using that by (intro Max_ge) auto
  then have "filter (\<lambda>x. x > fold max probs 0) probs = []" by (auto simp: filter_empty_conv not_less)
  then show ?thesis using assms M[of 0] sum_list_filter_pos[OF assms(1)] by (simp add: bracket_def mass_gt_def)
qed

text \<open>C40. The search behind the top-p mask ends on every row of non-negative probabilities with a total mass of at least
  \<open>top_p > 0\<close>, and selects the smallest set of most probable tokens whose mass reaches \<open>top_p\<close>: there is a token
  \<open>t\<close> such that exactly the tokens at least as probable as \<open>t\<close> are selected, they have at least the mass \<open>top_p\<close>,
  and those more probable than \<open>t\<close> have less.\<close>

theorem top_p_mask_smallest_set:
  assumes "\<And>x. x \<in> set probs \<Longrightarrow> 0 \<le> x" "0 < top_p" "top_p < 1" "top_p \<le> sum_list probs"
  shows "\<exists>t \<in> set probs. top_p_mask probs top_p = Some (map (\<lambda>x. t \<le> x) probs) \<and>
    top_p \<le> sum_list (filter (\<lambda>x. t \<le> x) probs) \<and> sum_list (filter (\<lambda>x. t < x) probs) < top_p"
proof -
  obtain gap where gap: "0 < gap" "\<And>x y. x \<in> set probs \<Longrightarrow> y \<in> set probs \<Longrightarrow> x < y \<Longrightarrow> gap \<le> y - x"
    by (rule gap_exists[of probs]) blast
  obtain n where "fold max probs 0 / gap < 3 ^ n" using real_arch_pow[of 3] by auto
  then have "fold max probs 0 - 0 < gap * 3 ^ n" using gap(1) by (simp add: field_simps)
  then obtain low where "top_p_loop probs top_p 0 (fold max probs 0) = Some low" "threshold_found probs top_p low"
    using top_p_loop_ends[OF gap(2) initial_bracket[OF assms(1,2,4)]] by blast
  then obtain t where t: "t \<in> set probs" "\<And>x. x \<in> set probs \<Longrightarrow> x > low \<longleftrightarrow> t \<le> x"
    "top_p \<le> mass_gt probs low" "mass_gt probs t < top_p" and "top_p_mask probs top_p = Some (map (\<lambda>x. x > low) probs)"
    using assms(3) by (auto simp: threshold_found_def top_p_mask_def)
  then show ?thesis by (intro bexI[OF _ t(1)]) (simp add: mass_gt_def cong: filter_cong)
qed

text \<open>With the probabilities 1/2, 3/10, 1/5 and \<open>top_p\<close> 3/5 the first two tokens are selected, although their mass is 4/5.\<close>

theorem top_p_mask_smallest_set_witness:
  "top_p_mask [1 / 2, 1 / 5, 3 / 10] (3 / 5) = Some [True, False, True]"
proof -
  obtain t where t: "t \<in> set [1 / 2, 1 / 5, 3 / 10 :: real]"
    "top_p_mask [1 / 2, 1 / 5, 3 / 10] (3 / 5) = Some (map (\<lambda>x. t \<le> x) [1 / 2, 1 / 5, 3 / 10])"
    "3 / 5 \<le> sum_list (filter (\<lambda>x. t \<le> x) [1 / 2, 1 / 5, 3 / 10])" "sum_list (filter (\<lambda>x. t < x) [1 / 2, 1 / 5, 3 / 10]) < 3 / 5"
    by (rule bexE[OF top_p_mask_smallest_set[of "[1 / 2, 1 / 5, 3 / 10]" "3 / 5"]]) auto
  then show ?thesis by auto
qed

end
