(* ===== verification/Backend_Mask.thy ===== *)
theory Backend_Mask
  imports RQ_Prelude
begin

text \<open>
  Writing the selection mask of a request: \<open>update_topk_mask\<close> of \<open>v1/attention/backends/rabitq_ops.py\<close> with
  the Triton kernel \<open>rabitq_update_mask_kernel\<close>. The programs of a launch run concurrently without a barrier
  between them; their stores are the steps of an interleaving relation.
\<close>

section \<open>The kernel\<close>

text \<open>The launch arguments; indices are 32-bit integers that may be negative.\<close>

record launch =
  l_indices :: "int list"
  l_num_quantized :: nat
  l_pending_start :: nat
  l_total :: nat
  l_block :: nat

text \<open>A masked store: every lane whose guard holds stores \<open>v\<close> at its own address.\<close>

definition masked_store :: "nat \<Rightarrow> (nat \<Rightarrow> bool) \<Rightarrow> (nat \<Rightarrow> nat) \<Rightarrow> bool \<Rightarrow> bool list \<Rightarrow> bool list" where
  "masked_store BLOCK guard addr v m = fold (\<lambda>lane m. if guard lane then m[addr lane := v] else m) [0..<BLOCK] m"

definition store_zeros :: "launch \<Rightarrow> nat \<Rightarrow> bool list \<Rightarrow> bool list" where
  "store_zeros l pid = masked_store (l_block l) (\<lambda>lane. pid * l_block l + lane < l_total l) (\<lambda>lane. pid * l_block l + lane) False"

definition store_indices :: "launch \<Rightarrow> nat \<Rightarrow> bool list \<Rightarrow> bool list" where
  "store_indices l pid = masked_store (l_block l)
     (\<lambda>lane. let offset = pid * l_block l + lane
             in offset < length (l_indices l) \<and> l_indices l ! offset \<ge> 0 \<and> l_indices l ! offset < int (l_num_quantized l))
     (\<lambda>lane. nat (l_indices l ! (pid * l_block l + lane))) True"

definition store_pending :: "launch \<Rightarrow> nat \<Rightarrow> bool list \<Rightarrow> bool list" where
  "store_pending l pid = masked_store (l_block l) (\<lambda>lane. pid * l_block l + lane < l_total l - l_pending_start l)
     (\<lambda>lane. l_pending_start l + (pid * l_block l + lane)) True"

text \<open>The three stores of program \<open>pid\<close>, in program order.\<close>

fun kernel_store :: "launch \<Rightarrow> nat \<Rightarrow> nat \<Rightarrow> bool list \<Rightarrow> bool list" where
  "kernel_store l pid 0 = store_zeros l pid"
| "kernel_store l pid (Suc 0) = store_indices l pid"
| "kernel_store l pid (Suc (Suc n)) = store_pending l pid"

text \<open>How many stores each program has done, and the memory. Any program may do its next store.\<close>

type_synonym kernel_state = "(nat \<Rightarrow> nat) \<times> bool list"

inductive kernel_step :: "launch \<Rightarrow> nat \<Rightarrow> kernel_state \<Rightarrow> kernel_state \<Rightarrow> bool" for l grid where
  store: "pid < grid \<Longrightarrow> pc pid < 3 \<Longrightarrow> kernel_step l grid (pc, m) (pc(pid := Suc (pc pid)), kernel_store l pid (pc pid) m)"

inductive_cases kernel_stepE: "kernel_step l grid s s'"

text \<open>A memory the launch may leave: all programs are through.\<close>

definition kernel_result :: "launch \<Rightarrow> nat \<Rightarrow> bool list \<Rightarrow> bool list \<Rightarrow> bool" where
  "kernel_result l grid m m' \<longleftrightarrow> (\<exists>pc. (kernel_step l grid)\<^sup>*\<^sup>* (\<lambda>_. 0, m) (pc, m') \<and> (\<forall>pid<grid. pc pid = 3))"

section \<open>The host function\<close>

definition blocks :: "nat \<Rightarrow> nat \<Rightarrow> nat" where
  "blocks n block = (n + block - 1) div block"

definition mask_launch :: "int list option \<Rightarrow> nat \<Rightarrow> int \<Rightarrow> nat \<Rightarrow> launch" where
  "mask_launch indices num_quantized pending_start total_tokens =
     \<lparr>l_indices = (case indices of None \<Rightarrow> [] | Some xs \<Rightarrow> xs), l_num_quantized = num_quantized,
      l_pending_start = nat (max 0 (min pending_start (int total_tokens))), l_total = total_tokens, l_block = 256\<rparr>"

definition mask_grid :: "launch \<Rightarrow> nat" where
  "mask_grid l = Max {blocks (l_total l) (l_block l), blocks (l_total l - l_pending_start l) (l_block l),
                      blocks (length (l_indices l)) (l_block l), 1}"

text \<open>On the GPU, the relation between the memory before and after.\<close>

definition update_topk_mask_cuda :: "bool list \<Rightarrow> int list option \<Rightarrow> nat \<Rightarrow> int \<Rightarrow> nat \<Rightarrow> bool list \<Rightarrow> bool" where
  "update_topk_mask_cuda m indices num_quantized pending_start total_tokens m' \<longleftrightarrow>
     (if total_tokens = 0 then m' = m
      else (let l = mask_launch indices num_quantized pending_start total_tokens in kernel_result l (mask_grid l) m m'))"

text \<open>On the CPU, with PyTorch's indexing: a negative index counts from the end, an index outside raises.\<close>

definition torch_index :: "nat \<Rightarrow> int \<Rightarrow> nat result" where
  "torch_index n i = (if 0 \<le> i \<and> i < int n then Inr (nat i) else if - int n \<le> i \<and> i < 0 then Inr (nat (i + int n)) else Inl IndexError)"

fun set_indices :: "bool list \<Rightarrow> int list \<Rightarrow> bool list result" where
  "set_indices m [] = Inr m"
| "set_indices m (i # is) = bindE (torch_index (length m) i) (\<lambda>j. set_indices (m[j := True]) is)"

definition update_topk_mask_cpu :: "bool list \<Rightarrow> int list option \<Rightarrow> nat \<Rightarrow> int \<Rightarrow> nat \<Rightarrow> bool list result" where
  "update_topk_mask_cpu m indices num_quantized pending_start total_tokens =
     (if total_tokens = 0 then Inr m
      else (let ps = nat (max 0 (min pending_start (int total_tokens)));
                m0 = set_slice m 0 (replicate (min total_tokens (length m)) False)
            in bindE (case indices of None \<Rightarrow> Inr m0 | Some xs \<Rightarrow> set_indices m0 xs)
                 (\<lambda>m1. Inr (map (\<lambda>i. if ps \<le> i \<and> i < total_tokens then True else m1 ! i) [0..<length m1]))))"

section \<open>Lemmas\<close>

lemma length_fold_stores [simp]:
  "length (fold (\<lambda>lane m. if guard lane then m[addr lane := v] else m) lanes m) = length m"
  by (induction lanes arbitrary: m) auto

lemma nth_fold_stores:
  "i < length m \<Longrightarrow> fold (\<lambda>lane m. if guard lane then m[addr lane := v] else m) lanes m ! i =
     (if \<exists>lane \<in> set lanes. guard lane \<and> addr lane = i then v else m ! i)"
  by (induction lanes arbitrary: m) (auto simp: nth_list_update)

lemma length_masked_store [simp]: "length (masked_store B guard addr v m) = length m"
  by (simp add: masked_store_def)

lemma nth_masked_store:
  "i < length m \<Longrightarrow> masked_store B guard addr v m ! i = (if \<exists>lane<B. guard lane \<and> addr lane = i then v else m ! i)"
  by (auto simp: masked_store_def nth_fold_stores)

lemma length_stores [simp]:
  "length (store_zeros l pid m) = length m" "length (store_indices l pid m) = length m" "length (store_pending l pid m) = length m"
  by (simp_all add: store_zeros_def store_indices_def store_pending_def)

lemma length_kernel_store [simp]: "length (kernel_store l pid n m) = length m"
  by (cases "(l, pid, n)" rule: kernel_store.cases) simp_all

lemma nth_store_zeros:
  assumes "i < length m" "0 < l_block l"
  shows "store_zeros l pid m ! i = (if i div l_block l = pid \<and> i < l_total l then False else m ! i)"
proof -
  have "(\<exists>lane<l_block l. pid * l_block l + lane < l_total l \<and> pid * l_block l + lane = i) \<longleftrightarrow> i div l_block l = pid \<and> i < l_total l"
    using assms(2) by (auto simp: intro!: exI[of _ "i mod l_block l"])
  then show ?thesis using assms(1) by (simp add: store_zeros_def nth_masked_store)
qed

lemma nth_store_pending:
  assumes "i < length m" "0 < l_block l"
  shows "store_pending l pid m ! i =
    (if l_pending_start l \<le> i \<and> (i - l_pending_start l) div l_block l = pid \<and> i < l_total l then True else m ! i)"
proof -
  let ?o = "i - l_pending_start l"
  have "(\<exists>lane<l_block l. pid * l_block l + lane < l_total l - l_pending_start l \<and> l_pending_start l + (pid * l_block l + lane) = i)
      \<longleftrightarrow> l_pending_start l \<le> i \<and> ?o div l_block l = pid \<and> i < l_total l"
    using assms(2) by (auto intro!: exI[of _ "?o mod l_block l"])
  then show ?thesis using assms(1) by (simp add: store_pending_def nth_masked_store)
qed

lemma nth_store_indices:
  assumes "i < length m" "0 < l_block l"
  shows "store_indices l pid m ! i =
    (if \<exists>k < length (l_indices l). k div l_block l = pid \<and> l_indices l ! k = int i \<and> i < l_num_quantized l then True else m ! i)"
proof -
  have "(\<exists>lane<l_block l. (let offset = pid * l_block l + lane
             in offset < length (l_indices l) \<and> l_indices l ! offset \<ge> 0 \<and> l_indices l ! offset < int (l_num_quantized l)) \<and>
         nat (l_indices l ! (pid * l_block l + lane)) = i)
      \<longleftrightarrow> (\<exists>k < length (l_indices l). k div l_block l = pid \<and> l_indices l ! k = int i \<and> i < l_num_quantized l)" (is "?L \<longleftrightarrow> ?R")
  proof
    assume ?L
    then obtain lane where "lane < l_block l" "pid * l_block l + lane < length (l_indices l)"
      "l_indices l ! (pid * l_block l + lane) = int i" "i < l_num_quantized l" by (auto simp: Let_def)
    then show ?R by (intro exI[of _ "pid * l_block l + lane"]) auto
  next
    assume ?R
    then obtain k where "k < length (l_indices l)" "k div l_block l = pid" "l_indices l ! k = int i" "i < l_num_quantized l" by auto
    then show ?L using assms(2) by (intro exI[of _ "k mod l_block l"]) (auto simp: Let_def)
  qed
  then show ?thesis using assms(1) by (simp add: store_indices_def nth_masked_store)
qed

section \<open>Schedules\<close>

definition run_program :: "launch \<Rightarrow> nat \<Rightarrow> bool list \<Rightarrow> bool list" where
  "run_program l pid m = store_pending l pid (store_indices l pid (store_zeros l pid m))"

lemma length_run_program [simp]: "length (run_program l pid m) = length m"
  by (simp add: run_program_def)

lemma run_program_steps:
  assumes "pid < grid" "pc pid = 0"
  shows "(kernel_step l grid)\<^sup>*\<^sup>* (pc, m) (pc(pid := 3), run_program l pid m)"
proof -
  let ?m1 = "store_zeros l pid m" let ?m2 = "store_indices l pid ?m1"
  have "kernel_step l grid (pc, m) (pc(pid := 1), ?m1)"
    using store[of pid grid pc l m] assms by simp
  moreover have "kernel_step l grid (pc(pid := 1), ?m1) (pc(pid := 2), ?m2)"
    using store[of pid grid "pc(pid := 1)" l ?m1] assms by (simp add: numeral_2_eq_2)
  moreover have "kernel_step l grid (pc(pid := 2), ?m2) (pc(pid := 3), run_program l pid m)"
    using store[of pid grid "pc(pid := 2)" l ?m2] assms by (simp add: run_program_def numeral_2_eq_2 numeral_3_eq_3)
  ultimately show ?thesis by (meson converse_rtranclp_into_rtranclp r_into_rtranclp)
qed

text \<open>The programs one after the other.\<close>

lemma sequential_steps:
  "n \<le> grid \<Longrightarrow> (kernel_step l grid)\<^sup>*\<^sup>* (\<lambda>_. 0, m) (\<lambda>p. if p < n then 3 else 0, fold (run_program l) [0..<n] m)"
proof (induction n)
  case (Suc n)
  let ?pc = "\<lambda>p. if p < n then 3 else 0 :: nat"
  have "?pc(n := 3) = (\<lambda>p. if p < Suc n then 3 else 0)" by (auto simp: fun_eq_iff)
  then have "(kernel_step l grid)\<^sup>*\<^sup>* (?pc, fold (run_program l) [0..<n] m) (\<lambda>p. if p < Suc n then 3 else 0, fold (run_program l) [0..<Suc n] m)"
    using run_program_steps[of n grid ?pc l "fold (run_program l) [0..<n] m"] Suc.prems by simp
  then show ?case using Suc by (meson Suc_leD rtranclp_trans)
qed simp

lemma sequential_result: "kernel_result l grid m (fold (run_program l) [0..<grid] m)"
  using sequential_steps[of grid grid l m] unfolding kernel_result_def by (intro exI[of _ "\<lambda>p. if p < grid then 3 else 0"]) simp

text \<open>With a single program there is only one schedule.\<close>

lemma single_program_steps:
  "(kernel_step l 1)\<^sup>*\<^sup>* (\<lambda>_. 0, m) s \<Longrightarrow> fst s 0 \<le> 3 \<and> snd s = fold (kernel_store l 0) [0..<fst s 0] m"
  by (induction rule: rtranclp_induct) (auto elim!: kernel_stepE)

lemma single_program_result: "kernel_result l 1 m m' \<longleftrightarrow> m' = run_program l 0 m"
proof
  assume "kernel_result l 1 m m'"
  then obtain pc where "(kernel_step l 1)\<^sup>*\<^sup>* (\<lambda>_. 0, m) (pc, m')" "pc 0 = 3" by (auto simp: kernel_result_def)
  from single_program_steps[OF this(1)] this(2) show "m' = run_program l 0 m"
    by (simp add: run_program_def upt_rec numeral_3_eq_3 numeral_2_eq_2)
qed (use sequential_result[of l 1 m] in simp)

text \<open>What is stored in a position, and by which program.\<close>

definition selected :: "launch \<Rightarrow> nat \<Rightarrow> bool" where
  "selected l i \<longleftrightarrow> (int i \<in> set (l_indices l) \<and> i < l_num_quantized l) \<or> (l_pending_start l \<le> i \<and> i < l_total l)"

lemma kernel_store_selected:
  assumes "i < length m" "0 < l_block l" "kernel_store l pid n m ! i"
  shows "selected l i \<or> m ! i \<and> (n = 0 \<and> i < l_total l \<longrightarrow> i div l_block l \<noteq> pid)"
  using assms by (cases "(l, pid, n)" rule: kernel_store.cases)
    (auto simp: nth_store_zeros nth_store_pending nth_store_indices selected_def in_set_conv_nth split: if_splits)

text \<open>No schedule selects anything that is not an index or pending: a position is cleared by its own program.\<close>

lemma kernel_steps_sound:
  assumes "(kernel_step l grid)\<^sup>*\<^sup>* (\<lambda>_. 0, m) s" "length m = l_total l" "0 < l_block l"
  shows "length (snd s) = l_total l \<and> (\<forall>i < l_total l. snd s ! i \<longrightarrow> selected l i \<or> fst s (i div l_block l) = 0)"
  using assms(1)
proof (induction rule: rtranclp_induct)
  case (step s s')
  obtain pid pc m' where st: "s = (pc, m')" "s' = (pc(pid := Suc (pc pid)), kernel_store l pid (pc pid) m')"
    using step(2) by (auto elim: kernel_stepE)
  have IH: "length m' = l_total l" "\<And>i. i < l_total l \<Longrightarrow> m' ! i \<Longrightarrow> selected l i \<or> pc (i div l_block l) = 0"
    using step.IH by (simp_all add: st)
  have "selected l i \<or> i div l_block l \<noteq> pid \<and> pc (i div l_block l) = 0"
    if "i < l_total l" "kernel_store l pid (pc pid) m' ! i" for i
    using kernel_store_selected[of i m' l pid "pc pid"] IH(1) IH(2)[OF that(1)] that assms(3) by auto
  then show ?case using IH(1) by (fastforce simp: st)
qed (simp add: assms(2))

lemma div_less_blocks: "i < n \<Longrightarrow> 0 < b \<Longrightarrow> i div b < blocks n b"
proof -
  assume "i < n" "0 < b"
  then have "Suc (i div b) = (i + b) div b" by simp
  also have "\<dots> \<le> (n + b - 1) div b" using \<open>i < n\<close> by (intro div_le_mono) simp
  finally show ?thesis by (simp add: blocks_def)
qed

lemma mask_grid_total: "blocks (l_total l) (l_block l) \<le> mask_grid l"
  unfolding mask_grid_def by (rule Max_ge) auto

section \<open>Correctness of the mask\<close>

text \<open>The intended mask: the selected quantized tokens and all pending tokens.\<close>

definition wanted_mask :: "int list \<Rightarrow> nat \<Rightarrow> nat \<Rightarrow> bool list" where
  "wanted_mask xs pending_start ntok = map (\<lambda>i. int i \<in> set xs \<or> pending_start \<le> i) [0..<ntok]"

lemma set_indices_ok:
  "(\<And>x. x \<in> set xs \<Longrightarrow> 0 \<le> x \<and> x < int (length m)) \<Longrightarrow>
   set_indices m xs = Inr (map (\<lambda>i. int i \<in> set xs \<or> m ! i) [0..<length m])"
proof (induction xs arbitrary: m)
  case Nil
  then show ?case by (simp add: map_nth)
next
  case (Cons x xs)
  have "set_indices (m[nat x := True]) xs = Inr (map (\<lambda>i. int i \<in> set xs \<or> m[nat x := True] ! i) [0..<length m])"
    using Cons.IH[of "m[nat x := True]"] Cons.prems by simp
  moreover have "torch_index (length m) x = Inr (nat x)" using Cons.prems[of x] by (simp add: torch_index_def)
  moreover have "(int i \<in> set xs \<or> m[nat x := True] ! i) = (int i \<in> set (x # xs) \<or> m ! i)" if "i < length m" for i
    using Cons.prems[of x] that by (auto simp: nth_list_update split: if_splits)
  ultimately show ?case by simp
qed

lemma cpu_mask:
  assumes "length m = ntok" "num_quantized \<le> pending_start" "pending_start \<le> ntok" "\<And>x. x \<in> set xs \<Longrightarrow> 0 \<le> x \<and> x < int num_quantized"
  shows "update_topk_mask_cpu m (Some xs) num_quantized (int pending_start) ntok = Inr (wanted_mask xs pending_start ntok)"
proof -
  have "set_indices (set_slice m 0 (replicate ntok False)) xs =
      Inr (map (\<lambda>i. int i \<in> set xs \<or> replicate ntok False ! i) [0..<ntok])"
    using set_indices_ok[of xs "replicate ntok False"] assms by (force simp: set_slice_def)
  then show ?thesis
    using assms(1-3) by (auto simp: update_topk_mask_cpu_def wanted_mask_def min_def max_def)
qed

lemma wanted_mask_selected:
  assumes "num_quantized \<le> pending_start" "pending_start \<le> ntok" "\<And>x. x \<in> set xs \<Longrightarrow> 0 \<le> x \<and> x < int num_quantized" "i < ntok"
  shows "selected (mask_launch (Some xs) num_quantized (int pending_start) ntok) i \<longleftrightarrow> wanted_mask xs pending_start ntok ! i"
  using assms(2,4) assms(3)[of "int i"] by (auto simp: selected_def mask_launch_def wanted_mask_def)

lemma launch_fields [simp]:
  "l_total (mask_launch xs nq ps ntok) = ntok" "l_block (mask_launch xs nq ps ntok) = 256" "l_num_quantized (mask_launch xs nq ps ntok) = nq"
  by (simp_all add: mask_launch_def)

lemma run_single_program:
  assumes "length m = l_total l" "l_total l \<le> l_block l" "length (l_indices l) \<le> l_block l" "0 < l_block l" "i < l_total l"
  shows "run_program l 0 m ! i = selected l i"
  using assms by (auto simp: run_program_def nth_store_zeros nth_store_pending nth_store_indices selected_def in_set_conv_nth)

text \<open>The first pending token, set by program 0, is cleared by its own program when that runs later.\<close>

lemma pending_token_cleared:
  assumes "length m = l_total l" "0 < l_block l" "l_num_quantized l \<le> l_pending_start l" "l_pending_start l < l_total l"
    and "l_block l \<le> l_pending_start l" "l_pending_start l div l_block l < n"
  shows "\<not> fold (run_program l) [0..<n] m ! l_pending_start l"
  using assms(6)
proof (induction n)
  case (Suc n)
  let ?ps = "l_pending_start l" and ?m = "fold (run_program l) [0..<n] m"
  have len: "length (fold (run_program l) ns m) = l_total l" for ns
    using assms(1) by (induction ns arbitrary: m) simp_all
  have "0 < ?ps div l_block l" using assms(2,5) by (simp add: div_greater_zero_iff)
  then have n: "0 < n" using Suc.prems by simp
  have "run_program l n ?m ! ?ps = (if ?ps div l_block l = n then False else ?m ! ?ps)"
    using n assms(2-4) len[of "[0..<n]"]
    by (simp add: run_program_def nth_store_zeros nth_store_pending nth_store_indices)
  then show ?case using Suc by auto
qed simp

lemma cuda_mask_sound:
  assumes "length m = ntok" "0 < ntok" "num_quantized \<le> pending_start" "pending_start \<le> ntok"
    and "\<And>x. x \<in> set xs \<Longrightarrow> 0 \<le> x \<and> x < int num_quantized"
    and "update_topk_mask_cuda m (Some xs) num_quantized (int pending_start) ntok m'"
  shows "length m' = ntok \<and> (\<forall>i<ntok. m' ! i \<longrightarrow> wanted_mask xs pending_start ntok ! i)"
proof -
  let ?l = "mask_launch (Some xs) num_quantized (int pending_start) ntok"
  obtain pc where run: "(kernel_step ?l (mask_grid ?l))\<^sup>*\<^sup>* (\<lambda>_. 0, m) (pc, m')" "\<forall>pid<mask_grid ?l. pc pid = 3"
    using assms(2,6) by (auto simp: update_topk_mask_cuda_def kernel_result_def Let_def)
  have "pc (i div 256) = 3" if "i < ntok" for i
    using run(2) div_less_blocks[OF that, of 256] mask_grid_total[of ?l] by simp
  then show ?thesis
    using kernel_steps_sound[OF run(1)] assms(1) wanted_mask_selected[OF assms(3-5)] by fastforce
qed

lemma cuda_mask_single_program:
  assumes "length m = ntok" "0 < ntok" "num_quantized \<le> pending_start" "pending_start \<le> ntok"
    and "\<And>x. x \<in> set xs \<Longrightarrow> 0 \<le> x \<and> x < int num_quantized" and "ntok \<le> 256" "length xs \<le> 256"
  shows "update_topk_mask_cuda m (Some xs) num_quantized (int pending_start) ntok m' \<longleftrightarrow> m' = wanted_mask xs pending_start ntok"
proof -
  let ?l = "mask_launch (Some xs) num_quantized (int pending_start) ntok"
  have "blocks n 256 \<le> 1" if "n \<le> 256" for n using that div_le_mono[of "n + 255" 511 256] by (simp add: blocks_def)
  then have "mask_grid ?l = 1"
    using assms(6,7) unfolding mask_grid_def by (intro Max_eqI) (auto simp: mask_launch_def)
  moreover have "run_program ?l 0 m = wanted_mask xs pending_start ntok"
  proof (rule nth_equalityI)
    fix i assume "i < length (run_program ?l 0 m)"
    then have "i < ntok" using assms(1) by simp
    then show "run_program ?l 0 m ! i = wanted_mask xs pending_start ntok ! i"
      using run_single_program[of m ?l i] wanted_mask_selected[where i = i, OF assms(3-5)] assms(1,6,7) by (simp add: mask_launch_def)
  qed (simp add: assms(1) wanted_mask_def)
  ultimately show ?thesis using assms(2) by (simp only: update_topk_mask_cuda_def Let_def single_program_result) simp
qed

lemma cuda_mask_loses_pending:
  assumes "length m = ntok" "0 < ntok" "num_quantized \<le> pending_start" "pending_start \<le> ntok" "256 \<le> pending_start" "pending_start < ntok"
  shows "\<exists>m'. update_topk_mask_cuda m (Some xs) num_quantized (int pending_start) ntok m' \<and>
    wanted_mask xs pending_start ntok ! pending_start \<and> \<not> m' ! pending_start"
proof -
  let ?l = "mask_launch (Some xs) num_quantized (int pending_start) ntok"
  let ?m = "fold (run_program ?l) [0..<mask_grid ?l] m"
  have ps: "l_pending_start ?l = pending_start" using assms(4) by (simp add: mask_launch_def)
  have "pending_start div 256 < mask_grid ?l" using assms(6) div_less_blocks[of pending_start ntok 256] mask_grid_total[of ?l] by simp
  then have "\<not> ?m ! pending_start" using pending_token_cleared[of m ?l] assms ps by simp
  moreover have "update_topk_mask_cuda m (Some xs) num_quantized (int pending_start) ntok ?m"
    using assms(2) sequential_result[of ?l "mask_grid ?l" m] by (simp only: update_topk_mask_cuda_def Let_def) simp
  ultimately show ?thesis using assms(6) by (intro exI[of _ ?m]) (simp add: wanted_mask_def)
qed

text \<open>C34. Writing the mask of a request with at least one token, when the indices address quantized tokens. On the CPU the
  result is the wanted mask. On the GPU no schedule selects more; up to 256 tokens and indices (one program) every schedule leaves exactly the
  wanted mask. But when more than 255 tokens are quantized, some schedule of the programs loses the oldest pending token, because
  the program that clears its position may run after the program that sets it.\<close>

theorem mask_kernel_schedules:
  assumes "length m = ntok" "0 < ntok" "num_quantized \<le> pending_start" "pending_start \<le> ntok"
    and "\<And>x. x \<in> set xs \<Longrightarrow> 0 \<le> x \<and> x < int num_quantized"
  shows "update_topk_mask_cpu m (Some xs) num_quantized (int pending_start) ntok = Inr (wanted_mask xs pending_start ntok) \<and>
    (\<forall>m'. update_topk_mask_cuda m (Some xs) num_quantized (int pending_start) ntok m' \<longrightarrow>
       length m' = ntok \<and> (\<forall>i<ntok. m' ! i \<longrightarrow> wanted_mask xs pending_start ntok ! i)) \<and>
    (ntok \<le> 256 \<and> length xs \<le> 256 \<longrightarrow>
       (\<forall>m'. update_topk_mask_cuda m (Some xs) num_quantized (int pending_start) ntok m' \<longleftrightarrow> m' = wanted_mask xs pending_start ntok)) \<and>
    (256 \<le> pending_start \<and> pending_start < ntok \<longrightarrow>
       (\<exists>m'. update_topk_mask_cuda m (Some xs) num_quantized (int pending_start) ntok m' \<and>
             wanted_mask xs pending_start ntok ! pending_start \<and> \<not> m' ! pending_start))"
  using cpu_mask[OF assms(1,3,4,5)] cuda_mask_sound[OF assms] cuda_mask_single_program[OF assms] cuda_mask_loses_pending[OF assms(1-4)]
  by blast

text \<open>300 quantized tokens, one of them selected, and one pending token.\<close>

theorem mask_kernel_schedules_witness:
  "update_topk_mask_cpu (replicate 301 False) (Some [7]) 300 300 301 = Inr (wanted_mask [7] 300 301) \<and>
   (\<exists>m'. update_topk_mask_cuda (replicate 301 False) (Some [7]) 300 300 301 m' \<and> wanted_mask [7] 300 301 ! 300 \<and> \<not> m' ! 300) \<and>
   update_topk_mask_cuda [True, True, True] (Some [0]) 2 2 3 (wanted_mask [0] 2 3) \<and> wanted_mask [0] 2 3 = [True, False, True]"
proof -
  have w: "wanted_mask [0] 2 3 = [True, False, True]" by (simp add: wanted_mask_def upt_rec)
  show ?thesis
    using mask_kernel_schedules[of "replicate 301 False" 301 300 300 "[7]"] mask_kernel_schedules[of "[True, True, True]" 3 2 2 "[0]"] w
    by simp
qed

end
