(* ===== verification/Backend_State.thy ===== *)
theory Backend_State
  imports Backend_Quant Backend_TopP Backend_Mask
begin

text \<open>
  State and control flow of the vLLM attention backend (\<open>v1/attention/backends/rabitq.py\<close>): what a layer keeps per
  request, how prefill and decode batches update it, and how the selection mask of a decode batch is computed.
  The quantization stream is synchronised with the default stream on both sides, so the operations are sequential.
  FlashInfer's attention itself reads this state but does not change it and is left out.
\<close>

section \<open>Data\<close>

text \<open>
  The rows of the metadata tensors (bits, bit counts, norms and the two products), which are allocated, copied and written
  together; the packed bits are always written as \<open>pack_binary_to_int32\<close> of the bits of the same row. \<open>torch.empty\<close>
  leaves rows undefined: \<open>None\<close>.
\<close>

type_synonym row_buffer = "key_code option list"

record request_state =
  sum_q :: head_rows
  sum_k :: head_rows
  rq_count :: nat
  prepared :: bool
  centroid_q :: "head_rows option"
  centroid_k :: "head_rows option"
  total_tokens :: nat
  meta_rows :: "row_buffer option"
  rq_cq_dot_ck :: "(nat \<Rightarrow> real) option"
  metadata_capacity :: nat
  metadata_write_index :: nat
  num_pending :: nat

type_synonym span = "string \<times> nat \<times> nat" \<comment> \<open>request, first and last+1 row in the batch\<close>

record layer_state =
  ls_rotation :: "(head_mats \<times> head_mats) option"
  request_states :: "string \<rightharpoonup> request_state"
  pending_quantization :: "(head_rows list \<times> span list) option"
  triton_available :: bool

record runtime_state =
  b_q :: "int option"
  rt_topk :: "int option"
  rt_topp :: "real option"
  quant_batch :: nat
  layer_states :: "string \<rightharpoonup> layer_state"
  rotation_cache :: "(head_mats \<times> head_mats) option"
  mask_buffer :: "bool list option"
  max_total_kv_tokens :: nat
  offsets_buffer :: "nat list option"
  max_batch_size :: nat

text \<open>Sizes of a model; all layers of a worker share them, the device and the dtype.\<close>

record model_dims =
  d_num_heads :: nat
  d_num_kv_heads :: nat
  d_group :: nat
  d_head_size :: nat

text \<open>
  What the device decides: whether tensors are on a GPU, whether a launch of the fused kernel raises, the block size the
  tuner picks, the matrices that are loaded or generated, the outcome of the mask kernel and of \<open>torch.topk\<close>, whether the FlashInfer wrapper raises.
\<close>

record device_env =
  e_cuda :: bool
  e_launch_ok :: bool
  e_block_d :: nat
  e_matrices :: "head_mats \<times> head_mats"
  e_update_mask :: "bool list \<Rightarrow> int list option \<Rightarrow> nat \<Rightarrow> int \<Rightarrow> nat \<Rightarrow> bool list"
  e_topk :: topk_op
  e_flt_max :: real
  e_wrapper_ok :: bool

record batch_meta =
  req_ids :: "string list option"
  query_start_loc :: "nat list option"
  max_q_len :: nat
  num_decode_tokens :: nat
  slot_mapping :: "int list"
  block_tables :: "nat list list option"
  meta_b_q :: "int option"
  meta_topk :: "int option"
  meta_topp :: "real option"
  has_wrapper :: bool

type_synonym paged_keys = "head_rows list list" \<comment> \<open>block, offset\<close>

section \<open>Requests and statistics of the prompt\<close>

definition init_request_state :: request_state where
  "init_request_state = \<lparr>sum_q = \<lambda>h d. 0, sum_k = \<lambda>h d. 0, rq_count = 0, prepared = False, centroid_q = None, centroid_k = None,
     total_tokens = 0, meta_rows = None, rq_cq_dot_ck = None, metadata_capacity = 0, metadata_write_index = 0, num_pending = 0\<rparr>"

definition init_layer_state :: layer_state where
  "init_layer_state = \<lparr>ls_rotation = None, request_states = Map.empty, pending_quantization = None, triton_available = True\<rparr>"

definition get_request_state :: "layer_state \<Rightarrow> string \<Rightarrow> request_state \<times> layer_state" where
  "get_request_state ls rid = (case request_states ls rid of
     Some st \<Rightarrow> (st, ls)
   | None \<Rightarrow> (init_request_state, ls\<lparr>request_states := (request_states ls)(rid \<mapsto> init_request_state)\<rparr>))"

definition put_request :: "string \<Rightarrow> request_state \<Rightarrow> layer_state \<Rightarrow> layer_state" where
  "put_request rid st ls = ls\<lparr>request_states := (request_states ls)(rid \<mapsto> st)\<rparr>"

definition rows_between :: "nat \<Rightarrow> nat \<Rightarrow> 'a list \<Rightarrow> 'a list" where
  "rows_between st en xs = take (en - st) (drop st xs)"

definition sum_rows :: "head_rows list \<Rightarrow> head_rows" where
  "sum_rows xs = (\<lambda>h d. \<Sum>x\<leftarrow>xs. x h d)"

text \<open>The rows of the requests of a batch; too few start positions fail the assertion.\<close>

definition spans_of :: "string list \<Rightarrow> nat list \<Rightarrow> span list result" where
  "spans_of ids locs = (if length locs < length ids + 1 then Inl AssertionError
                        else Inr (zip ids (zip locs (tl locs))))"

definition prefill_stats_step :: "head_rows list \<Rightarrow> head_rows list \<Rightarrow> span \<Rightarrow> layer_state \<Rightarrow> layer_state" where
  "prefill_stats_step query key sp ls =
     (case sp of (rid, start, en) \<Rightarrow>
        if en \<le> start then ls
        else (let (st, ls1) = get_request_state ls rid
              in if prepared st then ls1
                 else put_request rid
                   (st\<lparr>sum_q := (\<lambda>h d. sum_q st h d + sum_rows (rows_between start en query) h d),
                       sum_k := (\<lambda>h d. sum_k st h d + sum_rows (rows_between start en key) h d),
                       rq_count := rq_count st + (en - start), total_tokens := total_tokens st + (en - start)\<rparr>) ls1))"

definition update_prefill_stats :: "head_rows list \<Rightarrow> head_rows list \<Rightarrow> batch_meta \<Rightarrow> layer_state \<Rightarrow> layer_state result" where
  "update_prefill_stats query key m ls =
     (case (req_ids m, query_start_loc m) of
        (Some ids, Some locs) \<Rightarrow>
          if ids = [] then Inr ls else bindE (spans_of ids locs) (\<lambda>sps. Inr (fold (prefill_stats_step query key) sps ls))
      | _ \<Rightarrow> Inr ls)"

section \<open>Quantization\<close>

text \<open>
  \<open>_ensure_rotation\<close>: the cache of the worker is used when it is filled, else the matrices are loaded or
  generated and cached.
\<close>

definition ensure_rotation ::
  "device_env \<Rightarrow> (head_mats \<times> head_mats) option \<times> layer_state \<Rightarrow> (head_mats \<times> head_mats) option \<times> layer_state" where
  "ensure_rotation e cls =
     (case cls of (cache, ls) \<Rightarrow>
        if ls_rotation ls \<noteq> None then (cache, ls)
        else (case cache of
                Some R \<Rightarrow> (cache, ls\<lparr>ls_rotation := Some R\<rparr>)
              | None \<Rightarrow> (Some (e_matrices e), ls\<lparr>ls_rotation := Some (e_matrices e)\<rparr>)))"

text \<open>The fused kernel when it is available, else the torch code; a failed launch switches the kernel off.\<close>

definition quantize_keys ::
  "device_env \<Rightarrow> model_dims \<Rightarrow> head_mats \<Rightarrow> head_rows \<Rightarrow> head_rows \<Rightarrow> head_rows list \<Rightarrow> bool \<Rightarrow> key_code list \<times> bool" where
  "quantize_keys e dm rotation_t ck cq keys avail =
     (if avail \<and> e_cuda e \<and> e_launch_ok e
      then (map (quantize_keys_fused_kernel (e_block_d e) (d_head_size dm) rotation_t ck cq) keys, avail)
      else (map (quantize_key_torch (d_head_size dm) rotation_t ck cq) keys, avail \<and> \<not> e_cuda e))"

text \<open>The query centroid per KV head.\<close>

definition kv_centroid :: "model_dims \<Rightarrow> head_rows \<Rightarrow> head_rows" where
  "kv_centroid dm cq = (\<lambda>n d. group_mean (d_group dm) (\<lambda>h. cq h d) n)"

definition prefill_quantize_step :: "device_env \<Rightarrow> model_dims \<Rightarrow> head_rows list \<Rightarrow> span \<Rightarrow> layer_state \<Rightarrow> layer_state" where
  "prefill_quantize_step e dm keys sp ls =
     (case sp of (rid, start, en) \<Rightarrow>
        (case request_states ls rid of
           None \<Rightarrow> ls
         | Some st \<Rightarrow>
             if prepared st \<or> rq_count st = 0 \<or> en \<le> start then ls
             else (let req_keys = rows_between start en keys; n = length req_keys;
                       cq = (\<lambda>h d. sum_q st h d / real (rq_count st)); ck = (\<lambda>h d. sum_k st h d / real (rq_count st));
                       rotation_t = snd (the (ls_rotation ls));
                       (cs, avail) = quantize_keys e dm rotation_t ck (kv_centroid dm cq) req_keys (triton_available ls);
                       capacity = n + max (n * 10) 512
                   in put_request rid
                        (st\<lparr>centroid_q := Some cq, centroid_k := Some ck,
                            rq_cq_dot_ck := Some (\<lambda>n. dot (d_head_size dm) (kv_centroid dm cq n) (ck n)),
                            metadata_capacity := capacity,
                            meta_rows := Some (set_slice (replicate capacity None) 0 (map Some cs)),
                            metadata_write_index := n, sum_q := (\<lambda>h d. 0), sum_k := (\<lambda>h d. 0), prepared := True\<rparr>)
                        (ls\<lparr>triton_available := avail\<rparr>))))"

definition process_pending_quantization :: "device_env \<Rightarrow> model_dims \<Rightarrow> layer_state \<Rightarrow> layer_state" where
  "process_pending_quantization e dm ls =
     (case pending_quantization ls of
        None \<Rightarrow> ls
      | Some (keys, sps) \<Rightarrow> fold (prefill_quantize_step e dm keys) sps (ls\<lparr>pending_quantization := None\<rparr>))"

text \<open>\<open>_extract_keys_from_paged_cache\<close>: positions outside the table or the cache raise.\<close>

definition extract_key :: "paged_keys \<Rightarrow> nat list \<Rightarrow> nat \<Rightarrow> nat \<Rightarrow> head_rows result" where
  "extract_key kv table block_size i =
     (if i div block_size < length table \<and> table ! (i div block_size) < length kv
      then Inr (kv ! (table ! (i div block_size)) ! (i mod block_size)) else Inl IndexError)"

fun collect :: "'a result list \<Rightarrow> 'a list result" where
  "collect [] = Inr []"
| "collect (r # rs) = bindE r (\<lambda>x. bindE (collect rs) (\<lambda>xs. Inr (x # xs)))"

definition extract_keys :: "paged_keys \<Rightarrow> batch_meta \<Rightarrow> nat \<Rightarrow> nat \<Rightarrow> nat list \<Rightarrow> head_rows list result" where
  "extract_keys kv m block_size req_index positions =
     (if positions = [] then Inr []
      else (case block_tables m of
              None \<Rightarrow> Inr []
            | Some tables \<Rightarrow>
                if length tables \<le> req_index then Inl IndexError
                else collect (map (extract_key kv (tables ! req_index) block_size) positions)))"

definition grow_rows :: "request_state \<Rightarrow> nat \<Rightarrow> request_state" where
  "grow_rows st new_write_index =
     (if new_write_index > metadata_capacity st
      then (let new_capacity = max (new_write_index * 2) (metadata_capacity st + 512)
            in st\<lparr>meta_rows := map_option (\<lambda>rows. set_slice (replicate new_capacity None) 0 (take (metadata_write_index st) rows)) (meta_rows st),
                  metadata_capacity := new_capacity\<rparr>)
      else st)"

definition quantize_pending_keys ::
  "device_env \<Rightarrow> model_dims \<Rightarrow> paged_keys \<Rightarrow> nat \<Rightarrow> batch_meta \<Rightarrow> string \<Rightarrow> nat
   \<Rightarrow> (head_mats \<times> head_mats) option \<times> layer_state \<Rightarrow> ((head_mats \<times> head_mats) option \<times> layer_state) result" where
  "quantize_pending_keys e dm kv block_size m rid req_index cls =
     bindE (dict_get (request_states (snd cls)) rid) (\<lambda>st.
       if num_pending st = 0 then Inr cls
       else bindE (extract_keys kv m block_size req_index [total_tokens st - num_pending st..<total_tokens st]) (\<lambda>keys.
         if keys = [] then Inr cls
         else (let (cache, ls) = ensure_rotation e cls
               in case (centroid_q st, centroid_k st, meta_rows st) of
                    (Some cq, Some ck, Some rows) \<Rightarrow>
                      (let (cs, avail) = quantize_keys e dm (snd (the (ls_rotation ls))) ck (kv_centroid dm cq) keys (triton_available ls);
                           st1 = grow_rows st (metadata_write_index st + num_pending st);
                           st2 = st1\<lparr>meta_rows := map_option (\<lambda>rows. set_slice rows (metadata_write_index st) (map Some cs)) (meta_rows st1),
                                     metadata_write_index := metadata_write_index st + num_pending st, num_pending := 0\<rparr>
                       in Inr (cache, put_request rid st2 (ls\<lparr>triton_available := avail\<rparr>)))
                  | _ \<Rightarrow> Inl AttributeError)))"

section \<open>Decode bookkeeping\<close>

definition append_step :: "span \<Rightarrow> layer_state \<Rightarrow> layer_state" where
  "append_step sp ls =
     (case sp of (rid, start, en) \<Rightarrow>
        if en \<le> start then ls
        else (case request_states ls rid of
                None \<Rightarrow> ls
              | Some st \<Rightarrow>
                  if \<not> prepared st then ls
                  else put_request rid (st\<lparr>total_tokens := total_tokens st + (en - start), num_pending := num_pending st + (en - start)\<rparr>) ls))"

text \<open>A missing start position raises \<open>IndexError\<close> here.\<close>

definition append_decode_kv :: "batch_meta \<Rightarrow> layer_state \<Rightarrow> layer_state result" where
  "append_decode_kv m ls =
     (case (req_ids m, query_start_loc m) of
        (Some ids, Some locs) \<Rightarrow> if length locs < length ids + 1 \<and> ids \<noteq> [] then Inl IndexError
                                 else Inr (fold append_step (zip ids (zip locs (tl locs))) ls)
      | _ \<Rightarrow> Inr ls)"

text \<open>The C++ operation that stores new keys in their slots; negative slots are padding.\<close>

fun cache_write :: "nat \<Rightarrow> paged_keys \<Rightarrow> int list \<Rightarrow> head_rows list \<Rightarrow> paged_keys" where
  "cache_write bs kv (slot # slots) (k # ks) =
     cache_write bs (if slot < 0 then kv else kv[nat slot div bs := (kv ! (nat slot div bs))[nat slot mod bs := k]]) slots ks"
| "cache_write bs kv _ _ = kv"

end
