(* ===== verification/Backend_Decode.thy ===== *)
theory Backend_Decode
  imports Backend_State
begin

text \<open>
  Decode side of the vLLM attention backend (\<open>v1/attention/backends/rabitq.py\<close>): the selection over the quantized
  tokens of a request, the mask of a batch in the buffers of the worker, and the dispatch of \<open>forward\<close>.
\<close>

section \<open>Selection over the quantized tokens\<close>

text \<open>\<open>None\<close>, a mask of shape \<open>[tokens, quantized]\<close>, or indices of shape \<open>[tokens, k]\<close>.\<close>

datatype selection = No_selection | Sel_mask "bool list list" | Sel_indices "nat list list"

text \<open>Rows that were never written hold arbitrary numbers; reading one is recorded as an error.\<close>

fun defined_rows :: "row_buffer \<Rightarrow> key_code list result" where
  "defined_rows [] = Inr []"
| "defined_rows (None # rs) = Inl RuntimeError"
| "defined_rows (Some c # rs) = bindE (defined_rows rs) (\<lambda>cs. Inr (c # cs))"

definition score_rows_of ::
  "device_env \<Rightarrow> model_dims \<Rightarrow> nat \<Rightarrow> head_mats option \<Rightarrow> head_rows \<Rightarrow> head_rows \<Rightarrow> (nat \<Rightarrow> real) \<Rightarrow> key_code list
   \<Rightarrow> head_rows list \<Rightarrow> real list list" where
  "score_rows_of e dm B_q rotation_t cq ck cqck cs queries =
     map (\<lambda>q. map (packed_binary_score (e_flt_max e) (d_num_kv_heads dm) (d_head_size dm) (1 / 10 ^ 6)
                    (query_preprocess (d_head_size dm) (d_group dm) B_q rotation_t cq ck q) cqck) cs) queries"

fun all_options :: "'a option list \<Rightarrow> 'a list option" where
  "all_options [] = Some []"
| "all_options (None # xs) = None"
| "all_options (Some x # xs) = map_option ((#) x) (all_options xs)"

text \<open>The outer option is \<open>None\<close> when the top-p search does not end.\<close>

definition compute_quantized_topk_indices ::
  "device_env \<Rightarrow> model_dims \<Rightarrow> int option \<Rightarrow> real option \<Rightarrow> layer_state \<Rightarrow> request_state \<Rightarrow> head_rows list \<Rightarrow> int option
   \<Rightarrow> selection result option" where
  "compute_quantized_topk_indices e dm bq topp ls st queries topk =
     (let num_quantized = metadata_write_index st
      in case meta_rows st of
           None \<Rightarrow> Some (Inr No_selection)
         | Some rows \<Rightarrow>
             if num_quantized = 0 \<or> bq = None \<or> the bq \<le> 0 \<or> (topk = None \<or> the topk \<le> 0) \<and> topp = None
             then Some (Inr No_selection)
             else (case (centroid_q st, centroid_k st, rq_cq_dot_ck st) of
               (Some cq, Some ck, Some cqck) \<Rightarrow>
                 (case defined_rows (take num_quantized rows) of
                    Inl er \<Rightarrow> Some (Inl er)
                  | Inr cs \<Rightarrow>
                      (let scores = score_rows_of e dm (nat (the bq)) (map_option snd (ls_rotation ls)) cq ck cqck cs queries
                       in case topp of
                            Some p \<Rightarrow> map_option (\<lambda>ms. Inr (Sel_mask ms))
                              (all_options (map (\<lambda>row. top_p_mask (softmax (map (\<lambda>x. x / sqrt (real (d_head_size dm))) row)) p) scores))
                          | None \<Rightarrow> (let k = min (the topk) (int num_quantized)
                                     in if k \<le> 0 then Some (Inr No_selection)
                                        else Some (Inr (Sel_indices (map (e_topk e (nat k)) scores))))))
             | _ \<Rightarrow> Some (Inl AttributeError)))"

section \<open>The mask of a batch\<close>

text \<open>\<open>result.any(dim=0)\<close> on a two-dimensional and on a one-dimensional tensor.\<close>

definition any_dim0 :: "bool list list \<Rightarrow> bool list" where
  "any_dim0 rows = map (\<lambda>j. \<exists>r \<in> set rows. r ! j) [0..<length (hd rows)]"

definition any_scalar :: "bool list \<Rightarrow> bool" where
  "any_scalar xs \<longleftrightarrow> True \<in> set xs"

definition update_topk_mask :: "device_env \<Rightarrow> bool list \<Rightarrow> int list option \<Rightarrow> nat \<Rightarrow> int \<Rightarrow> nat \<Rightarrow> bool list result" where
  "update_topk_mask e m indices nq ps ntok =
     (if e_cuda e then Inr (e_update_mask e m indices nq ps ntok) else update_topk_mask_cpu m indices nq ps ntok)"

text \<open>
  Writing the slice of a request. \<open>copy_\<close> of the doubly reduced mask, a scalar, fills the quantized part with it.
\<close>

definition write_selection :: "device_env \<Rightarrow> request_state \<Rightarrow> selection \<Rightarrow> bool list \<Rightarrow> bool list result" where
  "write_selection e st sel sl =
     (let nq = metadata_write_index st; ntok = total_tokens st; pending_start = int ntok - int (num_pending st)
      in case sel of
           Sel_mask rows \<Rightarrow>
             (let direct = any_scalar (any_dim0 rows);
                  s1 = set_slice sl 0 (replicate (min nq (length sl)) direct)
              in Inr (if pending_start < int ntok
                      then map (\<lambda>i. if pending_start \<le> int i then True else s1 ! i) [0..<length s1] else s1))
         | No_selection \<Rightarrow> update_topk_mask e sl None nq pending_start ntok
         | Sel_indices rows \<Rightarrow> update_topk_mask e sl (Some (map int (concat rows))) nq pending_start ntok)"

text \<open>The mask buffer of the worker is replaced when it is too small, else reused with its old contents.\<close>

definition mask_space :: "runtime_state \<Rightarrow> nat \<Rightarrow> bool list \<times> runtime_state" where
  "mask_space rt n =
     (case mask_buffer rt of
        Some buf \<Rightarrow> if n > max_total_kv_tokens rt
                    then (replicate n False, rt\<lparr>mask_buffer := Some (replicate n False), max_total_kv_tokens := n\<rparr>)
                    else (take n buf, rt)
      | None \<Rightarrow> (replicate n False, rt\<lparr>mask_buffer := Some (replicate n False), max_total_kv_tokens := n\<rparr>))"

definition store_mask :: "bool list \<Rightarrow> runtime_state \<Rightarrow> runtime_state" where
  "store_mask m rt = rt\<lparr>mask_buffer := map_option (\<lambda>buf. set_slice buf 0 m) (mask_buffer rt)\<rparr>"

definition offsets_space :: "runtime_state \<Rightarrow> nat list \<Rightarrow> nat list \<times> runtime_state" where
  "offsets_space rt offs =
     (case offsets_buffer rt of
        Some buf \<Rightarrow> if length offs > max_batch_size rt then (offs, rt\<lparr>offsets_buffer := Some offs, max_batch_size := length offs\<rparr>)
                    else (offs, rt\<lparr>offsets_buffer := Some (set_slice buf 0 offs)\<rparr>)
      | None \<Rightarrow> (offs, rt\<lparr>offsets_buffer := Some offs, max_batch_size := length offs\<rparr>))"

text \<open>An entry of \<open>batch_info\<close>: request, its position among all requests of the batch, and its rows.\<close>

type_synonym info = "string \<times> nat \<times> nat \<times> nat"

definition compute_topk_mask_single ::
  "device_env \<Rightarrow> model_dims \<Rightarrow> runtime_state \<Rightarrow> layer_state \<Rightarrow> string \<Rightarrow> head_rows list
   \<Rightarrow> ((bool list \<times> nat list) \<times> runtime_state) result option" where
  "compute_topk_mask_single e dm rt ls rid query =
     (case request_states ls rid of
        None \<Rightarrow> Some (Inl KeyError)
      | Some st \<Rightarrow>
          (let rt1 = (case offsets_buffer rt of
                        Some buf \<Rightarrow> if max_batch_size rt < 1 then rt\<lparr>offsets_buffer := Some [0], max_batch_size := 1\<rparr> else rt
                      | None \<Rightarrow> rt\<lparr>offsets_buffer := Some [0], max_batch_size := 1\<rparr>);
               offs = take 1 (the (offsets_buffer rt1));
               (sl, rt2) = mask_space rt1 (total_tokens st);
               topk = (case rt_topk rt of None \<Rightarrow> Some (int (metadata_write_index st)) | Some k \<Rightarrow> Some k)
           in case (if metadata_write_index st > 0 \<and> meta_rows st \<noteq> None
                    then compute_quantized_topk_indices e dm (b_q rt) (rt_topp rt) ls st query topk
                    else Some (Inr No_selection)) of
                None \<Rightarrow> None
              | Some (Inl er) \<Rightarrow> Some (Inl er)
              | Some (Inr sel) \<Rightarrow> Some (bindE (write_selection e st sel sl) (\<lambda>m. Inr ((m, offs), store_mask m rt2)))))"

text \<open>The loop over the requests of a batch; \<open>query_idx\<close> counts the rows of the requests seen so far.\<close>

fun mask_loop ::
  "device_env \<Rightarrow> model_dims \<Rightarrow> runtime_state \<Rightarrow> layer_state \<Rightarrow> nat list \<Rightarrow> head_rows list \<Rightarrow> nat \<Rightarrow> info list \<Rightarrow> bool list
   \<Rightarrow> bool list result option" where
  "mask_loop e dm rt ls offs query query_idx [] m = Some (Inr m)"
| "mask_loop e dm rt ls offs query query_idx ((rid, req_idx, start, en) # infos) m =
     (case request_states ls rid of
        None \<Rightarrow> Some (Inl KeyError)
      | Some st \<Rightarrow>
          if length offs \<le> req_idx then Some (Inl IndexError)
          else (let offset = offs ! req_idx; sl = take (total_tokens st) (drop offset m);
                    topk = (case rt_topk rt of None \<Rightarrow> Some (int (metadata_write_index st)) | Some k \<Rightarrow> Some k)
                in case (if metadata_write_index st > 0 \<and> meta_rows st \<noteq> None
                         then compute_quantized_topk_indices e dm (b_q rt) (rt_topp rt) ls st
                                (rows_between query_idx (query_idx + (en - start)) query) topk
                         else Some (Inr No_selection)) of
                     None \<Rightarrow> None
                   | Some (Inl er) \<Rightarrow> Some (Inl er)
                   | Some (Inr sel) \<Rightarrow>
                       (case write_selection e st sel sl of
                          Inl er \<Rightarrow> Some (Inl er)
                        | Inr s' \<Rightarrow> mask_loop e dm rt ls offs query (query_idx + (en - start)) infos (set_slice m offset s'))))"

fun offset_list :: "layer_state \<Rightarrow> nat \<Rightarrow> info list \<Rightarrow> nat list \<times> nat" where
  "offset_list ls acc [] = ([], acc)"
| "offset_list ls acc ((rid, req_idx, start, en) # infos) =
     (let (offs, n) = offset_list ls (acc + (case request_states ls rid of None \<Rightarrow> 0 | Some st \<Rightarrow> total_tokens st)) infos
      in (acc # offs, n))"

text \<open>Quantization of the requests with enough pending tokens; an exception ends the loop.\<close>

fun quantize_loop ::
  "device_env \<Rightarrow> model_dims \<Rightarrow> paged_keys \<Rightarrow> nat \<Rightarrow> batch_meta \<Rightarrow> nat \<Rightarrow> info list
   \<Rightarrow> (head_mats \<times> head_mats) option \<times> layer_state \<Rightarrow> ((head_mats \<times> head_mats) option \<times> layer_state) \<times> py_error option" where
  "quantize_loop e dm kv bs m batch [] cls = (cls, None)"
| "quantize_loop e dm kv bs m batch ((rid, req_idx, start, en) # infos) cls =
     (case request_states (snd cls) rid of
        None \<Rightarrow> (cls, Some KeyError)
      | Some st \<Rightarrow>
          if num_pending st \<ge> batch
          then (case quantize_pending_keys e dm kv bs m rid req_idx cls of
                  Inl er \<Rightarrow> (cls, Some er)
                | Inr cls' \<Rightarrow> quantize_loop e dm kv bs m batch infos cls')
          else quantize_loop e dm kv bs m batch infos cls)"

definition compute_topk_mask ::
  "device_env \<Rightarrow> model_dims \<Rightarrow> runtime_state \<Rightarrow> paged_keys \<Rightarrow> nat \<Rightarrow> batch_meta \<Rightarrow> info list \<Rightarrow> head_rows list
   \<Rightarrow> (head_mats \<times> head_mats) option \<times> layer_state
   \<Rightarrow> ((head_mats \<times> head_mats) option \<times> layer_state) \<times> ((bool list \<times> nat list) \<times> runtime_state) result option" where
  "compute_topk_mask e dm rt kv bs m infos query cls =
     (case quantize_loop e dm kv bs m (quant_batch rt) infos cls of
        (cls1, Some er) \<Rightarrow> (cls1, Some (Inl er))
      | (cls1, None) \<Rightarrow>
          (case infos of
             [(rid, req_idx, start, en)] \<Rightarrow> (cls1, compute_topk_mask_single e dm rt (snd cls1) rid query)
           | _ \<Rightarrow>
               (let (offs, n) = offset_list (snd cls1) 0 infos;
                    (offs', rt1) = offsets_space rt offs; (m0, rt2) = mask_space rt1 n
                in (cls1, (case mask_loop e dm rt (snd cls1) offs query 0 infos m0 of
                             None \<Rightarrow> None
                           | Some r \<Rightarrow> Some (bindE r (\<lambda>mk. Inr ((mk, offs'), store_mask mk rt2))))))))"

section \<open>Dispatch\<close>

text \<open>The requests of the batch that are prepared and have new rows.\<close>

fun batch_info :: "layer_state \<Rightarrow> nat \<Rightarrow> span list \<Rightarrow> info list" where
  "batch_info ls idx [] = []"
| "batch_info ls idx ((rid, start, en) # sps) =
     (if en \<le> start then batch_info ls (Suc idx) sps
      else (case request_states ls rid of
              Some st \<Rightarrow> (if prepared st then (rid, idx, start, en) # batch_info ls (Suc idx) sps else batch_info ls (Suc idx) sps)
            | None \<Rightarrow> batch_info ls (Suc idx) sps))"

text \<open>
  What a call of \<open>forward\<close> does besides updating the state: dense attention of FlashInfer, nothing (no prepared request), sparse attention with a
  mask, the per-request fallback with the tokens each row attends to, or a search that does not end.
\<close>

datatype outcome = Dense | Nothing | Sparse "bool list" "nat list" | Individual "(nat \<times> nat list) list" | Endless

text \<open>
  The batch path catches every exception, of the mask computation as well as of the FlashInfer wrapper: \<open>None\<close>. Buffers that were
  enlarged before an exception keep their old size in the model; they are enlarged again when they are next used, and overwritten before they are read.
\<close>

definition run_batch_decode ::
  "device_env \<Rightarrow> model_dims \<Rightarrow> runtime_state \<Rightarrow> paged_keys \<Rightarrow> nat \<Rightarrow> batch_meta \<Rightarrow> head_rows list \<Rightarrow> info list
   \<Rightarrow> (head_mats \<times> head_mats) option \<times> layer_state
   \<Rightarrow> (((head_mats \<times> head_mats) option \<times> layer_state) \<times> runtime_state) \<times> outcome option" where
  "run_batch_decode e dm rt kv bs m query infos cls =
     (case compute_topk_mask e dm rt kv bs m infos query cls of
        (cls1, None) \<Rightarrow> ((cls1, rt), Some Endless)
      | (cls1, Some (Inl er)) \<Rightarrow> ((cls1, rt), None)
      | (cls1, Some (Inr ((mk, offs), rt1))) \<Rightarrow> ((cls1, rt1), if e_wrapper_ok e then Some (Sparse mk offs) else None))"

text \<open>
  The tokens one row attends to in the fallback. The doubly reduced top-p mask is a scalar, whose \<open>nonzero\<close> is a two-dimensional tensor without
  elements; \<open>torch.cat\<close> of it with the one-dimensional list of pending positions raises.
\<close>

definition individual_indices :: "request_state \<Rightarrow> selection \<Rightarrow> nat list result" where
  "individual_indices st sel =
     (let pending = (if num_pending st > 0 then [total_tokens st - num_pending st..<total_tokens st] else [])
      in if metadata_write_index st = 0 then Inr pending
         else (case sel of
                 No_selection \<Rightarrow> Inr pending
               | Sel_mask rows \<Rightarrow> if num_pending st > 0 then Inl RuntimeError else Inr []
               | Sel_indices rows \<Rightarrow> Inr (sort (hd rows) @ pending)))"

text \<open>\<open>_extract_kv_from_paged_cache\<close>; the values are read at the positions of the keys.\<close>

definition extract_kv :: "paged_keys \<Rightarrow> batch_meta \<Rightarrow> nat \<Rightarrow> nat \<Rightarrow> nat list \<Rightarrow> head_rows list result" where
  "extract_kv kv m block_size req_index positions =
     (if positions = [] then Inr []
      else (case block_tables m of
              None \<Rightarrow> Inl TypeError
            | Some tables \<Rightarrow> extract_keys kv m block_size req_index positions))"

fun individual_rows ::
  "device_env \<Rightarrow> model_dims \<Rightarrow> runtime_state \<Rightarrow> paged_keys \<Rightarrow> nat \<Rightarrow> batch_meta \<Rightarrow> layer_state \<Rightarrow> request_state \<Rightarrow> nat \<Rightarrow> head_rows list
   \<Rightarrow> nat list \<Rightarrow> (nat \<times> nat list) list result option" where
  "individual_rows e dm rt kv bs m ls st req_idx query [] = Some (Inr [])"
| "individual_rows e dm rt kv bs m ls st req_idx query (t # ts) =
     (let topk_limit = (case rt_topk rt of None \<Rightarrow> Some (int (metadata_write_index st)) | Some k \<Rightarrow> Some k)
      in case compute_quantized_topk_indices e dm (b_q rt) (rt_topp rt) ls st (rows_between t (t + 1) query) topk_limit of
           None \<Rightarrow> None
         | Some r \<Rightarrow>
             (case bindE r (\<lambda>sel. bindE (individual_indices st sel) (\<lambda>idx. bindE (extract_kv kv m bs req_idx idx) (\<lambda>keys. Inr idx))) of
                Inl er \<Rightarrow> Some (Inl er)
              | Inr idx \<Rightarrow> map_option (\<lambda>r. bindE r (\<lambda>rest. Inr ((t, idx) # rest)))
                             (individual_rows e dm rt kv bs m ls st req_idx query ts)))"

text \<open>\<open>_run_individual_decode\<close>: nothing catches the exceptions of this path.\<close>

fun individual_loop ::
  "device_env \<Rightarrow> model_dims \<Rightarrow> runtime_state \<Rightarrow> paged_keys \<Rightarrow> nat \<Rightarrow> batch_meta \<Rightarrow> head_rows list \<Rightarrow> info list
   \<Rightarrow> (head_mats \<times> head_mats) option \<times> layer_state
   \<Rightarrow> (((head_mats \<times> head_mats) option \<times> layer_state) \<times> (nat \<times> nat list) list) result option" where
  "individual_loop e dm rt kv bs m query [] cls = Some (Inr (cls, []))"
| "individual_loop e dm rt kv bs m query ((rid, req_idx, start, en) # infos) cls =
     (case bindE (dict_get (request_states (snd cls)) rid) (\<lambda>st.
             if num_pending st \<ge> quant_batch rt then quantize_pending_keys e dm kv bs m rid req_idx cls else Inr cls) of
        Inl er \<Rightarrow> Some (Inl er)
      | Inr cls1 \<Rightarrow>
          (case individual_rows e dm rt kv bs m (snd cls1) (the (request_states (snd cls1) rid)) req_idx query [start..<en] of
             None \<Rightarrow> None
           | Some (Inl er) \<Rightarrow> Some (Inl er)
           | Some (Inr picks) \<Rightarrow>
               map_option (\<lambda>r. bindE r (\<lambda>(cls2, rest). Inr (cls2, picks @ rest))) (individual_loop e dm rt kv bs m query infos cls1)))"

definition put_layer :: "string \<Rightarrow> (head_mats \<times> head_mats) option \<times> layer_state \<Rightarrow> runtime_state \<Rightarrow> runtime_state" where
  "put_layer lname cls rt = rt\<lparr>rotation_cache := fst cls, layer_states := (layer_states rt)(lname \<mapsto> snd cls)\<rparr>"

definition run_rabitq_decode ::
  "device_env \<Rightarrow> model_dims \<Rightarrow> runtime_state \<Rightarrow> paged_keys \<Rightarrow> nat \<Rightarrow> batch_meta \<Rightarrow> head_rows list \<Rightarrow> string \<Rightarrow> layer_state
   \<Rightarrow> (runtime_state \<times> outcome) result" where
  "run_rabitq_decode e dm rt kv bs m query lname ls =
     (case (req_ids m, query_start_loc m) of
        (Some ids, Some locs) \<Rightarrow>
          (let infos = batch_info ls 0 (zip ids (zip locs (tl locs)))
           in if infos = [] then Inr (put_layer lname (rotation_cache rt, ls) rt, Nothing)
              else (let ((cls1, rt1), oc) =
                          (if has_wrapper m \<and> (\<forall>(rid, idx, start, en) \<in> set infos. en - start = 1)
                           then run_batch_decode e dm rt kv bs m query infos (rotation_cache rt, ls)
                           else (((rotation_cache rt, ls), rt), None))
                    in case oc of
                         Some oc' \<Rightarrow> Inr (put_layer lname cls1 rt1, oc')
                       | None \<Rightarrow>
                           (case individual_loop e dm rt1 kv bs m query infos cls1 of
                              None \<Rightarrow> Inr (put_layer lname cls1 rt1, Endless)
                            | Some r \<Rightarrow> bindE r (\<lambda>(cls2, picks). Inr (put_layer lname cls2 rt1, Individual picks)))))
      | _ \<Rightarrow> Inr (put_layer lname (rotation_cache rt, ls) rt, Nothing))"

text \<open>Parameters that are not set yet are taken from the metadata.\<close>

definition adopt_parameters :: "batch_meta \<Rightarrow> runtime_state \<Rightarrow> runtime_state" where
  "adopt_parameters m rt = rt\<lparr>b_q := (if b_q rt = None then meta_b_q m else b_q rt),
     rt_topk := (if rt_topk rt = None then meta_topk m else rt_topk rt),
     rt_topp := (if rt_topp rt = None then meta_topp m else rt_topp rt)\<rparr>"

definition forward_prefill ::
  "device_env \<Rightarrow> model_dims \<Rightarrow> runtime_state \<Rightarrow> batch_meta \<Rightarrow> head_rows list \<Rightarrow> head_rows list \<Rightarrow> string \<Rightarrow> layer_state \<Rightarrow> runtime_state result" where
  "forward_prefill e dm rt m query key lname ls =
     bindE (update_prefill_stats query key m ls) (\<lambda>ls1.
       if b_q rt = None then Inr (rt\<lparr>layer_states := (layer_states rt)(lname \<mapsto> ls1)\<rparr>)
       else (let (cache, ls2) = ensure_rotation e (rotation_cache rt, ls1);
                 ls3 = (case (req_ids m, query_start_loc m) of
                          (Some ids, Some locs) \<Rightarrow>
                            process_pending_quantization e dm (ls2\<lparr>pending_quantization := Some (key, zip ids (zip locs (tl locs)))\<rparr>)
                        | _ \<Rightarrow> ls2)
             in Inr (rt\<lparr>rotation_cache := cache, layer_states := (layer_states rt)(lname \<mapsto> ls3)\<rparr>)))"

text \<open>
  \<open>forward\<close> of the layer \<open>lname\<close>. Without metadata (profiling) only the dense attention runs. New keys are stored in the paged cache by
  the dense attention as well.
\<close>

definition forward ::
  "device_env \<Rightarrow> model_dims \<Rightarrow> string \<Rightarrow> batch_meta option \<Rightarrow> head_rows list \<Rightarrow> head_rows list \<Rightarrow> nat \<Rightarrow> paged_keys \<times> runtime_state
   \<Rightarrow> ((paged_keys \<times> runtime_state) \<times> outcome) result" where
  "forward e dm lname mo query key bs s =
     (case mo of
        None \<Rightarrow> Inr (s, Dense)
      | Some m \<Rightarrow>
          (let (kv, rt0) = s;
               ls = (case layer_states rt0 lname of Some l \<Rightarrow> l | None \<Rightarrow> init_layer_state);
               rt = adopt_parameters m (rt0\<lparr>layer_states := (layer_states rt0)(lname \<mapsto> ls)\<rparr>);
               has_reqs = (case req_ids m of None \<Rightarrow> False | Some ids \<Rightarrow> ids \<noteq> []);
               kv' = cache_write bs kv (slot_mapping m) key
           in if max_q_len m > 1 \<and> has_reqs
              then bindE (forward_prefill e dm rt m query key lname ls) (\<lambda>rt1. Inr ((kv', rt1), Dense))
              else if num_decode_tokens m > 0 \<and> b_q rt \<noteq> None \<and> has_reqs
              then bindE (append_decode_kv m ls) (\<lambda>ls1.
                     bindE (run_rabitq_decode e dm rt kv' bs m query lname ls1) (\<lambda>(rt1, oc). Inr ((kv', rt1), oc)))
              else Inr ((kv', rt), Dense)))"

end
