(* ===== verification/Backend_Select.thy ===== *)
theory Backend_Select
  imports Backend_Decode
begin

text \<open>
  What the decode side of the vLLM backend selects: the mask it computes for a batch in top-p mode, and batches in which
  not every request is prepared.
\<close>

section \<open>Requests ready for decoding\<close>

definition ready :: "request_state \<Rightarrow> bool" where
  "ready st \<longleftrightarrow> prepared st \<and> 0 < metadata_write_index st \<and> metadata_write_index st + num_pending st = total_tokens st \<and>
     centroid_q st \<noteq> None \<and> centroid_k st \<noteq> None \<and> rq_cq_dot_ck st \<noteq> None \<and>
     (\<exists>rows. meta_rows st = Some rows \<and> metadata_write_index st \<le> length rows \<and> (\<forall>i<metadata_write_index st. rows ! i \<noteq> None))"

lemma defined_rows_ok: "(\<forall>i<length rs. rs ! i \<noteq> None) \<Longrightarrow> \<exists>cs. defined_rows rs = Inr cs \<and> length cs = length rs"
proof (induction rs)
  case (Cons r rs)
  have "r \<noteq> None" "\<forall>i<length rs. rs ! i \<noteq> None" using Cons.prems by (force, fastforce)
  then show ?case using Cons.IH by (cases r) auto
qed simp

lemma all_options_Some: "(\<And>x. x \<in> set xs \<Longrightarrow> \<exists>y. f x = Some y \<and> P y) \<Longrightarrow> \<exists>ys. all_options (map f xs) = Some ys \<and> length ys = length xs \<and> (\<forall>y \<in> set ys. P y)"
proof (induction xs)
  case (Cons x xs)
  obtain y ys where "f x = Some y" "P y" "all_options (map f xs) = Some ys" "length ys = length xs" "\<forall>y \<in> set ys. P y"
    using Cons by (meson list.set_intros)
  then show ?case by auto
qed simp

lemma set_softmax_pos: "\<forall>x \<in> set (softmax xs). 0 \<le> x"
  using softmax_pos by (auto intro: less_imp_le)

text \<open>The top-p mask of a row of probabilities selects something.\<close>

lemma top_p_mask_selects:
  assumes "xs \<noteq> []" "0 < p"
  shows "\<exists>mk. top_p_mask (softmax xs) p = Some mk \<and> length mk = length xs \<and> True \<in> set mk"
proof (cases "p < 1")
  case True
  obtain gap where gap: "0 < gap" "\<And>x y. x \<in> set (softmax xs) \<Longrightarrow> y \<in> set (softmax xs) \<Longrightarrow> x < y \<Longrightarrow> gap \<le> y - x"
    by (rule gap_exists[of "softmax xs"]) blast
  have "bracket (softmax xs) p 0 (fold max (softmax xs) 0)"
    by (rule initial_bracket) (use set_softmax_pos softmax_sum[OF assms(1)] True assms(2) in auto)
  moreover obtain n where "fold max (softmax xs) 0 / gap < 3 ^ n" using real_arch_pow[of 3] by auto
  then have "fold max (softmax xs) 0 - 0 < gap * 3 ^ n" using gap(1) by (simp add: field_simps)
  ultimately obtain low where "top_p_loop (softmax xs) p 0 (fold max (softmax xs) 0) = Some low" "threshold_found (softmax xs) p low"
    using top_p_loop_ends[OF gap(2)] by blast
  then show ?thesis using True by (fastforce simp: top_p_mask_def threshold_found_def)
next
  case False
  then show ?thesis using assms(1) by (simp add: top_p_mask_def)
qed

lemma any_scalar_any_dim0:
  assumes "rows \<noteq> []" "\<forall>r \<in> set rows. length r = n \<and> True \<in> set r"
  shows "any_scalar (any_dim0 rows)"
proof -
  have "hd rows \<in> set rows" using assms(1) by simp
  then obtain j where "j < n" "hd rows ! j" "length (hd rows) = n" using assms(2) by (metis in_set_conv_nth)
  then show ?thesis using \<open>hd rows \<in> set rows\<close> by (force simp: any_scalar_def any_dim0_def)
qed

lemma top_p_selection:
  assumes "ready st" "bq = Some b" "0 < b" "0 < p" "queries \<noteq> []"
  shows "\<exists>rows. compute_quantized_topk_indices e dm bq (Some p) ls st queries topk = Some (Inr (Sel_mask rows)) \<and> any_scalar (any_dim0 rows)"
proof -
  obtain cq ck cqck rows where st: "centroid_q st = Some cq" "centroid_k st = Some ck" "rq_cq_dot_ck st = Some cqck" "meta_rows st = Some rows"
    "metadata_write_index st \<le> length rows" "\<forall>i<metadata_write_index st. rows ! i \<noteq> None" "0 < metadata_write_index st"
    using assms(1) by (auto simp: ready_def)
  let ?n = "metadata_write_index st"
  have "\<forall>i<length (take ?n rows). take ?n rows ! i \<noteq> None" using st(5,6) by simp
  then obtain cs where cs: "defined_rows (take ?n rows) = Inr cs" "length cs = ?n"
    using defined_rows_ok[of "take ?n rows"] st(5) by auto
  let ?scores = "score_rows_of e dm (nat b) (map_option snd (ls_rotation ls)) cq ck cqck cs queries"
  let ?f = "\<lambda>row. top_p_mask (softmax (map (\<lambda>x. x / sqrt (real (d_head_size dm))) row)) p"
  have "\<exists>mk. ?f row = Some mk \<and> (length mk = ?n \<and> True \<in> set mk)" if "row \<in> set ?scores" for row
  proof -
    have "length row = ?n" using that cs(2) by (auto simp: score_rows_of_def)
    moreover from this have "row \<noteq> []" using st(7) by auto
    ultimately show ?thesis using top_p_mask_selects[of "map (\<lambda>x. x / sqrt (real (d_head_size dm))) row" p] st(7) assms(4) by auto
  qed
  from all_options_Some[of ?scores ?f, OF this]
  obtain ms where ms: "all_options (map ?f ?scores) = Some ms" "length ms = length ?scores" "\<forall>mk \<in> set ms. length mk = ?n \<and> True \<in> set mk"
    by blast
  moreover have "ms \<noteq> []" using ms(2) assms(5) by (auto simp: score_rows_of_def)
  ultimately show ?thesis
    using any_scalar_any_dim0[of ms ?n] st(1-4,7) cs assms(2,3) by (auto simp: compute_quantized_topk_indices_def Let_def)
qed

lemma top_k_selection:
  assumes "ready st" "bq = Some b" "0 < b" "topk = Some k" "0 < k"
  shows "\<exists>rows. compute_quantized_topk_indices e dm bq None ls st queries topk = Some (Inr (Sel_indices rows))"
proof -
  obtain cq ck cqck rows where st: "centroid_q st = Some cq" "centroid_k st = Some ck" "rq_cq_dot_ck st = Some cqck" "meta_rows st = Some rows"
    "metadata_write_index st \<le> length rows" "\<forall>i<metadata_write_index st. rows ! i \<noteq> None" "0 < metadata_write_index st"
    using assms(1) by (auto simp: ready_def)
  have "\<forall>i<length (take (metadata_write_index st) rows). take (metadata_write_index st) rows ! i \<noteq> None" using st(5,6) by simp
  from defined_rows_ok[OF this] obtain cs where "defined_rows (take (metadata_write_index st) rows) = Inr cs" by blast
  then show ?thesis using st(1-4,7) assms(2-5) by (auto simp: compute_quantized_topk_indices_def Let_def)
qed

text \<open>The slice of a ready request in top-p mode is then filled completely.\<close>

lemma write_selection_all:
  assumes "ready st" "any_scalar (any_dim0 rows)" "length sl = total_tokens st"
  shows "write_selection e st (Sel_mask rows) sl = Inr (replicate (total_tokens st) True)"
proof -
  let ?n = "metadata_write_index st" and ?s1 = "set_slice sl 0 (replicate (min (metadata_write_index st) (length sl)) True)"
  have n: "?n + num_pending st = total_tokens st" "?n \<le> total_tokens st" using assms(1) by (auto simp: ready_def)
  then have s1: "?s1 = replicate ?n True @ drop ?n sl" "length ?s1 = total_tokens st" using assms(3) by (auto simp: set_slice_def)
  show ?thesis
  proof (cases "num_pending st = 0")
    case True
    then show ?thesis using n assms(2,3) s1 by (simp add: write_selection_def Let_def)
  next
    case False
    have "map (\<lambda>i. if int (total_tokens st) - int (num_pending st) \<le> int i then True else ?s1 ! i) [0..<length ?s1] = replicate (total_tokens st) True"
      unfolding s1 using n assms(3) by (intro nth_equalityI) (auto simp: nth_append)
    then show ?thesis using False assms(2) by (simp add: write_selection_def Let_def)
  qed
qed

section \<open>The mask of a batch in top-p mode\<close>

definition info_total :: "layer_state \<Rightarrow> info \<Rightarrow> nat" where
  "info_total ls i = (case request_states ls (fst i) of None \<Rightarrow> 0 | Some st \<Rightarrow> total_tokens st)"

abbreviation kv_tokens :: "layer_state \<Rightarrow> info list \<Rightarrow> nat" where
  "kv_tokens ls infos \<equiv> sum_list (map (info_total ls) infos)"

lemma offset_list_eq:
  "offset_list ls acc infos = (map (\<lambda>k. acc + kv_tokens ls (take k infos)) [0..<length infos], acc + kv_tokens ls infos)"
proof (induction infos arbitrary: acc)
  case (Cons i infos)
  obtain rid idx start en where i: "i = (rid, idx, start, en)" by (cases i)
  have "map (\<lambda>k. acc + kv_tokens ls (take k (i # infos))) [0..<length (i # infos)] =
      acc # map (\<lambda>k. acc + info_total ls i + kv_tokens ls (take k infos)) [0..<length infos]"
    by (simp del: upt_Suc add: upt_conv_Cons map_Suc_upt[symmetric] add.assoc)
  moreover have "offset_list ls acc (i # infos) =
      (acc # map (\<lambda>k. acc + info_total ls i + kv_tokens ls (take k infos)) [0..<length infos], acc + info_total ls i + kv_tokens ls infos)"
    using Cons.IH[of "acc + info_total ls i"] by (simp add: i info_total_def[of ls "(rid, idx, start, en)"])
  ultimately show ?case by (simp only: list.map sum_list.Cons add.assoc)
qed simp

text \<open>A decode batch all of whose requests are prepared and have one new row each.\<close>

definition full_batch :: "layer_state \<Rightarrow> nat \<Rightarrow> info list \<Rightarrow> bool" where
  "full_batch ls k0 infos \<longleftrightarrow> (\<forall>k<length infos. \<exists>rid st. infos ! k = (rid, k0 + k, k0 + k, Suc (k0 + k)) \<and>
     request_states ls rid = Some st \<and> ready st)"

lemma full_batch_Cons:
  "full_batch ls k0 (i # infos) \<longleftrightarrow> (\<exists>rid st. i = (rid, k0, k0, Suc k0) \<and> request_states ls rid = Some st \<and> ready st) \<and> full_batch ls (Suc k0) infos"
  unfolding full_batch_def by (simp add: All_less_Suc2)

definition buffers_ok :: "runtime_state \<Rightarrow> bool" where
  "buffers_ok rt \<longleftrightarrow> (case mask_buffer rt of None \<Rightarrow> True | Some buf \<Rightarrow> length buf = max_total_kv_tokens rt) \<and>
     (case offsets_buffer rt of None \<Rightarrow> True | Some buf \<Rightarrow> length buf = max_batch_size rt \<and> 0 < length buf \<and> hd buf = 0)"

lemma mask_space_ok:
  assumes "buffers_ok rt" "mask_space rt n = (m, rt')"
  shows "length m = n" "buffers_ok rt'" "n \<le> max_total_kv_tokens rt'" "mask_buffer rt' \<noteq> None"
    "length m' = n \<Longrightarrow> buffers_ok (store_mask m' rt')"
  using assms by (auto simp: mask_space_def buffers_ok_def store_mask_def length_set_slice split: option.splits if_splits)

lemma mask_loop_top_p:
  assumes "rt_topp rt = Some p" "0 < p" "b_q rt = Some b" "0 < b"
  shows "full_batch ls k0 infos \<Longrightarrow> k0 + length infos \<le> length offs \<Longrightarrow> k0 + length infos \<le> length query \<Longrightarrow>
    (\<forall>k<length infos. offs ! (k0 + k) = a + kv_tokens ls (take k infos)) \<Longrightarrow> length rest = kv_tokens ls infos \<Longrightarrow>
    mask_loop e dm rt ls offs query k0 infos (replicate a True @ rest) = Some (Inr (replicate (a + kv_tokens ls infos) True))"
proof (induction infos arbitrary: k0 a rest)
  case (Cons i infos)
  obtain rid st where i: "i = (rid, k0, k0, Suc k0)" "request_states ls rid = Some st" "ready st" "full_batch ls (Suc k0) infos"
    using Cons.prems(1) by (auto simp: full_batch_Cons)
  have tot: "info_total ls i = total_tokens st" by (simp add: info_total_def i)
  have off: "offs ! k0 = a" using Cons.prems(4)[rule_format, of 0] by simp
  let ?rest = "drop (total_tokens st) rest"
  have len: "total_tokens st \<le> length rest" "length ?rest = kv_tokens ls infos" using Cons.prems(5) tot by simp_all
  have q: "rows_between k0 (Suc k0) query \<noteq> []" using Cons.prems(3) by (simp add: rows_between_def)
  obtain rows where sel: "compute_quantized_topk_indices e dm (b_q rt) (rt_topp rt) ls st (rows_between k0 (Suc k0) query)
      (case rt_topk rt of None \<Rightarrow> Some (int (metadata_write_index st)) | Some k \<Rightarrow> Some k) = Some (Inr (Sel_mask rows))" "any_scalar (any_dim0 rows)"
    using top_p_selection[OF i(3) assms(3,4,2) q] assms(1) by metis
  have "length (take (total_tokens st) (drop a (replicate a True @ rest))) = total_tokens st" using len(1) by simp
  note wr = write_selection_all[OF i(3) sel(2) this]
  have sls: "set_slice (replicate a True @ rest) a (replicate (total_tokens st) True) = replicate (a + total_tokens st) True @ ?rest"
    using len(1) by (simp add: set_slice_def replicate_add)
  have "0 < metadata_write_index st \<and> meta_rows st \<noteq> None" using i(3) by (auto simp: ready_def)
  then have "mask_loop e dm rt ls offs query k0 (i # infos) (replicate a True @ rest) =
      mask_loop e dm rt ls offs query (Suc k0) infos (replicate (a + total_tokens st) True @ ?rest)"
    using i(1,2) off sel(1) wr[where e = e] sls Cons.prems(2) by simp
  moreover have "\<forall>k<length infos. offs ! (Suc k0 + k) = a + total_tokens st + kv_tokens ls (take k infos)"
    using Cons.prems(4) tot by (simp add: All_less_Suc2 add.assoc)
  ultimately show ?case
    using Cons.IH[where ?k0.0 = "Suc k0" and rest = ?rest and a = "a + total_tokens st"] i(4) Cons.prems(2,3) len(2) tot by (simp add: add.assoc)
qed simp

lemma quantize_loop_idle:
  "(\<forall>i \<in> set infos. \<exists>st. request_states (snd cls) (fst i) = Some st \<and> num_pending st < batch) \<Longrightarrow>
   quantize_loop e dm kv bs m batch infos cls = (cls, None)"
  by (induction infos) auto

lemma single_top_p:
  assumes "request_states ls rid = Some st" "ready st" "rt_topp rt = Some p" "0 < p" "b_q rt = Some b" "0 < b" "query \<noteq> []" "buffers_ok rt"
  shows "\<exists>rt'. compute_topk_mask_single e dm rt ls rid query = Some (Inr ((replicate (total_tokens st) True, [0]), rt')) \<and> buffers_ok rt'"
proof -
  define rt1 where "rt1 = (case offsets_buffer rt of
      Some buf \<Rightarrow> if max_batch_size rt < 1 then rt\<lparr>offsets_buffer := Some [0], max_batch_size := 1\<rparr> else rt
    | None \<Rightarrow> rt\<lparr>offsets_buffer := Some [0], max_batch_size := 1\<rparr>)"
  have rt1: "buffers_ok rt1" "take 1 (the (offsets_buffer rt1)) = [0]"
    using assms(8) by (auto simp: rt1_def buffers_ok_def take_Suc split: option.splits)
  obtain sl rt2 where sp: "mask_space rt1 (total_tokens st) = (sl, rt2)" by fastforce
  note ms = mask_space_ok[OF rt1(1) sp]
  obtain rows where sel: "compute_quantized_topk_indices e dm (b_q rt) (rt_topp rt) ls st query
      (case rt_topk rt of None \<Rightarrow> Some (int (metadata_write_index st)) | Some k \<Rightarrow> Some k) = Some (Inr (Sel_mask rows))" "any_scalar (any_dim0 rows)"
    using top_p_selection[OF assms(2,5,6,4,7)] assms(3) by metis
  have "0 < metadata_write_index st \<and> meta_rows st \<noteq> None" using assms(2) by (auto simp: ready_def)
  then have "compute_topk_mask_single e dm rt ls rid query =
      Some (Inr ((replicate (total_tokens st) True, [0]), store_mask (replicate (total_tokens st) True) rt2))"
    unfolding compute_topk_mask_single_def Let_def rt1_def[symmetric] sp rt1(2)
    using assms(1) sel(1) write_selection_all[OF assms(2) sel(2) ms(1), of e] sp by simp
  then show ?thesis using ms(5) by simp
qed

text \<open>C35. In top-p mode the backend never leaves a token out. For every decode batch whose requests are all prepared, have one new row each and
  fewer pending tokens than a quantization batch, the mask has one entry per token of every request, at the offsets of the running totals, and all
  entries are set: the scores have no head axis, so reducing the selection twice leaves a single flag, which is copied to all quantized tokens.\<close>

theorem top_p_mode_selects_everything:
  assumes "infos \<noteq> []" "full_batch (snd cls) 0 infos" "rt_topp rt = Some p" "0 < p" "b_q rt = Some b" "0 < b"
    and "length query = length infos" "buffers_ok rt"
    and "\<forall>i \<in> set infos. \<exists>st. request_states (snd cls) (fst i) = Some st \<and> num_pending st < quant_batch rt"
  shows "\<exists>rt'. compute_topk_mask e dm rt kv bs m infos query cls =
    (cls, Some (Inr ((replicate (kv_tokens (snd cls) infos) True, map (\<lambda>k. kv_tokens (snd cls) (take k infos)) [0..<length infos]), rt'))) \<and> buffers_ok rt'"
proof (cases infos rule: remdups_adj.cases)
  case (2 i)
  then obtain rid st where i: "i = (rid, 0, 0, Suc 0)" "request_states (snd cls) rid = Some st" "ready st"
    using assms(2) by (auto simp: full_batch_Cons)
  have q: "query \<noteq> []" using assms(7) 2 by auto
  obtain rt' where "compute_topk_mask_single e dm rt (snd cls) rid query = Some (Inr ((replicate (total_tokens st) True, [0]), rt'))" "buffers_ok rt'"
    using single_top_p[where e = e and dm = dm, OF i(2,3) assms(3-6) q assms(8)] by (elim exE conjE) (rule that)
  then have "compute_topk_mask e dm rt kv bs m infos query cls =
      (cls, Some (Inr ((replicate (total_tokens st) True, [0]), rt')))"
    unfolding compute_topk_mask_def quantize_loop_idle[OF assms(9)] using 2 i(1) by simp
  moreover have "kv_tokens (snd cls) infos = total_tokens st" using 2 i by (simp add: info_total_def)
  ultimately show ?thesis using 2 \<open>buffers_ok rt'\<close> by (intro exI[of _ rt']) simp
next
  case (3 i j infos')
  let ?n = "kv_tokens (snd cls) infos" and ?offs = "map (\<lambda>k. 0 + kv_tokens (snd cls) (take k infos)) [0..<length infos]"
  obtain offs' rt1 where os: "offsets_space rt ?offs = (offs', rt1)" by fastforce
  have os': "offs' = ?offs" "buffers_ok rt1"
    using os assms(1,8) by (auto simp: offsets_space_def buffers_ok_def length_set_slice set_slice_def hd_map hd_append split: option.splits if_splits)
  obtain m0 rt2 where sp: "mask_space rt1 ?n = (m0, rt2)" by fastforce
  note ms = mask_space_ok[OF os'(2) sp]
  have "mask_loop e dm rt (snd cls) ?offs query 0 infos (replicate 0 True @ m0) = Some (Inr (replicate (0 + ?n) True))"
    by (rule mask_loop_top_p[OF assms(3-6,2)]) (use assms(7) ms(1) in auto)
  then have "compute_topk_mask e dm rt kv bs m infos query cls =
      (cls, Some (Inr ((replicate ?n True, ?offs), store_mask (replicate ?n True) rt2)))"
    unfolding compute_topk_mask_def quantize_loop_idle[OF assms(9)] offset_list_eq
    using os sp os'(1) 3 by simp
  then show ?thesis using ms(5)[of "replicate ?n True"] by simp
qed (use assms(1) in simp)

text \<open>Two requests with two quantized tokens each and one pending token each.\<close>

definition demo_code :: key_code where
  "demo_code = \<lparr>c_bits = \<lambda>h d. 1, c_norm = \<lambda>h. 1, c_k_bar_dot_k = \<lambda>h. 1, c_sum_x_b = \<lambda>h. 32, c_cq_dot_kr = \<lambda>h. 0\<rparr>"

definition demo_request :: request_state where
  "demo_request = init_request_state\<lparr>prepared := True, rq_count := 2, centroid_q := Some (\<lambda>h d. 0), centroid_k := Some (\<lambda>h d. 0), total_tokens := 3,
     meta_rows := Some [Some demo_code, Some demo_code, None], rq_cq_dot_ck := Some (\<lambda>h. 0), metadata_capacity := 3,
     metadata_write_index := 2, num_pending := 1\<rparr>"

definition demo_layer :: layer_state where
  "demo_layer = init_layer_state\<lparr>request_states := [''a'' \<mapsto> demo_request, ''b'' \<mapsto> demo_request]\<rparr>"

definition demo_runtime :: runtime_state where
  "demo_runtime = \<lparr>b_q = Some 4, rt_topk = Some 128, rt_topp = Some (1 / 2), quant_batch = 512, layer_states = Map.empty, rotation_cache = None,
     mask_buffer = None, max_total_kv_tokens = 0, offsets_buffer = None, max_batch_size = 0\<rparr>"

lemma demo_ready: "ready demo_request" "num_pending demo_request = 1" "total_tokens demo_request = 3"
  by (auto simp: ready_def demo_request_def init_request_state_def less_Suc_eq numeral_2_eq_2)

lemma demo_states: "request_states demo_layer ''a'' = Some demo_request" "request_states demo_layer ''b'' = Some demo_request"
  by (auto simp: demo_layer_def init_layer_state_def)

theorem top_p_mode_selects_everything_witness:
  "\<forall>e dm kv bs m q q'. \<exists>rt'. compute_topk_mask e dm demo_runtime kv bs m [(''a'', 0, 0, 1), (''b'', 1, 1, 2)] [q, q'] (None, demo_layer) =
     ((None, demo_layer), Some (Inr (([True, True, True, True, True, True], [0, 3]), rt'))) \<and> buffers_ok rt'"
proof (intro allI)
  fix e dm kv bs m q q'
  have "full_batch demo_layer 0 [(''a'', 0, 0, 1), (''b'', 1, 1, 2)]"
    by (simp add: full_batch_Cons demo_states demo_ready) (simp add: full_batch_def)
  then show "\<exists>rt'. compute_topk_mask e dm demo_runtime kv bs m [(''a'', 0, 0, 1), (''b'', 1, 1, 2)] [q, q'] (None, demo_layer) =
     ((None, demo_layer), Some (Inr (([True, True, True, True, True, True], [0, 3]), rt'))) \<and> buffers_ok rt'"
    using top_p_mode_selects_everything[of "[(''a'', 0, 0, 1), (''b'', 1, 1, 2)]" "(None, demo_layer)" demo_runtime "1 / 2" 4 "[q, q']" e dm kv bs m]
    by (simp add: demo_states demo_ready info_total_def buffers_ok_def) (simp add: demo_runtime_def numeral_eq_Suc)
qed

section \<open>Batches with a request that is not prepared\<close>

lemma mask_loop_shifted:
  assumes "rt_topp rt = Some p" "0 < p" "b_q rt = Some b" "0 < b"
  shows "infos \<noteq> [] \<Longrightarrow> length offs = k0 + length infos \<Longrightarrow> k0 + length infos \<le> length query \<Longrightarrow>
    (\<forall>k<length infos. \<exists>rid st. infos ! k = (rid, Suc (k0 + k), Suc (k0 + k), Suc (Suc (k0 + k))) \<and> request_states ls rid = Some st \<and> ready st) \<Longrightarrow>
    mask_loop e dm rt ls offs query k0 infos m = Some (Inl IndexError)"
proof (induction infos arbitrary: k0 m)
  case (Cons i infos)
  obtain rid st where i: "i = (rid, Suc k0, Suc k0, Suc (Suc k0))" "request_states ls rid = Some st" "ready st"
    using Cons.prems(4)[rule_format, of 0] by auto
  show ?case
  proof (cases "infos = []")
    case False
    then have k: "\<not> length offs \<le> Suc k0" using Cons.prems(2) by (cases infos) auto
    have q: "rows_between k0 (Suc k0) query \<noteq> []" using Cons.prems(3) by (simp add: rows_between_def)
    obtain rows where sel: "compute_quantized_topk_indices e dm (b_q rt) (rt_topp rt) ls st (rows_between k0 (Suc k0) query)
        (case rt_topk rt of None \<Rightarrow> Some (int (metadata_write_index st)) | Some k \<Rightarrow> Some k) = Some (Inr (Sel_mask rows))"
      using top_p_selection[OF i(3) assms(3,4,2) q] assms(1) by metis
    obtain s' where "write_selection e st (Sel_mask rows) (take (total_tokens st) (drop (offs ! Suc k0) m)) = Inr s'"
      by (simp add: write_selection_def Let_def)
    moreover have "0 < metadata_write_index st \<and> meta_rows st \<noteq> None" using i(3) by (auto simp: ready_def)
    ultimately have "mask_loop e dm rt ls offs query k0 (i # infos) m = mask_loop e dm rt ls offs query (Suc k0) infos (set_slice m (offs ! Suc k0) s')"
      using i(1,2) k sel by simp
    moreover have "\<forall>k<length infos. \<exists>rid st. infos ! k = (rid, Suc (Suc k0 + k), Suc (Suc k0 + k), Suc (Suc (Suc k0 + k))) \<and> request_states ls rid = Some st \<and> ready st"
      using Cons.prems(4) by (simp add: All_less_Suc2)
    ultimately show ?thesis using Cons.IH[of "Suc k0"] False Cons.prems(2,3) by simp
  qed (use i Cons.prems(2) in simp)
qed simp

text \<open>A decode batch \<open>u # rs\<close> with one row per request, in which only the requests \<open>rs\<close> are prepared.\<close>

definition unprepared :: "layer_state \<Rightarrow> string \<Rightarrow> bool" where
  "unprepared ls u \<longleftrightarrow> (case request_states ls u of None \<Rightarrow> True | Some st \<Rightarrow> \<not> prepared st)"

lemma batch_info_prepared:
  "(\<And>rid. rid \<in> set rs \<Longrightarrow> \<exists>st. request_states ls rid = Some st \<and> prepared st) \<Longrightarrow>
   batch_info ls k (zip rs (zip [k..<k + length rs] [Suc k..<Suc k + length rs])) =
   map (\<lambda>j. (rs ! j, k + j, k + j, Suc (k + j))) [0..<length rs]"
proof (induction rs arbitrary: k)
  case (Cons r rs)
  obtain st where st: "request_states ls r = Some st" "prepared st" using Cons.prems[of r] by auto
  have "batch_info ls (Suc k) (zip rs (zip [Suc k..<Suc k + length rs] [Suc (Suc k)..<Suc (Suc k) + length rs])) =
      map (\<lambda>j. (rs ! j, Suc k + j, Suc k + j, Suc (Suc k + j))) [0..<length rs]"
    using Cons.prems by (intro Cons.IH) simp
  then have "batch_info ls k (zip (r # rs) (zip [k..<k + length (r # rs)] [Suc k..<Suc k + length (r # rs)])) =
      (r, k, k, Suc k) # map (\<lambda>j. (rs ! j, Suc k + j, Suc k + j, Suc (Suc k + j))) [0..<length rs]"
    using st by (simp add: upt_conv_Cons del: upt_Suc)
  then show ?case by (simp add: upt_conv_Cons map_Suc_upt[symmetric] del: upt_Suc)
qed simp

lemma two_elements: "2 \<le> length xs \<Longrightarrow> \<exists>x y zs. xs = x # y # zs"
  by (cases xs rule: remdups_adj.cases) auto

lemma compute_topk_mask_error:
  assumes "quantize_loop e dm kv bs m (quant_batch rt) infos cls = (cls, None)" "infos = i # j # infos'"
    and "\<And>m0. mask_loop e dm rt (snd cls) (fst (offset_list (snd cls) 0 infos)) query 0 infos m0 = Some (Inl er)"
  shows "compute_topk_mask e dm rt kv bs m infos query cls = (cls, Some (Inl er))"
proof -
  obtain offs n where o: "offset_list (snd cls) 0 infos = (offs, n)" by fastforce
  obtain offs' rt1 m0 rt2 where sp: "offsets_space rt offs = (offs', rt1)" "mask_space rt1 n = (m0, rt2)" by fastforce
  have "mask_loop e dm rt (snd cls) offs query 0 infos m0 = Some (Inl er)" using assms(3)[of m0] o by simp
  then show ?thesis unfolding compute_topk_mask_def assms(1) using o sp assms(2) by simp
qed

text \<open>The fallback raises at its first row: a top-p selection cannot be joined with the pending tokens.\<close>

lemma individual_loop_top_p:
  assumes "request_states (snd cls) rid = Some st" "ready st" "0 < num_pending st" "num_pending st < quant_batch rt"
    and "rt_topp rt = Some p" "0 < p" "b_q rt = Some b" "0 < b" "start < length query" "start < en"
  shows "individual_loop e dm rt kv bs m query ((rid, idx, start, en) # infos) cls = Some (Inl RuntimeError)"
proof -
  have q: "rows_between start (start + 1) query \<noteq> []" using assms(9) by (simp add: rows_between_def)
  obtain rows where sel: "compute_quantized_topk_indices e dm (b_q rt) (rt_topp rt) (snd cls) st (rows_between start (start + 1) query)
      (case rt_topk rt of None \<Rightarrow> Some (int (metadata_write_index st)) | Some k \<Rightarrow> Some k) = Some (Inr (Sel_mask rows))"
    using top_p_selection[OF assms(2,7,8,6) q] assms(5) by metis
  have "metadata_write_index st \<noteq> 0" using assms(2) by (simp add: ready_def)
  then have "individual_indices st (Sel_mask rows) = Inl RuntimeError" using assms(3) by (simp add: individual_indices_def)
  moreover have "[start..<en] = start # [Suc start..<en]" using assms(10) by (rule upt_conv_Cons)
  ultimately have "individual_rows e dm rt kv bs m (snd cls) st idx query [start..<en] = Some (Inl RuntimeError)"
    using sel by simp
  then show ?thesis using assms(1,4) by (simp add: dict_get_def)
qed

text \<open>C36. A single request that is not prepared makes a decode batch in top-p mode fail. When the first request of the batch is not prepared and
  at least two others follow that are, the mask computation indexes the list of offsets, which has one entry per prepared request, by the
  position among all requests of the batch, and raises \<open>IndexError\<close>. That is caught, but the per-request fallback then joins a two-dimensional
  empty tensor with the pending positions and raises \<open>RuntimeError\<close>, which leaves the backend.\<close>

theorem unprepared_request_aborts_decode:
  assumes "unprepared ls u" "2 \<le> length rs" "has_wrapper m" "req_ids m = Some (u # rs)" "query_start_loc m = Some [0..<length rs + 2]"
    and "\<forall>rid \<in> set rs. \<exists>st. request_states ls rid = Some st \<and> ready st \<and> 0 < num_pending st \<and> num_pending st < quant_batch rt"
    and "rt_topp rt = Some p" "0 < p" "b_q rt = Some b" "0 < b" "length query = length rs + 1"
  shows "compute_topk_mask e dm rt kv bs m (batch_info ls 0 (zip (u # rs) (zip [0..<length rs + 2] (tl [0..<length rs + 2])))) query (rotation_cache rt, ls) =
      ((rotation_cache rt, ls), Some (Inl IndexError)) \<and>
    run_rabitq_decode e dm rt kv bs m query lname ls = Inl RuntimeError"
proof -
  let ?infos = "map (\<lambda>j. (rs ! j, 1 + j, 1 + j, Suc (1 + j))) [0..<length rs]"
  have "zip (u # rs) (zip [0..<length rs + 2] (tl [0..<length rs + 2])) = (u, 0, 1) # zip rs (zip [1..<1 + length rs] [Suc 1..<Suc 1 + length rs])"
    by (rule nth_equalityI) (auto simp: nth_Cons' nth_tl simp del: upt_Suc)
  moreover have "batch_info ls 0 ((u, 0, 1) # sps) = batch_info ls 1 sps" for sps
    using assms(1) by (auto simp: unprepared_def split: option.splits)
  moreover have "batch_info ls 1 (zip rs (zip [1..<1 + length rs] [Suc 1..<Suc 1 + length rs])) = ?infos"
    using assms(6) by (intro batch_info_prepared) (auto simp: ready_def)
  ultimately have infos: "batch_info ls 0 (zip (u # rs) (zip [0..<length rs + 2] (tl [0..<length rs + 2]))) = ?infos" by simp
  have idle: "quantize_loop e dm kv bs m (quant_batch rt) ?infos (rotation_cache rt, ls) = ((rotation_cache rt, ls), None)"
    by (rule quantize_loop_idle) (use assms(6) in force)
  let ?offs = "map (\<lambda>k. 0 + kv_tokens ls (take k ?infos)) [0..<length ?infos]"
  have "mask_loop e dm rt ls ?offs query 0 ?infos m0 = Some (Inl IndexError)" for m0
    by (rule mask_loop_shifted[OF assms(7-10)]) (use assms(2,6,11) in \<open>auto simp: all_set_conv_all_nth\<close>)
  moreover have "2 \<le> length ?infos" using assms(2) by simp
  from two_elements[OF this] obtain i j infos' where ij: "?infos = i # j # infos'" by (elim exE) (rule that)
  ultimately have err: "compute_topk_mask e dm rt kv bs m ?infos query (rotation_cache rt, ls) = ((rotation_cache rt, ls), Some (Inl IndexError))"
    by (intro compute_topk_mask_error[OF idle ij]) (simp only: offset_list_eq fst_conv snd_conv)
  obtain st where st: "request_states (snd (rotation_cache rt, ls)) (rs ! 0) = Some st" "ready st" "0 < num_pending st" "num_pending st < quant_batch rt"
  proof -
    have "rs ! 0 \<in> set rs" using assms(2) by (intro nth_mem) linarith
    with assms(6) that show ?thesis by auto
  qed
  have "0 < length rs" using assms(2) by linarith
  then have "?infos = (rs ! 0, 1, 1, 2) # tl ?infos" by (simp only: upt_conv_Cons) (simp del: upt_Suc)
  then have "individual_loop e dm rt kv bs m query ?infos (rotation_cache rt, ls) = Some (Inl RuntimeError)"
    using individual_loop_top_p[OF st assms(7-10), of 1 query 2 e dm kv bs m 1 "tl ?infos"] assms(11) \<open>0 < length rs\<close> by simp
  moreover have "\<forall>(rid, idx, start, en) \<in> set ?infos. en - start = 1" by auto
  ultimately have "run_rabitq_decode e dm rt kv bs m query lname ls = Inl RuntimeError"
    unfolding run_rabitq_decode_def run_batch_decode_def assms(4,5) option.case prod.case infos Let_def using assms(3) ij err by simp
  then show ?thesis unfolding infos using err by simp
qed

text \<open>Request \<open>''u''\<close> is not prepared, \<open>''a''\<close> and \<open>''b''\<close> are.\<close>

theorem unprepared_request_aborts_decode_witness:
  "let m = \<lparr>req_ids = Some [''u'', ''a'', ''b''], query_start_loc = Some [0, 1, 2, 3], max_q_len = 1, num_decode_tokens = 3, slot_mapping = [],
            block_tables = None, meta_b_q = None, meta_topk = None, meta_topp = None, has_wrapper = True\<rparr>
   in \<forall>e dm kv bs q. run_rabitq_decode e dm demo_runtime kv bs m [q, q, q] ''l'' demo_layer = Inl RuntimeError"
proof -
  let ?m = "\<lparr>req_ids = Some [''u'', ''a'', ''b''], query_start_loc = Some [0, 1, 2, 3], max_q_len = 1, num_decode_tokens = 3, slot_mapping = [],
            block_tables = None, meta_b_q = None, meta_topk = None, meta_topp = None, has_wrapper = True\<rparr>"
  have u: "unprepared demo_layer ''u''" by (simp add: unprepared_def demo_layer_def init_layer_state_def)
  have locs: "[0..<length [''a'', ''b''] + 2] = [0, 1, 2, 3]" by (simp add: upt_rec)
  have "run_rabitq_decode e dm demo_runtime kv bs ?m [q, q, q] ''l'' demo_layer = Inl RuntimeError" for e dm kv bs q
    using unprepared_request_aborts_decode[OF u, of "[''a'', ''b'']" ?m demo_runtime "1 / 2" 4 "[q, q, q]"]
    unfolding locs by (simp add: demo_states demo_ready) (simp add: demo_runtime_def)
  then show ?thesis by simp
qed

end
