(* ===== verification/Backend_Cache.thy ===== *)
theory Backend_Cache
  imports Backend_State
begin

text \<open>
  The paged key cache as the vLLM backend uses it: the slot mapping of a batch says where its keys are stored, the block table of a request
  where they are read. A batch whose slots are those of the tables extends the keys each table holds.
\<close>

section \<open>Keys in the paged cache\<close>

definition slot_of :: "nat list \<Rightarrow> nat \<Rightarrow> nat \<Rightarrow> nat" where
  "slot_of tbl bs i = tbl ! (i div bs) * bs + i mod bs"

text \<open>A block table with room for \<open>n\<close> tokens.\<close>

definition table_ok :: "paged_keys \<Rightarrow> nat \<Rightarrow> nat list \<Rightarrow> nat \<Rightarrow> bool" where
  "table_ok kv bs tbl n \<longleftrightarrow> 0 < bs \<and> distinct tbl \<and> n \<le> length tbl * bs \<and> (\<forall>b \<in> set tbl. b < length kv) \<and> (\<forall>blk \<in> set kv. length blk = bs)"

text \<open>
  The slots of a batch: rows \<open>start\<close> to \<open>start + k\<close> go to the positions \<open>n\<close> to \<open>n + k\<close> of the table, and no other row to one of its
  positions below.
\<close>

definition own_slots :: "batch_meta \<Rightarrow> nat \<Rightarrow> nat list \<Rightarrow> nat \<Rightarrow> nat \<Rightarrow> nat \<Rightarrow> bool" where
  "own_slots m bs tbl start n k \<longleftrightarrow> start + k \<le> length (slot_mapping m) \<and>
     (\<forall>j<length (slot_mapping m). if start \<le> j \<and> j < start + k then slot_mapping m ! j = int (slot_of tbl bs (n + (j - start)))
        else slot_mapping m ! j \<notin> int ` slot_of tbl bs ` {..<n + k})"

definition table_holds :: "paged_keys \<Rightarrow> nat list \<Rightarrow> nat \<Rightarrow> head_rows list \<Rightarrow> bool" where
  "table_holds kv tbl bs ks \<longleftrightarrow> (\<forall>i<length ks. extract_key kv tbl bs i = Inr (ks ! i))"

definition read_slot :: "paged_keys \<Rightarrow> nat \<Rightarrow> nat \<Rightarrow> head_rows" where
  "read_slot kv bs s = kv ! (s div bs) ! (s mod bs)"

lemma cache_write_shape:
  "length (cache_write bs kv slots ks) = length kv"
  "(\<forall>blk \<in> set kv. length blk = bs) \<Longrightarrow> \<forall>blk \<in> set (cache_write bs kv slots ks). length blk = bs"
proof (induction bs kv slots ks rule: cache_write.induct)
  case (1 bs kv slot slots k ks)
  { case 1 then show ?case using "1.IH"(1) by simp
  next
    case 2
    have "\<forall>blk \<in> set (kv[b := (kv ! b)[j := k]]). length blk = bs" for b j
    proof (cases "b < length kv")
      case True
      then have "length ((kv ! b)[j := k]) = bs" using 2 by simp
      then show ?thesis using 2 set_update_subset_insert[of kv b "(kv ! b)[j := k]"] by blast
    qed (use 2 in \<open>simp add: list_update_beyond\<close>)
    then show ?case using "1.IH"(2) 2 by simp }
qed simp_all

lemma read_write:
  assumes "0 < bs" "s div bs < length kv" "\<forall>blk \<in> set kv. length blk = bs"
  shows "read_slot (kv[t div bs := (kv ! (t div bs))[t mod bs := k]]) bs s = (if t = s then k else read_slot kv bs s)"
proof (cases "t div bs = s div bs")
  case True
  then have "t = s \<longleftrightarrow> t mod bs = s mod bs" by (metis div_mult_mod_eq)
  moreover have "s mod bs < length (kv ! (s div bs))" using assms by simp
  ultimately show ?thesis using True assms(2) by (auto simp: read_slot_def)
qed (auto simp: read_slot_def)

lemma read_cache_write:
  "0 < bs \<Longrightarrow> s div bs < length kv \<Longrightarrow> \<forall>blk \<in> set kv. length blk = bs \<Longrightarrow>
    read_slot (cache_write bs kv slots ks) bs s =
      (case filter (\<lambda>p. fst p = int s) (zip slots ks) of [] \<Rightarrow> read_slot kv bs s | ps \<Rightarrow> snd (last ps))"
proof (induction bs kv slots ks rule: cache_write.induct)
  case (1 bs kv slot slots k ks)
  let ?kv = "if slot < 0 then kv else kv[nat slot div bs := (kv ! (nat slot div bs))[nat slot mod bs := k]]"
  have "\<forall>blk \<in> set ?kv. length blk = bs" using cache_write_shape(2)[OF "1.prems"(3), of "[slot]" "[k]"] by simp
  moreover have "s div bs < length ?kv" using "1.prems"(2) by simp
  ultimately have "read_slot (cache_write bs ?kv slots ks) bs s =
      (case filter (\<lambda>p. fst p = int s) (zip slots ks) of [] \<Rightarrow> read_slot ?kv bs s | ps \<Rightarrow> snd (last ps))" using "1.IH" "1.prems"(1) by blast
  moreover have "read_slot ?kv bs s = (if slot = int s then k else read_slot kv bs s)"
    using read_write[of bs s kv "nat slot" k] "1.prems" by auto
  ultimately show ?case by (auto split: list.splits)
qed simp_all

lemma slot_of_inj:
  assumes "0 < bs" "distinct tbl" "i < length tbl * bs" "j < length tbl * bs"
  shows "slot_of tbl bs i = slot_of tbl bs j \<longleftrightarrow> i = j"
proof
  assume eq: "slot_of tbl bs i = slot_of tbl bs j"
  have parts: "slot_of tbl bs l div bs = tbl ! (l div bs)" "slot_of tbl bs l mod bs = l mod bs" for l using assms(1) by (simp_all add: slot_of_def)
  have "tbl ! (i div bs) = tbl ! (j div bs)" "i mod bs = j mod bs" using eq parts by metis+
  moreover have "i div bs < length tbl" "j div bs < length tbl" using assms(1,3,4) by (simp_all add: less_mult_imp_div_less)
  ultimately show "i = j" using assms(2) by (metis div_mult_mod_eq nth_eq_iff_index_eq)
qed simp

lemma extract_read:
  assumes "table_ok kv bs tbl n" "i < n"
  shows "extract_key kv tbl bs i = Inr (read_slot kv bs (slot_of tbl bs i))" "slot_of tbl bs i div bs < length kv" "i < length tbl * bs"
proof -
  show "i < length tbl * bs" using assms by (simp add: table_ok_def)
  then have "i div bs < length tbl" by (rule less_mult_imp_div_less)
  then show "extract_key kv tbl bs i = Inr (read_slot kv bs (slot_of tbl bs i))" "slot_of tbl bs i div bs < length kv"
    using assms(1) by (simp_all add: extract_key_def read_slot_def slot_of_def table_ok_def)
qed

lemma filter_zip_single:
  assumes "j < length xs" "length ys \<ge> length xs" "xs ! j = x" "\<And>l. l < length xs \<Longrightarrow> xs ! l = x \<Longrightarrow> l = j"
  shows "filter (\<lambda>p. fst p = x) (zip xs ys) = [(x, ys ! j)]"
proof -
  have "zip xs ys = take j (zip xs ys) @ (x, ys ! j) # drop (Suc j) (zip xs ys)"
    using id_take_nth_drop[of j "zip xs ys"] assms(1-3) by simp
  moreover have "filter (\<lambda>p. fst p = x) (take j (zip xs ys)) = []"
    using assms(2) by (fastforce simp: filter_empty_conv in_set_conv_nth dest: assms(4))
  moreover have "xs ! (Suc j + l) \<noteq> x" if "Suc j + l < length xs" for l using assms(4)[OF that] by auto
  then have "filter (\<lambda>p. fst p = x) (drop (Suc j) (zip xs ys)) = []"
    using assms(1,2) by (auto simp: filter_empty_conv in_set_conv_nth)
  ultimately show ?thesis by (metis (mono_tags, lifting) append_Nil append_self_conv filter.simps(2) filter_append fst_conv)
qed

text \<open>Storing the rows of a batch extends the keys a table holds by the rows of its request.\<close>

theorem table_holds_write:
  assumes "table_ok kv bs tbl (length ks + k)" "own_slots m bs tbl start (length ks) k" "table_holds kv tbl bs ks"
    and "length (slot_mapping m) \<le> length key"
  shows "table_holds (cache_write bs kv (slot_mapping m) key) tbl bs (ks @ rows_between start (start + k) key)"
    "table_ok (cache_write bs kv (slot_mapping m) key) bs tbl (length ks + k)"
proof -
  let ?kv = "cache_write bs kv (slot_mapping m) key" and ?sl = "slot_mapping m"
  show ok: "table_ok ?kv bs tbl (length ks + k)" using assms(1) cache_write_shape(2)[of kv bs ?sl key] by (simp add: table_ok_def cache_write_shape(1))
  have len: "length (rows_between start (start + k) key) = k" using assms(2,4) unfolding own_slots_def rows_between_def by auto
  have bs: "0 < bs" "distinct tbl" "\<forall>blk \<in> set kv. length blk = bs" using assms(1) by (simp_all add: table_ok_def)
  have "extract_key ?kv tbl bs i = Inr ((ks @ rows_between start (start + k) key) ! i)" if i: "i < length ks + k" for i
  proof -
    have own: "?sl ! j = int (slot_of tbl bs i) \<longleftrightarrow> length ks \<le> i \<and> j = start + (i - length ks)" if "j < length ?sl" for j
    proof (cases "start \<le> j \<and> j < start + k")
      case True
      then have "?sl ! j = int (slot_of tbl bs (length ks + (j - start)))" using assms(2) that by (simp add: own_slots_def)
      moreover have "length ks + (j - start) < length ks + k" using True by arith
      ultimately show ?thesis using slot_of_inj[OF bs(1,2)] extract_read(3)[OF assms(1)] i True by auto
    next
      case False
      then have "?sl ! j \<notin> int ` slot_of tbl bs ` {..<length ks + k}" using assms(2) that unfolding own_slots_def by presburger
      then show ?thesis using False i by auto
    qed
    show ?thesis
    proof (cases "i < length ks")
      case True
      then have "filter (\<lambda>p. fst p = int (slot_of tbl bs i)) (zip ?sl key) = []"
        using own by (fastforce simp: filter_empty_conv in_set_conv_nth)
      then show ?thesis
        using extract_read[OF assms(1) i] extract_read(1)[OF ok i] read_cache_write[OF bs(1) _ bs(3)] assms(3) True
        by (simp add: table_holds_def nth_append)
    next
      case False
      let ?j = "start + (i - length ks)"
      have "start + k \<le> length ?sl" using assms(2) unfolding own_slots_def by blast
      then have j: "?j < length ?sl" using i False by linarith
      have "filter (\<lambda>p. fst p = int (slot_of tbl bs i)) (zip ?sl key) = [(int (slot_of tbl bs i), key ! ?j)]"
        by (rule filter_zip_single) (use own j assms(4) False in auto)
      then show ?thesis
        using extract_read[OF assms(1) i] extract_read(1)[OF ok i] read_cache_write[OF bs(1) _ bs(3)] j assms(4) False i
        by (simp add: nth_append rows_between_def)
    qed
  qed
  then show "table_holds ?kv tbl bs (ks @ rows_between start (start + k) key)" using len by (simp add: table_holds_def)
qed

end
