(* ===== verification/Backend_Run.thy ===== *)
theory Backend_Run
  imports Backend_Select Backend_Cache
begin

text \<open>
  Life of a request in the vLLM backend: prefill in one batch, then decode batches, interleaved with any batches of
  other requests and layers. The metadata a layer keeps for the request stay those of its keys in the paged cache.
\<close>

section \<open>Loops over the requests of a batch\<close>

text \<open>
  Three loops go over the requests of a batch and change the state of one request at a time: the statistics of the prompt, the quantization after
  a prefill, and the bookkeeping of a decode step.
\<close>

locale span_loop =
  fixes step :: "span \<Rightarrow> layer_state \<Rightarrow> layer_state"
  assumes frame: "r \<noteq> fst sp \<Longrightarrow> request_states (step sp ls) r = request_states ls r"
    and keeps_rotation: "ls_rotation (step sp ls) = ls_rotation ls"
begin

lemma loop_rotation: "ls_rotation (fold step sps ls) = ls_rotation ls"
  by (induction sps arbitrary: ls) (simp_all add: keeps_rotation)

lemma loop_other: "r \<notin> fst ` set sps \<Longrightarrow> request_states (fold step sps ls) r = request_states ls r"
proof (induction sps arbitrary: ls)
  case (Cons sp sps)
  then have "request_states (step sp ls) r = request_states ls r" by (intro frame) auto
  then show ?case using Cons by simp
qed simp

lemma loop_own:
  assumes "distinct (map fst sps)" "sp \<in> set sps"
  obtains ls1 where "ls_rotation ls1 = ls_rotation ls" "request_states ls1 (fst sp) = request_states ls (fst sp)"
    "request_states (fold step sps ls) (fst sp) = request_states (step sp ls1) (fst sp)"
proof -
  obtain as bs where sps: "sps = as @ sp # bs" using assms(2) by (auto simp: in_set_conv_decomp)
  have "fst sp \<notin> fst ` set as" "fst sp \<notin> fst ` set bs" using assms(1) by (auto simp: sps)
  then show ?thesis
    by (intro that[of "fold step as ls"]) (simp_all add: loop_rotation loop_other sps)
qed

end

interpretation stats: span_loop "prefill_stats_step query key"
  by unfold_locales (auto simp: prefill_stats_step_def get_request_state_def put_request_def Let_def split: prod.splits option.splits)

interpretation quant: span_loop "prefill_quantize_step e dm keys"
  by unfold_locales (auto simp: prefill_quantize_step_def put_request_def Let_def split: prod.splits option.splits)

interpretation appends: span_loop append_step
  by unfold_locales (auto simp: append_step_def put_request_def split: prod.splits option.splits)

section \<open>The metadata of a request\<close>

text \<open>A code of the key \<open>k\<close>, by the fused kernel or the torch code.\<close>

definition is_code :: "model_dims \<Rightarrow> head_mats \<Rightarrow> head_rows \<Rightarrow> head_rows \<Rightarrow> head_rows \<Rightarrow> key_code \<Rightarrow> bool" where
  "is_code dm rotation_t ck cq k c \<longleftrightarrow> c = quantize_key_torch (d_head_size dm) rotation_t ck cq k \<or>
     (\<exists>B>0. c = quantize_keys_fused_kernel B (d_head_size dm) rotation_t ck cq k)"

definition mean_rows :: "head_rows list \<Rightarrow> head_rows" where
  "mean_rows xs = (\<lambda>h d. sum_rows xs h d / real (length xs))"

definition rows_hold :: "model_dims \<Rightarrow> head_mats \<Rightarrow> head_rows \<Rightarrow> head_rows \<Rightarrow> head_rows list \<Rightarrow> nat \<Rightarrow> row_buffer \<Rightarrow> bool" where
  "rows_hold dm R ck cq ks n rows \<longleftrightarrow> n \<le> length rows \<and> (\<forall>i<n. \<exists>c. rows ! i = Some c \<and> is_code dm R ck cq (ks ! i) c)"

text \<open>The state of request \<open>r\<close> after a prompt with queries \<open>qs\<close> and keys \<open>ps\<close>, when its keys so far are \<open>ks\<close>.\<close>

definition tracked :: "model_dims \<Rightarrow> head_rows list \<Rightarrow> head_rows list \<Rightarrow> head_rows list \<Rightarrow> head_mats \<Rightarrow> request_state \<Rightarrow> bool" where
  "tracked dm qs ps ks R st \<longleftrightarrow> prepared st \<and> total_tokens st = length ks \<and> metadata_write_index st + num_pending st = length ks \<and>
     length ps \<le> metadata_write_index st \<and> 0 < length ps \<and>
     centroid_q st = Some (mean_rows qs) \<and> centroid_k st = Some (mean_rows ps) \<and>
     rq_cq_dot_ck st = Some (\<lambda>n. dot (d_head_size dm) (kv_centroid dm (mean_rows qs) n) (mean_rows ps n)) \<and>
     (\<exists>rows. meta_rows st = Some rows \<and> length rows = metadata_capacity st \<and>
        rows_hold dm R (mean_rows ps) (kv_centroid dm (mean_rows qs)) ks (metadata_write_index st) rows)"

definition tracks :: "model_dims \<Rightarrow> string \<Rightarrow> head_rows list \<Rightarrow> head_rows list \<Rightarrow> head_rows list \<Rightarrow> layer_state \<Rightarrow> bool" where
  "tracks dm r qs ps ks ls \<longleftrightarrow> (\<exists>R st. ls_rotation ls = Some R \<and> request_states ls r = Some st \<and> tracked dm qs ps ks (snd R) st)"

lemma tracked_ready: "tracked dm qs ps ks R st \<Longrightarrow> ready st"
proof -
  assume t: "tracked dm qs ps ks R st"
  then obtain rows where rows: "meta_rows st = Some rows" "metadata_write_index st \<le> length rows"
    "\<forall>i<metadata_write_index st. \<exists>c. rows ! i = Some c \<and> is_code dm R (mean_rows ps) (kv_centroid dm (mean_rows qs)) (ks ! i) c"
    by (auto simp: tracked_def rows_hold_def)
  then have "\<forall>i<metadata_write_index st. rows ! i \<noteq> None" by force
  moreover have "0 < metadata_write_index st" using t unfolding tracked_def by linarith
  ultimately show ?thesis using t rows(1,2) unfolding ready_def by (simp add: tracked_def)
qed

lemma tracksI: "ls_rotation ls = Some R \<Longrightarrow> request_states ls r = Some st \<Longrightarrow> tracked dm qs ps ks (snd R) st \<Longrightarrow> tracks dm r qs ps ks ls"
  unfolding tracks_def by blast

lemma tracks_cong:
  "tracks dm r qs ps ks ls \<Longrightarrow> ls_rotation ls' = ls_rotation ls \<Longrightarrow> request_states ls' r = request_states ls r \<Longrightarrow> tracks dm r qs ps ks ls'"
  by (simp add: tracks_def)

lemma quantize_keys_codes:
  assumes "quantize_keys e dm R ck cq keys avail = (cs, avail')" "0 < e_block_d e"
  shows "length cs = length keys" "\<And>i. i < length keys \<Longrightarrow> is_code dm R ck cq (keys ! i) (cs ! i)"
  using assms by (auto simp: quantize_keys_def is_code_def split: if_splits)

section \<open>Prefill\<close>

lemma length_rows_between: "en \<le> length xs \<Longrightarrow> length (rows_between st en xs) = en - st"
  by (simp add: rows_between_def)

text \<open>A request that is new, after the two prefill loops of a batch.\<close>

lemma prefill_step_new:
  assumes "request_states ls r = None" "start < en" "en \<le> length query" "en \<le> length key"
  shows "request_states (prefill_stats_step query key (r, start, en) ls) r =
    Some (init_request_state\<lparr>sum_q := sum_rows (rows_between start en query), sum_k := sum_rows (rows_between start en key),
            rq_count := en - start, total_tokens := en - start\<rparr>)"
  using assms by (simp add: prefill_stats_step_def get_request_state_def put_request_def init_request_state_def)

lemma prefill_quantized:
  assumes "ls_rotation ls = Some R" "0 < e_block_d e" "start < en" "en \<le> length query" "en \<le> length key"
    and "request_states ls r = Some (init_request_state\<lparr>sum_q := sum_rows (rows_between start en query), sum_k := sum_rows (rows_between start en key),
            rq_count := en - start, total_tokens := en - start\<rparr>)"
  shows "\<exists>st. request_states (prefill_quantize_step e dm key (r, start, en) ls) r = Some st \<and>
    tracked dm (rows_between start en query) (rows_between start en key) (rows_between start en key) (snd R) st"
proof -
  let ?ps = "rows_between start en key" and ?qs = "rows_between start en query"
  have len: "length ?ps = en - start" "length ?qs = en - start" using assms(4,5) by (simp_all add: length_rows_between)
  obtain cs avail where q: "quantize_keys e dm (snd R) (mean_rows ?ps) (kv_centroid dm (mean_rows ?qs)) ?ps (triton_available ls) = (cs, avail)"
    by fastforce
  note codes = quantize_keys_codes[OF q assms(2)]
  let ?cap = "(en - start) + max ((en - start) * 10) 512"
  let ?rows = "set_slice (replicate ?cap None) 0 (map Some cs)"
  have "rows_hold dm (snd R) (mean_rows ?ps) (kv_centroid dm (mean_rows ?qs)) ?ps (en - start) ?rows"
    using codes len by (auto simp: rows_hold_def set_slice_def nth_append)
  moreover have "length ?rows = ?cap" using codes(1) len by (simp add: set_slice_def)
  moreover have "(\<lambda>h d. sum_rows ?qs h d / real (en - start)) = mean_rows ?qs" "(\<lambda>h d. sum_rows ?ps h d / real (en - start)) = mean_rows ?ps"
    using len by (simp_all add: mean_rows_def)
  ultimately show ?thesis
    using assms(1,3,6) q len by (simp add: prefill_quantize_step_def put_request_def init_request_state_def tracked_def Let_def)
qed

section \<open>Decode\<close>

lemma append_tracked:
  assumes "tracked dm qs ps ks R st"
  shows "tracked dm qs ps (ks @ [k]) R (st\<lparr>total_tokens := total_tokens st + 1, num_pending := num_pending st + 1\<rparr>)"
  using assms by (auto simp: tracked_def rows_hold_def nth_append)

text \<open>The request's keys are where its block table says.\<close>

definition cache_holds :: "paged_keys \<Rightarrow> batch_meta \<Rightarrow> nat \<Rightarrow> nat \<Rightarrow> head_rows list \<Rightarrow> bool" where
  "cache_holds kv m bs idx ks \<longleftrightarrow> (\<exists>tables. block_tables m = Some tables \<and> idx < length tables \<and>
     (\<forall>i<length ks. extract_key kv (tables ! idx) bs i = Inr (ks ! i)))"

lemma collect_map_Inr: "(\<And>x. x \<in> set xs \<Longrightarrow> f x = Inr (g x)) \<Longrightarrow> collect (map f xs) = Inr (map g xs)"
  by (induction xs) auto

lemma extract_pending:
  assumes "cache_holds kv m bs idx ks" "n \<le> length ks"
  shows "extract_keys kv m bs idx [n..<length ks] = Inr (drop n ks)"
proof -
  have "map ((!) ks) [n..<length ks] = drop n ks" by (rule nth_equalityI) auto
  then show ?thesis
    using assms collect_map_Inr[of "[n..<length ks]" _ "(!) ks"] by (auto simp: extract_keys_def cache_holds_def)
qed

lemma rows_hold_extend:
  assumes "rows_hold dm R ck cq ks n rows" "length cs = length ks - n" "n \<le> length ks" "length ks \<le> length rows"
    and "\<And>i. i < length ks - n \<Longrightarrow> is_code dm R ck cq (ks ! (n + i)) (cs ! i)"
  shows "rows_hold dm R ck cq ks (length ks) (set_slice rows n (map Some cs))"
proof -
  have "\<exists>c. set_slice rows n (map Some cs) ! i = Some c \<and> is_code dm R ck cq (ks ! i) c" if "i < length ks" for i
  proof (cases "i < n")
    case True
    then show ?thesis using assms(1,2,3,4) that by (auto simp: rows_hold_def nth_set_slice)
  next
    case False
    then show ?thesis using assms(2-4) assms(5)[of "i - n"] that by (auto simp: nth_set_slice)
  qed
  then show ?thesis using assms(2-4) by (auto simp: rows_hold_def length_set_slice)
qed

lemma grow_rows_ok:
  assumes "tracked dm qs ps ks R st"
  obtains rows where "grow_rows st (length ks) = st\<lparr>meta_rows := Some rows, metadata_capacity := length rows\<rparr>"
    "length ks \<le> length rows" "rows_hold dm R (mean_rows ps) (kv_centroid dm (mean_rows qs)) ks (metadata_write_index st) rows"
proof -
  obtain rows where rows: "meta_rows st = Some rows" "length rows = metadata_capacity st"
    "rows_hold dm R (mean_rows ps) (kv_centroid dm (mean_rows qs)) ks (metadata_write_index st) rows"
    and w: "metadata_write_index st \<le> length ks"
    using assms by (auto simp: tracked_def)
  show ?thesis
  proof (cases "length ks > metadata_capacity st")
    case True
    let ?cap = "max (length ks * 2) (metadata_capacity st + 512)"
    let ?rows = "set_slice (replicate ?cap None) 0 (take (metadata_write_index st) rows)"
    have "rows_hold dm R (mean_rows ps) (kv_centroid dm (mean_rows qs)) ks (metadata_write_index st) ?rows" "length ?rows = ?cap"
      using rows(3) w by (auto simp: rows_hold_def set_slice_def nth_append)
    then show ?thesis using True rows(1) by (intro that[of ?rows]) (simp_all add: grow_rows_def Let_def)
  next
    case False
    then show ?thesis using rows by (intro that[of rows]) (simp_all add: grow_rows_def)
  qed
qed

lemma ensure_rotation_kept: "ls_rotation (snd cls) = Some R \<Longrightarrow> ensure_rotation e cls = cls"
  by (simp add: ensure_rotation_def case_prod_unfold)

lemma ensure_rotation_frame: "request_states (snd (ensure_rotation e cls)) = request_states (snd cls)" "ls_rotation (snd (ensure_rotation e cls)) \<noteq> None"
  by (auto simp: ensure_rotation_def split: prod.splits option.splits)

text \<open>Quantizing the pending tokens of the request itself, and of another one.\<close>

lemma quantize_pending_own:
  assumes "tracks dm r qs ps ks (snd cls)" "cache_holds kv m bs idx ks" "0 < e_block_d e"
  shows "\<exists>cls'. quantize_pending_keys e dm kv bs m r idx cls = Inr cls' \<and> tracks dm r qs ps ks (snd cls') \<and>
    (\<forall>st'. request_states (snd cls') r = Some st' \<longrightarrow> num_pending st' = 0)"
proof -
  obtain R st where st: "ls_rotation (snd cls) = Some R" "request_states (snd cls) r = Some st" "tracked dm qs ps ks (snd R) st"
    using assms(1) by (auto simp: tracks_def)
  let ?cq = "kv_centroid dm (mean_rows qs)" and ?w = "metadata_write_index st"
  have f: "total_tokens st = length ks" "?w + num_pending st = length ks" "centroid_q st = Some (mean_rows qs)" "centroid_k st = Some (mean_rows ps)"
    using st(3) by (auto simp: tracked_def)
  show ?thesis
  proof (cases "num_pending st = 0")
    case True
    then show ?thesis using st assms(1) by (simp add: quantize_pending_keys_def)
  next
    case False
    have pend: "length ks - num_pending st = ?w" using f(2) by simp
    have keys: "extract_keys kv m bs idx [total_tokens st - num_pending st..<total_tokens st] = Inr (drop ?w ks)" "drop ?w ks \<noteq> []"
      using extract_pending[OF assms(2), of ?w] f(1,2) False by (simp_all add: pend)
    obtain cs avail where q: "quantize_keys e dm (snd R) (mean_rows ps) ?cq (drop ?w ks) (triton_available (snd cls)) = (cs, avail)" by fastforce
    note codes = quantize_keys_codes[OF q assms(3)]
    obtain rows where g: "grow_rows st (length ks) = st\<lparr>meta_rows := Some rows, metadata_capacity := length rows\<rparr>"
      "length ks \<le> length rows" "rows_hold dm (snd R) (mean_rows ps) ?cq ks ?w rows" by (rule grow_rows_ok[OF st(3)])
    let ?st = "st\<lparr>metadata_capacity := length rows, meta_rows := Some (set_slice rows ?w (map Some cs)), metadata_write_index := length ks, num_pending := 0\<rparr>"
    have hold: "rows_hold dm (snd R) (mean_rows ps) ?cq ks (length ks) (set_slice rows ?w (map Some cs))"
      by (rule rows_hold_extend[OF g(3)]) (use codes g(2) f(2) in auto)
    have "length (set_slice rows ?w (map Some cs)) = length rows" using g(2) codes(1) f(2) by (simp add: length_set_slice)
    then have "tracked dm qs ps ks (snd R) ?st" using st(3) hold unfolding tracked_def by simp
    moreover obtain rows0 where "meta_rows st = Some rows0" using st(3) by (auto simp: tracked_def)
    then have "quantize_pending_keys e dm kv bs m r idx cls = Inr (fst cls, put_request r ?st ((snd cls)\<lparr>triton_available := avail\<rparr>))"
      using False keys q f(2-4) st(1,2) ensure_rotation_kept[OF st(1), of e] g(1)
      by (simp add: quantize_pending_keys_def case_prod_unfold Let_def)
    ultimately show ?thesis using st(1)
      by (intro exI[of _ "(fst cls, put_request r ?st ((snd cls)\<lparr>triton_available := avail\<rparr>))"] conjI tracksI[where st = ?st and R = R])
         (simp_all add: put_request_def)
  qed
qed

lemma quantize_pending_other:
  assumes "quantize_pending_keys e dm kv bs m rid idx cls = Inr cls'" "rid \<noteq> r" "ls_rotation (snd cls) = Some R"
  shows "request_states (snd cls') r = request_states (snd cls) r" "ls_rotation (snd cls') = Some R"
proof -
  have "\<exists>st' avail. cls' = (fst cls, put_request rid st' ((snd cls)\<lparr>triton_available := avail\<rparr>))" if "cls' \<noteq> cls"
  proof -
    obtain st where st: "request_states (snd cls) rid = Some st" using assms(1) by (auto simp: quantize_pending_keys_def result_simps)
    have p: "num_pending st \<noteq> 0" using assms(1) that st by (auto simp: quantize_pending_keys_def split: if_splits)
    obtain keys where k: "extract_keys kv m bs idx [total_tokens st - num_pending st..<total_tokens st] = Inr keys"
      using assms(1) st p by (auto simp: quantize_pending_keys_def result_simps)
    have "keys \<noteq> []" using assms(1) that st p k by (auto simp: quantize_pending_keys_def)
    then show ?thesis
      using assms(1) st p k ensure_rotation_kept[OF assms(3), of e]
      by (cases "centroid_q st"; cases "centroid_k st"; cases "meta_rows st")
         (simp_all add: quantize_pending_keys_def case_prod_unfold Let_def, blast)
  qed
  then show "request_states (snd cls') r = request_states (snd cls) r" "ls_rotation (snd cls') = Some R"
    using assms(2,3) by (cases "cls' = cls"; auto simp: put_request_def)+
qed

text \<open>The quantization loop of a batch: request \<open>r\<close> is at position \<open>idx\<close> wherever it occurs.\<close>

lemma quantize_loop_tracks:
  assumes "0 < e_block_d e" "cache_holds kv m bs idx ks"
  shows "tracks dm r qs ps ks (snd cls) \<Longrightarrow> (\<forall>i \<in> set infos. fst i = r \<longrightarrow> fst (snd i) = idx) \<Longrightarrow>
    tracks dm r qs ps ks (snd (fst (quantize_loop e dm kv bs m batch infos cls)))"
proof (induction infos arbitrary: cls)
  case (Cons i infos)
  obtain rid j start en where i: "i = (rid, j, start, en)" by (cases i)
  show ?case
  proof (cases "request_states (snd cls) rid")
    case (Some st)
    have "tracks dm r qs ps ks (snd cls')" if "quantize_pending_keys e dm kv bs m rid j cls = Inr cls'" for cls'
    proof (cases "rid = r")
      case True
      then have "j = idx" using Cons.prems(2) i by simp
      then show ?thesis using quantize_pending_own[OF Cons.prems(1) assms(2,1)] that True by auto
    next
      case False
      obtain R where "ls_rotation (snd cls) = Some R" using Cons.prems(1) by (auto simp: tracks_def)
      then show ?thesis using quantize_pending_other[OF that False] Cons.prems(1) tracks_cong by metis
    qed
    then show ?thesis using Cons i Some by (auto split: sum.splits)
  qed (use Cons.prems(1) i in simp)
qed simp

lemma quantize_loop_other:
  "r \<notin> fst ` set infos \<Longrightarrow> ls_rotation (snd cls) = Some R \<Longrightarrow>
   request_states (snd (fst (quantize_loop e dm kv bs m batch infos cls))) r = request_states (snd cls) r \<and>
   ls_rotation (snd (fst (quantize_loop e dm kv bs m batch infos cls))) = Some R"
proof (induction infos arbitrary: cls)
  case (Cons i infos)
  obtain rid j start en where i: "i = (rid, j, start, en)" by (cases i)
  have "rid \<noteq> r" using Cons.prems(1) i by auto
  note other = quantize_pending_other[OF _ this Cons.prems(2)]
  show ?case
  proof (cases "request_states (snd cls) rid")
    case (Some st)
    then show ?thesis using Cons i other by (auto split: sum.splits)
  qed (use Cons.prems i in simp)
qed simp

lemma batch_info_set:
  "(rid, idx, start, en) \<in> set (batch_info ls k sps) \<Longrightarrow> k \<le> idx \<and> idx < k + length sps \<and> sps ! (idx - k) = (rid, start, en)"
proof (induction sps arbitrary: k)
  case (Cons sp sps)
  obtain rid' start' en' where sp: "sp = (rid', start', en')" by (cases sp)
  have "(rid, idx, start, en) = (rid', k, start', en') \<or> (rid, idx, start, en) \<in> set (batch_info ls (Suc k) sps)"
    using Cons.prems by (auto simp: sp split: if_splits option.splits)
  then show ?case
  proof
    assume "(rid, idx, start, en) \<in> set (batch_info ls (Suc k) sps)"
    from Cons.IH[OF this] show ?thesis by (auto simp: nth_Cons' Suc_diff_Suc dest: Suc_le_lessD)
  qed (simp add: sp)
qed simp

text \<open>The mask buffers are the only part of the runtime state the mask computation changes.\<close>

lemma mask_space_layers: "mask_space rt n = (m, rt') \<Longrightarrow> layer_states (store_mask m' rt') = layer_states rt"
  by (auto simp: mask_space_def store_mask_def split: option.splits if_splits)

lemma offsets_space_layers: "offsets_space rt offs = (o', rt') \<Longrightarrow> layer_states rt' = layer_states rt"
  by (auto simp: offsets_space_def split: option.splits if_splits)

lemma single_layers:
  "compute_topk_mask_single e dm rt ls rid query = Some (Inr (res, rt')) \<Longrightarrow> layer_states rt' = layer_states rt"
  by (auto simp: compute_topk_mask_single_def Let_def result_simps dest!: mask_space_layers split: option.splits prod.splits sum.splits if_splits)

lemma compute_topk_mask_quantizes:
  "fst (compute_topk_mask e dm rt kv bs m infos query cls) = fst (quantize_loop e dm kv bs m (quant_batch rt) infos cls)"
  by (auto simp: compute_topk_mask_def Let_def split: prod.splits option.splits list.splits)

lemma compute_topk_mask_layers:
  assumes "compute_topk_mask e dm rt kv bs m infos query cls = (cls', Some (Inr (res, rt')))"
  shows "layer_states rt' = layer_states rt"
proof -
  obtain cls1 where q: "quantize_loop e dm kv bs m (quant_batch rt) infos cls = (cls1, None)"
    using assms by (auto simp: compute_topk_mask_def split: prod.splits option.splits)
  obtain offs n where o: "offset_list (snd cls1) 0 infos = (offs, n)" by fastforce
  obtain offs' rt1 m0 rt2 where sp: "offsets_space rt offs = (offs', rt1)" "mask_space rt1 n = (m0, rt2)" by fastforce
  have layers: "layer_states (store_mask mk rt2) = layer_states rt" for mk
    using mask_space_layers[OF sp(2)] offsets_space_layers[OF sp(1)] by simp
  show ?thesis
  proof (cases infos rule: remdups_adj.cases)
    case (2 i)
    then show ?thesis using assms q by (cases i) (auto simp: compute_topk_mask_def simp del: quantize_loop.simps dest: single_layers)
  qed (use assms q o sp layers in \<open>auto simp: compute_topk_mask_def result_simps simp del: offset_list.simps mask_loop.simps split: option.splits\<close>)
qed

text \<open>The fallback quantizes the same requests in the same order.\<close>

lemma individual_loop_quantizes:
  "individual_loop e dm rt kv bs m query infos cls = Some (Inr (cls', picks)) \<Longrightarrow>
   fst (quantize_loop e dm kv bs m (quant_batch rt) infos cls) = cls'"
proof (induction infos arbitrary: cls picks)
  case (Cons i infos)
  obtain rid j start en where i: "i = (rid, j, start, en)" by (cases i)
  obtain st where st: "request_states (snd cls) rid = Some st" using Cons.prems by (auto simp: i dict_get_def split: option.splits)
  obtain cls1 where c1: "(if num_pending st \<ge> quant_batch rt then quantize_pending_keys e dm kv bs m rid j cls else Inr cls) = Inr cls1"
    using Cons.prems st by (auto simp: i dict_get_def split: sum.splits)
  obtain picks' where "individual_loop e dm rt kv bs m query infos cls1 = Some (Inr (cls', picks'))"
    using Cons.prems st c1 by (auto simp: i dict_get_def result_simps split: sum.splits option.splits)
  from Cons.IH[OF this] show ?case using st c1 by (auto simp: i split: if_splits)
qed simp

text \<open>The state of the layer after the decode dispatch: at most two passes of quantization over prepared requests.\<close>

lemma run_batch_decode_layer:
  assumes "run_batch_decode e dm rt kv bs m query infos cls = ((cls1, rt1), oc)"
  shows "cls1 = fst (quantize_loop e dm kv bs m (quant_batch rt) infos cls)" "layer_states rt1 = layer_states rt"
proof -
  obtain cls' r where c: "compute_topk_mask e dm rt kv bs m infos query cls = (cls', r)" by fastforce
  have "cls1 = cls'" using assms c by (auto simp: run_batch_decode_def split: option.splits sum.splits)
  then show "cls1 = fst (quantize_loop e dm kv bs m (quant_batch rt) infos cls)"
    using compute_topk_mask_quantizes[of e dm rt kv bs m infos query cls] c by simp
  show "layer_states rt1 = layer_states rt"
    using assms c by (auto simp: run_batch_decode_def dest: compute_topk_mask_layers split: option.splits sum.splits)
qed

lemma run_rabitq_decode_layer:
  assumes "req_ids m = Some ids" "query_start_loc m = Some locs" "run_rabitq_decode e dm rt kv bs m query lname ls = Inr (rt', oc)"
  obtains infos1 infos2 b1 b2 where "set infos1 \<subseteq> set (batch_info ls 0 (zip ids (zip locs (tl locs))))"
    "set infos2 \<subseteq> set (batch_info ls 0 (zip ids (zip locs (tl locs))))"
    "layer_states rt' = (layer_states rt)(lname \<mapsto> snd (fst (quantize_loop e dm kv bs m b2 infos2
       (fst (quantize_loop e dm kv bs m b1 infos1 (rotation_cache rt, ls))))))"
proof -
  let ?infos = "batch_info ls 0 (zip ids (zip locs (tl locs)))" and ?q = "quantize_loop e dm kv bs m"
  let ?B = "if has_wrapper m \<and> (\<forall>(rid, idx, start, en) \<in> set ?infos. en - start = 1)
    then run_batch_decode e dm rt kv bs m query ?infos (rotation_cache rt, ls) else (((rotation_cache rt, ls), rt), None)"
  obtain cls1 rt1 boc where B: "?B = ((cls1, rt1), boc)" by (metis surj_pair)
  have "\<exists>infos1 b1. set infos1 \<subseteq> set ?infos \<and> cls1 = fst (?q b1 infos1 (rotation_cache rt, ls))" and rt1: "layer_states rt1 = layer_states rt"
  proof -
    show "\<exists>infos1 b1. set infos1 \<subseteq> set ?infos \<and> cls1 = fst (?q b1 infos1 (rotation_cache rt, ls))"
    proof (cases "has_wrapper m \<and> (\<forall>(rid, idx, start, en) \<in> set ?infos. en - start = 1)")
      case True
      then show ?thesis using B run_batch_decode_layer(1) by (intro exI[of _ ?infos] exI[of _ "quant_batch rt"]) simp
    next
      case False
      then show ?thesis using B unfolding if_not_P[OF False] by (intro exI[of _ "[]"]) auto
    qed
    show "layer_states rt1 = layer_states rt" using B run_batch_decode_layer(2) by (auto split: if_splits)
  qed
  then obtain infos1 b1 where one: "set infos1 \<subseteq> set ?infos" "cls1 = fst (?q b1 infos1 (rotation_cache rt, ls))" by blast
  note run = assms(3)[unfolded run_rabitq_decode_def assms(1,2) option.case prod.case Let_def B]
  note emit = that
  have skip: thesis if "layer_states rt' = (layer_states rt)(lname \<mapsto> snd cls1)"
    using that one by (intro emit[of infos1 "[]"]) simp_all
  show thesis
  proof (cases "?infos = []")
    case True
    then show thesis using run by (intro that[of "[]" "[]"]) (auto simp: put_layer_def)
  next
    case False
    show thesis
    proof (cases boc)
      case (Some o')
      then show thesis using run False rt1 by (intro skip) (auto simp: put_layer_def)
    next
      case None
      show thesis
      proof (cases "individual_loop e dm rt1 kv bs m query ?infos cls1")
        case None': None
        then show thesis using run None False rt1 by (intro skip) (auto simp: put_layer_def)
      next
        case (Some r)
        then obtain cls2 picks where r: "r = Inr (cls2, picks)" "rt' = put_layer lname cls2 rt1"
          using run None False by (auto simp: result_simps)
        then have "cls2 = fst (?q (quant_batch rt1) ?infos cls1)" using individual_loop_quantizes[of e dm rt1 kv bs m query ?infos cls1] Some by simp
        then show thesis using r(2) one rt1 by (intro that[of infos1 ?infos]) (simp_all add: put_layer_def)
      qed
    qed
  qed
qed

section \<open>Calls of forward\<close>

definition batch_ids :: "batch_meta \<Rightarrow> string list" where
  "batch_ids m = (case req_ids m of None \<Rightarrow> [] | Some ids \<Rightarrow> ids)"

definition layer_of :: "runtime_state \<Rightarrow> string \<Rightarrow> layer_state" where
  "layer_of rt lname = (case layer_states rt lname of Some ls \<Rightarrow> ls | None \<Rightarrow> init_layer_state)"

lemma fst_zip_subset: "fst ` set (zip xs ys) \<subseteq> set xs"
  by (auto dest: set_zip_leftD)

lemma adopt_parameters_layers [simp]: "layer_states (adopt_parameters m rt) = layer_states rt"
  by (simp add: adopt_parameters_def)

text \<open>A prefill batch leaves the requests outside of it alone.\<close>

lemma forward_prefill_other:
  assumes "forward_prefill e dm rt m query key lname ls = Inr rt'" "r \<notin> set (batch_ids m)" "ls_rotation ls = Some R"
  shows "\<exists>ls'. layer_states rt' = (layer_states rt)(lname \<mapsto> ls') \<and> request_states ls' r = request_states ls r \<and> ls_rotation ls' = Some R"
proof -
  obtain ls1 where ls1: "update_prefill_stats query key m ls = Inr ls1" using assms(1) by (auto simp: forward_prefill_def result_simps)
  then have one: "request_states ls1 r = request_states ls r" "ls_rotation ls1 = Some R"
    using assms(2,3) by (auto simp: update_prefill_stats_def batch_ids_def spans_of_def result_simps stats.loop_rotation
        split: option.splits if_splits intro!: stats.loop_other dest: set_zip_leftD)
  have er: "ensure_rotation e (rotation_cache rt, ls1) = (rotation_cache rt, ls1)" using ensure_rotation_kept[of "(rotation_cache rt, ls1)" R e] one(2) by simp
  have two: "request_states (process_pending_quantization e dm (ls1\<lparr>pending_quantization := Some (key, zip ids sps)\<rparr>)) r = request_states ls r"
    "ls_rotation (process_pending_quantization e dm (ls1\<lparr>pending_quantization := Some (key, zip ids sps)\<rparr>)) = Some R" if "r \<notin> set ids" for ids sps
  proof -
    have "r \<notin> fst ` set (zip ids sps)" by (rule contra_subsetD[OF fst_zip_subset that])
    from quant.loop_other[OF this] show "request_states (process_pending_quantization e dm (ls1\<lparr>pending_quantization := Some (key, zip ids sps)\<rparr>)) r = request_states ls r"
      "ls_rotation (process_pending_quantization e dm (ls1\<lparr>pending_quantization := Some (key, zip ids sps)\<rparr>)) = Some R"
      using one by (simp_all add: process_pending_quantization_def quant.loop_rotation)
  qed
  show ?thesis
    using assms(1,2) ls1 one er two by (auto simp: forward_prefill_def batch_ids_def Let_def split: if_splits option.splits)
qed

lemma quantize_loops_other:
  assumes "r \<notin> fst ` set infos1" "r \<notin> fst ` set infos2" "ls_rotation (snd cls) = Some R"
    and "cls1 = fst (quantize_loop e dm kv bs m b1 infos1 cls)" "cls2 = fst (quantize_loop e dm kv bs m b2 infos2 cls1)"
  shows "request_states (snd cls2) r = request_states (snd cls) r" "ls_rotation (snd cls2) = Some R"
  using quantize_loop_other[OF assms(1,3), of e dm kv bs m b1] quantize_loop_other[OF assms(2), of cls1 R e dm kv bs m b2] assms(4,5)
  by simp_all

lemma decode_other:
  assumes "append_decode_kv m ls = Inr ls1" "r \<notin> set (batch_ids m)" "ls_rotation ls = Some R"
    and "run_rabitq_decode e dm rt kv bs m query lname ls1 = Inr (rt', oc)"
  shows "\<exists>ls'. layer_states rt' = (layer_states rt)(lname \<mapsto> ls') \<and> request_states ls' r = request_states ls r \<and> ls_rotation ls' = Some R"
proof (cases "req_ids m = None \<or> query_start_loc m = None")
  case True
  then show ?thesis using assms by (auto simp: append_decode_kv_def run_rabitq_decode_def put_layer_def split: option.splits)
next
  case False
  then obtain ids locs where m: "req_ids m = Some ids" "query_start_loc m = Some locs" by auto
  let ?sps = "zip ids (zip locs (tl locs))"
  have r: "r \<notin> fst ` set ?sps" using assms(2) fst_zip_subset[of ids] m(1) by (auto simp: batch_ids_def)
  have "ls1 = fold append_step ?sps ls" using assms(1) m by (auto simp: append_decode_kv_def split: if_splits)
  then have one: "request_states ls1 r = request_states ls r" "ls_rotation ls1 = Some R"
    using appends.loop_other[OF r] assms(3) by (simp_all add: appends.loop_rotation)
  have no: "r \<notin> fst ` set infos" if sub: "set infos \<subseteq> set (batch_info ls1 0 ?sps)" for infos
  proof
    assume "r \<in> fst ` set infos"
    then obtain idx start en where "(r, idx, start, en) \<in> set (batch_info ls1 0 ?sps)" using sub by force
    from batch_info_set[OF this] have "(r, start, en) \<in> set ?sps" by (metis diff_zero add_0 nth_mem)
    then show False using r by force
  qed
  obtain infos1 infos2 b1 b2 where infos: "set infos1 \<subseteq> set (batch_info ls1 0 ?sps)" "set infos2 \<subseteq> set (batch_info ls1 0 ?sps)"
    "layer_states rt' = (layer_states rt)(lname \<mapsto> snd (fst (quantize_loop e dm kv bs m b2 infos2
       (fst (quantize_loop e dm kv bs m b1 infos1 (rotation_cache rt, ls1))))))"
    by (rule run_rabitq_decode_layer[OF m assms(4)])
  from quantize_loops_other[OF no[OF infos(1)] no[OF infos(2)], of "(rotation_cache rt, ls1)" R, OF _ refl refl] show ?thesis
    using one infos(3) by auto
qed

lemma run_rabitq_decode_layers:
  assumes "run_rabitq_decode e dm rt kv bs m query lname ls = Inr (rt', oc)"
  shows "\<exists>ls'. layer_states rt' = (layer_states rt)(lname \<mapsto> ls')"
proof (cases "req_ids m = None \<or> query_start_loc m = None")
  case True
  then show ?thesis using assms by (auto simp: run_rabitq_decode_def put_layer_def split: option.splits)
next
  case False
  then obtain ids locs where m: "req_ids m = Some ids" "query_start_loc m = Some locs" by auto
  show ?thesis by (rule run_rabitq_decode_layer[OF m assms]) blast
qed

text \<open>The three kinds of calls of \<open>forward\<close> with metadata.\<close>

lemma forward_cases:
  assumes "forward e dm lname (Some m) query key bs (kv, rt) = Inr ((kv', rt'), oc)"
  defines "rt0 \<equiv> adopt_parameters m (rt\<lparr>layer_states := (layer_states rt)(lname \<mapsto> layer_of rt lname)\<rparr>)"
  obtains (prefill) "max_q_len m > 1" "batch_ids m \<noteq> []" "forward_prefill e dm rt0 m query key lname (layer_of rt lname) = Inr rt'"
  | (decode) ls1 where "\<not> (max_q_len m > 1 \<and> batch_ids m \<noteq> [])" "append_decode_kv m (layer_of rt lname) = Inr ls1"
      "run_rabitq_decode e dm rt0 kv' bs m query lname ls1 = Inr (rt', oc)"
  | (dense) "\<not> (max_q_len m > 1 \<and> batch_ids m \<noteq> [])" "rt' = rt0" "\<not> (num_decode_tokens m > 0 \<and> b_q rt0 \<noteq> None \<and> batch_ids m \<noteq> [])"
proof -
  have ids: "(case req_ids m of None \<Rightarrow> False | Some ids \<Rightarrow> ids \<noteq> []) \<longleftrightarrow> batch_ids m \<noteq> []"
    by (simp add: batch_ids_def split: option.split)
  note fwd = assms(1)[unfolded forward_def option.case prod.case Let_def ids layer_of_def[symmetric] rt0_def[symmetric]]
  consider (p) "max_q_len m > 1 \<and> batch_ids m \<noteq> []"
    | (d) "\<not> (max_q_len m > 1 \<and> batch_ids m \<noteq> [])" "num_decode_tokens m > 0 \<and> b_q rt0 \<noteq> None \<and> batch_ids m \<noteq> []"
    | (n) "\<not> (max_q_len m > 1 \<and> batch_ids m \<noteq> [])" "\<not> (num_decode_tokens m > 0 \<and> b_q rt0 \<noteq> None \<and> batch_ids m \<noteq> [])" by blast
  then show ?thesis
  proof cases
    case p
    then show ?thesis using fwd by (intro that(1)) (auto simp: result_simps)
  next
    case d
    then obtain ls1 where "append_decode_kv m (layer_of rt lname) = Inr ls1"
      "run_rabitq_decode e dm rt0 kv' bs m query lname ls1 = Inr (rt', oc)" using fwd by (auto simp: result_simps case_prod_unfold)
    then show ?thesis using d(1) that(2) by blast
  next
    case n
    then show ?thesis using fwd by (intro that(3)) auto
  qed
qed

lemma forward_prefill_layers:
  "forward_prefill e dm rt m query key lname ls = Inr rt' \<Longrightarrow> \<exists>ls'. layer_states rt' = (layer_states rt)(lname \<mapsto> ls')"
  by (auto simp: forward_prefill_def result_simps Let_def split: if_splits prod.splits)

text \<open>A call that does not concern request \<open>r\<close> in layer \<open>L\<close>: another layer, or a batch without \<open>r\<close>.\<close>

lemma forward_other:
  assumes "forward e dm lname (Some m) query key bs (kv, rt) = Inr ((kv', rt'), oc)" "layer_states rt L = Some ls" "tracks dm r qs ps ks ls"
    and "lname \<noteq> L \<or> r \<notin> set (batch_ids m)"
  shows "\<exists>ls'. layer_states rt' L = Some ls' \<and> tracks dm r qs ps ks ls'"
proof -
  let ?rt0 = "adopt_parameters m (rt\<lparr>layer_states := (layer_states rt)(lname \<mapsto> layer_of rt lname)\<rparr>)"
  obtain R where R: "ls_rotation ls = Some R" using assms(3) by (auto simp: tracks_def)
  have own: "layer_of rt L = ls" using assms(2) by (simp add: layer_of_def)
  have "\<exists>ls'. layer_states rt' = (layer_states ?rt0)(lname \<mapsto> ls') \<and>
      (lname = L \<longrightarrow> request_states ls' r = request_states ls r \<and> ls_rotation ls' = Some R)"
    using assms(1)
  proof (cases rule: forward_cases)
    case prefill
    then show ?thesis using forward_prefill_layers[OF prefill(3)] forward_prefill_other[OF prefill(3), of r R] assms(4) own R by (cases "lname = L") auto
  next
    case (decode ls1)
    then show ?thesis
      using run_rabitq_decode_layers[OF decode(3)] decode_other[OF decode(2) _ _ decode(3), of r R] assms(4) own R
      by (cases "lname = L") auto
  next
    case dense
    then show ?thesis using own R by (intro exI[of _ "layer_of rt lname"]) auto
  qed
  then obtain ls' where ls': "layer_states rt' = (layer_states ?rt0)(lname \<mapsto> ls')"
    "lname = L \<Longrightarrow> request_states ls' r = request_states ls r \<and> ls_rotation ls' = Some R" by blast
  show ?thesis
  proof (cases "lname = L")
    case True
    then show ?thesis using ls' R tracks_cong[OF assms(3), of ls'] by auto
  next
    case False
    then show ?thesis using ls'(1) assms(2,3) by simp
  qed
qed

text \<open>Request \<open>r\<close> is number \<open>idx\<close> of the batch, once, with the rows from \<open>start\<close> to \<open>en\<close>.\<close>

definition batch_has :: "batch_meta \<Rightarrow> string \<Rightarrow> nat \<Rightarrow> nat \<Rightarrow> nat \<Rightarrow> bool" where
  "batch_has m r idx start en \<longleftrightarrow> (\<exists>ids locs. req_ids m = Some ids \<and> query_start_loc m = Some locs \<and> distinct ids \<and> idx < length ids \<and>
     length ids < length locs \<and> ids ! idx = r \<and> locs ! idx = start \<and> locs ! Suc idx = en)"

lemma batch_hasE:
  assumes "batch_has m r idx start en"
  obtains ids locs where "req_ids m = Some ids" "query_start_loc m = Some locs" "distinct (map fst (zip ids (zip locs (tl locs))))"
    "(r, start, en) \<in> set (zip ids (zip locs (tl locs)))" "batch_ids m = ids" "ids \<noteq> []" "length ids < length locs"
    "\<And>j start' en'. j < length (zip ids (zip locs (tl locs))) \<Longrightarrow> zip ids (zip locs (tl locs)) ! j = (r, start', en') \<Longrightarrow> j = idx"
proof -
  obtain ids locs where m: "req_ids m = Some ids" "query_start_loc m = Some locs" "distinct ids" "idx < length ids"
    "length ids < length locs" "ids ! idx = r" "locs ! idx = start" "locs ! Suc idx = en" using assms by (auto simp: batch_has_def)
  let ?sps = "zip ids (zip locs (tl locs))"
  have len: "length ?sps = length ids" using m(5) by simp
  have "?sps ! idx = (r, start, en)" using m by (simp add: nth_tl)
  then have "(r, start, en) \<in> set ?sps" using nth_mem[of idx ?sps] m(4) len by simp
  moreover have "j = idx" if "j < length ?sps" "?sps ! j = (r, start', en')" for j start' en'
    using that m(4,6) nth_eq_iff_index_eq[OF m(3), of j idx] by auto
  moreover have "distinct (map fst ?sps)" using m(3,5) by (simp add: map_fst_zip_take)
  moreover have "batch_ids m = ids" using m(1) by (simp add: batch_ids_def)
  ultimately show ?thesis using m(1,2,4,5) by (intro that) auto
qed

lemma append_own:
  assumes "batch_has m r idx start (Suc start)" "append_decode_kv m ls = Inr ls1" "tracks dm r qs ps ks ls"
  shows "tracks dm r qs ps (ks @ [k]) ls1"
proof -
  obtain ids locs where m: "req_ids m = Some ids" "query_start_loc m = Some locs" "distinct (map fst (zip ids (zip locs (tl locs))))"
    "(r, start, Suc start) \<in> set (zip ids (zip locs (tl locs)))" "length ids < length locs"
    by (rule batch_hasE[OF assms(1)])
  let ?sps = "zip ids (zip locs (tl locs))"
  have ls1: "ls1 = fold append_step ?sps ls" using assms(2) m(1,2,5) by (simp add: append_decode_kv_def)
  obtain R st where st: "ls_rotation ls = Some R" "request_states ls r = Some st" "tracked dm qs ps ks (snd R) st"
    using assms(3) unfolding tracks_def by blast
  obtain ls0 where ls0: "request_states ls0 r = request_states ls r" "request_states ls1 r = request_states (append_step (r, start, Suc start) ls0) r"
    by (rule appends.loop_own[OF m(3,4), of ls]) (simp add: ls1)
  have "request_states ls1 r = Some (st\<lparr>total_tokens := total_tokens st + 1, num_pending := num_pending st + 1\<rparr>)"
    using ls0 st(2,3) by (simp add: append_step_def put_request_def tracked_def)
  then show ?thesis using append_tracked[OF st(3)] st(1) by (intro tracksI) (simp_all add: ls1 appends.loop_rotation)
qed

lemma forward_decode_own:
  assumes "forward e dm L (Some m) query key bs (kv, rt) = Inr ((kv', rt'), oc)" "layer_states rt L = Some ls" "tracks dm r qs ps ks ls"
    and "batch_has m r idx start (Suc start)" "max_q_len m \<le> 1" "0 < num_decode_tokens m" "b_q rt \<noteq> None \<or> meta_b_q m \<noteq> None" "0 < e_block_d e"
    and "cache_holds kv' m bs idx (ks @ [key ! start])"
  shows "\<exists>ls'. layer_states rt' L = Some ls' \<and> tracks dm r qs ps (ks @ [key ! start]) ls'"
proof -
  let ?rt0 = "adopt_parameters m (rt\<lparr>layer_states := (layer_states rt)(L \<mapsto> layer_of rt L)\<rparr>)" and ?ks = "ks @ [key ! start]"
  obtain ids locs where m: "req_ids m = Some ids" "query_start_loc m = Some locs" "distinct (map fst (zip ids (zip locs (tl locs))))"
    "(r, start, Suc start) \<in> set (zip ids (zip locs (tl locs)))" "batch_ids m = ids" "ids \<noteq> []" "length ids < length locs"
    "\<And>j start' en'. j < length (zip ids (zip locs (tl locs))) \<Longrightarrow> zip ids (zip locs (tl locs)) ! j = (r, start', en') \<Longrightarrow> j = idx"
    by (rule batch_hasE[OF assms(4)]) blast
  let ?sps = "zip ids (zip locs (tl locs))"
  have ls: "layer_of rt L = ls" using assms(2) by (simp add: layer_of_def)
  obtain ls1 where d: "append_decode_kv m ls = Inr ls1" "run_rabitq_decode e dm ?rt0 kv' bs m query L ls1 = Inr (rt', oc)"
    using assms(1)
  proof (cases rule: forward_cases)
    case (decode ls1)
    then show ?thesis using that ls by simp
  qed (use assms(5-7) m(5,6) in \<open>auto simp: adopt_parameters_def split: if_splits\<close>)
  have tr: "tracks dm r qs ps ?ks (snd (rotation_cache ?rt0, ls1))" using append_own[OF assms(4) d(1) assms(3)] by simp
  obtain infos1 infos2 b1 b2 where infos: "set infos1 \<subseteq> set (batch_info ls1 0 ?sps)" "set infos2 \<subseteq> set (batch_info ls1 0 ?sps)"
    "layer_states rt' = (layer_states ?rt0)(L \<mapsto> snd (fst (quantize_loop e dm kv' bs m b2 infos2
       (fst (quantize_loop e dm kv' bs m b1 infos1 (rotation_cache ?rt0, ls1))))))"
    by (rule run_rabitq_decode_layer[OF m(1,2) d(2)])
  have at: "\<forall>i \<in> set infos. fst i = r \<longrightarrow> fst (snd i) = idx" if "set infos \<subseteq> set (batch_info ls1 0 ?sps)" for infos
  proof (intro ballI impI)
    fix i assume i: "i \<in> set infos" "fst i = r"
    obtain j st' en' where ij: "i = (r, j, st', en')" using i(2) by (cases i) auto
    then have "(r, j, st', en') \<in> set (batch_info ls1 0 ?sps)" using i(1) that by auto
    from batch_info_set[OF this] show "fst (snd i) = idx" using m(8)[of j st' en'] ij by simp
  qed
  note one = quantize_loop_tracks[OF assms(8,9) tr at[OF infos(1)], of b1]
  from quantize_loop_tracks[OF assms(8,9) one at[OF infos(2)], of b2] show ?thesis using infos(3) by simp
qed

lemma forward_prefill_own:
  assumes "forward e dm L (Some m) query key bs (kv, rt) = Inr ((kv', rt'), oc)" "request_states (layer_of rt L) r = None"
    and "batch_has m r idx start en" "start < en" "en \<le> length query" "en \<le> length key" "1 < max_q_len m" "0 < e_block_d e"
    and "b_q rt \<noteq> None \<or> meta_b_q m \<noteq> None"
  shows "\<exists>ls'. layer_states rt' L = Some ls' \<and> tracks dm r (rows_between start en query) (rows_between start en key) (rows_between start en key) ls'"
proof -
  let ?rt0 = "adopt_parameters m (rt\<lparr>layer_states := (layer_states rt)(L \<mapsto> layer_of rt L)\<rparr>)" and ?ls = "layer_of rt L"
  obtain ids locs where m: "req_ids m = Some ids" "query_start_loc m = Some locs" "distinct (map fst (zip ids (zip locs (tl locs))))"
    "(r, start, en) \<in> set (zip ids (zip locs (tl locs)))" "batch_ids m = ids" "ids \<noteq> []" "length ids < length locs"
    by (rule batch_hasE[OF assms(3)])
  let ?sps = "zip ids (zip locs (tl locs))"
  have fp: "forward_prefill e dm ?rt0 m query key L ?ls = Inr rt'"
    using assms(1) by (cases rule: forward_cases) (use assms(7) m(5,6) in auto)
  define ls1 where "ls1 = fold (prefill_stats_step query key) ?sps ?ls"
  have upd: "update_prefill_stats query key m ?ls = Inr ls1"
    using m(1,2,6,7) by (simp add: update_prefill_stats_def spans_of_def ls1_def)
  obtain cache ls2 where er: "ensure_rotation e (rotation_cache ?rt0, ls1) = (cache, ls2)" by fastforce
  have ls2: "request_states ls2 = request_states ls1" "ls_rotation ls2 \<noteq> None"
    using ensure_rotation_frame[of e "(rotation_cache ?rt0, ls1)"] er by simp_all
  then obtain R where R: "ls_rotation ls2 = Some R" by blast
  let ?ls3 = "fold (prefill_quantize_step e dm key) ?sps (ls2\<lparr>pending_quantization := None\<rparr>)"
  have layers: "layer_states rt' L = Some ?ls3"
  proof -
    have "b_q ?rt0 \<noteq> None" using assms(9) by (auto simp: adopt_parameters_def)
    then show ?thesis using fp upd er m(1,2) by (auto simp: forward_prefill_def process_pending_quantization_def simp del: adopt_parameters_layers)
  qed
  obtain ls0 where "request_states ls0 r = None" "request_states ls1 r = request_states (prefill_stats_step query key (r, start, en) ls0) r"
    by (rule stats.loop_own[OF m(3,4), where ls = ?ls and query = query and key = key]) (simp add: ls1_def assms(2))
  note new = this(2)[unfolded prefill_step_new[OF this(1) assms(4,5,6)]]
  obtain ls4 where ls4: "ls_rotation ls4 = Some R" "request_states ls4 r = request_states ls1 r"
    "request_states ?ls3 r = request_states (prefill_quantize_step e dm key (r, start, en) ls4) r"
    by (rule quant.loop_own[OF m(3,4), where ls = "ls2\<lparr>pending_quantization := None\<rparr>" and e = e and dm = dm and keys = key]) (simp add: R ls2(1))
  have "ls_rotation ?ls3 = Some R" by (simp add: quant.loop_rotation R)
  then show ?thesis
    using prefill_quantized[OF ls4(1) assms(8,4,5,6) ls4(2)[unfolded new], of dm] ls4(3) layers tracksI[of ?ls3 R r] by metis
qed

section \<open>Runs\<close>

lemma forward_writes:
  "forward e dm lname (Some m) query key bs (kv, rt) = Inr ((kv', rt'), oc) \<Longrightarrow> kv' = cache_write bs kv (slot_mapping m) key"
  by (auto simp: forward_def Let_def result_simps split: if_splits prod.splits)

text \<open>
  The calls of \<open>forward\<close> in the life of request \<open>r\<close> of layer \<open>L\<close>, from its prefill on: \<open>qs\<close> and \<open>ps\<close> are the queries and keys of its prompt,
  \<open>ks\<close> its keys so far, \<open>tbl\<close> its block table. Between its own batches come calls of other layers, each with its own key cache, and
  batches without \<open>r\<close>, whose slots belong to other requests. The scheduler may add blocks to the table at each step.
\<close>

inductive backend_run ::
  "model_dims \<Rightarrow> string \<Rightarrow> string \<Rightarrow> nat \<Rightarrow> head_rows list \<Rightarrow> head_rows list \<Rightarrow> head_rows list \<Rightarrow> nat list \<Rightarrow> paged_keys \<Rightarrow> runtime_state \<Rightarrow> bool"
  for dm L r bs where
  prefill: "forward e dm L (Some m) query key bs (kv, rt) = Inr ((kv', rt'), oc) \<Longrightarrow> request_states (layer_of rt L) r = None \<Longrightarrow>
     batch_has m r idx start en \<Longrightarrow> start < en \<Longrightarrow> en \<le> length query \<Longrightarrow> length (slot_mapping m) \<le> length key \<Longrightarrow> 1 < max_q_len m \<Longrightarrow> 0 < e_block_d e \<Longrightarrow>
     b_q rt \<noteq> None \<or> meta_b_q m \<noteq> None \<Longrightarrow> table_ok kv bs tbl (en - start) \<Longrightarrow> own_slots m bs tbl start 0 (en - start) \<Longrightarrow>
     backend_run dm L r bs (rows_between start en query) (rows_between start en key) (rows_between start en key) tbl kv' rt'"
| decode: "backend_run dm L r bs qs ps ks tbl kv rt \<Longrightarrow> forward e dm L (Some m) query key bs (kv, rt) = Inr ((kv', rt'), oc) \<Longrightarrow>
     batch_has m r idx start (Suc start) \<Longrightarrow> max_q_len m \<le> 1 \<Longrightarrow> 0 < num_decode_tokens m \<Longrightarrow> length (slot_mapping m) \<le> length key \<Longrightarrow> 0 < e_block_d e \<Longrightarrow>
     b_q rt \<noteq> None \<or> meta_b_q m \<noteq> None \<Longrightarrow> block_tables m = Some tables \<Longrightarrow> idx < length tables \<Longrightarrow> tables ! idx = tbl @ blks \<Longrightarrow>
     table_ok kv bs (tbl @ blks) (Suc (length ks)) \<Longrightarrow> own_slots m bs (tbl @ blks) start (length ks) 1 \<Longrightarrow>
     backend_run dm L r bs qs ps (ks @ [key ! start]) (tbl @ blks) kv' rt'"
| other_layer: "backend_run dm L r bs qs ps ks tbl kv rt \<Longrightarrow> lname \<noteq> L \<Longrightarrow>
     forward e dm lname (Some m) query key bs (kv2, rt) = Inr ((kv2', rt'), oc) \<Longrightarrow> backend_run dm L r bs qs ps ks tbl kv rt'"
| other_batch: "backend_run dm L r bs qs ps ks tbl kv rt \<Longrightarrow> r \<notin> set (batch_ids m) \<Longrightarrow>
     forward e dm L (Some m) query key bs (kv, rt) = Inr ((kv', rt'), oc) \<Longrightarrow> length (slot_mapping m) \<le> length key \<Longrightarrow>
     own_slots m bs tbl 0 (length ks) 0 \<Longrightarrow> backend_run dm L r bs qs ps ks tbl kv' rt'"

lemma table_holds_prefix: "table_holds kv tbl bs ks \<Longrightarrow> table_holds kv (tbl @ blks) bs ks"
  by (auto simp: table_holds_def extract_key_def nth_append split: if_splits)

lemma rows_between_Suc: "start < length key \<Longrightarrow> rows_between start (start + 1) key = [key ! start]"
  by (simp add: rows_between_def take_Suc_conv_app_nth)

lemma backend_run_tracks:
  "backend_run dm L r bs qs ps ks tbl kv rt \<Longrightarrow> table_ok kv bs tbl (length ks) \<and> table_holds kv tbl bs ks \<and>
   (\<exists>ls. layer_states rt L = Some ls \<and> tracks dm r qs ps ks ls)"
proof (induction rule: backend_run.induct)
  case (prefill e m query key kv rt kv' rt' oc idx start en tbl)
  have en: "en \<le> length key" using prefill(4,6,11) by (simp add: own_slots_def)
  have kv': "kv' = cache_write bs kv (slot_mapping m) key" using prefill(1) by (rule forward_writes)
  have own: "table_ok kv bs tbl (length [] + (en - start))" "own_slots m bs tbl start (length []) (en - start)" "table_holds kv tbl bs []"
    using prefill(10,11) by (simp_all add: table_holds_def)
  show ?case
    using table_holds_write[OF own prefill(6)] forward_prefill_own[OF prefill(1-5) en prefill(7-9)] prefill(4) en
    by (simp add: kv' length_rows_between)
next
  case (decode qs ps ks tbl kv rt e m query key kv' rt' oc idx start tables blks)
  then obtain ls where ls: "layer_states rt L = Some ls" "tracks dm r qs ps ks ls" and holds: "table_holds kv tbl bs ks" by blast
  have kv': "kv' = cache_write bs kv (slot_mapping m) key" using decode(2) by (rule forward_writes)
  have start: "start < length key" using decode(6,13) by (simp add: own_slots_def)
  have ok: "table_ok kv bs (tbl @ blks) (length ks + 1)" using decode(12) by simp
  note new = table_holds_write[OF ok decode(13) table_holds_prefix[OF holds] decode(6), unfolded rows_between_Suc[OF start]]
  have "cache_holds kv' m bs idx (ks @ [key ! start])"
    using new(1) decode(9-11) by (simp add: kv' cache_holds_def table_holds_def)
  from forward_decode_own[OF decode(2) ls decode(3-5,8,7) this] show ?case using new by (simp add: kv')
next
  case (other_layer qs ps ks tbl kv rt lname e m query key kv2 kv2' rt' oc)
  then show ?case using forward_other[OF other_layer(3)] by blast
next
  case (other_batch qs ps ks tbl kv rt m e query key kv' rt' oc)
  have kv': "kv' = cache_write bs kv (slot_mapping m) key" using other_batch(3) by (rule forward_writes)
  have "table_ok kv bs tbl (length ks + 0)" "table_holds kv tbl bs ks" using other_batch(6) by simp_all
  from table_holds_write[OF this(1) other_batch(5) this(2) other_batch(4)] forward_other[OF other_batch(3)] other_batch(2,6)
  show ?case by (auto simp: kv' rows_between_def)
qed

text \<open>C3. Through the whole life of a request - its prefill, its decode steps, and any calls of other layers and other requests in between; its prompt is prefilled in one batch without a prefix hit, and later
  it is only in decode batches, so that mixed batches, chunked prompts and prefix hits are excluded -
  the state a layer keeps for it describes exactly its keys in the paged cache: the token count is the number of keys, quantized and pending tokens add up to it,
  the centroids are the means of the queries and keys of the prompt, and row \<open>i\<close> of the metadata, for every quantized \<open>i\<close>, is the code of the key that the block table gives at position
  \<open>i\<close>, whether it was computed by the fused kernel or by the torch code, at prefill or later.\<close>

theorem backend_metadata_invariant:
  assumes "backend_run dm L r bs qs ps ks tbl kv rt"
  shows "\<exists>ls R st rows. layer_states rt L = Some ls \<and> ls_rotation ls = Some R \<and> request_states ls r = Some st \<and> meta_rows st = Some rows \<and>
    prepared st \<and> total_tokens st = length ks \<and> metadata_write_index st + num_pending st = length ks \<and>
    length ps \<le> metadata_write_index st \<and> metadata_write_index st \<le> metadata_capacity st \<and> length rows = metadata_capacity st \<and>
    centroid_q st = Some (mean_rows qs) \<and> centroid_k st = Some (mean_rows ps) \<and>
    (\<forall>i<metadata_write_index st. \<exists>k c. extract_key kv tbl bs i = Inr k \<and> k = ks ! i \<and> rows ! i = Some c \<and>
       is_code dm (snd R) (mean_rows ps) (kv_centroid dm (mean_rows qs)) k c)"
proof -
  obtain ls where ls: "layer_states rt L = Some ls" "tracks dm r qs ps ks ls" and holds: "table_holds kv tbl bs ks"
    using backend_run_tracks[OF assms] by blast
  obtain R st where st: "ls_rotation ls = Some R" "request_states ls r = Some st" "tracked dm qs ps ks (snd R) st"
    using ls(2) unfolding tracks_def by blast
  obtain rows where rows: "meta_rows st = Some rows" "length rows = metadata_capacity st"
    "rows_hold dm (snd R) (mean_rows ps) (kv_centroid dm (mean_rows qs)) ks (metadata_write_index st) rows"
    using st(3) unfolding tracked_def by blast
  have "metadata_write_index st \<le> length ks" using st(3) unfolding tracked_def by linarith
  then have "\<forall>i<metadata_write_index st. \<exists>k c. extract_key kv tbl bs i = Inr k \<and> k = ks ! i \<and> rows ! i = Some c \<and>
      is_code dm (snd R) (mean_rows ps) (kv_centroid dm (mean_rows qs)) k c"
    using holds rows(3) unfolding table_holds_def rows_hold_def by auto
  moreover have "metadata_write_index st \<le> metadata_capacity st" using rows(2,3) by (simp add: rows_hold_def)
  ultimately show ?thesis using ls(1) st rows unfolding tracked_def
    by (intro exI[of _ ls] exI[of _ R] exI[of _ st] exI[of _ rows]) simp
qed

section \<open>A concrete run\<close>

text \<open>In top-k mode on a GPU a decode batch of one tracked request always reaches the sparse attention.\<close>

lemma single_top_k:
  assumes "request_states ls rid = Some st" "ready st" "rt_topp rt = None" "rt_topk rt = Some k" "0 < k" "b_q rt = Some b" "0 < b" "e_cuda e"
  shows "\<exists>mk offs rt'. compute_topk_mask_single e dm rt ls rid query = Some (Inr ((mk, offs), rt'))"
proof -
  obtain rows where sel: "compute_quantized_topk_indices e dm (b_q rt) None ls st query (Some k) = Some (Inr (Sel_indices rows))"
    using top_k_selection[OF assms(2,6,7) refl assms(5), where e = e and dm = dm and ls = ls and queries = query] by (elim exE) (rule that)
  have "0 < metadata_write_index st \<and> meta_rows st \<noteq> None" using assms(2) by (auto simp: ready_def)
  then show ?thesis
    using assms(1,3,4,8) sel
    by (simp add: compute_topk_mask_single_def Let_def case_prod_unfold write_selection_def update_topk_mask_def)
qed

lemma decode_step_succeeds:
  assumes "tracks dm r qs ps ks ls" "0 < e_block_d e" "e_cuda e" "e_wrapper_ok e" "has_wrapper m"
    and "req_ids m = Some [r]" "query_start_loc m = Some [0, 1]" "cache_holds kv m bs 0 ks"
    and "rt_topp rt = None" "rt_topk rt = Some k" "0 < k" "b_q rt = Some b" "0 < b"
  shows "\<exists>rt' mk offs. run_rabitq_decode e dm rt kv bs m query L ls = Inr (rt', Sparse mk offs)"
proof -
  obtain R st where st: "ls_rotation ls = Some R" "request_states ls r = Some st" "tracked dm qs ps ks (snd R) st"
    using assms(1) unfolding tracks_def by blast
  let ?cls = "(rotation_cache rt, ls)" and ?i = "(r, 0, 0, 1)"
  obtain cls1 where q: "quantize_loop e dm kv bs m (quant_batch rt) [?i] ?cls = (cls1, None)" "tracks dm r qs ps ks (snd cls1)"
  proof (cases "quant_batch rt \<le> num_pending st")
    case True
    have "tracks dm r qs ps ks (snd ?cls)" using assms(1) by simp
    from quantize_pending_own[OF this assms(8,2)] obtain cls1 where
      "quantize_pending_keys e dm kv bs m r 0 ?cls = Inr cls1" "tracks dm r qs ps ks (snd cls1)" by blast
    then show ?thesis using that st(2) True by simp
  next
    case False
    then show ?thesis using that st(2) assms(1) by simp
  qed
  obtain R1 st1 where "request_states (snd cls1) r = Some st1" "tracked dm qs ps ks (snd (R1 :: head_mats \<times> head_mats)) st1" using q(2) unfolding tracks_def by blast
  then obtain mk offs rt1 where "compute_topk_mask_single e dm rt (snd cls1) r query = Some (Inr ((mk, offs), rt1))"
    using single_top_k[OF _ tracked_ready assms(9-13,3)] by metis
  then have "compute_topk_mask e dm rt kv bs m [?i] query ?cls = (cls1, Some (Inr ((mk, offs), rt1)))"
    unfolding compute_topk_mask_def q(1) by simp
  moreover have "batch_info ls 0 [(r, 0, 1)] = [?i]" using st(2,3) by (simp add: tracked_def)
  ultimately show ?thesis using assms(4,5,6,7) by (simp add: run_rabitq_decode_def run_batch_decode_def)
qed

definition demo_env :: device_env where
  "demo_env = \<lparr>e_cuda = True, e_launch_ok = True, e_block_d = 16, e_matrices = (\<lambda>h i j. if i = j then 1 else 0, \<lambda>h i j. if i = j then 1 else 0),
     e_update_mask = \<lambda>m indices nq ps ntok. map (\<lambda>i. ps \<le> int i \<or> int i \<in> set (the indices)) [0..<ntok], e_topk = \<lambda>k row. [0..<k], e_flt_max = 1, e_wrapper_ok = True\<rparr>"

definition demo_dims :: model_dims where
  "demo_dims = \<lparr>d_num_heads = 1, d_num_kv_heads = 1, d_group = 1, d_head_size = 32\<rparr>"

definition demo_key :: "real \<Rightarrow> head_rows" where
  "demo_key x = (\<lambda>h d. if d = 0 then x else 1)"

definition demo_cache :: paged_keys where
  "demo_cache = [[demo_key 0, demo_key 0], [demo_key 0, demo_key 0]]"

definition demo_worker :: runtime_state where
  "demo_worker = \<lparr>b_q = Some 4, rt_topk = Some 1, rt_topp = None, quant_batch = 1, layer_states = Map.empty, rotation_cache = None,
     mask_buffer = None, max_total_kv_tokens = 0, offsets_buffer = None, max_batch_size = 0\<rparr>"

definition demo_prefill :: batch_meta where
  "demo_prefill = \<lparr>req_ids = Some [''r''], query_start_loc = Some [0, 2], max_q_len = 2, num_decode_tokens = 0, slot_mapping = [2, 3],
     block_tables = Some [[1]], meta_b_q = None, meta_topk = None, meta_topp = None, has_wrapper = True\<rparr>"

definition demo_decode :: batch_meta where
  "demo_decode = \<lparr>req_ids = Some [''r''], query_start_loc = Some [0, 1], max_q_len = 1, num_decode_tokens = 1, slot_mapping = [0],
     block_tables = Some [[1, 0]], meta_b_q = None, meta_topk = None, meta_topp = None, has_wrapper = True\<rparr>"

text \<open>A prompt of two tokens in block 1, then a decode step whose key goes to a new block 0.\<close>

lemma demo_run_prefill:
  "\<exists>rt. backend_run demo_dims ''L'' ''r'' 2 [demo_key 1, demo_key 2] [demo_key 3, demo_key 5] [demo_key 3, demo_key 5] [1]
     [[demo_key 0, demo_key 0], [demo_key 3, demo_key 5]] rt \<and> rt_topp rt = None \<and> rt_topk rt = Some 1 \<and> b_q rt = Some 4"
proof -
  obtain rt' where fwd: "forward demo_env demo_dims ''L'' (Some demo_prefill) [demo_key 1, demo_key 2] [demo_key 3, demo_key 5] 2 (demo_cache, demo_worker) =
      Inr (([[demo_key 0, demo_key 0], [demo_key 3, demo_key 5]], rt'), Dense)" "rt_topp rt' = None" "rt_topk rt' = Some 1" "b_q rt' = Some 4"
    by (simp add: forward_def forward_prefill_def update_prefill_stats_def spans_of_def demo_prefill_def demo_worker_def demo_cache_def adopt_parameters_def
        Let_def case_prod_unfold)
  have "backend_run demo_dims ''L'' ''r'' 2 (rows_between 0 2 [demo_key 1, demo_key 2]) (rows_between 0 2 [demo_key 3, demo_key 5])
      (rows_between 0 2 [demo_key 3, demo_key 5]) [1] [[demo_key 0, demo_key 0], [demo_key 3, demo_key 5]] rt'"
    by (rule backend_run.prefill[OF fwd(1), where idx = 0])
       (auto simp: layer_of_def init_layer_state_def batch_has_def demo_prefill_def demo_worker_def demo_env_def demo_cache_def
          table_ok_def own_slots_def slot_of_def less_Suc_eq numeral_eq_Suc)
  then show ?thesis using fwd(2-4) by (auto simp: rows_between_def)
qed

lemma demo_run_decode:
  "\<exists>rt. backend_run demo_dims ''L'' ''r'' 2 [demo_key 1, demo_key 2] [demo_key 3, demo_key 5] [demo_key 3, demo_key 5, demo_key 7] [1, 0]
     [[demo_key 7, demo_key 0], [demo_key 3, demo_key 5]] rt"
proof -
  let ?kv = "[[demo_key 0, demo_key 0], [demo_key 3, demo_key 5]]" and ?kv' = "[[demo_key 7, demo_key 0], [demo_key 3, demo_key 5]]"
  let ?qs = "[demo_key 1, demo_key 2]" and ?ps = "[demo_key 3, demo_key 5]"
  obtain rt where rt: "backend_run demo_dims ''L'' ''r'' 2 ?qs ?ps ?ps [1] ?kv rt" "rt_topp rt = None" "rt_topk rt = Some 1" "b_q rt = Some 4"
    using demo_run_prefill by blast
  obtain ls where ls: "layer_states rt ''L'' = Some ls" "tracks demo_dims ''r'' ?qs ?ps ?ps ls" using backend_run_tracks[OF rt(1)] by blast
  let ?rt0 = "adopt_parameters demo_decode (rt\<lparr>layer_states := (layer_states rt)(''L'' \<mapsto> ls)\<rparr>)"
  have has: "batch_has demo_decode ''r'' 0 0 (Suc 0)" by (simp add: batch_has_def demo_decode_def)
  obtain ls1 where ls1: "append_decode_kv demo_decode ls = Inr ls1" by (simp add: append_decode_kv_def demo_decode_def)
  have "cache_holds ?kv' demo_decode 2 0 (?ps @ [demo_key 7])"
    by (simp add: cache_holds_def demo_decode_def extract_key_def less_Suc_eq numeral_eq_Suc)
  then obtain rt' mk offs where run: "run_rabitq_decode demo_env demo_dims ?rt0 ?kv' 2 demo_decode [demo_key 1] ''L'' ls1 = Inr (rt', Sparse mk offs)"
    using decode_step_succeeds[OF append_own[OF has ls1 ls(2)], of demo_env demo_decode ?kv' 2 "demo_key 7" ?rt0 1 4 "[demo_key 1]" "''L''"] rt(2-4)
    by (auto simp: demo_env_def demo_decode_def adopt_parameters_def)
  have fwd: "forward demo_env demo_dims ''L'' (Some demo_decode) [demo_key 1] [demo_key 7] 2 (?kv, rt) = Inr ((?kv', rt'), Sparse mk offs)"
    using run ls1 ls(1) rt(4) by (simp add: forward_def Let_def) (simp add: demo_decode_def adopt_parameters_def)
  have "backend_run demo_dims ''L'' ''r'' 2 ?qs ?ps (?ps @ [[demo_key 7] ! 0]) ([1] @ [0]) ?kv' rt'"
    by (rule backend_run.decode[OF rt(1) fwd has])
       (use rt(4) in \<open>auto simp: demo_decode_def demo_env_def table_ok_def own_slots_def slot_of_def less_Suc_eq numeral_eq_Suc\<close>)
  then show ?thesis by auto
qed

theorem backend_metadata_invariant_witness:
  "\<exists>kv rt ls R st rows. backend_run demo_dims ''L'' ''r'' 2 [demo_key 1, demo_key 2] [demo_key 3, demo_key 5] [demo_key 3, demo_key 5, demo_key 7] [1, 0] kv rt \<and>
     layer_states rt ''L'' = Some ls \<and> ls_rotation ls = Some R \<and> request_states ls ''r'' = Some st \<and> meta_rows st = Some rows \<and>
     total_tokens st = 3 \<and> metadata_write_index st + num_pending st = 3 \<and> centroid_k st = Some (mean_rows [demo_key 3, demo_key 5])"
proof -
  obtain kv rt where run: "backend_run demo_dims ''L'' ''r'' 2 [demo_key 1, demo_key 2] [demo_key 3, demo_key 5] [demo_key 3, demo_key 5, demo_key 7] [1, 0] kv rt"
    using demo_run_decode by blast
  from backend_metadata_invariant[OF run] show ?thesis using run by (elim exE conjE) (intro exI conjI, assumption+, simp_all)
qed

end
