(* ===== verification/Backend_Build.thy ===== *)
theory Backend_Build
  imports Backend_Cache
begin

text \<open>
  From the scheduler's batch to the metadata of the vLLM backend: the builder of \<open>v1/attention/backends/rabitq.py\<close>, which writes
  the page table of the decode requests into fixed buffers, and the batch decode wrapper of \<open>rabitq_flashinfer_ops.py\<close>, which keeps a plan
  of FlashInfer. FlashInfer's own planning and attention are not part of the repository: the model records the arguments of the last plan.
\<close>

section \<open>The batch decode wrapper\<close>

record page_plan =
  p_indptr :: "nat list"
  p_last_page_len :: "nat list"
  p_num_indices :: nat
  p_page_size :: nat

record decode_wrapper =
  indptr_buf :: "nat list"
  indices_buf :: "nat list"
  last_page_len_buf :: "nat list"
  w_max_num_seqs :: nat
  w_max_num_pages :: nat
  w_planned :: bool
  w_last_batch_size :: "nat option"
  w_last_num_indices :: "nat option"
  w_plan :: "page_plan option" \<comment> \<open>arguments of the last call of FlashInfer's \<open>plan\<close>\<close>

definition init_wrapper :: "nat \<Rightarrow> nat \<Rightarrow> decode_wrapper" where
  "init_wrapper max_num_seqs max_num_pages =
     \<lparr>indptr_buf = replicate (max_num_seqs + 1) 0, indices_buf = replicate max_num_pages 0, last_page_len_buf = replicate max_num_seqs 0,
      w_max_num_seqs = max_num_seqs, w_max_num_pages = max_num_pages, w_planned = False, w_last_batch_size = None, w_last_num_indices = None,
      w_plan = None\<rparr>"

text \<open>The arguments of \<open>plan\<close>: the used parts of the buffers.\<close>

definition current_plan :: "decode_wrapper \<Rightarrow> nat \<Rightarrow> nat \<Rightarrow> nat \<Rightarrow> page_plan" where
  "current_plan w batch_size num_indices page_size =
     \<lparr>p_indptr = take (batch_size + 1) (indptr_buf w), p_last_page_len = take batch_size (last_page_len_buf w), p_num_indices = num_indices,
      p_page_size = page_size\<rparr>"

definition plan_direct :: "decode_wrapper \<Rightarrow> nat \<Rightarrow> nat \<Rightarrow> nat \<Rightarrow> decode_wrapper result" where
  "plan_direct w batch_size num_indices page_size =
     (if batch_size > w_max_num_seqs w then Inl RuntimeError
      else if num_indices > w_max_num_pages w then Inl RuntimeError
      else if w_planned w \<and> w_last_batch_size w = Some batch_size \<and> w_last_num_indices w = Some num_indices then Inr w
      else Inr (w\<lparr>w_plan := Some (current_plan w batch_size num_indices page_size), w_planned := True,
                  w_last_batch_size := Some batch_size, w_last_num_indices := Some num_indices\<rparr>))"

section \<open>The page table\<close>

text \<open>\<open>buf[a:a + n].copy_(src)\<close>: the slice is clipped to the buffer; a source of one element is broadcast, any other length must agree.\<close>

definition copy_into :: "'a list \<Rightarrow> nat \<Rightarrow> nat \<Rightarrow> 'a list \<Rightarrow> 'a list result" where
  "copy_into buf a n src =
     (let d = length (take n (drop a buf))
      in if length src = d then Inr (set_slice buf a src)
         else if length src = 1 then Inr (set_slice buf a (replicate d (hd src)))
         else Inl RuntimeError)"

definition store_at :: "'a list \<Rightarrow> nat \<Rightarrow> 'a \<Rightarrow> 'a list result" where
  "store_at buf i v = (if i < length buf then Inr (buf[i := v]) else Inl IndexError)"

text \<open>The loop over the decode requests \<open>i, i + 1, \<dots>\<close>, of which \<open>n\<close> are left.\<close>

fun fill_pages :: "nat \<Rightarrow> nat list \<Rightarrow> nat list list \<Rightarrow> nat \<Rightarrow> nat \<Rightarrow> nat \<Rightarrow> decode_wrapper \<Rightarrow> (nat \<times> decode_wrapper) result" where
  "fill_pages page_size seq_lens tables i 0 num_indices w = Inr (num_indices, w)"
| "fill_pages page_size seq_lens tables i (Suc n) num_indices w =
     (if length seq_lens \<le> i \<or> length tables \<le> i then Inl IndexError
      else (let ntok = seq_lens ! i; num_blocks_needed = (ntok + page_size - 1) div page_size;
                last = (if ntok mod page_size = 0 then page_size else ntok mod page_size)
            in bindE (copy_into (indices_buf w) num_indices num_blocks_needed (take num_blocks_needed (tables ! i))) (\<lambda>indices.
               bindE (store_at (indptr_buf w) (i + 1) (num_indices + num_blocks_needed)) (\<lambda>indptr.
               bindE (store_at (last_page_len_buf w) i last) (\<lambda>lasts.
                 fill_pages page_size seq_lens tables (i + 1) n (num_indices + num_blocks_needed)
                   (w\<lparr>indices_buf := indices, indptr_buf := indptr, last_page_len_buf := lasts\<rparr>))))))"

definition plan_decodes :: "nat \<Rightarrow> nat list \<Rightarrow> nat list list \<Rightarrow> nat \<Rightarrow> decode_wrapper \<Rightarrow> decode_wrapper result" where
  "plan_decodes page_size seq_lens tables num_reqs w =
     bindE (store_at (indptr_buf w) 0 0) (\<lambda>indptr.
     bindE (fill_pages page_size (take num_reqs seq_lens) (take num_reqs tables) 0 num_reqs 0 (w\<lparr>indptr_buf := indptr\<rparr>)) (\<lambda>(num_indices, w1).
       plan_direct w1 num_reqs num_indices page_size))"

section \<open>The builder\<close>

text \<open>What the scheduler and FlashInfer's own builder hand over.\<close>

record common_meta =
  cm_req_ids :: "string list option"
  cm_query_start_loc :: "nat list option"
  cm_seq_lens :: "nat list"
  cm_max_q_len :: nat
  cm_slot_mapping :: "int list"
  cm_block_table :: "nat list list"
  cm_num_decodes :: nat
  cm_num_decode_tokens :: nat

record builder =
  bd_enabled :: bool
  bd_b_q :: "int option"
  bd_topk :: "int option"
  bd_topp :: "real option"
  bd_page_size :: nat
  bd_wrapper :: "decode_wrapper option"

text \<open>The settings are read from the spec whatever its class; only a RaBitQ spec has them.\<close>

definition init_builder :: "(int option \<times> int option \<times> real option) option \<Rightarrow> nat \<Rightarrow> builder result" where
  "init_builder spec page_size =
     (case spec of
        None \<Rightarrow> Inl AttributeError
      | Some (bq, topk, topp) \<Rightarrow>
          Inr \<lparr>bd_enabled = True, bd_b_q = bq, bd_topk = topk, bd_topp = topp, bd_page_size = page_size, bd_wrapper = None\<rparr>)"

text \<open>The wrapper is created on first use; when its compilation fails (\<open>ok\<close> is false) the next batch tries again.\<close>

definition get_rabitq_decode_wrapper :: "bool \<Rightarrow> builder \<Rightarrow> decode_wrapper option \<times> builder" where
  "get_rabitq_decode_wrapper ok bd =
     (case bd_wrapper bd of
        Some w \<Rightarrow> (Some w, bd)
      | None \<Rightarrow> if ok then (Some (init_wrapper 512 200000), bd\<lparr>bd_wrapper := Some (init_wrapper 512 200000)\<rparr>) else (None, bd))"

definition build :: "bool \<Rightarrow> common_meta \<Rightarrow> builder \<Rightarrow> (batch_meta \<times> builder) result" where
  "build ok c bd =
     (let metadata = \<lparr>req_ids = cm_req_ids c, query_start_loc = cm_query_start_loc c, max_q_len = cm_max_q_len c, num_decode_tokens = cm_num_decode_tokens c,
            slot_mapping = cm_slot_mapping c, block_tables = Some (cm_block_table c), meta_b_q = (if bd_enabled bd then bd_b_q bd else None),
            meta_topk = (if bd_enabled bd then bd_topk bd else None), meta_topp = (if bd_enabled bd then bd_topp bd else None), has_wrapper = False\<rparr>
      in if bd_enabled bd \<and> cm_num_decodes c > 0
         then (case get_rabitq_decode_wrapper ok bd of
                 (None, bd1) \<Rightarrow> Inr (metadata, bd1)
               | (Some w, bd1) \<Rightarrow>
                   bindE (plan_decodes (bd_page_size bd) (cm_seq_lens c) (cm_block_table c) (cm_num_decodes c) w) (\<lambda>w1.
                     Inr (metadata\<lparr>has_wrapper := True\<rparr>, bd1\<lparr>bd_wrapper := Some w1\<rparr>)))
         else Inr (metadata, bd))"

section \<open>The layers of a worker\<close>

definition validate_b_q :: "int \<Rightarrow> nat \<Rightarrow> unit result" where
  "validate_b_q bq head_size =
     (if bq \<le> 0 then Inl ValueError
      else if head_size = 0 then Inl ZeroDivisionError
      else if bq < max 1 \<lceil>1 / sqrt (real head_size)\<rceil> then Inl ValueError
      else Inr ())"

text \<open>
  The layers of a worker share one state, which the first of them creates, before its parameters are checked. A missing or zero top-k is replaced by 128.
\<close>

definition init_impl ::
  "int option \<Rightarrow> int option \<Rightarrow> real option \<Rightarrow> nat \<Rightarrow> runtime_state option \<Rightarrow> runtime_state \<times> unit result" where
  "init_impl bq topk topp head_size worker =
     ((case worker of
         Some rt \<Rightarrow> rt
       | None \<Rightarrow> \<lparr>b_q = bq, rt_topk = Some (case topk of None \<Rightarrow> 128 | Some k \<Rightarrow> if k = 0 then 128 else k), rt_topp = topp, quant_batch = 512,
                  layer_states = Map.empty, rotation_cache = None, mask_buffer = None, max_total_kv_tokens = 0, offsets_buffer = None, max_batch_size = 0\<rparr>),
      (case bq of None \<Rightarrow> Inr () | Some b \<Rightarrow> validate_b_q b head_size))"

text \<open>The minimum derived from the head size is 1 for every head size, so only the sign of \<open>b_q\<close> matters.\<close>

lemma validate_b_q_iff:
  assumes "0 < head_size" shows "validate_b_q bq head_size = Inr () \<longleftrightarrow> 0 < bq"
proof -
  have "1 \<le> sqrt (real head_size)" using assms by simp
  then have "1 / sqrt (real head_size) \<le> 1" by simp
  then have "max 1 \<lceil>1 / sqrt (real head_size)\<rceil> = 1" by (intro max_absorb1) (simp add: ceiling_le_iff)
  then show ?thesis using assms by (auto simp: validate_b_q_def)
qed

section \<open>What the loop leaves in the buffers\<close>

abbreviation pages :: "nat \<Rightarrow> nat \<Rightarrow> nat" where
  "pages ps n \<equiv> (n + ps - 1) div ps"

abbreviation last_len :: "nat \<Rightarrow> nat \<Rightarrow> nat" where
  "last_len ps n \<equiv> (if n mod ps = 0 then ps else n mod ps)"

fun running_sums :: "nat \<Rightarrow> nat list \<Rightarrow> nat list" where
  "running_sums acc [] = []"
| "running_sums acc (x # xs) = (acc + x) # running_sums (acc + x) xs"

lemma length_running_sums [simp]: "length (running_sums acc xs) = length xs"
  by (induction xs arbitrary: acc) auto

lemma nth_running_sums: "i < length xs \<Longrightarrow> running_sums acc xs ! i = acc + sum_list (take (Suc i) xs)"
  by (induction xs arbitrary: acc i) (auto simp: nth_Cons split: nat.splits)

lemma running_sums_inj: "running_sums acc xs = running_sums acc ys \<longleftrightarrow> xs = ys"
proof (induction xs arbitrary: acc ys)
  case Nil
  then show ?case by (cases ys) auto
next
  case (Cons x xs)
  then show ?case by (cases ys) auto
qed

lemma pages_bound:
  assumes "0 < ps" "p < n" shows "p div ps < pages ps n"
proof -
  have "p div ps + 1 = (p + ps) div ps" using assms(1) by simp
  also have "\<dots> \<le> pages ps n" using assms by (intro div_le_mono) linarith
  finally show ?thesis by simp
qed

lemma pages_last:
  assumes "0 < ps" "0 < n" shows "(pages ps n - 1) * ps + last_len ps n = n"
proof -
  have "pages ps n = (n - 1) div ps + 1" using assms by (metis Suc_eq_plus1 add_diff_assoc2 div_add_self2 Suc_leI nat_neq_iff One_nat_def)
  moreover have "n = (n - 1) div ps * ps + (n - 1) mod ps + 1" using assms(2) by simp
  moreover have "last_len ps n = (n - 1) mod ps + 1"
    using assms mod_Suc[of "n - 1" ps] by (auto split: if_splits)
  ultimately show ?thesis by simp
qed

lemma copy_into_exact: "length src = n \<Longrightarrow> a + n \<le> length buf \<Longrightarrow> copy_into buf a n src = Inr (set_slice buf a src)"
  by (simp add: copy_into_def)

lemma store_at_slice: "i < length buf \<Longrightarrow> store_at buf i v = Inr (set_slice buf i [v])"
  by (simp add: store_at_def set_slice_def upd_conv_take_nth_drop)

lemma set_slice_twice:
  "a + length xs \<le> length buf \<Longrightarrow> set_slice (set_slice buf a xs) (a + length xs) ys = set_slice buf a (xs @ ys)"
  by (simp add: set_slice_def add.commute add.left_commute)

text \<open>The pages of request \<open>i\<close> of a batch.\<close>

definition page_list :: "nat \<Rightarrow> nat list \<Rightarrow> nat list list \<Rightarrow> nat \<Rightarrow> nat list" where
  "page_list ps seq_lens tables i = take (pages ps (seq_lens ! i)) (tables ! i)"

lemma fill_pages_eq:
  "i + n \<le> length seq_lens \<Longrightarrow> i + n \<le> length tables \<Longrightarrow> (\<forall>j. i \<le> j \<and> j < i + n \<longrightarrow> pages ps (seq_lens ! j) \<le> length (tables ! j)) \<Longrightarrow>
   i + n < length (indptr_buf w) \<Longrightarrow> i + n \<le> length (last_page_len_buf w) \<Longrightarrow>
   num + sum_list (map (\<lambda>j. pages ps (seq_lens ! j)) [i..<i + n]) \<le> length (indices_buf w) \<Longrightarrow>
   fill_pages ps seq_lens tables i n num w =
     Inr (num + sum_list (map (\<lambda>j. pages ps (seq_lens ! j)) [i..<i + n]),
          w\<lparr>indices_buf := set_slice (indices_buf w) num (concat (map (page_list ps seq_lens tables) [i..<i + n])),
            indptr_buf := set_slice (indptr_buf w) (Suc i) (running_sums num (map (\<lambda>j. pages ps (seq_lens ! j)) [i..<i + n])),
            last_page_len_buf := set_slice (last_page_len_buf w) i (map (\<lambda>j. last_len ps (seq_lens ! j)) [i..<i + n])\<rparr>)"
proof (induction n arbitrary: i num w)
  case 0
  then show ?case by (simp add: set_slice_def)
next
  case (Suc n)
  let ?p = "pages ps (seq_lens ! i)" and ?pl = "page_list ps seq_lens tables i"
  let ?w = "w\<lparr>indices_buf := set_slice (indices_buf w) num ?pl, indptr_buf := set_slice (indptr_buf w) (Suc i) [num + ?p],
              last_page_len_buf := set_slice (last_page_len_buf w) i [last_len ps (seq_lens ! i)]\<rparr>"
  have up: "[i..<i + Suc n] = i # [Suc i..<Suc i + n]" by (simp add: upt_conv_Cons del: upt_Suc)
  have pl: "length ?pl = ?p" using Suc.prems(3) by (simp add: page_list_def)
  have rest: "num + ?p + sum_list (map (\<lambda>j. pages ps (seq_lens ! j)) [Suc i..<Suc i + n]) \<le> length (indices_buf w)"
    using Suc.prems(6) unfolding up by simp
  then have room: "num + ?p \<le> length (indices_buf w)" by linarith
  have "fill_pages ps seq_lens tables i (Suc n) num w = fill_pages ps seq_lens tables (Suc i) n (num + ?p) ?w"
    using Suc.prems(1,2,4,5) room pl copy_into_exact[of ?pl ?p num "indices_buf w"]
    by (simp add: store_at_slice page_list_def Let_def)
  also have "\<dots> = Inr (num + ?p + sum_list (map (\<lambda>j. pages ps (seq_lens ! j)) [Suc i..<Suc i + n]),
      ?w\<lparr>indices_buf := set_slice (indices_buf ?w) (num + ?p) (concat (map (page_list ps seq_lens tables) [Suc i..<Suc i + n])),
         indptr_buf := set_slice (indptr_buf ?w) (Suc (Suc i)) (running_sums (num + ?p) (map (\<lambda>j. pages ps (seq_lens ! j)) [Suc i..<Suc i + n])),
         last_page_len_buf := set_slice (last_page_len_buf ?w) (Suc i) (map (\<lambda>j. last_len ps (seq_lens ! j)) [Suc i..<Suc i + n])\<rparr>)"
    by (rule Suc.IH) (use Suc.prems(1-5) rest room pl in \<open>auto simp: length_set_slice simp del: upt_Suc\<close>)
  finally show ?case
    using set_slice_twice[of num ?pl "indices_buf w"] set_slice_twice[of "Suc i" "[num + ?p]" "indptr_buf w"]
      set_slice_twice[of i "[last_len ps (seq_lens ! i)]" "last_page_len_buf w"] room pl Suc.prems(4,5)
    unfolding up by (simp add: add.assoc)
qed

text \<open>A wrapper whose buffers have their sizes, and a batch that fits into it.\<close>

definition wrapper_ok :: "decode_wrapper \<Rightarrow> bool" where
  "wrapper_ok w \<longleftrightarrow> length (indptr_buf w) = w_max_num_seqs w + 1 \<and> length (indices_buf w) = w_max_num_pages w \<and>
     length (last_page_len_buf w) = w_max_num_seqs w"

definition batch_fits :: "nat \<Rightarrow> nat list \<Rightarrow> nat list list \<Rightarrow> nat \<Rightarrow> decode_wrapper \<Rightarrow> bool" where
  "batch_fits ps seq_lens tables n w \<longleftrightarrow> 0 < ps \<and> n \<le> length seq_lens \<and> n \<le> length tables \<and> n \<le> w_max_num_seqs w \<and>
     (\<forall>i<n. pages ps (seq_lens ! i) \<le> length (tables ! i)) \<and> sum_list (map (pages ps) (take n seq_lens)) \<le> w_max_num_pages w"

lemma map_nth_take: "n \<le> length xs \<Longrightarrow> map (\<lambda>j. f (take n xs ! j)) [0..<n] = map f (take n xs)"
  by (rule nth_equalityI) auto

lemma plan_decodes_eq:
  assumes "wrapper_ok w" "batch_fits ps seq_lens tables n w"
  defines "ns \<equiv> map (pages ps) (take n seq_lens)"
  obtains w1 where "indptr_buf w1 = set_slice (indptr_buf w) 0 (0 # running_sums 0 ns)"
    "indices_buf w1 = set_slice (indices_buf w) 0 (concat (map (page_list ps (take n seq_lens) (take n tables)) [0..<n]))"
    "last_page_len_buf w1 = set_slice (last_page_len_buf w) 0 (map (last_len ps) (take n seq_lens))"
    "plan_decodes ps seq_lens tables n w = plan_direct w1 n (sum_list ns) ps" "sum_list ns \<le> w_max_num_pages w1" "n \<le> w_max_num_seqs w1"
    "w_planned w1 = w_planned w" "w_last_batch_size w1 = w_last_batch_size w" "w_last_num_indices w1 = w_last_num_indices w" "w_plan w1 = w_plan w"
    "w_max_num_seqs w1 = w_max_num_seqs w" "w_max_num_pages w1 = w_max_num_pages w"
proof -
  let ?ls = "take n seq_lens" and ?ts = "take n tables" and ?w = "w\<lparr>indptr_buf := set_slice (indptr_buf w) 0 [0]\<rparr>"
  have len: "n \<le> length seq_lens" "n \<le> length tables" "n \<le> w_max_num_seqs w" using assms(2) by (simp_all add: batch_fits_def)
  have ns: "map (\<lambda>j. pages ps (?ls ! j)) [0..<0 + n] = ns" unfolding ns_def using map_nth_take[OF len(1), of "pages ps"] by simp
  have ll: "map (\<lambda>j. last_len ps (?ls ! j)) [0..<0 + n] = map (last_len ps) ?ls" using map_nth_take[OF len(1), of "last_len ps"] by simp
  let ?w1 = "?w\<lparr>indices_buf := set_slice (indices_buf ?w) 0 (concat (map (page_list ps ?ls ?ts) [0..<0 + n])),
      indptr_buf := set_slice (indptr_buf ?w) (Suc 0) (running_sums 0 ns), last_page_len_buf := set_slice (last_page_len_buf ?w) 0 (map (last_len ps) ?ls)\<rparr>"
  have fill: "fill_pages ps ?ls ?ts 0 n 0 ?w = Inr (0 + sum_list ns, ?w1)"
    unfolding ns[symmetric] ll[symmetric]
    by (rule fill_pages_eq) (use assms(1,2) len in \<open>auto simp: wrapper_ok_def batch_fits_def length_set_slice ns[simplified] ns_def\<close>)
  moreover have "store_at (indptr_buf w) 0 0 = Inr (set_slice (indptr_buf w) 0 [0])" using assms(1) by (intro store_at_slice) (simp add: wrapper_ok_def)
  ultimately have "plan_decodes ps seq_lens tables n w = plan_direct ?w1 n (sum_list ns) ps" by (simp add: plan_decodes_def)
  moreover have "set_slice (set_slice (indptr_buf w) 0 [0]) (Suc 0) (running_sums 0 ns) = set_slice (indptr_buf w) 0 (0 # running_sums 0 ns)"
    using set_slice_twice[of 0 "[0]" "indptr_buf w" "running_sums 0 ns"] assms(1) by (simp add: wrapper_ok_def)
  ultimately show ?thesis using assms(2) len by (intro that[of ?w1]) (simp_all add: batch_fits_def ns_def)
qed

section \<open>The page table describes the sequences\<close>

lemma plan_decodes_result:
  assumes "wrapper_ok w" "batch_fits ps seq_lens tables n w"
  defines "ns \<equiv> map (pages ps) (take n seq_lens)"
  obtains w' where "plan_decodes ps seq_lens tables n w = Inr w'" "indptr_buf w' = set_slice (indptr_buf w) 0 (0 # running_sums 0 ns)"
    "indices_buf w' = set_slice (indices_buf w) 0 (concat (map (page_list ps (take n seq_lens) (take n tables)) [0..<n]))"
    "last_page_len_buf w' = set_slice (last_page_len_buf w) 0 (map (last_len ps) (take n seq_lens))"
    "w_max_num_seqs w' = w_max_num_seqs w" "w_max_num_pages w' = w_max_num_pages w" "w_planned w'" "w_last_batch_size w' = Some n" "w_last_num_indices w' = Some (sum_list ns)"
    "w_plan w' = (if w_planned w \<and> w_last_batch_size w = Some n \<and> w_last_num_indices w = Some (sum_list ns) then w_plan w
                  else Some (current_plan w' n (sum_list ns) ps))"
proof -
  obtain w1 where w1: "indptr_buf w1 = set_slice (indptr_buf w) 0 (0 # running_sums 0 ns)"
    "indices_buf w1 = set_slice (indices_buf w) 0 (concat (map (page_list ps (take n seq_lens) (take n tables)) [0..<n]))"
    "last_page_len_buf w1 = set_slice (last_page_len_buf w) 0 (map (last_len ps) (take n seq_lens))"
    "plan_decodes ps seq_lens tables n w = plan_direct w1 n (sum_list ns) ps" "sum_list ns \<le> w_max_num_pages w1" "n \<le> w_max_num_seqs w1"
    "w_planned w1 = w_planned w" "w_last_batch_size w1 = w_last_batch_size w" "w_last_num_indices w1 = w_last_num_indices w" "w_plan w1 = w_plan w"
    "w_max_num_seqs w1 = w_max_num_seqs w" "w_max_num_pages w1 = w_max_num_pages w"
    unfolding ns_def by (rule plan_decodes_eq[OF assms(1,2)])
  show ?thesis
  proof (cases "w_planned w \<and> w_last_batch_size w = Some n \<and> w_last_num_indices w = Some (sum_list ns)")
    case True
    then show ?thesis using w1 by (intro that[of w1]) (simp_all add: plan_direct_def)
  next
    case False
    let ?w = "w1\<lparr>w_plan := Some (current_plan w1 n (sum_list ns) ps), w_planned := True, w_last_batch_size := Some n, w_last_num_indices := Some (sum_list ns)\<rparr>"
    have "plan_direct w1 n (sum_list ns) ps = Inr ?w" using False w1(5-9) by (auto simp: plan_direct_def)
    then show ?thesis using w1 False by (intro that[of ?w]) (simp_all add: current_plan_def, blast)
  qed
qed

lemma wrapper_ok_planned:
  assumes "wrapper_ok w" "batch_fits ps seq_lens tables n w" "plan_decodes ps seq_lens tables n w = Inr w'"
  shows "wrapper_ok w'"
proof -
  let ?pl = "page_list ps (take n seq_lens) (take n tables)"
  have fits: "n \<le> length seq_lens" "n \<le> length tables" "n \<le> w_max_num_seqs w" "\<And>i. i < n \<Longrightarrow> pages ps (seq_lens ! i) \<le> length (tables ! i)"
    "sum_list (map (pages ps) (take n seq_lens)) \<le> w_max_num_pages w" using assms(2) by (auto simp: batch_fits_def)
  have "map length (map ?pl [0..<n]) = map (pages ps) (take n seq_lens)"
    using fits(1,2,4) by (intro nth_equalityI) (auto simp: page_list_def)
  then have "length (concat (map ?pl [0..<n])) \<le> w_max_num_pages w" using fits(5) by (simp only: length_concat)
  then show ?thesis
    using plan_decodes_result[OF assms(1,2)] assms(1,3) fits by (fastforce simp: wrapper_ok_def length_set_slice)
qed

lemma nth_concat_prefix:
  assumes "i < length xss" "j < length (xss ! i)"
  shows "concat xss ! (sum_list (map length (take i xss)) + j) = xss ! i ! j"
    "sum_list (map length (take i xss)) + j < length (concat xss)"
proof -
  have eq: "concat xss = concat (take i xss) @ xss ! i @ concat (drop (Suc i) xss)"
    using assms(1) by (metis concat.simps(2) concat_append id_take_nth_drop)
  show "concat xss ! (sum_list (map length (take i xss)) + j) = xss ! i ! j"
    using assms(2) unfolding eq by (simp add: length_concat[symmetric] nth_append)
  show "sum_list (map length (take i xss)) + j < length (concat xss)"
    using assms(2) unfolding eq by (simp add: length_concat)
qed

text \<open>C37. The page table that the builder hands to FlashInfer describes the decode requests. For every batch that fits into the buffers the builder raises nothing;
  each request gets as many pages as its length needs, pages and fill of the last page give back its length, and the page at
  which FlashInfer finds a token is the block where the quantization reads its key, so that an entry of the selection mask and a row of the metadata speak of
  the same token.\<close>

theorem page_table_describes_requests:
  assumes "wrapper_ok w" "batch_fits ps seq_lens tables n w"
  shows "\<exists>w'. plan_decodes ps seq_lens tables n w = Inr w' \<and> (\<forall>i<n.
    let a = indptr_buf w' ! i; b = indptr_buf w' ! Suc i
    in b = a + pages ps (seq_lens ! i) \<and> (0 < seq_lens ! i \<longrightarrow> (b - a - 1) * ps + last_page_len_buf w' ! i = seq_lens ! i) \<and>
       (\<forall>p kv. p < seq_lens ! i \<longrightarrow> extract_key kv (tables ! i) ps p =
          (let blk = indices_buf w' ! (a + p div ps) in if blk < length kv then Inr (kv ! blk ! (p mod ps)) else Inl IndexError)))"
proof -
  let ?ns = "map (pages ps) (take n seq_lens)" and ?pl = "page_list ps (take n seq_lens) (take n tables)"
  have fits: "0 < ps" "n \<le> length seq_lens" "n \<le> length tables" "n \<le> w_max_num_seqs w" "\<And>i. i < n \<Longrightarrow> pages ps (seq_lens ! i) \<le> length (tables ! i)"
    "sum_list ?ns \<le> w_max_num_pages w" using assms(2) by (auto simp: batch_fits_def)
  obtain w' where w': "plan_decodes ps seq_lens tables n w = Inr w'" "indptr_buf w' = set_slice (indptr_buf w) 0 (0 # running_sums 0 ?ns)"
    "indices_buf w' = set_slice (indices_buf w) 0 (concat (map ?pl [0..<n]))"
    "last_page_len_buf w' = set_slice (last_page_len_buf w) 0 (map (last_len ps) (take n seq_lens))"
    by (rule plan_decodes_result[OF assms])
  have ptr: "indptr_buf w' ! i = sum_list (take i ?ns)" if "i \<le> n" for i
    using that fits(2) by (cases i) (simp_all add: w'(2) set_slice_def nth_append nth_running_sums)
  have lens: "map length (map ?pl [0..<n]) = ?ns"
    using fits(2,3,5) by (intro nth_equalityI) (auto simp: page_list_def)
  have "(b = a + pages ps (seq_lens ! i) \<and> (0 < seq_lens ! i \<longrightarrow> (b - a - 1) * ps + last_page_len_buf w' ! i = seq_lens ! i) \<and>
       (\<forall>p kv. p < seq_lens ! i \<longrightarrow> extract_key kv (tables ! i) ps p =
          (let blk = indices_buf w' ! (a + p div ps) in if blk < length kv then Inr (kv ! blk ! (p mod ps)) else Inl IndexError)))"
    if i: "i < n" and ab: "a = indptr_buf w' ! i" "b = indptr_buf w' ! Suc i" for i a b
  proof (intro conjI allI impI)
    show b: "b = a + pages ps (seq_lens ! i)" using ptr[of i] ptr[of "Suc i"] i ab fits(2) by (simp add: take_Suc_conv_app_nth)
    have "last_page_len_buf w' ! i = last_len ps (seq_lens ! i)" using i fits(2) by (simp add: w'(4) set_slice_def nth_append)
    then show "(b - a - 1) * ps + last_page_len_buf w' ! i = seq_lens ! i" if "0 < seq_lens ! i" using pages_last[OF fits(1) that] b by simp
    fix p kv assume p: "p < seq_lens ! i"
    let ?j = "p div ps"
    have j: "?j < pages ps (seq_lens ! i)" using pages_bound[OF fits(1) p] .
    have pl: "map ?pl [0..<n] ! i = take (pages ps (seq_lens ! i)) (tables ! i)" using i by (simp add: page_list_def)
    have "a = sum_list (map length (take i (map ?pl [0..<n])))" unfolding take_map[symmetric] lens[symmetric] ab(1) using ptr[of i] i lens by (simp add: take_map)
    then have "indices_buf w' ! (a + ?j) = tables ! i ! ?j"
      using nth_concat_prefix[of i "map ?pl [0..<n]" ?j] i j fits(5)[OF i] unfolding pl w'(3) by (simp add: set_slice_def nth_append)
    then show "extract_key kv (tables ! i) ps p = (let blk = indices_buf w' ! (a + p div ps) in if blk < length kv then Inr (kv ! blk ! (p mod ps)) else Inl IndexError)"
      using j fits(5)[OF i] by (simp add: extract_key_def)
  qed
  then show ?thesis using w'(1) by (intro exI[of _ w']) (simp add: Let_def)
qed

text \<open>Two requests of 20 and 16 tokens with pages of 16.\<close>

theorem page_table_describes_requests_witness:
  "\<exists>w'. plan_decodes 16 [20, 16] [[5, 3], [7]] 2 (init_wrapper 4 8) = Inr w' \<and> indptr_buf w' ! 1 = indptr_buf w' ! 0 + 2 \<and>
     (1 * 16 + last_page_len_buf w' ! 0 = 20)"
proof -
  have "wrapper_ok (init_wrapper 4 8)" "batch_fits 16 [20, 16] [[5, 3], [7]] 2 (init_wrapper 4 8)"
    by (auto simp: wrapper_ok_def batch_fits_def init_wrapper_def less_Suc_eq numeral_2_eq_2)
  from page_table_describes_requests[OF this] obtain w' where w': "plan_decodes 16 [20, 16] [[5, 3], [7]] 2 (init_wrapper 4 8) = Inr w'"
    "\<forall>i<2. let a = indptr_buf w' ! i; b = indptr_buf w' ! Suc i
    in b = a + pages 16 ([20, 16] ! i) \<and> (0 < [20 :: nat, 16] ! i \<longrightarrow> (b - a - 1) * 16 + last_page_len_buf w' ! i = [20, 16] ! i) \<and>
       (\<forall>p kv. p < [20, 16] ! i \<longrightarrow> extract_key kv ([[5, 3], [7]] ! i) 16 p =
          (let blk = indices_buf w' ! (a + p div 16) in if blk < length kv then Inr (kv ! blk ! (p mod 16)) else Inl IndexError))"
    by (elim exE conjE) (rule that)
  from w'(2)[THEN spec, of 0] show ?thesis using w'(1) by (auto simp: Let_def)
qed

section \<open>The plan kept between batches\<close>

text \<open>FlashInfer's plan is kept while the number of requests and the total number of pages do not change. After two batches that agree in these
  two numbers the plan is still the one made for the page counts of the first batch, although the buffers hold those of the second; it is the
  right plan only when every single request has the same number of pages, and the same fill of its last page, as its predecessor.\<close>

theorem plan_survives_other_batch:
  assumes "wrapper_ok w" "\<not> w_planned w" "batch_fits ps lens1 tables1 n w" "batch_fits ps lens2 tables2 n w"
    and "sum_list (map (pages ps) (take n lens1)) = sum_list (map (pages ps) (take n lens2))"
  shows "\<exists>w1 w2 pl. plan_decodes ps lens1 tables1 n w = Inr w1 \<and> plan_decodes ps lens2 tables2 n w1 = Inr w2 \<and> w_plan w2 = Some pl \<and>
    p_indptr pl = 0 # running_sums 0 (map (pages ps) (take n lens1)) \<and> take (n + 1) (indptr_buf w2) = 0 # running_sums 0 (map (pages ps) (take n lens2)) \<and>
    (pl = current_plan w2 n (sum_list (map (pages ps) (take n lens2))) ps \<longleftrightarrow>
       map (pages ps) (take n lens1) = map (pages ps) (take n lens2) \<and> map (last_len ps) (take n lens1) = map (last_len ps) (take n lens2))"
proof -
  let ?n1 = "map (pages ps) (take n lens1)" and ?n2 = "map (pages ps) (take n lens2)"
  have n: "n \<le> length lens1" "n \<le> length lens2" using assms(3,4) by (simp_all add: batch_fits_def)
  have seqs: "n \<le> w_max_num_seqs w" using assms(3) by (simp add: batch_fits_def)
  obtain w1 where w1: "plan_decodes ps lens1 tables1 n w = Inr w1" "indptr_buf w1 = set_slice (indptr_buf w) 0 (0 # running_sums 0 ?n1)"
    "last_page_len_buf w1 = set_slice (last_page_len_buf w) 0 (map (last_len ps) (take n lens1))"
    "w_max_num_seqs w1 = w_max_num_seqs w" "w_max_num_pages w1 = w_max_num_pages w" "w_planned w1" "w_last_batch_size w1 = Some n"
    "w_last_num_indices w1 = Some (sum_list ?n1)"
    "w_plan w1 = (if w_planned w \<and> w_last_batch_size w = Some n \<and> w_last_num_indices w = Some (sum_list ?n1) then w_plan w
                  else Some (current_plan w1 n (sum_list ?n1) ps))"
    by (rule plan_decodes_result[OF assms(1,3)])
  have ok1: "wrapper_ok w1" "batch_fits ps lens2 tables2 n w1"
    using wrapper_ok_planned[OF assms(1,3) w1(1)] assms(4) w1(4,5) by (simp_all add: batch_fits_def)
  obtain w2 where w2: "plan_decodes ps lens2 tables2 n w1 = Inr w2" "indptr_buf w2 = set_slice (indptr_buf w1) 0 (0 # running_sums 0 ?n2)"
    "last_page_len_buf w2 = set_slice (last_page_len_buf w1) 0 (map (last_len ps) (take n lens2))"
    "w_plan w2 = (if w_planned w1 \<and> w_last_batch_size w1 = Some n \<and> w_last_num_indices w1 = Some (sum_list ?n2) then w_plan w1
                  else Some (current_plan w2 n (sum_list ?n2) ps))"
    by (rule plan_decodes_result[OF ok1])
  have plans: "w_plan w1 = Some (current_plan w1 n (sum_list ?n1) ps)" "w_plan w2 = w_plan w1"
    using w1(6-9) w2(4) assms(2,5) by simp_all
  have first: "current_plan w1 n (sum_list ?n1) ps = \<lparr>p_indptr = 0 # running_sums 0 ?n1, p_last_page_len = map (last_len ps) (take n lens1),
      p_num_indices = sum_list ?n1, p_page_size = ps\<rparr>"
    using n seqs assms(1) by (simp add: current_plan_def w1(2,3) set_slice_def)
  have second: "current_plan w2 n (sum_list ?n2) ps = \<lparr>p_indptr = 0 # running_sums 0 ?n2, p_last_page_len = map (last_len ps) (take n lens2),
      p_num_indices = sum_list ?n2, p_page_size = ps\<rparr>"
    using n by (simp add: current_plan_def w2(2,3) set_slice_def)
  have now: "take (n + 1) (indptr_buf w2) = 0 # running_sums 0 ?n2" using n by (simp add: w2(2) set_slice_def)
  let ?pl = "current_plan w1 n (sum_list ?n1) ps"
  have "p_indptr ?pl = 0 # running_sums 0 ?n1" unfolding first by simp
  moreover have "?pl = current_plan w2 n (sum_list ?n2) ps \<longleftrightarrow> ?n1 = ?n2 \<and> map (last_len ps) (take n lens1) = map (last_len ps) (take n lens2)"
    unfolding first second using assms(5) by (simp add: running_sums_inj)
  moreover have "w_plan w2 = Some ?pl" using plans by (simp only:)
  ultimately show ?thesis using w1(1) w2(1) now by blast
qed

text \<open>Requests of 16 and 48 tokens, then requests of 32 and 32 tokens: four pages each time.\<close>

theorem plan_survives_other_batch_witness:
  "\<exists>w1 w2 pl. plan_decodes 16 [16, 48] [[1], [2, 3, 4]] 2 (init_wrapper 4 8) = Inr w1 \<and>
     plan_decodes 16 [32, 32] [[5, 6], [7, 8]] 2 w1 = Inr w2 \<and> w_plan w2 = Some pl \<and> p_indptr pl = [0, 1, 4] \<and> take 3 (indptr_buf w2) = [0, 2, 4]"
proof -
  have "wrapper_ok (init_wrapper 4 8)" "\<not> w_planned (init_wrapper 4 8)" "batch_fits 16 [16, 48] [[1], [2, 3, 4]] 2 (init_wrapper 4 8)"
    "batch_fits 16 [32, 32] [[5, 6], [7, 8]] 2 (init_wrapper 4 8)"
    by (auto simp: wrapper_ok_def batch_fits_def init_wrapper_def less_Suc_eq numeral_2_eq_2)
  from plan_survives_other_batch[OF this] obtain w1 w2 pl where "plan_decodes 16 [16, 48] [[1], [2, 3, 4]] 2 (init_wrapper 4 8) = Inr w1"
    "plan_decodes 16 [32, 32] [[5, 6], [7, 8]] 2 w1 = Inr w2" "w_plan w2 = Some pl" "p_indptr pl = 0 # running_sums 0 (map (pages 16) (take 2 [16, 48]))"
    "take (2 + 1) (indptr_buf w2) = 0 # running_sums 0 (map (pages 16) (take 2 [32, 32]))" by (elim meta_impE exE conjE) (simp, rule that)
  then show ?thesis by - (rule exI[of _ w1], rule exI[of _ w2], rule exI[of _ pl], simp)
qed

end
