(* ===== verification/Spec2Isabelle.thy ===== *)
theory Spec2Isabelle
  imports RabitQ_Run RabitQ_Old KV_Run KV_Cross Sched_Priority Decode_Attention Snap_KV Backend_Run Backend_Build
begin

text \<open>
  Verification development for RaBitQCache: sparse attention over a KV cache whose keys are kept a second time as 1-bit codes, from
  which the scores of all cached tokens are estimated so that only the promising tokens are attended to.

  \<^bold>\<open>The program.\<close> The repository has two halves. \<open>rabitqcache/pyimpl\<close> is the reference implementation: a patched attention
  module (\<open>attention.py\<close>) trains and fills a global \<open>RabitQState\<close> (\<open>rabitq.py\<close>, single-GPU variant \<open>rabitq_old.py\<close>) and asks a selector for a mask at
  each decode step; the selectors and estimators it is compared with stand beside it. \<open>RabitQCache-Efficiency/vllm\<close> is a vLLM tree with a serving backend:
  \<open>v1/attention/backends/rabitq.py\<close> with its Triton kernels (\<open>rabitq_ops.py\<close>), its CUDA kernels (\<open>csrc/rabitq_int4_binary.cu\<close>) and a FlashInfer wrapper
  (\<open>rabitq_flashinfer_ops.py\<close>), on top of vLLM's paged KV-cache manager (\<open>v1/core\<close>), to which a \<open>RabitQAttentionSpec\<close> was added. The scheduler (\<open>v1/core/sched\<close>) decides
  at each step which requests compute how many tokens, asks the manager for their blocks, and processes what the workers sampled.

  \<^bold>\<open>Theories and sources.\<close>
  \<^item> \<open>RQ_Prelude\<close>: Python errors, the result type, tensors with device, dtype and shape, list operations along one axis, what is relied on of sorting.
  \<^item> \<open>RabitQ_State\<close> (\<open>rabitq.py\<close>: the class and its selector), \<open>RabitQ_Quant\<close> (batched and incremental quantization equals a one-shot reference),
    \<open>RabitQ_Select\<close> (estimated scores and their error), \<open>TopP\<close> (the top-p rule), \<open>RabitQ_Run\<close> (a whole sequence from prefill through decode),
    \<open>RabitQ_Old\<close> (\<open>rabitq_old.py\<close> and where the two implementations agree), \<open>RabitQ_NoCenter\<close> (\<open>rabitq_no_center.py\<close>, the ablation without centroids).
  \<^item> \<open>Selectors\<close>, \<open>Estimators\<close>, \<open>Budget_Info\<close>, \<open>Decode_Attention\<close>, \<open>Snap_KV\<close>: the other selectors and estimators, the statistics of \<open>state.py\<close>, the compression of the prompt (\<open>snap_kv.py\<close>), and the decode stage of
    \<open>attention_forward\<close> over all of them. The locale \<open>index_selector\<close> is the contract between the two; every selector interprets it.
  \<^item> \<open>Block_Queue\<close>, \<open>Block_Hash\<close>, \<open>Block_Pool\<close>, \<open>Pool_Run\<close> (\<open>kv_cache_utils.py\<close>, \<open>block_pool.py\<close>): the linked free list, refined to a list through the
    locale \<open>free_list\<close>; block hashes; reference counts and prefix cache; all runs of a pool.
  \<^item> \<open>KV_Spec\<close>, \<open>KV_Config\<close> (\<open>kv_cache_interface.py\<close> and the memory layout), \<open>KV_Manager\<close>, \<open>KV_Hits\<close> (\<open>single_type_kv_cache_manager.py\<close>), \<open>KV_Owner\<close>,
    \<open>KV_Coordinator\<close>, \<open>KV_Life\<close>, \<open>KV_Run\<close>, \<open>KV_Cross\<close> (\<open>kv_cache_coordinator.py\<close>, \<open>kv_cache_manager.py\<close>): block tables, prefix hits, ownership of blocks in every reachable
    state, encoder-decoder models.
  \<^item> \<open>Sched_Request\<close> (\<open>request.py\<close>, \<open>sched/utils.py\<close>: requests, stop conditions), \<open>Heap_Queue\<close> (\<open>heapq\<close> with comparisons that may raise), \<open>Request_Queue\<close> (\<open>request_queue.py\<close>),
    \<open>Encoder_Cache\<close> (\<open>encoder_cache_manager.py\<close>), \<open>Scheduler\<close> (\<open>scheduler.py\<close>: the two loops of \<open>schedule\<close>), \<open>Sched_Engine\<close> (its outputs, \<open>update_from_output\<close>, adding and finishing requests,
    \<open>async_scheduler.py\<close>). \<open>Sched_Inv\<close>, \<open>Sched_Run\<close>, \<open>Sched_Step\<close>, \<open>Sched_Output\<close>: the invariant \<open>sched_inv\<close> through the loop over running requests, the loop over
    waiting ones, the whole step, and the processing of an output; the locales \<open>block_hashing\<close> and \<open>collision_free\<close> are what the scheduler relies on of the hasher, interpreted by the chained hasher of \<open>Block_Hash\<close>.
    \<open>Engine_Run\<close>: all runs of an engine; \<open>Sched_Priority\<close>: preemption with the priority policy.
  \<^item> \<open>Backend_Quant\<close> (key and query codes, packing, scores), \<open>Backend_TopP\<close> (the ternary search of the CUDA kernel), \<open>Backend_Mask\<close> (the mask kernel as an interleaving of
    the stores of its programs), \<open>Backend_State\<close> and \<open>Backend_Decode\<close> (the state of layers and requests, and everything \<open>forward\<close> does with it), \<open>Backend_Select\<close> (what decode
    batches select), \<open>Backend_Cache\<close> (slots and block tables), \<open>Backend_Run\<close> (the life of a request; the locale \<open>span_loop\<close> is the contract of the three loops over a batch),
    \<open>Backend_Build\<close> (metadata builder, page table, kept plan).
  \<^item> This theory: how the scheduler with its KV-cache manager and the serving backend fit together.

  \<^bold>\<open>What the lemmas show.\<close> For the reference implementation: the stored codes are those of the reference quantization at every moment, the mask has
  the documented shape, the scores the selector computes have a bounded error, short prompts stay dense. For the KV cache: no block leaks or is handed
  out twice, prefix hits are the longest cached prefixes and equal hashes mean equal prefixes (for requests without multi-modal inputs), allocation fails exactly for lack of blocks, the layout of memory is disjoint. For the scheduler: no call of an engine run raises,
  the limits on tokens and requests hold, requests are served in order, the table of requests holds exactly those that run or wait, blocks belong to running requests only and return when requests end. For the serving backend: the
  metadata of a request are the codes of its keys in the paged cache, whatever calls for other requests and layers come between (the prompt prefilled in one batch without a prefix hit, then decode batches; mixed batches,
  chunked prompts and prefix hits break it), the page table describes the sequences, scores of grouped queries have
  a bounded error and the top-p search ends with the smallest set; and, where the code does not do what it means to, exactly what it does instead (transposed
  rotation, lost pending tokens, tokens counted for preempted requests, the collapsed top-p mask, failing batches, stale plans, prefix hits).

  \<^bold>\<open>Conventions.\<close> Floating-point numbers are exact reals; conversions of dtype are a parameter (\<open>cast\<close>). The tensors of the RaBitQ classes carry their shapes, and a view, product or concatenation of tensors that do not fit raises. Sorting and \<open>topk\<close> of the tensor library, the hash function,
  and what the device decides (\<open>device_env\<close>) are parameters, with their documented behaviour as hypotheses where a theorem needs it, and reference instances in the witnesses. Exceptions are
  values of \<open>py_error\<close>. A loop that need not end is \<open>partial_function (option)\<close>, and that it ends is proved where it does (the top-p search, the incremental quantization); all other loops are
  structural or have a termination proof, so no fuel is used. Machine integers are words where the code packs bits or bytes. The objects that the scheduler and its queues share are an
  explicit store (\<open>objs\<close>). What other parts owe to a component are the conditions of its run relation (\<open>km_run\<close>, \<open>engine_run\<close>, \<open>backend_run\<close>); \<open>engine_run\<close> covers decoder-only models with the
  first-come-first-served policy, without speculative drafts, adapters and asynchronous steps, all of which the definitions of \<open>Scheduler\<close> and \<open>Sched_Engine\<close> contain.

  \<^bold>\<open>Not modelled.\<close> The attention kernels of FlashInfer, PyTorch and flash-attn and the compilation of their variants (other packages); loading of rotation matrices and kernel warm-up (I/O);
  the timing collector; methods that nothing calls; \<open>unify_kv_cache_configs\<close>; the KV connector of the scheduler (its model has \<open>connector is None\<close>)
  and the publication of events; vLLM's model runner, entry points, configuration and model executor (vendored upstream code); benchmarks and scripts.
\<close>

section \<open>Block tables of the manager in the serving backend\<close>

text \<open>The block numbers of a request, as \<open>KVCacheBlocks.get_block_ids\<close> passes them to the worker.\<close>

definition block_table :: "kv_manager \<Rightarrow> string \<Rightarrow> nat list" where
  "block_table k rid = map (\<lambda>b. nat (block_id b)) (table k rid)"

lemma block_table_facts:
  assumes "km_ok k"
  shows "distinct (block_table k rid)" "b \<in> set (block_table k rid) \<longleftrightarrow> Blk b \<in> set (table k rid)"
    "b \<in> set (block_table k rid) \<Longrightarrow> b < nat (num_gpu_blocks (the_pool k))"
proof -
  note own = ownedD(2,3)[OF km_okD(2)[OF assms], of rid]
  have tab: "distinct (table k rid)" "set (table k rid) \<subseteq> Blk ` usable (the_pool k)" using own by (simp_all add: table_def)
  have "inj_on (\<lambda>b. nat (block_id b)) (Blk ` usable (the_pool k))" by (auto intro: inj_onI)
  then show "distinct (block_table k rid)" using tab by (simp add: block_table_def distinct_map inj_on_subset)
  show mem: "b \<in> set (block_table k rid) \<longleftrightarrow> Blk b \<in> set (table k rid)" for b using tab(2) by (force simp: block_table_def)
  show "b < nat (num_gpu_blocks (the_pool k))" if "b \<in> set (block_table k rid)"
    using that tab(2) unfolding mem by (auto simp: usable_def)
qed

lemma private_block:
  assumes ok: "km_ok k" and b: "num_cached_block (the_manager k) rid' = Some nc" "b \<in> set (drop nc (block_table k rid'))" "rid \<noteq> rid'"
  shows "b \<notin> set (block_table k rid)"
proof
  assume "b \<in> set (block_table k rid)"
  then have "Blk b \<in> set (table k rid)" using block_table_facts(2)[OF ok] by simp
  moreover have t: "tail_ok (the_pool k) (the_manager k) rid'" "set (table k rid') \<subseteq> Blk ` usable (the_pool k)"
    using ownedD(3,6)[OF km_okD(2)[OF ok]] by (simp_all add: table_def)
  have "Blk b \<in> set (drop nc (table k rid'))"
  proof -
    obtain x where "x \<in> set (drop nc (table k rid'))" "b = nat (block_id x)" using b(2) by (auto simp: block_table_def drop_map)
    moreover from this(1) have "x \<in> Blk ` usable (the_pool k)" using t(2) by (meson in_set_dropD subsetD)
    ultimately show ?thesis by auto
  qed
  then have "owners (the_manager k) (Blk b) = {rid'}" using t(1) b(1) by (simp add: tail_ok_def table_def)
  ultimately show False using b(3) by (auto simp: owners_def table_def)
qed

text \<open>The slots of a request, and those of another one outside its blocks in the prefix cache.\<close>

lemma tables_serve:
  assumes ok: "km_ok k" and keys: "length keys = nat (num_gpu_blocks (the_pool k))" "bs = nat (block_size_of k)" "\<forall>blk \<in> set keys. length blk = bs"
  shows "n \<le> length (table k rid) * bs \<Longrightarrow> table_ok keys bs (block_table k rid) n"
    and "rid' \<noteq> rid \<Longrightarrow> num_cached_block (the_manager k) rid' = Some nc \<Longrightarrow> nc * bs \<le> p \<Longrightarrow> p < length (table k rid') * bs \<Longrightarrow> i < length (table k rid) * bs
      \<Longrightarrow> slot_of (block_table k rid') bs p \<noteq> slot_of (block_table k rid) bs i"
proof -
  have bs: "0 < bs" using km_okD(5)[OF ok] keys(2) by simp
  have len: "length (block_table k r) = length (table k r)" for r by (simp add: block_table_def)
  show "table_ok keys bs (block_table k rid) n" if "n \<le> length (table k rid) * bs"
    using block_table_facts[OF ok] keys(1,3) bs that by (auto simp: table_ok_def len)
  have blk: "slot_of tbl bs i div bs = tbl ! (i div bs)" for tbl i using bs by (simp add: slot_of_def)
  assume p: "rid' \<noteq> rid" "num_cached_block (the_manager k) rid' = Some nc" "nc * bs \<le> p" "p < length (table k rid') * bs" and i: "i < length (table k rid) * bs"
  show "slot_of (block_table k rid') bs p \<noteq> slot_of (block_table k rid) bs i"
  proof
    assume "slot_of (block_table k rid') bs p = slot_of (block_table k rid) bs i"
    then have eq: "block_table k rid' ! (p div bs) = block_table k rid ! (i div bs)" using blk by metis
    have j: "p div bs < length (block_table k rid')" "i div bs < length (block_table k rid)"
      using p(4) i by (simp_all add: len less_mult_imp_div_less)
    have "nc \<le> p div bs" using p(3) bs by (simp add: less_eq_div_iff_mult_less_eq)
    then have "block_table k rid' ! (p div bs) \<in> set (drop nc (block_table k rid'))"
      using j(1) by (auto simp: in_set_conv_nth intro!: exI[of _ "p div bs - nc"])
    then show False using private_block[OF ok p(2) _ p(1)[symmetric]] eq nth_mem[OF j(2)] by simp
  qed
qed

text \<open>C4. The engine gives the serving backend what it relies on. After every scheduling step of a run the computed tokens of a running request, those of the step included, are
  positions of its block table, which is a valid table for a key cache with the blocks of the manager's pool: every token that is scheduled has a slot. A
  position of another running request outside its blocks in the prefix cache is stored in none of these slots. So requests disturb each other's keys, and
  with them the metadata computed from them, at most in blocks shared through the prefix cache.\<close>

theorem engine_tables_serve_backend:
  assumes "engine_run c sz G caching bs s" "plain_engine c env" "0 \<le> max_num_scheduled_tokens c" "schedule c env s = Inr (out, ev, s')"
    and keys: "length keys = nat (num_gpu_blocks (the_pool (kv s')))" "\<forall>blk \<in> set keys. length blk = nat bs" and x: "x \<in> set (running s')"
  shows "table_ok keys (nat bs) (block_table (kv s') (rid_of s' x)) (nat (num_computed_tokens (objs s' x)))
    \<and> (\<forall>y \<in> set (running s'). \<forall>nc p. y \<noteq> x \<and> cached_blocks s' (rid_of s' y) = Some nc \<and> nc * nat bs \<le> p \<and> p < nat (num_computed_tokens (objs s' y)) \<longrightarrow>
         slot_of (block_table (kv s') (rid_of s' y)) (nat bs) p \<notin> slot_of (block_table (kv s') (rid_of s' x)) (nat bs) ` {..<nat (num_computed_tokens (objs s' x))})"
proof -
  obtain w where w: "sched_inv c sz G (caching, bs) (\<lambda>_. 0) w s" "waiting s = Fcfs_queue w" using engine_run_inv[OF assms(1)] by blast
  obtain w' where inv: "sched_inv c sz G (caching, bs) (\<lambda>_. 0) w' s'" using schedule_inv[OF assms(2) w assms(3)] assms(4) by auto
  note D = sched_invD[OF inv]
  have bs: "bs = block_size_of (kv s')" using D(16) by simp
  have room: "nat (num_computed_tokens (objs s' y)) \<le> length (table (kv s') (rid_of s' y)) * nat bs" if "y \<in> set (running s')" for y
    using runs_okD[OF D(10)[OF that]] km_okD(5)[OF D(1)] by (auto simp: bs nat_le_iff)
  note t = tables_serve[OF D(1) keys(1) arg_cong[OF bs, of nat] keys(2)]
  have "slot_of (block_table (kv s') (rid_of s' y)) (nat bs) p \<noteq> slot_of (block_table (kv s') (rid_of s' x)) (nat bs) i"
    if y: "y \<in> set (running s')" "y \<noteq> x" "cached_blocks s' (rid_of s' y) = Some nc" "nc * nat bs \<le> p" "p < nat (num_computed_tokens (objs s' y))"
      and i: "i < nat (num_computed_tokens (objs s' x))" for y nc p i
  proof (rule t(2)[OF _ y(3,4)])
    show "rid_of s' y \<noteq> rid_of s' x" using rid_inj[OF inv, of y x] y(1,2) x by auto
  qed (use y(5) i room[OF y(1)] room[OF x] in linarith)+
  then show ?thesis using t(1)[OF room[OF x]] by blast
qed

theorem engine_tables_serve_backend_witness:
  "\<exists>s out ev s'. demo_run s \<and> schedule (demo_sched_config FCFS) demo_sched_env s = Inr (out, ev, s') \<and> running s' = [0] \<and>
     table_ok (replicate (nat (num_gpu_blocks (the_pool (kv s')))) (replicate 16 (\<lambda>h d. 0))) 16 (block_table (kv s') (rid_of s' 0)) 20"
proof -
  have lim: "0 \<le> max_num_scheduled_tokens (demo_sched_config FCFS)" by (simp add: demo_sched_config_def)
  obtain s out ev s' where s: "demo_run s" "schedule (demo_sched_config FCFS) demo_sched_env s = Inr (out, ev, s')" "running s' = [0]" "num_computed_tokens (objs s' 0) = 20"
    by (rule demo_engine)
  let ?keys = "replicate (nat (num_gpu_blocks (the_pool (kv s')))) (replicate 16 (\<lambda>h d. 0 :: real))"
  have "length ?keys = nat (num_gpu_blocks (the_pool (kv s')))" "\<forall>blk \<in> set ?keys. length blk = nat 16" by simp_all
  moreover have "0 \<in> set (running s')" using s(3) by simp
  ultimately have "table_ok ?keys 16 (block_table (kv s') (rid_of s' 0)) 20" using engine_tables_serve_backend[OF s(1) demo_plain lim s(2), of ?keys 0] s(4) by simp
  then show ?thesis using s by - (rule exI[of _ s], rule exI[of _ out], rule exI[of _ ev], rule exI[of _ s'], simp)
qed

section \<open>Prefix hits in the serving backend\<close>

text \<open>C5. The serving backend does not know of prefix hits. When the manager serves the first tokens of a new request from the prefix cache, the prefill
  covers the other tokens only, and the backend counts from there: its token count is the number of computed tokens, less than the number of
  keys the block table holds, and row \<open>i\<close> of the metadata is the code of the key at position \<open>i\<close> plus the length of the hit. The mask
  derived from it, whose entry \<open>i\<close> the attention applies to position \<open>i\<close>, is shifted by the hit and too short.\<close>

theorem prefix_hit_shifts_metadata:
  assumes "forward e dm L (Some m) query key bs (keys, rt) = Inr ((kv', rt'), oc)" "request_states (layer_of rt L) r = None"
    and "batch_has m r idx start en" "start < en" "en \<le> length query" "length (slot_mapping m) \<le> length key" "1 < max_q_len m" "0 < e_block_d e"
    and "b_q rt \<noteq> None \<or> meta_b_q m \<noteq> None" "hit \<noteq> []" "table_holds keys tbl bs hit"
    and "table_ok keys bs tbl (length hit + (en - start))" "own_slots m bs tbl start (length hit) (en - start)"
  shows "\<exists>ls R st rows. layer_states rt' L = Some ls \<and> ls_rotation ls = Some R \<and> request_states ls r = Some st \<and> meta_rows st = Some rows \<and>
    table_holds kv' tbl bs (hit @ rows_between start en key) \<and> total_tokens st = en - start \<and>
    total_tokens st < length (hit @ rows_between start en key) \<and>
    (\<forall>i<total_tokens st. \<exists>k c. extract_key kv' tbl bs (length hit + i) = Inr k \<and> rows ! i = Some c \<and>
       is_code dm (snd R) (mean_rows (rows_between start en key)) (kv_centroid dm (mean_rows (rows_between start en query))) k c)"
proof -
  let ?qs = "rows_between start en query" and ?ps = "rows_between start en key"
  have "start + (en - start) \<le> length (slot_mapping m)" using assms(13) unfolding own_slots_def by blast
  then have en: "en \<le> length key" using assms(4,6) by linarith
  have n: "length ?ps = en - start" using en by (rule length_rows_between)
  have kv': "kv' = cache_write bs keys (slot_mapping m) key" using assms(1) by (rule forward_writes)
  have holds: "table_holds kv' tbl bs (hit @ ?ps)"
    using table_holds_write(1)[OF assms(12,13,11,6)] assms(4) by (simp add: kv')
  obtain ls where ls: "layer_states rt' L = Some ls" "tracks dm r ?qs ?ps ?ps ls"
    using forward_prefill_own[OF assms(1-5) en assms(7-9)] by blast
  obtain R st where st: "ls_rotation ls = Some R" "request_states ls r = Some st" "tracked dm ?qs ?ps ?ps (snd R) st"
    using ls(2) unfolding tracks_def by blast
  obtain rows where rows: "meta_rows st = Some rows"
    "rows_hold dm (snd R) (mean_rows ?ps) (kv_centroid dm (mean_rows ?qs)) ?ps (metadata_write_index st) rows"
    using st(3) unfolding tracked_def by blast
  have counts: "total_tokens st = en - start" "metadata_write_index st = en - start" using st(3) n unfolding tracked_def by auto
  have "\<exists>k c. extract_key kv' tbl bs (length hit + i) = Inr k \<and> rows ! i = Some c \<and>
      is_code dm (snd R) (mean_rows ?ps) (kv_centroid dm (mean_rows ?qs)) k c" if "i < total_tokens st" for i
  proof -
    have "extract_key kv' tbl bs (length hit + i) = Inr (?ps ! i)"
      using holds[unfolded table_holds_def, rule_format, of "length hit + i"] that n counts(1) by (simp add: nth_append)
    then show ?thesis using rows(2) that counts unfolding rows_hold_def by auto
  qed
  moreover have "total_tokens st < length (hit @ ?ps)" using counts(1) n assms(10) by simp
  ultimately show ?thesis using ls(1) st(1,2) rows(1) holds counts(1) by blast
qed

text \<open>A prompt of four tokens of which two are served from block 0.\<close>

theorem prefix_hit_shifts_metadata_witness:
  "\<exists>kv' rt' ls st. forward demo_env demo_dims ''L'' (Some demo_prefill) [demo_key 1, demo_key 2] [demo_key 3, demo_key 5] 2
       ([[demo_key 8, demo_key 9], [demo_key 0, demo_key 0]], demo_worker) = Inr ((kv', rt'), Dense) \<and>
     table_holds kv' [0, 1] 2 [demo_key 8, demo_key 9, demo_key 3, demo_key 5] \<and>
     layer_states rt' ''L'' = Some ls \<and> request_states ls ''r'' = Some st \<and> total_tokens st = 2"
proof -
  let ?keys = "[[demo_key 8, demo_key 9], [demo_key 0, demo_key 0]]"
  obtain kv' rt' where fwd: "forward demo_env demo_dims ''L'' (Some demo_prefill) [demo_key 1, demo_key 2] [demo_key 3, demo_key 5] 2 (?keys, demo_worker) =
      Inr ((kv', rt'), Dense)"
    by (simp add: forward_def forward_prefill_def update_prefill_stats_def spans_of_def demo_prefill_def demo_worker_def adopt_parameters_def
        Let_def case_prod_unfold)
  have "slot_of [0, 1] 2 2 = 2" "slot_of [0, 1] 2 3 = 3" by (simp_all add: slot_of_def)
  then have "slot_of [0, 1] 2 (Suc (Suc 0)) = 2" "slot_of [0, 1] 2 (Suc (Suc (Suc 0))) = 3"
    unfolding numeral_3_eq_3[symmetric] by (simp_all only: numeral_2_eq_2[symmetric])
  then have own: "own_slots demo_prefill 2 [0, 1] 0 (length [demo_key 8, demo_key 9]) (2 - 0)"
    by (simp add: own_slots_def demo_prefill_def All_less_Suc)
  have "\<exists>ls R st rows. layer_states rt' ''L'' = Some ls \<and> ls_rotation ls = Some R \<and> request_states ls ''r'' = Some st \<and> meta_rows st = Some rows \<and>
    table_holds kv' [0, 1] 2 ([demo_key 8, demo_key 9] @ rows_between 0 2 [demo_key 3, demo_key 5]) \<and> total_tokens st = 2 - 0 \<and>
    total_tokens st < length ([demo_key 8, demo_key 9] @ rows_between 0 2 [demo_key 3, demo_key 5]) \<and>
    (\<forall>i<total_tokens st. \<exists>k c. extract_key kv' [0, 1] 2 (length [demo_key 8, demo_key 9] + i) = Inr k \<and> rows ! i = Some c \<and>
       is_code demo_dims (snd R) (mean_rows (rows_between 0 2 [demo_key 3, demo_key 5])) (kv_centroid demo_dims (mean_rows (rows_between 0 2 [demo_key 1, demo_key 2]))) k c)"
    by (rule prefix_hit_shifts_metadata[OF fwd, where idx = 0])
       (use own in \<open>auto simp: layer_of_def init_layer_state_def batch_has_def demo_prefill_def demo_worker_def demo_env_def
          table_ok_def table_holds_def extract_key_def less_Suc_eq numeral_eq_Suc\<close>)
  then show ?thesis using fwd by (elim exE conjE) (intro exI conjI, assumption, simp add: rows_between_def numeral_eq_Suc, assumption+, simp)
qed

end
